(* ===== verification/Prelude.thy ===== *)
theory Prelude
  imports Main "HOL-Library.Word"
begin

text \<open>
  Shared vocabulary of the development.

  \<^item> What can stop a C++ operation: an assertion that fails, a standard-library exception, a call
    of \<^verbatim>\<open>abort\<close>, a step the language leaves undefined.  An operation that can stop is a function
    into \<open>error + 'a\<close>; \<open>bindR\<close> sequences two of them.
  \<^item> \<^verbatim>\<open>size_t\<close> arithmetic: natural numbers below \<open>2 ^ 64\<close> with the wrap-around written out in
    \<open>szadd\<close> and \<open>szsub\<close>, and the facts (collection \<open>no_wrap\<close>) that remove it under bounds.
  \<^item> Contiguous memory: \<open>seg\<close>, \<open>write_at\<close> and the \<^verbatim>\<open>std::vector\<close> operations the code calls.
  \<^item> Transition systems: \<open>reach\<close> and the locale \<open>inductive_invariant\<close>, which every
    interleaving model of the development interprets.
\<close>

section \<open>Errors and results\<close>

datatype error =
    AssertFailed      \<comment> \<open>a failed \<^verbatim>\<open>assert\<close>\<close>
  | LengthError       \<comment> \<open>\<^verbatim>\<open>std::length_error\<close> of a container\<close>
  | OutOfRange        \<comment> \<open>\<^verbatim>\<open>std::out_of_range\<close> of a string position\<close>
  | BadAlloc          \<comment> \<open>\<^verbatim>\<open>std::bad_alloc\<close> of \<^verbatim>\<open>operator new\<close>\<close>
  | Aborted           \<comment> \<open>\<^verbatim>\<open>abort()\<close>, also through \<^verbatim>\<open>LOG_SYSFATAL\<close>\<close>
  | Undefined         \<comment> \<open>undefined behaviour: a dead object, an access out of range\<close>

type_synonym 'a result = "error + 'a"

definition bindR :: "'a result \<Rightarrow> ('a \<Rightarrow> 'b result) \<Rightarrow> 'b result" where
  "bindR m f = (case m of Inl e \<Rightarrow> Inl e | Inr x \<Rightarrow> f x)"

lemma bindR_simps [simp]:
  "bindR (Inl e) f = Inl e"
  "bindR (Inr x) f = f x"
  by (simp_all add: bindR_def)

lemma bindR_eq_Inr: "bindR m f = Inr y \<longleftrightarrow> (\<exists>x. m = Inr x \<and> f x = Inr y)"
  by (cases m) auto

lemma bindR_InrE [elim]:
  assumes "bindR m f = Inr y"
  obtains x where "m = Inr x" and "f x = Inr y"
  using assms by (auto simp: bindR_eq_Inr)

lemma bindR_cong [fundef_cong]:
  "m = m' \<Longrightarrow> (\<And>x. m' = Inr x \<Longrightarrow> f x = f' x) \<Longrightarrow> bindR m f = bindR m' f'"
  by (cases m') auto

text \<open>A pointer dereference: a dead object is undefined behaviour.\<close>

definition derefR :: "('p \<rightharpoonup> 'o) \<Rightarrow> 'p \<Rightarrow> 'o result" where
  "derefR h p = (case h p of None \<Rightarrow> Inl Undefined | Some ob \<Rightarrow> Inr ob)"

lemma derefR_simps [simp]:
  "h p = Some ob \<Longrightarrow> derefR h p = Inr ob"
  "h p = None \<Longrightarrow> derefR h p = Inl Undefined"
  by (simp_all add: derefR_def)

lemma derefR_eq_Inr [simp]: "derefR h p = Inr ob \<longleftrightarrow> h p = Some ob"
  by (simp add: derefR_def split: option.splits)

text \<open>A left-to-right loop over a list of calls that stops at the first error.\<close>

fun foldR :: "('a \<Rightarrow> 's \<Rightarrow> 's result) \<Rightarrow> 'a list \<Rightarrow> 's \<Rightarrow> 's result" where
  "foldR f [] s = Inr s"
| "foldR f (x # xs) s = bindR (f x s) (foldR f xs)"

lemma foldR_append: "foldR f (xs @ ys) s = bindR (foldR f xs s) (foldR f ys)"
  by (induction xs arbitrary: s) (auto simp: bindR_def split: sum.splits)

lemma foldR_inv:
  assumes "foldR f xs s = Inr s'" and "I s"
    and "\<And>x t t'. x \<in> set xs \<Longrightarrow> I t \<Longrightarrow> f x t = Inr t' \<Longrightarrow> I t'"
  shows "I s'"
  using assms
proof (induction xs arbitrary: s)
  case Nil
  then show ?case by simp
next
  case (Cons x xs)
  from Cons.prems(1) obtain t where t: "f x s = Inr t" "foldR f xs t = Inr s'"
    by auto
  have "I t" using Cons.prems(2,3) t(1) by auto
  with t(2) show ?case by (rule Cons.IH) (use Cons.prems(3) in auto)
qed

section \<open>Machine integers\<close>

named_theorems no_wrap \<open>removal of the wrap-around under bounds\<close>

definition size_mod :: nat where
  "size_mod = 2 ^ 64"

definition szadd :: "nat \<Rightarrow> nat \<Rightarrow> nat" where
  "szadd a b = (a + b) mod size_mod"

definition szsub :: "nat \<Rightarrow> nat \<Rightarrow> nat" where
  "szsub a b = (a + size_mod - b) mod size_mod"

definition szmul :: "nat \<Rightarrow> nat \<Rightarrow> nat" where
  "szmul a b = (a * b) mod size_mod"

lemma size_mod_pos [simp]: "0 < size_mod"
  by (simp add: size_mod_def)

lemma szadd_no_wrap [no_wrap]: "a + b < size_mod \<Longrightarrow> szadd a b = a + b"
  by (simp add: szadd_def)

lemma szsub_no_wrap [no_wrap]: "b \<le> a \<Longrightarrow> a < size_mod \<Longrightarrow> szsub a b = a - b"
proof -
  assume "b \<le> a" "a < size_mod"
  then have "a + size_mod - b = (a - b) + size_mod" by simp
  moreover have "a - b < size_mod" using \<open>a < size_mod\<close> by simp
  ultimately show "szsub a b = a - b" unfolding szsub_def by (simp only: mod_add_self2 mod_less)
qed

lemma szmul_no_wrap [no_wrap]: "a * b < size_mod \<Longrightarrow> szmul a b = a * b"
  by (simp add: szmul_def)

lemma szadd_less [simp]: "szadd a b < size_mod"
  by (simp add: szadd_def)

lemma szsub_wrap: "a < b \<Longrightarrow> b \<le> size_mod \<Longrightarrow> szsub a b = a + size_mod - b"
  by (simp add: szsub_def)

lemma unat_bound: "unat w < 2 ^ LENGTH('a)" for w :: "'a::len word"
  by (rule unsigned_less)

section \<open>Bytes and contiguous memory\<close>

type_synonym byte = "8 word"

definition seg :: "nat \<Rightarrow> nat \<Rightarrow> 'a list \<Rightarrow> 'a list" where
  "seg i j xs = take (j - i) (drop i xs)"

definition write_at :: "nat \<Rightarrow> 'a list \<Rightarrow> 'a list \<Rightarrow> 'a list" where
  "write_at i ys xs = take i xs @ ys @ drop (i + length ys) xs"

lemma length_seg [simp]: "j \<le> length xs \<Longrightarrow> length (seg i j xs) = j - i"
  by (simp add: seg_def)

lemma seg_empty [simp]: "seg i i xs = []"
  by (simp add: seg_def)

lemma seg_split:
  "i \<le> k \<Longrightarrow> k \<le> j \<Longrightarrow> seg i j xs = seg i k xs @ seg k j xs"
proof -
  assume "i \<le> k" "k \<le> j"
  then have "j - i = (k - i) + (j - k)" and "k = i + (k - i)" by simp_all
  then show ?thesis
    by (metis seg_def take_add drop_drop add.commute)
qed

lemma take_seg: "k \<le> j - i \<Longrightarrow> take k (seg i j xs) = seg i (i + k) xs"
  by (simp add: seg_def)

lemma drop_seg: "drop k (seg i j xs) = seg (i + k) j xs"
  by (simp add: seg_def drop_take add.commute)

lemma seg_append_left: "j \<le> length xs \<Longrightarrow> seg i j (xs @ ys) = seg i j xs"
  by (simp add: seg_def)

lemma length_write_at [simp]:
  "i + length ys \<le> length xs \<Longrightarrow> length (write_at i ys xs) = length xs"
  by (simp add: write_at_def)

lemma seg_write_at_same [simp]:
  "i + length ys \<le> length xs \<Longrightarrow> seg i (i + length ys) (write_at i ys xs) = ys"
  by (simp add: seg_def write_at_def)

lemma seg_write_at_before:
  "j \<le> i \<Longrightarrow> i + length ys \<le> length xs \<Longrightarrow> seg k j (write_at i ys xs) = seg k j xs"
  by (auto simp: seg_def write_at_def drop_take min_def)

lemma seg_write_at_after:
  "i + length ys \<le> k \<Longrightarrow> i + length ys \<le> length xs \<Longrightarrow>
   seg k j (write_at i ys xs) = seg k j xs"
  by (simp add: seg_def write_at_def)

text \<open>\<^verbatim>\<open>std::copy\<close> into a vector: writing past its end is undefined.\<close>

definition std_copy :: "nat \<Rightarrow> 'a list \<Rightarrow> 'a list \<Rightarrow> 'a list result" where
  "std_copy i ys xs =
     (if i + length ys \<le> length xs then Inr (write_at i ys xs) else Inl Undefined)"

text \<open>\<^verbatim>\<open>std::vector<char>::max_size()\<close> is the largest \<^verbatim>\<open>ptrdiff_t\<close>.\<close>

definition max_size :: nat where
  "max_size = 2 ^ 63 - 1"

definition vector_resize :: "nat \<Rightarrow> 'a \<Rightarrow> 'a list \<Rightarrow> 'a list result" where
  "vector_resize n z xs =
     (if n \<le> max_size then Inr (take n xs @ replicate (n - length xs) z) else Inl LengthError)"

lemma max_size_less: "2 * max_size < size_mod"
  by (simp add: max_size_def size_mod_def)

lemma vector_resize_grow:
  "n \<le> max_size \<Longrightarrow> length xs \<le> n \<Longrightarrow>
   vector_resize n z xs = Inr (xs @ replicate (n - length xs) z)"
  by (simp add: vector_resize_def)

section \<open>Transition systems\<close>

inductive reach :: "('s \<Rightarrow> bool) \<Rightarrow> ('s \<Rightarrow> 's \<Rightarrow> bool) \<Rightarrow> 's \<Rightarrow> bool"
  for init :: "'s \<Rightarrow> bool" and step :: "'s \<Rightarrow> 's \<Rightarrow> bool" where
  reach_init: "init s \<Longrightarrow> reach init step s"
| reach_step: "reach init step s \<Longrightarrow> step s t \<Longrightarrow> reach init step t"

locale inductive_invariant =
  fixes init :: "'s \<Rightarrow> bool"
    and step :: "'s \<Rightarrow> 's \<Rightarrow> bool"
    and inv :: "'s \<Rightarrow> bool"
  assumes inv_init: "init s \<Longrightarrow> inv s"
    and inv_step: "inv s \<Longrightarrow> step s t \<Longrightarrow> inv t"
begin

lemma reach_inv: "reach init step s \<Longrightarrow> inv s"
  by (induction rule: reach.induct) (auto intro: inv_init inv_step)

lemma steps_inv: "step\<^sup>*\<^sup>* s t \<Longrightarrow> inv s \<Longrightarrow> inv t"
  by (induction rule: rtranclp_induct) (auto intro: inv_step)

end

text \<open>A system given by a partial function of actions, and a run of a list of them.\<close>

fun run_exec :: "('a \<Rightarrow> 's \<Rightarrow> 's option) \<Rightarrow> 'a list \<Rightarrow> 's \<Rightarrow> 's option" where
  "run_exec exec [] s = Some s"
| "run_exec exec (a # as) s = (case exec a s of None \<Rightarrow> None | Some t \<Rightarrow> run_exec exec as t)"

lemma run_exec_reach:
  assumes "\<And>a s t. exec a s = Some t \<Longrightarrow> step s t"
  shows "reach init step s \<Longrightarrow> run_exec exec as s = Some t \<Longrightarrow> reach init step t"
proof (induction as arbitrary: s)
  case (Cons a as)
  then obtain u where u: "exec a s = Some u" "run_exec exec as u = Some t" by (auto split: option.splits)
  show ?case by (rule Cons.IH [OF reach_step [OF Cons.prems(1) assms [OF u(1)]] u(2)])
qed simp

end
