(* ===== verification/Buffer.thy ===== *)
theory Buffer
  imports Prelude
begin

text \<open>
  The byte buffer of \<^verbatim>\<open>net/Buffer.h\<close> and \<^verbatim>\<open>net/Buffer.cpp\<close>.

  A \<open>Buffer\<close> is the vector and its two indices; a pointer into the vector is an offset from
  \<^verbatim>\<open>begin()\<close>, the null pointer is \<open>None\<close>.  Every assertion of the class is a branch to
  \<open>AssertFailed\<close>, so a run that returns \<open>Inr\<close> is also the run of a build without assertions.
  \<open>content\<close> is the abstraction: the readable bytes.  The locale \<open>byte_stream\<close> states what a client
  of a buffer relies on (append at the back, retrieve at the front) and is interpreted on the class;
  \<^verbatim>\<open>readv\<close> is a parameter of \<open>Buffer_readFd\<close>.

  A data member keeps its name without the trailing underscore, here and in every other theory.
  The source of an \<^verbatim>\<open>append\<close> or \<^verbatim>\<open>prepend\<close> is memory outside the vector.
\<close>

section \<open>State\<close>

record Buffer =
  buffer :: "byte list"
  readerIndex :: nat
  writerIndex :: nat

definition kCheapPrepend :: nat where
  "kCheapPrepend = 8"

definition kInitialSize :: nat where
  "kInitialSize = 1024"

definition kCRLF :: "byte list" where
  "kCRLF = [13, 10]"

definition Buffer_readableBytes :: "Buffer \<Rightarrow> nat" where
  "Buffer_readableBytes b = szsub (writerIndex b) (readerIndex b)"

definition Buffer_writableBytes :: "Buffer \<Rightarrow> nat" where
  "Buffer_writableBytes b = szsub (length (buffer b)) (writerIndex b)"

definition Buffer_prependableBytes :: "Buffer \<Rightarrow> nat" where
  "Buffer_prependableBytes b = readerIndex b"

definition Buffer_peek :: "Buffer \<Rightarrow> nat" where
  "Buffer_peek b = readerIndex b"

definition Buffer_beginWrite :: "Buffer \<Rightarrow> nat" where
  "Buffer_beginWrite b = writerIndex b"

definition Buffer_new :: "nat \<Rightarrow> Buffer result" where
  "Buffer_new initialSize =
     bindR (vector_resize (szadd kCheapPrepend initialSize) 0 []) (\<lambda>v.
       let b = \<lparr>buffer = v, readerIndex = kCheapPrepend, writerIndex = kCheapPrepend\<rparr> in
       if Buffer_readableBytes b \<noteq> 0 then Inl AssertFailed
       else if Buffer_writableBytes b \<noteq> initialSize then Inl AssertFailed
       else if Buffer_prependableBytes b \<noteq> kCheapPrepend then Inl AssertFailed
       else Inr b)"

definition Buffer_swap :: "Buffer \<Rightarrow> Buffer \<Rightarrow> Buffer \<times> Buffer" where
  "Buffer_swap b rhs = (rhs, b)"

section \<open>Searching\<close>

text \<open>
  \<^verbatim>\<open>std::search\<close> returns the first position where the pattern matches and the end of the range
  when there is none; \<^verbatim>\<open>memchr\<close> returns the first position of a byte or a null pointer.
\<close>

fun std_search :: "'a list \<Rightarrow> 'a list \<Rightarrow> nat" where
  "std_search pat [] = 0"
| "std_search pat (x # xs) =
     (if take (length pat) (x # xs) = pat then 0 else Suc (std_search pat xs))"

fun memchr :: "'a \<Rightarrow> 'a list \<Rightarrow> nat option" where
  "memchr c [] = None"
| "memchr c (x # xs) = (if x = c then Some 0 else map_option Suc (memchr c xs))"

definition Buffer_findCRLF_from :: "Buffer \<Rightarrow> nat \<Rightarrow> nat option result" where
  "Buffer_findCRLF_from b start =
     (if \<not> Buffer_peek b \<le> start then Inl AssertFailed
      else if \<not> start \<le> Buffer_beginWrite b then Inl AssertFailed
      else let crlf = start + std_search kCRLF (seg start (Buffer_beginWrite b) (buffer b))
           in Inr (if crlf = Buffer_beginWrite b then None else Some crlf))"

definition Buffer_findCRLF :: "Buffer \<Rightarrow> nat option" where
  "Buffer_findCRLF b =
     (let crlf = Buffer_peek b
                 + std_search kCRLF (seg (Buffer_peek b) (Buffer_beginWrite b) (buffer b))
      in if crlf = Buffer_beginWrite b then None else Some crlf)"

definition Buffer_findEOL :: "Buffer \<Rightarrow> nat option" where
  "Buffer_findEOL b =
     map_option (\<lambda>i. Buffer_peek b + i)
       (memchr 10 (take (Buffer_readableBytes b) (drop (Buffer_peek b) (buffer b))))"

definition Buffer_findEOL_from :: "Buffer \<Rightarrow> nat \<Rightarrow> nat option result" where
  "Buffer_findEOL_from b start =
     (if \<not> Buffer_peek b \<le> start then Inl AssertFailed
      else if \<not> start \<le> Buffer_beginWrite b then Inl AssertFailed
      else Inr (map_option (\<lambda>i. start + i)
             (memchr 10 (seg start (Buffer_beginWrite b) (buffer b)))))"

section \<open>Retrieving\<close>

definition Buffer_retrieveAll :: "Buffer \<Rightarrow> Buffer" where
  "Buffer_retrieveAll b = b\<lparr>readerIndex := kCheapPrepend, writerIndex := kCheapPrepend\<rparr>"

definition Buffer_retrieve :: "Buffer \<Rightarrow> nat \<Rightarrow> Buffer result" where
  "Buffer_retrieve b len =
     (if \<not> len \<le> Buffer_readableBytes b then Inl AssertFailed
      else if len < Buffer_readableBytes b
      then Inr (b\<lparr>readerIndex := szadd (readerIndex b) len\<rparr>)
      else Inr (Buffer_retrieveAll b))"

definition Buffer_retrieveUntil :: "Buffer \<Rightarrow> nat \<Rightarrow> Buffer result" where
  "Buffer_retrieveUntil b endp =
     (if \<not> Buffer_peek b \<le> endp then Inl AssertFailed
      else if \<not> endp \<le> Buffer_beginWrite b then Inl AssertFailed
      else Buffer_retrieve b (endp - Buffer_peek b))"

definition Buffer_retrieveInt64 :: "Buffer \<Rightarrow> Buffer result" where
  "Buffer_retrieveInt64 b = Buffer_retrieve b 8"

definition Buffer_retrieveInt32 :: "Buffer \<Rightarrow> Buffer result" where
  "Buffer_retrieveInt32 b = Buffer_retrieve b 4"

definition Buffer_retrieveInt16 :: "Buffer \<Rightarrow> Buffer result" where
  "Buffer_retrieveInt16 b = Buffer_retrieve b 2"

definition Buffer_retrieveInt8 :: "Buffer \<Rightarrow> Buffer result" where
  "Buffer_retrieveInt8 b = Buffer_retrieve b 1"

definition Buffer_retrieveAsString :: "Buffer \<Rightarrow> nat \<Rightarrow> (byte list \<times> Buffer) result" where
  "Buffer_retrieveAsString b len =
     (if \<not> len \<le> Buffer_readableBytes b then Inl AssertFailed
      else let result = take len (drop (Buffer_peek b) (buffer b))
           in bindR (Buffer_retrieve b len) (\<lambda>b'. Inr (result, b')))"

definition Buffer_retrieveAllAsString :: "Buffer \<Rightarrow> (byte list \<times> Buffer) result" where
  "Buffer_retrieveAllAsString b = Buffer_retrieveAsString b (Buffer_readableBytes b)"

section \<open>Appending and prepending\<close>

definition Buffer_makeSpace :: "Buffer \<Rightarrow> nat \<Rightarrow> Buffer result" where
  "Buffer_makeSpace b len =
     (if szadd (Buffer_writableBytes b) (Buffer_prependableBytes b) < szadd len kCheapPrepend
      then bindR (vector_resize (szadd (writerIndex b) len) 0 (buffer b))
             (\<lambda>v. Inr (b\<lparr>buffer := v\<rparr>))
      else if \<not> kCheapPrepend < readerIndex b then Inl AssertFailed
      else let readable = Buffer_readableBytes b in
        bindR (std_copy kCheapPrepend (seg (readerIndex b) (writerIndex b) (buffer b)) (buffer b))
          (\<lambda>v. let b' = b\<lparr>buffer := v, readerIndex := kCheapPrepend,
                          writerIndex := szadd kCheapPrepend readable\<rparr>
               in if readable \<noteq> Buffer_readableBytes b' then Inl AssertFailed else Inr b'))"

definition Buffer_ensureWritableBytes :: "Buffer \<Rightarrow> nat \<Rightarrow> Buffer result" where
  "Buffer_ensureWritableBytes b len =
     bindR (if Buffer_writableBytes b < len then Buffer_makeSpace b len else Inr b)
       (\<lambda>b'. if \<not> len \<le> Buffer_writableBytes b' then Inl AssertFailed else Inr b')"

definition Buffer_hasWritten :: "Buffer \<Rightarrow> nat \<Rightarrow> Buffer result" where
  "Buffer_hasWritten b len =
     (if \<not> len \<le> Buffer_writableBytes b then Inl AssertFailed
      else Inr (b\<lparr>writerIndex := szadd (writerIndex b) len\<rparr>))"

definition Buffer_unwrite :: "Buffer \<Rightarrow> nat \<Rightarrow> Buffer result" where
  "Buffer_unwrite b len =
     (if \<not> len \<le> Buffer_readableBytes b then Inl AssertFailed
      else Inr (b\<lparr>writerIndex := szsub (writerIndex b) len\<rparr>))"

definition Buffer_append :: "Buffer \<Rightarrow> byte list \<Rightarrow> Buffer result" where
  "Buffer_append b data =
     bindR (Buffer_ensureWritableBytes b (length data)) (\<lambda>b1.
       bindR (std_copy (Buffer_beginWrite b1) data (buffer b1)) (\<lambda>v.
         Buffer_hasWritten (b1\<lparr>buffer := v\<rparr>) (length data)))"

definition Buffer_prepend :: "Buffer \<Rightarrow> byte list \<Rightarrow> Buffer result" where
  "Buffer_prepend b data =
     (if \<not> length data \<le> Buffer_prependableBytes b then Inl AssertFailed
      else let r = szsub (readerIndex b) (length data) in
        bindR (std_copy r data (buffer b)) (\<lambda>v. Inr (b\<lparr>buffer := v, readerIndex := r\<rparr>)))"

text \<open>
  \<^verbatim>\<open>htobe64\<close> and its kin put an integer's bytes in memory most significant first;
  \<open>be_bytes k v\<close> are the \<open>k\<close> bytes of that representation.
\<close>

fun be_bytes :: "nat \<Rightarrow> nat \<Rightarrow> byte list" where
  "be_bytes 0 v = []"
| "be_bytes (Suc k) v = of_nat (v div 256 ^ k) # be_bytes k (v mod 256 ^ k)"

definition be_value :: "byte list \<Rightarrow> nat" where
  "be_value bs = foldl (\<lambda>a c. a * 256 + unat c) 0 bs"

definition Buffer_prependInt64 :: "Buffer \<Rightarrow> 64 word \<Rightarrow> Buffer result" where
  "Buffer_prependInt64 b x = Buffer_prepend b (be_bytes 8 (unat x))"

definition Buffer_prependInt32 :: "Buffer \<Rightarrow> 32 word \<Rightarrow> Buffer result" where
  "Buffer_prependInt32 b x = Buffer_prepend b (be_bytes 4 (unat x))"

definition Buffer_prependInt16 :: "Buffer \<Rightarrow> 16 word \<Rightarrow> Buffer result" where
  "Buffer_prependInt16 b x = Buffer_prepend b (be_bytes 2 (unat x))"

definition Buffer_prependInt8 :: "Buffer \<Rightarrow> 8 word \<Rightarrow> Buffer result" where
  "Buffer_prependInt8 b x = Buffer_prepend b [x]"

definition Buffer_shrink :: "Buffer \<Rightarrow> nat \<Rightarrow> Buffer result" where
  "Buffer_shrink b reserve =
     bindR (Buffer_new kInitialSize) (\<lambda>other.
       bindR (Buffer_ensureWritableBytes other (szadd (Buffer_readableBytes b) reserve)) (\<lambda>other.
         bindR (Buffer_append other
                  (take (Buffer_readableBytes b) (drop (Buffer_peek b) (buffer b)))) (\<lambda>other.
           Inr (fst (Buffer_swap b other)))))"

section \<open>Reading from a descriptor\<close>

text \<open>
  \<^verbatim>\<open>readv\<close> takes the lengths of the I/O vectors and returns the bytes it scattered into them, in
  order, or an error number.  What the code relies on: it never delivers more bytes than the
  vectors hold.
\<close>

type_synonym readv_fun = "nat list \<Rightarrow> int + byte list"

definition readv_bounded :: "readv_fun \<Rightarrow> bool" where
  "readv_bounded readv \<longleftrightarrow> (\<forall>iov d. readv iov = Inr d \<longrightarrow> length d \<le> sum_list iov)"

definition extrabuf_size :: nat where
  "extrabuf_size = 65536"

text \<open>The result: the return value, the saved error number if one was stored, the buffer.\<close>

definition readFd_iov :: "nat \<Rightarrow> nat list" where
  "readFd_iov writable =
     (if writable < extrabuf_size then [writable, extrabuf_size] else [writable])"

definition Buffer_readFd :: "readv_fun \<Rightarrow> Buffer \<Rightarrow> (int \<times> int option \<times> Buffer) result" where
  "Buffer_readFd readv b =
     (let writable = Buffer_writableBytes b
      in case readv (readFd_iov writable) of
           Inl err \<Rightarrow> Inr (-1, Some err, b)
         | Inr d \<Rightarrow>
             bindR (std_copy (writerIndex b) (take writable d) (buffer b)) (\<lambda>v.
               let b1 = b\<lparr>buffer := v\<rparr> in
               if length d \<le> writable
               then Inr (int (length d), None,
                         b1\<lparr>writerIndex := szadd (writerIndex b1) (length d)\<rparr>)
               else bindR (Buffer_append (b1\<lparr>writerIndex := length (buffer b1)\<rparr>)
                             (drop writable d))
                      (\<lambda>b2. Inr (int (length d), None, b2))))"

section \<open>Invariant and abstraction\<close>

definition Buffer_inv :: "Buffer \<Rightarrow> bool" where
  "Buffer_inv b \<longleftrightarrow> readerIndex b \<le> writerIndex b \<and> writerIndex b \<le> length (buffer b) \<and>
     kCheapPrepend \<le> length (buffer b) \<and> length (buffer b) \<le> max_size"

definition content :: "Buffer \<Rightarrow> byte list" where
  "content b = seg (readerIndex b) (writerIndex b) (buffer b)"

lemma Buffer_invD:
  assumes "Buffer_inv b"
  shows "readerIndex b \<le> writerIndex b" and "writerIndex b \<le> length (buffer b)"
    and "kCheapPrepend \<le> length (buffer b)" and "length (buffer b) \<le> max_size"
  using assms by (simp_all add: Buffer_inv_def)

lemma Buffer_bounds:
  assumes "Buffer_inv b"
  shows "writerIndex b < size_mod" and "length (buffer b) < size_mod"
  using Buffer_invD [OF assms] max_size_less by linarith+

lemma readable_eq [simp]: "Buffer_inv b \<Longrightarrow> Buffer_readableBytes b = writerIndex b - readerIndex b"
  by (simp add: Buffer_readableBytes_def no_wrap Buffer_bounds Buffer_invD)

lemma writable_eq [simp]:
  "Buffer_inv b \<Longrightarrow> Buffer_writableBytes b = length (buffer b) - writerIndex b"
  by (simp add: Buffer_writableBytes_def no_wrap Buffer_bounds Buffer_invD)

lemma length_content: "Buffer_inv b \<Longrightarrow> length (content b) = writerIndex b - readerIndex b"
  by (simp add: content_def Buffer_invD)

lemma content_taken:
  "Buffer_inv b \<Longrightarrow> n \<le> writerIndex b - readerIndex b \<Longrightarrow>
   take n (drop (readerIndex b) (buffer b)) = take n (content b)"
  by (simp add: content_def seg_def)

lemma szadd_small: "a \<le> max_size \<Longrightarrow> c \<le> max_size \<Longrightarrow> szadd a c = a + c"
  using max_size_less by (simp add: no_wrap)

text \<open>The two shapes a buffer has after making room: grown at the back, or compacted.\<close>

lemma kCheapPrepend_le_max: "kCheapPrepend \<le> max_size"
  by (simp add: kCheapPrepend_def max_size_def)

lemma szadd_len_prepend: "len \<le> max_size \<Longrightarrow> szadd len kCheapPrepend = len + kCheapPrepend"
  by (rule szadd_small) (auto simp: kCheapPrepend_le_max)

lemma writable_prependable_sum:
  assumes "Buffer_inv b"
  shows "szadd (Buffer_writableBytes b) (Buffer_prependableBytes b)
         = length (buffer b) - writerIndex b + readerIndex b"
proof -
  have "szadd (length (buffer b) - writerIndex b) (readerIndex b)
        = length (buffer b) - writerIndex b + readerIndex b"
    using Buffer_invD [OF assms] by (intro szadd_small) linarith+
  then show ?thesis using assms by (simp add: Buffer_prependableBytes_def)
qed

lemma makeSpace_grow:
  assumes inv: "Buffer_inv b" and len: "len \<le> max_size"
    and short: "length (buffer b) - writerIndex b + readerIndex b < len + kCheapPrepend"
    and need: "length (buffer b) - writerIndex b < len"
  shows "Buffer_makeSpace b len =
     (if writerIndex b + len \<le> max_size
      then Inr (b\<lparr>buffer := buffer b @ replicate (writerIndex b + len - length (buffer b)) 0\<rparr>)
      else Inl LengthError)"
proof -
  have add: "szadd (writerIndex b) len = writerIndex b + len"
    using Buffer_invD [OF inv] len by (intro szadd_small) linarith+
  have le: "length (buffer b) \<le> writerIndex b + len"
    using need by linarith
  show ?thesis
    using short le
    by (simp add: Buffer_makeSpace_def writable_prependable_sum [OF inv] szadd_len_prepend [OF len]
        add vector_resize_def)
qed

lemma makeSpace_compact:
  assumes inv: "Buffer_inv b" and len: "len \<le> max_size"
    and enough: "len + kCheapPrepend \<le> length (buffer b) - writerIndex b + readerIndex b"
    and need: "length (buffer b) - writerIndex b < len"
  shows "Buffer_makeSpace b len =
     Inr (b\<lparr>buffer := write_at kCheapPrepend (content b) (buffer b),
           readerIndex := kCheapPrepend,
           writerIndex := kCheapPrepend + length (content b)\<rparr>)"
    and "kCheapPrepend + length (content b) + len \<le> length (buffer b)"
proof -
  note D = Buffer_invD [OF inv]
  have c: "length (content b) = writerIndex b - readerIndex b"
    by (rule length_content [OF inv])
  have r: "kCheapPrepend < readerIndex b" using enough need by linarith
  show room: "kCheapPrepend + length (content b) + len \<le> length (buffer b)"
    using c enough D by linarith
  have copy: "std_copy kCheapPrepend (content b) (buffer b)
              = Inr (write_at kCheapPrepend (content b) (buffer b))"
    using room by (simp add: std_copy_def)
  have add: "szadd kCheapPrepend (writerIndex b - readerIndex b)
             = kCheapPrepend + (writerIndex b - readerIndex b)"
    using D kCheapPrepend_le_max by (intro szadd_small) linarith+
  have sub: "szsub (kCheapPrepend + (writerIndex b - readerIndex b)) kCheapPrepend
             = writerIndex b - readerIndex b"
    using room c D max_size_less by (subst szsub_no_wrap) linarith+
  have rd: "szsub (writerIndex b) (readerIndex b) = writerIndex b - readerIndex b"
    using D Buffer_bounds [OF inv] by (simp add: no_wrap)
  have nlt: "\<not> length (buffer b) - writerIndex b + readerIndex b < len + kCheapPrepend"
    using enough by linarith
  show "Buffer_makeSpace b len =
     Inr (b\<lparr>buffer := write_at kCheapPrepend (content b) (buffer b),
           readerIndex := kCheapPrepend, writerIndex := kCheapPrepend + length (content b)\<rparr>)"
    using r unfolding Buffer_makeSpace_def writable_prependable_sum [OF inv]
      szadd_len_prepend [OF len] Buffer_readableBytes_def rd content_def [symmetric] copy
    by (simp add: nlt add c sub)
qed

lemma compact_content:
  assumes "kCheapPrepend + length (content b) \<le> length (buffer b)"
  shows "content (b\<lparr>buffer := write_at kCheapPrepend (content b) (buffer b),
           readerIndex := kCheapPrepend, writerIndex := kCheapPrepend + length (content b)\<rparr>)
         = content b"
  using assms unfolding content_def [of "b\<lparr>buffer := _, readerIndex := _, writerIndex := _\<rparr>"] by simp

lemma ensureWritable_cases:
  assumes inv: "Buffer_inv b" and len: "len \<le> max_size"
  obtains (fail) "Buffer_ensureWritableBytes b len = Inl LengthError"
      and "max_size < writerIndex b + len"
  | (ok) b' where "Buffer_ensureWritableBytes b len = Inr b'" and "Buffer_inv b'"
      and "content b' = content b" and "writerIndex b' + len \<le> length (buffer b')"
      and "length (buffer b') \<le> max (length (buffer b)) (writerIndex b + len)"
proof -
  note D = Buffer_invD [OF inv]
  consider (room) "len \<le> length (buffer b) - writerIndex b"
    | (grow) "length (buffer b) - writerIndex b < len"
        "length (buffer b) - writerIndex b + readerIndex b < len + kCheapPrepend"
    | (compact) "length (buffer b) - writerIndex b < len"
        "len + kCheapPrepend \<le> length (buffer b) - writerIndex b + readerIndex b"
    by linarith
  then show thesis
  proof cases
    case room
    then have "Buffer_ensureWritableBytes b len = Inr b"
      using inv by (simp add: Buffer_ensureWritableBytes_def)
    with room inv D show thesis by (intro ok [of b]) auto
  next
    case grow
    show thesis
    proof (cases "writerIndex b + len \<le> max_size")
      case True
      let ?b = "b\<lparr>buffer := buffer b @ replicate (writerIndex b + len - length (buffer b)) 0\<rparr>"
      have i: "Buffer_inv ?b" using True D grow by (simp add: Buffer_inv_def)
      have "content ?b = content b" using D by (simp add: content_def seg_append_left)
      moreover have "Buffer_ensureWritableBytes b len = Inr ?b"
        using makeSpace_grow [OF inv len grow(2,1)] True grow(1) inv i
        by (simp add: Buffer_ensureWritableBytes_def)
      ultimately show thesis using i grow by (intro ok [of ?b]) auto
    next
      case False
      then show thesis
        using makeSpace_grow [OF inv len grow(2,1)] grow(1) inv
        by (intro fail) (simp_all add: Buffer_ensureWritableBytes_def)
    qed
  next
    case compact
    let ?b = "b\<lparr>buffer := write_at kCheapPrepend (content b) (buffer b),
               readerIndex := kCheapPrepend, writerIndex := kCheapPrepend + length (content b)\<rparr>"
    note room = makeSpace_compact(2) [OF inv len compact(2,1)]
    have i: "Buffer_inv ?b" using room D by (simp add: Buffer_inv_def)
    moreover have "Buffer_ensureWritableBytes b len = Inr ?b"
      using makeSpace_compact(1) [OF inv len compact(2,1)] compact(1) inv i room
      by (simp add: Buffer_ensureWritableBytes_def)
    moreover have "content ?b = content b" using room by (intro compact_content) simp
    ultimately show thesis using room by (intro ok [of ?b]) auto
  qed
qed

lemma append_after_ensure:
  assumes inv: "Buffer_inv b1" and room: "writerIndex b1 + length data \<le> length (buffer b1)"
  shows "\<exists>b'. bindR (std_copy (Buffer_beginWrite b1) data (buffer b1)) (\<lambda>v.
               Buffer_hasWritten (b1\<lparr>buffer := v\<rparr>) (length data)) = Inr b' \<and>
           Buffer_inv b' \<and> content b' = content b1 @ data \<and> length (buffer b') = length (buffer b1) \<and>
           writerIndex b' = writerIndex b1 + length data"
proof -
  note D = Buffer_invD [OF inv]
  let ?v = "write_at (writerIndex b1) data (buffer b1)"
  let ?b = "b1\<lparr>buffer := ?v, writerIndex := writerIndex b1 + length data\<rparr>"
  have "Buffer_inv (b1\<lparr>buffer := ?v\<rparr>)" and i: "Buffer_inv ?b"
    using D room by (simp_all add: Buffer_inv_def)
  moreover have "szadd (writerIndex b1) (length data) = writerIndex b1 + length data"
    using D room by (intro szadd_small) linarith+
  moreover have "content ?b = content b1 @ data"
    using D room seg_split [of "readerIndex b1" "writerIndex b1" "writerIndex b1 + length data" ?v]
    by (simp add: content_def seg_write_at_before)
  ultimately show ?thesis using room i
    by (simp add: std_copy_def Buffer_beginWrite_def Buffer_hasWritten_def)
qed

lemma append_cases:
  assumes inv: "Buffer_inv b" and len: "length data \<le> max_size"
  obtains (fail) "Buffer_append b data = Inl LengthError"
      and "max_size < writerIndex b + length data"
  | (ok) b' where "Buffer_append b data = Inr b'" and "Buffer_inv b'"
      and "content b' = content b @ data"
      and "length (buffer b') \<le> max (length (buffer b)) (writerIndex b + length data)"
  using inv len
proof (cases rule: ensureWritable_cases)
  case fail
  then show thesis by (intro that(1)) (simp_all add: Buffer_append_def)
next
  case (ok b1)
  from append_after_ensure [OF ok(2,4)] obtain b' where
    "bindR (std_copy (Buffer_beginWrite b1) data (buffer b1)) (\<lambda>v.
       Buffer_hasWritten (b1\<lparr>buffer := v\<rparr>) (length data)) = Inr b'"
    "Buffer_inv b'" "content b' = content b1 @ data" "length (buffer b') = length (buffer b1)"
    by blast
  with ok show thesis by (intro that(2) [of b']) (simp_all add: Buffer_append_def)
qed

section \<open>Retrieving, prepending\<close>

lemma retrieveAll_ok:
  "Buffer_inv b \<Longrightarrow> Buffer_inv (Buffer_retrieveAll b) \<and> content (Buffer_retrieveAll b) = []"
  by (simp add: Buffer_inv_def Buffer_retrieveAll_def content_def)

lemma retrieve_ok:
  assumes inv: "Buffer_inv b" and n: "n \<le> length (content b)"
  shows "\<exists>b'. Buffer_retrieve b n = Inr b' \<and> Buffer_inv b' \<and> content b' = drop n (content b)"
proof (cases "n < length (content b)")
  case True
  note D = Buffer_invD [OF inv]
  let ?b = "b\<lparr>readerIndex := readerIndex b + n\<rparr>"
  have c: "length (content b) = writerIndex b - readerIndex b" by (rule length_content [OF inv])
  have "szadd (readerIndex b) n = readerIndex b + n"
    using D True c by (intro szadd_small) linarith+
  moreover have "Buffer_inv ?b" using D True c by (simp add: Buffer_inv_def)
  moreover have "content ?b = drop n (content b)" by (simp add: content_def drop_seg)
  ultimately show ?thesis using True inv c by (simp add: Buffer_retrieve_def)
next
  case False
  then show ?thesis
    using n inv retrieveAll_ok [OF inv] by (simp add: Buffer_retrieve_def length_content)
qed

lemma retrieve_too_much:
  "Buffer_inv b \<Longrightarrow> length (content b) < n \<Longrightarrow> Buffer_retrieve b n = Inl AssertFailed"
  by (simp add: Buffer_retrieve_def length_content)

lemma retrieveAsString_ok:
  assumes inv: "Buffer_inv b" and n: "n \<le> length (content b)"
  shows "\<exists>b'. Buffer_retrieveAsString b n = Inr (take n (content b), b') \<and> Buffer_inv b' \<and>
              content b' = drop n (content b)"
proof -
  from retrieve_ok [OF inv n] obtain b' where
    "Buffer_retrieve b n = Inr b'" "Buffer_inv b'" "content b' = drop n (content b)"
    by blast
  moreover have "take n (drop (readerIndex b) (buffer b)) = take n (content b)"
    using n inv by (intro content_taken) (simp_all add: length_content)
  ultimately show ?thesis
    using n inv by (simp add: Buffer_retrieveAsString_def Buffer_peek_def length_content)
qed

lemma prepend_ok:
  assumes inv: "Buffer_inv b" and n: "length data \<le> readerIndex b"
  shows "\<exists>b'. Buffer_prepend b data = Inr b' \<and> Buffer_inv b' \<and> content b' = data @ content b \<and>
           readerIndex b' = readerIndex b - length data"
proof -
  note D = Buffer_invD [OF inv]
  let ?r = "readerIndex b - length data"
  let ?v = "write_at ?r data (buffer b)"
  have sub: "szsub (readerIndex b) (length data) = ?r"
    using n D Buffer_bounds [OF inv] by (intro szsub_no_wrap) linarith+
  have fit: "?r + length data \<le> length (buffer b)" and r: "?r + length data = readerIndex b"
    using n D by simp_all
  have "seg ?r (writerIndex b) ?v = seg ?r (readerIndex b) ?v @ seg (readerIndex b) (writerIndex b) ?v"
    using D by (intro seg_split) simp_all
  moreover have "seg ?r (readerIndex b) ?v = data"
    using seg_write_at_same [OF fit] by (simp only: r)
  moreover have "seg (readerIndex b) (writerIndex b) ?v = content b"
    unfolding content_def using r fit by (intro seg_write_at_after) simp_all
  ultimately have "content (b\<lparr>buffer := ?v, readerIndex := ?r\<rparr>) = data @ content b"
    by (simp add: content_def)
  moreover have "Buffer_inv (b\<lparr>buffer := ?v, readerIndex := ?r\<rparr>)"
    using D fit by (simp add: Buffer_inv_def)
  ultimately show ?thesis
    using n fit by (simp add: Buffer_prepend_def Buffer_prependableBytes_def sub std_copy_def Let_def)
qed

section \<open>Big-endian integers\<close>

lemma length_be_bytes [simp]: "length (be_bytes k v) = k"
  by (induction k v rule: be_bytes.induct) simp_all

lemma be_value_foldl: "foldl (\<lambda>a c. a * 256 + unat c) x bs = x * 256 ^ length bs + be_value bs"
  for bs :: "byte list"
proof (induction bs arbitrary: x)
  case Nil
  then show ?case by (simp add: be_value_def)
next
  case (Cons c bs)
  show ?case
    using Cons.IH [of "x * 256 + unat c"] Cons.IH [of "unat c"]
    by (simp add: be_value_def algebra_simps)
qed

lemma be_value_Cons: "be_value (c # bs) = unat c * 256 ^ length bs + be_value bs"
  using be_value_foldl [of "unat c" bs] by (simp add: be_value_def)

lemma be_value_be_bytes: "v < 256 ^ k \<Longrightarrow> be_value (be_bytes k v) = v"
proof (induction k v rule: be_bytes.induct)
  case (1 v)
  then show ?case by (simp add: be_value_def)
next
  case (2 k v)
  from "2.prems" have "v div 256 ^ k < 256"
    by (simp add: less_mult_imp_div_less mult.commute)
  then have "unat (of_nat (v div 256 ^ k) :: byte) = v div 256 ^ k"
    by (simp add: unat_of_nat take_bit_eq_mod)
  then show ?case using "2.IH" div_mult_mod_eq [of v "256 ^ k"] by (simp add: be_value_Cons)
qed

section \<open>Searching\<close>

lemma std_search_bound: "std_search pat xs \<le> length xs"
  by (induction xs) simp_all

lemma std_search_no_earlier: "j < std_search pat xs \<Longrightarrow> take (length pat) (drop j xs) \<noteq> pat"
proof (induction xs arbitrary: j)
  case Nil
  then show ?case by simp
next
  case (Cons x xs)
  then show ?case by (cases j) (auto split: if_splits)
qed

lemma std_search_match:
  "std_search pat xs < length xs \<Longrightarrow> take (length pat) (drop (std_search pat xs) xs) = pat"
  by (induction xs) (auto split: if_splits)

lemma memchr_Some:
  "memchr c xs = Some i \<longleftrightarrow> i < length xs \<and> xs ! i = c \<and> (\<forall>j<i. xs ! j \<noteq> c)"
proof (induction xs arbitrary: i)
  case Nil
  then show ?case by simp
next
  case (Cons x xs)
  show ?case
  proof (cases i)
    case 0
    then show ?thesis by auto
  next
    case (Suc k)
    then show ?thesis using Cons.IH [of k] by (auto simp: less_Suc_eq_0_disj nth_Cons split: nat.splits)
  qed
qed

lemma memchr_None: "memchr c xs = None \<longleftrightarrow> c \<notin> set xs"
  by (induction xs) auto

text \<open>\<open>crlf_at xs i\<close>: a carriage return and a line feed stand at \<open>i\<close>.\<close>

definition crlf_at :: "byte list \<Rightarrow> nat \<Rightarrow> bool" where
  "crlf_at xs i \<longleftrightarrow> i + 1 < length xs \<and> xs ! i = 13 \<and> xs ! (i + 1) = 10"

lemma crlf_at_take: "take (length kCRLF) (drop i xs) = kCRLF \<longleftrightarrow> crlf_at xs i"
proof (cases "i + 1 < length xs")
  case True
  then have "drop i xs = xs ! i # xs ! (i + 1) # drop (i + 2) xs"
    by (simp add: Cons_nth_drop_Suc)
  then show ?thesis using True by (simp add: kCRLF_def crlf_at_def)
next
  case False
  then have "length (take (length kCRLF) (drop i xs)) \<noteq> length kCRLF" by (simp add: kCRLF_def)
  then have "take (length kCRLF) (drop i xs) \<noteq> kCRLF" by metis
  then show ?thesis using False by (simp add: crlf_at_def)
qed

lemma std_search_kCRLF:
  shows "std_search kCRLF xs = i \<and> i < length xs \<longleftrightarrow> crlf_at xs i \<and> (\<forall>j<i. \<not> crlf_at xs j)"
    and "std_search kCRLF xs = length xs \<longleftrightarrow> (\<forall>j. \<not> crlf_at xs j)"
proof -
  have no: "\<forall>j < std_search kCRLF xs. \<not> crlf_at xs j"
    using std_search_no_earlier [of _ kCRLF xs] by (simp add: crlf_at_take)
  have yes: "std_search kCRLF xs < length xs \<Longrightarrow> crlf_at xs (std_search kCRLF xs)"
    using std_search_match [of kCRLF xs] by (simp add: crlf_at_take)
  have le: "std_search kCRLF xs \<le> length xs" by (rule std_search_bound)
  show "std_search kCRLF xs = i \<and> i < length xs \<longleftrightarrow> crlf_at xs i \<and> (\<forall>j<i. \<not> crlf_at xs j)"
    using no yes le by (metis crlf_at_def add_lessD1 linorder_neqE_nat order_le_imp_less_or_eq)
  show "std_search kCRLF xs = length xs \<longleftrightarrow> (\<forall>j. \<not> crlf_at xs j)"
    using no yes le by (metis crlf_at_def add_lessD1 order_le_imp_less_or_eq)
qed

section \<open>The stream contract\<close>

text \<open>
  A client that appends and retrieves sees a first-in-first-out queue of bytes; \<open>fifo_run\<close> is that
  queue.  \<open>stream_run\<close> is the client over any implementation of the operations.
\<close>

datatype stream_op = Put "byte list" | Get nat

fun stream_run ::
  "('b \<Rightarrow> byte list \<Rightarrow> 'b result) \<Rightarrow> ('b \<Rightarrow> nat \<Rightarrow> (byte list \<times> 'b) result) \<Rightarrow>
   stream_op list \<Rightarrow> 'b \<Rightarrow> (byte list \<times> 'b) result" where
  "stream_run app str [] b = Inr ([], b)"
| "stream_run app str (Put d # ops) b = bindR (app b d) (stream_run app str ops)"
| "stream_run app str (Get n # ops) b =
     bindR (str b n) (\<lambda>(out, b'). bindR (stream_run app str ops b')
       (\<lambda>(outs, b''). Inr (out @ outs, b'')))"

fun fifo_run :: "stream_op list \<Rightarrow> byte list \<Rightarrow> (byte list \<times> byte list) option" where
  "fifo_run [] q = Some ([], q)"
| "fifo_run (Put d # ops) q = fifo_run ops (q @ d)"
| "fifo_run (Get n # ops) q =
     (if n \<le> length q
      then map_option (\<lambda>(outs, q'). (take n q @ outs, q')) (fifo_run ops (drop n q))
      else None)"

fun put_bytes :: "stream_op list \<Rightarrow> byte list" where
  "put_bytes [] = []"
| "put_bytes (Put d # ops) = d @ put_bytes ops"
| "put_bytes (Get n # ops) = put_bytes ops"

lemma fifo_run_order: "fifo_run ops q = Some (out, q') \<Longrightarrow> out @ q' = q @ put_bytes ops"
proof (induction ops q arbitrary: out q' rule: fifo_run.induct)
  case (1 q)
  then show ?case by simp
next
  case (2 d ops q)
  then show ?case by simp
next
  case (3 n ops q)
  from "3.prems" obtain outs where n: "n \<le> length q"
    and r: "fifo_run ops (drop n q) = Some (outs, q')" and out: "out = take n q @ outs"
    by (auto split: if_splits)
  from "3.IH" [OF n r] have "outs @ q' = drop n q @ put_bytes ops" .
  then have "out @ q' = take n q @ drop n q @ put_bytes ops" using out by simp
  then show ?case by (simp add: append_assoc [symmetric])
qed

locale byte_stream =
  fixes inv :: "'b \<Rightarrow> bool"
    and cont :: "'b \<Rightarrow> byte list"
    and cap :: "'b \<Rightarrow> nat"
    and app :: "'b \<Rightarrow> byte list \<Rightarrow> 'b result"
    and ret :: "'b \<Rightarrow> nat \<Rightarrow> 'b result"
    and str :: "'b \<Rightarrow> nat \<Rightarrow> (byte list \<times> 'b) result"
  assumes app_total: "inv b \<Longrightarrow> cap b + length d \<le> max_size \<Longrightarrow>
        \<exists>b'. app b d = Inr b' \<and> cap b' \<le> cap b + length d"
    and app_sound: "inv b \<Longrightarrow> length d \<le> max_size \<Longrightarrow> app b d = Inr b' \<Longrightarrow>
        inv b' \<and> cont b' = cont b @ d"
    and ret_total: "inv b \<Longrightarrow> n \<le> length (cont b) \<Longrightarrow>
        \<exists>b'. ret b n = Inr b' \<and> inv b' \<and> cont b' = drop n (cont b) \<and> cap b' = cap b"
    and ret_short: "inv b \<Longrightarrow> length (cont b) < n \<Longrightarrow> ret b n = Inl AssertFailed"
    and str_ret: "inv b \<Longrightarrow> str b n = bindR (ret b n) (\<lambda>b'. Inr (take n (cont b), b'))"
begin

lemma stream_refines:
  assumes "inv b" and "cap b + length (put_bytes ops) \<le> max_size"
  shows "case fifo_run ops (cont b) of
           None \<Rightarrow> stream_run app str ops b = Inl AssertFailed
         | Some (out, q) \<Rightarrow> \<exists>b'. stream_run app str ops b = Inr (out, b') \<and> inv b' \<and> cont b' = q"
  using assms
proof (induction ops arbitrary: b)
  case Nil
  then show ?case by simp
next
  case (Cons x ops)
  show ?case
  proof (cases x)
    case (Put d)
    obtain b' where b': "app b d = Inr b'" "cap b' \<le> cap b + length d"
      using app_total [OF Cons.prems(1), of d] Cons.prems(2) Put by auto
    have "inv b'" and c: "cont b' = cont b @ d"
      using app_sound [OF Cons.prems(1) _ b'(1)] Cons.prems(2) Put by auto
    moreover have "cap b' + length (put_bytes ops) \<le> max_size" using b'(2) Cons.prems(2) Put by simp
    ultimately show ?thesis using Cons.IH [of b'] Put b'(1) by (auto split: option.splits)
  next
    case (Get n)
    show ?thesis
    proof (cases "n \<le> length (cont b)")
      case True
      then obtain b' where b': "ret b n = Inr b'" "inv b'" "cont b' = drop n (cont b)" "cap b' = cap b"
        using ret_total [OF Cons.prems(1)] by blast
      then have "cap b' + length (put_bytes ops) \<le> max_size" using Cons.prems(2) Get by simp
      with Cons.IH [of b'] b' True Get Cons.prems(1) show ?thesis
        by (fastforce simp: str_ret split: option.splits)
    next
      case False
      then show ?thesis using ret_short [OF Cons.prems(1)] Get Cons.prems(1) by (simp add: str_ret)
    qed
  qed
qed

end

interpretation buf: byte_stream Buffer_inv content "\<lambda>b. length (buffer b)"
  Buffer_append Buffer_retrieve Buffer_retrieveAsString
proof (unfold_locales, goal_cases)
  case (1 b d)
  have "length d \<le> max_size" using 1 by simp
  with 1(1) show ?case
  proof (cases rule: append_cases)
    case fail
    then show ?thesis using 1 Buffer_invD(2) [OF 1(1)] by linarith
  next
    case (ok b')
    then show ?thesis using Buffer_invD(2) [OF 1(1)] by auto
  qed
next
  case (2 b d b')
  from 2(1,2) show ?case using 2(3) by (cases rule: append_cases) auto
next
  case (3 b n)
  have "Buffer_retrieve b n = Inr b' \<Longrightarrow> length (buffer b') = length (buffer b)" for b'
    by (auto simp: Buffer_retrieve_def Buffer_retrieveAll_def split: if_splits)
  then show ?case using retrieve_ok [OF 3] by blast
next
  case (4 b n)
  then show ?case by (rule retrieve_too_much)
next
  case (5 b n)
  show ?case
  proof (cases "n \<le> length (content b)")
    case True
    then show ?thesis
      using retrieve_ok [OF 5 True] retrieveAsString_ok [OF 5 True] 5
      by (auto simp: Buffer_retrieveAsString_def Let_def split: if_splits)
  next
    case False
    then show ?thesis
      using 5 retrieve_too_much [OF 5, of n]
      by (simp add: Buffer_retrieveAsString_def length_content)
  qed
qed

section \<open>Construction, shrinking, reading from a descriptor\<close>

lemma new_ok:
  assumes "n + kCheapPrepend \<le> max_size"
  shows "\<exists>b. Buffer_new n = Inr b \<and> Buffer_inv b \<and> content b = [] \<and>
             length (buffer b) = kCheapPrepend + n \<and> writerIndex b = kCheapPrepend"
proof -
  let ?b = "\<lparr>buffer = replicate (kCheapPrepend + n) 0, readerIndex = kCheapPrepend,
             writerIndex = kCheapPrepend\<rparr>"
  have "szadd kCheapPrepend n = kCheapPrepend + n"
    using assms kCheapPrepend_le_max by (intro szadd_small) linarith+
  moreover have i: "Buffer_inv ?b" using assms by (simp add: Buffer_inv_def)
  moreover have "Buffer_readableBytes ?b = 0" and "Buffer_writableBytes ?b = n"
    using i by simp_all
  ultimately show ?thesis
    using assms
    by (simp add: Buffer_new_def vector_resize_def Buffer_prependableBytes_def content_def)
qed

lemma shrink_ok:
  assumes inv: "Buffer_inv b" and len: "length (content b) + reserve + kCheapPrepend \<le> max_size"
  shows "\<exists>b'. Buffer_shrink b reserve = Inr b' \<and> Buffer_inv b' \<and> content b' = content b \<and>
           reserve \<le> Buffer_writableBytes b' \<and>
           length (buffer b') \<le> kCheapPrepend + max kInitialSize (length (content b) + reserve)"
proof -
  let ?n = "length (content b)"
  have "kInitialSize + kCheapPrepend \<le> max_size"
    by (simp add: kInitialSize_def kCheapPrepend_def max_size_def)
  then obtain o1 where o1: "Buffer_new kInitialSize = Inr o1" "Buffer_inv o1" "content o1 = []"
      "length (buffer o1) = kCheapPrepend + kInitialSize" "writerIndex o1 = kCheapPrepend"
    using new_ok by blast
  have add: "szadd (Buffer_readableBytes b) reserve = ?n + reserve"
    using len inv by (simp add: length_content [OF inv, symmetric] szadd_small)
  have "?n + reserve \<le> max_size" using len by simp
  with o1(2) obtain o2 where o2: "Buffer_ensureWritableBytes o1 (?n + reserve) = Inr o2"
      "Buffer_inv o2" "content o2 = []" "writerIndex o2 + (?n + reserve) \<le> length (buffer o2)"
      "length (buffer o2) \<le> kCheapPrepend + max kInitialSize (?n + reserve)"
    using o1 len by (cases rule: ensureWritable_cases [of o1 "?n + reserve"]) auto
  have fit: "writerIndex o2 + length (content b) \<le> length (buffer o2)" using o2(4) by linarith
  then have nfit: "\<not> length (buffer o2) - writerIndex o2 < length (content b)" by linarith
  obtain o3 where o3: "Buffer_append o2 (content b) = Inr o3" "Buffer_inv o3" "content o3 = content b"
      "length (buffer o3) = length (buffer o2)" "writerIndex o3 = writerIndex o2 + ?n"
  proof -
    have "Buffer_ensureWritableBytes o2 (length (content b)) = Inr o2"
      using nfit o2(2) by (simp add: Buffer_ensureWritableBytes_def)
    then show thesis
      using append_after_ensure [OF o2(2) fit] o2(3) that by (auto simp: Buffer_append_def)
  qed
  have taken: "take (Buffer_readableBytes b) (drop (Buffer_peek b) (buffer b)) = content b"
    using inv content_taken [OF inv order_refl]
    by (simp add: Buffer_peek_def length_content [OF inv, symmetric])
  have "Buffer_shrink b reserve = Inr o3"
    by (simp add: Buffer_shrink_def o1(1) add o2(1) taken o3(1) Buffer_swap_def)
  then show ?thesis using o3 o2(4,5) by auto
qed

lemma readFd_ok:
  assumes inv: "Buffer_inv b" and readv: "readv_bounded readv"
    and room: "length (buffer b) + extrabuf_size \<le> max_size"
  shows "(\<exists>err. Buffer_readFd readv b = Inr (-1, Some err, b)) \<or>
         (\<exists>d b'. Buffer_readFd readv b = Inr (int (length d), None, b') \<and> Buffer_inv b' \<and>
              content b' = content b @ d \<and>
              readv (readFd_iov (Buffer_writableBytes b)) = Inr d)"
proof -
  note D = Buffer_invD [OF inv]
  let ?w = "length (buffer b) - writerIndex b"
  let ?iov = "readFd_iov ?w"
  show ?thesis
  proof (cases "readv ?iov")
    case (Inl err)
    then show ?thesis using inv by (simp add: Buffer_readFd_def Let_def)
  next
    case (Inr d)
    then have "length d \<le> sum_list ?iov" using readv unfolding readv_bounded_def by blast
    then have d: "length d \<le> ?w + extrabuf_size" by (simp add: readFd_iov_def split: if_splits)
    let ?v = "write_at (writerIndex b) (take ?w d) (buffer b)"
    have copy: "std_copy (writerIndex b) (take ?w d) (buffer b) = Inr ?v"
      using D by (simp add: std_copy_def)
    have tw: "writerIndex b + length (take ?w d) \<le> length (buffer b)" using D by simp
    show ?thesis
    proof (cases "length d \<le> ?w")
      case True
      then have fit: "writerIndex b + length d \<le> length (buffer b)" using D by linarith
      have add: "szadd (writerIndex b) (length d) = writerIndex b + length d"
        using D True by (intro szadd_small) linarith+
      let ?b = "b\<lparr>buffer := ?v, writerIndex := writerIndex b + length d\<rparr>"
      have "Buffer_inv ?b" using D fit True by (simp add: Buffer_inv_def)
      moreover have "content ?b = content b @ d"
        using D True fit
          seg_split [of "readerIndex b" "writerIndex b" "writerIndex b + length d" ?v]
        by (simp add: content_def seg_write_at_before)
      ultimately show ?thesis
        using True Inr copy inv by (simp add: Buffer_readFd_def Let_def add)
    next
      case False
      let ?b = "b\<lparr>buffer := ?v, writerIndex := length ?v\<rparr>"
      have lv: "length ?v = length (buffer b)" using tw by simp
      have i: "Buffer_inv ?b" using D lv by (simp add: Buffer_inv_def)
      have c: "content ?b = content b @ take ?w d"
        using D lv False tw seg_write_at_same [OF tw]
          seg_split [of "readerIndex b" "writerIndex b" "length (buffer b)" ?v]
        by (simp add: content_def seg_write_at_before)
      have "length (drop ?w d) \<le> extrabuf_size" using d by simp
      then have "length (buffer ?b) + length (drop ?w d) \<le> max_size" using room lv by simp
      then obtain b' where b': "Buffer_append ?b (drop ?w d) = Inr b'"
        using buf.app_total [OF i] by blast
      moreover have "Buffer_inv b' \<and> content b' = content ?b @ drop ?w d"
        using buf.app_sound [OF i _ b'] \<open>length (drop ?w d) \<le> extrabuf_size\<close> room by simp
      ultimately show ?thesis
        using False Inr copy inv c lv by (simp add: Buffer_readFd_def Let_def)
    qed
  qed
qed

section \<open>Every public operation keeps the invariant\<close>

text \<open>
  One rule per public mutator; a byte range handed to an operation is an object in memory, so its
  length is at most \<open>max_size\<close>.
\<close>

inductive Buffer_step :: "Buffer \<Rightarrow> Buffer \<Rightarrow> bool" where
  step_retrieve: "Buffer_retrieve b n = Inr b' \<Longrightarrow> Buffer_step b b'"
| step_retrieveAll: "Buffer_step b (Buffer_retrieveAll b)"
| step_retrieveAsString: "Buffer_retrieveAsString b n = Inr (s, b') \<Longrightarrow> Buffer_step b b'"
| step_append: "length d \<le> max_size \<Longrightarrow> Buffer_append b d = Inr b' \<Longrightarrow> Buffer_step b b'"
| step_ensure: "n \<le> max_size \<Longrightarrow> Buffer_ensureWritableBytes b n = Inr b' \<Longrightarrow> Buffer_step b b'"
| step_hasWritten: "Buffer_hasWritten b n = Inr b' \<Longrightarrow> Buffer_step b b'"
| step_unwrite: "Buffer_unwrite b n = Inr b' \<Longrightarrow> Buffer_step b b'"
| step_prepend: "Buffer_prepend b d = Inr b' \<Longrightarrow> Buffer_step b b'"
| step_shrink: "length (content b) + n + kCheapPrepend \<le> max_size \<Longrightarrow>
     Buffer_shrink b n = Inr b' \<Longrightarrow> Buffer_step b b'"
| step_readFd: "readv_bounded readv \<Longrightarrow> length (buffer b) + extrabuf_size \<le> max_size \<Longrightarrow>
     Buffer_readFd readv b = Inr (n, err, b') \<Longrightarrow> Buffer_step b b'"

definition Buffer_init :: "Buffer \<Rightarrow> bool" where
  "Buffer_init b \<longleftrightarrow> (\<exists>n. n + kCheapPrepend \<le> max_size \<and> Buffer_new n = Inr b)"

lemma hasWritten_inv: "Buffer_inv b \<Longrightarrow> Buffer_hasWritten b n = Inr b' \<Longrightarrow> Buffer_inv b'"
proof -
  assume inv: "Buffer_inv b" and h: "Buffer_hasWritten b n = Inr b'"
  note D = Buffer_invD [OF inv]
  from h inv have n: "n \<le> length (buffer b) - writerIndex b"
    and b': "b' = b\<lparr>writerIndex := szadd (writerIndex b) n\<rparr>"
    by (auto simp: Buffer_hasWritten_def split: if_splits)
  have "szadd (writerIndex b) n = writerIndex b + n"
    using n D by (intro szadd_small) linarith+
  then show "Buffer_inv b'" using D n b' by (auto simp: Buffer_inv_def)
qed

lemma unwrite_inv: "Buffer_inv b \<Longrightarrow> Buffer_unwrite b n = Inr b' \<Longrightarrow> Buffer_inv b'"
proof -
  assume inv: "Buffer_inv b" and u: "Buffer_unwrite b n = Inr b'"
  note D = Buffer_invD [OF inv]
  from u inv have n: "n \<le> writerIndex b - readerIndex b"
    and b': "b' = b\<lparr>writerIndex := szsub (writerIndex b) n\<rparr>"
    by (auto simp: Buffer_unwrite_def split: if_splits)
  have "szsub (writerIndex b) n = writerIndex b - n"
    using n Buffer_bounds [OF inv] by (intro szsub_no_wrap) linarith+
  then show "Buffer_inv b'" using D n b' by (auto simp: Buffer_inv_def)
qed

lemma retrieve_inv: "Buffer_inv b \<Longrightarrow> Buffer_retrieve b n = Inr b' \<Longrightarrow> Buffer_inv b'"
  using retrieve_ok retrieve_too_much by (metis Inl_Inr_False not_le sum.inject(2))

lemma prepend_inv: "Buffer_inv b \<Longrightarrow> Buffer_prepend b d = Inr b' \<Longrightarrow> Buffer_inv b'"
  using prepend_ok [of b d]
  by (fastforce simp: Buffer_prepend_def Buffer_prependableBytes_def split: if_splits)

lemma ensure_inv:
  "Buffer_inv b \<Longrightarrow> n \<le> max_size \<Longrightarrow> Buffer_ensureWritableBytes b n = Inr b' \<Longrightarrow> Buffer_inv b'"
  by (cases rule: ensureWritable_cases [of b n]) auto

interpretation buf_steps: inductive_invariant Buffer_init Buffer_step Buffer_inv
proof (unfold_locales, goal_cases)
  case (1 b)
  then show ?case using new_ok by (fastforce simp: Buffer_init_def)
next
  case (2 b b')
  from 2(2,1) show ?case
  proof (induction rule: Buffer_step.induct)
    case (step_retrieveAsString b n s b')
    then show ?case
      by (auto simp: Buffer_retrieveAsString_def Let_def split: if_splits dest: retrieve_inv)
  next
    case (step_shrink b n b')
    then show ?case using shrink_ok by fastforce
  next
    case (step_readFd readv b n err b')
    then show ?case using readFd_ok by fastforce
  qed (auto dest: retrieve_inv retrieveAll_ok buf.app_sound ensure_inv hasWritten_inv unwrite_inv
      prepend_inv)
qed

section \<open>Properties\<close>

text \<open>
  C38: whatever public operations run on a buffer after its construction, the reader index stays at
  or below the writer index and the writer index within the vector.
\<close>

theorem Buffer_reachable_inv: "reach Buffer_init Buffer_step b \<Longrightarrow> Buffer_inv b"
  by (rule buf_steps.reach_inv)

theorem Buffer_reachable_inv_witness:
  "Buffer_inv (Buffer_retrieveAll
     \<lparr>buffer = replicate 1032 0, readerIndex = 8, writerIndex = 8\<rparr>)"
proof (rule Buffer_reachable_inv, rule reach.reach_step, rule reach.reach_init)
  show "Buffer_init \<lparr>buffer = replicate 1032 0, readerIndex = 8, writerIndex = 8\<rparr>"
    by (auto simp: Buffer_init_def Buffer_new_def kCheapPrepend_def max_size_def vector_resize_def
        szadd_def size_mod_def Buffer_readableBytes_def Buffer_writableBytes_def szsub_def
        Buffer_prependableBytes_def intro!: exI [of _ 1024])
  show "Buffer_step \<lparr>buffer = replicate 1032 0, readerIndex = 8, writerIndex = 8\<rparr>
          (Buffer_retrieveAll \<lparr>buffer = replicate 1032 0, readerIndex = 8, writerIndex = 8\<rparr>)"
    by (rule step_retrieveAll)
qed

text \<open>
  C6: Appending to a well-formed buffer puts the bytes behind the readable ones and changes nothing
  else that a reader sees, whichever of the three ways of finding room it takes; it fails only when
  the vector would have to exceed its maximal size, and no assertion of the class ever fails.
\<close>

theorem Buffer_append_correct:
  assumes "Buffer_inv b" and "length data \<le> max_size"
  shows "case Buffer_append b data of
           Inl e \<Rightarrow> e = LengthError \<and> max_size < writerIndex b + length data
         | Inr b' \<Rightarrow> Buffer_inv b' \<and> content b' = content b @ data \<and>
             length (buffer b') \<le> max (length (buffer b)) (writerIndex b + length data)"
  using assms by (cases rule: append_cases) auto

theorem Buffer_append_correct_witness:
  "case Buffer_append \<lparr>buffer = [0,0,0,0,0,0,0,0,0,0,7,8], readerIndex = 10, writerIndex = 12\<rparr> [9, 9] of
     Inl e \<Rightarrow> False
   | Inr b' \<Rightarrow> content b' = [7, 8, 9, 9] \<and> length (buffer b') \<le> 14"
  using Buffer_append_correct
    [of "\<lparr>buffer = [0,0,0,0,0,0,0,0,0,0,7,8], readerIndex = 10, writerIndex = 12\<rparr>" "[9, 9]"]
  by (simp add: Buffer_inv_def kCheapPrepend_def max_size_def content_def seg_def split: sum.splits)

text \<open>
  C7: Any sequence of appends and retrievals refines a first-in-first-out queue of bytes: the bytes
  retrieved followed by the bytes left are the old bytes followed by those appended; a retrieval of
  more than is readable is the one assertion that can fail.
\<close>

theorem Buffer_stream_refines_fifo:
  assumes "Buffer_inv b" and "length (buffer b) + length (put_bytes ops) \<le> max_size"
  shows "case fifo_run ops (content b) of
           None \<Rightarrow> stream_run Buffer_append Buffer_retrieveAsString ops b = Inl AssertFailed
         | Some (out, q) \<Rightarrow> out @ q = content b @ put_bytes ops \<and>
             (\<exists>b'. stream_run Buffer_append Buffer_retrieveAsString ops b = Inr (out, b') \<and>
                   Buffer_inv b' \<and> content b' = q)"
  using buf.stream_refines [OF assms] by (auto split: option.splits dest: fifo_run_order)

theorem Buffer_stream_refines_fifo_witness:
  "\<exists>b'. stream_run Buffer_append Buffer_retrieveAsString [Put [1, 2, 3], Get 2, Put [4], Get 2]
           \<lparr>buffer = replicate 10 0, readerIndex = 8, writerIndex = 8\<rparr> = Inr ([1, 2, 3, 4], b') \<and>
         content b' = []"
  using Buffer_stream_refines_fifo
    [of "\<lparr>buffer = replicate 10 0, readerIndex = 8, writerIndex = 8\<rparr>"
        "[Put [1, 2, 3], Get 2, Put [4], Get 2]"]
  by (auto simp: Buffer_inv_def kCheapPrepend_def max_size_def content_def)

text \<open>
  C8: Reading from a descriptor appends exactly the bytes that \<^verbatim>\<open>readv\<close> delivered, in order,
  whether they fit behind the writer index or spill into the stack buffer, and returns their
  number; on an error it returns -1, saves the error number and leaves the buffer alone.
\<close>

theorem Buffer_readFd_correct:
  assumes "Buffer_inv b" and "readv_bounded readv"
    and "length (buffer b) + extrabuf_size \<le> max_size"
  shows "case readv (readFd_iov (Buffer_writableBytes b)) of
           Inl err \<Rightarrow> Buffer_readFd readv b = Inr (-1, Some err, b)
         | Inr d \<Rightarrow> \<exists>b'. Buffer_readFd readv b = Inr (int (length d), None, b') \<and> Buffer_inv b' \<and>
             content b' = content b @ d"
proof (cases "readv (readFd_iov (Buffer_writableBytes b))")
  case (Inl err)
  then show ?thesis by (simp add: Buffer_readFd_def)
next
  case (Inr d)
  then have "Buffer_readFd readv b \<noteq> Inr (-1, Some err, b)" for err
    by (auto simp: Buffer_readFd_def Let_def bindR_eq_Inr split: if_splits)
  then show ?thesis using readFd_ok [OF assms] Inr by auto
qed

theorem Buffer_readFd_correct_witness:
  "\<exists>b'. Buffer_readFd (\<lambda>iov. Inr (if 3 \<le> sum_list iov then [1, 2, 3] else []))
          \<lparr>buffer = replicate 9 0, readerIndex = 8, writerIndex = 8\<rparr> = Inr (3, None, b') \<and>
        content b' = [1, 2, 3]"
proof -
  let ?b = "\<lparr>buffer = replicate 9 0, readerIndex = 8, writerIndex = 8\<rparr> :: Buffer"
  let ?r = "\<lambda>iov. Inr (if 3 \<le> sum_list iov then [1, 2, 3] else []) :: int + byte list"
  have i: "Buffer_inv ?b" by (simp add: Buffer_inv_def kCheapPrepend_def max_size_def)
  have r: "readv_bounded ?r" by (simp add: readv_bounded_def)
  have s: "length (buffer ?b) + extrabuf_size \<le> max_size"
    by (simp add: extrabuf_size_def max_size_def)
  show ?thesis
    using Buffer_readFd_correct [OF i r s] i by (auto simp: readFd_iov_def extrabuf_size_def content_def)
qed

lemma prepend_be_roundtrip:
  assumes inv: "Buffer_inv b" and k: "k \<le> readerIndex b" and v: "v < 256 ^ k"
  shows "\<exists>b' b''. Buffer_prepend b (be_bytes k v) = Inr b' \<and> be_value (take k (content b')) = v \<and>
           Buffer_retrieve b' k = Inr b'' \<and> content b'' = content b \<and> Buffer_inv b' \<and> Buffer_inv b''"
proof -
  obtain b' where b': "Buffer_prepend b (be_bytes k v) = Inr b'" "Buffer_inv b'"
      "content b' = be_bytes k v @ content b"
    using prepend_ok [OF inv, of "be_bytes k v"] k by auto
  obtain b'' where "Buffer_retrieve b' k = Inr b''" "Buffer_inv b''" "content b'' = content b"
    using retrieve_ok [OF b'(2), of k] b'(3) by auto
  with b' v show ?thesis by (auto simp: be_value_be_bytes)
qed

text \<open>
  A 64-, 32- or 16-bit integer prepended in network byte order decodes from the first readable
  bytes to the same bits, and retrieving an integer of that width restores the previous content.
\<close>

theorem Buffer_prependInt_roundtrip:
  assumes inv: "Buffer_inv b" and room: "kCheapPrepend \<le> readerIndex b"
  shows "(\<exists>b' b''. Buffer_prependInt64 b x = Inr b' \<and> be_value (take 8 (content b')) = unat x \<and>
           Buffer_retrieveInt64 b' = Inr b'' \<and> content b'' = content b) \<and>
         (\<exists>b' b''. Buffer_prependInt32 b y = Inr b' \<and> be_value (take 4 (content b')) = unat y \<and>
           Buffer_retrieveInt32 b' = Inr b'' \<and> content b'' = content b) \<and>
         (\<exists>b' b''. Buffer_prependInt16 b z = Inr b' \<and> be_value (take 2 (content b')) = unat z \<and>
           Buffer_retrieveInt16 b' = Inr b'' \<and> content b'' = content b)"
proof (intro conjI)
  have x: "unat x < 256 ^ 8" and y: "unat y < 256 ^ 4" and z: "unat z < 256 ^ 2"
    using unat_bound [of x] unat_bound [of y] unat_bound [of z] by simp_all
  have r: "8 \<le> readerIndex b" using room by (simp add: kCheapPrepend_def)
  show "\<exists>b' b''. Buffer_prependInt64 b x = Inr b' \<and> be_value (take 8 (content b')) = unat x \<and>
       Buffer_retrieveInt64 b' = Inr b'' \<and> content b'' = content b"
    using prepend_be_roundtrip [OF inv r x]
    by (auto simp: Buffer_prependInt64_def Buffer_retrieveInt64_def)
  show "\<exists>b' b''. Buffer_prependInt32 b y = Inr b' \<and> be_value (take 4 (content b')) = unat y \<and>
       Buffer_retrieveInt32 b' = Inr b'' \<and> content b'' = content b"
    using prepend_be_roundtrip [OF inv _ y] r
    by (auto simp: Buffer_prependInt32_def Buffer_retrieveInt32_def)
  show "\<exists>b' b''. Buffer_prependInt16 b z = Inr b' \<and> be_value (take 2 (content b')) = unat z \<and>
       Buffer_retrieveInt16 b' = Inr b'' \<and> content b'' = content b"
    using prepend_be_roundtrip [OF inv _ z] r
    by (auto simp: Buffer_prependInt16_def Buffer_retrieveInt16_def)
qed

theorem Buffer_prependInt_roundtrip_witness:
  "\<exists>b' b''. Buffer_prependInt32 \<lparr>buffer = replicate 9 0, readerIndex = 8, writerIndex = 9\<rparr> 258 = Inr b' \<and>
     be_value (take 4 (content b')) = 258 \<and> Buffer_retrieveInt32 b' = Inr b'' \<and> content b'' = [0]"
  using Buffer_prependInt_roundtrip
    [of "\<lparr>buffer = replicate 9 0, readerIndex = 8, writerIndex = 9\<rparr>" 1 258 3]
  by (simp add: Buffer_inv_def kCheapPrepend_def max_size_def content_def seg_def)

text \<open>
  \<^verbatim>\<open>findCRLF\<close> returns the position of the first carriage-return/line-feed pair among the
  readable bytes and a null pointer exactly when there is none.
\<close>

theorem Buffer_findCRLF_first:
  assumes "Buffer_inv b"
  shows "(Buffer_findCRLF b = Some p \<longleftrightarrow>
           (\<exists>i. p = readerIndex b + i \<and> crlf_at (content b) i \<and> (\<forall>j<i. \<not> crlf_at (content b) j))) \<and>
         (Buffer_findCRLF b = None \<longleftrightarrow> (\<forall>i. \<not> crlf_at (content b) i))"
proof (intro conjI)
  let ?s = "std_search kCRLF (content b)"
  have len: "readerIndex b + length (content b) = writerIndex b"
    using assms Buffer_invD(1) [OF assms] by (simp add: length_content)
  have f: "Buffer_findCRLF b = (if ?s = length (content b) then None else Some (readerIndex b + ?s))"
    using len by (auto simp: Buffer_findCRLF_def Buffer_peek_def Buffer_beginWrite_def Let_def
        content_def [symmetric])
  have lt: "?s < length (content b) \<longleftrightarrow> ?s \<noteq> length (content b)"
    using std_search_bound [of kCRLF "content b"] by linarith
  have "Buffer_findCRLF b = Some p \<longleftrightarrow> (\<exists>i. p = readerIndex b + i \<and> ?s = i \<and> i < length (content b))"
    using f lt by auto
  then show "Buffer_findCRLF b = Some p \<longleftrightarrow>
      (\<exists>i. p = readerIndex b + i \<and> crlf_at (content b) i \<and> (\<forall>j<i. \<not> crlf_at (content b) j))"
    by (simp only: std_search_kCRLF(1))
  show "Buffer_findCRLF b = None \<longleftrightarrow> (\<forall>i. \<not> crlf_at (content b) i)"
    using f std_search_kCRLF(2) [of "content b"] by simp
qed

theorem Buffer_findCRLF_first_witness:
  "Buffer_findCRLF \<lparr>buffer = [0,0,0,0,0,0,0,0,13,71,13,10], readerIndex = 8, writerIndex = 12\<rparr> = Some 10"
proof -
  let ?b = "\<lparr>buffer = [0,0,0,0,0,0,0,0,13,71,13,10], readerIndex = 8, writerIndex = 12\<rparr> :: Buffer"
  have i: "Buffer_inv ?b" by (simp add: Buffer_inv_def kCheapPrepend_def max_size_def)
  have c: "content ?b = [13, 71, 13, 10]" by (simp add: content_def seg_def)
  have "crlf_at (content ?b) 2" and "\<forall>j<2. \<not> crlf_at (content ?b) j"
    by (auto simp: c crlf_at_def less_2_cases_iff)
  then show ?thesis using Buffer_findCRLF_first [OF i, of 10] by force
qed

text \<open>
  Shrinking keeps the readable bytes, leaves room for \<^verbatim>\<open>reserve\<close> more, and the new vector is no
  larger than the initial size or what the request needs.
\<close>

theorem Buffer_shrink_correct:
  assumes "Buffer_inv b" and "length (content b) + reserve + kCheapPrepend \<le> max_size"
  shows "\<exists>b'. Buffer_shrink b reserve = Inr b' \<and> Buffer_inv b' \<and> content b' = content b \<and>
           reserve \<le> Buffer_writableBytes b' \<and>
           length (buffer b') \<le> kCheapPrepend + max kInitialSize (length (content b) + reserve)"
  using assms by (rule shrink_ok)

theorem Buffer_shrink_correct_witness:
  "\<exists>b'. Buffer_shrink \<lparr>buffer = replicate 5000 1, readerIndex = 100, writerIndex = 101\<rparr> 7 = Inr b' \<and>
      content b' = [1] \<and> length (buffer b') \<le> 1032"
proof -
  let ?b = "\<lparr>buffer = replicate 5000 1, readerIndex = 100, writerIndex = 101\<rparr> :: Buffer"
  have i: "Buffer_inv ?b" by (simp add: Buffer_inv_def kCheapPrepend_def max_size_def)
  have c: "content ?b = [1]" by (simp add: content_def seg_def)
  have s: "length (content ?b) + 7 + kCheapPrepend \<le> max_size"
    by (simp add: c kCheapPrepend_def max_size_def)
  show ?thesis
    using Buffer_shrink_correct [OF i s] by (auto simp: c kCheapPrepend_def kInitialSize_def)
qed

end
