(* ===== verification/Decimal.thy ===== *)
theory Decimal
  imports Prelude
begin

text \<open>
  Text formatting that the sources take from the C library: the \<^verbatim>\<open>printf\<close> conversions
  \<^verbatim>\<open>%d\<close>, \<^verbatim>\<open>%0Nd\<close> and \<^verbatim>\<open>%p\<close>, and the truncation of \<^verbatim>\<open>snprintf\<close>.  \<open>parse_dec\<close> reads a numeral back;
  that it inverts \<open>dec_nat\<close> makes printed numbers, and the connection names built from them,
  injective.
\<close>

definition digit :: "nat \<Rightarrow> char" where
  "digit d = char_of (48 + d)"

fun dec_nat :: "nat \<Rightarrow> string" where
  "dec_nat n = (if n < 10 then [digit n] else dec_nat (n div 10) @ [digit (n mod 10)])"

declare dec_nat.simps [simp del]

definition dec_int :: "int \<Rightarrow> string" where
  "dec_int i = (if i < 0 then CHR ''-'' # dec_nat (nat (- i)) else dec_nat (nat i))"

definition pad0 :: "nat \<Rightarrow> string \<Rightarrow> string" where
  "pad0 w s = replicate (w - length s) (CHR ''0'') @ s"

text \<open>The conversion \<^verbatim>\<open>%0wd\<close>: the sign counts for the width and stands before the zeros.\<close>

definition dec_pad :: "nat \<Rightarrow> int \<Rightarrow> string" where
  "dec_pad w i = (if i < 0 then CHR ''-'' # pad0 (w - 1) (dec_nat (nat (- i)))
                  else pad0 w (dec_nat (nat i)))"

text \<open>The conversion \<^verbatim>\<open>%wd\<close>: blanks on the left.\<close>

definition dec_width :: "nat \<Rightarrow> int \<Rightarrow> string" where
  "dec_width w i = replicate (w - length (dec_int i)) (CHR '' '') @ dec_int i"

definition snprintf :: "nat \<Rightarrow> string \<Rightarrow> string" where
  "snprintf n s = take (n - 1) s"

definition parse_digit :: "char \<Rightarrow> nat" where
  "parse_digit c = of_char c - 48"

definition parse_dec :: "string \<Rightarrow> nat" where
  "parse_dec s = foldl (\<lambda>a c. a * 10 + parse_digit c) 0 s"

section \<open>Printed numerals\<close>

lemma digit_chars:
  "digit 0 = CHR ''0''" "digit (Suc 0) = CHR ''1''" "digit 1 = CHR ''1''" "digit 2 = CHR ''2''" "digit 3 = CHR ''3''"
  "digit 4 = CHR ''4''" "digit 5 = CHR ''5''" "digit 6 = CHR ''6''" "digit 7 = CHR ''7''"
  "digit 8 = CHR ''8''" "digit 9 = CHR ''9''"
  by (simp_all add: digit_def char_of_def bit_0)

lemma parse_digit_digit [simp]: "d < 10 \<Longrightarrow> parse_digit (digit d) = d"
  by (simp add: parse_digit_def digit_def of_char_of)

lemma digit_inj: "d < 10 \<Longrightarrow> e < 10 \<Longrightarrow> digit d = digit e \<longleftrightarrow> d = e"
  by (metis parse_digit_digit)

lemma parse_dec_snoc: "parse_dec (s @ [c]) = parse_dec s * 10 + parse_digit c"
  by (simp add: parse_dec_def)

lemma parse_dec_dec_nat [simp]: "parse_dec (dec_nat n) = n"
proof (induction n rule: dec_nat.induct)
  case (1 n)
  show ?case
  proof (cases "n < 10")
    case True
    then show ?thesis by (subst dec_nat.simps) (simp add: parse_dec_def)
  next
    case False
    then show ?thesis using 1 by (subst dec_nat.simps) (simp add: parse_dec_snoc)
  qed
qed

lemma dec_nat_inj [simp]: "dec_nat m = dec_nat n \<longleftrightarrow> m = n"
  by (metis parse_dec_dec_nat)

lemma dec_nat_digits: "c \<in> set (dec_nat n) \<Longrightarrow> \<exists>d<10. c = digit d"
proof (induction n rule: dec_nat.induct)
  case (1 n)
  show ?case
  proof (cases "n < 10")
    case True
    then show ?thesis using "1.prems" by (subst (asm) dec_nat.simps) auto
  next
    case False
    then have "c \<in> set (dec_nat (n div 10)) \<or> c = digit (n mod 10)"
      using "1.prems" by (subst (asm) dec_nat.simps) auto
    then show ?thesis
    proof
      assume "c \<in> set (dec_nat (n div 10))"
      then show ?thesis using "1.IH" False by blast
    next
      assume "c = digit (n mod 10)"
      moreover have "n mod 10 < 10" by simp
      ultimately show ?thesis by blast
    qed
  qed
qed

lemma of_char_digit: "d < 10 \<Longrightarrow> of_char (digit d) = 48 + d"
  by (simp add: digit_def of_char_of)

lemma digit_neq:
  assumes "d < 10" and "of_char c < (48::nat)"
  shows "digit d \<noteq> c"
proof
  assume "digit d = c"
  then have "of_char c = 48 + d" using of_char_digit [OF assms(1)] by (simp only:)
  then show False using assms(2) by linarith
qed

lemma dec_nat_avoids: "of_char c < (48::nat) \<Longrightarrow> c \<notin> set (dec_nat n)"
  using dec_nat_digits [of c n] digit_neq [of _ c] by metis

lemma dec_nat_no_punct:
  "CHR ''.'' \<notin> set (dec_nat n)" "CHR ''-'' \<notin> set (dec_nat n)" "CHR ''#'' \<notin> set (dec_nat n)"
  by (rule dec_nat_avoids, simp)+

lemma dec_int_inj [simp]: "dec_int i = dec_int j \<longleftrightarrow> i = j"
proof -
  have "CHR ''-'' # s \<noteq> dec_nat n" for s n
    using dec_nat_no_punct(2) [of n] by (metis list.set_intros(1))
  then show ?thesis by (auto simp: dec_int_def) (metis nat_eq_iff2)+
qed

lemma length_dec_nat_le: "n < 10 ^ Suc k \<Longrightarrow> length (dec_nat n) \<le> Suc k"
proof (induction k arbitrary: n)
  case 0
  then show ?case by (subst dec_nat.simps) simp
next
  case (Suc k)
  show ?case
  proof (cases "n < 10")
    case True
    then show ?thesis by (subst dec_nat.simps) simp
  next
    case False
    have "n div 10 < 10 ^ Suc k" using Suc.prems by (simp add: less_mult_imp_div_less mult.commute)
    then show ?thesis using Suc.IH False by (subst dec_nat.simps) simp
  qed
qed

lemma dec_nat_ne [simp]: "dec_nat n \<noteq> []"
  by (subst dec_nat.simps) simp

lemma parse_dec_pad0 [simp]: "parse_dec (pad0 w s) = parse_dec s"
proof -
  have "foldl (\<lambda>a c. a * 10 + parse_digit c) 0 (replicate k (CHR ''0'') @ s) = parse_dec s" for k
    by (induction k) (simp_all add: parse_dec_def parse_digit_def)
  then show ?thesis by (simp add: parse_dec_def pad0_def)
qed

lemma length_pad0: "length s \<le> w \<Longrightarrow> length (pad0 w s) = w"
  by (simp add: pad0_def)

end
