(* ===== verification/Timestamp.thy ===== *)
theory Timestamp
  imports Decimal Complex_Main "HOL-Library.Signed_Division"
begin

text \<open>
  \<^verbatim>\<open>base/Timestamp.h\<close> and \<^verbatim>\<open>base/Timestamp.cpp\<close>: microseconds since the epoch in a 64-bit signed
  integer.  Signed overflow and a floating-point value outside the range of the conversion to
  \<^verbatim>\<open>int64_t\<close> are undefined.  A \<^verbatim>\<open>double\<close> is the rational number it denotes; the rounding of a
  floating-point product is the parameter \<open>rnd\<close>.  C's integer division truncates (\<open>sdiv\<close>,
  \<open>smod\<close>).  \<^verbatim>\<open>localtime_r\<close> is a parameter.
\<close>

datatype Timestamp = Timestamp (microSecondsSinceEpoch: int)

definition Timestamp_before :: "Timestamp \<Rightarrow> Timestamp \<Rightarrow> bool" where
  "Timestamp_before a b \<longleftrightarrow> microSecondsSinceEpoch a < microSecondsSinceEpoch b"

instantiation Timestamp :: linorder
begin

definition less_Timestamp :: "Timestamp \<Rightarrow> Timestamp \<Rightarrow> bool" where
  "less_Timestamp a b \<longleftrightarrow> Timestamp_before a b"

definition less_eq_Timestamp :: "Timestamp \<Rightarrow> Timestamp \<Rightarrow> bool" where
  "less_eq_Timestamp a b \<longleftrightarrow> \<not> Timestamp_before b a"

instance
  by standard
    (auto simp: less_Timestamp_def less_eq_Timestamp_def Timestamp_before_def Timestamp.expand)

end

lemma Timestamp_less [simp]: "Timestamp a < Timestamp b \<longleftrightarrow> a < b"
  by (simp add: less_Timestamp_def Timestamp_before_def)

lemma Timestamp_le [simp]: "Timestamp a \<le> Timestamp b \<longleftrightarrow> a \<le> b"
  by (auto simp add: less_eq_Timestamp_def Timestamp_before_def)

definition int64_range :: "int \<Rightarrow> bool" where
  "int64_range i \<longleftrightarrow> - (2 ^ 63) \<le> i \<and> i < 2 ^ 63"

definition kMicroSecondsPerSecond :: int where
  "kMicroSecondsPerSecond = 1000 * 1000"

definition Timestamp_invaild :: Timestamp where
  "Timestamp_invaild = Timestamp 0"

definition Timestamp_valid :: "Timestamp \<Rightarrow> bool" where
  "Timestamp_valid t \<longleftrightarrow> microSecondsSinceEpoch t > 0"

text \<open>\<^verbatim>\<open>static_cast<int64_t>\<close> of a floating-point value: truncation towards zero.\<close>

definition to_int64 :: "rat \<Rightarrow> int result" where
  "to_int64 x = (let i = (if x < 0 then - \<lfloor>- x\<rfloor> else \<lfloor>x\<rfloor>)
                 in if int64_range i then Inr i else Inl Undefined)"

definition Timestamp_plus :: "(rat \<Rightarrow> rat) \<Rightarrow> Timestamp \<Rightarrow> rat \<Rightarrow> Timestamp result" where
  "Timestamp_plus rnd t seconds =
     bindR (to_int64 (rnd (seconds * of_int kMicroSecondsPerSecond))) (\<lambda>d.
       let s = microSecondsSinceEpoch t + d
       in if int64_range s then Inr (Timestamp s) else Inl Undefined)"

definition addTime :: "(rat \<Rightarrow> rat) \<Rightarrow> Timestamp \<Rightarrow> rat \<Rightarrow> Timestamp result" where
  "addTime rnd timestamp seconds = Timestamp_plus rnd timestamp seconds"

definition Timestamp_minus :: "(rat \<Rightarrow> rat) \<Rightarrow> Timestamp \<Rightarrow> Timestamp \<Rightarrow> rat result" where
  "Timestamp_minus rnd t rhs =
     (let diff = microSecondsSinceEpoch t - microSecondsSinceEpoch rhs
      in if int64_range diff then Inr (rnd (rnd (of_int diff) / of_int kMicroSecondsPerSecond))
         else Inl Undefined)"

definition Timestamp_toString :: "Timestamp \<Rightarrow> string" where
  "Timestamp_toString t =
     (let seconds = microSecondsSinceEpoch t sdiv kMicroSecondsPerSecond;
          microseconds = microSecondsSinceEpoch t smod kMicroSecondsPerSecond
      in snprintf 32 (dec_int seconds @ ''.'' @ dec_pad 6 microseconds))"

record tm =
  tm_year :: int
  tm_mon :: int
  tm_mday :: int
  tm_hour :: int
  tm_min :: int
  tm_sec :: int

definition Timestamp_toFormattedString :: "(int \<Rightarrow> tm) \<Rightarrow> bool \<Rightarrow> Timestamp \<Rightarrow> string" where
  "Timestamp_toFormattedString localtime_r showMicroseconds t =
     (let seconds = microSecondsSinceEpoch t sdiv kMicroSecondsPerSecond;
          tm_time = localtime_r seconds;
          microseconds = microSecondsSinceEpoch t smod kMicroSecondsPerSecond;
          s = dec_pad 4 (tm_year tm_time + 1900) @ dec_pad 2 (tm_mon tm_time + 1) @
              dec_pad 2 (tm_mday tm_time) @ '' '' @ dec_pad 2 (tm_hour tm_time) @ '':'' @
              dec_pad 2 (tm_min tm_time) @ '':'' @ dec_pad 2 (tm_sec tm_time)
      in snprintf 64 (if showMicroseconds then s @ ''.'' @ dec_pad 6 microseconds else s))"

section \<open>Reading a printed timestamp back\<close>

definition parse_timestamp :: "string \<Rightarrow> int" where
  "parse_timestamp s =
     int (parse_dec (takeWhile (\<lambda>c. c \<noteq> CHR ''.'') s)) * kMicroSecondsPerSecond +
     int (parse_dec (tl (dropWhile (\<lambda>c. c \<noteq> CHR ''.'') s)))"

lemma sdiv_nonneg: "0 \<le> a \<Longrightarrow> 0 < b \<Longrightarrow> a sdiv b = a div (b::int)"
  by (cases "a = 0") (simp_all add: signed_divide_int_def)

lemma smod_nonneg: "0 \<le> a \<Longrightarrow> 0 < b \<Longrightarrow> a smod b = a mod (b::int)"
  by (cases "a = 0") (simp_all add: signed_modulo_int_def)

lemma split_at_dot:
  assumes "CHR ''.'' \<notin> set a"
  shows "takeWhile (\<lambda>c. c \<noteq> CHR ''.'') (a @ CHR ''.'' # r) = a"
    and "dropWhile (\<lambda>c. c \<noteq> CHR ''.'') (a @ CHR ''.'' # r) = CHR ''.'' # r"
proof -
  have "\<And>c. c \<in> set a \<Longrightarrow> c \<noteq> CHR ''.''" using assms by blast
  then show "takeWhile (\<lambda>c. c \<noteq> CHR ''.'') (a @ CHR ''.'' # r) = a"
    and "dropWhile (\<lambda>c. c \<noteq> CHR ''.'') (a @ CHR ''.'' # r) = CHR ''.'' # r"
    by (simp_all add: takeWhile_append2 dropWhile_append2)
qed

text \<open>
  C39: The printed form of a timestamp at or after the epoch reads back to exactly that number of
  microseconds: six digits behind the point, nothing cut off by the 32-byte buffer.
\<close>

theorem Timestamp_toString_roundtrip:
  assumes "0 \<le> us" and "us < 2 ^ 63"
  shows "parse_timestamp (Timestamp_toString (Timestamp us)) = us"
proof -
  let ?s = "us div kMicroSecondsPerSecond" and ?m = "us mod kMicroSecondsPerSecond"
  have K: "0 < kMicroSecondsPerSecond" by (simp add: kMicroSecondsPerSecond_def)
  have s0: "0 \<le> ?s" using assms(1) K by (simp add: pos_imp_zdiv_nonneg_iff)
  have m0: "0 \<le> ?m" and m1: "?m < 1000000" using K by (simp_all add: kMicroSecondsPerSecond_def)
  have nm: "\<not> ?m < 0" using m0 by linarith
  have "?s < 10 ^ 13"
    using assms(2) by (simp add: kMicroSecondsPerSecond_def div_less_iff_less_mult)
  then have "nat ?s < 10 ^ Suc 12" using s0 by (simp add: nat_less_iff)
  then have ls: "length (dec_nat (nat ?s)) \<le> 13" using length_dec_nat_le [of "nat ?s" 12] by simp
  have "nat ?m < 10 ^ Suc 5" using m0 m1 by (simp add: nat_less_iff)
  then have "length (dec_nat (nat ?m)) \<le> 6" using length_dec_nat_le [of "nat ?m" 5] by simp
  then have lm: "length (pad0 6 (dec_nat (nat ?m))) = 6" by (rule length_pad0)
  let ?str = "dec_nat (nat ?s) @ CHR ''.'' # pad0 6 (dec_nat (nat ?m))"
  have "Timestamp_toString (Timestamp us) = take 31 ?str"
    using assms(1) K s0 m0
    by (simp add: Timestamp_toString_def sdiv_nonneg smod_nonneg dec_int_def dec_pad_def snprintf_def
        Let_def nm)
  also have "\<dots> = ?str" using ls lm by (intro take_all) simp
  finally show ?thesis
    using s0 m0
    by (simp add: parse_timestamp_def split_at_dot dec_nat_no_punct)
qed

theorem Timestamp_toString_roundtrip_witness:
  "parse_timestamp (Timestamp_toString (Timestamp 1700000000000042)) = 1700000000000042"
  by (rule Timestamp_toString_roundtrip) simp_all

end
