(* ===== verification/Logging.thy ===== *)
theory Logging
  imports Timestamp
begin

text \<open>
  \<^verbatim>\<open>base/Logging.h\<close> and \<^verbatim>\<open>base/Logging.cpp\<close>: the log stream, the record a \<open>Logger\<close> object builds in
  its constructor and finishes in its destructor, the level filter of the macros.

  Three details decide what a line looks like.  \<^verbatim>\<open>append(std::string, size_t)\<close> is the overload that
  takes a start position, not a length.  \<open>LogStream\<close> has no \<^verbatim>\<open>char\<close> inserter, so a character literal
  is promoted to \<^verbatim>\<open>int\<close> and printed as a number.  Negating the least value of a signed type is
  undefined.  \<^verbatim>\<open>localtime_r\<close>, \<^verbatim>\<open>strerror\<close> and the printed forms of floating-point values and pointers are
  parameters.
\<close>

section \<open>The stream\<close>

type_synonym LogStream = string

text \<open>\<^verbatim>\<open>std::string::append(const std::string&, size_t pos)\<close>: the rest of the string from \<open>pos\<close>.\<close>

definition string_append_pos :: "string \<Rightarrow> string \<Rightarrow> nat \<Rightarrow> string result" where
  "string_append_pos s str pos = (if pos \<le> length str then Inr (s @ drop pos str) else Inl OutOfRange)"

definition LogStream_T :: "LogStream \<Rightarrow> string \<Rightarrow> nat \<Rightarrow> LogStream result" where
  "LogStream_T s str len = string_append_pos s str len"

text \<open>The digit loop of \<^verbatim>\<open>formatInteger\<close> writes backwards from the end of its 48-byte array.\<close>

fun formatInteger_loop :: "nat \<Rightarrow> string \<Rightarrow> string" where
  "formatInteger_loop v p =
     (let p' = digit (v mod 10) # p
      in if v div 10 > 0 then formatInteger_loop (v div 10) p' else p')"

declare formatInteger_loop.simps [simp del]

text \<open>\<open>sgnd\<close> and \<open>w\<close>: signedness and width of the integer type the template is instantiated with.\<close>

definition LogStream_formatInteger :: "bool \<Rightarrow> nat \<Rightarrow> LogStream \<Rightarrow> int \<Rightarrow> LogStream result" where
  "LogStream_formatInteger sgnd w s v =
     (if sgnd \<and> v = - (2 ^ (w - 1)) then Inl Undefined
      else let neg = (sgnd \<and> v < 0);
               p = formatInteger_loop (nat (if neg then - v else v)) []
           in Inr (s @ (if neg then CHR ''-'' # p else p)))"

definition LogStream_bool :: "LogStream \<Rightarrow> bool \<Rightarrow> LogStream" where
  "LogStream_bool s v = s @ (if v then ''1'' else ''0'')"

definition LogStream_short :: "LogStream \<Rightarrow> int \<Rightarrow> LogStream result" where
  "LogStream_short s v = LogStream_formatInteger True 16 s v"

definition LogStream_ushort :: "LogStream \<Rightarrow> int \<Rightarrow> LogStream result" where
  "LogStream_ushort s v = LogStream_formatInteger False 16 s v"

definition LogStream_int :: "LogStream \<Rightarrow> int \<Rightarrow> LogStream result" where
  "LogStream_int s v = LogStream_formatInteger True 32 s v"

definition LogStream_uint :: "LogStream \<Rightarrow> int \<Rightarrow> LogStream result" where
  "LogStream_uint s v = LogStream_formatInteger False 32 s v"

definition LogStream_long :: "LogStream \<Rightarrow> int \<Rightarrow> LogStream result" where
  "LogStream_long s v = LogStream_formatInteger True 64 s v"

definition LogStream_ulong :: "LogStream \<Rightarrow> int \<Rightarrow> LogStream result" where
  "LogStream_ulong s v = LogStream_formatInteger False 64 s v"

text \<open>A C string is \<open>None\<close> when the pointer is null.\<close>

definition LogStream_cstr :: "LogStream \<Rightarrow> string option \<Rightarrow> LogStream" where
  "LogStream_cstr s v = s @ (case v of Some x \<Rightarrow> x | None \<Rightarrow> ''(null)'')"

definition LogStream_string :: "LogStream \<Rightarrow> string \<Rightarrow> LogStream" where
  "LogStream_string s v = s @ v"

text \<open>A \<^verbatim>\<open>char\<close> argument is promoted to \<^verbatim>\<open>int\<close>.\<close>

definition LogStream_char :: "LogStream \<Rightarrow> char \<Rightarrow> LogStream result" where
  "LogStream_char s c = LogStream_int s (int (of_char c))"

section \<open>The logger\<close>

datatype LogLevel = TRACE | DEBUG | INFO | WARN | ERROR | FATAL

fun level_rank :: "LogLevel \<Rightarrow> nat" where
  "level_rank TRACE = 0" | "level_rank DEBUG = 1" | "level_rank INFO = 2"
| "level_rank WARN = 3" | "level_rank ERROR = 4" | "level_rank FATAL = 5"

fun LogLevelName :: "LogLevel \<Rightarrow> string" where
  "LogLevelName TRACE = ''TRACE ''" | "LogLevelName DEBUG = ''DEBUG ''"
| "LogLevelName INFO = ''INFO  ''" | "LogLevelName WARN = ''WARN  ''"
| "LogLevelName ERROR = ''ERROR ''" | "LogLevelName FATAL = ''FATAL ''"

record LogTLS =
  t_time :: string
  t_lastSecond :: int

record LoggerImpl =
  time :: Timestamp
  stream :: LogStream
  level :: LogLevel
  line :: int
  fullname :: string
  basename :: string

text \<open>The text of \<^verbatim>\<open>formatTime\<close> for the broken-down time.\<close>

definition time_text :: "tm \<Rightarrow> string" where
  "time_text tm_time =
     dec_width 4 (tm_year tm_time + 1900) @ dec_pad 2 (tm_mon tm_time + 1) @
     dec_pad 2 (tm_mday tm_time) @ '' '' @ dec_pad 2 (tm_hour tm_time) @ '':'' @
     dec_pad 2 (tm_min tm_time) @ '':'' @ dec_pad 2 (tm_sec tm_time)"

definition LoggerImpl_formatTime ::
  "(int \<Rightarrow> tm) \<Rightarrow> LoggerImpl \<Rightarrow> LogTLS \<Rightarrow> (LoggerImpl \<times> LogTLS) result" where
  "LoggerImpl_formatTime localtime_r im tls =
     (let us = microSecondsSinceEpoch (time im);
          seconds = us sdiv kMicroSecondsPerSecond;
          microseconds = us smod kMicroSecondsPerSecond;
          txt = time_text (localtime_r seconds)
      in bindR (if seconds \<noteq> t_lastSecond tls
                then if length txt \<noteq> 17 then Inl AssertFailed
                     else Inr \<lparr>t_time = snprintf 64 txt, t_lastSecond = seconds\<rparr>
                else Inr tls) (\<lambda>tls'.
         bindR (LogStream_T (stream im) (t_time tls') 17) (\<lambda>s1.
           bindR (LogStream_T s1 (snprintf 32 (''.'' @ dec_pad 6 microseconds @ '' '')) 8) (\<lambda>s2.
             Inr (im\<lparr>stream := s2\<rparr>, tls')))))"

text \<open>The part of a path behind its last slash.\<close>

definition path_basename :: "string \<Rightarrow> string" where
  "path_basename f = (if CHR ''/'' \<in> set f then rev (takeWhile (\<lambda>c. c \<noteq> CHR ''/'') (rev f)) else f)"

definition LoggerImpl_new ::
  "(int \<Rightarrow> tm) \<Rightarrow> (int \<Rightarrow> string) \<Rightarrow> Timestamp \<Rightarrow> LogLevel \<Rightarrow> int \<Rightarrow> string \<Rightarrow> int \<Rightarrow> LogTLS \<Rightarrow>
   (LoggerImpl \<times> LogTLS) result" where
  "LoggerImpl_new localtime_r strerror now lvl savedErrno file lineno tls =
     bindR (LoggerImpl_formatTime localtime_r
              \<lparr>time = now, stream = [], level = lvl, line = lineno, fullname = file, basename = []\<rparr> tls)
       (\<lambda>(im, tls').
         bindR (LogStream_T (stream im) (LogLevelName lvl) 6) (\<lambda>s1.
           let im1 = im\<lparr>stream := s1, basename := path_basename file\<rparr> in
           if savedErrno \<noteq> 0
           then bindR (LogStream_int (s1 @ strerror savedErrno @ '' (errno='') savedErrno) (\<lambda>s2.
                  Inr (im1\<lparr>stream := s2 @ '') ''\<rparr>, tls'))
           else Inr (im1, tls')))"

definition LoggerImpl_finish :: "LoggerImpl \<Rightarrow> LoggerImpl result" where
  "LoggerImpl_finish im =
     bindR (LogStream_char (LogStream_cstr (LogStream_cstr (stream im) (Some '' - ''))
              (Some (basename im))) (CHR '':'')) (\<lambda>s1.
       bindR (LogStream_int s1 (line im)) (\<lambda>s2.
         bindR (LogStream_char s2 (CHR ''\<newline>'')) (\<lambda>s3. Inr (im\<lparr>stream := s3\<rparr>))))"

definition Logger_new ::
  "(int \<Rightarrow> tm) \<Rightarrow> (int \<Rightarrow> string) \<Rightarrow> Timestamp \<Rightarrow> string \<Rightarrow> int \<Rightarrow> LogLevel \<Rightarrow> string option \<Rightarrow> LogTLS \<Rightarrow>
   (LoggerImpl \<times> LogTLS) result" where
  "Logger_new localtime_r strerror now file lineno lvl func tls =
     bindR (LoggerImpl_new localtime_r strerror now lvl 0 file lineno tls) (\<lambda>(im, tls').
       case func of
         None \<Rightarrow> Inr (im, tls')
       | Some f \<Rightarrow> bindR (LogStream_char (LogStream_cstr (stream im) (Some f)) (CHR '' '')) (\<lambda>s.
           Inr (im\<lparr>stream := s\<rparr>, tls')))"

text \<open>The destructor: what is handed to the output function, and whether the process aborts.\<close>

definition Logger_destroy :: "LoggerImpl \<Rightarrow> (string \<times> bool) result" where
  "Logger_destroy im =
     bindR (LoggerImpl_finish im) (\<lambda>im'. Inr (stream im', level im' = FATAL))"

text \<open>The macros: the three lowest levels are filtered by the global level.\<close>

definition log_macro_enabled :: "LogLevel \<Rightarrow> LogLevel \<Rightarrow> bool" where
  "log_macro_enabled g_logLevel lvl =
     (if lvl \<in> {TRACE, DEBUG, INFO} then level_rank g_logLevel \<le> level_rank lvl else True)"

text \<open>One statement \<^verbatim>\<open>LOG_x << msg\<close> with a string message: the output and whether it aborts.\<close>

definition log_statement ::
  "(int \<Rightarrow> tm) \<Rightarrow> (int \<Rightarrow> string) \<Rightarrow> Timestamp \<Rightarrow> LogLevel \<Rightarrow> LogLevel \<Rightarrow> string \<Rightarrow> int \<Rightarrow> string \<Rightarrow> string \<Rightarrow>
   LogTLS \<Rightarrow> ((string \<times> bool) option \<times> LogTLS) result" where
  "log_statement localtime_r strerror now g_logLevel lvl file lineno func msg tls =
     (if log_macro_enabled g_logLevel lvl
      then bindR (Logger_new localtime_r strerror now file lineno lvl
                   (if lvl \<in> {TRACE, DEBUG} then Some func else None) tls) (\<lambda>(im, tls').
             bindR (Logger_destroy (im\<lparr>stream := LogStream_string (stream im) msg\<rparr>)) (\<lambda>r.
               Inr (Some r, tls')))
      else Inr (None, tls))"

section \<open>Integers\<close>

lemma formatInteger_loop_dec: "formatInteger_loop v p = dec_nat v @ p"
proof (induction v arbitrary: p rule: less_induct)
  case (less v)
  show ?case
  proof (cases "v < 10")
    case True
    then show ?thesis by (subst formatInteger_loop.simps, subst dec_nat.simps) simp
  next
    case False
    then have "v div 10 < v" and "0 < v div 10" by simp_all
    then show ?thesis
      using less.IH [of "v div 10" "digit (v mod 10) # p"] False
      by (subst formatInteger_loop.simps, subst dec_nat.simps) simp
  qed
qed

lemma formatInteger_ok:
  assumes "sgnd \<or> 0 \<le> v" and "sgnd \<Longrightarrow> v \<noteq> - (2 ^ (w - 1))"
  shows "LogStream_formatInteger sgnd w s v = Inr (s @ dec_int v)"
  using assms by (auto simp: LogStream_formatInteger_def formatInteger_loop_dec dec_int_def Let_def)

section \<open>Properties\<close>

text \<open>
  Inserting an integer of any of the integer types appends its decimal numeral, with a minus
  sign for negative values; the one exception is the least value of a signed type, whose negation
  is undefined.
\<close>

theorem LogStream_integer_decimal:
  assumes "sgnd \<or> 0 \<le> v"
  shows "LogStream_formatInteger sgnd w s v =
     (if sgnd \<and> v = - (2 ^ (w - 1)) then Inl Undefined else Inr (s @ dec_int v))"
  using formatInteger_ok [of sgnd v w s] assms by (auto simp: LogStream_formatInteger_def)

theorem LogStream_integer_decimal_witness:
  "LogStream_formatInteger True 32 ''x='' (-42) = Inr (''x='' @ dec_int (-42)) \<and>
   LogStream_formatInteger True 16 [] (-32768) = Inl Undefined"
  using LogStream_integer_decimal [of True "-42" 32 "''x=''"]
    LogStream_integer_decimal [of True "-32768" 16 "[]"] by simp

lemma length_micro_text:
  assumes "0 \<le> us"
  shows "length (snprintf 32 (''.'' @ dec_pad 6 (us smod kMicroSecondsPerSecond) @ '' '')) = 8"
proof -
  let ?m = "us mod kMicroSecondsPerSecond"
  have m0: "\<not> ?m < 0" and m1: "?m < 1000000"
    by (simp_all add: kMicroSecondsPerSecond_def linorder_not_less)
  have "nat ?m < 10 ^ Suc 5" using m1 by (simp add: nat_less_iff)
  then have "length (dec_nat (nat ?m)) \<le> 6" using length_dec_nat_le [of "nat ?m" 5] by simp
  then have "length (dec_pad 6 ?m) = 6" using m0 by (simp add: dec_pad_def length_pad0)
  moreover have "us smod kMicroSecondsPerSecond = ?m"
    using assms by (intro smod_nonneg) (simp_all add: kMicroSecondsPerSecond_def)
  ultimately show ?thesis by (simp add: snprintf_def)
qed

lemma formatTime_appends_nothing:
  assumes "0 \<le> microSecondsSinceEpoch (time im)"
    and "let sec = microSecondsSinceEpoch (time im) sdiv kMicroSecondsPerSecond
         in if sec = t_lastSecond tls then length (t_time tls) = 17
            else length (time_text (localtime_r sec)) = 17"
  shows "\<exists>tls'. LoggerImpl_formatTime localtime_r im tls = Inr (im, tls')"
  using assms length_micro_text [OF assms(1)]
  by (auto simp: LoggerImpl_formatTime_def LogStream_T_def string_append_pos_def Let_def
      snprintf_def split: if_splits)

lemma length_LogLevelName [simp]: "length (LogLevelName l) = 6"
  by (cases l) simp_all

lemma finish_text:
  assumes "line im \<noteq> - (2 ^ 31)"
  shows "LoggerImpl_finish im =
     Inr (im\<lparr>stream := stream im @ '' - '' @ basename im @ ''58'' @ dec_int (line im) @ ''10''\<rparr>)"
proof -
  have c: "LogStream_char s (CHR '':'') = Inr (s @ ''58'')"
      "LogStream_char s (CHR ''\<newline>'') = Inr (s @ ''10'')" for s
    by (simp_all add: LogStream_char_def LogStream_int_def formatInteger_ok dec_int_def
        dec_nat.simps digit_chars)
  show ?thesis
    using assms by (simp add: LoggerImpl_finish_def c LogStream_int_def formatInteger_ok
        LogStream_cstr_def)
qed

text \<open>
  What a statement at level INFO or above hands to the output function: the message, a dash,
  the base name of the file, the number 58 (the code of the colon), the line number and the number
  10 (the code of the newline).  The time stamp and the level name are appended from the position
  equal to their length, that is, not at all; the process aborts exactly at level FATAL.
\<close>

theorem log_line_text:
  assumes "log_macro_enabled g lvl" and "lvl \<notin> {TRACE, DEBUG}"
    and "0 \<le> microSecondsSinceEpoch now" and "lineno \<noteq> - (2 ^ 31)"
    and "let sec = microSecondsSinceEpoch now sdiv kMicroSecondsPerSecond
         in if sec = t_lastSecond tls then length (t_time tls) = 17
            else length (time_text (localtime_r sec)) = 17"
  shows "\<exists>tls'. log_statement localtime_r strerror now g lvl file lineno func msg tls =
           Inr (Some (msg @ '' - '' @ path_basename file @ ''58'' @ dec_int lineno @ ''10'',
                      lvl = FATAL), tls')"
proof -
  obtain tls' where "LoggerImpl_formatTime localtime_r
      \<lparr>time = now, stream = [], level = lvl, line = lineno, fullname = file, basename = []\<rparr> tls
      = Inr (\<lparr>time = now, stream = [], level = lvl, line = lineno, fullname = file, basename = []\<rparr>, tls')"
    using formatTime_appends_nothing
      [of "\<lparr>time = now, stream = [], level = lvl, line = lineno, fullname = file, basename = []\<rparr>"
          tls localtime_r] assms(3,5) by auto
  then show ?thesis
    using assms(1,2,4)
    by (simp add: log_statement_def Logger_new_def LoggerImpl_new_def LogStream_T_def
        string_append_pos_def Logger_destroy_def finish_text LogStream_string_def)
qed

theorem log_line_text_witness:
  "\<exists>tls'. log_statement (\<lambda>_. \<lparr>tm_year = 125, tm_mon = 0, tm_mday = 1, tm_hour = 0, tm_min = 0, tm_sec = 7\<rparr>)
      (\<lambda>_. []) (Timestamp 7000001) INFO WARN ''net/Channel.cpp'' 65 [] ''hup''
      \<lparr>t_time = [], t_lastSecond = 0\<rparr> = Inr (Some (''hup - Channel.cpp586510'', False), tls')"
  using log_line_text [of INFO WARN "Timestamp 7000001" 65 "\<lparr>t_time = [], t_lastSecond = 0\<rparr>"
      "\<lambda>_. \<lparr>tm_year = 125, tm_mon = 0, tm_mday = 1, tm_hour = 0, tm_min = 0, tm_sec = 7\<rparr>"
      "\<lambda>_. []" "''net/Channel.cpp''" "[]" "''hup''"]
  by (simp add: log_macro_enabled_def time_text_def dec_width_def dec_pad_def dec_int_def
      dec_nat.simps pad0_def sdiv_nonneg kMicroSecondsPerSecond_def path_basename_def digit_chars)

section \<open>Floating-point numbers and pointers\<close>

text \<open>\<open>to_str\<close> is \<^verbatim>\<open>std::to_string\<close> of the type, \<open>fmt_p\<close> the text of \<^verbatim>\<open>%p\<close>, cut to 31 characters.\<close>

definition LogStream_float :: "('f \<Rightarrow> string) \<Rightarrow> LogStream \<Rightarrow> 'f \<Rightarrow> LogStream" where
  "LogStream_float to_str s v = s @ to_str v"

definition LogStream_double :: "('d \<Rightarrow> string) \<Rightarrow> LogStream \<Rightarrow> 'd \<Rightarrow> LogStream" where
  "LogStream_double to_str s v = s @ to_str v"

definition LogStream_pointer :: "('p \<Rightarrow> string) \<Rightarrow> LogStream \<Rightarrow> 'p \<Rightarrow> LogStream" where
  "LogStream_pointer fmt_p s v = s @ snprintf 32 (fmt_p v)"

definition LogStream_reset :: "LogStream \<Rightarrow> LogStream" where
  "LogStream_reset s = []"

section \<open>The global settings\<close>

text \<open>
  The standard output is what has been written to it and how much of that has been flushed.  The length given to
  the output function is a size converted to \<^verbatim>\<open>int\<close>; a negative one makes \<^verbatim>\<open>fwrite\<close> read past the line.
\<close>

record Stdout =
  stdout_text :: string
  stdout_flushed :: nat

record 'o LogGlobals =
  g_logLevel :: LogLevel
  g_output :: "string \<Rightarrow> int \<Rightarrow> 'o \<Rightarrow> 'o result"
  g_flush :: "'o \<Rightarrow> 'o result"

definition defaultOutput :: "string \<Rightarrow> int \<Rightarrow> Stdout \<Rightarrow> Stdout result" where
  "defaultOutput msg len out = (if 0 \<le> len \<and> nat len \<le> length msg
     then Inr (out\<lparr>stdout_text := stdout_text out @ take (nat len) msg\<rparr>) else Inl Undefined)"

definition defaultFlush :: "Stdout \<Rightarrow> Stdout result" where
  "defaultFlush out = Inr (out\<lparr>stdout_flushed := length (stdout_text out)\<rparr>)"

definition LogGlobals_init :: "Stdout LogGlobals" where
  "LogGlobals_init = \<lparr>g_logLevel = INFO, g_output = defaultOutput, g_flush = defaultFlush\<rparr>"

definition Logger_setLogLevel :: "LogLevel \<Rightarrow> 'o LogGlobals \<Rightarrow> 'o LogGlobals" where
  "Logger_setLogLevel lvl G = G\<lparr>g_logLevel := lvl\<rparr>"

definition Logger_setOutput :: "(string \<Rightarrow> int \<Rightarrow> 'o \<Rightarrow> 'o result) \<Rightarrow> 'o LogGlobals \<Rightarrow> 'o LogGlobals" where
  "Logger_setOutput f G = G\<lparr>g_output := f\<rparr>"

definition Logger_setFlush :: "('o \<Rightarrow> 'o result) \<Rightarrow> 'o LogGlobals \<Rightarrow> 'o LogGlobals" where
  "Logger_setFlush f G = G\<lparr>g_flush := f\<rparr>"

text \<open>The destructor with its calls of the global functions; the flag says that the process aborts.\<close>

definition Logger_emit :: "'o LogGlobals \<Rightarrow> LoggerImpl \<Rightarrow> 'o \<Rightarrow> (bool \<times> 'o) result" where
  "Logger_emit G im out = bindR (Logger_destroy im) (\<lambda>(msg, fatal).
     bindR (g_output G msg (sint (of_nat (length msg) :: 32 word)) out) (\<lambda>out1.
       if fatal then bindR (g_flush G out1) (\<lambda>out2. Inr (True, out2)) else Inr (False, out1)))"

text \<open>A line shorter than two gigabytes reaches the standard output; a fatal one is flushed before the process aborts.\<close>

lemma Logger_emit_default:
  assumes "Logger_destroy im = Inr (msg, fatal)" and "length msg < 2 ^ 31"
  shows "Logger_emit LogGlobals_init im out = Inr (fatal, out\<lparr>stdout_text := stdout_text out @ msg,
    stdout_flushed := (if fatal then length (stdout_text out @ msg) else stdout_flushed out)\<rparr>)"
proof -
  have "sint (of_nat (length msg) :: 32 word) = int (length msg)"
    using assms(2) by (simp add: signed_of_nat signed_take_bit_int_eq_self)
  then show ?thesis using assms(1)
    by (simp add: Logger_emit_def LogGlobals_init_def defaultOutput_def defaultFlush_def)
qed


end
