(* ===== verification/Channel.thy ===== *)
theory Channel
  imports Timestamp
begin

unbundle bit_operations_syntax

text \<open>
  The state of an event loop and its channels: \<^verbatim>\<open>net/Channel.h\<close>, \<^verbatim>\<open>net/Channel.cpp\<close>, the data members of
  \<^verbatim>\<open>net/EventLoop.h\<close> and \<^verbatim>\<open>net/Poller.h\<close>.

  \<^item> Objects that the code reaches through pointers live in stores: \<open>chan\<close> maps the address of a
    \<open>Channel\<close> to the object, and a dead address is undefined behaviour to read.
  \<^item> A \<^verbatim>\<open>std::function\<close> is a closure name of type \<open>'c\<close>; running one is the parameter \<open>call\<close>
    of the operations that invoke callbacks, so every client of the loop supplies its own.
  \<^item> The kernel side of \<^verbatim>\<open>epoll\<close> has the abstract state \<open>'k\<close>, changed through the parameter
    \<open>epoll_ctl\<close> of the environment \<open>env\<close>.
  \<^item> \<open>ndebug\<close> says whether the build defines \<^verbatim>\<open>NDEBUG\<close>: \<open>cassert\<close> is \<^verbatim>\<open>assert\<close> under that flag.
  \<^item> The record is extended by the clients of the loop (connections), which is why the operations
    take the scheme type.
\<close>

section \<open>Event masks\<close>

type_synonym ev = "32 word"

definition EPOLLIN :: ev where "EPOLLIN = 1"
definition EPOLLPRI :: ev where "EPOLLPRI = 2"
definition EPOLLOUT :: ev where "EPOLLOUT = 4"
definition EPOLLERR :: ev where "EPOLLERR = 8"
definition EPOLLHUP :: ev where "EPOLLHUP = 16"
definition EPOLLRDHUP :: ev where "EPOLLRDHUP = 8192"
definition EPOLLET :: ev where "EPOLLET = 2147483648"

lemmas epoll_masks = EPOLLIN_def EPOLLPRI_def EPOLLOUT_def EPOLLERR_def EPOLLHUP_def
  EPOLLRDHUP_def EPOLLET_def

definition kNoneEvent :: ev where "kNoneEvent = 0"
definition kReadEvent :: ev where "kReadEvent = EPOLLIN OR EPOLLPRI"
definition kWriteEvent :: ev where "kWriteEvent = EPOLLOUT"

section \<open>Channels and the loop that owns them\<close>

record 'c Channel =
  chan_fd :: int
  events :: ev
  revents :: ev
  index :: int
  et :: bool
  logHup :: bool
  tied :: bool
  eventHandling :: bool
  addedToLoop :: bool
  tie :: "nat option"
  readCallback :: "'c option"
  writeCallback :: "'c option"
  closeCallback :: "'c option"
  errorCallback :: "'c option"

record ('k, 'c) EventLoop =
  looping :: bool
  quit :: bool
  loopEventHandling :: bool
  callingPendingFunctors :: bool
  iteration :: int
  threadId :: int
  pollReturnTime :: Timestamp
  wakeupCounter :: nat
  activeChannels :: "nat list"
  currentActiveChannel :: "nat option"
  pendingFunctors :: "'c list"
  channels :: "int \<rightharpoonup> nat"
  epollk :: 'k
  eventsSize :: nat
  chan :: "nat \<rightharpoonup> 'c Channel"
  alive :: "nat set"

text \<open>
  The member initialisers of \<^verbatim>\<open>EventLoop\<close> and of its poller, on thread \<open>th\<close> with a fresh
  \<^verbatim>\<open>epoll\<close> instance \<open>k\<close>; no channel exists yet.
\<close>

definition kInitEventListSize :: nat where "kInitEventListSize = 16"

definition EventLoop_members :: "int \<Rightarrow> 'k \<Rightarrow> ('k, 'c) EventLoop" where
  "EventLoop_members th k = \<lparr>looping = False, quit = False, loopEventHandling = False,
     callingPendingFunctors = False, iteration = 0, threadId = th, pollReturnTime = Timestamp_invaild,
     wakeupCounter = 0, activeChannels = [], currentActiveChannel = None, pendingFunctors = [],
     channels = Map.empty, epollk = k, eventsSize = kInitEventListSize, chan = Map.empty, alive = {}\<rparr>"

datatype ctl_op = EPOLL_CTL_ADD | EPOLL_CTL_DEL | EPOLL_CTL_MOD

text \<open>\<open>tid\<close> is the thread that executes the operation.\<close>

record 'k env =
  ndebug :: bool
  tid :: int
  epoll_ctl :: "'k \<Rightarrow> ctl_op \<Rightarrow> int \<Rightarrow> ev \<times> nat \<Rightarrow> 'k \<times> bool"

definition cassert :: "('k, 'e) env_scheme \<Rightarrow> bool \<Rightarrow> 'a result \<Rightarrow> 'a result" where
  "cassert E P r = (if P \<or> ndebug E then r else Inl AssertFailed)"

lemma cassert_simps [simp]:
  "cassert E True r = r" "ndebug E \<Longrightarrow> cassert E P r = r"
  by (simp_all add: cassert_def)

lemma cassert_eq_Inr: "cassert E P r = Inr x \<longleftrightarrow> (P \<or> ndebug E) \<and> r = Inr x"
  by (simp add: cassert_def)

definition Channel_new :: "int \<Rightarrow> 'c Channel" where
  "Channel_new f = \<lparr>chan_fd = f, events = 0, revents = 0, index = -1, et = True, logHup = True,
     tied = False, eventHandling = False, addedToLoop = False, tie = None,
     readCallback = None, writeCallback = None, closeCallback = None, errorCallback = None\<rparr>"

definition Channel_isNoneEvent :: "'c Channel \<Rightarrow> bool" where
  "Channel_isNoneEvent ch \<longleftrightarrow> events ch = kNoneEvent"

definition Channel_isReading :: "'c Channel \<Rightarrow> bool" where
  "Channel_isReading ch \<longleftrightarrow> events ch AND kReadEvent \<noteq> 0"

definition Channel_isWriting :: "'c Channel \<Rightarrow> bool" where
  "Channel_isWriting ch \<longleftrightarrow> events ch AND kWriteEvent \<noteq> 0"

text \<open>Replacing the object at an address.\<close>

definition set_chan :: "nat \<Rightarrow> 'c Channel \<Rightarrow> ('k, 'c, 'z) EventLoop_scheme \<Rightarrow> ('k, 'c, 'z) EventLoop_scheme"
  where "set_chan c ch s = s\<lparr>chan := (chan s)(c \<mapsto> ch)\<rparr>"

definition mod_chan :: "nat \<Rightarrow> ('c Channel \<Rightarrow> 'c Channel) \<Rightarrow> ('k, 'c, 'z) EventLoop_scheme \<Rightarrow>
    ('k, 'c, 'z) EventLoop_scheme result" where
  "mod_chan c f s = bindR (derefR (chan s) c) (\<lambda>ch. Inr (set_chan c (f ch) s))"

definition Channel_tie :: "nat \<Rightarrow> nat \<Rightarrow> ('k, 'c, 'z) EventLoop_scheme \<Rightarrow> ('k, 'c, 'z) EventLoop_scheme result"
  where "Channel_tie c ob = mod_chan c (\<lambda>ch. ch\<lparr>tie := Some ob, tied := True\<rparr>)"

definition Channel_destroy :: "('k, 'e) env_scheme \<Rightarrow> nat \<Rightarrow> ('k, 'c, 'z) EventLoop_scheme \<Rightarrow>
    ('k, 'c, 'z) EventLoop_scheme result" where
  "Channel_destroy E c s = bindR (derefR (chan s) c) (\<lambda>ch.
     cassert E (\<not> eventHandling ch) (cassert E (\<not> addedToLoop ch)
       (Inr (s\<lparr>chan := (chan s)(c := None)\<rparr>))))"

definition Channel_eventsToString :: "int \<Rightarrow> ev \<Rightarrow> string" where
  "Channel_eventsToString f e =
     dec_int f @ '': '' @
     (if e AND EPOLLIN \<noteq> 0 then ''IN '' else []) @
     (if e AND EPOLLPRI \<noteq> 0 then ''PRI '' else []) @
     (if e AND EPOLLOUT \<noteq> 0 then ''OUT '' else []) @
     (if e AND EPOLLHUP \<noteq> 0 then ''HUP '' else []) @
     (if e AND EPOLLRDHUP \<noteq> 0 then ''RDHUP '' else []) @
     (if e AND EPOLLERR \<noteq> 0 then ''ERR '' else [])"

section \<open>Dispatching an event\<close>

text \<open>
  Run the callback that \<open>sel\<close> selects if the received events satisfy \<open>cond\<close>; both are read
  from the object at that moment, so a callback that destroyed the channel makes the next read
  undefined.
\<close>

definition fire ::
  "('c \<Rightarrow> Timestamp \<Rightarrow> ('k, 'c, 'z) EventLoop_scheme \<Rightarrow> ('k, 'c, 'z) EventLoop_scheme result) \<Rightarrow>
   Timestamp \<Rightarrow> nat \<Rightarrow> (ev \<Rightarrow> bool) \<Rightarrow> ('c Channel \<Rightarrow> 'c option) \<Rightarrow> ('k, 'c, 'z) EventLoop_scheme \<Rightarrow>
   ('k, 'c, 'z) EventLoop_scheme result" where
  "fire call t c cond sel s = bindR (derefR (chan s) c) (\<lambda>ch.
     if cond (revents ch) then case sel ch of None \<Rightarrow> Inr s | Some f \<Rightarrow> call f t s else Inr s)"

definition hup_cond :: "ev \<Rightarrow> bool" where
  "hup_cond r \<longleftrightarrow> r AND EPOLLHUP \<noteq> 0 \<and> \<not> (r AND EPOLLIN \<noteq> 0)"

definition err_cond :: "ev \<Rightarrow> bool" where
  "err_cond r \<longleftrightarrow> r AND EPOLLERR \<noteq> 0"

definition read_cond :: "ev \<Rightarrow> bool" where
  "read_cond r \<longleftrightarrow> r AND (EPOLLIN OR EPOLLPRI OR EPOLLRDHUP) \<noteq> 0"

definition write_cond :: "ev \<Rightarrow> bool" where
  "write_cond r \<longleftrightarrow> r AND EPOLLOUT \<noteq> 0"

definition Channel_handleEventWithGuard ::
  "('c \<Rightarrow> Timestamp \<Rightarrow> ('k, 'c, 'z) EventLoop_scheme \<Rightarrow> ('k, 'c, 'z) EventLoop_scheme result) \<Rightarrow>
   Timestamp \<Rightarrow> nat \<Rightarrow> ('k, 'c, 'z) EventLoop_scheme \<Rightarrow> ('k, 'c, 'z) EventLoop_scheme result" where
  "Channel_handleEventWithGuard call t c s =
     bindR (mod_chan c (\<lambda>ch. ch\<lparr>eventHandling := True\<rparr>) s) (\<lambda>s1.
     bindR (fire call t c hup_cond closeCallback s1) (\<lambda>s2.
     bindR (fire call t c err_cond errorCallback s2) (\<lambda>s3.
     bindR (fire call t c read_cond readCallback s3) (\<lambda>s4.
     bindR (fire call t c write_cond writeCallback s4) (\<lambda>s5.
       mod_chan c (\<lambda>ch. ch\<lparr>eventHandling := False\<rparr>) s5)))))"

definition Channel_handleEvent ::
  "('c \<Rightarrow> Timestamp \<Rightarrow> ('k, 'c, 'z) EventLoop_scheme \<Rightarrow> ('k, 'c, 'z) EventLoop_scheme result) \<Rightarrow>
   Timestamp \<Rightarrow> nat \<Rightarrow> ('k, 'c, 'z) EventLoop_scheme \<Rightarrow> ('k, 'c, 'z) EventLoop_scheme result" where
  "Channel_handleEvent call t c s = bindR (derefR (chan s) c) (\<lambda>ch.
     if tied ch
     then case tie ch of
            None \<Rightarrow> Inr s
          | Some ob \<Rightarrow> if ob \<in> alive s then Channel_handleEventWithGuard call t c s else Inr s
     else Channel_handleEventWithGuard call t c s)"

section \<open>Which callbacks run, and in which order\<close>

definition steps_of :: "('c Channel \<Rightarrow> 'c option) \<Rightarrow> (ev \<Rightarrow> bool) \<Rightarrow> 'c Channel \<Rightarrow> 'c list" where
  "steps_of sel cond ch = (if cond (revents ch) then (case sel ch of None \<Rightarrow> [] | Some f \<Rightarrow> [f]) else [])"

definition dispatch :: "'c Channel \<Rightarrow> 'c list" where
  "dispatch ch = steps_of closeCallback hup_cond ch @ steps_of errorCallback err_cond ch @
     steps_of readCallback read_cond ch @ steps_of writeCallback write_cond ch"

text \<open>
  The callbacks a client hands to a channel neither destroy it nor change what it dispatches on.
\<close>

definition keeps_channel ::
  "('c \<Rightarrow> Timestamp \<Rightarrow> ('k, 'c, 'z) EventLoop_scheme \<Rightarrow> ('k, 'c, 'z) EventLoop_scheme result) \<Rightarrow> nat \<Rightarrow> bool" where
  "keeps_channel call c \<longleftrightarrow> (\<forall>f t s s' ch. call f t s = Inr s' \<longrightarrow> chan s c = Some ch \<longrightarrow>
     (\<exists>ch'. chan s' c = Some ch' \<and> revents ch' = revents ch \<and> readCallback ch' = readCallback ch \<and>
        writeCallback ch' = writeCallback ch \<and> closeCallback ch' = closeCallback ch \<and>
        errorCallback ch' = errorCallback ch))"

text \<open>The part of a channel that decides a dispatch.\<close>

definition same_dispatch :: "'c Channel \<Rightarrow> 'c Channel \<Rightarrow> bool" where
  "same_dispatch ch ch' \<longleftrightarrow> revents ch' = revents ch \<and> readCallback ch' = readCallback ch \<and>
     writeCallback ch' = writeCallback ch \<and> closeCallback ch' = closeCallback ch \<and>
     errorCallback ch' = errorCallback ch"

lemma keeps_channelD:
  "keeps_channel call c \<Longrightarrow> call f t s = Inr s' \<Longrightarrow> chan s c = Some ch \<Longrightarrow>
   \<exists>ch'. chan s' c = Some ch' \<and> same_dispatch ch ch'"
  unfolding keeps_channel_def same_dispatch_def by blast

lemma same_dispatch_trans: "same_dispatch a b \<Longrightarrow> same_dispatch b c \<Longrightarrow> same_dispatch a c"
  by (simp add: same_dispatch_def)

lemma fire_eq:
  "chan s c = Some ch \<Longrightarrow> fire call t c cond sel s = foldR (\<lambda>f. call f t) (steps_of sel cond ch) s"
  by (cases "sel ch") (auto simp: fire_def steps_of_def bindR_def split: sum.splits)

lemma foldR_keeps_channel:
  assumes "keeps_channel call c" and "foldR (\<lambda>f. call f t) fs s = Inr s'" and "chan s c = Some ch"
  shows "\<exists>ch'. chan s' c = Some ch' \<and> same_dispatch ch ch'"
  using assms(2,3)
proof (induction fs arbitrary: s ch)
  case Nil
  then show ?case by (simp add: same_dispatch_def)
next
  case (Cons f fs)
  from Cons.prems(1) obtain s1 where s1: "call f t s = Inr s1" "foldR (\<lambda>f. call f t) fs s1 = Inr s'"
    by auto
  from keeps_channelD [OF assms(1) s1(1) Cons.prems(2)] obtain ch1
    where c1: "chan s1 c = Some ch1" "same_dispatch ch ch1" by blast
  from Cons.IH [OF s1(2) c1(1)] c1(2) show ?case by (blast intro: same_dispatch_trans)
qed

lemma steps_of_same:
  assumes "same_dispatch ch ch'"
  shows "steps_of closeCallback cnd ch' = steps_of closeCallback cnd ch"
    and "steps_of errorCallback cnd ch' = steps_of errorCallback cnd ch"
    and "steps_of readCallback cnd ch' = steps_of readCallback cnd ch"
    and "steps_of writeCallback cnd ch' = steps_of writeCallback cnd ch"
  using assms by (simp_all add: steps_of_def same_dispatch_def)

lemma fire_dispatch:
  assumes k: "keeps_channel call c" and s: "chan s c = Some ch0" "same_dispatch ch ch0"
    and sel: "steps_of sel cond ch0 = steps_of sel cond ch"
    and r: "\<And>s' ch'. chan s' c = Some ch' \<Longrightarrow> same_dispatch ch ch' \<Longrightarrow>
              r s' = bindR (foldR (\<lambda>f. call f t) fs s') q"
  shows "bindR (fire call t c cond sel s) r
         = bindR (foldR (\<lambda>f. call f t) (steps_of sel cond ch @ fs) s) q"
proof (cases "foldR (\<lambda>f. call f t) (steps_of sel cond ch) s")
  case (Inl e)
  then show ?thesis using s sel by (simp add: fire_eq foldR_append)
next
  case (Inr s')
  then obtain ch' where "chan s' c = Some ch'" "same_dispatch ch0 ch'"
    using foldR_keeps_channel [OF k] s(1) by blast
  then have "r s' = bindR (foldR (\<lambda>f. call f t) fs s') q"
    using r same_dispatch_trans s(2) by blast
  then show ?thesis using Inr s sel by (simp add: fire_eq foldR_append)
qed

lemma handleEventWithGuard_eq:
  assumes k: "keeps_channel call c" and ch: "chan s c = Some ch"
  shows "Channel_handleEventWithGuard call t c s
         = bindR (foldR (\<lambda>f. call f t) (dispatch ch) (set_chan c (ch\<lparr>eventHandling := True\<rparr>) s))
             (mod_chan c (\<lambda>ch'. ch'\<lparr>eventHandling := False\<rparr>))"
proof -
  let ?s = "set_chan c (ch\<lparr>eventHandling := True\<rparr>) s"
  have s: "chan ?s c = Some (ch\<lparr>eventHandling := True\<rparr>)" "same_dispatch ch (ch\<lparr>eventHandling := True\<rparr>)"
    by (simp_all add: set_chan_def same_dispatch_def)
  have last: "bindR (fire call t c write_cond writeCallback s4)
       (\<lambda>s5. mod_chan c (\<lambda>ch. ch\<lparr>eventHandling := False\<rparr>) s5)
     = bindR (foldR (\<lambda>f. call f t) (steps_of writeCallback write_cond ch) s4)
         (mod_chan c (\<lambda>ch'. ch'\<lparr>eventHandling := False\<rparr>))"
    if "chan s4 c = Some ch4" "same_dispatch ch ch4" for s4 ch4
    using that by (simp add: fire_eq steps_of_same)
  show ?thesis
    unfolding Channel_handleEventWithGuard_def dispatch_def mod_chan_def [of c _ s]
    apply (simp only: derefR_simps(1) [of "chan s", OF ch] bindR_simps)
    apply (rule fire_dispatch [OF k s], rule steps_of_same(1) [OF s(2)])
    apply (rule fire_dispatch [OF k], assumption, assumption, erule steps_of_same(2))
    apply (rule fire_dispatch [OF k], assumption, assumption, erule steps_of_same(3))
    by (rule last)
qed

text \<open>
  C34: handling an event runs exactly the callbacks that the received mask selects, once each and in
  the order close, error, read, write, between setting and clearing \<^verbatim>\<open>eventHandling_\<close>; the first
  callback that fails ends it.  A channel tied to an object that is gone runs nothing.  The
  hypotheses are that the channel lives and that its callbacks neither destroy it nor change what it
  dispatches on.
\<close>

theorem Channel_handleEvent_dispatch:
  assumes "keeps_channel call c" and "chan s c = Some ch"
  shows "Channel_handleEvent call t c s =
    (if tied ch \<and> (\<forall>ob. tie ch = Some ob \<longrightarrow> ob \<notin> alive s) then Inr s
     else bindR (foldR (\<lambda>f. call f t) (dispatch ch) (set_chan c (ch\<lparr>eventHandling := True\<rparr>) s))
            (mod_chan c (\<lambda>ch'. ch'\<lparr>eventHandling := False\<rparr>)))"
  using assms by (auto simp: Channel_handleEvent_def handleEventWithGuard_eq split: option.splits)

text \<open>A peer that hung up with the write side ready: close, then write; the read callback is silent.\<close>

theorem Channel_handleEvent_dispatch_witness:
  "map_sum id pendingFunctors
     (Channel_handleEvent (\<lambda>f t s. Inr (s\<lparr>pendingFunctors := pendingFunctors s @ [f]\<rparr>)) (Timestamp 5) 3
       (set_chan 3 ((Channel_new 7)\<lparr>revents := EPOLLHUP OR EPOLLOUT, readCallback := Some 1,
           writeCallback := Some 2, closeCallback := Some (9 :: nat)\<rparr>) (EventLoop_members 1 ())))
   = Inr [9, 2]"
proof -
  let ?call = "\<lambda>f t (s :: (unit, nat) EventLoop). Inr (s\<lparr>pendingFunctors := pendingFunctors s @ [f]\<rparr>)"
  let ?ch = "(Channel_new 7)\<lparr>revents := EPOLLHUP OR EPOLLOUT, readCallback := Some 1,
       writeCallback := Some 2, closeCallback := Some (9 :: nat)\<rparr>"
  let ?s = "set_chan 3 ?ch (EventLoop_members 1 ())"
  have c: "chan ?s 3 = Some ?ch" by (simp add: set_chan_def)
  have d: "dispatch ?ch = [9, 2]"
    by (simp add: dispatch_def steps_of_def hup_cond_def err_cond_def read_cond_def write_cond_def
        epoll_masks Channel_new_def)
  have "keeps_channel ?call 3" by (simp add: keeps_channel_def)
  from Channel_handleEvent_dispatch [OF this c, of "Timestamp 5"] d show ?thesis
    by (simp add: Channel_new_def mod_chan_def set_chan_def EventLoop_members_def)
qed

end
