(* ===== verification/Poller.thy ===== *)
theory Poller
  imports Channel
begin

text \<open>
  Registration of channels with \<^verbatim>\<open>epoll\<close>: \<^verbatim>\<open>net/Poller.cpp\<close>, \<^verbatim>\<open>net/EpollPoller.cpp\<close>, the channel operations of
  \<^verbatim>\<open>net/Channel.h\<close> that go through the loop, and the loop's \<^verbatim>\<open>updateChannel\<close>, \<^verbatim>\<open>removeChannel\<close> and
  \<^verbatim>\<open>hasChannel\<close> (\<^verbatim>\<open>net/Eventloop.cpp\<close>).

  The kernel is the parameter \<open>epoll_ctl\<close> of the environment; \<open>epoll_documented\<close> states what its
  manual page promises, and \<open>man_epoll_ctl\<close> is an interest list that keeps it.  A channel of the
  store belongs to the loop whose state holds the store, so the assertion
  \<^verbatim>\<open>channel->ownerLoop() == this\<close> always holds here.
\<close>

unbundle bit_operations_syntax

section \<open>Operations\<close>

definition EventLoop_assertInLoopThread ::
  "('k, 'e) env_scheme \<Rightarrow> ('k, 'c, 'z) EventLoop_scheme \<Rightarrow> 'a result \<Rightarrow> 'a result" where
  "EventLoop_assertInLoopThread E s r = (if threadId s = tid E then r else Inl Aborted)"

definition EPollPoller_operationToString :: "ctl_op \<Rightarrow> string" where
  "EPollPoller_operationToString op = (case op of
     EPOLL_CTL_ADD \<Rightarrow> ''ADD'' | EPOLL_CTL_DEL \<Rightarrow> ''DEL'' | EPOLL_CTL_MOD \<Rightarrow> ''MOD'')"

text \<open>The mask handed to the kernel.\<close>

definition event_mask :: "'c Channel \<Rightarrow> ev" where
  "event_mask ch = (if et ch then events ch OR EPOLLET else events ch)"

definition EPollPoller_update :: "('k, 'e) env_scheme \<Rightarrow> ctl_op \<Rightarrow> nat \<Rightarrow>
    ('k, 'c, 'z) EventLoop_scheme \<Rightarrow> ('k, 'c, 'z) EventLoop_scheme result" where
  "EPollPoller_update E op c s = bindR (derefR (chan s) c) (\<lambda>ch.
     case epoll_ctl E (epollk s) op (chan_fd ch) (event_mask ch, c) of (k', ok) \<Rightarrow>
       if \<not> ok \<and> op \<noteq> EPOLL_CTL_DEL then Inl Aborted
       else mod_chan c (\<lambda>ch. ch\<lparr>index := (case op of
              EPOLL_CTL_ADD \<Rightarrow> 1 | EPOLL_CTL_DEL \<Rightarrow> -1 | EPOLL_CTL_MOD \<Rightarrow> 2)\<rparr>) (s\<lparr>epollk := k'\<rparr>))"

definition EPollPoller_updateChannel :: "('k, 'e) env_scheme \<Rightarrow> nat \<Rightarrow>
    ('k, 'c, 'z) EventLoop_scheme \<Rightarrow> ('k, 'c, 'z) EventLoop_scheme result" where
  "EPollPoller_updateChannel E c s = EventLoop_assertInLoopThread E s
     (bindR (derefR (chan s) c) (\<lambda>ch.
        if index ch < 0 then
          cassert E (channels s (chan_fd ch) = None)
            (EPollPoller_update E EPOLL_CTL_ADD c (s\<lparr>channels := (channels s)(chan_fd ch \<mapsto> c)\<rparr>))
        else
          cassert E (channels s (chan_fd ch) \<noteq> None)
          (cassert E (channels s (chan_fd ch) = Some c)
            (if Channel_isNoneEvent ch
             then bindR (EPollPoller_update E EPOLL_CTL_DEL c s) (mod_chan c (\<lambda>ch. ch\<lparr>index := -1\<rparr>))
             else EPollPoller_update E EPOLL_CTL_MOD c s))))"

definition EPollPoller_removeChannel :: "('k, 'e) env_scheme \<Rightarrow> nat \<Rightarrow>
    ('k, 'c, 'z) EventLoop_scheme \<Rightarrow> ('k, 'c, 'z) EventLoop_scheme result" where
  "EPollPoller_removeChannel E c s = EventLoop_assertInLoopThread E s
     (bindR (derefR (chan s) c) (\<lambda>ch.
        cassert E (channels s (chan_fd ch) \<noteq> None)
        (cassert E (channels s (chan_fd ch) = Some c)
        (cassert E (Channel_isNoneEvent ch)
        (cassert E (index ch = 1 \<or> index ch = 2)
          (let s1 = s\<lparr>channels := (channels s)(chan_fd ch := None)\<rparr> in
           bindR (if index ch = 2 then EPollPoller_update E EPOLL_CTL_DEL c s1 else Inr s1)
             (mod_chan c (\<lambda>ch. ch\<lparr>index := -1\<rparr>))))))))"

definition Poller_hasChannel :: "('k, 'e) env_scheme \<Rightarrow> nat \<Rightarrow> ('k, 'c, 'z) EventLoop_scheme \<Rightarrow> bool result"
  where "Poller_hasChannel E c s = EventLoop_assertInLoopThread E s
     (bindR (derefR (chan s) c) (\<lambda>ch. Inr (channels s (chan_fd ch) = Some c)))"

definition EventLoop_updateChannel :: "('k, 'e) env_scheme \<Rightarrow> nat \<Rightarrow>
    ('k, 'c, 'z) EventLoop_scheme \<Rightarrow> ('k, 'c, 'z) EventLoop_scheme result" where
  "EventLoop_updateChannel E c s = EventLoop_assertInLoopThread E s (EPollPoller_updateChannel E c s)"

definition EventLoop_removeChannel :: "('k, 'e) env_scheme \<Rightarrow> nat \<Rightarrow>
    ('k, 'c, 'z) EventLoop_scheme \<Rightarrow> ('k, 'c, 'z) EventLoop_scheme result" where
  "EventLoop_removeChannel E c s = EventLoop_assertInLoopThread E s
     (cassert E (loopEventHandling s \<longrightarrow> currentActiveChannel s = Some c \<or> c \<notin> set (activeChannels s))
       (EPollPoller_removeChannel E c s))"

definition EventLoop_hasChannel :: "('k, 'e) env_scheme \<Rightarrow> nat \<Rightarrow> ('k, 'c, 'z) EventLoop_scheme \<Rightarrow> bool result"
  where "EventLoop_hasChannel E c s = EventLoop_assertInLoopThread E s (Poller_hasChannel E c s)"

definition Channel_update :: "('k, 'e) env_scheme \<Rightarrow> nat \<Rightarrow>
    ('k, 'c, 'z) EventLoop_scheme \<Rightarrow> ('k, 'c, 'z) EventLoop_scheme result" where
  "Channel_update E c s =
     bindR (mod_chan c (\<lambda>ch. ch\<lparr>addedToLoop := True\<rparr>) s) (EventLoop_updateChannel E c)"

definition Channel_enableReading :: "('k, 'e) env_scheme \<Rightarrow> nat \<Rightarrow>
    ('k, 'c, 'z) EventLoop_scheme \<Rightarrow> ('k, 'c, 'z) EventLoop_scheme result" where
  "Channel_enableReading E c s =
     bindR (mod_chan c (\<lambda>ch. ch\<lparr>events := events ch OR kReadEvent\<rparr>) s) (Channel_update E c)"

definition Channel_disableReading :: "('k, 'e) env_scheme \<Rightarrow> nat \<Rightarrow>
    ('k, 'c, 'z) EventLoop_scheme \<Rightarrow> ('k, 'c, 'z) EventLoop_scheme result" where
  "Channel_disableReading E c s =
     bindR (mod_chan c (\<lambda>ch. ch\<lparr>events := events ch AND NOT kReadEvent\<rparr>) s) (Channel_update E c)"

definition Channel_enableWriting :: "('k, 'e) env_scheme \<Rightarrow> nat \<Rightarrow>
    ('k, 'c, 'z) EventLoop_scheme \<Rightarrow> ('k, 'c, 'z) EventLoop_scheme result" where
  "Channel_enableWriting E c s =
     bindR (mod_chan c (\<lambda>ch. ch\<lparr>events := events ch OR kWriteEvent\<rparr>) s) (Channel_update E c)"

definition Channel_disableWriting :: "('k, 'e) env_scheme \<Rightarrow> nat \<Rightarrow>
    ('k, 'c, 'z) EventLoop_scheme \<Rightarrow> ('k, 'c, 'z) EventLoop_scheme result" where
  "Channel_disableWriting E c s =
     bindR (mod_chan c (\<lambda>ch. ch\<lparr>events := events ch AND NOT kWriteEvent\<rparr>) s) (Channel_update E c)"

definition Channel_disableAll :: "('k, 'e) env_scheme \<Rightarrow> nat \<Rightarrow>
    ('k, 'c, 'z) EventLoop_scheme \<Rightarrow> ('k, 'c, 'z) EventLoop_scheme result" where
  "Channel_disableAll E c s =
     bindR (mod_chan c (\<lambda>ch. ch\<lparr>events := kNoneEvent\<rparr>) s) (Channel_update E c)"

definition Channel_remove :: "('k, 'e) env_scheme \<Rightarrow> nat \<Rightarrow>
    ('k, 'c, 'z) EventLoop_scheme \<Rightarrow> ('k, 'c, 'z) EventLoop_scheme result" where
  "Channel_remove E c s = bindR (derefR (chan s) c) (\<lambda>ch.
     cassert E (Channel_isNoneEvent ch)
       (bindR (mod_chan c (\<lambda>ch. ch\<lparr>addedToLoop := False\<rparr>) s) (EventLoop_removeChannel E c)))"

text \<open>
  What \<^verbatim>\<open>epoll_wait\<close> gives: the ready events (none on a timeout), or an error.  An error is only
  logged, and \<^verbatim>\<open>EINTR\<close> not even that, so its number does not matter.
\<close>

datatype wait_result = WaitEvents "(ev \<times> nat) list" | WaitError int

definition EPollPoller_fillActiveChannels :: "('k, 'e) env_scheme \<Rightarrow> (ev \<times> nat) list \<Rightarrow>
    ('k, 'c, 'z) EventLoop_scheme \<Rightarrow> ('k, 'c, 'z) EventLoop_scheme result" where
  "EPollPoller_fillActiveChannels E evs s = cassert E (length evs \<le> eventsSize s)
     (foldR (\<lambda>(e, c) s. bindR (derefR (chan s) c) (\<lambda>ch.
        cassert E (channels s (chan_fd ch) \<noteq> None)
        (cassert E (channels s (chan_fd ch) = Some c)
          (bindR (mod_chan c (\<lambda>ch. ch\<lparr>revents := e\<rparr>) s)
             (\<lambda>s. Inr (s\<lparr>activeChannels := activeChannels s @ [c]\<rparr>)))))) evs s)"

definition EPollPoller_poll :: "('k, 'e) env_scheme \<Rightarrow> wait_result \<Rightarrow>
    ('k, 'c, 'z) EventLoop_scheme \<Rightarrow> ('k, 'c, 'z) EventLoop_scheme result" where
  "EPollPoller_poll E w s = (case w of
     WaitEvents evs \<Rightarrow>
       if 0 < length evs
       then bindR (EPollPoller_fillActiveChannels E evs s) (\<lambda>s1.
              Inr (if length evs = eventsSize s1 then s1\<lparr>eventsSize := eventsSize s1 * 2\<rparr> else s1))
       else Inr s
   | WaitError e \<Rightarrow> Inr s)"

section \<open>One form for the five interest changes\<close>

abbreviation with_events :: "('k, 'e) env_scheme \<Rightarrow> nat \<Rightarrow> (ev \<Rightarrow> ev) \<Rightarrow>
    ('k, 'c, 'z) EventLoop_scheme \<Rightarrow> ('k, 'c, 'z) EventLoop_scheme result" where
  "with_events E c g s \<equiv> bindR (mod_chan c (\<lambda>ch. ch\<lparr>events := g (events ch)\<rparr>) s) (Channel_update E c)"

lemmas interest_changes = Channel_enableReading_def Channel_disableReading_def
  Channel_enableWriting_def Channel_disableWriting_def Channel_disableAll_def

lemmas poller_defs = Channel_update_def EventLoop_updateChannel_def EPollPoller_updateChannel_def
  EventLoop_assertInLoopThread_def EPollPoller_update_def mod_chan_def set_chan_def Channel_isNoneEvent_def
  kNoneEvent_def

lemma event_mask_frame [simp]:
  "event_mask (ch\<lparr>addedToLoop := b\<rparr>) = event_mask ch" "event_mask (ch\<lparr>index := i\<rparr>) = event_mask ch"
  by (simp_all add: event_mask_def)

lemma with_events_add:
  assumes "chan s c = Some ch" and "threadId s = tid E" and "index ch < 0"
    and "epoll_ctl E (epollk s) EPOLL_CTL_ADD (chan_fd ch) (event_mask (ch\<lparr>events := g (events ch)\<rparr>), c) = (k', ok)"
  shows "with_events E c g s = cassert E (channels s (chan_fd ch) = None)
    (if ok then Inr (s\<lparr>chan := (chan s)(c \<mapsto> ch\<lparr>events := g (events ch), addedToLoop := True, index := 1\<rparr>),
                      channels := (channels s)(chan_fd ch \<mapsto> c), epollk := k'\<rparr>)
     else Inl Aborted)"
  using assms by (simp add: poller_defs cassert_def)

lemma with_events_mod:
  assumes "chan s c = Some ch" and "threadId s = tid E" and "\<not> index ch < 0" and "g (events ch) \<noteq> 0"
    and "epoll_ctl E (epollk s) EPOLL_CTL_MOD (chan_fd ch) (event_mask (ch\<lparr>events := g (events ch)\<rparr>), c) = (k', ok)"
  shows "with_events E c g s = cassert E (channels s (chan_fd ch) = Some c)
    (if ok then Inr (s\<lparr>chan := (chan s)(c \<mapsto> ch\<lparr>events := g (events ch), addedToLoop := True, index := 2\<rparr>),
                      epollk := k'\<rparr>)
     else Inl Aborted)"
  using assms by (simp add: poller_defs cassert_def)

lemma with_events_del:
  assumes "chan s c = Some ch" and "threadId s = tid E" and "\<not> index ch < 0" and "g (events ch) = 0"
    and "epoll_ctl E (epollk s) EPOLL_CTL_DEL (chan_fd ch) (event_mask (ch\<lparr>events := g (events ch)\<rparr>), c) = (k', ok)"
  shows "with_events E c g s = cassert E (channels s (chan_fd ch) = Some c)
    (Inr (s\<lparr>chan := (chan s)(c \<mapsto> ch\<lparr>events := g (events ch), addedToLoop := True, index := -1\<rparr>),
            epollk := k'\<rparr>))"
  using assms by (simp add: poller_defs cassert_def)

lemma with_events_dead: "chan s c = None \<Longrightarrow> with_events E c g s = Inl Undefined"
  by (simp add: mod_chan_def)

lemma with_events_thread:
  "chan s c = Some ch \<Longrightarrow> threadId s \<noteq> tid E \<Longrightarrow> with_events E c g s = Inl Aborted"
  by (simp add: poller_defs)

text \<open>What every successful change does, whichever call it makes.\<close>

lemma with_events_frame:
  assumes "with_events E c g s = Inr s'"
  obtains ch i ks k where "chan s c = Some ch" and "threadId s = tid E"
    and "s' = s\<lparr>chan := (chan s)(c \<mapsto> ch\<lparr>events := g (events ch), addedToLoop := True, index := i\<rparr>),
              channels := ks, epollk := k\<rparr>"
proof -
  from assms obtain ch where ch: "chan s c = Some ch"
    by (cases "chan s c") (simp_all add: with_events_dead)
  with assms have t: "threadId s = tid E"
    by (cases "threadId s = tid E") (simp_all add: with_events_thread)
  let ?m = "(event_mask (ch\<lparr>events := g (events ch)\<rparr>), c)"
  obtain k1 ok1 where k1: "epoll_ctl E (epollk s) EPOLL_CTL_ADD (chan_fd ch) ?m = (k1, ok1)" by fastforce
  obtain k2 ok2 where k2: "epoll_ctl E (epollk s) EPOLL_CTL_MOD (chan_fd ch) ?m = (k2, ok2)" by fastforce
  obtain k3 ok3 where k3: "epoll_ctl E (epollk s) EPOLL_CTL_DEL (chan_fd ch) ?m = (k3, ok3)" by fastforce
  consider "index ch < 0" | "\<not> index ch < 0" "g (events ch) \<noteq> 0" | "\<not> index ch < 0" "g (events ch) = 0"
    by blast
  then show thesis
  proof cases
    case 1
    from that [OF ch t, of k1 "(channels s)(chan_fd ch \<mapsto> c)" 1] assms
      with_events_add [of s c ch E g, OF ch t 1 k1] show thesis
      by (simp add: cassert_def split: if_splits)
  next
    case 2
    from that [OF ch t, of k2 "channels s" 2] assms with_events_mod [of s c ch E g, OF ch t 2 k2] show thesis
      by (simp add: cassert_def split: if_splits)
  next
    case 3
    from that [OF ch t, of k3 "channels s" "-1"] assms with_events_del [of s c ch E g, OF ch t 3 k3] show thesis
      by (simp add: cassert_def split: if_splits)
  qed
qed

section \<open>The kernel interface\<close>

text \<open>
  What \<^verbatim>\<open>epoll_ctl(2)\<close> documents, through the interest list \<open>interest\<close> of an instance: a call that fails
  changes nothing; \<^verbatim>\<open>ADD\<close> succeeds only on an unregistered descriptor (else \<^verbatim>\<open>EEXIST\<close>), \<^verbatim>\<open>MOD\<close> only on a
  registered one (else \<^verbatim>\<open>ENOENT\<close>), and both then store the mask and the user data; \<^verbatim>\<open>DEL\<close> succeeds
  on the registered ones and forgets them.
\<close>

definition epoll_documented ::
  "('k \<Rightarrow> ctl_op \<Rightarrow> int \<Rightarrow> ev \<times> nat \<Rightarrow> 'k \<times> bool) \<Rightarrow> ('k \<Rightarrow> int \<rightharpoonup> ev \<times> nat) \<Rightarrow> bool" where
  "epoll_documented ctl interest \<longleftrightarrow> (\<forall>k op f d k' ok. ctl k op f d = (k', ok) \<longrightarrow>
     (if \<not> ok then interest k' = interest k
      else case op of
        EPOLL_CTL_ADD \<Rightarrow> interest k f = None \<and> interest k' = (interest k)(f \<mapsto> d)
      | EPOLL_CTL_MOD \<Rightarrow> interest k f \<noteq> None \<and> interest k' = (interest k)(f \<mapsto> d)
      | EPOLL_CTL_DEL \<Rightarrow> interest k f \<noteq> None \<and> interest k' = (interest k)(f := None)) \<and>
     (op = EPOLL_CTL_DEL \<and> interest k f \<noteq> None \<longrightarrow> ok))"

definition man_epoll_ctl ::
  "(int \<rightharpoonup> ev \<times> nat) \<Rightarrow> ctl_op \<Rightarrow> int \<Rightarrow> ev \<times> nat \<Rightarrow> (int \<rightharpoonup> ev \<times> nat) \<times> bool" where
  "man_epoll_ctl m op f d = (case op of
     EPOLL_CTL_ADD \<Rightarrow> if m f = None then (m(f \<mapsto> d), True) else (m, False)
   | EPOLL_CTL_MOD \<Rightarrow> if m f = None then (m, False) else (m(f \<mapsto> d), True)
   | EPOLL_CTL_DEL \<Rightarrow> if m f = None then (m, False) else (m(f := None), True))"

lemma man_epoll_documented: "epoll_documented man_epoll_ctl (\<lambda>m. m)"
  unfolding epoll_documented_def man_epoll_ctl_def by (auto split: ctl_op.splits if_splits)

lemma documented_fail:
  "epoll_documented ctl interest \<Longrightarrow> ctl k op f d = (k', False) \<Longrightarrow> interest k' = interest k"
  unfolding epoll_documented_def by metis

lemma documented_add:
  "epoll_documented ctl interest \<Longrightarrow> ctl k EPOLL_CTL_ADD f d = (k', ok) \<Longrightarrow> ok \<Longrightarrow>
   interest k f = None \<and> interest k' = (interest k)(f \<mapsto> d)"
  unfolding epoll_documented_def by fastforce

lemma documented_mod:
  "epoll_documented ctl interest \<Longrightarrow> ctl k EPOLL_CTL_MOD f d = (k', ok) \<Longrightarrow> ok \<Longrightarrow>
   interest k f \<noteq> None \<and> interest k' = (interest k)(f \<mapsto> d)"
  unfolding epoll_documented_def by fastforce

lemma documented_del:
  assumes "epoll_documented ctl interest" and "ctl k EPOLL_CTL_DEL f d = (k', ok)"
  shows "interest k' = (interest k)(f := None)"
proof (cases ok)
  case True
  with assms show ?thesis unfolding epoll_documented_def by fastforce
next
  case False
  with assms have "interest k f = None" "interest k' = interest k"
    unfolding epoll_documented_def by (metis, metis)
  then show ?thesis by auto
qed

section \<open>The registration invariant\<close>

text \<open>
  A channel whose index is not \<open>-1\<close> is in \<^verbatim>\<open>channels_\<close> and in the kernel's interest list, with its
  current events (and possibly the edge-triggered bit); every kernel entry belongs to such a channel,
  so the pointer the kernel hands back is alive; every entry of \<^verbatim>\<open>channels_\<close> is a live channel that
  was added and not removed.
\<close>

definition reg_ok :: "('k \<Rightarrow> int \<rightharpoonup> ev \<times> nat) \<Rightarrow> ('k, 'c, 'z) EventLoop_scheme \<Rightarrow> nat \<Rightarrow> 'c Channel \<Rightarrow> bool" where
  "reg_ok interest s c ch \<longleftrightarrow> index ch = -1 \<or>
     (index ch = 1 \<or> index ch = 2) \<and> channels s (chan_fd ch) = Some c \<and>
     (\<exists>e. interest (epollk s) (chan_fd ch) = Some (e, c) \<and> (e = events ch \<or> e = events ch OR EPOLLET))"

definition kernel_ok :: "('k \<Rightarrow> int \<rightharpoonup> ev \<times> nat) \<Rightarrow> ('k, 'c, 'z) EventLoop_scheme \<Rightarrow> bool" where
  "kernel_ok interest s \<longleftrightarrow> (\<forall>f e p. interest (epollk s) f = Some (e, p) \<longrightarrow>
     (\<exists>ch. chan s p = Some ch \<and> chan_fd ch = f \<and> index ch \<noteq> -1))"

definition map_ok :: "('k, 'c, 'z) EventLoop_scheme \<Rightarrow> bool" where
  "map_ok s \<longleftrightarrow> (\<forall>f c. channels s f = Some c \<longrightarrow>
     (\<exists>ch. chan s c = Some ch \<and> chan_fd ch = f \<and> addedToLoop ch))"

definition Poller_inv_outside :: "int set \<Rightarrow> ('k \<Rightarrow> int \<rightharpoonup> ev \<times> nat) \<Rightarrow> ('k, 'c, 'z) EventLoop_scheme \<Rightarrow> bool" where
  "Poller_inv_outside D interest s \<longleftrightarrow>
     (\<forall>c ch. chan s c = Some ch \<longrightarrow> chan_fd ch \<notin> D \<longrightarrow> reg_ok interest s c ch) \<and>
     (\<forall>f e p. f \<notin> D \<longrightarrow> interest (epollk s) f = Some (e, p) \<longrightarrow>
       (\<exists>ch. chan s p = Some ch \<and> chan_fd ch = f \<and> index ch \<noteq> -1)) \<and>
     (\<forall>f c. f \<notin> D \<longrightarrow> channels s f = Some c \<longrightarrow>
       (\<exists>ch. chan s c = Some ch \<and> chan_fd ch = f \<and> addedToLoop ch))"

definition Poller_inv :: "('k \<Rightarrow> int \<rightharpoonup> ev \<times> nat) \<Rightarrow> ('k, 'c, 'z) EventLoop_scheme \<Rightarrow> bool" where
  "Poller_inv interest s \<longleftrightarrow> (\<forall>c ch. chan s c = Some ch \<longrightarrow> reg_ok interest s c ch) \<and>
     kernel_ok interest s \<and> map_ok s"

lemma Poller_inv_iff: "Poller_inv interest s \<longleftrightarrow> Poller_inv_outside {} interest s"
  by (simp add: Poller_inv_def Poller_inv_outside_def kernel_ok_def map_ok_def)

lemma Poller_outsideI:
  assumes "\<And>c ch. chan s c = Some ch \<Longrightarrow> chan_fd ch \<notin> D \<Longrightarrow> reg_ok interest s c ch"
    and "\<And>f e p. f \<notin> D \<Longrightarrow> interest (epollk s) f = Some (e, p) \<Longrightarrow>
           \<exists>ch. chan s p = Some ch \<and> chan_fd ch = f \<and> index ch \<noteq> -1"
    and "\<And>f c. f \<notin> D \<Longrightarrow> channels s f = Some c \<Longrightarrow> \<exists>ch. chan s c = Some ch \<and> chan_fd ch = f \<and> addedToLoop ch"
  shows "Poller_inv_outside D interest s"
  using assms unfolding Poller_inv_outside_def by blast

lemma Poller_outsideD:
  assumes "Poller_inv_outside D interest s"
  shows "chan s c = Some ch \<Longrightarrow> chan_fd ch \<notin> D \<Longrightarrow> reg_ok interest s c ch"
    and "f \<notin> D \<Longrightarrow> interest (epollk s) f = Some (e, p) \<Longrightarrow> \<exists>ch. chan s p = Some ch \<and> chan_fd ch = f \<and> index ch \<noteq> -1"
    and "f \<notin> D \<Longrightarrow> channels s f = Some c \<Longrightarrow> \<exists>ch. chan s c = Some ch \<and> chan_fd ch = f \<and> addedToLoop ch"
  using assms unfolding Poller_inv_outside_def by blast+

lemmas Poller_invI = Poller_outsideI [where D = "{}", folded Poller_inv_iff, simplified]

lemmas Poller_invD = Poller_outsideD [where D = "{}", folded Poller_inv_iff, simplified]

lemma Poller_outside_mono:
  "Poller_inv_outside D interest s \<Longrightarrow> D \<subseteq> D' \<Longrightarrow> Poller_inv_outside D' interest s"
  unfolding Poller_inv_outside_def by blast

text \<open>Whatever happens to a descriptor of \<open>D\<close> leaves the others alone.\<close>

lemma Poller_outside_inside:
  assumes inv: "Poller_inv_outside D interest s" and ch: "chan s c = Some ch" "chan_fd ch \<in> D"
    and s': "chan s' = (chan s)(c := d)" "\<And>ch'. d = Some ch' \<Longrightarrow> chan_fd ch' = chan_fd ch"
    and ks: "\<And>f. f \<noteq> chan_fd ch \<Longrightarrow> channels s' f = channels s f"
    and k': "\<And>f. f \<noteq> chan_fd ch \<Longrightarrow> interest (epollk s') f = interest (epollk s) f"
  shows "Poller_inv_outside D interest s'"
proof (rule Poller_outsideI, goal_cases)
  case (1 c1 ch1)
  have n: "c1 \<noteq> c"
  proof
    assume "c1 = c"
    with 1(1) s'(1) have "d = Some ch1" by simp
    from s'(2) [OF this] 1(2) ch(2) show False by simp
  qed
  with 1 ch s'(1) have "chan s c1 = Some ch1" "chan_fd ch1 \<noteq> chan_fd ch" by auto
  with Poller_outsideD(1) [OF inv this(1) 1(2)] ks k' show ?case by (simp add: reg_ok_def)
next
  case (2 f e p)
  with ch have f: "f \<noteq> chan_fd ch" by auto
  with Poller_outsideD(2) [OF inv 2(1), of e p] 2(2) k' obtain chp where
    "chan s p = Some chp" "chan_fd chp = f" "index chp \<noteq> -1" by auto
  with f ch s'(1) show ?case by auto
next
  case (3 f c1)
  with ch have f: "f \<noteq> chan_fd ch" by auto
  with Poller_outsideD(3) [OF inv 3(1), of c1] 3(2) ks obtain chp where
    "chan s c1 = Some chp" "chan_fd chp = f" "addedToLoop chp" by auto
  with f ch s'(1) show ?case by auto
qed

lemma event_mask_events: "event_mask ch = events ch \<or> event_mask ch = events ch OR EPOLLET"
  by (simp add: event_mask_def)

text \<open>Replacing a channel that is, before and after, registered in the same way.\<close>

lemma Poller_outside_registered:
  assumes inv: "Poller_inv_outside D interest s" and out: "chan_fd ch \<notin> D" and ch: "chan s c = Some ch" and ix: "index ch \<noteq> -1 \<or> interest (epollk s) (chan_fd ch) = None"
    and ch': "chan_fd ch' = chan_fd ch" "index ch' = 1 \<or> index ch' = 2" "addedToLoop ch'"
      "e = events ch' \<or> e = events ch' OR EPOLLET"
    and k': "interest k' = (interest (epollk s))(chan_fd ch \<mapsto> (e, c))"
  shows "Poller_inv_outside D interest (s\<lparr>chan := (chan s)(c \<mapsto> ch'), channels := (channels s)(chan_fd ch \<mapsto> c), epollk := k'\<rparr>)"
proof (rule Poller_outsideI, goal_cases)
  case (1 c1 ch1)
  show ?case
  proof (cases "c1 = c")
    case True
    with 1 ch' k' show ?thesis by (auto simp: reg_ok_def)
  next
    case False
    with 1 have c1: "chan s c1 = Some ch1" by simp
    note r = Poller_outsideD(1) [OF inv c1 1(2)]
    show ?thesis
    proof (cases "index ch1 = -1")
      case True
      then show ?thesis by (simp add: reg_ok_def)
    next
      case f: False
      have "chan_fd ch1 \<noteq> chan_fd ch"
      proof
        assume e: "chan_fd ch1 = chan_fd ch"
        with r f obtain e1 where e1: "interest (epollk s) (chan_fd ch) = Some (e1, c1)"
          by (auto simp: reg_ok_def)
        with ix have "index ch \<noteq> -1" by auto
        with Poller_outsideD(1) [OF inv ch out] e1 False show False by (auto simp: reg_ok_def)
      qed
      with r f k' show ?thesis by (auto simp: reg_ok_def)
    qed
  qed
next
  case (2 f e1 p)
  then show ?case using Poller_outsideD(2) [OF inv, of f e1 p] k' ch ch' by (fastforce split: if_splits)
next
  case (3 f c1)
  then show ?case using Poller_outsideD(3) [OF inv, of f c1] ch ch' by (fastforce split: if_splits)
qed

text \<open>Taking a channel out of the kernel; it may stay in \<^verbatim>\<open>channels_\<close> or leave it.\<close>

lemma Poller_outside_unregistered:
  assumes inv: "Poller_inv_outside D interest s" and out: "chan_fd ch \<notin> D" and ch: "chan s c = Some ch"
    and c: "channels s (chan_fd ch) = Some c \<or> channels s (chan_fd ch) = None"
    and ch': "chan_fd ch' = chan_fd ch" "index ch' = -1"
    and ks: "ks = channels s \<and> addedToLoop ch' \<or> ks = (channels s)(chan_fd ch := None)"
    and k': "interest k' = (interest (epollk s))(chan_fd ch := None)"
  shows "Poller_inv_outside D interest (s\<lparr>chan := (chan s)(c \<mapsto> ch'), channels := ks, epollk := k'\<rparr>)"
proof (rule Poller_outsideI, goal_cases)
  case (1 c1 ch1)
  show ?case
  proof (cases "c1 = c")
    case True
    with 1 ch' show ?thesis by (auto simp: reg_ok_def)
  next
    case False
    with 1 have c1: "chan s c1 = Some ch1" by simp
    with Poller_outsideD(1) [OF inv c1 1(2)] c False ks k' show ?thesis
      by (cases "chan_fd ch1 = chan_fd ch") (auto simp: reg_ok_def)
  qed
next
  case (2 f e1 p)
  then show ?case using Poller_outsideD(2) [OF inv, of f e1 p] k' ch ch' by (fastforce split: if_splits)
next
  case (3 f c1)
  then show ?case using Poller_outsideD(3) [OF inv, of f c1] ks ch ch' by (fastforce split: if_splits)
qed

text \<open>A change of interest only touches the entries of the channel's own descriptor.\<close>

lemma with_events_own:
  assumes doc: "epoll_documented (epoll_ctl E) interest" and s': "with_events E c g s = Inr s'"
    and ch: "chan s c = Some ch"
  shows "(\<exists>i. chan s' = (chan s)(c \<mapsto> ch\<lparr>events := g (events ch), addedToLoop := True, index := i\<rparr>)) \<and>
    (\<forall>f. f \<noteq> chan_fd ch \<longrightarrow> channels s' f = channels s f \<and> interest (epollk s') f = interest (epollk s) f)"
proof -
  from with_events_frame [OF s'] have t: "threadId s = tid E" by metis
  let ?d = "(event_mask (ch\<lparr>events := g (events ch)\<rparr>), c)"
  consider (add) "index ch < 0" | (mod) "\<not> index ch < 0" "g (events ch) \<noteq> 0" | (del) "\<not> index ch < 0" "g (events ch) = 0"
    by blast
  then show ?thesis
  proof cases
    case add
    obtain k' ok where k: "epoll_ctl E (epollk s) EPOLL_CTL_ADD (chan_fd ch) ?d = (k', ok)" by fastforce
    from with_events_add [of s c ch E g, OF ch t add k] s' documented_add [OF doc k] show ?thesis
      by (auto simp: cassert_def split: if_splits)
  next
    case mod
    obtain k' ok where k: "epoll_ctl E (epollk s) EPOLL_CTL_MOD (chan_fd ch) ?d = (k', ok)" by fastforce
    from with_events_mod [of s c ch E g, OF ch t mod k] s' documented_mod [OF doc k] show ?thesis
      by (auto simp: cassert_def split: if_splits)
  next
    case del
    obtain k' ok where k: "epoll_ctl E (epollk s) EPOLL_CTL_DEL (chan_fd ch) ?d = (k', ok)" by fastforce
    from with_events_del [of s c ch E g, OF ch t del k] s' documented_del [OF doc k] show ?thesis
      by (auto simp: cassert_def split: if_splits)
  qed
qed

lemma Poller_outside_with_events:
  assumes doc: "epoll_documented (epoll_ctl E) interest" and inv: "Poller_inv_outside D interest s"
    and s': "with_events E c g s = Inr s'"
  shows "Poller_inv_outside D interest s'"
proof -
  from with_events_frame [OF s'] obtain ch where ch: "chan s c = Some ch" and t: "threadId s = tid E"
    by metis
  show ?thesis
  proof (cases "chan_fd ch \<in> D")
    case True
    from with_events_own [OF doc s' ch] obtain i where
      "chan s' = (chan s)(c := Some (ch\<lparr>events := g (events ch), addedToLoop := True, index := i\<rparr>))"
      "\<And>f. f \<noteq> chan_fd ch \<Longrightarrow> channels s' f = channels s f"
      "\<And>f. f \<noteq> chan_fd ch \<Longrightarrow> interest (epollk s') f = interest (epollk s) f" by auto
    from Poller_outside_inside [OF inv ch True this(1) _ this(2,3)] show ?thesis by auto
  next
    case out: False
    let ?ch = "ch\<lparr>events := g (events ch)\<rparr>" and ?d = "(event_mask (ch\<lparr>events := g (events ch)\<rparr>), c)"
    note reg = Poller_outsideD(1) [OF inv ch out]
    have m: "event_mask ?ch = g (events ch) \<or> event_mask ?ch = g (events ch) OR EPOLLET"
      by (simp add: event_mask_def)
    consider (add) "index ch < 0" | (mod) "\<not> index ch < 0" "g (events ch) \<noteq> 0" | (del) "\<not> index ch < 0" "g (events ch) = 0"
      by blast
    then show ?thesis
    proof cases
      case add
      obtain k' ok where k: "epoll_ctl E (epollk s) EPOLL_CTL_ADD (chan_fd ch) ?d = (k', ok)" by fastforce
      note e = with_events_add [of s c ch E g, OF ch t add k]
      with s' have ok by (simp add: cassert_def split: if_splits)
      with documented_add [OF doc] k
      have i: "interest (epollk s) (chan_fd ch) = None" "interest k' = (interest (epollk s))(chan_fd ch \<mapsto> ?d)"
        by blast+
      show ?thesis
        using Poller_outside_registered [OF inv out ch, of "?ch\<lparr>addedToLoop := True, index := 1\<rparr>" "event_mask ?ch" k'] i m e s' \<open>ok\<close>
        by (simp add: cassert_def split: if_splits)
    next
      case mod
      obtain k' ok where k: "epoll_ctl E (epollk s) EPOLL_CTL_MOD (chan_fd ch) ?d = (k', ok)" by fastforce
      note e = with_events_mod [of s c ch E g, OF ch t mod k]
      with s' have ok by (simp add: cassert_def split: if_splits)
      with documented_mod [OF doc] k
      have i: "interest k' = (interest (epollk s))(chan_fd ch \<mapsto> ?d)" by blast
      have c: "index ch \<noteq> -1" "(channels s)(chan_fd ch \<mapsto> c) = channels s"
        using reg mod(1) by (auto simp: reg_ok_def)
      show ?thesis
        using Poller_outside_registered [OF inv out ch, of "?ch\<lparr>addedToLoop := True, index := 2\<rparr>" "event_mask ?ch" k'] i m e s' \<open>ok\<close> c
        by (simp add: cassert_def split: if_splits)
    next
      case del
      obtain k' ok where k: "epoll_ctl E (epollk s) EPOLL_CTL_DEL (chan_fd ch) ?d = (k', ok)" by fastforce
      have c: "channels s (chan_fd ch) = Some c" using reg del(1) by (auto simp: reg_ok_def)
      show ?thesis
        using Poller_outside_unregistered [OF inv out ch disjI1 [OF c], of "?ch\<lparr>addedToLoop := True, index := -1\<rparr>" "channels s" k']
          documented_del [OF doc k] with_events_del [of s c ch E g, OF ch t del k] s'
        by (simp add: cassert_def split: if_splits)
    qed
  qed
qed

lemma Poller_inv_with_events:
  assumes "epoll_documented (epoll_ctl E) interest" and "Poller_inv interest s"
    and "with_events E c g s = Inr s'"
  shows "Poller_inv interest s'"
  using Poller_outside_with_events assms unfolding Poller_inv_iff by blast

section \<open>Removal\<close>

text \<open>The assertions on the way to the poller's table, in one condition.\<close>

definition remove_asserts :: "('k, 'c, 'z) EventLoop_scheme \<Rightarrow> nat \<Rightarrow> 'c Channel \<Rightarrow> bool" where
  "remove_asserts s c ch \<longleftrightarrow> events ch = 0 \<and> channels s (chan_fd ch) = Some c \<and>
     (index ch = 1 \<or> index ch = 2) \<and>
     (loopEventHandling s \<longrightarrow> currentActiveChannel s = Some c \<or> c \<notin> set (activeChannels s))"

lemma Channel_remove_eq:
  assumes "chan s c = Some ch" and "threadId s = tid E"
  shows "Channel_remove E c s = (if ndebug E \<or> remove_asserts s c ch
    then Inr (s\<lparr>chan := (chan s)(c \<mapsto> ch\<lparr>addedToLoop := False, index := -1\<rparr>),
              channels := (channels s)(chan_fd ch := None),
              epollk := (if index ch = 2
                         then fst (epoll_ctl E (epollk s) EPOLL_CTL_DEL (chan_fd ch) (event_mask ch, c))
                         else epollk s)\<rparr>)
    else Inl AssertFailed)"
  using assms
  by (auto simp: Channel_remove_def EventLoop_removeChannel_def EPollPoller_removeChannel_def
      poller_defs remove_asserts_def cassert_def Let_def split: prod.splits)

lemma Channel_remove_frame:
  assumes "Channel_remove E c s = Inr s'"
  obtains ch where "chan s c = Some ch" and "threadId s = tid E" and "ndebug E \<or> remove_asserts s c ch"
    and "s' = s\<lparr>chan := (chan s)(c \<mapsto> ch\<lparr>addedToLoop := False, index := -1\<rparr>),
              channels := (channels s)(chan_fd ch := None),
              epollk := (if index ch = 2
                         then fst (epoll_ctl E (epollk s) EPOLL_CTL_DEL (chan_fd ch) (event_mask ch, c))
                         else epollk s)\<rparr>"
proof -
  from assms obtain ch where ch: "chan s c = Some ch" by (auto simp: Channel_remove_def)
  moreover from assms ch have t: "threadId s = tid E"
    by (auto simp: Channel_remove_def EventLoop_removeChannel_def EventLoop_assertInLoopThread_def
        mod_chan_def set_chan_def cassert_eq_Inr split: if_splits)
  ultimately show thesis
    using that assms Channel_remove_eq [OF ch t] by (auto split: if_splits)
qed

text \<open>
  When a removal leaves the tables of poller and kernel apart: at index 1 (registered once and not
  changed since) \<^verbatim>\<open>EPOLL_CTL_DEL\<close> is not called, so the kernel keeps the entry; and with \<^verbatim>\<open>NDEBUG\<close> the
  entry of the table is erased even when it is another channel's.
\<close>

definition remove_spoils :: "('k, 'c, 'z) EventLoop_scheme \<Rightarrow> nat \<Rightarrow> 'c Channel \<Rightarrow> bool" where
  "remove_spoils s c ch \<longleftrightarrow> index ch = 1 \<or>
     (case channels s (chan_fd ch) of None \<Rightarrow> False | Some d \<Rightarrow> d \<noteq> c)"

lemma remove_kernel:
  assumes doc: "epoll_documented (epoll_ctl E) interest"
  shows "interest (fst (epoll_ctl E k EPOLL_CTL_DEL f d)) = (interest k)(f := None)"
  by (cases "epoll_ctl E k EPOLL_CTL_DEL f d") (simp add: documented_del [OF doc])

lemma Poller_outside_remove:
  assumes doc: "epoll_documented (epoll_ctl E) interest" and inv: "Poller_inv_outside D interest s"
    and ch: "chan s c = Some ch" and s': "Channel_remove E c s = Inr s'"
  shows "Poller_inv_outside (if remove_spoils s c ch then insert (chan_fd ch) D else D) interest s'"
    (is "Poller_inv_outside ?D interest s'")
proof -
  from Channel_remove_frame [OF s'] ch have e: "s' = s\<lparr>chan := (chan s)(c \<mapsto> ch\<lparr>addedToLoop := False, index := -1\<rparr>),
              channels := (channels s)(chan_fd ch := None),
              epollk := (if index ch = 2
                         then fst (epoll_ctl E (epollk s) EPOLL_CTL_DEL (chan_fd ch) (event_mask ch, c))
                         else epollk s)\<rparr>" by (metis option.inject)
  have inv': "Poller_inv_outside ?D interest s" by (rule Poller_outside_mono [OF inv]) auto
  show ?thesis
  proof (cases "chan_fd ch \<in> ?D")
    case True
    show ?thesis
      by (rule Poller_outside_inside [OF inv' ch True, where d = "Some (ch\<lparr>addedToLoop := False, index := -1\<rparr>)"])
        (simp_all add: e remove_kernel [OF doc])
  next
    case False
    then have sp: "index ch \<noteq> 1" "channels s (chan_fd ch) = Some c \<or> channels s (chan_fd ch) = None"
      by (auto simp: remove_spoils_def split: if_splits option.splits)
    have "interest (epollk s') = (interest (epollk s))(chan_fd ch := None)"
    proof (cases "index ch = 2")
      case True
      then show ?thesis by (simp add: e remove_kernel [OF doc])
    next
      case i: False
      have "interest (epollk s) (chan_fd ch) = None"
      proof (cases "interest (epollk s) (chan_fd ch)")
        case (Some d)
        then obtain e1 p where d: "interest (epollk s) (chan_fd ch) = Some (e1, p)" by (cases d) auto
        from Poller_outsideD(2) [OF inv' False d] obtain chp where
          p: "chan s p = Some chp" "chan_fd chp = chan_fd ch" "index chp \<noteq> -1" by blast
        with Poller_outsideD(1) [OF inv' p(1)] False sp(2) have "p = c" by (auto simp: reg_ok_def)
        with p ch i sp(1) Poller_outsideD(1) [OF inv' ch False] show ?thesis by (auto simp: reg_ok_def)
      qed simp
      with i e show ?thesis by (auto simp: fun_eq_iff)
    qed
    from Poller_outside_unregistered [OF inv' False ch sp(2), of "ch\<lparr>addedToLoop := False, index := -1\<rparr>"
      "(channels s)(chan_fd ch := None)" "epollk s'", OF _ _ _ this] e
    show ?thesis by simp
  qed
qed

section \<open>Polling\<close>

text \<open>Polling only changes received events, the active list and the size of the event vector.\<close>

definition poll_frame :: "('k, 'c, 'z) EventLoop_scheme \<Rightarrow> ('k, 'c, 'z) EventLoop_scheme \<Rightarrow> bool" where
  "poll_frame s s' \<longleftrightarrow> channels s' = channels s \<and> epollk s' = epollk s \<and>
     (\<forall>c. chan s' c = None \<longleftrightarrow> chan s c = None) \<and>
     (\<forall>c ch'. chan s' c = Some ch' \<longrightarrow> (\<exists>ch r. chan s c = Some ch \<and> ch' = ch\<lparr>revents := r\<rparr>))"

lemma revents_same [simp]: "\<exists>r. ch = ch\<lparr>revents := r\<rparr>" for ch :: "'c Channel"
  by (rule exI [of _ "revents ch"]) simp

lemma poll_frame_refl [simp]: "poll_frame s s"
  by (simp add: poll_frame_def)

lemma poll_frameD:
  "poll_frame s s' \<Longrightarrow> chan s' c = Some ch' \<Longrightarrow> \<exists>ch r. chan s c = Some ch \<and> ch' = ch\<lparr>revents := r\<rparr>"
  by (simp add: poll_frame_def)

lemma poll_frame_fwd:
  assumes "poll_frame s s'" and "chan s c = Some ch"
  shows "\<exists>r. chan s' c = Some (ch\<lparr>revents := r\<rparr>)"
proof -
  from assms obtain ch' where ch': "chan s' c = Some ch'" by (fastforce simp: poll_frame_def)
  from poll_frameD [OF assms(1) ch'] assms(2) obtain r where "ch' = ch\<lparr>revents := r\<rparr>" by auto
  with ch' show ?thesis by blast
qed

lemma poll_frame_trans:
  assumes "poll_frame a b" and "poll_frame b d"
  shows "poll_frame a d"
proof -
  have "\<exists>ch r. chan a c = Some ch \<and> ch'' = ch\<lparr>revents := r\<rparr>" if c: "chan d c = Some ch''" for c ch''
  proof -
    from poll_frameD [OF assms(2) c] obtain ch' r' where ch': "chan b c = Some ch'" "ch'' = ch'\<lparr>revents := r'\<rparr>"
      by blast
    from poll_frameD [OF assms(1) ch'(1)] obtain ch r where "chan a c = Some ch" "ch' = ch\<lparr>revents := r\<rparr>"
      by blast
    with ch'(2) have "chan a c = Some ch \<and> ch'' = ch\<lparr>revents := r'\<rparr>" by simp
    then show ?thesis by blast
  qed
  with assms show ?thesis by (simp add: poll_frame_def)
qed

lemma poll_frame_one:
  "chan s c = Some ch \<Longrightarrow> poll_frame s (set_chan c (ch\<lparr>revents := e\<rparr>) s\<lparr>activeChannels := a\<rparr>)"
  by (auto simp: poll_frame_def set_chan_def)

lemma Poller_outside_frame:
  assumes f: "poll_frame s s'" and inv: "Poller_inv_outside D interest s"
  shows "Poller_inv_outside D interest s'"
proof (rule Poller_outsideI, goal_cases)
  case (1 c ch)
  from poll_frameD [OF f 1(1)] obtain ch0 r where "chan s c = Some ch0" "ch = ch0\<lparr>revents := r\<rparr>" by blast
  with Poller_outsideD(1) [OF inv this(1)] 1(2) f show ?case by (simp add: poll_frame_def reg_ok_def)
next
  case (2 fd e p)
  with Poller_outsideD(2) [OF inv, of fd e p] f obtain ch where "chan s p = Some ch" "chan_fd ch = fd" "index ch \<noteq> -1"
    by (auto simp: poll_frame_def)
  with poll_frame_fwd [OF f this(1)] show ?case by auto
next
  case (3 fd c)
  with Poller_outsideD(3) [OF inv, of fd c] f obtain ch where "chan s c = Some ch" "chan_fd ch = fd" "addedToLoop ch"
    by (auto simp: poll_frame_def)
  with poll_frame_fwd [OF f this(1)] show ?case by auto
qed

lemma Poller_inv_frame: "poll_frame s s' \<Longrightarrow> Poller_inv interest s \<Longrightarrow> Poller_inv interest s'"
  using Poller_outside_frame unfolding Poller_inv_iff by blast

text \<open>
  What \<^verbatim>\<open>epoll_wait(2)\<close> documents: at most \<open>maxevents\<close> entries, for registered descriptors only and each at
  most once, with the user data of the registration.
\<close>

definition wait_documented :: "('k \<Rightarrow> int \<rightharpoonup> ev \<times> nat) \<Rightarrow> (ev \<times> nat) list \<Rightarrow> ('k, 'c, 'z) EventLoop_scheme \<Rightarrow> bool" where
  "wait_documented interest evs s \<longleftrightarrow> length evs \<le> eventsSize s \<and> distinct (map snd evs) \<and>
     (\<forall>p \<in> set (map snd evs). \<exists>f e. interest (epollk s) f = Some (e, p))"

abbreviation fill_one :: "('k, 'e) env_scheme \<Rightarrow> ev \<times> nat \<Rightarrow>
    ('k, 'c, 'z) EventLoop_scheme \<Rightarrow> ('k, 'c, 'z) EventLoop_scheme result" where
  "fill_one E \<equiv> (\<lambda>(e, c) s. bindR (derefR (chan s) c) (\<lambda>ch.
        cassert E (channels s (chan_fd ch) \<noteq> None)
        (cassert E (channels s (chan_fd ch) = Some c)
          (bindR (mod_chan c (\<lambda>ch. ch\<lparr>revents := e\<rparr>) s)
             (\<lambda>s. Inr (s\<lparr>activeChannels := activeChannels s @ [c]\<rparr>))))))"

lemma fill_one_eq:
  assumes "Poller_inv interest s" and "interest (epollk s) f = Some (e0, c)"
  obtains ch where "chan s c = Some ch"
    and "fill_one E (e, c) s
         = Inr (set_chan c (ch\<lparr>revents := e\<rparr>) s\<lparr>activeChannels := activeChannels s @ [c]\<rparr>)"
proof -
  from Poller_invD(2) [OF assms] obtain ch where ch: "chan s c = Some ch" "index ch \<noteq> -1" by blast
  with Poller_invD(1) [OF assms(1) ch(1)] have "channels s (chan_fd ch) = Some c" by (simp add: reg_ok_def)
  with ch show thesis by (intro that [of ch]) (simp_all add: mod_chan_def set_chan_def)
qed

lemma fill_all:
  assumes "Poller_inv interest s" and "distinct (map snd evs)"
    and "\<forall>p \<in> set (map snd evs). \<exists>f e. interest (epollk s) f = Some (e, p)"
  shows "\<exists>s'. foldR (fill_one E) evs s = Inr s' \<and> poll_frame s s' \<and>
    activeChannels s' = activeChannels s @ map snd evs \<and> eventsSize s' = eventsSize s \<and>
    (\<forall>(e, c) \<in> set evs. map_option revents (chan s' c) = Some e) \<and>
    (\<forall>c. c \<notin> snd ` set evs \<longrightarrow> chan s' c = chan s c)"
  using assms
proof (induction evs arbitrary: s)
  case Nil
  then show ?case by simp
next
  case (Cons x evs)
  obtain e c where x: "x = (e, c)" by fastforce
  from Cons.prems(3) x obtain f e0 where "interest (epollk s) f = Some (e0, c)" by auto
  from fill_one_eq [OF Cons.prems(1) this, where E = E and e = e] obtain ch where ch: "chan s c = Some ch"
    and one: "fill_one E (e, c) s = Inr (set_chan c (ch\<lparr>revents := e\<rparr>) s\<lparr>activeChannels := activeChannels s @ [c]\<rparr>)"
      (is "_ = Inr ?s1") by blast
  have fr: "poll_frame s ?s1" by (rule poll_frame_one [OF ch])
  have "Poller_inv interest ?s1" by (rule Poller_inv_frame [OF fr Cons.prems(1)])
  then obtain s' where s': "foldR (fill_one E) evs ?s1 = Inr s'" "poll_frame ?s1 s'"
    "activeChannels s' = activeChannels ?s1 @ map snd evs" "eventsSize s' = eventsSize ?s1"
    "\<forall>(e, c) \<in> set evs. map_option revents (chan s' c) = Some e"
    "\<forall>c. c \<notin> snd ` set evs \<longrightarrow> chan s' c = chan ?s1 c"
    using Cons.IH [of ?s1] Cons.prems(2,3) by (auto simp: set_chan_def)
  have c: "c \<notin> snd ` set evs" using Cons.prems(2) x by auto
  have "foldR (fill_one E) (x # evs) s = Inr s'" using one s'(1) x by simp
  moreover have "\<forall>(e, c) \<in> set (x # evs). map_option revents (chan s' c) = Some e"
    using s'(5,6) c x by (auto simp: set_chan_def)
  moreover have "\<forall>c. c \<notin> snd ` set (x # evs) \<longrightarrow> chan s' c = chan s c"
    using s'(6) x by (auto simp: set_chan_def)
  ultimately show ?case
    using poll_frame_trans [OF fr s'(2)] s'(3,4) x by (auto simp: set_chan_def)
qed

lemma poll_frame_fill_one:
  assumes "fill_one E x s = Inr t"
  shows "poll_frame s t"
proof -
  obtain e c where x: "x = (e, c)" by fastforce
  with assms obtain ch where ch: "chan s c = Some ch" by auto
  with assms x have "t = set_chan c (ch\<lparr>revents := e\<rparr>) s\<lparr>activeChannels := activeChannels s @ [c]\<rparr>"
    by (auto simp: cassert_def mod_chan_def set_chan_def split: if_splits)
  with poll_frame_one [OF ch] show ?thesis by simp
qed

lemma poll_frame_fill:
  assumes "foldR (fill_one E) evs s = Inr t"
  shows "poll_frame s t"
proof (rule foldR_inv [OF assms])
  show "poll_frame s s" by simp
  fix x u v
  assume "poll_frame s u" and "fill_one E x u = Inr v"
  then show "poll_frame s v" by (rule poll_frame_trans [OF _ poll_frame_fill_one])
qed

lemma poll_frame_eventsSize [simp]: "poll_frame s (t\<lparr>eventsSize := n\<rparr>) = poll_frame s t"
  by (simp add: poll_frame_def)

lemma poll_frame_poll:
  assumes "EPollPoller_poll E w s = Inr s'"
  shows "poll_frame s s'"
proof (cases w)
  case (WaitError e)
  with assms show ?thesis by (simp add: EPollPoller_poll_def)
next
  case (WaitEvents evs)
  show ?thesis
  proof (cases "evs = []")
    case True
    with assms WaitEvents show ?thesis by (simp add: EPollPoller_poll_def)
  next
    case False
    with assms WaitEvents obtain t where t: "foldR (fill_one E) evs s = Inr t"
      "s' = (if length evs = eventsSize t then t\<lparr>eventsSize := eventsSize t * 2\<rparr> else t)"
      by (simp only: EPollPoller_poll_def EPollPoller_fillActiveChannels_def wait_result.case length_greater_0_conv
          if_True not_False_eq_True bindR_eq_Inr cassert_eq_Inr sum.inject) blast
    from poll_frame_fill [OF t(1)] t(2) show ?thesis by simp
  qed
qed

section \<open>Reachable states\<close>

text \<open>
  The life of the channels of a loop: creation at a fresh address, changes of interest, polling,
  removal and destruction, each of them whenever the code lets it succeed.  A ghost component
  collects the descriptors whose registration a removal or destruction has spoilt: a removal as in
  \<open>remove_spoils\<close> (\<open>Channel_close_twice\<close> below shows how the library gets there), and with \<^verbatim>\<open>NDEBUG\<close>
  the destruction of a channel that was not removed.
\<close>

inductive Poller_step :: "('k, 'e) env_scheme \<Rightarrow> ('k, 'c, 'z) EventLoop_scheme \<times> int set \<Rightarrow>
    ('k, 'c, 'z) EventLoop_scheme \<times> int set \<Rightarrow> bool"
  for E :: "('k, 'e) env_scheme" where
  new: "chan s c = None \<Longrightarrow> Poller_step E (s, D) (set_chan c (Channel_new f) s, D)"
| enableReading: "Channel_enableReading E c s = Inr s' \<Longrightarrow> Poller_step E (s, D) (s', D)"
| disableReading: "Channel_disableReading E c s = Inr s' \<Longrightarrow> Poller_step E (s, D) (s', D)"
| enableWriting: "Channel_enableWriting E c s = Inr s' \<Longrightarrow> Poller_step E (s, D) (s', D)"
| disableWriting: "Channel_disableWriting E c s = Inr s' \<Longrightarrow> Poller_step E (s, D) (s', D)"
| disableAll: "Channel_disableAll E c s = Inr s' \<Longrightarrow> Poller_step E (s, D) (s', D)"
| poll: "EPollPoller_poll E w s = Inr s' \<Longrightarrow> Poller_step E (s, D) (s', D)"
| remove: "chan s c = Some ch \<Longrightarrow> Channel_remove E c s = Inr s' \<Longrightarrow>
    Poller_step E (s, D) (s', if remove_spoils s c ch then insert (chan_fd ch) D else D)"
| destroy: "chan s c = Some ch \<Longrightarrow> Channel_destroy E c s = Inr s' \<Longrightarrow>
    Poller_step E (s, D) (s', if addedToLoop ch then insert (chan_fd ch) D else D)"

definition Poller_init :: "('k \<Rightarrow> int \<rightharpoonup> ev \<times> nat) \<Rightarrow> ('k, 'c, 'z) EventLoop_scheme \<Rightarrow> bool" where
  "Poller_init interest s \<longleftrightarrow> chan s = Map.empty \<and> channels s = Map.empty \<and> interest (epollk s) = Map.empty"

definition Poller_start :: "('k \<Rightarrow> int \<rightharpoonup> ev \<times> nat) \<Rightarrow> ('k, 'c, 'z) EventLoop_scheme \<times> int set \<Rightarrow> bool" where
  "Poller_start interest sD \<longleftrightarrow> Poller_init interest (fst sD) \<and> snd sD = {}"

lemma Poller_outside_new:
  assumes inv: "Poller_inv_outside D interest s" and c: "chan s c = None"
  shows "Poller_inv_outside D interest (set_chan c (Channel_new f) s)"
proof (rule Poller_outsideI, goal_cases)
  case (1 c1 ch)
  then show ?case using Poller_outsideD(1) [OF inv, of c1 ch]
    by (auto simp: set_chan_def reg_ok_def Channel_new_def split: if_splits)
next
  case (2 fd e p)
  then show ?case using Poller_outsideD(2) [OF inv, of fd e p] c by (fastforce simp: set_chan_def)
next
  case (3 fd c1)
  then show ?case using Poller_outsideD(3) [OF inv, of fd c1] c by (fastforce simp: set_chan_def)
qed

lemma Poller_outside_destroy:
  assumes inv: "Poller_inv_outside D interest s" and c: "chan s c = Some ch"
    and s': "Channel_destroy E c s = Inr s'"
  shows "Poller_inv_outside (if addedToLoop ch then insert (chan_fd ch) D else D) interest s'"
    (is "Poller_inv_outside ?D interest s'")
proof -
  have e: "s' = s\<lparr>chan := (chan s)(c := None)\<rparr>"
    using s' c by (auto simp: Channel_destroy_def cassert_eq_Inr)
  have inv': "Poller_inv_outside ?D interest s" by (rule Poller_outside_mono [OF inv]) auto
  show ?thesis
  proof (cases "chan_fd ch \<in> ?D")
    case True
    show ?thesis by (rule Poller_outside_inside [OF inv' c True, where d = None]) (simp_all add: e)
  next
    case False
    have out: "channels s fd \<noteq> Some c" if "fd \<notin> ?D" for fd
      using Poller_outsideD(3) [OF inv', of fd c] that False c by (auto split: if_splits)
    with False Poller_outsideD(1) [OF inv' c False] have "index ch = -1" by (auto simp: reg_ok_def)
    then have ker: "interest (epollk s) fd \<noteq> Some (e1, c)" if "fd \<notin> ?D" for fd e1
      using Poller_outsideD(2) [OF inv', of fd e1 c] that c by auto
    show ?thesis
    proof (rule Poller_outsideI, goal_cases)
      case (1 c1 ch1)
      then show ?case using Poller_outsideD(1) [OF inv', of c1 ch1] e by (simp add: reg_ok_def split: if_splits)
    next
      case (2 fd e1 p)
      then show ?case using Poller_outsideD(2) [OF inv' 2(1), of e1 p] ker [OF 2(1)] e by (cases "p = c") auto
    next
      case (3 fd c1)
      then show ?case using Poller_outsideD(3) [OF inv' 3(1), of c1] out [OF 3(1)] e by (cases "c1 = c") auto
    qed
  qed
qed

lemma Poller_outside_step:
  assumes "epoll_documented (epoll_ctl E) interest" and "Poller_step E sD sD'"
    and "Poller_inv_outside (snd sD) interest (fst sD)"
  shows "Poller_inv_outside (snd sD') interest (fst sD')"
  using assms(2,3)
proof cases
  case (new s c D f)
  then show ?thesis using assms(3) by (auto intro: Poller_outside_new)
next
  case (poll w s s' D)
  then show ?thesis using assms(3) by (auto intro: Poller_outside_frame poll_frame_poll)
next
  case (remove s c ch s' D)
  with Poller_outside_remove [OF assms(1) _ remove(3,4), of D] assms(3) show ?thesis by simp
next
  case (destroy s c ch s' D)
  with Poller_outside_destroy [OF _ destroy(3,4), of D] assms(3) show ?thesis by simp
qed (use assms in \<open>auto simp: interest_changes intro: Poller_outside_with_events
      Poller_outside_with_events [where g = "\<lambda>_. kNoneEvent"]\<close>)

lemma Poller_inv_init: "Poller_init interest s \<Longrightarrow> Poller_inv interest s"
  by (rule Poller_invI) (simp_all add: Poller_init_def)

interpretation poller_steps: inductive_invariant "Poller_start interest" "Poller_step E"
  "\<lambda>sD. epoll_documented (epoll_ctl E) interest \<longrightarrow> Poller_inv_outside (snd sD) interest (fst sD)" for E interest
proof (unfold_locales, goal_cases)
  case (1 sD)
  then show ?case by (auto simp: Poller_start_def Poller_inv_iff dest: Poller_inv_init)
next
  case (2 sD sD')
  then show ?case using Poller_outside_step by blast
qed

text \<open>An environment in a given build, on thread 1, with the interest list as the kernel.\<close>

definition man_env :: "bool \<Rightarrow> (int \<rightharpoonup> ev \<times> nat) env" where
  "man_env nd = \<lparr>ndebug = nd, tid = 1, epoll_ctl = man_epoll_ctl\<rparr>"

lemma man_env_simps [simp]:
  "ndebug (man_env nd) = nd" "tid (man_env nd) = 1" "epoll_ctl (man_env nd) = man_epoll_ctl"
  by (simp_all add: man_env_def)

text \<open>A loop with one channel for descriptor 7 at address 3, registered for reading.\<close>

definition one_channel :: "(int \<rightharpoonup> ev \<times> nat, nat) EventLoop" where
  "one_channel = (EventLoop_members 1 [7 \<mapsto> (kReadEvent OR EPOLLET, 3)])\<lparr>
     chan := [3 \<mapsto> (Channel_new 7)\<lparr>events := kReadEvent, index := 1, addedToLoop := True\<rparr>],
     channels := [7 \<mapsto> 3]\<rparr>"

lemma one_channel_step:
  "Channel_enableReading (man_env nd) 3 (set_chan 3 (Channel_new 7) (EventLoop_members 1 Map.empty)) = Inr one_channel"
  unfolding Channel_enableReading_def one_channel_def
  by (subst with_events_add [where ch = "Channel_new 7" and ok = True and k' = "[7 \<mapsto> (kReadEvent OR EPOLLET, 3)]"])
    (simp_all add: set_chan_def EventLoop_members_def Channel_new_def man_epoll_ctl_def event_mask_def)

lemma one_channel_inv: "Poller_inv (\<lambda>m. m) one_channel"
  by (rule Poller_invI)
    (auto simp: one_channel_def EventLoop_members_def reg_ok_def Channel_new_def split: if_splits)

text \<open>
  C2: whatever channels are created, registered, changed, polled, removed and destroyed in a loop, in
  either build and with system calls that may fail, on every descriptor outside the ghost set \<open>D\<close>: a
  channel with a non-negative index is in the poller's table and in the kernel's interest list with its
  current events; every kernel entry points to such a live channel; and every entry of the table is
  a live, added channel.  A descriptor enters \<open>D\<close> only by a removal of a channel at index 1 or of one
  whose table entry is another's, or by the destruction of a channel that was not removed; in a
  history without these \<open>D\<close> is empty and the invariant holds everywhere.
\<close>

theorem Poller_reachable_inv:
  assumes "epoll_documented (epoll_ctl E) interest" and "reach (Poller_start interest) (Poller_step E) (s, D)"
  shows "Poller_inv_outside D interest s \<and> (D = {} \<longrightarrow> Poller_inv interest s)"
  using poller_steps.reach_inv [OF assms(2)] assms(1) by (auto simp: Poller_inv_iff)

text \<open>
  A registered channel, with nothing spoilt; and the history that disables, and removes at index 1, a
  channel of descriptor 7 that was never registered: the kernel keeps its entry and only 7 is spoilt.
\<close>

theorem Poller_reachable_inv_witness:
  "Poller_inv (\<lambda>m. m) one_channel \<and> chan one_channel 3 \<noteq> None \<and>
   (\<exists>s :: (int \<rightharpoonup> ev \<times> nat, nat) EventLoop. reach (Poller_start (\<lambda>m. m)) (Poller_step (man_env False)) (s, {7}) \<and>
      channels s 7 = None \<and> epollk s 7 = Some (EPOLLET, 3) \<and> Poller_inv_outside {7} (\<lambda>m. m) s)"
proof -
  let ?R = "\<lambda>nd. reach (Poller_start (\<lambda>m. m)) (Poller_step (man_env nd))"
  let ?s = "EventLoop_members 1 Map.empty :: (int \<rightharpoonup> ev \<times> nat, nat) EventLoop"
  let ?m = "?s\<lparr>chan := [3 \<mapsto> Channel_new 7]\<rparr>"
  have "?R nd (?s, {})" for nd
    by (rule reach_init) (simp add: Poller_start_def Poller_init_def EventLoop_members_def)
  then have m: "?R nd (set_chan 3 (Channel_new 7) ?s, {})" for nd
    by (rule reach_step) (rule Poller_step.new, simp add: EventLoop_members_def)
  then have "?R True (one_channel, {})"
    by (rule reach_step) (rule Poller_step.enableReading [OF one_channel_step])
  with Poller_reachable_inv [of "man_env True" "\<lambda>m. m" one_channel] man_epoll_documented
  have 1: "Poller_inv (\<lambda>m. m) one_channel" "chan one_channel 3 \<noteq> None" by (simp_all add: one_channel_def)
  let ?c = "(Channel_new 7)\<lparr>events := kNoneEvent, addedToLoop := True, index := 1\<rparr> :: nat Channel"
  let ?u = "?s\<lparr>chan := [3 \<mapsto> ?c], channels := [7 \<mapsto> 3], epollk := [7 \<mapsto> (EPOLLET, 3)]\<rparr>"
  let ?v = "?s\<lparr>chan := [3 \<mapsto> ?c\<lparr>addedToLoop := False, index := -1\<rparr>], epollk := [7 \<mapsto> (EPOLLET, 3)]\<rparr>"
  have u: "Channel_disableAll (man_env False) 3 (set_chan 3 (Channel_new 7) ?s) = Inr ?u"
    unfolding Channel_disableAll_def
    by (subst with_events_add [where ch = "Channel_new 7" and ok = True and k' = "[7 \<mapsto> (EPOLLET, 3)]"])
      (simp_all add: set_chan_def EventLoop_members_def Channel_new_def man_epoll_ctl_def event_mask_def kNoneEvent_def
        cassert_def)
  from m have r: "?R False (?u, {})" by (rule reach_step) (rule Poller_step.disableAll [OF u])
  have v: "Channel_remove (man_env False) 3 ?u = Inr ?v"
    by (subst Channel_remove_eq [where ch = ?c])
      (simp_all add: EventLoop_members_def Channel_new_def remove_asserts_def kNoneEvent_def)
  have c: "chan ?u 3 = Some ?c" by simp
  have d: "(if remove_spoils ?u 3 ?c then insert (chan_fd ?c) {} else {}) = {7}"
    by (simp add: remove_spoils_def Channel_new_def)
  from r have w: "?R False (?v, {7})"
    by (rule reach_step) (rule Poller_step.remove [OF c v, of "{}", unfolded d])
  have "Poller_inv_outside {7} (\<lambda>m. m) ?v"
    using Poller_reachable_inv [OF _ w] man_epoll_documented by simp
  with w have "\<exists>s :: (int \<rightharpoonup> ev \<times> nat, nat) EventLoop. ?R False (s, {7}) \<and> channels s 7 = None \<and> epollk s 7 = Some (EPOLLET, 3) \<and>
      Poller_inv_outside {7} (\<lambda>m. m) s"
    by (intro exI [of _ ?v]) (simp add: EventLoop_members_def)
  with 1 show ?thesis by blast
qed

text \<open>
  C5: polling a consistent loop for the events that \<^verbatim>\<open>epoll_wait\<close> returned never fails, in either build:
  the active list grows by exactly the reported channels in that order, each of them gets its mask as
  received events, no other channel changes, registrations stay as they are, and the event vector
  doubles exactly when it was full.
\<close>

theorem EPollPoller_poll_correct:
  assumes "Poller_inv interest s" and "wait_documented interest evs s"
  shows "\<exists>s'. EPollPoller_poll E (WaitEvents evs) s = Inr s' \<and>
    activeChannels s' = activeChannels s @ map snd evs \<and>
    (\<forall>(e, c) \<in> set evs. map_option revents (chan s' c) = Some e) \<and>
    (\<forall>c. c \<notin> snd ` set evs \<longrightarrow> chan s' c = chan s c) \<and>
    channels s' = channels s \<and> epollk s' = epollk s \<and> Poller_inv interest s' \<and>
    eventsSize s' = (if evs \<noteq> [] \<and> length evs = eventsSize s then 2 * eventsSize s else eventsSize s)"
proof (cases "evs = []")
  case True
  with assms show ?thesis by (simp add: EPollPoller_poll_def)
next
  case False
  from assms(2) have len: "length evs \<le> eventsSize s" and dist: "distinct (map snd evs)"
    and reg: "\<forall>p \<in> set (map snd evs). \<exists>f e. interest (epollk s) f = Some (e, p)"
    by (auto simp: wait_documented_def)
  from fill_all [OF assms(1) dist reg, where E = E] obtain t where t: "foldR (fill_one E) evs s = Inr t"
    "poll_frame s t" "activeChannels t = activeChannels s @ map snd evs" "eventsSize t = eventsSize s"
    "\<forall>(e, c) \<in> set evs. map_option revents (chan t c) = Some e"
    "\<forall>c. c \<notin> snd ` set evs \<longrightarrow> chan t c = chan s c" by blast
  let ?s = "if length evs = eventsSize t then t\<lparr>eventsSize := eventsSize t * 2\<rparr> else t"
  have eq: "EPollPoller_poll E (WaitEvents evs) s = Inr ?s"
    unfolding EPollPoller_poll_def EPollPoller_fillActiveChannels_def
    using False len t(1) by (simp add: cassert_def)
  have fr: "poll_frame s ?s" using t(2) by simp
  then have "Poller_inv interest ?s" by (rule Poller_inv_frame [OF _ assms(1)])
  with eq fr t False show ?thesis by (intro exI [of _ ?s]) (simp add: poll_frame_def)
qed

text \<open>The one registered channel becomes readable.\<close>

theorem EPollPoller_poll_correct_witness:
  "\<exists>s'. EPollPoller_poll (man_env False) (WaitEvents [(EPOLLIN, 3)]) one_channel = Inr s' \<and>
     activeChannels s' = [3] \<and> map_option revents (chan s' 3) = Some EPOLLIN \<and> eventsSize s' = 16"
proof -
  have "wait_documented (\<lambda>m. m) [(EPOLLIN, 3)] one_channel"
    by (simp add: wait_documented_def one_channel_def EventLoop_members_def kInitEventListSize_def)
  from EPollPoller_poll_correct [OF one_channel_inv this, where E = "man_env False"] show ?thesis
    by (auto simp: one_channel_def EventLoop_members_def kInitEventListSize_def)
qed

lemma close_registered:
  assumes doc: "epoll_documented (epoll_ctl E) interest" and inv: "Poller_inv interest s"
    and t: "threadId s = tid E" and ch: "chan s c = Some ch" and ix: "index ch \<noteq> -1"
  shows "if ndebug E
    then \<exists>s'. bindR (Channel_disableAll E c s) (Channel_remove E c) = Inr s' \<and>
           channels s' = (channels s)(chan_fd ch := None) \<and>
           interest (epollk s') = (interest (epollk s))(chan_fd ch := None) \<and>
           chan s' = (chan s)(c \<mapsto> ch\<lparr>events := kNoneEvent, addedToLoop := False, index := -1\<rparr>)
    else bindR (Channel_disableAll E c s) (Channel_remove E c) = Inl AssertFailed"
proof -
  let ?ch = "ch\<lparr>events := kNoneEvent\<rparr>"
  have reg: "\<not> index ch < 0" "channels s (chan_fd ch) = Some c"
    using Poller_invD(1) [OF inv ch] ix by (auto simp: reg_ok_def)
  obtain k' ok where k: "epoll_ctl E (epollk s) EPOLL_CTL_DEL (chan_fd ch) (event_mask ?ch, c) = (k', ok)"
    by fastforce
  let ?s = "s\<lparr>chan := (chan s)(c \<mapsto> ?ch\<lparr>addedToLoop := True, index := -1\<rparr>), epollk := k'\<rparr>"
  have d: "Channel_disableAll E c s = Inr ?s"
    unfolding Channel_disableAll_def
    using with_events_del [of s c ch E "\<lambda>_. kNoneEvent", OF ch t reg(1) _ k] reg(2)
    by (simp add: kNoneEvent_def)
  have r: "Channel_remove E c ?s = (if ndebug E then Inr (?s\<lparr>
      chan := (chan s)(c \<mapsto> ?ch\<lparr>addedToLoop := False, index := -1\<rparr>),
      channels := (channels s)(chan_fd ch := None)\<rparr>) else Inl AssertFailed)"
    using t by (subst Channel_remove_eq [where ch = "?ch\<lparr>addedToLoop := True, index := -1\<rparr>"])
      (simp_all add: remove_asserts_def)
  from d r documented_del [OF doc k] show ?thesis by simp
qed

text \<open>
  closing a registered channel (\<^verbatim>\<open>disableAll()\<close> followed by \<^verbatim>\<open>remove()\<close>, what every destructor and
  connection of the library does) from the loop's thread.  With \<^verbatim>\<open>NDEBUG\<close> it always succeeds: channel
  and descriptor are gone from the table and the kernel, no other entry changes, and the channel can
  be destroyed.  Without \<^verbatim>\<open>NDEBUG\<close> it always fails an assertion, since \<^verbatim>\<open>disableAll()\<close> has reset the
  index to \<open>-1\<close> and \<^verbatim>\<open>removeChannel\<close> asserts that it is 1 or 2.
\<close>

theorem Channel_close_registered:
  assumes doc: "epoll_documented (epoll_ctl E) interest" and inv: "Poller_inv interest s"
    and t: "threadId s = tid E" and ch: "chan s c = Some ch" and ix: "index ch \<noteq> -1"
  shows "if ndebug E
    then \<exists>s'. bindR (Channel_disableAll E c s) (Channel_remove E c) = Inr s' \<and>
           channels s' = (channels s)(chan_fd ch := None) \<and>
           interest (epollk s') = (interest (epollk s))(chan_fd ch := None) \<and>
           chan s' = (chan s)(c \<mapsto> ch\<lparr>events := kNoneEvent, addedToLoop := False, index := -1\<rparr>)
    else bindR (Channel_disableAll E c s) (Channel_remove E c) = Inl AssertFailed"
  by (rule close_registered [OF assms])

theorem Channel_close_registered_witness:
  "(\<exists>s'. bindR (Channel_disableAll (man_env True) 3 one_channel) (Channel_remove (man_env True) 3) = Inr s' \<and>
      channels s' = Map.empty \<and> epollk s' = Map.empty) \<and>
   bindR (Channel_disableAll (man_env False) 3 one_channel) (Channel_remove (man_env False) 3) = Inl AssertFailed"
proof -
  have t: "threadId one_channel = tid (man_env nd)" for nd by (simp add: one_channel_def EventLoop_members_def)
  have ch: "chan one_channel 3 = Some ((Channel_new 7)\<lparr>events := kReadEvent, index := 1, addedToLoop := True\<rparr>)"
    by (simp add: one_channel_def)
  have doc: "epoll_documented (epoll_ctl (man_env nd)) (\<lambda>m. m)" for nd by (simp add: man_epoll_documented)
  from Channel_close_registered [OF doc [of True] one_channel_inv t ch]
    Channel_close_registered [OF doc [of False] one_channel_inv t ch]
  show ?thesis by (auto simp: one_channel_def EventLoop_members_def Channel_new_def)
qed

text \<open>
  calling \<^verbatim>\<open>disableAll()\<close> on a channel that is already disabled registers it again, with an empty mask,
  and the removal that follows does not take it out of the kernel: afterwards the table has no entry
  but the kernel still holds the channel's address, so once the channel is destroyed polling can hand
  out a dead pointer.  (With \<^verbatim>\<open>NDEBUG\<close>, or for a channel that was never registered, in either build.)
\<close>

theorem Channel_close_twice:
  assumes doc: "epoll_documented (epoll_ctl E) interest"
    and t: "threadId s = tid E" and ch: "chan s c = Some ch" and ix: "index ch = -1"
    and build: "ndebug E \<or> channels s (chan_fd ch) = None"
    and act: "loopEventHandling s \<longrightarrow> c \<notin> set (activeChannels s)"
    and add: "snd (epoll_ctl E (epollk s) EPOLL_CTL_ADD (chan_fd ch) (event_mask (ch\<lparr>events := kNoneEvent\<rparr>), c))"
  shows "\<exists>s'. bindR (Channel_disableAll E c s) (Channel_remove E c) = Inr s' \<and>
    channels s' (chan_fd ch) = None \<and>
    interest (epollk s') (chan_fd ch) = Some (event_mask (ch\<lparr>events := kNoneEvent\<rparr>), c) \<and>
    \<not> Poller_inv interest s'"
proof -
  let ?ch = "ch\<lparr>events := kNoneEvent\<rparr>"
  obtain k' where k: "epoll_ctl E (epollk s) EPOLL_CTL_ADD (chan_fd ch) (event_mask ?ch, c) = (k', True)"
    using add by (metis prod.collapse)
  let ?s = "s\<lparr>chan := (chan s)(c \<mapsto> ?ch\<lparr>addedToLoop := True, index := 1\<rparr>),
      channels := (channels s)(chan_fd ch \<mapsto> c), epollk := k'\<rparr>"
  let ?t = "?s\<lparr>chan := (chan s)(c \<mapsto> ?ch\<lparr>addedToLoop := False, index := -1\<rparr>),
      channels := (channels s)(chan_fd ch := None)\<rparr>"
  have d: "Channel_disableAll E c s = Inr ?s"
    unfolding Channel_disableAll_def
    using with_events_add [of s c ch E "\<lambda>_. kNoneEvent", OF ch t _ k] ix build
    by (auto simp: cassert_def)
  have r: "Channel_remove E c ?s = Inr ?t"
    using t act by (subst Channel_remove_eq [where ch = "?ch\<lparr>addedToLoop := True, index := 1\<rparr>"])
      (simp_all add: remove_asserts_def kNoneEvent_def)
  have i: "interest (epollk ?t) (chan_fd ch) = Some (event_mask ?ch, c)"
    using documented_add [OF doc k] by simp
  have "\<not> Poller_inv interest ?t"
    using i Poller_invD(2) [of interest ?t "chan_fd ch" "event_mask ?ch" c] by auto
  with d r i show ?thesis by simp
qed

theorem Channel_close_twice_witness:
  "\<exists>s'. bindR (Channel_disableAll (man_env False) 3 (set_chan 3 (Channel_new 7) (EventLoop_members 1 Map.empty)
           :: (int \<rightharpoonup> ev \<times> nat, nat) EventLoop)) (Channel_remove (man_env False) 3) = Inr s' \<and>
    channels s' 7 = None \<and> epollk s' 7 = Some (EPOLLET, 3)"
proof -
  let ?s = "set_chan 3 (Channel_new 7) (EventLoop_members 1 Map.empty) :: (int \<rightharpoonup> ev \<times> nat, nat) EventLoop"
  have doc: "epoll_documented (epoll_ctl (man_env False)) (\<lambda>m. m)" by (simp add: man_epoll_documented)
  have m: "event_mask ((Channel_new 7 :: nat Channel)\<lparr>events := kNoneEvent\<rparr>) = EPOLLET"
    by (simp add: event_mask_def Channel_new_def kNoneEvent_def)
  show ?thesis
    using Channel_close_twice [OF doc, of ?s 3 "Channel_new 7"] m
    by (auto simp: set_chan_def EventLoop_members_def Channel_new_def man_epoll_ctl_def)
qed

end
