(* ===== verification/EventLoop.thy ===== *)
theory EventLoop
  imports Poller
begin

text \<open>
  The event loop: \<^verbatim>\<open>net/EventLoop.h\<close>, \<^verbatim>\<open>net/Eventloop.cpp\<close>.

  \<open>call\<close> runs the callback of a channel, \<open>run\<close> a queued functor, \<open>resumes\<close> is
  \<^verbatim>\<open>processPendingResumes()\<close> of the coroutine scheduler when one is set.  What the clock and
  \<^verbatim>\<open>epoll_wait\<close> return in each iteration is the input of the loop.  The last section interleaves the loop
  thread with any number of threads that queue functors.
\<close>

section \<open>Operations\<close>

definition kPollTimeMs :: int where "kPollTimeMs = 10000"

definition EventLoop_isInLoopThread :: "('k, 'e) env_scheme \<Rightarrow> ('k, 'c, 'z) EventLoop_scheme \<Rightarrow> bool" where
  "EventLoop_isInLoopThread E s \<longleftrightarrow> threadId s = tid E"

text \<open>
  The eventfd: a write adds one unless that would pass the largest counter \<open>2 ^ 64 - 2\<close> (then it fails
  with \<^verbatim>\<open>EAGAIN\<close>, which is logged); a read of a positive counter resets it.
\<close>

definition eventfd_max :: nat where "eventfd_max = 2 ^ 64 - 2"

definition EventLoop_wakeup :: "('k, 'c, 'z) EventLoop_scheme \<Rightarrow> ('k, 'c, 'z) EventLoop_scheme" where
  "EventLoop_wakeup s = (if wakeupCounter s + 1 \<le> eventfd_max
     then s\<lparr>wakeupCounter := wakeupCounter s + 1\<rparr> else s)"

definition EventLoop_handleRead :: "('k, 'c, 'z) EventLoop_scheme \<Rightarrow> ('k, 'c, 'z) EventLoop_scheme" where
  "EventLoop_handleRead s = (if 0 < wakeupCounter s then s\<lparr>wakeupCounter := 0\<rparr> else s)"

definition EventLoop_quit :: "('k, 'e) env_scheme \<Rightarrow> ('k, 'c, 'z) EventLoop_scheme \<Rightarrow>
    ('k, 'c, 'z) EventLoop_scheme" where
  "EventLoop_quit E s = (let s1 = s\<lparr>quit := True\<rparr> in
     if \<not> EventLoop_isInLoopThread E s1 then EventLoop_wakeup s1 else s1)"

text \<open>The part of \<^verbatim>\<open>queueInLoop\<close> under the mutex, and what follows it.\<close>

definition EventLoop_push :: "'c \<Rightarrow> ('k, 'c, 'z) EventLoop_scheme \<Rightarrow> ('k, 'c, 'z) EventLoop_scheme" where
  "EventLoop_push f s = s\<lparr>pendingFunctors := pendingFunctors s @ [f]\<rparr>"

definition EventLoop_notify :: "int \<Rightarrow> ('k, 'c, 'z) EventLoop_scheme \<Rightarrow> ('k, 'c, 'z) EventLoop_scheme" where
  "EventLoop_notify th s =
     (if threadId s \<noteq> th \<or> callingPendingFunctors s then EventLoop_wakeup s else s)"

definition EventLoop_queueInLoop :: "('k, 'e) env_scheme \<Rightarrow> 'c \<Rightarrow> ('k, 'c, 'z) EventLoop_scheme \<Rightarrow>
    ('k, 'c, 'z) EventLoop_scheme" where
  "EventLoop_queueInLoop E f s = EventLoop_notify (tid E) (EventLoop_push f s)"

definition EventLoop_runInLoop ::
  "('c \<Rightarrow> ('k, 'c, 'z) EventLoop_scheme \<Rightarrow> ('k, 'c, 'z) EventLoop_scheme result) \<Rightarrow> ('k, 'e) env_scheme \<Rightarrow>
   'c \<Rightarrow> ('k, 'c, 'z) EventLoop_scheme \<Rightarrow> ('k, 'c, 'z) EventLoop_scheme result" where
  "EventLoop_runInLoop run E f s =
     (if EventLoop_isInLoopThread E s then run f s else Inr (EventLoop_queueInLoop E f s))"

definition EventLoop_queueSize :: "('k, 'c, 'z) EventLoop_scheme \<Rightarrow> nat" where
  "EventLoop_queueSize s = length (pendingFunctors s)"

text \<open>Taking the queue under the mutex.\<close>

definition EventLoop_swapPending ::
  "('k, 'c, 'z) EventLoop_scheme \<Rightarrow> 'c list \<times> ('k, 'c, 'z) EventLoop_scheme" where
  "EventLoop_swapPending s =
     (pendingFunctors s, s\<lparr>callingPendingFunctors := True, pendingFunctors := []\<rparr>)"

definition EventLoop_doPendingFunctors ::
  "('c \<Rightarrow> ('k, 'c, 'z) EventLoop_scheme \<Rightarrow> ('k, 'c, 'z) EventLoop_scheme result) \<Rightarrow>
   ('k, 'c, 'z) EventLoop_scheme \<Rightarrow> ('k, 'c, 'z) EventLoop_scheme result" where
  "EventLoop_doPendingFunctors run s = (case EventLoop_swapPending s of (functors, s1) \<Rightarrow>
     bindR (foldR run functors s1) (\<lambda>s2. Inr (s2\<lparr>callingPendingFunctors := False\<rparr>)))"

definition EventLoop_handleActive ::
  "('c \<Rightarrow> Timestamp \<Rightarrow> ('k, 'c, 'z) EventLoop_scheme \<Rightarrow> ('k, 'c, 'z) EventLoop_scheme result) \<Rightarrow>
   nat \<Rightarrow> ('k, 'c, 'z) EventLoop_scheme \<Rightarrow> ('k, 'c, 'z) EventLoop_scheme result" where
  "EventLoop_handleActive call c s =
     Channel_handleEvent call (pollReturnTime s) c (s\<lparr>currentActiveChannel := Some c\<rparr>)"

text \<open>One pass of the body of the \<^verbatim>\<open>while\<close> loop.\<close>

definition EventLoop_iterate ::
  "('c \<Rightarrow> Timestamp \<Rightarrow> ('k, 'c, 'z) EventLoop_scheme \<Rightarrow> ('k, 'c, 'z) EventLoop_scheme result) \<Rightarrow>
   ('c \<Rightarrow> ('k, 'c, 'z) EventLoop_scheme \<Rightarrow> ('k, 'c, 'z) EventLoop_scheme result) \<Rightarrow>
   (('k, 'c, 'z) EventLoop_scheme \<Rightarrow> ('k, 'c, 'z) EventLoop_scheme result) option \<Rightarrow>
   ('k, 'e) env_scheme \<Rightarrow> Timestamp \<times> wait_result \<Rightarrow>
   ('k, 'c, 'z) EventLoop_scheme \<Rightarrow> ('k, 'c, 'z) EventLoop_scheme result" where
  "EventLoop_iterate call run resumes E = (\<lambda>(now, w) s.
     bindR (EPollPoller_poll E w (s\<lparr>activeChannels := []\<rparr>)) (\<lambda>s1.
     let s2 = s1\<lparr>pollReturnTime := now, iteration := iteration s1 + 1, loopEventHandling := True\<rparr> in
     bindR (foldR (EventLoop_handleActive call) (activeChannels s2) s2) (\<lambda>s3.
     let s4 = s3\<lparr>currentActiveChannel := None, loopEventHandling := False\<rparr> in
     bindR (case resumes of None \<Rightarrow> Inr s4 | Some r \<Rightarrow> r s4)
       (EventLoop_doPendingFunctors run))))"

text \<open>The \<^verbatim>\<open>while\<close> loop on the inputs of its iterations; the flag says whether it left on \<^verbatim>\<open>quit_\<close>.\<close>

fun EventLoop_while ::
  "('i \<Rightarrow> ('k, 'c, 'z) EventLoop_scheme \<Rightarrow> ('k, 'c, 'z) EventLoop_scheme result) \<Rightarrow> 'i list \<Rightarrow>
   ('k, 'c, 'z) EventLoop_scheme \<Rightarrow> (bool \<times> ('k, 'c, 'z) EventLoop_scheme) result" where
  "EventLoop_while body [] s = Inr (quit s, s)"
| "EventLoop_while body (x # xs) s =
     (if quit s then Inr (True, s) else bindR (body x s) (EventLoop_while body xs))"

definition EventLoop_loop ::
  "('c \<Rightarrow> Timestamp \<Rightarrow> ('k, 'c, 'z) EventLoop_scheme \<Rightarrow> ('k, 'c, 'z) EventLoop_scheme result) \<Rightarrow>
   ('c \<Rightarrow> ('k, 'c, 'z) EventLoop_scheme \<Rightarrow> ('k, 'c, 'z) EventLoop_scheme result) \<Rightarrow>
   (('k, 'c, 'z) EventLoop_scheme \<Rightarrow> ('k, 'c, 'z) EventLoop_scheme result) option \<Rightarrow>
   ('k, 'e) env_scheme \<Rightarrow> (Timestamp \<times> wait_result) list \<Rightarrow>
   ('k, 'c, 'z) EventLoop_scheme \<Rightarrow> (bool \<times> ('k, 'c, 'z) EventLoop_scheme) result" where
  "EventLoop_loop call run resumes E inputs s = cassert E (\<not> looping s)
     (EventLoop_assertInLoopThread E s
       (bindR (EventLoop_while (EventLoop_iterate call run resumes E) inputs (s\<lparr>looping := True, quit := False\<rparr>))
         (\<lambda>(left, s1). Inr (left, if left then s1\<lparr>looping := False\<rparr> else s1))))"

section \<open>Sequential behaviour\<close>

lemma EventLoop_wakeup_pos: "0 < wakeupCounter (EventLoop_wakeup s)"
  by (simp add: EventLoop_wakeup_def eventfd_max_def)

lemma EventLoop_wakeup_frame [simp]:
  "pendingFunctors (EventLoop_wakeup s) = pendingFunctors s"
  "callingPendingFunctors (EventLoop_wakeup s) = callingPendingFunctors s"
  "threadId (EventLoop_wakeup s) = threadId s"
  by (simp_all add: EventLoop_wakeup_def)

lemma EventLoop_notify_frame [simp]:
  "pendingFunctors (EventLoop_notify th s) = pendingFunctors s"
  "callingPendingFunctors (EventLoop_notify th s) = callingPendingFunctors s"
  "threadId (EventLoop_notify th s) = threadId s"
  by (simp_all add: EventLoop_notify_def)

lemma foldR_queued:
  assumes "\<And>f t t'. run f t = Inr t' \<Longrightarrow> pendingFunctors t' = pendingFunctors t @ queued f"
    and "foldR run fs s = Inr s'"
  shows "pendingFunctors s' = pendingFunctors s @ concat (map queued fs)"
  using assms(2)
proof (induction fs arbitrary: s)
  case (Cons f fs)
  then obtain t where "run f s = Inr t" "foldR run fs t = Inr s'" by auto
  with Cons.IH assms(1) show ?case by fastforce
qed simp

lemma EventLoop_while_quit:
  assumes "n \<le> length inputs" and "foldR body (take n inputs) s = Inr s'" and "quit s'"
    and "\<And>m. m < n \<Longrightarrow> \<exists>t. foldR body (take m inputs) s = Inr t \<and> \<not> quit t"
  shows "EventLoop_while body inputs s = Inr (True, s')"
  using assms
proof (induction inputs arbitrary: n s)
  case Nil
  then show ?case by simp
next
  case (Cons x xs)
  show ?case
  proof (cases n)
    case 0
    with Cons.prems show ?thesis by simp
  next
    case (Suc k)
    from Cons.prems(4) [of 0] Suc have q: "\<not> quit s" by simp
    from Cons.prems(2) Suc obtain t where t: "body x s = Inr t" "foldR body (take k xs) t = Inr s'" by auto
    have "\<exists>u. foldR body (take m xs) t = Inr u \<and> \<not> quit u" if "m < k" for m
      using Cons.prems(4) [of "Suc m"] that Suc t(1) by simp
    with Cons.IH [of k t] Cons.prems(1,3) t Suc q show ?thesis by simp
  qed
qed

text \<open>
  \<^verbatim>\<open>loop()\<close> started on its own thread leaves after exactly the iteration in which \<^verbatim>\<open>quit_\<close> is set first,
  that iteration's handlers and functors included, with \<^verbatim>\<open>looping_\<close> cleared; a \<^verbatim>\<open>quit_\<close> set before
  \<^verbatim>\<open>loop()\<close> is discarded.
\<close>

theorem EventLoop_loop_quits:
  assumes "threadId s = tid E" and "\<not> looping s" and "n \<le> length inputs"
    and "foldR (EventLoop_iterate call run resumes E) (take n inputs) (s\<lparr>looping := True, quit := False\<rparr>) = Inr s'"
    and "quit s'"
    and "\<forall>m < n. \<exists>t. foldR (EventLoop_iterate call run resumes E) (take m inputs)
           (s\<lparr>looping := True, quit := False\<rparr>) = Inr t \<and> \<not> quit t"
  shows "EventLoop_loop call run resumes E inputs s = Inr (True, s'\<lparr>looping := False\<rparr>) \<and>
    EventLoop_loop call run resumes E inputs (EventLoop_quit E s) = Inr (True, s'\<lparr>looping := False\<rparr>)"
proof -
  have w: "EventLoop_while (EventLoop_iterate call run resumes E) inputs (s\<lparr>looping := True, quit := False\<rparr>)
      = Inr (True, s')"
    using EventLoop_while_quit [OF assms(3,4,5)] assms(6) by blast
  have "EventLoop_quit E s = s\<lparr>quit := True\<rparr>"
    using assms(1) by (simp add: EventLoop_quit_def EventLoop_isInLoopThread_def)
  with w assms(1,2) show ?thesis by (simp add: EventLoop_loop_def EventLoop_assertInLoopThread_def)
qed

text \<open>A loop whose only pending functor quits it: one iteration.\<close>

theorem EventLoop_loop_quits_witness:
  "\<exists>s'. EventLoop_loop (\<lambda>f t s. Inr s) (\<lambda>f s. Inr (EventLoop_quit (man_env False) s)) None (man_env False)
      [(Timestamp 9, WaitEvents []), (Timestamp 10, WaitEvents [])]
      (EventLoop_push (0 :: nat) (EventLoop_members 1 Map.empty)) = Inr (True, s') \<and>
    iteration s' = 1 \<and> pendingFunctors s' = [] \<and> \<not> looping s'"
proof -
  let ?s = "EventLoop_push (0 :: nat) (EventLoop_members 1 Map.empty) :: (int \<rightharpoonup> ev \<times> nat, nat) EventLoop"
  let ?b = "EventLoop_iterate (\<lambda>f t s. Inr s) (\<lambda>f s. Inr (EventLoop_quit (man_env False) s)) None (man_env False)
     :: _ \<Rightarrow> (int \<rightharpoonup> ev \<times> nat, nat) EventLoop \<Rightarrow> _"
  let ?i = "[(Timestamp 9, WaitEvents []), (Timestamp 10, WaitEvents [])]"
  obtain s' where s': "foldR ?b (take 1 ?i) (?s\<lparr>looping := True, quit := False\<rparr>) = Inr s'"
    "quit s'" "iteration s' = 1" "pendingFunctors s' = []"
    by (simp add: EventLoop_iterate_def EPollPoller_poll_def EventLoop_members_def EventLoop_push_def
        EventLoop_doPendingFunctors_def EventLoop_swapPending_def EventLoop_quit_def EventLoop_isInLoopThread_def)
  have "EventLoop_loop (\<lambda>f t s. Inr s) (\<lambda>f s. Inr (EventLoop_quit (man_env False) s)) None (man_env False) ?i ?s
      = Inr (True, s'\<lparr>looping := False\<rparr>)"
    using EventLoop_loop_quits [OF _ _ _ s'(1,2)]
    by (simp add: EventLoop_members_def EventLoop_push_def)
  with s' show ?thesis by simp
qed

text \<open>
  \<^verbatim>\<open>doPendingFunctors()\<close> runs a snapshot.  If running a functor only ever queues further functors
  behind the pending ones, then after it has run exactly the functors that were pending, once and in
  order, the queue holds exactly what they queued, in order: a functor that queues itself again waits
  for the next iteration instead of starving the loop.
\<close>

theorem EventLoop_doPendingFunctors_snapshot:
  assumes "\<And>f t t'. run f t = Inr t' \<Longrightarrow> pendingFunctors t' = pendingFunctors t @ queued f"
    and "EventLoop_doPendingFunctors run s = Inr s'"
  shows "(\<exists>s2. foldR run (pendingFunctors s) (s\<lparr>callingPendingFunctors := True, pendingFunctors := []\<rparr>) = Inr s2 \<and>
       s' = s2\<lparr>callingPendingFunctors := False\<rparr>) \<and>
    pendingFunctors s' = concat (map queued (pendingFunctors s)) \<and> \<not> callingPendingFunctors s'"
proof -
  from assms(2) obtain s2 where s2: "foldR run (pendingFunctors s) (s\<lparr>callingPendingFunctors := True, pendingFunctors := []\<rparr>) = Inr s2"
    "s' = s2\<lparr>callingPendingFunctors := False\<rparr>"
    by (auto simp: EventLoop_doPendingFunctors_def EventLoop_swapPending_def)
  from foldR_queued [OF assms(1) s2(1)] s2 show ?thesis by simp
qed

theorem EventLoop_doPendingFunctors_snapshot_witness:
  "\<exists>s'. EventLoop_doPendingFunctors (\<lambda>f s. Inr (EventLoop_queueInLoop (man_env True) f s))
       (EventLoop_push 5 (EventLoop_push (4 :: nat) (EventLoop_members 1 Map.empty))) = Inr s' \<and>
     pendingFunctors s' = [4, 5] \<and> wakeupCounter s' = 2"
proof -
  let ?run = "\<lambda>f (s :: (int \<rightharpoonup> ev \<times> nat, nat) EventLoop). Inr (EventLoop_queueInLoop (man_env True) f s) :: _ result"
  let ?s = "EventLoop_push 5 (EventLoop_push (4 :: nat) (EventLoop_members 1 Map.empty)) :: (int \<rightharpoonup> ev \<times> nat, nat) EventLoop"
  have q: "pendingFunctors t' = pendingFunctors t @ [f]" if "?run f t = Inr t'" for f t t'
    using that by (auto simp: EventLoop_queueInLoop_def EventLoop_push_def)
  obtain s' where s': "EventLoop_doPendingFunctors ?run ?s = Inr s'" "wakeupCounter s' = 2"
    by (simp add: EventLoop_doPendingFunctors_def EventLoop_swapPending_def EventLoop_queueInLoop_def
        EventLoop_push_def EventLoop_notify_def EventLoop_wakeup_def eventfd_max_def EventLoop_members_def)
  have "pendingFunctors s' = concat (map (\<lambda>f. [f]) (pendingFunctors ?s))"
    using EventLoop_doPendingFunctors_snapshot [where run = ?run and queued = "\<lambda>f. [f]", OF q s'(1)] by simp
  moreover have "pendingFunctors ?s = [4, 5]" by (simp add: EventLoop_push_def EventLoop_members_def)
  ultimately show ?thesis using s' by (intro exI [of _ s']) (simp only: list.map concat.simps append_Nil2 append_Cons append_Nil)
qed

section \<open>Interleaving with other threads\<close>

text \<open>
  Where the loop thread is: blocked in or about to enter \<^verbatim>\<open>epoll_wait\<close>, running channel handlers and
  resumes, or running the functors it took, with those that are left.
\<close>

datatype 'c loop_pc = AtPoll | InHandlers | InFunctors "'c list"

text \<open>
  \<open>midqueue\<close> holds the threads between the two halves of \<^verbatim>\<open>queueInLoop\<close>: the functor is pushed, the
  decision to wake the loop up not yet taken.  \<open>history\<close> and \<open>ran\<close> record all functors in the order
  in which they were pushed and started.
\<close>

record ('k, 'c) LoopSystem =
  el :: "('k, 'c) EventLoop"
  pc :: "'c loop_pc"
  midqueue :: "int set"
  history :: "'c list"
  ran :: "'c list"

text \<open>
  The loop thread itself queues only while it runs handlers or functors, and it does nothing else
  between the two halves.  The wakeup channel's callback runs at any point of the handlers; polling may
  return at any time (other events, timeout).
\<close>

inductive Loop_step :: "('k, 'c) LoopSystem \<Rightarrow> ('k, 'c) LoopSystem \<Rightarrow> bool" where
  push: "th \<notin> midqueue s \<Longrightarrow> (th = threadId (el s) \<Longrightarrow> pc s \<noteq> AtPoll) \<Longrightarrow>
    Loop_step s (s\<lparr>el := EventLoop_push f (el s), midqueue := insert th (midqueue s), history := history s @ [f]\<rparr>)"
| notify: "th \<in> midqueue s \<Longrightarrow>
    Loop_step s (s\<lparr>el := EventLoop_notify th (el s), midqueue := midqueue s - {th}\<rparr>)"
| poll_returns: "pc s = AtPoll \<Longrightarrow> Loop_step s (s\<lparr>pc := InHandlers\<rparr>)"
| wakeup_read: "pc s = InHandlers \<Longrightarrow> threadId (el s) \<notin> midqueue s \<Longrightarrow>
    Loop_step s (s\<lparr>el := EventLoop_handleRead (el s)\<rparr>)"
| take: "pc s = InHandlers \<Longrightarrow> threadId (el s) \<notin> midqueue s \<Longrightarrow> EventLoop_swapPending (el s) = (fs, e) \<Longrightarrow>
    Loop_step s (s\<lparr>el := e, pc := InFunctors fs\<rparr>)"
| run: "pc s = InFunctors (f # fs) \<Longrightarrow> threadId (el s) \<notin> midqueue s \<Longrightarrow>
    Loop_step s (s\<lparr>pc := InFunctors fs, ran := ran s @ [f]\<rparr>)"
| again: "pc s = InFunctors [] \<Longrightarrow> threadId (el s) \<notin> midqueue s \<Longrightarrow>
    Loop_step s (s\<lparr>el := (el s)\<lparr>callingPendingFunctors := False\<rparr>, pc := AtPoll\<rparr>)"

definition Loop_init :: "('k, 'c) LoopSystem \<Rightarrow> bool" where
  "Loop_init s \<longleftrightarrow> pendingFunctors (el s) = [] \<and> \<not> callingPendingFunctors (el s) \<and> pc s = AtPoll \<and>
     midqueue s = {} \<and> history s = [] \<and> ran s = []"

definition taken :: "'c loop_pc \<Rightarrow> 'c list" where
  "taken p = (case p of InFunctors fs \<Rightarrow> fs | _ \<Rightarrow> [])"

lemma taken_simps [simp]: "taken AtPoll = []" "taken InHandlers = []" "taken (InFunctors fs) = fs"
  by (simp_all add: taken_def)

text \<open>
  Outside the handlers a pending functor always comes with a wakeup, done or about to be done.
\<close>

definition Loop_inv :: "('k, 'c) LoopSystem \<Rightarrow> bool" where
  "Loop_inv s \<longleftrightarrow>
     (callingPendingFunctors (el s) \<longleftrightarrow> (\<exists>fs. pc s = InFunctors fs)) \<and>
     (pc s = AtPoll \<longrightarrow> threadId (el s) \<notin> midqueue s) \<and>
     (pc s \<noteq> InHandlers \<and> pendingFunctors (el s) \<noteq> [] \<longrightarrow> 0 < wakeupCounter (el s) \<or> midqueue s \<noteq> {}) \<and>
     history s = ran s @ taken (pc s) @ pendingFunctors (el s)"

lemma EventLoop_notify_wakes:
  "callingPendingFunctors s \<or> threadId s \<noteq> th \<Longrightarrow> 0 < wakeupCounter (EventLoop_notify th s)"
  by (auto simp: EventLoop_notify_def EventLoop_wakeup_pos)

lemma Loop_inv_step: "Loop_step s t \<Longrightarrow> Loop_inv s \<Longrightarrow> Loop_inv t"
proof (induction rule: Loop_step.induct)
  case (push th s f)
  then show ?case by (auto simp: Loop_inv_def EventLoop_push_def)
next
  case (notify th s)
  have "0 < wakeupCounter (EventLoop_notify th (el s))" if "pc s \<noteq> InHandlers"
    using notify that by (intro EventLoop_notify_wakes) (cases "pc s"; auto simp: Loop_inv_def)
  with notify show ?case by (simp add: Loop_inv_def)
next
  case (wakeup_read s)
  then show ?case by (simp add: Loop_inv_def EventLoop_handleRead_def)
next
  case (take s fs e)
  then show ?case by (auto simp: Loop_inv_def EventLoop_swapPending_def)
qed (auto simp: Loop_inv_def)

interpretation loop_steps: inductive_invariant Loop_init Loop_step Loop_inv
  by unfold_locales (simp add: Loop_inv_def Loop_init_def, rule Loop_inv_step)

text \<open>
  C1: no wakeup is lost.  However the loop thread and the threads that queue functors are interleaved,
  whenever the loop is at \<^verbatim>\<open>epoll_wait\<close> with a functor pending, the wakeup descriptor is readable, so
  that the call cannot block, or some thread has pushed and its write to the descriptor is still to
  come.  Functors start in the order in which they were pushed, each once and none lost: the pushed
  ones are the started ones, the ones taken, then the ones pending.
\<close>

theorem EventLoop_no_lost_wakeup:
  assumes "reach Loop_init Loop_step s"
  shows "(pc s = AtPoll \<and> pendingFunctors (el s) \<noteq> [] \<longrightarrow>
      0 < wakeupCounter (el s) \<or> (\<exists>th \<in> midqueue s. th \<noteq> threadId (el s))) \<and>
    history s = ran s @ taken (pc s) @ pendingFunctors (el s)"
  using loop_steps.reach_inv [OF assms] by (auto simp: Loop_inv_def)

text \<open>Thread 2 queues functor 8 while the loop of thread 1 is at its poll.\<close>

theorem EventLoop_no_lost_wakeup_witness:
  "\<exists>s :: (unit, nat) LoopSystem. reach Loop_init Loop_step s \<and> pc s = AtPoll \<and>
     pendingFunctors (el s) = [8] \<and> midqueue s = {} \<and> 0 < wakeupCounter (el s) \<and> history s = [8]"
proof -
  let ?a = "\<lparr>el = EventLoop_members 1 (), pc = AtPoll, midqueue = {}, history = [], ran = []\<rparr> :: (unit, nat) LoopSystem"
  let ?b = "?a\<lparr>el := EventLoop_push 8 (el ?a), midqueue := insert 2 (midqueue ?a), history := history ?a @ [8]\<rparr>"
  let ?c = "?b\<lparr>el := EventLoop_notify 2 (el ?b), midqueue := midqueue ?b - {2}\<rparr>"
  have "reach Loop_init Loop_step ?a" by (rule reach_init) (simp add: Loop_init_def EventLoop_members_def)
  then have "reach Loop_init Loop_step ?b"
    by (rule reach_step) (rule Loop_step.push, simp_all add: EventLoop_members_def)
  then have r: "reach Loop_init Loop_step ?c" by (rule reach_step) (rule Loop_step.notify, simp)
  from EventLoop_no_lost_wakeup [OF r] have "0 < wakeupCounter (el ?c)"
    by (simp add: EventLoop_push_def EventLoop_members_def)
  with r show ?thesis by (intro exI [of _ ?c]) (simp add: EventLoop_push_def EventLoop_members_def)
qed

end
