(* ===== verification/TimerQueue.thy ===== *)
theory TimerQueue
  imports EventLoop "HOL-Library.Product_Lexorder"
begin

text \<open>
  Timers: \<^verbatim>\<open>net/Timer.h\<close>, \<^verbatim>\<open>net/Timer.cpp\<close>, \<^verbatim>\<open>net/Timerld.h\<close>, \<^verbatim>\<open>net/TimerQueue.cpp\<close>, and the loop's constructor and
  destructor, which own the queue.

  \<^item> \<open>theap\<close> maps the addresses of the live \<open>Timer\<close> objects to them: \<^verbatim>\<open>new\<close> and \<^verbatim>\<open>delete\<close> change it, and
    reading a dead address is undefined.  The address that \<^verbatim>\<open>new\<close> returns is an argument.
  \<^item> \<^verbatim>\<open>timers_\<close>, a \<^verbatim>\<open>std::set\<close> of pairs, is its sorted sequence; \<^verbatim>\<open>activeTimers_\<close> and
    \<^verbatim>\<open>cancelingTimers_\<close> are only searched, so they are sets.
  \<^item> \<open>armed\<close> is the last \<^verbatim>\<open>timerfd_settime\<close>: when it was made and the relative time programmed.
  \<^item> Every reading of the clock is an argument; \<open>rnd\<close> is the rounding of floating-point products.
\<close>

section \<open>Timers\<close>

record 'c Timer =
  callback :: 'c
  expiration :: Timestamp
  interval :: rat
  repeat :: bool
  sequence :: int

record TimerId =
  id_timer :: nat
  id_sequence :: int

record 'c TimerQueue =
  timers :: "(Timestamp \<times> nat) list"
  activeTimers :: "(nat \<times> int) set"
  callingExpiredTimers :: bool
  cancelingTimers :: "(nat \<times> int) set"
  theap :: "nat \<rightharpoonup> 'c Timer"
  numCreated :: int
  armed :: "(Timestamp \<times> int \<times> int) option"

definition Timer_new :: "nat \<Rightarrow> 'c \<Rightarrow> Timestamp \<Rightarrow> rat \<Rightarrow> ('c, 'z) TimerQueue_scheme \<Rightarrow> ('c, 'z) TimerQueue_scheme" where
  "Timer_new p cb time iv s = s\<lparr>
     theap := (theap s)(p \<mapsto> \<lparr>callback = cb, expiration = time, interval = iv, repeat = (iv > 0),
                             sequence = numCreated s\<rparr>),
     numCreated := numCreated s + 1\<rparr>"

definition Timer_delete :: "nat \<Rightarrow> ('c, 'z) TimerQueue_scheme \<Rightarrow> ('c, 'z) TimerQueue_scheme result" where
  "Timer_delete p s = bindR (derefR (theap s) p) (\<lambda>t. Inr (s\<lparr>theap := (theap s)(p := None)\<rparr>))"

definition Timer_restart :: "(rat \<Rightarrow> rat) \<Rightarrow> 'c Timer \<Rightarrow> 'c Timer result" where
  "Timer_restart rnd t = (if repeat t
     then bindR (addTime rnd (expiration t) (interval t)) (\<lambda>e. Inr (t\<lparr>expiration := e\<rparr>))
     else Inr (t\<lparr>expiration := Timestamp_invaild\<rparr>))"

section \<open>The timer descriptor\<close>

definition howMuchTimeFromNow :: "Timestamp \<Rightarrow> Timestamp \<Rightarrow> (int \<times> int) result" where
  "howMuchTimeFromNow now time =
     (let d = microSecondsSinceEpoch time - microSecondsSinceEpoch now in
      if int64_range d
      then let us = (if d < 100 then 100 else d)
           in Inr (us sdiv kMicroSecondsPerSecond, (us smod kMicroSecondsPerSecond) * 1000)
      else Inl Undefined)"

definition resetTimerfd :: "Timestamp \<Rightarrow> Timestamp \<Rightarrow> ('c, 'z) TimerQueue_scheme \<Rightarrow> ('c, 'z) TimerQueue_scheme result" where
  "resetTimerfd now e s = bindR (howMuchTimeFromNow now e) (\<lambda>ts. Inr (s\<lparr>armed := Some (now, ts)\<rparr>))"

section \<open>The queue\<close>

text \<open>Insertion into a \<^verbatim>\<open>std::set\<close> kept as its sorted sequence.\<close>

definition sset_insert :: "'a::linorder \<Rightarrow> 'a list \<Rightarrow> 'a list" where
  "sset_insert x xs = (if x \<in> set xs then xs else insort x xs)"

definition TimerQueue_members :: "'c TimerQueue" where
  "TimerQueue_members = \<lparr>timers = [], activeTimers = {}, callingExpiredTimers = False,
     cancelingTimers = {}, theap = Map.empty, numCreated = 0, armed = None\<rparr>"

definition TimerQueue_insert :: "nat \<Rightarrow> ('c, 'z) TimerQueue_scheme \<Rightarrow> (bool \<times> ('c, 'z) TimerQueue_scheme) result" where
  "TimerQueue_insert p s = bindR (derefR (theap s) p) (\<lambda>t.
     Inr (timers s = [] \<or> expiration t < fst (hd (timers s)),
          s\<lparr>timers := sset_insert (expiration t, p) (timers s),
            activeTimers := insert (p, sequence t) (activeTimers s)\<rparr>))"

definition TimerQueue_addTimerInLoop :: "Timestamp \<Rightarrow> nat \<Rightarrow> ('c, 'z) TimerQueue_scheme \<Rightarrow> ('c, 'z) TimerQueue_scheme result" where
  "TimerQueue_addTimerInLoop now p s = bindR (TimerQueue_insert p s) (\<lambda>(is_change, s1).
     if is_change
     then bindR (derefR (theap s1) p) (\<lambda>t. resetTimerfd now (expiration t) s1)
     else Inr s1)"

text \<open>\<^verbatim>\<open>addTimer\<close> called on the loop's thread, where \<^verbatim>\<open>runInLoop\<close> runs the insertion at once.\<close>

definition TimerQueue_addTimer :: "Timestamp \<Rightarrow> nat \<Rightarrow> 'c \<Rightarrow> Timestamp \<Rightarrow> rat \<Rightarrow> ('c, 'z) TimerQueue_scheme \<Rightarrow>
    (TimerId \<times> ('c, 'z) TimerQueue_scheme) result" where
  "TimerQueue_addTimer now p cb time iv s =
     bindR (TimerQueue_addTimerInLoop now p (Timer_new p cb time iv s)) (\<lambda>s1.
     bindR (derefR (theap s1) p) (\<lambda>t. Inr (\<lparr>id_timer = p, id_sequence = sequence t\<rparr>, s1)))"

definition TimerQueue_cancelInLoop :: "TimerId \<Rightarrow> ('c, 'z) TimerQueue_scheme \<Rightarrow> ('c, 'z) TimerQueue_scheme result" where
  "TimerQueue_cancelInLoop i s =
     (if (id_timer i, id_sequence i) \<in> activeTimers s
      then bindR (derefR (theap s) (id_timer i)) (\<lambda>t.
             Timer_delete (id_timer i) (s\<lparr>timers := remove1 (expiration t, id_timer i) (timers s),
               activeTimers := activeTimers s - {(id_timer i, id_sequence i)}\<rparr>))
      else if callingExpiredTimers s
      then Inr (s\<lparr>cancelingTimers := insert (id_timer i, id_sequence i) (cancelingTimers s)\<rparr>)
      else Inr s)"

definition uintptr_max :: nat where "uintptr_max = 2 ^ 64 - 1"

definition TimerQueue_getExpired :: "Timestamp \<Rightarrow> ('c, 'z) TimerQueue_scheme \<Rightarrow>
    ((Timestamp \<times> nat) list \<times> ('c, 'z) TimerQueue_scheme) result" where
  "TimerQueue_getExpired now s =
     (let expired = takeWhile (\<lambda>e. e < (now, uintptr_max)) (timers s);
          s1 = s\<lparr>timers := dropWhile (\<lambda>e. e < (now, uintptr_max)) (timers s)\<rparr> in
      bindR (foldR (\<lambda>(e, p) s. bindR (derefR (theap s) p) (\<lambda>t.
               Inr (s\<lparr>activeTimers := activeTimers s - {(p, sequence t)}\<rparr>))) expired s1)
        (\<lambda>s2. Inr (expired, s2)))"

definition TimerQueue_reset_one :: "(rat \<Rightarrow> rat) \<Rightarrow> Timestamp \<times> nat \<Rightarrow> ('c, 'z) TimerQueue_scheme \<Rightarrow>
    ('c, 'z) TimerQueue_scheme result" where
  "TimerQueue_reset_one rnd = (\<lambda>(e, p) s. bindR (derefR (theap s) p) (\<lambda>t.
     if repeat t \<and> (p, sequence t) \<notin> cancelingTimers s
     then bindR (Timer_restart rnd t) (\<lambda>t'.
          bindR (TimerQueue_insert p (s\<lparr>theap := (theap s)(p \<mapsto> t')\<rparr>)) (\<lambda>(is_change, s1). Inr s1))
     else Timer_delete p s))"

definition TimerQueue_reset :: "(rat \<Rightarrow> rat) \<Rightarrow> Timestamp \<Rightarrow> (Timestamp \<times> nat) list \<Rightarrow>
    ('c, 'z) TimerQueue_scheme \<Rightarrow> ('c, 'z) TimerQueue_scheme result" where
  "TimerQueue_reset rnd now expired s =
     bindR (foldR (TimerQueue_reset_one rnd) expired s) (\<lambda>s1.
     bindR (if timers s1 \<noteq> []
            then bindR (derefR (theap s1) (snd (hd (timers s1)))) (\<lambda>t. Inr (expiration t))
            else Inr (Timestamp 0)) (\<lambda>nextExpire.
       if Timestamp_valid nextExpire then resetTimerfd now nextExpire s1 else Inr s1))"

definition TimerQueue_run_one :: "('c \<Rightarrow> ('c, 'z) TimerQueue_scheme \<Rightarrow> ('c, 'z) TimerQueue_scheme result) \<Rightarrow>
    Timestamp \<times> nat \<Rightarrow> ('c, 'z) TimerQueue_scheme \<Rightarrow> ('c, 'z) TimerQueue_scheme result" where
  "TimerQueue_run_one run = (\<lambda>(e, p) s. bindR (derefR (theap s) p) (\<lambda>t. run (callback t) s))"

text \<open>
  \<open>now\<close> is the clock at the entry and \<open>now'\<close> at the rearming; the value read from the descriptor is
  not used.
\<close>

definition TimerQueue_handleRead :: "('c \<Rightarrow> ('c, 'z) TimerQueue_scheme \<Rightarrow> ('c, 'z) TimerQueue_scheme result) \<Rightarrow>
    (rat \<Rightarrow> rat) \<Rightarrow> Timestamp \<Rightarrow> Timestamp \<Rightarrow> ('c, 'z) TimerQueue_scheme \<Rightarrow> ('c, 'z) TimerQueue_scheme result" where
  "TimerQueue_handleRead run rnd now now' s =
     bindR (TimerQueue_getExpired now s) (\<lambda>(expired, s1).
     bindR (foldR (TimerQueue_run_one run) expired
              (s1\<lparr>callingExpiredTimers := True, cancelingTimers := {}\<rparr>)) (\<lambda>s2.
       TimerQueue_reset rnd now' expired (s2\<lparr>callingExpiredTimers := False\<rparr>)))"

text \<open>The loop at the end of the destructor.\<close>

definition TimerQueue_deleteAll :: "('c, 'z) TimerQueue_scheme \<Rightarrow> ('c, 'z) TimerQueue_scheme result" where
  "TimerQueue_deleteAll s = foldR (\<lambda>(e, p). Timer_delete p) (timers s) s"

section \<open>Invariant\<close>

text \<open>When a programmed timer is due, in microseconds.\<close>

definition due :: "Timestamp \<times> int \<times> int \<Rightarrow> int" where
  "due a = (case a of (t, sec, nsec) \<Rightarrow>
     microSecondsSinceEpoch t + sec * kMicroSecondsPerSecond + nsec div 1000)"

definition timer_ok :: "Timestamp \<Rightarrow> bool" where
  "timer_ok e \<longleftrightarrow> Timestamp_valid e \<and> int64_range (microSecondsSinceEpoch e)"

text \<open>
  \<open>X\<close> are the timers in flight: taken out as expired and not reset yet, or created by another
  thread and not inserted yet.
\<close>

definition tq_inv :: "nat set \<Rightarrow> ('c, 'z) TimerQueue_scheme \<Rightarrow> bool" where
  "tq_inv X s \<longleftrightarrow> sorted (timers s) \<and> distinct (timers s) \<and>
     (\<forall>e p. (e, p) \<in> set (timers s) \<longrightarrow> p \<notin> X \<and> timer_ok e \<and>
        (\<exists>t. theap s p = Some t \<and> expiration t = e \<and> (p, sequence t) \<in> activeTimers s)) \<and>
     (\<forall>p q. (p, q) \<in> activeTimers s \<longrightarrow> p \<notin> X \<and>
        (\<exists>t. theap s p = Some t \<and> sequence t = q \<and> (expiration t, p) \<in> set (timers s))) \<and>
     (\<forall>p \<in> X. theap s p \<noteq> None) \<and>
     (\<forall>p t. theap s p = Some t \<longrightarrow> sequence t < numCreated s \<and>
        (p \<in> X \<or> (p, sequence t) \<in> activeTimers s)) \<and>
     (\<forall>p t p' t'. theap s p = Some t \<longrightarrow> theap s p' = Some t' \<longrightarrow> sequence t = sequence t' \<longrightarrow> p = p')"

definition arm_inv :: "('c, 'z) TimerQueue_scheme \<Rightarrow> bool" where
  "arm_inv s \<longleftrightarrow> (timers s \<noteq> [] \<longrightarrow> (\<exists>a. armed s = Some a \<and>
     due a \<le> max (microSecondsSinceEpoch (fst (hd (timers s)))) (microSecondsSinceEpoch (fst a) + 100)))"

lemma tq_invI:
  assumes "sorted (timers s)" and "distinct (timers s)"
    and "\<And>e p. (e, p) \<in> set (timers s) \<Longrightarrow> p \<notin> X \<and> timer_ok e \<and>
        (\<exists>t. theap s p = Some t \<and> expiration t = e \<and> (p, sequence t) \<in> activeTimers s)"
    and "\<And>p q. (p, q) \<in> activeTimers s \<Longrightarrow> p \<notin> X \<and>
        (\<exists>t. theap s p = Some t \<and> sequence t = q \<and> (expiration t, p) \<in> set (timers s))"
    and "\<And>p. p \<in> X \<Longrightarrow> theap s p \<noteq> None"
    and "\<And>p t. theap s p = Some t \<Longrightarrow> sequence t < numCreated s \<and> (p \<in> X \<or> (p, sequence t) \<in> activeTimers s)"
    and "\<And>p t p' t'. theap s p = Some t \<Longrightarrow> theap s p' = Some t' \<Longrightarrow> sequence t = sequence t' \<Longrightarrow> p = p'"
  shows "tq_inv X s"
  unfolding tq_inv_def using assms by auto

lemma tq_invD:
  assumes "tq_inv X s"
  shows "sorted (timers s)" and "distinct (timers s)"
    and "(e, p) \<in> set (timers s) \<Longrightarrow> p \<notin> X \<and> timer_ok e \<and>
        (\<exists>t. theap s p = Some t \<and> expiration t = e \<and> (p, sequence t) \<in> activeTimers s)"
    and "(p, q) \<in> activeTimers s \<Longrightarrow> p \<notin> X \<and>
        (\<exists>t. theap s p = Some t \<and> sequence t = q \<and> (expiration t, p) \<in> set (timers s))"
    and "p \<in> X \<Longrightarrow> theap s p \<noteq> None"
    and "theap s p = Some t \<Longrightarrow> sequence t < numCreated s \<and> (p \<in> X \<or> (p, sequence t) \<in> activeTimers s)"
    and "theap s p = Some t \<Longrightarrow> theap s p' = Some t' \<Longrightarrow> sequence t = sequence t' \<Longrightarrow> p = p'"
  using assms unfolding tq_inv_def by blast+

lemma set_sset_insert [simp]: "set (sset_insert x xs) = insert x (set xs)"
  by (auto simp: sset_insert_def set_insort_key)

lemma sset_insert_ok: "sorted xs \<Longrightarrow> distinct xs \<Longrightarrow> sorted (sset_insert x xs) \<and> distinct (sset_insert x xs)"
  by (auto simp: sset_insert_def sorted_insort distinct_insort)

text \<open>Fields that the invariant does not mention.\<close>

lemma tq_inv_frame [simp]:
  "tq_inv X (s\<lparr>cancelingTimers := c\<rparr>) = tq_inv X s"
  "tq_inv X (s\<lparr>callingExpiredTimers := b\<rparr>) = tq_inv X s"
  "tq_inv X (s\<lparr>armed := a\<rparr>) = tq_inv X s"
  by (simp_all add: tq_inv_def)

lemma tq_inv_new:
  assumes inv: "tq_inv X s" and p: "theap s p = None"
  shows "tq_inv (insert p X) (Timer_new p cb time iv s)"
proof (rule tq_invI, goal_cases)
  case (3 e q)
  then show ?case using tq_invD(3) [OF inv, of e q] p by (auto simp: Timer_new_def)
next
  case (4 q r)
  then show ?case using tq_invD(4) [OF inv, of q r] p by (auto simp: Timer_new_def)
next
  case (5 q)
  then show ?case using tq_invD(5) [OF inv, of q] by (auto simp: Timer_new_def)
next
  case (6 q t)
  then show ?case using tq_invD(6) [OF inv, of q t] by (auto simp: Timer_new_def split: if_splits)
next
  case (7 q t q' t')
  have old: "theap s r = Some v \<and> sequence v < numCreated s"
    if "theap (Timer_new p cb time iv s) r = Some v" "r \<noteq> p" for r v
    using that tq_invD(6) [OF inv, of r v] by (simp add: Timer_new_def)
  have new: "sequence v = numCreated s" if "theap (Timer_new p cb time iv s) p = Some v" for v
    using that by (auto simp: Timer_new_def)
  show ?case
  proof (cases "q = p")
    case True
    then show ?thesis using 7 new [of t] old [of q' t'] by (cases "q' = p") auto
  next
    case False
    show ?thesis
    proof (cases "q' = p")
      case True
      then show ?thesis using 7 new [of t'] old [of q t] False by auto
    next
      case f: False
      from old [OF 7(1) False] old [OF 7(2) f] 7(3) show ?thesis by (blast intro: tq_invD(7) [OF inv])
    qed
  qed
qed (use tq_invD(1,2) [OF inv] in \<open>simp_all add: Timer_new_def\<close>)

lemma tq_inv_insert:
  assumes inv: "tq_inv X s" and p: "p \<in> X" "theap s p = Some t" "timer_ok (expiration t)"
  shows "tq_inv (X - {p}) (s\<lparr>timers := sset_insert (expiration t, p) (timers s),
            activeTimers := insert (p, sequence t) (activeTimers s)\<rparr>)"
proof (rule tq_invI, goal_cases)
  case (3 e q)
  then show ?case using tq_invD(3) [OF inv, of e q] p by auto
next
  case (4 q r)
  then show ?case using tq_invD(4) [OF inv, of q r] p by auto
next
  case (5 q)
  then show ?case using tq_invD(5) [OF inv, of q] by auto
next
  case (6 q u)
  then show ?case using tq_invD(6) [OF inv, of q u] p by auto
next
  case (7 q u q' u')
  then show ?case using tq_invD(7) [OF inv, of q u q' u'] by simp
qed (use sset_insert_ok [OF tq_invD(1,2) [OF inv]] in simp_all)

text \<open>Changing a timer in flight without changing its sequence number, and deleting one.\<close>

lemma tq_inv_update:
  assumes inv: "tq_inv X s" and p: "p \<in> X" "theap s p = Some t" "sequence t' = sequence t"
  shows "tq_inv X (s\<lparr>theap := (theap s)(p \<mapsto> t')\<rparr>)"
proof (rule tq_invI, goal_cases)
  case (3 e q)
  then show ?case using tq_invD(3) [OF inv, of e q] p by auto
next
  case (4 q r)
  then show ?case using tq_invD(4) [OF inv, of q r] p by auto
next
  case (5 q)
  then show ?case using tq_invD(5) [OF inv, of q] by auto
next
  case (6 q u)
  show ?case
  proof (cases "q = p")
    case True
    with 6 have "u = t'" by simp
    with True tq_invD(6) [OF inv p(2)] p(1,3) show ?thesis by simp
  next
    case False
    with 6 tq_invD(6) [OF inv, of q u] show ?thesis by simp
  qed
next
  case (7 q u q' u')
  define old where "old r v = (if r = p then t else v)" for r v
  have "theap s q = Some (old q u)" "theap s q' = Some (old q' u')" "sequence (old q u) = sequence (old q' u')"
    using 7 p(2,3) by (auto simp: old_def split: if_splits)
  then show ?case by (rule tq_invD(7) [OF inv])
qed (use tq_invD(1,2) [OF inv] in simp_all)

lemma tq_inv_delete:
  assumes inv: "tq_inv X s" and p: "p \<in> X"
  shows "\<exists>s'. Timer_delete p s = Inr s' \<and> s' = s\<lparr>theap := (theap s)(p := None)\<rparr> \<and> tq_inv (X - {p}) s'"
proof -
  from tq_invD(5) [OF inv p] obtain t where t: "theap s p = Some t" by blast
  have "tq_inv (X - {p}) (s\<lparr>theap := (theap s)(p := None)\<rparr>)"
  proof (rule tq_invI, goal_cases)
    case (3 e q)
    then show ?case using tq_invD(3) [OF inv, of e q] p by auto
  next
    case (4 q r)
    then show ?case using tq_invD(4) [OF inv, of q r] p by auto
  next
    case (5 q)
    then show ?case using tq_invD(5) [OF inv, of q] by auto
  next
    case (6 q u)
    then show ?case using tq_invD(6) [OF inv, of q u] by (auto split: if_splits)
  next
    case (7 q u q' u')
    then show ?case using tq_invD(7) [OF inv, of q u q' u'] by (auto split: if_splits)
  qed (use tq_invD(1,2) [OF inv] in simp_all)
  with t show ?thesis by (simp add: Timer_delete_def)
qed

lemma tq_inv_cancel:
  assumes inv: "tq_inv X s"
  shows "\<exists>s'. TimerQueue_cancelInLoop i s = Inr s' \<and> tq_inv X s'"
proof (cases "(id_timer i, id_sequence i) \<in> activeTimers s")
  case False
  then show ?thesis using inv by (simp add: TimerQueue_cancelInLoop_def)
next
  case True
  let ?p = "id_timer i" and ?q = "id_sequence i"
  from tq_invD(4) [OF inv True] obtain t where
    t: "?p \<notin> X" "theap s ?p = Some t" "sequence t = ?q" "(expiration t, ?p) \<in> set (timers s)" by blast
  let ?s = "s\<lparr>timers := remove1 (expiration t, ?p) (timers s), activeTimers := activeTimers s - {(?p, ?q)},
      theap := (theap s)(?p := None)\<rparr>"
  have d: "distinct (timers s)" by (rule tq_invD(2) [OF inv])
  have ne: "q \<noteq> ?p" if "(e, q) \<in> set (timers s)" "(e, q) \<noteq> (expiration t, ?p)" for e q
    using that tq_invD(3) [OF inv that(1)] t(2) by auto
  have "tq_inv X ?s"
  proof (rule tq_invI, goal_cases)
    case (3 e q)
    then show ?case using tq_invD(3) [OF inv, of e q] ne [of e q] d by (auto simp: set_remove1_eq)
  next
    case (4 q r)
    then show ?case using tq_invD(4) [OF inv, of q r] t d by (auto simp: set_remove1_eq)
  next
    case (5 q)
    then show ?case using tq_invD(5) [OF inv, of q] t(1) by auto
  next
    case (6 q u)
    then show ?case using tq_invD(6) [OF inv, of q u] by (auto split: if_splits)
  next
    case (7 q u q' u')
    then show ?case using tq_invD(7) [OF inv, of q u q' u'] by (auto split: if_splits)
  qed (use tq_invD(1,2) [OF inv] in \<open>simp_all add: sorted_remove1\<close>)
  moreover have "TimerQueue_cancelInLoop i s = Inr ?s"
    using True t(2) by (simp add: TimerQueue_cancelInLoop_def Timer_delete_def)
  ultimately show ?thesis by blast
qed

section \<open>Taking out the expired timers\<close>

lemma sorted_takeWhile_less: "sorted xs \<Longrightarrow> takeWhile (\<lambda>x. x < b) xs = filter (\<lambda>x. x < b) xs" for b :: "'a::linorder"
proof (induction xs)
  case (Cons x xs)
  show ?case
  proof (cases "x < b")
    case False
    then have "\<forall>y \<in> set xs. \<not> y < b" using Cons.prems by auto
    then show ?thesis using False by (simp add: filter_empty_conv)
  qed (use Cons in simp)
qed simp

lemma sorted_dropWhile_less: "sorted xs \<Longrightarrow> dropWhile (\<lambda>x. x < b) xs = filter (\<lambda>x. \<not> x < b) xs" for b :: "'a::linorder"
proof (induction xs)
  case (Cons x xs)
  show ?case
  proof (cases "x < b")
    case False
    then have "\<forall>y \<in> set xs. \<not> y < b" using Cons.prems by auto
    then show ?thesis using False by (simp add: filter_id_conv)
  qed (use Cons in simp)
qed simp

definition erased :: "(Timestamp \<times> nat) list \<Rightarrow> ('c, 'z) TimerQueue_scheme \<Rightarrow> (nat \<times> int) set" where
  "erased xs s = {(p, q). p \<in> snd ` set xs \<and> (\<exists>t. theap s p = Some t \<and> sequence t = q)}"

lemma erase_active:
  assumes "\<And>e p. (e, p) \<in> set xs \<Longrightarrow> theap s p \<noteq> None"
  shows "foldR (\<lambda>(e, p) s. bindR (derefR (theap s) p) (\<lambda>t.
           Inr (s\<lparr>activeTimers := activeTimers s - {(p, sequence t)}\<rparr>))) xs s
         = Inr (s\<lparr>activeTimers := activeTimers s - erased xs s\<rparr>)"
  using assms
proof (induction xs arbitrary: s)
  case Nil
  then show ?case by (simp add: erased_def)
next
  case (Cons x xs)
  obtain e p where x: "x = (e, p)" by fastforce
  with Cons.prems obtain t where t: "theap s p = Some t" by force
  have "erased (x # xs) s = insert (p, sequence t) (erased xs s)"
    using x t by (auto simp: erased_def)
  moreover have "erased xs (s\<lparr>activeTimers := a\<rparr>) = erased xs s" for a by (simp add: erased_def)
  moreover have "theap (s\<lparr>activeTimers := activeTimers s - {(p, sequence t)}\<rparr>) r \<noteq> None"
    if "(d, r) \<in> set xs" for d r using Cons.prems [of d r] that by simp
  note Cons.IH [OF this]
  ultimately show ?case using x t by (simp add: Diff_insert2 [symmetric])
qed

lemma getExpired_eq:
  fixes now :: Timestamp
  assumes inv: "tq_inv X s"
  defines "ex \<equiv> filter (\<lambda>e. e < (now, uintptr_max)) (timers s)"
  defines "s' \<equiv> s\<lparr>timers := filter (\<lambda>e. \<not> e < (now, uintptr_max)) (timers s), activeTimers := activeTimers s - erased ex s\<rparr>"
  shows "TimerQueue_getExpired now s = Inr (ex, s')"
    and "tq_inv (X \<union> snd ` set ex) s'" and "distinct (map snd ex)" and "X \<inter> snd ` set ex = {}"
proof -
  have live: "theap s p \<noteq> None" if "(e, p) \<in> set ex" for e p
    using that tq_invD(3) [OF inv, of e p] by (auto simp: ex_def)
  show "TimerQueue_getExpired now s = Inr (ex, s')"
    unfolding TimerQueue_getExpired_def sorted_takeWhile_less [OF tq_invD(1) [OF inv]]
      sorted_dropWhile_less [OF tq_invD(1) [OF inv]] Let_def ex_def [symmetric]
    by (subst erase_active) (use live in \<open>auto simp: s'_def erased_def\<close>)
  have one: "e = e'" if "(e, p) \<in> set (timers s)" "(e', p) \<in> set (timers s)" for e e' p
    using tq_invD(3) [OF inv that(1)] tq_invD(3) [OF inv that(2)] by auto
  have d: "distinct ex" "set ex \<subseteq> set (timers s)" using tq_invD(2) [OF inv] by (auto simp: ex_def)
  then show "distinct (map snd ex)" using one by (fastforce simp: distinct_map inj_on_def)
  show "X \<inter> snd ` set ex = {}" using tq_invD(3) [OF inv] d(2) by fastforce
  show "tq_inv (X \<union> snd ` set ex) s'"
  proof (rule tq_invI, goal_cases)
    case (3 e p)
    then have e: "(e, p) \<in> set (timers s)" "(e, p) \<notin> set ex" by (simp_all add: s'_def ex_def)
    have "p \<notin> snd ` set ex"
    proof
      assume "p \<in> snd ` set ex"
      then obtain e' where e': "(e', p) \<in> set ex" by auto
      then have "(e', p) \<in> set (timers s)" using d(2) by blast
      from one [OF e(1) this] e' e(2) show False by simp
    qed
    then show ?case using tq_invD(3) [OF inv e(1)] by (auto simp: s'_def erased_def)
  next
    case (4 p q)
    then have "(p, q) \<in> activeTimers s" and ne: "(p, q) \<notin> erased ex s" by (simp_all add: s'_def)
    with tq_invD(4) [OF inv this(1)] obtain t where t: "p \<notin> X" "theap s p = Some t" "sequence t = q"
      "(expiration t, p) \<in> set (timers s)" by blast
    with ne have "p \<notin> snd ` set ex" by (auto simp: erased_def)
    with t show ?case by (force simp: s'_def ex_def)
  next
    case (5 p)
    then show ?case using tq_invD(5) [OF inv, of p] live by (fastforce simp: s'_def)
  next
    case (6 p t)
    then show ?case using tq_invD(6) [OF inv, of p t] by (auto simp: s'_def erased_def)
  next
    case (7 p t p' t')
    then show ?case using tq_invD(7) [OF inv, of p t p' t'] by (simp add: s'_def)
  qed (use tq_invD(1,2) [OF inv] in \<open>simp_all add: s'_def sorted_filter [where f = id, simplified]\<close>)
qed

section \<open>Arming the descriptor\<close>

text \<open>A clock reading after the epoch.\<close>

definition clock_ok :: "Timestamp \<Rightarrow> bool" where
  "clock_ok t \<longleftrightarrow> 0 \<le> microSecondsSinceEpoch t \<and> int64_range (microSecondsSinceEpoch t)"

lemma howMuchTimeFromNow_total:
  assumes "clock_ok now" and "timer_ok e"
  shows "\<exists>ts. howMuchTimeFromNow now e = Inr ts \<and>
    due (now, ts) = max (microSecondsSinceEpoch e) (microSecondsSinceEpoch now + 100)"
proof -
  let ?d = "microSecondsSinceEpoch e - microSecondsSinceEpoch now"
  let ?u = "if ?d < 100 then 100 else ?d"
  have r: "int64_range ?d" using assms by (auto simp: clock_ok_def timer_ok_def Timestamp_valid_def int64_range_def)
  have K: "0 < kMicroSecondsPerSecond" by (simp add: kMicroSecondsPerSecond_def)
  have u: "0 \<le> ?u" by simp
  have "howMuchTimeFromNow now e = Inr (?u div kMicroSecondsPerSecond, ?u mod kMicroSecondsPerSecond * 1000)"
    using r by (simp only: howMuchTimeFromNow_def Let_def if_True sdiv_nonneg [OF u K] smod_nonneg [OF u K])
  moreover have "due (now, ?u div kMicroSecondsPerSecond, ?u mod kMicroSecondsPerSecond * 1000)
      = max (microSecondsSinceEpoch e) (microSecondsSinceEpoch now + 100)"
    by (simp add: due_def)
  ultimately show ?thesis by blast
qed

lemma sorted_hd_le: "sorted xs \<Longrightarrow> set ys \<subseteq> set xs \<Longrightarrow> ys \<noteq> [] \<Longrightarrow> fst (hd xs) \<le> fst (hd ys)"
  for xs ys :: "('a::linorder \<times> 'b::linorder) list"
proof -
  assume a: "sorted xs" "set ys \<subseteq> set xs" "ys \<noteq> []"
  then have "hd ys \<in> set xs" using hd_in_set by blast
  with a(1) have "hd xs \<le> hd ys" by (cases xs) auto
  then show ?thesis by (auto simp: less_eq_prod_def)
qed

lemma fst_hd_sset_insert:
  "xs \<noteq> [] \<Longrightarrow> \<not> fst x < fst (hd xs) \<Longrightarrow> fst (hd (sset_insert x xs)) = fst (hd xs)"
  for xs :: "('a::linorder \<times> 'b::linorder) list"
  by (cases xs) (auto simp: sset_insert_def less_eq_prod_def)

lemma hd_sset_insert:
  "sorted xs \<Longrightarrow> xs = [] \<or> fst x < fst (hd xs) \<Longrightarrow> hd (sset_insert x xs) = x"
  for xs :: "('a::linorder \<times> 'b::linorder) list"
proof (cases xs)
  case (Cons y ys)
  assume a: "sorted xs" "xs = [] \<or> fst x < fst (hd xs)"
  with Cons have l: "fst x < fst y" by simp
  then have "x \<noteq> y" by auto
  moreover have "x \<notin> set ys" using a(1) Cons l by (fastforce simp: less_eq_prod_def)
  ultimately show ?thesis using Cons l by (simp add: sset_insert_def less_eq_prod_def)
qed (simp add: sset_insert_def)

text \<open>Fewer timers under the same programming stay covered.\<close>

lemma arm_inv_mono:
  assumes "arm_inv s" and "sorted (timers s)" and "set (timers s') \<subseteq> set (timers s)" and "armed s' = armed s"
  shows "arm_inv s'"
  unfolding arm_inv_def
proof
  assume ne: "timers s' \<noteq> []"
  with assms(3) have "timers s \<noteq> []" by auto
  with assms(1) obtain a where a: "armed s = Some a"
    "due a \<le> max (microSecondsSinceEpoch (fst (hd (timers s)))) (microSecondsSinceEpoch (fst a) + 100)"
    by (auto simp: arm_inv_def)
  have "microSecondsSinceEpoch (fst (hd (timers s))) \<le> microSecondsSinceEpoch (fst (hd (timers s')))"
    using sorted_hd_le [OF assms(2,3) ne] by (simp add: less_eq_Timestamp_def Timestamp_before_def not_less)
  with a assms(4) show "\<exists>a. armed s' = Some a \<and>
      due a \<le> max (microSecondsSinceEpoch (fst (hd (timers s')))) (microSecondsSinceEpoch (fst a) + 100)" by auto
qed

lemma arm_inv_reset:
  assumes "clock_ok now" and "timer_ok e" and "timers s \<noteq> [] \<Longrightarrow> e = fst (hd (timers s))"
  shows "\<exists>s'. resetTimerfd now e s = Inr s' \<and> (\<exists>a. s' = s\<lparr>armed := Some a\<rparr> \<and>
     due a = max (microSecondsSinceEpoch e) (microSecondsSinceEpoch now + 100)) \<and> arm_inv s'"
proof -
  from howMuchTimeFromNow_total [OF assms(1,2)] obtain ts where ts: "howMuchTimeFromNow now e = Inr ts"
    "due (now, ts) = max (microSecondsSinceEpoch e) (microSecondsSinceEpoch now + 100)" by blast
  then have "resetTimerfd now e s = Inr (s\<lparr>armed := Some (now, ts)\<rparr>)" by (simp add: resetTimerfd_def)
  moreover have "arm_inv (s\<lparr>armed := Some (now, ts)\<rparr>)" using ts(2) assms(3) by (auto simp: arm_inv_def)
  ultimately show ?thesis using ts(2) by blast
qed

section \<open>What callbacks may do\<close>

lemma addTimerInLoop_ok:
  assumes inv: "tq_inv X s" and arm: "arm_inv s" and p: "p \<in> X" "theap s p = Some t" "timer_ok (expiration t)"
    and now: "clock_ok now"
  shows "\<exists>s'. TimerQueue_addTimerInLoop now p s = Inr s' \<and> tq_inv (X - {p}) s' \<and> arm_inv s' \<and>
    theap s' = theap s \<and> callingExpiredTimers s' = callingExpiredTimers s \<and> cancelingTimers s' = cancelingTimers s \<and>
    TimerQueue.more s' = TimerQueue.more s"
proof -
  let ?s = "s\<lparr>timers := sset_insert (expiration t, p) (timers s), activeTimers := insert (p, sequence t) (activeTimers s)\<rparr>"
  let ?b = "timers s = [] \<or> expiration t < fst (hd (timers s))"
  have i: "TimerQueue_insert p s = Inr (?b, ?s)" using p(2) by (simp add: TimerQueue_insert_def)
  have v: "tq_inv (X - {p}) ?s" by (rule tq_inv_insert [OF inv p])
  show ?thesis
  proof (cases ?b)
    case True
    then have "hd (timers ?s) = (expiration t, p)"
      using hd_sset_insert [OF tq_invD(1) [OF inv], of "(expiration t, p)"] by simp
    then have "\<exists>s'. resetTimerfd now (expiration t) ?s = Inr s' \<and> (\<exists>a. s' = ?s\<lparr>armed := Some a\<rparr> \<and>
        due a = max (microSecondsSinceEpoch (expiration t)) (microSecondsSinceEpoch now + 100)) \<and> arm_inv s'"
      by (intro arm_inv_reset [OF now p(3)]) simp
    then obtain s' a where s': "resetTimerfd now (expiration t) ?s = Inr s'" "s' = ?s\<lparr>armed := Some a\<rparr>" "arm_inv s'"
      by blast
    moreover have "TimerQueue_addTimerInLoop now p s = Inr s'"
      using i True s'(1) p(2) by (simp add: TimerQueue_addTimerInLoop_def)
    moreover have "tq_inv (X - {p}) s'" using v s'(2) by simp
    ultimately show ?thesis by simp
  next
    case False
    then have "fst (hd (timers ?s)) = fst (hd (timers s))"
      using fst_hd_sset_insert [of "timers s" "(expiration t, p)"] by simp
    with arm False have "arm_inv ?s" by (simp add: arm_inv_def)
    with i False v show ?thesis by (simp add: TimerQueue_addTimerInLoop_def)
  qed
qed

text \<open>
  A step of a timer callback on the queue: adding a timer at a fresh address, cancelling by an
  identifier, or anything that does not touch the queue.
\<close>

inductive tq_api :: "('c, 'z) TimerQueue_scheme \<Rightarrow> ('c, 'z) TimerQueue_scheme \<Rightarrow> bool" where
  add: "theap s p = None \<Longrightarrow> timer_ok time \<Longrightarrow> clock_ok now \<Longrightarrow>
    TimerQueue_addTimer now p cb time iv s = Inr (i, s') \<Longrightarrow> tq_api s s'"
| cancel: "TimerQueue_cancelInLoop i s = Inr s' \<Longrightarrow> tq_api s s'"
| other: "tq_api s (s\<lparr>TimerQueue.more := m\<rparr>)"

lemma addTimer_ok:
  assumes inv: "tq_inv X s" and arm: "arm_inv s" and p: "theap s p = None" "timer_ok time" and now: "clock_ok now"
  shows "\<exists>s'. TimerQueue_addTimer now p cb time iv s = Inr (\<lparr>id_timer = p, id_sequence = numCreated s\<rparr>, s') \<and>
    tq_inv X s' \<and> arm_inv s' \<and> (p, numCreated s) \<in> activeTimers s' \<and>
    theap s' = theap (Timer_new p cb time iv s) \<and> cancelingTimers s' = cancelingTimers s \<and>
    callingExpiredTimers s' = callingExpiredTimers s \<and> TimerQueue.more s' = TimerQueue.more s"
proof -
  let ?n = "Timer_new p cb time iv s"
  let ?t = "\<lparr>callback = cb, expiration = time, interval = iv, repeat = (iv > 0), sequence = numCreated s\<rparr>"
  have t: "theap ?n p = Some ?t" by (simp add: Timer_new_def)
  have a: "arm_inv ?n" using arm by (simp add: arm_inv_def Timer_new_def)
  have x: "p \<notin> X" using tq_invD(5) [OF inv, of p] p(1) by auto
  from addTimerInLoop_ok [OF tq_inv_new [OF inv p(1)] a _ t _ now] p(2) x obtain s' where
    s': "TimerQueue_addTimerInLoop now p ?n = Inr s'" "tq_inv X s'" "arm_inv s'" "theap s' = theap ?n"
      "callingExpiredTimers s' = callingExpiredTimers ?n" "cancelingTimers s' = cancelingTimers ?n"
      "TimerQueue.more s' = TimerQueue.more ?n" by auto
  moreover have "(p, numCreated s) \<in> activeTimers s'" using tq_invD(6) [OF s'(2), of p ?t] s'(4) t x by simp
  ultimately show ?thesis using t by (simp add: TimerQueue_addTimer_def) (simp add: Timer_new_def)
qed

definition tq_good :: "nat set \<Rightarrow> ('c, 'z) TimerQueue_scheme \<Rightarrow> bool" where
  "tq_good X s \<longleftrightarrow> tq_inv X s \<and> arm_inv s"

lemma cancel_ok:
  assumes "tq_good X s"
  shows "\<exists>s'. TimerQueue_cancelInLoop i s = Inr s' \<and> tq_good X s' \<and> callingExpiredTimers s' = callingExpiredTimers s \<and>
    (\<forall>p \<in> X. theap s' p = theap s p)"
proof -
  have inv: "tq_inv X s" and arm: "arm_inv s" using assms by (simp_all add: tq_good_def)
  from tq_inv_cancel [OF inv, of i] obtain s' where s': "TimerQueue_cancelInLoop i s = Inr s'" "tq_inv X s'" by blast
  have f: "set (timers s') \<subseteq> set (timers s) \<and> armed s' = armed s \<and> callingExpiredTimers s' = callingExpiredTimers s \<and>
      (\<forall>p. p \<noteq> id_timer i \<or> theap s' p = theap s p \<or> (id_timer i, id_sequence i) \<in> activeTimers s) \<and>
      (\<forall>p. p \<noteq> id_timer i \<longrightarrow> theap s' p = theap s p)"
    using s'(1) set_remove1_subset
    by (fastforce simp: TimerQueue_cancelInLoop_def Timer_delete_def bindR_eq_Inr split: if_splits)
  then have "arm_inv s'" using arm_inv_mono [OF arm tq_invD(1) [OF inv]] by blast
  moreover have "\<forall>p \<in> X. theap s' p = theap s p" using f tq_invD(4) [OF inv] by metis
  ultimately show ?thesis using s' f by (simp add: tq_good_def)
qed

lemma tq_api_ok:
  assumes "tq_api s s'" and "tq_good X s"
  shows "tq_good X s' \<and> callingExpiredTimers s' = callingExpiredTimers s \<and> (\<forall>p \<in> X. theap s' p = theap s p)"
  using assms
proof (induction rule: tq_api.induct)
  case (add s p time now cb iv i s')
  then have "tq_inv X s" "arm_inv s" by (simp_all add: tq_good_def)
  moreover from this(1) add(1) have "p \<notin> X" using tq_invD(5) by blast
  ultimately show ?case using addTimer_ok [of X s p time now cb iv] add by (auto simp: tq_good_def Timer_new_def)
next
  case (cancel i s s')
  then show ?case using cancel_ok [of X s i] by auto
next
  case (other s m)
  then show ?case by (simp add: tq_good_def tq_inv_def arm_inv_def)
qed

lemma tq_api_steps_ok:
  assumes "tq_api\<^sup>*\<^sup>* s s'" and "tq_good X s"
  shows "tq_good X s' \<and> callingExpiredTimers s' = callingExpiredTimers s \<and> (\<forall>p \<in> X. theap s' p = theap s p)"
  using assms by (induction rule: rtranclp_induct) (simp, metis tq_api_ok)

text \<open>The callbacks terminate normally and use the queue through its interface.\<close>

definition callbacks_ok :: "('c \<Rightarrow> ('c, 'z) TimerQueue_scheme \<Rightarrow> ('c, 'z) TimerQueue_scheme result) \<Rightarrow> bool" where
  "callbacks_ok run \<longleftrightarrow> (\<forall>X f s. tq_good X s \<longrightarrow> (\<exists>s'. run f s = Inr s' \<and> tq_api\<^sup>*\<^sup>* s s'))"

lemma callbacks_ok_skip: "callbacks_ok (\<lambda>f s. Inr s)"
  by (auto simp: callbacks_ok_def)

lemma run_expired_ok:
  assumes "callbacks_ok run" and "tq_good X s" and "snd ` set xs \<subseteq> X"
  shows "\<exists>s'. foldR (TimerQueue_run_one run) xs s = Inr s' \<and> tq_good X s' \<and>
    callingExpiredTimers s' = callingExpiredTimers s \<and> (\<forall>p \<in> X. theap s' p = theap s p)"
  using assms(2,3)
proof (induction xs arbitrary: s)
  case Nil
  then show ?case by simp
next
  case (Cons x xs)
  obtain e p where x: "x = (e, p)" by fastforce
  with Cons.prems obtain t where t: "theap s p = Some t" using tq_invD(5) [of X s p] by (auto simp: tq_good_def)
  from assms(1) Cons.prems(1) obtain s1 where s1: "run (callback t) s = Inr s1" "tq_api\<^sup>*\<^sup>* s s1"
    unfolding callbacks_ok_def by blast
  from tq_api_steps_ok [OF s1(2) Cons.prems(1)] have g: "tq_good X s1"
    "callingExpiredTimers s1 = callingExpiredTimers s" "\<forall>p \<in> X. theap s1 p = theap s p" by blast+
  from Cons.IH [OF g(1)] Cons.prems(2) obtain s' where "foldR (TimerQueue_run_one run) xs s1 = Inr s'" "tq_good X s'"
    "callingExpiredTimers s' = callingExpiredTimers s1" "\<forall>p \<in> X. theap s' p = theap s1 p" by auto
  then show ?case using s1(1) t x g by (auto simp: TimerQueue_run_one_def)
qed

section \<open>Restarting and deleting\<close>

text \<open>What becomes of an expired timer \<open>t\<close> at \<open>p\<close> when the cancelled ones are \<open>C\<close>.\<close>

definition after_expiry :: "(rat \<Rightarrow> rat) \<Rightarrow> (nat \<times> int) set \<Rightarrow> nat \<Rightarrow> 'c Timer \<Rightarrow> 'c Timer option" where
  "after_expiry rnd C p t = (if repeat t \<and> (p, sequence t) \<notin> C
     then (case addTime rnd (expiration t) (interval t) of Inl e \<Rightarrow> None | Inr e \<Rightarrow> Some (t\<lparr>expiration := e\<rparr>))
     else None)"

definition restartable :: "(rat \<Rightarrow> rat) \<Rightarrow> 'c Timer \<Rightarrow> bool" where
  "restartable rnd t \<longleftrightarrow> (repeat t \<longrightarrow> (\<exists>e. addTime rnd (expiration t) (interval t) = Inr e \<and> timer_ok e))"

lemma reset_one_ok:
  assumes inv: "tq_inv X s" and p: "p \<in> X" "theap s p = Some t" and r: "restartable rnd t"
  shows "\<exists>s'. TimerQueue_reset_one rnd (e0, p) s = Inr s' \<and> tq_inv (X - {p}) s' \<and>
    cancelingTimers s' = cancelingTimers s \<and> callingExpiredTimers s' = callingExpiredTimers s \<and>
    theap s' = (theap s)(p := after_expiry rnd (cancelingTimers s) p t)"
proof (cases "repeat t \<and> (p, sequence t) \<notin> cancelingTimers s")
  case True
  with r obtain e where e: "addTime rnd (expiration t) (interval t) = Inr e" "timer_ok e"
    by (auto simp: restartable_def)
  let ?t = "t\<lparr>expiration := e\<rparr>" and ?s = "s\<lparr>theap := (theap s)(p \<mapsto> t\<lparr>expiration := e\<rparr>)\<rparr>"
  have "tq_inv X ?s" by (rule tq_inv_update [OF inv p]) simp
  then have v: "tq_inv (X - {p}) (?s\<lparr>timers := sset_insert (expiration ?t, p) (timers ?s),
            activeTimers := insert (p, sequence ?t) (activeTimers ?s)\<rparr>)"
    by (rule tq_inv_insert [OF _ p(1)]) (simp_all add: e(2))
  have "TimerQueue_reset_one rnd (e0, p) s = Inr (?s\<lparr>timers := sset_insert (expiration ?t, p) (timers ?s),
            activeTimers := insert (p, sequence ?t) (activeTimers ?s)\<rparr>)"
    using True p(2) e(1) by (simp add: TimerQueue_reset_one_def Timer_restart_def TimerQueue_insert_def)
  with v True e(1) show ?thesis by (simp add: after_expiry_def)
next
  case False
  then have "TimerQueue_reset_one rnd (e0, p) s = Timer_delete p s"
    using p(2) by (auto simp: TimerQueue_reset_one_def)
  with tq_inv_delete [OF inv p(1)] False show ?thesis by (auto simp: after_expiry_def)
qed

lemma reset_all_ok:
  assumes "tq_inv X s" and "distinct (map snd xs)" and "snd ` set xs \<subseteq> X"
    and "\<forall>p t. p \<in> snd ` set xs \<longrightarrow> theap s p = Some t \<longrightarrow> restartable rnd t"
  shows "\<exists>s'. foldR (TimerQueue_reset_one rnd) xs s = Inr s' \<and> tq_inv (X - snd ` set xs) s' \<and>
    cancelingTimers s' = cancelingTimers s \<and> callingExpiredTimers s' = callingExpiredTimers s \<and>
    (\<forall>p. theap s' p = (if p \<in> snd ` set xs
       then Option.bind (theap s p) (after_expiry rnd (cancelingTimers s) p) else theap s p))"
  using assms
proof (induction xs arbitrary: X s)
  case Nil
  then show ?case by simp
next
  case (Cons x xs)
  obtain e p where x: "x = (e, p)" by fastforce
  from Cons.prems(1,3) x obtain t where t: "p \<in> X" "theap s p = Some t" using tq_invD(5) [of X s p] by auto
  moreover from this(2) Cons.prems(4) x have r: "restartable rnd t" by auto
  ultimately obtain s1 where s1: "TimerQueue_reset_one rnd (e, p) s = Inr s1" "tq_inv (X - {p}) s1"
    "cancelingTimers s1 = cancelingTimers s" "callingExpiredTimers s1 = callingExpiredTimers s"
    "theap s1 = (theap s)(p := after_expiry rnd (cancelingTimers s) p t)"
    using reset_one_ok [OF Cons.prems(1)] by blast
  have out: "p \<notin> snd ` set xs" using Cons.prems(2) x by auto
  have "snd ` set xs \<subseteq> X - {p}" "\<forall>q u. q \<in> snd ` set xs \<longrightarrow> theap s1 q = Some u \<longrightarrow> restartable rnd u"
    using Cons.prems(3,4) x s1(5) out by auto
  with Cons.IH [OF s1(2)] Cons.prems(2) obtain s' where s': "foldR (TimerQueue_reset_one rnd) xs s1 = Inr s'"
    "tq_inv (X - {p} - snd ` set xs) s'" "cancelingTimers s' = cancelingTimers s1"
    "callingExpiredTimers s' = callingExpiredTimers s1"
    "\<forall>q. theap s' q = (if q \<in> snd ` set xs
       then Option.bind (theap s1 q) (after_expiry rnd (cancelingTimers s1) q) else theap s1 q)" by auto
  have "X - snd ` set (x # xs) = X - {p} - snd ` set xs" using x by auto
  moreover have "\<forall>q. theap s' q = (if q \<in> snd ` set (x # xs)
       then Option.bind (theap s q) (after_expiry rnd (cancelingTimers s) q) else theap s q)"
    using s'(5) s1(3,5) t(2) x out by auto
  ultimately show ?case using s' s1(1,3,4) x by simp
qed

lemma reset_rearm:
  assumes inv: "tq_inv X s" and now: "clock_ok now"
  shows "\<exists>s'. bindR (if timers s \<noteq> [] then bindR (derefR (theap s) (snd (hd (timers s)))) (\<lambda>t. Inr (expiration t))
       else Inr (Timestamp 0)) (\<lambda>nextExpire. if Timestamp_valid nextExpire then resetTimerfd now nextExpire s else Inr s) = Inr s' \<and>
     arm_inv s' \<and> (\<exists>a. s' = s\<lparr>armed := a\<rparr>) \<and>
     (timers s' \<noteq> [] \<longrightarrow> (\<exists>a. armed s' = Some a \<and>
        due a = max (microSecondsSinceEpoch (fst (hd (timers s')))) (microSecondsSinceEpoch now + 100)))"
proof (cases "timers s = []")
  case True
  then show ?thesis by (intro exI [of _ s]) (auto simp: Timestamp_valid_def arm_inv_def intro: exI [of _ "armed s"])
next
  case False
  then obtain e p where h: "hd (timers s) = (e, p)" "(e, p) \<in> set (timers s)" by (metis hd_in_set surj_pair)
  from tq_invD(3) [OF inv h(2)] obtain t where t: "theap s p = Some t" "expiration t = e" "timer_ok e" by blast
  have "\<exists>s'. resetTimerfd now e s = Inr s' \<and> (\<exists>a. s' = s\<lparr>armed := Some a\<rparr> \<and>
     due a = max (microSecondsSinceEpoch e) (microSecondsSinceEpoch now + 100)) \<and> arm_inv s'"
    by (rule arm_inv_reset [OF now t(3)]) (simp add: h(1))
  then obtain s' a where s': "resetTimerfd now e s = Inr s'" "s' = s\<lparr>armed := Some a\<rparr>"
    "due a = max (microSecondsSinceEpoch e) (microSecondsSinceEpoch now + 100)" "arm_inv s'" by blast
  moreover have "Timestamp_valid e" using t(3) by (simp add: timer_ok_def)
  ultimately show ?thesis using False h t by (cases a) auto
qed

lemma reset_ok:
  assumes inv: "tq_inv X s" and xs: "distinct (map snd xs)" "snd ` set xs \<subseteq> X"
    and r: "\<forall>p t. p \<in> snd ` set xs \<longrightarrow> theap s p = Some t \<longrightarrow> restartable rnd t" and now: "clock_ok now"
  shows "\<exists>s'. TimerQueue_reset rnd now xs s = Inr s' \<and> tq_good (X - snd ` set xs) s' \<and>
    callingExpiredTimers s' = callingExpiredTimers s \<and>
    (\<forall>p \<in> snd ` set xs. theap s' p = Option.bind (theap s p) (after_expiry rnd (cancelingTimers s) p)) \<and>
    (timers s' \<noteq> [] \<longrightarrow> (\<exists>a. armed s' = Some a \<and>
        due a = max (microSecondsSinceEpoch (fst (hd (timers s')))) (microSecondsSinceEpoch now + 100)))"
proof -
  from reset_all_ok [OF inv xs r] obtain s1 where s1: "foldR (TimerQueue_reset_one rnd) xs s = Inr s1"
    "tq_inv (X - snd ` set xs) s1" "callingExpiredTimers s1 = callingExpiredTimers s"
    "\<forall>p. theap s1 p = (if p \<in> snd ` set xs
       then Option.bind (theap s p) (after_expiry rnd (cancelingTimers s) p) else theap s p)" by blast
  from reset_rearm [OF s1(2) now] obtain s' a where s': "TimerQueue_reset rnd now xs s = Inr s'" "arm_inv s'"
    "s' = s1\<lparr>armed := a\<rparr>"
    "timers s' \<noteq> [] \<longrightarrow> (\<exists>a. armed s' = Some a \<and>
        due a = max (microSecondsSinceEpoch (fst (hd (timers s')))) (microSecondsSinceEpoch now + 100))"
    using s1(1) unfolding TimerQueue_reset_def by (simp only: bindR_simps) blast
  have "tq_good (X - snd ` set xs) s'" using s1(2) s'(2,3) by (simp add: tq_good_def)
  with s' s1(3,4) show ?thesis by simp
qed

text \<open>
  The entries that have expired at \<open>now\<close>, and the queue when their callbacks start.
\<close>

definition expired_at :: "Timestamp \<Rightarrow> ('c, 'z) TimerQueue_scheme \<Rightarrow> (Timestamp \<times> nat) list" where
  "expired_at now s = filter (\<lambda>(e, p). e \<le> now) (timers s)"

definition firing :: "Timestamp \<Rightarrow> ('c, 'z) TimerQueue_scheme \<Rightarrow> ('c, 'z) TimerQueue_scheme" where
  "firing now s = s\<lparr>timers := filter (\<lambda>(e, p). \<not> e \<le> now) (timers s),
     activeTimers := activeTimers s - erased (expired_at now s) s,
     callingExpiredTimers := True, cancelingTimers := {}\<rparr>"

lemma expired_at_eq:
  assumes "\<forall>(e, p) \<in> set (timers s). p < uintptr_max"
  shows "filter (\<lambda>e. e < (now, uintptr_max)) (timers s) = expired_at now s"
    and "filter (\<lambda>e. \<not> e < (now, uintptr_max)) (timers s) = filter (\<lambda>(e, p). \<not> e \<le> now) (timers s)"
  using assms unfolding expired_at_def by (auto simp: less_prod_def intro!: filter_cong)

lemma handleRead_ok:
  assumes run: "callbacks_ok run" and good: "tq_good Y s" and now': "clock_ok now'"
    and addr: "\<forall>(e, p) \<in> set (timers s). p < uintptr_max"
    and rep: "\<forall>p t. theap s p = Some t \<longrightarrow> restartable rnd t"
  shows "\<exists>s2 s'. foldR (TimerQueue_run_one run) (expired_at now s) (firing now s) = Inr s2 \<and>
    TimerQueue_handleRead run rnd now now' s = Inr s' \<and> tq_good Y s' \<and> \<not> callingExpiredTimers s' \<and>
    (\<forall>p \<in> snd ` set (expired_at now s). theap s' p = Option.bind (theap s p) (after_expiry rnd (cancelingTimers s2) p)) \<and>
    (timers s' \<noteq> [] \<longrightarrow> (\<exists>a. armed s' = Some a \<and>
        due a = max (microSecondsSinceEpoch (fst (hd (timers s')))) (microSecondsSinceEpoch now' + 100)))"
proof -
  let ?ex = "expired_at now s"
  have inv: "tq_inv Y s" and arm: "arm_inv s" using good by (simp_all add: tq_good_def)
  note g = getExpired_eq [OF inv, of now, unfolded expired_at_eq [OF addr]]
  let ?s1 = "s\<lparr>timers := filter (\<lambda>(e, p). \<not> e \<le> now) (timers s), activeTimers := activeTimers s - erased ?ex s\<rparr>"
  have f: "firing now s = ?s1\<lparr>callingExpiredTimers := True, cancelingTimers := {}\<rparr>" by (simp add: firing_def)
  have "arm_inv (firing now s)"
    by (rule arm_inv_mono [OF arm tq_invD(1) [OF inv]]) (auto simp: firing_def)
  then have g2: "tq_good (Y \<union> snd ` set ?ex) (firing now s)" using g(2) f by (simp add: tq_good_def)
  from run_expired_ok [OF run g2, of ?ex] obtain s2 where s2: "foldR (TimerQueue_run_one run) ?ex (firing now s) = Inr s2"
    "tq_good (Y \<union> snd ` set ?ex) s2" "\<forall>p \<in> Y \<union> snd ` set ?ex. theap s2 p = theap (firing now s) p" by auto
  let ?s2 = "s2\<lparr>callingExpiredTimers := False\<rparr>"
  have h: "theap s2 p = theap s p" if "p \<in> snd ` set ?ex" for p using that s2(3) by (simp add: firing_def)
  have i2: "tq_inv (Y \<union> snd ` set ?ex) ?s2" using s2(2) by (simp add: tq_good_def)
  have r2: "\<forall>p t. p \<in> snd ` set ?ex \<longrightarrow> theap ?s2 p = Some t \<longrightarrow> restartable rnd t" using rep h by auto
  from reset_ok [OF i2 g(3) Un_upper2 r2 now'] obtain s' where s': "TimerQueue_reset rnd now' ?ex ?s2 = Inr s'"
    "tq_good (Y \<union> snd ` set ?ex - snd ` set ?ex) s'" "\<not> callingExpiredTimers s'"
    "\<forall>p \<in> snd ` set ?ex. theap s' p = Option.bind (theap s2 p) (after_expiry rnd (cancelingTimers s2) p)"
    "timers s' \<noteq> [] \<longrightarrow> (\<exists>a. armed s' = Some a \<and>
        due a = max (microSecondsSinceEpoch (fst (hd (timers s')))) (microSecondsSinceEpoch now' + 100))" by auto
  have "Y \<union> snd ` set ?ex - snd ` set ?ex = Y" using g(4) by auto
  moreover have "TimerQueue_handleRead run rnd now now' s = Inr s'"
    using g(1) s2(1) s'(1) by (simp add: TimerQueue_handleRead_def f)
  ultimately show ?thesis using s2(1) s' h by auto
qed

text \<open>
  C3: a firing of the timer queue whose callbacks use the queue only through its interface never
  touches a dead timer and always completes.  It takes out exactly the timers with an expiration not
  after the clock, runs their callbacks once each in order of expiration, and then: a one-shot timer,
  or one cancelled while the callbacks ran, is deleted; a repeating one is queued again at its old
  expiration plus its interval; no other timer in flight is affected, nothing leaks, and the descriptor
  is programmed for the earliest remaining expiration (at least 100 microseconds ahead).
\<close>

theorem TimerQueue_handleRead_correct:
  assumes run: "callbacks_ok run" and good: "tq_good Y s" and now': "clock_ok now'"
    and addr: "\<forall>(e, p) \<in> set (timers s). p < uintptr_max"
    and rep: "\<forall>p t. theap s p = Some t \<longrightarrow> restartable rnd t"
  shows "\<exists>s2 s'. foldR (TimerQueue_run_one run) (expired_at now s) (firing now s) = Inr s2 \<and>
    TimerQueue_handleRead run rnd now now' s = Inr s' \<and> tq_good Y s' \<and> \<not> callingExpiredTimers s' \<and>
    (\<forall>p \<in> snd ` set (expired_at now s). theap s' p = Option.bind (theap s p) (after_expiry rnd (cancelingTimers s2) p)) \<and>
    (timers s' \<noteq> [] \<longrightarrow> (\<exists>a. armed s' = Some a \<and>
        due a = max (microSecondsSinceEpoch (fst (hd (timers s')))) (microSecondsSinceEpoch now' + 100)))"
  by (rule handleRead_ok [OF assms])

text \<open>A repeating timer (every half second) at address 1 and a one-shot at address 2.\<close>

definition two_timers :: "nat TimerQueue" where
  "two_timers = \<lparr>timers = [(Timestamp 1000, 1), (Timestamp 2000, 2)], activeTimers = {(1, 0), (2, 1)},
     callingExpiredTimers = False, cancelingTimers = {},
     theap = [1 \<mapsto> \<lparr>callback = 7, expiration = Timestamp 1000, interval = 1 / 2, repeat = True, sequence = 0\<rparr>,
              2 \<mapsto> \<lparr>callback = 8, expiration = Timestamp 2000, interval = 0, repeat = False, sequence = 1\<rparr>],
     numCreated = 2, armed = Some (Timestamp 0, 0, 1000 * 1000)\<rparr>"

lemma two_timers_good: "tq_good {} two_timers"
  unfolding tq_good_def
proof
  show "tq_inv {} two_timers"
    by (rule tq_invI) (auto simp: two_timers_def less_eq_prod_def timer_ok_def Timestamp_valid_def int64_range_def
        split: if_splits)
  show "arm_inv two_timers" by (simp add: arm_inv_def two_timers_def due_def kMicroSecondsPerSecond_def)
qed

lemma addTime_half: "addTime (\<lambda>x. x) (Timestamp 1000) (1 / 2) = Inr (Timestamp 501000)"
  by (simp add: addTime_def Timestamp_plus_def to_int64_def int64_range_def kMicroSecondsPerSecond_def Let_def)

theorem TimerQueue_handleRead_correct_witness:
  "\<exists>s'. TimerQueue_handleRead (\<lambda>f s. Inr s) (\<lambda>x. x) (Timestamp 5000) (Timestamp 5001) two_timers = Inr s' \<and>
     map_option expiration (theap s' 1) = Some (Timestamp 501000) \<and> theap s' 2 = None \<and> tq_good {} s'"
proof -
  have addr: "\<forall>(e, p) \<in> set (timers two_timers). p < uintptr_max" by (simp add: two_timers_def uintptr_max_def)
  have rep: "\<forall>p t. theap two_timers p = Some t \<longrightarrow> restartable (\<lambda>x. x) t"
    by (auto simp: two_timers_def restartable_def addTime_half timer_ok_def Timestamp_valid_def int64_range_def
        split: if_splits)
  have now: "clock_ok (Timestamp 5001)" by (simp add: clock_ok_def int64_range_def)
  let ?ex = "expired_at (Timestamp 5000) two_timers"
  have ex: "?ex = [(Timestamp 1000, 1), (Timestamp 2000, 2)]" by (simp add: expired_at_def two_timers_def)
  have live: "theap two_timers 1 \<noteq> None" "theap two_timers 2 \<noteq> None" by (simp_all add: two_timers_def)
  obtain s2 s' where s2: "foldR (TimerQueue_run_one (\<lambda>f s. Inr s)) ?ex (firing (Timestamp 5000) two_timers) = Inr s2"
    and s': "TimerQueue_handleRead (\<lambda>f s. Inr s) (\<lambda>x. x) (Timestamp 5000) (Timestamp 5001) two_timers = Inr s'"
      "tq_good {} s'"
      "\<forall>p \<in> snd ` set ?ex. theap s' p = Option.bind (theap two_timers p) (after_expiry (\<lambda>x. x) (cancelingTimers s2) p)"
    using TimerQueue_handleRead_correct [OF callbacks_ok_skip two_timers_good now addr rep, of "Timestamp 5000"] by blast
  have "cancelingTimers s2 = {}"
    using s2 ex by (auto simp: TimerQueue_run_one_def firing_def two_timers_def)
  then show ?thesis using s' ex
    by (intro exI [of _ s']) (simp add: two_timers_def after_expiry_def addTime_half)
qed

text \<open>
  C35: cancelling.  An identifier whose timer is queued removes exactly that timer: it leaves both sets
  and is deleted, every other timer stays.  Any other identifier, in particular one whose timer is
  gone and whose address has been used again for a newer timer, changes no timer; it is at most noted
  for the firing in progress.
\<close>

theorem TimerQueue_cancel_correct:
  assumes "tq_good X s"
  shows "\<exists>s'. TimerQueue_cancelInLoop i s = Inr s' \<and> tq_good X s' \<and>
    (if theap s (id_timer i) \<noteq> None \<and> sequence (the (theap s (id_timer i))) = id_sequence i \<and> id_timer i \<notin> X
     then theap s' = (theap s)(id_timer i := None) \<and>
          set (timers s') = {(e, p) \<in> set (timers s). p \<noteq> id_timer i} \<and>
          activeTimers s' = {(p, q) \<in> activeTimers s. p \<noteq> id_timer i}
     else theap s' = theap s \<and> timers s' = timers s \<and> activeTimers s' = activeTimers s)"
proof -
  have inv: "tq_inv X s" using assms by (simp add: tq_good_def)
  let ?p = "id_timer i" and ?q = "id_sequence i"
  from cancel_ok [OF assms, of i] obtain s' where s': "TimerQueue_cancelInLoop i s = Inr s'" "tq_good X s'" by blast
  have iff: "(?p, ?q) \<in> activeTimers s \<longleftrightarrow> theap s ?p \<noteq> None \<and> sequence (the (theap s ?p)) = ?q \<and> ?p \<notin> X"
    using tq_invD(4) [OF inv, of ?p ?q] tq_invD(6) [OF inv, of ?p] by auto
  show ?thesis
  proof (cases "(?p, ?q) \<in> activeTimers s")
    case True
    then obtain t where t: "theap s ?p = Some t" "sequence t = ?q" using iff by auto
    have "\<And>e. (e, ?p) \<in> set (timers s) \<Longrightarrow> e = expiration t" "\<And>r. (?p, r) \<in> activeTimers s \<Longrightarrow> r = ?q"
      using tq_invD(3) [OF inv, of _ ?p] tq_invD(4) [OF inv, of ?p] t by auto
    then have "set (timers s) - {(expiration t, ?p)} = {(e, p) \<in> set (timers s). p \<noteq> ?p}"
      "activeTimers s - {(?p, ?q)} = {(p, q) \<in> activeTimers s. p \<noteq> ?p}" by auto
    moreover from True t s'(1) have "s' = s\<lparr>timers := remove1 (expiration t, ?p) (timers s),
        activeTimers := activeTimers s - {(?p, ?q)}, theap := (theap s)(?p := None)\<rparr>"
      by (simp add: TimerQueue_cancelInLoop_def Timer_delete_def)
    ultimately have "theap s' = (theap s)(?p := None) \<and> set (timers s') = {(e, p) \<in> set (timers s). p \<noteq> ?p} \<and>
        activeTimers s' = {(p, q) \<in> activeTimers s. p \<noteq> ?p}"
      using tq_invD(2) [OF inv] by (simp add: set_remove1_eq)
    with True iff s' show ?thesis by simp
  next
    case False
    with s' iff show ?thesis by (auto simp: TimerQueue_cancelInLoop_def split: if_splits)
  qed
qed

theorem TimerQueue_cancel_correct_witness:
  "\<exists>s'. TimerQueue_cancelInLoop \<lparr>id_timer = 2, id_sequence = 1\<rparr> two_timers = Inr s' \<and>
     theap s' 2 = None \<and> set (timers s') = {(Timestamp 1000, 1)} \<and>
     (\<exists>s''. TimerQueue_cancelInLoop \<lparr>id_timer = 2, id_sequence = 0\<rparr> two_timers = Inr s'' \<and>
        timers s'' = timers two_timers)"
  using TimerQueue_cancel_correct [OF two_timers_good, of "\<lparr>id_timer = 2, id_sequence = 1\<rparr>"]
    TimerQueue_cancel_correct [OF two_timers_good, of "\<lparr>id_timer = 2, id_sequence = 0\<rparr>"]
  by (auto simp: two_timers_def)

text \<open>
  \<^verbatim>\<open>addTimer\<close> on another thread reads \<^verbatim>\<open>timer->sequence()\<close> after it has handed the timer to the loop.
  If the loop inserts a one-shot timer that is already due and fires it before that read, the timer
  has been deleted and the read is undefined.
\<close>

theorem TimerQueue_addTimer_race:
  assumes good: "tq_good X s" and p: "theap s p = None" "p < uintptr_max" "timer_ok time" "time \<le> now"
    and clock: "clock_ok now" "clock_ok now'"
    and addr: "\<forall>(e, q) \<in> set (timers s). q < uintptr_max"
    and rep: "\<forall>q t. theap s q = Some t \<longrightarrow> restartable rnd t"
  shows "\<exists>s1 s2. TimerQueue_addTimerInLoop now p (Timer_new p cb time 0 s) = Inr s1 \<and>
    TimerQueue_handleRead (\<lambda>f s. Inr s) rnd now now' s1 = Inr s2 \<and>
    derefR (theap s2) p = Inl Undefined"
proof -
  let ?n = "Timer_new p cb time 0 s"
  let ?t = "\<lparr>callback = cb, expiration = time, interval = 0, repeat = False, sequence = numCreated s\<rparr>"
  have t: "theap ?n p = Some ?t" by (simp add: Timer_new_def)
  have inv: "tq_inv X s" "arm_inv s" using good by (simp_all add: tq_good_def)
  have x: "insert p X - {p} = X" using tq_invD(5) [OF inv(1), of p] p(1) by auto
  have "arm_inv ?n" using inv(2) by (simp add: arm_inv_def Timer_new_def)
  from addTimerInLoop_ok [OF tq_inv_new [OF inv(1) p(1)] this _ t _ clock(1)] p(3) x obtain s1 where
    s1: "TimerQueue_addTimerInLoop now p ?n = Inr s1" "tq_good X s1" "theap s1 = theap ?n"
    by (auto simp: tq_good_def)
  have "timers s1 = sset_insert (time, p) (timers s)"
    using s1(1) t by (auto simp: TimerQueue_addTimerInLoop_def TimerQueue_insert_def resetTimerfd_def bindR_eq_Inr
        Timer_new_def split: if_splits)
  then have ts: "(time, p) \<in> set (timers s1)" "\<forall>(e, q) \<in> set (timers s1). q < uintptr_max" using addr p(2) by auto
  have "\<forall>q t. theap s1 q = Some t \<longrightarrow> restartable rnd t"
    using rep s1(3) by (auto simp: Timer_new_def restartable_def split: if_splits)
  then obtain s2 C where s2: "TimerQueue_handleRead (\<lambda>f s. Inr s) rnd now now' s1 = Inr s2"
    "\<forall>q \<in> snd ` set (expired_at now s1). theap s2 q = Option.bind (theap s1 q) (after_expiry rnd C q)"
    using handleRead_ok [OF callbacks_ok_skip s1(2) clock(2) ts(2), of rnd now] by blast
  have "(time, p) \<in> set (expired_at now s1)" using ts(1) p(4) by (simp add: expired_at_def)
  then have "p \<in> snd ` set (expired_at now s1)" by force
  with s2(2) have "theap s2 p = Option.bind (theap s1 p) (after_expiry rnd C p)" by blast
  with s1(3) t have "theap s2 p = None" by (simp add: after_expiry_def)
  with s1(1) s2(1) show ?thesis by auto
qed

theorem TimerQueue_addTimer_race_witness:
  "\<exists>s1 s2. TimerQueue_addTimerInLoop (Timestamp 5000) 3 (Timer_new 3 9 (Timestamp 4000) 0 two_timers) = Inr s1 \<and>
    TimerQueue_handleRead (\<lambda>f s. Inr s) (\<lambda>x. x) (Timestamp 5000) (Timestamp 5001) s1 = Inr s2 \<and>
    derefR (theap s2) 3 = Inl Undefined"
  by (rule TimerQueue_addTimer_race [OF two_timers_good])
    (auto simp: two_timers_def uintptr_max_def timer_ok_def Timestamp_valid_def int64_range_def clock_ok_def
      restartable_def addTime_half split: if_splits)

section \<open>Construction and destruction of a loop\<close>

text \<open>
  The constructors register the channels at the addresses \<open>tc\<close> (timer descriptor) and \<open>wc\<close> (wakeup
  descriptor); \<open>occupied\<close> says that the thread already has a loop.
\<close>

definition TimerQueue_new :: "('k, 'e) env_scheme \<Rightarrow> nat \<Rightarrow> int \<Rightarrow> 'c \<Rightarrow> ('k, 'c, 'z) EventLoop_scheme \<Rightarrow>
    ('k, 'c, 'z) EventLoop_scheme result" where
  "TimerQueue_new E tc tfd cb s =
     Channel_enableReading E tc (set_chan tc ((Channel_new tfd)\<lparr>readCallback := Some cb\<rparr>) s)"

definition EventLoop_new :: "('k, 'e) env_scheme \<Rightarrow> 'k \<Rightarrow> bool \<Rightarrow> nat \<Rightarrow> int \<Rightarrow> 'c \<Rightarrow> nat \<Rightarrow> int \<Rightarrow> 'c \<Rightarrow>
    ('k, 'c) EventLoop result" where
  "EventLoop_new E k occupied tc tfd tcb wc wfd wcb =
     bindR (TimerQueue_new E tc tfd tcb (EventLoop_members (tid E) k)) (\<lambda>s.
       let s1 = set_chan wc (Channel_new wfd) s in
       if occupied then Inl Aborted
       else bindR (mod_chan wc (\<lambda>ch. ch\<lparr>readCallback := Some wcb\<rparr>) s1) (Channel_enableReading E wc))"

definition EventLoop_destroy :: "('k, 'e) env_scheme \<Rightarrow> nat \<Rightarrow> ('k, 'c, 'z) EventLoop_scheme \<Rightarrow>
    ('k, 'c, 'z) EventLoop_scheme result" where
  "EventLoop_destroy E wc s = bindR (Channel_disableAll E wc s) (Channel_remove E wc)"

definition TimerQueue_destroy :: "('k, 'e) env_scheme \<Rightarrow> nat \<Rightarrow> ('k, 'c, 'z) EventLoop_scheme \<Rightarrow>
    ('k, 'c, 'z) EventLoop_scheme result" where
  "TimerQueue_destroy E tc s = bindR (Channel_disableAll E tc s) (Channel_remove E tc)"

lemma Poller_inv_fresh:
  assumes "Poller_inv interest s" and "chan s c = None" and "index ch = -1"
  shows "Poller_inv interest (set_chan c ch s)"
proof (rule Poller_invI, goal_cases)
  case (1 c1 ch1)
  then show ?case using Poller_invD(1) [OF assms(1), of c1 ch1] assms(3)
    by (auto simp: set_chan_def reg_ok_def split: if_splits)
next
  case (2 fd e p)
  then show ?case using Poller_invD(2) [OF assms(1), of fd e p] assms(2) by (fastforce simp: set_chan_def)
next
  case (3 fd c1)
  then show ?case using Poller_invD(3) [OF assms(1), of fd c1] assms(2) by (fastforce simp: set_chan_def)
qed

text \<open>Registering a fresh channel.\<close>

lemma enableReading_fresh:
  assumes doc: "epoll_documented (epoll_ctl E) interest" and inv: "Poller_inv interest s" and c: "chan s c = None"
    and ch: "index ch = -1" and s': "Channel_enableReading E c (set_chan c ch s) = Inr s'"
  shows "Poller_inv interest s' \<and> threadId s' = tid E \<and> threadId s = tid E \<and> (\<exists>e. interest (epollk s') = (interest (epollk s))(chan_fd ch \<mapsto> (e, c))) \<and>
    chan s' = (chan s)(c \<mapsto> ch\<lparr>events := events ch OR kReadEvent, addedToLoop := True, index := 1\<rparr>) \<and>
    channels s' = (channels s)(chan_fd ch \<mapsto> c)"
proof -
  let ?s = "set_chan c ch s"
  have t: "threadId ?s = tid E" and inv': "Poller_inv interest s'"
    using with_events_frame [OF s' [unfolded Channel_enableReading_def]]
      Poller_inv_with_events [OF doc Poller_inv_fresh [OF inv c ch] s' [unfolded Channel_enableReading_def]] by metis+
  have ch': "chan ?s c = Some ch" by (simp add: set_chan_def)
  obtain k' ok where k: "epoll_ctl E (epollk ?s) EPOLL_CTL_ADD (chan_fd ch)
      (event_mask (ch\<lparr>events := events ch OR kReadEvent\<rparr>), c) = (k', ok)" by fastforce
  from with_events_add [of ?s c ch E "\<lambda>e. e OR kReadEvent", OF ch' t _ k] ch s' have
    e: "ok" "s' = ?s\<lparr>chan := (chan ?s)(c \<mapsto> ch\<lparr>events := events ch OR kReadEvent, addedToLoop := True, index := 1\<rparr>),
        channels := (channels ?s)(chan_fd ch \<mapsto> c), epollk := k'\<rparr>"
    by (auto simp: Channel_enableReading_def cassert_def split: if_splits)
  from documented_add [OF doc k e(1)] inv' t show ?thesis unfolding e(2) by (auto simp: set_chan_def)
qed

text \<open>
  a constructed loop has exactly its timer and wakeup channels registered, consistently in the
  poller's table and the kernel.  Its destructor, run on the loop's thread, then removes the wakeup
  channel from both in a build with \<^verbatim>\<open>NDEBUG\<close> and fails an assertion in a build without.
\<close>

theorem EventLoop_lifecycle:
  assumes doc: "epoll_documented (epoll_ctl E) interest" and k: "interest k = Map.empty"
    and d: "tc \<noteq> wc" "tfd \<noteq> wfd"
    and new: "EventLoop_new E k occupied tc tfd tcb wc wfd wcb = Inr s"
  shows "Poller_inv interest s \<and> \<not> occupied \<and> channels s = [tfd \<mapsto> tc, wfd \<mapsto> wc] \<and>
    dom (interest (epollk s)) = {tfd, wfd} \<and>
    (if ndebug E
     then \<exists>s'. EventLoop_destroy E wc s = Inr s' \<and> channels s' = [tfd \<mapsto> tc] \<and> dom (interest (epollk s')) = {tfd}
     else EventLoop_destroy E wc s = Inl AssertFailed)"
proof -
  let ?m = "EventLoop_members (tid E) k :: ('a, 'c) EventLoop"
  have m: "Poller_inv interest ?m" by (rule Poller_inv_init) (simp add: Poller_init_def EventLoop_members_def k)
  from new obtain s1 where s1: "TimerQueue_new E tc tfd tcb ?m = Inr s1" and o: "\<not> occupied"
    and s: "Channel_enableReading E wc (set_chan wc ((Channel_new wfd)\<lparr>readCallback := Some wcb\<rparr>) s1) = Inr s"
    by (auto simp: EventLoop_new_def Let_def mod_chan_def set_chan_def split: if_splits)
  have mc: "chan ?m tc = None" by (simp add: EventLoop_members_def)
  note a = enableReading_fresh [OF doc m mc _ s1 [unfolded TimerQueue_new_def]]
  have "index ((Channel_new tfd :: 'c Channel)\<lparr>readCallback := Some tcb\<rparr>) = -1" by (simp add: Channel_new_def)
  note a = a [OF this]
  have i1: "Poller_inv interest s1" and c1: "chan s1 wc = None" "channels s1 = [tfd \<mapsto> tc]"
    "dom (interest (epollk s1)) = {tfd}"
    using a d k by (auto simp: EventLoop_members_def Channel_new_def split: if_splits)
  have "index ((Channel_new wfd :: 'c Channel)\<lparr>readCallback := Some wcb\<rparr>) = -1" by (simp add: Channel_new_def)
  note b = enableReading_fresh [OF doc i1 c1(1) this s]
  obtain e where ie: "interest (epollk s) = (interest (epollk s1))(wfd \<mapsto> (e, wc))"
    using b by (auto simp: Channel_new_def)
  have f: "channels s = [tfd \<mapsto> tc, wfd \<mapsto> wc]" "dom (interest (epollk s)) = {tfd, wfd}"
    using b c1(2,3) by (simp_all add: ie Channel_new_def insert_commute)
  obtain ch where ch: "chan s wc = Some ch" "index ch \<noteq> -1" "chan_fd ch = wfd"
    using b by (auto simp: Channel_new_def)
  have t: "threadId s = tid E" and inv: "Poller_inv interest s" using b by blast+
  from close_registered [OF doc inv t ch(1,2)] have
    "if ndebug E
     then \<exists>s'. EventLoop_destroy E wc s = Inr s' \<and> channels s' = [tfd \<mapsto> tc] \<and> dom (interest (epollk s')) = {tfd}
     else EventLoop_destroy E wc s = Inl AssertFailed"
    unfolding EventLoop_destroy_def ch(3) using f d(2) by (cases "ndebug E") fastforce+
  with f inv o show ?thesis by blast
qed

theorem EventLoop_lifecycle_witness:
  "\<exists>s. EventLoop_new (man_env False) Map.empty False 10 4 (0 :: nat) 11 5 1 = Inr s \<and>
     EventLoop_destroy (man_env False) 11 s = Inl AssertFailed"
proof -
  obtain s :: "(int \<rightharpoonup> ev \<times> nat, nat) EventLoop"
    where s: "EventLoop_new (man_env False) Map.empty False 10 4 (0 :: nat) 11 5 1 = Inr s"
    by (simp add: EventLoop_new_def TimerQueue_new_def Channel_enableReading_def poller_defs cassert_def
        EventLoop_members_def Channel_new_def man_epoll_ctl_def Let_def event_mask_def)
  have "epoll_documented (epoll_ctl (man_env False)) (\<lambda>m. m)" by (simp add: man_epoll_documented)
  from EventLoop_lifecycle [OF this _ _ _ s] show ?thesis using s by simp
qed

section \<open>The loop's timer functions\<close>

text \<open>
  Called on the loop's thread.  \<open>now0\<close> is the time that the function reads, \<open>now\<close> the one that the queue reads
  afterwards.  The functions return nothing: the identifier that \<^verbatim>\<open>cancel\<close> needs is thrown away.
\<close>

definition EventLoop_runAt :: "Timestamp \<Rightarrow> nat \<Rightarrow> Timestamp \<Rightarrow> 'c \<Rightarrow> ('c, 'z) TimerQueue_scheme \<Rightarrow> ('c, 'z) TimerQueue_scheme result" where
  "EventLoop_runAt now p time cb s = bindR (TimerQueue_addTimer now p cb time 0 s) (\<lambda>(i, s1). Inr s1)"

definition EventLoop_runAfter :: "(rat \<Rightarrow> rat) \<Rightarrow> Timestamp \<Rightarrow> Timestamp \<Rightarrow> nat \<Rightarrow> rat \<Rightarrow> 'c \<Rightarrow> ('c, 'z) TimerQueue_scheme \<Rightarrow>
    ('c, 'z) TimerQueue_scheme result" where
  "EventLoop_runAfter rnd now0 now p delay cb s =
     bindR (addTime rnd now0 delay) (\<lambda>time. EventLoop_runAt now p time cb s)"

definition EventLoop_runEvery :: "(rat \<Rightarrow> rat) \<Rightarrow> Timestamp \<Rightarrow> Timestamp \<Rightarrow> nat \<Rightarrow> rat \<Rightarrow> 'c \<Rightarrow> ('c, 'z) TimerQueue_scheme \<Rightarrow>
    ('c, 'z) TimerQueue_scheme result" where
  "EventLoop_runEvery rnd now0 now p iv cb s =
     bindR (addTime rnd now0 iv) (\<lambda>time. bindR (TimerQueue_addTimer now p cb time iv s) (\<lambda>(i, s1). Inr s1))"

definition EventLoop_cancel :: "TimerId \<Rightarrow> ('c, 'z) TimerQueue_scheme \<Rightarrow> ('c, 'z) TimerQueue_scheme result" where
  "EventLoop_cancel i s = TimerQueue_cancelInLoop i s"

text \<open>
  The three functions put one timer into the queue, due at the given or computed time, repeating exactly for a
  positive interval, and keep the queue's invariant and the descriptor armed for its earliest timer.
\<close>

lemma loop_timer_functions:
  assumes inv: "tq_inv X s" "arm_inv s" and p: "theap s p = None" "timer_ok time" and now: "clock_ok now"
    and e: "addTime rnd now0 iv = Inr time"
  shows "\<exists>s'. EventLoop_runAt now p time cb s = Inr s' \<and> EventLoop_runAfter rnd now0 now p iv cb s = Inr s' \<and>
      tq_inv X s' \<and> arm_inv s' \<and> theap s' = (theap s)(p \<mapsto> \<lparr>callback = cb, expiration = time, interval = 0, repeat = False, sequence = numCreated s\<rparr>)"
    and "\<exists>s'. EventLoop_runEvery rnd now0 now p iv cb s = Inr s' \<and>
      tq_inv X s' \<and> arm_inv s' \<and> theap s' = (theap s)(p \<mapsto> \<lparr>callback = cb, expiration = time, interval = iv, repeat = (iv > 0), sequence = numCreated s\<rparr>)"
  using addTimer_ok [OF inv p now, of cb 0] addTimer_ok [OF inv p now, of cb iv] e
  by (auto simp: EventLoop_runAt_def EventLoop_runAfter_def EventLoop_runEvery_def Timer_new_def)


end
