(* ===== verification/OutConnection.thy ===== *)
theory OutConnection
  imports Buffer
begin

text \<open>
  The contract that the two kinds of connections on the reactor share, \<^verbatim>\<open>net/TcpConnection\<close> and
  \<^verbatim>\<open>coro/CoroTcpConnection\<close>: what the kernel has taken of a connection followed by what waits is a stream, to which a
  send appends its message and a writable event nothing.  The locale is interpreted on both; its client is a user
  who sends messages while the kernel takes what it likes.
\<close>

datatype 'w conn_action = DoSend "byte list" 'w | DoFlush 'w

text \<open>\<open>None\<close> when an operation fails or the kernel's answer is not one it can give.\<close>

fun run_conn :: "(byte list \<Rightarrow> 'w \<Rightarrow> 's \<Rightarrow> 's result) \<Rightarrow> ('w \<Rightarrow> 's \<Rightarrow> 's result) \<Rightarrow> (byte list \<Rightarrow> 'w \<Rightarrow> 's \<Rightarrow> bool) \<Rightarrow>
    ('w \<Rightarrow> 's \<Rightarrow> bool) \<Rightarrow> 'w conn_action list \<Rightarrow> 's \<Rightarrow> 's option" where
  "run_conn send flush can_send can_flush [] s = Some s"
| "run_conn send flush can_send can_flush (a # as) s = (case a of
     DoSend d w \<Rightarrow> if can_send d w s
       then (case send d w s of Inl e \<Rightarrow> None | Inr t \<Rightarrow> run_conn send flush can_send can_flush as t) else None
   | DoFlush w \<Rightarrow> if can_flush w s
       then (case flush w s of Inl e \<Rightarrow> None | Inr t \<Rightarrow> run_conn send flush can_send can_flush as t) else None)"

fun sent_bytes :: "'w conn_action list \<Rightarrow> byte list" where
  "sent_bytes [] = []"
| "sent_bytes (DoSend d w # as) = d @ sent_bytes as"
| "sent_bytes (DoFlush w # as) = sent_bytes as"

locale out_connection =
  fixes ok :: "'s \<Rightarrow> bool"
    and stream :: "'s \<Rightarrow> byte list"
    and send :: "byte list \<Rightarrow> 'w \<Rightarrow> 's \<Rightarrow> 's result"
    and flush :: "'w \<Rightarrow> 's \<Rightarrow> 's result"
    and can_send :: "byte list \<Rightarrow> 'w \<Rightarrow> 's \<Rightarrow> bool"
    and can_flush :: "'w \<Rightarrow> 's \<Rightarrow> bool"
  assumes send_law: "ok s \<Longrightarrow> can_send d w s \<Longrightarrow> send d w s = Inr t \<Longrightarrow> ok t \<and> stream t = stream s @ d"
    and flush_law: "ok s \<Longrightarrow> can_flush w s \<Longrightarrow> flush w s = Inr t \<Longrightarrow> ok t \<and> stream t = stream s"
begin

lemma run_stream:
  "run_conn send flush can_send can_flush as s = Some t \<Longrightarrow> ok s \<Longrightarrow> ok t \<and> stream t = stream s @ sent_bytes as"
proof (induction as arbitrary: s)
  case (Cons a as)
  show ?case
  proof (cases a)
    case (DoSend d w)
    with Cons.prems(1) obtain u where "can_send d w s" "send d w s = Inr u" "run_conn send flush can_send can_flush as u = Some t"
      by (auto split: if_splits sum.splits)
    with Cons.IH [of u] send_law [OF Cons.prems(2)] DoSend show ?thesis by fastforce
  next
    case (DoFlush w)
    with Cons.prems(1) obtain u where "can_flush w s" "flush w s = Inr u" "run_conn send flush can_send can_flush as u = Some t"
      by (auto split: if_splits sum.splits)
    with Cons.IH [of u] flush_law [OF Cons.prems(2)] DoFlush show ?thesis by fastforce
  qed
qed simp

end

end
