(* ===== verification/TcpConnection.thy ===== *)
theory TcpConnection
  imports Buffer OutConnection TimerQueue
begin

text \<open>
  Connections: \<^verbatim>\<open>net/TcpConnection.h\<close>, \<^verbatim>\<open>net/TcpConnection.cpp\<close>, on top of the loop and the buffer.

  \<^item> The state is the loop's, extended by the store \<open>conns\<close> of live connections and by what the
    kernel has taken: \<open>wire\<close> the bytes written to each descriptor, \<open>wshut\<close> the descriptors whose
    write side was shut down.
  \<^item> The lambdas that the class hands to the loop are the constructors of \<open>closure\<close>.
  \<^item> The user's callbacks are the parameter \<open>app\<close>; whether the optional ones are set is a field of
    the connection.  The result of each \<^verbatim>\<open>write\<close> is an argument.
\<close>

section \<open>State\<close>

datatype StateE = kDisconnected | kConnecting | kConnected | kDisconnecting

text \<open>A connection is named by its address.\<close>

datatype closure =
    HandleRead nat | HandleWrite nat | HandleClose nat | HandleError nat
  | WriteComplete nat | HighWater nat nat
  | SendInLoop nat "byte list" | SendBuffer nat nat
  | ShutdownInLoop nat | ForceCloseInLoop nat | StartRead nat | StopRead nat
  | ConnectEstablished nat | ConnectDestroyed nat | RemoveConnectionInLoop nat | AcceptorListen
  | User nat

record TcpConnection =
  conn_name :: string
  conn_loop :: nat
  state :: StateE
  reading :: bool
  socket_fd :: int
  channel :: nat
  hasWriteComplete :: bool
  hasHighWaterMark :: bool
  highWaterMark :: nat
  inputBuffer :: Buffer
  outputBuffer :: Buffer

record 'k Net = "('k, closure) EventLoop" +
  conns :: "nat \<rightharpoonup> TcpConnection"
  bufs :: "nat \<rightharpoonup> Buffer"
  wire :: "int \<Rightarrow> byte list"
  wshut :: "int set"
  delayed :: "(rat \<times> closure) list"

record ('k, 'z) app =
  onConnection :: "nat \<Rightarrow> ('k, 'z) Net_scheme \<Rightarrow> ('k, 'z) Net_scheme result"
  onMessage :: "nat \<Rightarrow> Timestamp \<Rightarrow> ('k, 'z) Net_scheme \<Rightarrow> ('k, 'z) Net_scheme result"
  onClose :: "nat \<Rightarrow> ('k, 'z) Net_scheme \<Rightarrow> ('k, 'z) Net_scheme result"

text \<open>The outcome of a \<^verbatim>\<open>write\<close>: a count or an error.\<close>

datatype errno = EWOULDBLOCK | EINTR | EPIPE | ECONNRESET | EOTHER

datatype write_result = Wrote nat | WriteError errno

definition set_conn :: "nat \<Rightarrow> TcpConnection \<Rightarrow> ('k, 'z) Net_scheme \<Rightarrow> ('k, 'z) Net_scheme" where
  "set_conn p cn s = s\<lparr>conns := (conns s)(p \<mapsto> cn)\<rparr>"

definition setState :: "nat \<Rightarrow> StateE \<Rightarrow> ('k, 'z) Net_scheme \<Rightarrow> ('k, 'z) Net_scheme result" where
  "setState p st s = bindR (derefR (conns s) p) (\<lambda>cn. Inr (set_conn p (cn\<lparr>state := st\<rparr>) s))"

section \<open>Construction and destruction\<close>

text \<open>
  The channel is created at address \<open>c\<close>; the two buffers have their default size.  Setting the
  keep-alive option has no effect on the model.
\<close>

definition TcpConnection_new :: "nat \<Rightarrow> nat \<Rightarrow> nat \<Rightarrow> string \<Rightarrow> int \<Rightarrow> ('k, 'z) Net_scheme \<Rightarrow> ('k, 'z) Net_scheme result" where
  "TcpConnection_new p c l nm sockfd s =
     bindR (Buffer_new kInitialSize) (\<lambda>ib. bindR (Buffer_new kInitialSize) (\<lambda>ob.
       Inr (set_conn p \<lparr>conn_name = nm, conn_loop = l, state = kConnecting, reading = True,
              socket_fd = sockfd, channel = c, hasWriteComplete = False, hasHighWaterMark = False,
              highWaterMark = 64 * 1024 * 1024, inputBuffer = ib, outputBuffer = ob\<rparr>
            (set_chan c ((Channel_new sockfd)\<lparr>readCallback := Some (HandleRead p),
               writeCallback := Some (HandleWrite p), closeCallback := Some (HandleClose p),
               errorCallback := Some (HandleError p)\<rparr>) s))))"

definition TcpConnection_destroy :: "('k, 'e) env_scheme \<Rightarrow> nat \<Rightarrow> ('k, 'z) Net_scheme \<Rightarrow> ('k, 'z) Net_scheme result" where
  "TcpConnection_destroy E p s = bindR (derefR (conns s) p) (\<lambda>cn.
     cassert E (state cn = kDisconnected)
       (bindR (Channel_destroy E (channel cn) s) (\<lambda>s1. Inr (s1\<lparr>conns := (conns s1)(p := None)\<rparr>))))"

section \<open>Sending\<close>

text \<open>
  \<open>WriteError e\<close> is a \<^verbatim>\<open>write\<close> that returned a negative number, with \<open>e\<close> the errno the code goes by.  The
  code tests errno for \<^verbatim>\<open>EWOULDBLOCK\<close> and, when it differs, logs and tests it again for \<^verbatim>\<open>EPIPE\<close> and
  \<^verbatim>\<open>ECONNRESET\<close>; the log statement may have changed it in between.  Then \<open>e\<close> is the value of the second test:
  if that is \<^verbatim>\<open>EWOULDBLOCK\<close> both give no fault, as here; so every run of the code is one of the model.
\<close>

definition TcpConnection_sendInLoop :: "('k, 'e) env_scheme \<Rightarrow> nat \<Rightarrow> byte list \<Rightarrow> write_result \<Rightarrow>
    ('k, 'z) Net_scheme \<Rightarrow> ('k, 'z) Net_scheme result" where
  "TcpConnection_sendInLoop E p data w s = EventLoop_assertInLoopThread E s
     (bindR (derefR (conns s) p) (\<lambda>cn.
      if state cn = kDisconnected then Inr s
      else bindR (derefR (chan s) (channel cn)) (\<lambda>ch.
        case (if \<not> Channel_isWriting ch \<and> Buffer_readableBytes (outputBuffer cn) = 0
              then case w of
                     Wrote n \<Rightarrow>
                       let remaining = szsub (length data) n;
                           s1 = s\<lparr>wire := (wire s)(chan_fd ch := wire s (chan_fd ch) @ take n data)\<rparr>
                       in (n, remaining, False,
                           if remaining = 0 \<and> hasWriteComplete cn
                           then EventLoop_queueInLoop E (WriteComplete p) s1 else s1)
                   | WriteError e \<Rightarrow>
                       (0, length data, e \<noteq> EWOULDBLOCK \<and> (e = EPIPE \<or> e = ECONNRESET), s)
              else (0, length data, False, s))
        of (nwrote, remaining, faultError, s1) \<Rightarrow>
          cassert E (remaining \<le> length data)
            (if \<not> faultError \<and> remaining > 0
             then let oldLen = Buffer_readableBytes (outputBuffer cn);
                      s2 = (if szadd oldLen remaining \<ge> highWaterMark cn \<and> oldLen < highWaterMark cn \<and>
                               hasHighWaterMark cn
                            then EventLoop_queueInLoop E (HighWater p (szadd oldLen remaining)) s1 else s1)
                  in bindR (Buffer_append (outputBuffer cn) (drop nwrote data)) (\<lambda>ob.
                       let s3 = set_conn p (cn\<lparr>outputBuffer := ob\<rparr>) s2
                       in if \<not> Channel_isWriting ch then Channel_enableWriting E (channel cn) s3 else Inr s3)
             else Inr s1))))"

text \<open>\<^verbatim>\<open>send\<close> of a string; \<^verbatim>\<open>send(const void*, int)\<close> makes the string first.\<close>

definition TcpConnection_send :: "('k, 'e) env_scheme \<Rightarrow> nat \<Rightarrow> byte list \<Rightarrow> write_result \<Rightarrow>
    ('k, 'z) Net_scheme \<Rightarrow> ('k, 'z) Net_scheme result" where
  "TcpConnection_send E p message w s = bindR (derefR (conns s) p) (\<lambda>cn.
     if state cn = kConnected
     then if EventLoop_isInLoopThread E s then TcpConnection_sendInLoop E p message w s
          else Inr (EventLoop_queueInLoop E (SendInLoop p message) s)
     else Inr s)"

definition TcpConnection_sendBufferInLoop :: "('k, 'e) env_scheme \<Rightarrow> nat \<Rightarrow> nat \<Rightarrow> write_result \<Rightarrow>
    ('k, 'z) Net_scheme \<Rightarrow> ('k, 'z) Net_scheme result" where
  "TcpConnection_sendBufferInLoop E p b w s = bindR (derefR (bufs s) b) (\<lambda>buf.
     bindR (TcpConnection_sendInLoop E p
              (take (Buffer_readableBytes buf) (drop (Buffer_peek buf) (buffer buf))) w s) (\<lambda>s1.
     bindR (derefR (bufs s1) b) (\<lambda>buf1. Inr (s1\<lparr>bufs := (bufs s1)(b \<mapsto> Buffer_retrieveAll buf1)\<rparr>))))"

definition TcpConnection_sendBuffer :: "('k, 'e) env_scheme \<Rightarrow> nat \<Rightarrow> nat \<Rightarrow> write_result \<Rightarrow>
    ('k, 'z) Net_scheme \<Rightarrow> ('k, 'z) Net_scheme result" where
  "TcpConnection_sendBuffer E p b w s = bindR (derefR (conns s) p) (\<lambda>cn.
     if state cn = kConnected
     then if EventLoop_isInLoopThread E s then TcpConnection_sendBufferInLoop E p b w s
          else Inr (EventLoop_queueInLoop E (SendBuffer p b) s)
     else Inr s)"

section \<open>Closing\<close>

definition TcpConnection_shutdownInLoop :: "('k, 'e) env_scheme \<Rightarrow> nat \<Rightarrow> ('k, 'z) Net_scheme \<Rightarrow> ('k, 'z) Net_scheme result" where
  "TcpConnection_shutdownInLoop E p s = EventLoop_assertInLoopThread E s
     (bindR (derefR (conns s) p) (\<lambda>cn. bindR (derefR (chan s) (channel cn)) (\<lambda>ch.
        if \<not> Channel_isWriting ch then Inr (s\<lparr>wshut := insert (socket_fd cn) (wshut s)\<rparr>) else Inr s)))"

definition TcpConnection_shutdown :: "('k, 'e) env_scheme \<Rightarrow> nat \<Rightarrow> ('k, 'z) Net_scheme \<Rightarrow> ('k, 'z) Net_scheme result" where
  "TcpConnection_shutdown E p s = bindR (derefR (conns s) p) (\<lambda>cn.
     if state cn = kConnected
     then bindR (setState p kDisconnecting s) (\<lambda>s1.
            if EventLoop_isInLoopThread E s1 then TcpConnection_shutdownInLoop E p s1
            else Inr (EventLoop_queueInLoop E (ShutdownInLoop p) s1))
     else Inr s)"

definition TcpConnection_handleClose :: "('k, 'z) app \<Rightarrow> ('k, 'e) env_scheme \<Rightarrow> nat \<Rightarrow> ('k, 'z) Net_scheme \<Rightarrow>
    ('k, 'z) Net_scheme result" where
  "TcpConnection_handleClose A E p s = bindR (derefR (conns s) p) (\<lambda>cn.
     cassert E (state cn = kConnected \<or> state cn = kDisconnecting)
       (bindR (setState p kDisconnected s) (\<lambda>s1.
        bindR (Channel_disableAll E (channel cn) s1) (\<lambda>s2.
        bindR (onConnection A p s2) (onClose A p)))))"

definition TcpConnection_forceClose :: "('k, 'e) env_scheme \<Rightarrow> nat \<Rightarrow> ('k, 'z) Net_scheme \<Rightarrow> ('k, 'z) Net_scheme result" where
  "TcpConnection_forceClose E p s = bindR (derefR (conns s) p) (\<lambda>cn.
     if state cn = kConnected \<or> state cn = kDisconnecting
     then bindR (setState p kDisconnecting s) (\<lambda>s1. Inr (EventLoop_queueInLoop E (ForceCloseInLoop p) s1))
     else Inr s)"

text \<open>\<^verbatim>\<open>runAfter\<close> hands the closure to the timer queue: the request is recorded.\<close>

definition TcpConnection_forceCloseWithDelay :: "rat \<Rightarrow> nat \<Rightarrow> ('k, 'z) Net_scheme \<Rightarrow> ('k, 'z) Net_scheme result" where
  "TcpConnection_forceCloseWithDelay seconds p s = bindR (derefR (conns s) p) (\<lambda>cn.
     if state cn = kConnected \<or> state cn = kDisconnecting
     then bindR (setState p kDisconnecting s) (\<lambda>s1.
            Inr (s1\<lparr>delayed := delayed s1 @ [(seconds, ForceCloseInLoop p)]\<rparr>))
     else Inr s)"

definition TcpConnection_forceCloseInLoop :: "('k, 'z) app \<Rightarrow> ('k, 'e) env_scheme \<Rightarrow> nat \<Rightarrow> ('k, 'z) Net_scheme \<Rightarrow>
    ('k, 'z) Net_scheme result" where
  "TcpConnection_forceCloseInLoop A E p s = EventLoop_assertInLoopThread E s
     (bindR (derefR (conns s) p) (\<lambda>cn.
        if state cn = kConnected \<or> state cn = kDisconnecting then TcpConnection_handleClose A E p s else Inr s))"

section \<open>Reading switched on and off\<close>

definition TcpConnection_startReadInLoop :: "('k, 'e) env_scheme \<Rightarrow> nat \<Rightarrow> ('k, 'z) Net_scheme \<Rightarrow> ('k, 'z) Net_scheme result" where
  "TcpConnection_startReadInLoop E p s = bindR (derefR (conns s) p) (\<lambda>cn.
     bindR (derefR (chan s) (channel cn)) (\<lambda>ch.
       if \<not> reading cn \<or> \<not> Channel_isReading ch
       then bindR (Channel_enableReading E (channel cn) s) (\<lambda>s1. Inr (set_conn p (cn\<lparr>reading := True\<rparr>) s1))
       else Inr s))"

definition TcpConnection_startRead :: "('k, 'e) env_scheme \<Rightarrow> nat \<Rightarrow> ('k, 'z) Net_scheme \<Rightarrow> ('k, 'z) Net_scheme result" where
  "TcpConnection_startRead E p s =
     (if EventLoop_isInLoopThread E s then TcpConnection_startReadInLoop E p s
      else Inr (EventLoop_queueInLoop E (StartRead p) s))"

definition TcpConnection_stopReadInLoop :: "('k, 'e) env_scheme \<Rightarrow> nat \<Rightarrow> ('k, 'z) Net_scheme \<Rightarrow> ('k, 'z) Net_scheme result" where
  "TcpConnection_stopReadInLoop E p s = bindR (derefR (conns s) p) (\<lambda>cn.
     bindR (derefR (chan s) (channel cn)) (\<lambda>ch.
       if reading cn \<or> Channel_isReading ch
       then bindR (Channel_disableReading E (channel cn) s) (\<lambda>s1. Inr (set_conn p (cn\<lparr>reading := False\<rparr>) s1))
       else Inr s))"

definition TcpConnection_stopRead :: "('k, 'e) env_scheme \<Rightarrow> nat \<Rightarrow> ('k, 'z) Net_scheme \<Rightarrow> ('k, 'z) Net_scheme result" where
  "TcpConnection_stopRead E p s =
     (if EventLoop_isInLoopThread E s then TcpConnection_stopReadInLoop E p s
      else Inr (EventLoop_queueInLoop E (StopRead p) s))"

section \<open>Establishing, destroying and the channel's callbacks\<close>

definition TcpConnection_connectEstablished :: "('k, 'z) app \<Rightarrow> ('k, 'e) env_scheme \<Rightarrow> nat \<Rightarrow> ('k, 'z) Net_scheme \<Rightarrow>
    ('k, 'z) Net_scheme result" where
  "TcpConnection_connectEstablished A E p s = bindR (derefR (conns s) p) (\<lambda>cn.
     cassert E (state cn = kConnecting)
       (bindR (setState p kConnected s) (\<lambda>s1.
        bindR (Channel_tie (channel cn) p s1) (\<lambda>s2.
        bindR (Channel_enableReading E (channel cn) s2) (onConnection A p)))))"

definition TcpConnection_connectDestroyed :: "('k, 'z) app \<Rightarrow> ('k, 'e) env_scheme \<Rightarrow> nat \<Rightarrow> ('k, 'z) Net_scheme \<Rightarrow>
    ('k, 'z) Net_scheme result" where
  "TcpConnection_connectDestroyed A E p s = bindR (derefR (conns s) p) (\<lambda>cn.
     bindR (if state cn = kConnected
            then bindR (setState p kDisconnected s) (\<lambda>s1.
                 bindR (Channel_disableAll E (channel cn) s1) (onConnection A p))
            else Inr s)
       (Channel_remove E (channel cn)))"

definition TcpConnection_handleRead :: "('k, 'z) app \<Rightarrow> ('k, 'e) env_scheme \<Rightarrow> readv_fun \<Rightarrow> nat \<Rightarrow> Timestamp \<Rightarrow>
    ('k, 'z) Net_scheme \<Rightarrow> ('k, 'z) Net_scheme result" where
  "TcpConnection_handleRead A E readv p t s = bindR (derefR (conns s) p) (\<lambda>cn.
     bindR (Buffer_readFd readv (inputBuffer cn)) (\<lambda>(n, err, ib).
       let s1 = set_conn p (cn\<lparr>inputBuffer := ib\<rparr>) s in
       if n > 0 then onMessage A p t s1
       else if n = 0 then TcpConnection_handleClose A E p s1
       else Inr s1))"

definition TcpConnection_handleWrite :: "('k, 'e) env_scheme \<Rightarrow> nat \<Rightarrow> write_result \<Rightarrow> ('k, 'z) Net_scheme \<Rightarrow>
    ('k, 'z) Net_scheme result" where
  "TcpConnection_handleWrite E p w s = bindR (derefR (conns s) p) (\<lambda>cn.
     bindR (derefR (chan s) (channel cn)) (\<lambda>ch.
       if Channel_isWriting ch
       then case w of
         Wrote n \<Rightarrow>
           if 0 < n
           then let pending = take (Buffer_readableBytes (outputBuffer cn))
                                (drop (Buffer_peek (outputBuffer cn)) (buffer (outputBuffer cn)));
                    s1 = s\<lparr>wire := (wire s)(chan_fd ch := wire s (chan_fd ch) @ take n pending)\<rparr>
                in bindR (Buffer_retrieve (outputBuffer cn) n) (\<lambda>ob.
                   let s2 = set_conn p (cn\<lparr>outputBuffer := ob\<rparr>) s1 in
                   if Buffer_readableBytes ob = 0
                   then bindR (Channel_disableWriting E (channel cn) s2) (\<lambda>s3.
                        let s4 = (if hasWriteComplete cn then EventLoop_queueInLoop E (WriteComplete p) s3 else s3) in
                        if state cn = kDisconnecting then TcpConnection_shutdownInLoop E p s4 else Inr s4)
                   else Inr s2)
           else Inr s
       | WriteError e \<Rightarrow> Inr s
       else Inr s))"

section \<open>Frames\<close>

text \<open>What queueing a functor leaves alone, and what it adds.\<close>

lemma queueInLoop_net [simp]:
  "conns (EventLoop_queueInLoop E f s) = conns s"
  "wire (EventLoop_queueInLoop E f s) = wire s"
  "wshut (EventLoop_queueInLoop E f s) = wshut s"
  "chan (EventLoop_queueInLoop E f s) = chan s"
  "channels (EventLoop_queueInLoop E f s) = channels s"
  "epollk (EventLoop_queueInLoop E f s) = epollk s"
  "threadId (EventLoop_queueInLoop E f s) = threadId s"
  "pendingFunctors (EventLoop_queueInLoop E f s) = pendingFunctors s @ [f]"
  by (simp_all add: EventLoop_queueInLoop_def EventLoop_push_def EventLoop_notify_def EventLoop_wakeup_def)

lemma Poller_inv_cong:
  "chan s' = chan s \<Longrightarrow> channels s' = channels s \<Longrightarrow> epollk s' = epollk s \<Longrightarrow>
   Poller_inv interest s' = Poller_inv interest s"
  by (simp add: Poller_inv_def reg_ok_def kernel_ok_def map_ok_def)

lemma queueInLoop_Poller_inv [simp]:
  "Poller_inv interest (EventLoop_queueInLoop E f s) = Poller_inv interest s" for s :: "('k, 'z) Net_scheme"
  by (rule Poller_inv_cong) simp_all

text \<open>The events of a channel, bit by bit.\<close>

lemma isWriting_events:
  "(e OR kWriteEvent) AND kWriteEvent \<noteq> 0"
  "(e AND NOT kWriteEvent) AND kWriteEvent = 0"
  "(e OR kReadEvent) AND kWriteEvent = e AND kWriteEvent"
  "(e AND NOT kReadEvent) AND kWriteEvent = e AND kWriteEvent"
  "kNoneEvent AND kWriteEvent = 0"
proof -
  have d: "kReadEvent AND kWriteEvent = 0" by (simp add: kReadEvent_def kWriteEvent_def epoll_masks)
  show "(e OR kWriteEvent) AND kWriteEvent \<noteq> 0"
    by (simp add: bit.conj_disj_distrib2) (simp add: kWriteEvent_def epoll_masks)
  show "(e AND NOT kWriteEvent) AND kWriteEvent = 0" by (simp add: and.assoc)
  show "(e OR kReadEvent) AND kWriteEvent = e AND kWriteEvent" by (simp add: bit.conj_disj_distrib2 d)
  have "NOT kReadEvent AND kWriteEvent = kWriteEvent" by (simp add: kReadEvent_def kWriteEvent_def epoll_masks)
  then show "(e AND NOT kReadEvent) AND kWriteEvent = e AND kWriteEvent" by (simp add: and.assoc)
  show "kNoneEvent AND kWriteEvent = 0" by (simp add: kNoneEvent_def)
qed

text \<open>A change of interest of a registered channel on the loop's thread.\<close>

lemma with_events_err:
  assumes inv: "Poller_inv interest s" and ch: "chan s c = Some ch" and t: "threadId s = tid E"
    and e: "with_events E c g s = Inl e"
  shows "e = Aborted \<or> e = AssertFailed \<and> \<not> ndebug E \<and> index ch = -1"
proof (cases "index ch = -1")
  case True
  obtain k1 ok1 where k1: "epoll_ctl E (epollk s) EPOLL_CTL_ADD (chan_fd ch)
      (event_mask (ch\<lparr>events := g (events ch)\<rparr>), c) = (k1, ok1)" by fastforce
  from with_events_add [of s c ch E g, OF ch t _ k1] e True show ?thesis by (auto simp: cassert_def split: if_splits)
next
  case ix: False
  have reg: "\<not> index ch < 0" "channels s (chan_fd ch) = Some c"
    using Poller_invD(1) [OF inv ch] ix by (auto simp: reg_ok_def)
  obtain k2 ok2 where k2: "epoll_ctl E (epollk s) EPOLL_CTL_MOD (chan_fd ch)
      (event_mask (ch\<lparr>events := g (events ch)\<rparr>), c) = (k2, ok2)" by fastforce
  obtain k3 ok3 where k3: "epoll_ctl E (epollk s) EPOLL_CTL_DEL (chan_fd ch)
      (event_mask (ch\<lparr>events := g (events ch)\<rparr>), c) = (k3, ok3)" by fastforce
  show ?thesis
  proof (cases "g (events ch) = 0")
    case True
    from with_events_del [of s c ch E g, OF ch t reg(1) True k3] e reg(2) show ?thesis by simp
  next
    case False
    from with_events_mod [of s c ch E g, OF ch t reg(1) False k2] e reg(2) show ?thesis by (simp split: if_splits)
  qed
qed

lemma with_events_net:
  fixes s :: "('k, 'z) Net_scheme"
  assumes "with_events E c g s = Inr s'" and "chan s c = Some ch"
  obtains ch' where "chan s' = (chan s)(c \<mapsto> ch')" and "events ch' = g (events ch)" and "chan_fd ch' = chan_fd ch"
    and "conns s' = conns s" and "wire s' = wire s" and "wshut s' = wshut s"
    and "pendingFunctors s' = pendingFunctors s" and "threadId s' = threadId s"
proof -
  from with_events_frame [OF assms(1)] obtain ch0 i ks k where e: "chan s c = Some ch0"
    "s' = s\<lparr>chan := (chan s)(c \<mapsto> ch0\<lparr>events := g (events ch0), addedToLoop := True, index := i\<rparr>), channels := ks, epollk := k\<rparr>"
    by metis
  then have "ch0 = ch" using assms(2) by simp
  then show thesis
    by (intro that [of "ch\<lparr>events := g (events ch), addedToLoop := True, index := i\<rparr>"]) (simp_all add: e(2))
qed

section \<open>The invariant of an open connection\<close>

text \<open>
  The write interest is on exactly while bytes wait in the output buffer of a connection that is not
  disconnected.
\<close>

definition conn_ok :: "('k \<Rightarrow> int \<rightharpoonup> ev \<times> nat) \<Rightarrow> nat \<Rightarrow> ('k, 'z) Net_scheme \<Rightarrow> bool" where
  "conn_ok interest p s \<longleftrightarrow> Poller_inv interest s \<and> (\<exists>cn ch. conns s p = Some cn \<and> chan s (channel cn) = Some ch \<and>
     chan_fd ch = socket_fd cn \<and> Buffer_inv (outputBuffer cn) \<and>
     (state cn = kConnected \<or> state cn = kDisconnecting) \<and>
     (Channel_isWriting ch \<longleftrightarrow> content (outputBuffer cn) \<noteq> []))"

text \<open>Everything the connection has taken over: what the kernel has, then what waits.\<close>

definition out_stream :: "nat \<Rightarrow> ('k, 'z) Net_scheme \<Rightarrow> byte list" where
  "out_stream p s = (case conns s p of None \<Rightarrow> []
     | Some cn \<Rightarrow> wire s (socket_fd cn) @ content (outputBuffer cn))"

definition write_ok :: "write_result \<Rightarrow> nat \<Rightarrow> bool" where
  "write_ok w len \<longleftrightarrow> (case w of Wrote n \<Rightarrow> n \<le> len | WriteError e \<Rightarrow> True)"

lemma conn_okE:
  assumes "conn_ok interest p s"
  obtains cn ch where "Poller_inv interest s" and "conns s p = Some cn" and "chan s (channel cn) = Some ch"
    and "chan_fd ch = socket_fd cn" and "Buffer_inv (outputBuffer cn)"
    and "state cn = kConnected \<or> state cn = kDisconnecting"
    and "Channel_isWriting ch \<longleftrightarrow> content (outputBuffer cn) \<noteq> []"
  using assms unfolding conn_ok_def by blast

lemma conn_okI:
  assumes "Poller_inv interest s" and "conns s p = Some cn" and "chan s (channel cn) = Some ch"
    and "chan_fd ch = socket_fd cn" and "Buffer_inv (outputBuffer cn)"
    and "state cn = kConnected \<or> state cn = kDisconnecting"
    and "Channel_isWriting ch \<longleftrightarrow> content (outputBuffer cn) \<noteq> []"
  shows "conn_ok interest p s"
  using assms unfolding conn_ok_def by blast

lemma set_conn_simps [simp]:
  "conns (set_conn p cn s) = (conns s)(p \<mapsto> cn)"
  "wire (set_conn p cn s) = wire s" "wshut (set_conn p cn s) = wshut s"
  "chan (set_conn p cn s) = chan s" "channels (set_conn p cn s) = channels s" "epollk (set_conn p cn s) = epollk s"
  "threadId (set_conn p cn s) = threadId s" "pendingFunctors (set_conn p cn s) = pendingFunctors s"
  by (simp_all add: set_conn_def)

lemma set_conn_Poller_inv [simp]: "Poller_inv interest (set_conn p cn s) = Poller_inv interest s"
  by (rule Poller_inv_cong) simp_all

lemma wire_Poller_inv [simp]: "Poller_inv interest (s\<lparr>wire := x\<rparr>) = Poller_inv interest s"
  by (rule Poller_inv_cong) simp_all

section \<open>Sending and flushing\<close>

text \<open>What sending and flushing leave of a connection.\<close>

definition same_input :: "TcpConnection \<Rightarrow> TcpConnection \<Rightarrow> bool" where
  [simp]: "same_input cn cn' \<longleftrightarrow> state cn' = state cn \<and> inputBuffer cn' = inputBuffer cn \<and> socket_fd cn' = socket_fd cn"

text \<open>
  The ways in which sending can stop: \<^verbatim>\<open>epoll_ctl\<close> fails, the output buffer would exceed the largest
  vector, or, with assertions, the channel had lost all interest before (reading was stopped) and is
  in the poller's table under index \<open>-1\<close>.
\<close>

definition send_error :: "('k, 'e) env_scheme \<Rightarrow> nat \<Rightarrow> ('k, 'z) Net_scheme \<Rightarrow> error \<Rightarrow> bool" where
  "send_error E p s e \<longleftrightarrow> e = Aborted \<or> e = LengthError \<or> e = AssertFailed \<and> \<not> ndebug E \<and>
     (\<exists>cn ch. conns s p = Some cn \<and> chan s (channel cn) = Some ch \<and> index ch = -1)"

lemma send_error_cong:
  "conns u p = Some cn' \<Longrightarrow> conns s p = Some cn \<Longrightarrow> channel cn' = channel cn \<Longrightarrow> chan u = chan s \<Longrightarrow>
   send_error E p u e = send_error E p s e"
  by (simp add: send_error_def)

lemma send_error_length [simp]: "send_error E p s LengthError"
  by (simp add: send_error_def)

lemma readable_content: "Buffer_inv b \<Longrightarrow> Buffer_readableBytes b = length (content b)"
  by (simp add: length_content)

lemma length_content_max: "Buffer_inv b \<Longrightarrow> length (content b) \<le> max_size"
  using Buffer_invD [of b] by (simp add: length_content)

lemma pending_content:
  "Buffer_inv b \<Longrightarrow> take (Buffer_readableBytes b) (drop (Buffer_peek b) (buffer b)) = content b"
  by (simp add: Buffer_peek_def content_def seg_def)

lemma enableWriting_conn:
  assumes doc: "epoll_documented (epoll_ctl E) interest" and inv: "Poller_inv interest s"
    and cn: "conns s p = Some cn" "chan s (channel cn) = Some ch" "chan_fd ch = socket_fd cn" "Buffer_inv (outputBuffer cn)"
      "state cn = kConnected \<or> state cn = kDisconnecting" "content (outputBuffer cn) \<noteq> []"
    and t: "threadId s = tid E"
  shows "case Channel_enableWriting E (channel cn) s of Inl e \<Rightarrow> send_error E p s e
    | Inr s' \<Rightarrow> conn_ok interest p s' \<and> conns s' = conns s \<and> wire s' = wire s \<and> wshut s' = wshut s \<and>
        pendingFunctors s' = pendingFunctors s \<and> threadId s' = threadId s"
proof (cases "Channel_enableWriting E (channel cn) s")
  case (Inl e)
  then show ?thesis
    using with_events_err [OF inv cn(2) t Inl [unfolded Channel_enableWriting_def]] cn(1,2)
    by (auto simp: send_error_def)
next
  case (Inr s')
  note w = Inr [unfolded Channel_enableWriting_def]
  from with_events_net [OF w cn(2)] obtain ch' where f: "chan s' = (chan s)(channel cn \<mapsto> ch')"
    "events ch' = events ch OR kWriteEvent" "chan_fd ch' = chan_fd ch" "conns s' = conns s" "wire s' = wire s"
    "wshut s' = wshut s" "pendingFunctors s' = pendingFunctors s" "threadId s' = threadId s" by blast
  have "conn_ok interest p s'"
    by (rule conn_okI [of _ _ _ cn ch'])
      (use f cn Poller_inv_with_events [OF doc inv w] isWriting_events(1) in \<open>auto simp: Channel_isWriting_def\<close>)
  with Inr f show ?thesis by simp
qed

lemma out_stream_more:
  "conns u p = Some (cn\<lparr>outputBuffer := ob\<rparr>) \<Longrightarrow> wire u = wire s \<Longrightarrow> conns s p = Some cn \<Longrightarrow>
   content ob = content (outputBuffer cn) @ d \<Longrightarrow> out_stream p u = out_stream p s @ d"
  by (simp add: out_stream_def)

lemma append_stage:
  assumes doc: "epoll_documented (epoll_ctl E) interest" and inv: "Poller_inv interest s"
    and cn: "conns s p = Some cn" "chan s (channel cn) = Some ch" "chan_fd ch = socket_fd cn" "Buffer_inv (outputBuffer cn)"
      "state cn = kConnected \<or> state cn = kDisconnecting"
      "Channel_isWriting ch \<longleftrightarrow> content (outputBuffer cn) \<noteq> []"
    and t: "threadId s = tid E" and d: "d \<noteq> []" "length d \<le> max_size"
  shows "case bindR (Buffer_append (outputBuffer cn) d) (\<lambda>ob.
       let s3 = set_conn p (cn\<lparr>outputBuffer := ob\<rparr>) s
       in if \<not> Channel_isWriting ch then Channel_enableWriting E (channel cn) s3 else Inr s3) of
      Inl e \<Rightarrow> send_error E p s e
    | Inr s' \<Rightarrow> conn_ok interest p s' \<and> out_stream p s' = out_stream p s @ d \<and> wshut s' = wshut s \<and>
        (\<exists>cn'. conns s' = (conns s)(p \<mapsto> cn') \<and> same_input cn cn') \<and>
        pendingFunctors s' = pendingFunctors s \<and> threadId s' = threadId s"
  using cn(4) d(2)
proof (cases rule: append_cases)
  case fail
  then show ?thesis by simp
next
  case (ok ob)
  let ?cn = "cn\<lparr>outputBuffer := ob\<rparr>" and ?s = "set_conn p (cn\<lparr>outputBuffer := ob\<rparr>) s"
  note out = out_stream_more [where s = s and cn = cn and d = d and ob = ob, OF _ _ cn(1) ok(3)]
  show ?thesis
  proof (cases "Channel_isWriting ch")
    case True
    have "conn_ok interest p ?s"
      by (rule conn_okI [of _ _ _ ?cn ch]) (use cn ok True d(1) inv in auto)
    with True ok(1) out [of ?s] show ?thesis by (auto simp: Let_def)
  next
    case False
    have "case Channel_enableWriting E (channel ?cn) ?s of Inl e \<Rightarrow> send_error E p ?s e
      | Inr s' \<Rightarrow> conn_ok interest p s' \<and> conns s' = conns ?s \<and> wire s' = wire ?s \<and> wshut s' = wshut ?s \<and>
          pendingFunctors s' = pendingFunctors ?s \<and> threadId s' = threadId ?s"
      by (rule enableWriting_conn [OF doc, where ch = ch]) (use cn ok t d(1) inv in auto)
    moreover have "out_stream p u = out_stream p s @ d" if "conns u = conns ?s" "wire u = wire ?s" for u
      by (rule out) (simp_all add: that)
    moreover have "send_error E p ?s e = send_error E p s e" for e
      by (rule send_error_cong [of _ _ ?cn _ cn]) (simp_all add: cn(1))
    ultimately show ?thesis using False ok(1) by (auto simp: Let_def split: sum.splits)
  qed
qed

text \<open>The functors that one \<^verbatim>\<open>sendInLoop\<close> queues: \<open>queued\<close> bytes are appended to \<open>old\<close> waiting ones.\<close>

definition high_water :: "nat \<Rightarrow> TcpConnection \<Rightarrow> nat \<Rightarrow> closure list" where
  "high_water p cn queued = (let old = length (content (outputBuffer cn)) in
     if 0 < queued \<and> highWaterMark cn \<le> old + queued \<and> old < highWaterMark cn \<and> hasHighWaterMark cn
     then [HighWater p (old + queued)] else [])"

lemma send_tail:
  assumes doc: "epoll_documented (epoll_ctl E) interest" and inv: "Poller_inv interest s"
    and cn: "conns s p = Some cn" "chan s (channel cn) = Some ch" "chan_fd ch = socket_fd cn" "Buffer_inv (outputBuffer cn)"
      "state cn = kConnected \<or> state cn = kDisconnecting"
      "Channel_isWriting ch \<longleftrightarrow> content (outputBuffer cn) \<noteq> []"
    and t: "threadId s = tid E" and d: "d \<noteq> []" "length d \<le> max_size"
  shows "case (let oldLen = Buffer_readableBytes (outputBuffer cn);
              s2 = (if szadd oldLen (length d) \<ge> highWaterMark cn \<and> oldLen < highWaterMark cn \<and> hasHighWaterMark cn
                    then EventLoop_queueInLoop E (HighWater p (szadd oldLen (length d))) s else s)
          in bindR (Buffer_append (outputBuffer cn) d) (\<lambda>ob.
               let s3 = set_conn p (cn\<lparr>outputBuffer := ob\<rparr>) s2
               in if \<not> Channel_isWriting ch then Channel_enableWriting E (channel cn) s3 else Inr s3)) of
      Inl e \<Rightarrow> send_error E p s e
    | Inr s' \<Rightarrow> conn_ok interest p s' \<and> out_stream p s' = out_stream p s @ d \<and> wshut s' = wshut s \<and>
        (\<exists>cn'. conns s' = (conns s)(p \<mapsto> cn') \<and> same_input cn cn') \<and>
        pendingFunctors s' = pendingFunctors s @ high_water p cn (length d) \<and> threadId s' = threadId s"
proof -
  let ?old = "Buffer_readableBytes (outputBuffer cn)"
  have old: "?old = length (content (outputBuffer cn))" by (rule readable_content [OF cn(4)])
  have sum: "szadd ?old (length d) = length (content (outputBuffer cn)) + length d"
    unfolding old by (rule szadd_small [OF length_content_max [OF cn(4)] d(2)])
  let ?s2 = "if szadd ?old (length d) \<ge> highWaterMark cn \<and> ?old < highWaterMark cn \<and> hasHighWaterMark cn
             then EventLoop_queueInLoop E (HighWater p (szadd ?old (length d))) s else s"
  have p2: "pendingFunctors ?s2 = pendingFunctors s @ high_water p cn (length d)"
    using d(1) sum [unfolded old] by (simp add: old high_water_def Let_def)
  have f2: "Poller_inv interest ?s2" "conns ?s2 = conns s" "chan ?s2 = chan s" "threadId ?s2 = threadId s"
    "wshut ?s2 = wshut s" "wire ?s2 = wire s"
    using inv by simp_all
  have e2: "send_error E p ?s2 e = send_error E p s e" for e
    by (rule send_error_cong [of _ _ cn _ cn]) (use f2 cn(1) in simp_all)
  have o2: "out_stream p ?s2 = out_stream p s" by (simp only: out_stream_def f2)
  have "case bindR (Buffer_append (outputBuffer cn) d) (\<lambda>ob.
       let s3 = set_conn p (cn\<lparr>outputBuffer := ob\<rparr>) ?s2
       in if \<not> Channel_isWriting ch then Channel_enableWriting E (channel cn) s3 else Inr s3) of
      Inl e \<Rightarrow> send_error E p ?s2 e
    | Inr s' \<Rightarrow> conn_ok interest p s' \<and> out_stream p s' = out_stream p ?s2 @ d \<and> wshut s' = wshut ?s2 \<and>
        (\<exists>cn'. conns s' = (conns ?s2)(p \<mapsto> cn') \<and> same_input cn cn') \<and>
        pendingFunctors s' = pendingFunctors ?s2 \<and> threadId s' = threadId ?s2"
    by (rule append_stage [OF doc f2(1)]) (use f2(2-4) cn t d in simp_all)
  then show ?thesis unfolding o2 p2 f2 e2 Let_def .
qed

definition lost :: "write_result \<Rightarrow> bool" where
  "lost w \<longleftrightarrow> w = WriteError EPIPE \<or> w = WriteError ECONNRESET"

lemma sendInLoop_ok:
  assumes doc: "epoll_documented (epoll_ctl E) interest" and ok: "conn_ok interest p s" and t: "threadId s = tid E"
    and w: "write_ok w (length data)" and d: "length data \<le> max_size" and cnp: "conns s p = Some cn"
  defines "direct \<equiv> content (outputBuffer cn) = []"
  shows "case TcpConnection_sendInLoop E p data w s of
      Inl e \<Rightarrow> send_error E p s e
    | Inr s' \<Rightarrow> conn_ok interest p s' \<and>
        out_stream p s' = out_stream p s @ (if direct \<and> lost w then [] else data) \<and> wshut s' = wshut s \<and>
        (\<exists>cn'. conns s' = (conns s)(p \<mapsto> cn') \<and> same_input cn cn') \<and> threadId s' = threadId s \<and>
        pendingFunctors s' = pendingFunctors s @
          (if direct \<and> w = Wrote (length data) \<and> hasWriteComplete cn then [WriteComplete p] else []) @
          (if direct then case w of Wrote n \<Rightarrow> high_water p cn (length data - n)
                          | WriteError e \<Rightarrow> if lost w then [] else high_water p cn (length data)
           else high_water p cn (length data))"
proof -
  from ok obtain ch where inv: "Poller_inv interest s" and cn: "conns s p = Some cn" "chan s (channel cn) = Some ch"
    "chan_fd ch = socket_fd cn" "Buffer_inv (outputBuffer cn)" "state cn = kConnected \<or> state cn = kDisconnecting"
    "Channel_isWriting ch \<longleftrightarrow> content (outputBuffer cn) \<noteq> []"
    using cnp by (auto elim: conn_okE)
  have st: "state cn \<noteq> kDisconnected" using cn(5) by auto
  have dir: "(\<not> Channel_isWriting ch \<and> Buffer_readableBytes (outputBuffer cn) = 0) = direct"
    using cn(6) readable_content [OF cn(4)] by (simp add: direct_def)
  have hw0: "high_water p cn 0 = []" by (simp add: high_water_def)
  have self: "conns s = (conns s)(p \<mapsto> cn)" using cnp by (simp add: fun_upd_idem)
  note send = TcpConnection_sendInLoop_def [of E p data w s] EventLoop_assertInLoopThread_def
  note tail = send_tail [OF doc _ _ _ cn(3-6)]
  have eqw: "TcpConnection_sendInLoop E p data w s = (if data = [] then Inr s else
        (let oldLen = Buffer_readableBytes (outputBuffer cn);
              s2 = (if szadd oldLen (length data) \<ge> highWaterMark cn \<and> oldLen < highWaterMark cn \<and> hasHighWaterMark cn
                    then EventLoop_queueInLoop E (HighWater p (szadd oldLen (length data))) s else s)
          in bindR (Buffer_append (outputBuffer cn) data) (\<lambda>ob.
               let s3 = set_conn p (cn\<lparr>outputBuffer := ob\<rparr>) s2
               in if \<not> Channel_isWriting ch then Channel_enableWriting E (channel cn) s3 else Inr s3)))"
    if "\<not> direct \<or> (\<exists>e. w = WriteError e \<and> \<not> lost w)"
    using that t cn(1,2) st unfolding send lost_def
    by (cases w) (auto simp: dir Let_def simp del: readable_eq)
  consider (whole) "\<not> direct \<or> (\<exists>e. w = WriteError e \<and> \<not> lost w)" | (lost) "direct" "lost w"
    | (wrote) n where "direct" "w = Wrote n"
    by (cases w) (auto simp: lost_def)
  then show ?thesis
  proof cases
    case whole
    then have sel: "(if direct \<and> lost w then [] else data) = data"
      "(if direct \<and> w = Wrote (length data) \<and> hasWriteComplete cn then [WriteComplete p] else []) = []"
      "(if direct then case w of Wrote n \<Rightarrow> high_water p cn (length data - n)
          | WriteError e \<Rightarrow> if lost w then [] else high_water p cn (length data)
        else high_water p cn (length data)) = high_water p cn (length data)" by auto
    show ?thesis
    proof (cases "data = []")
      case True
      with eqw [OF whole] have "TcpConnection_sendInLoop E p data w s = Inr s" by simp
      moreover have "\<exists>cn'. conns s = (conns s)(p \<mapsto> cn') \<and> same_input cn cn'" by (rule exI [of _ cn], rule conjI [OF self]) simp
      ultimately show ?thesis unfolding sel using ok True hw0 by simp
    next
      case False
      with tail [OF inv cn(1,2) t False d] show ?thesis
        unfolding sel eqw [OF whole] by (simp split: sum.splits)
    qed
  next
    case lost
    then obtain e where "w = WriteError e" "e \<noteq> EWOULDBLOCK" "e = EPIPE \<or> e = ECONNRESET" by (auto simp: lost_def)
    with lost t cn(1,2) st have "TcpConnection_sendInLoop E p data w s = Inr s"
      unfolding send by (auto simp: dir Let_def simp del: readable_eq)
    moreover have "\<exists>cn'. conns s = (conns s)(p \<mapsto> cn') \<and> same_input cn cn'" by (rule exI [of _ cn], rule conjI [OF self]) simp
    ultimately show ?thesis using lost ok \<open>w = WriteError e\<close> by simp
  next
    case (wrote n)
    have n: "n \<le> length data" using w wrote(2) by (simp add: write_ok_def)
    have sz: "szsub (length data) n = length data - n"
      using n d max_size_less by (intro szsub_no_wrap) simp_all
    let ?s1 = "s\<lparr>wire := (wire s)(socket_fd cn := wire s (socket_fd cn) @ take n data)\<rparr>"
    have f1: "Poller_inv interest ?s1" "conns ?s1 p = Some cn" "chan ?s1 (channel cn) = Some ch" "threadId ?s1 = tid E"
      using inv cn t by simp_all
    have empty: "content (outputBuffer cn) = []" using wrote(1) by (simp add: direct_def)
    have o1: "out_stream p ?s1 = out_stream p s @ take n data" using cnp empty by (simp add: out_stream_def)
    show ?thesis
    proof (cases "n = length data")
      case True
      let ?s' = "if hasWriteComplete cn then EventLoop_queueInLoop E (WriteComplete p) ?s1 else ?s1"
      have e: "TcpConnection_sendInLoop E p data w s = Inr ?s'"
        using wrote t cn(1-3) st sz True unfolding send by (auto simp: dir Let_def simp del: readable_eq)
      have "conn_ok interest p ?s'"
        by (rule conn_okI [of _ _ _ cn ch]) (use cn f1 in simp_all)
      moreover have "out_stream p ?s' = out_stream p s @ data" using cnp empty True by (simp add: out_stream_def)
      moreover have "\<exists>cn'. conns ?s' = (conns s)(p \<mapsto> cn') \<and> same_input cn cn'" using self by auto
      ultimately show ?thesis using e wrote True hw0 by (simp add: lost_def)
    next
      case False
      let ?d = "drop n data"
      have d': "?d \<noteq> []" "length ?d \<le> max_size" using False n d by simp_all
      have ld: "length ?d = length data - n" by simp
      have e: "TcpConnection_sendInLoop E p data w s = (let oldLen = Buffer_readableBytes (outputBuffer cn);
              s2 = (if szadd oldLen (length ?d) \<ge> highWaterMark cn \<and> oldLen < highWaterMark cn \<and> hasHighWaterMark cn
                    then EventLoop_queueInLoop E (HighWater p (szadd oldLen (length ?d))) ?s1 else ?s1)
          in bindR (Buffer_append (outputBuffer cn) ?d) (\<lambda>ob.
               let s3 = set_conn p (cn\<lparr>outputBuffer := ob\<rparr>) s2
               in if \<not> Channel_isWriting ch then Channel_enableWriting E (channel cn) s3 else Inr s3))"
        using wrote t cn(1-3) st sz False n unfolding send ld by (auto simp: dir Let_def simp del: readable_eq)
      have "w \<noteq> Wrote (length data)" using wrote False by simp
      moreover have "send_error E p ?s1 x = send_error E p s x" for x by (simp add: send_error_def)
      ultimately show ?thesis using tail [OF f1 d'] o1 wrote unfolding e by (simp add: lost_def split: sum.splits)
    qed
  qed
qed

text \<open>Whether a \<^verbatim>\<open>write\<close> from the output buffer empties it.\<close>

definition drains :: "write_result \<Rightarrow> byte list \<Rightarrow> bool" where
  "drains w waiting \<longleftrightarrow> waiting \<noteq> [] \<and> w = Wrote (length waiting)"

definition flushed :: "write_result \<Rightarrow> byte list \<Rightarrow> byte list" where
  "flushed w waiting = (case w of Wrote n \<Rightarrow> take n waiting | WriteError e \<Rightarrow> [])"

lemma flushed_Nil [simp]: "flushed w [] = []"
  by (simp add: flushed_def split: write_result.splits)

lemma fun_upd_same_append_Nil [simp]: "f(x := f x @ []) = f"
  by simp

lemma disableWriting_conn:
  assumes doc: "epoll_documented (epoll_ctl E) interest" and inv: "Poller_inv interest s"
    and cn: "conns s p = Some cn" "chan s (channel cn) = Some ch" "chan_fd ch = socket_fd cn" "Buffer_inv (outputBuffer cn)"
      "state cn = kConnected \<or> state cn = kDisconnecting" "content (outputBuffer cn) = []"
    and t: "threadId s = tid E"
  shows "case Channel_disableWriting E (channel cn) s of Inl e \<Rightarrow> send_error E p s e
    | Inr s' \<Rightarrow> conn_ok interest p s' \<and> conns s' = conns s \<and> wire s' = wire s \<and> wshut s' = wshut s \<and>
        pendingFunctors s' = pendingFunctors s \<and> threadId s' = threadId s \<and>
        (\<exists>ch'. chan s' (channel cn) = Some ch' \<and> \<not> Channel_isWriting ch')"
proof (cases "Channel_disableWriting E (channel cn) s")
  case (Inl e)
  then show ?thesis
    using with_events_err [OF inv cn(2) t Inl [unfolded Channel_disableWriting_def]] cn(1,2)
    by (auto simp: send_error_def)
next
  case (Inr s')
  note w = Inr [unfolded Channel_disableWriting_def]
  from with_events_net [OF w cn(2)] obtain ch' where f: "chan s' = (chan s)(channel cn \<mapsto> ch')"
    "events ch' = events ch AND NOT kWriteEvent" "chan_fd ch' = chan_fd ch" "conns s' = conns s" "wire s' = wire s"
    "wshut s' = wshut s" "pendingFunctors s' = pendingFunctors s" "threadId s' = threadId s" by blast
  have nw: "\<not> Channel_isWriting ch'" using f(2) isWriting_events(2) by (simp add: Channel_isWriting_def)
  have "conn_ok interest p s'"
    by (rule conn_okI [of _ _ _ cn ch']) (use f cn nw Poller_inv_with_events [OF doc inv w] in auto)
  with Inr f nw show ?thesis by simp
qed

lemma conn_ok_queue: "conn_ok interest p (EventLoop_queueInLoop E f s) = conn_ok interest p s"
  by (simp add: conn_ok_def)

lemma conn_ok_wshut: "conn_ok interest p (s\<lparr>wshut := x\<rparr>) = conn_ok interest p s"
proof -
  have "Poller_inv interest (s\<lparr>wshut := x\<rparr>) = Poller_inv interest s" by (rule Poller_inv_cong) simp_all
  then show ?thesis by (simp add: conn_ok_def)
qed

lemma handleWrite_ok:
  assumes doc: "epoll_documented (epoll_ctl E) interest" and ok: "conn_ok interest p s" and t: "threadId s = tid E"
    and cnp: "conns s p = Some cn" and w: "write_ok w (length (content (outputBuffer cn)))"
  defines "waiting \<equiv> content (outputBuffer cn)"
  shows "case TcpConnection_handleWrite E p w s of
      Inl e \<Rightarrow> send_error E p s e
    | Inr s' \<Rightarrow> conn_ok interest p s' \<and> out_stream p s' = out_stream p s \<and>
        (\<exists>cn'. conns s' = (conns s)(p \<mapsto> cn') \<and> same_input cn cn') \<and> threadId s' = threadId s \<and>
        wire s' = (wire s)(socket_fd cn := wire s (socket_fd cn) @ flushed w waiting) \<and>
        wshut s' = (if drains w waiting \<and> state cn = kDisconnecting then insert (socket_fd cn) (wshut s) else wshut s) \<and>
        pendingFunctors s' = pendingFunctors s @ (if drains w waiting \<and> hasWriteComplete cn then [WriteComplete p] else [])"
proof -
  from ok obtain ch where inv: "Poller_inv interest s" and cn: "conns s p = Some cn" "chan s (channel cn) = Some ch"
    "chan_fd ch = socket_fd cn" "Buffer_inv (outputBuffer cn)" "state cn = kConnected \<or> state cn = kDisconnecting"
    "Channel_isWriting ch \<longleftrightarrow> content (outputBuffer cn) \<noteq> []"
    using cnp by (auto elim: conn_okE)
  have self: "\<exists>cn'. conns s = (conns s)(p \<mapsto> cn') \<and> same_input cn cn'" by (rule exI [of _ cn]) (simp add: fun_upd_idem cnp)
  have skip: ?thesis if "TcpConnection_handleWrite E p w s = Inr s" "flushed w waiting = []" "\<not> drains w waiting"
    using that ok self by simp
  show ?thesis
  proof (cases "waiting = []")
    case True
    then show ?thesis using cn by (intro skip) (simp_all add: TcpConnection_handleWrite_def waiting_def drains_def)
  next
    case False
    show ?thesis
    proof (cases "\<exists>n. w = Wrote n \<and> 0 < n")
      case nw: False
      show ?thesis
        by (rule skip) (use cn nw False in \<open>auto simp: TcpConnection_handleWrite_def waiting_def drains_def
            flushed_def split: write_result.splits\<close>)
    next
      case True
      then obtain n where n: "w = Wrote n" "0 < n" by blast
      have le: "n \<le> length (content (outputBuffer cn))" using w n by (simp add: write_ok_def)
      from retrieve_ok [OF cn(4) le] obtain ob where ob: "Buffer_retrieve (outputBuffer cn) n = Inr ob"
        "Buffer_inv ob" "content ob = drop n waiting" by (auto simp: waiting_def)
      let ?cn = "cn\<lparr>outputBuffer := ob\<rparr>"
      let ?s2 = "set_conn p ?cn (s\<lparr>wire := (wire s)(socket_fd cn := wire s (socket_fd cn) @ take n waiting)\<rparr>)"
      have run: "TcpConnection_handleWrite E p w s = (if Buffer_readableBytes ob = 0
                   then bindR (Channel_disableWriting E (channel cn) ?s2) (\<lambda>s3.
                        let s4 = (if hasWriteComplete cn then EventLoop_queueInLoop E (WriteComplete p) s3 else s3) in
                        if state cn = kDisconnecting then TcpConnection_shutdownInLoop E p s4 else Inr s4)
                   else Inr ?s2)"
        using cn n ob(1) False pending_content [OF cn(4)]
        by (simp add: TcpConnection_handleWrite_def waiting_def Let_def del: readable_eq)
      show ?thesis
      proof (cases "n = length waiting")
        case full: False
        then have "content ob \<noteq> []" using ob(3) le by (simp add: waiting_def)
        then have "Buffer_readableBytes ob \<noteq> 0" using readable_content [OF ob(2)] by simp
        then have "TcpConnection_handleWrite E p w s = Inr ?s2" using run by simp
        moreover have "conn_ok interest p ?s2"
          by (rule conn_okI [of _ _ _ ?cn ch]) (use cn ob \<open>content ob \<noteq> []\<close> False inv in \<open>simp_all add: waiting_def\<close>)
        moreover have "\<not> drains w waiting" using full n by (simp add: drains_def)
        moreover have "out_stream p ?s2 = out_stream p s" using cnp ob(3) by (simp add: out_stream_def waiting_def)
        moreover have "\<exists>cn'. conns ?s2 = (conns s)(p \<mapsto> cn') \<and> same_input cn cn'" by auto
        ultimately show ?thesis using n by (simp add: flushed_def)
      next
        case full: True
        then have c: "content ob = []" using ob(3) by simp
        then have rb: "Buffer_readableBytes ob = 0" using readable_content [OF ob(2)] by simp
        have d: "drains w waiting" "flushed w waiting = take n waiting" using n full False by (simp_all add: drains_def flushed_def)
        have dis: "case Channel_disableWriting E (channel ?cn) ?s2 of Inl e \<Rightarrow> send_error E p ?s2 e
          | Inr s' \<Rightarrow> conn_ok interest p s' \<and> conns s' = conns ?s2 \<and> wire s' = wire ?s2 \<and> wshut s' = wshut ?s2 \<and>
              pendingFunctors s' = pendingFunctors ?s2 \<and> threadId s' = threadId ?s2 \<and>
              (\<exists>ch'. chan s' (channel ?cn) = Some ch' \<and> \<not> Channel_isWriting ch')"
          by (rule disableWriting_conn [OF doc, where ch = ch]) (use cn ob(2) c inv t in simp_all)
        have err: "send_error E p ?s2 e = send_error E p s e" for e
          by (rule send_error_cong [of _ _ ?cn _ cn]) (simp_all add: cnp)
        show ?thesis
        proof (cases "Channel_disableWriting E (channel cn) ?s2")
          case (Inl e)
          with dis err run rb show ?thesis by simp
        next
          case (Inr s3)
          with dis obtain ch' where s3: "conn_ok interest p s3" "conns s3 = conns ?s2" "wire s3 = wire ?s2"
            "wshut s3 = wshut ?s2" "pendingFunctors s3 = pendingFunctors ?s2" "threadId s3 = threadId ?s2"
            "chan s3 (channel cn) = Some ch'" "\<not> Channel_isWriting ch'" by auto
          let ?s4 = "if hasWriteComplete cn then EventLoop_queueInLoop E (WriteComplete p) s3 else s3"
          let ?s5 = "if state cn = kDisconnecting then ?s4\<lparr>wshut := insert (socket_fd cn) (wshut ?s4)\<rparr> else ?s4"
          have "TcpConnection_handleWrite E p w s = Inr ?s5"
            using run rb Inr s3 t
            by (simp add: Let_def TcpConnection_shutdownInLoop_def EventLoop_assertInLoopThread_def)
          moreover have "conn_ok interest p ?s5" using s3(1) by (simp add: conn_ok_queue conn_ok_wshut)
          moreover have "out_stream p ?s5 = out_stream p s"
            using s3(2,3) cnp ob(3) by (simp add: out_stream_def waiting_def)
          moreover have "\<exists>cn'. conns ?s5 = (conns s)(p \<mapsto> cn') \<and> same_input cn cn'" using s3(2) by auto
          ultimately show ?thesis using d s3 by simp
        qed
      qed
    qed
  qed
qed

section \<open>Shutting down, and reading on and off\<close>

lemma conn_ok_state:
  assumes ok: "conn_ok interest p s" and cn: "conns s p = Some cn" and st: "st = kConnected \<or> st = kDisconnecting"
  shows "conn_ok interest p (set_conn p (cn\<lparr>state := st\<rparr>) s)" and
    "out_stream p (set_conn p (cn\<lparr>state := st\<rparr>) s) = out_stream p s"
  using ok cn st by (auto simp: conn_ok_def out_stream_def)

lemma out_stream_cong: "conns u = conns s \<Longrightarrow> wire u = wire s \<Longrightarrow> out_stream p u = out_stream p s"
  by (cases "conns s p") (simp_all add: out_stream_def)

lemma out_stream_frame [simp]:
  "out_stream p (s\<lparr>wshut := x\<rparr>) = out_stream p s"
  "out_stream p (EventLoop_queueInLoop E f s) = out_stream p s"
  by (rule out_stream_cong; simp)+

lemma shutdownInLoop_ok:
  assumes ok: "conn_ok interest p s" and t: "threadId s = tid E" and cn: "conns s p = Some cn"
  shows "TcpConnection_shutdownInLoop E p s = Inr (if content (outputBuffer cn) = []
    then s\<lparr>wshut := insert (socket_fd cn) (wshut s)\<rparr> else s)"
proof -
  from ok cn obtain ch where "chan s (channel cn) = Some ch" "Channel_isWriting ch \<longleftrightarrow> content (outputBuffer cn) \<noteq> []"
    by (auto elim: conn_okE)
  with t cn show ?thesis by (simp add: TcpConnection_shutdownInLoop_def EventLoop_assertInLoopThread_def)
qed

lemma reading_change_ok:
  assumes doc: "epoll_documented (epoll_ctl E) interest" and ok: "conn_ok interest p s" and cn: "conns s p = Some cn"
    and s': "with_events E (channel cn) g s = Inr s'" and g: "\<And>e. g e AND kWriteEvent = e AND kWriteEvent"
  shows "conn_ok interest p (set_conn p (cn\<lparr>reading := b\<rparr>) s')" and "conns s' = conns s" and "wire s' = wire s"
    and "wshut s' = wshut s" and "threadId s' = threadId s"
proof -
  from ok cn obtain ch where inv: "Poller_inv interest s" and ch: "chan s (channel cn) = Some ch" "chan_fd ch = socket_fd cn"
    "Buffer_inv (outputBuffer cn)" "state cn = kConnected \<or> state cn = kDisconnecting"
    "Channel_isWriting ch \<longleftrightarrow> content (outputBuffer cn) \<noteq> []" by (auto elim: conn_okE)
  from with_events_net [OF s' ch(1)] obtain ch' where f: "chan s' = (chan s)(channel cn \<mapsto> ch')" "events ch' = g (events ch)"
    "chan_fd ch' = chan_fd ch" "conns s' = conns s" "wire s' = wire s" "wshut s' = wshut s" "threadId s' = threadId s" by blast
  then show "conns s' = conns s" "wire s' = wire s" "wshut s' = wshut s" "threadId s' = threadId s" by blast+
  have "Channel_isWriting ch' = Channel_isWriting ch" using f(2) g by (simp add: Channel_isWriting_def)
  then show "conn_ok interest p (set_conn p (cn\<lparr>reading := b\<rparr>) s')"
    using f ch Poller_inv_with_events [OF doc inv s']
    by (intro conn_okI [of _ _ _ "cn\<lparr>reading := b\<rparr>" ch']) simp_all
qed

section \<open>Histories of an open connection\<close>

text \<open>
  What happens to an open connection on its loop: sends from the loop's thread and queued ones from
  others, writability, shutdown, forced close up to the queued functor, reading switched off and on.
  The list collects the messages that were taken: not those of a connection that is no longer
  connected, nor one whose direct write found the peer gone.
\<close>

definition accepted :: "nat \<Rightarrow> ('k, 'z) Net_scheme \<Rightarrow> byte list \<Rightarrow> write_result \<Rightarrow> byte list" where
  "accepted p s data w = (case conns s p of None \<Rightarrow> []
     | Some cn \<Rightarrow> if content (outputBuffer cn) = [] \<and> lost w then [] else data)"

definition is_connected :: "nat \<Rightarrow> ('k, 'z) Net_scheme \<Rightarrow> bool" where
  "is_connected p s \<longleftrightarrow> map_option state (conns s p) = Some kConnected"

definition waiting_bytes :: "nat \<Rightarrow> ('k, 'z) Net_scheme \<Rightarrow> byte list" where
  "waiting_bytes p s = (case conns s p of None \<Rightarrow> [] | Some cn \<Rightarrow> content (outputBuffer cn))"

inductive conn_history :: "('k, 'e) env_scheme \<Rightarrow> nat \<Rightarrow> ('k, 'z) Net_scheme \<Rightarrow> byte list \<Rightarrow> ('k, 'z) Net_scheme \<Rightarrow> bool"
  for E :: "('k, 'e) env_scheme" and p :: nat and s0 :: "('k, 'z) Net_scheme" where
  start: "conn_history E p s0 [] s0"
| send: "conn_history E p s0 acc s \<Longrightarrow> write_ok w (length d) \<Longrightarrow> length d \<le> max_size \<Longrightarrow>
    TcpConnection_send E p d w s = Inr s' \<Longrightarrow>
    conn_history E p s0 (acc @ (if is_connected p s then accepted p s d w else [])) s'"
| queued: "conn_history E p s0 acc s \<Longrightarrow> write_ok w (length d) \<Longrightarrow> length d \<le> max_size \<Longrightarrow>
    TcpConnection_sendInLoop E p d w s = Inr s' \<Longrightarrow> conn_history E p s0 (acc @ accepted p s d w) s'"
| writable: "conn_history E p s0 acc s \<Longrightarrow> write_ok w (length (waiting_bytes p s)) \<Longrightarrow>
    TcpConnection_handleWrite E p w s = Inr s' \<Longrightarrow> conn_history E p s0 acc s'"
| shutdown: "conn_history E p s0 acc s \<Longrightarrow> TcpConnection_shutdown E p s = Inr s' \<Longrightarrow> conn_history E p s0 acc s'"
| shutdownQueued: "conn_history E p s0 acc s \<Longrightarrow> TcpConnection_shutdownInLoop E p s = Inr s' \<Longrightarrow> conn_history E p s0 acc s'"
| forceClose: "conn_history E p s0 acc s \<Longrightarrow> TcpConnection_forceClose E p s = Inr s' \<Longrightarrow> conn_history E p s0 acc s'"
| startRead: "conn_history E p s0 acc s \<Longrightarrow> TcpConnection_startRead E p s = Inr s' \<Longrightarrow> conn_history E p s0 acc s'"
| stopRead: "conn_history E p s0 acc s \<Longrightarrow> TcpConnection_stopRead E p s = Inr s' \<Longrightarrow> conn_history E p s0 acc s'"

lemma conn_ok_conns: "conn_ok interest p s \<Longrightarrow> \<exists>cn. conns s p = Some cn \<and> (state cn = kConnected \<or> state cn = kDisconnecting)"
  by (auto elim: conn_okE)

lemma shutdown_step:
  assumes "conn_ok interest p s" and "threadId s = tid E" and "TcpConnection_shutdownInLoop E p s = Inr s'"
  shows "conn_ok interest p s' \<and> out_stream p s' = out_stream p s \<and> threadId s' = threadId s"
proof -
  from conn_ok_conns [OF assms(1)] obtain cn where cn: "conns s p = Some cn" by blast
  from shutdownInLoop_ok [OF assms(1,2) cn] assms show ?thesis
    by (auto simp: conn_ok_wshut split: if_splits)
qed

lemma send_step:
  assumes doc: "epoll_documented (epoll_ctl E) interest" and ok: "conn_ok interest p s" and t: "threadId s = tid E"
    and w: "write_ok w (length d)" "length d \<le> max_size" and s': "TcpConnection_sendInLoop E p d w s = Inr s'"
  shows "conn_ok interest p s' \<and> out_stream p s' = out_stream p s @ accepted p s d w \<and> threadId s' = threadId s"
proof -
  from conn_ok_conns [OF ok] obtain cn where cn: "conns s p = Some cn" by blast
  from sendInLoop_ok [OF doc ok t w cn] s' cn show ?thesis by (simp add: accepted_def)
qed

lemma read_step:
  assumes doc: "epoll_documented (epoll_ctl E) interest" and ok: "conn_ok interest p s" and t: "threadId s = tid E"
    and s': "TcpConnection_startRead E p s = Inr s' \<or> TcpConnection_stopRead E p s = Inr s'"
  shows "conn_ok interest p s' \<and> out_stream p s' = out_stream p s \<and> threadId s' = threadId s"
proof -
  from conn_ok_conns [OF ok] obtain cn where cn: "conns s p = Some cn" by blast
  from ok cn obtain ch where ch: "chan s (channel cn) = Some ch" by (auto elim: conn_okE)
  from s' consider "s' = s"
    | s1 where "Channel_enableReading E (channel cn) s = Inr s1" "s' = set_conn p (cn\<lparr>reading := True\<rparr>) s1"
    | s1 where "Channel_disableReading E (channel cn) s = Inr s1" "s' = set_conn p (cn\<lparr>reading := False\<rparr>) s1"
    using cn ch t by (auto simp: TcpConnection_startRead_def TcpConnection_startReadInLoop_def TcpConnection_stopRead_def
        TcpConnection_stopReadInLoop_def EventLoop_isInLoopThread_def split: if_splits)
  then show ?thesis
  proof cases
    case 1
    then show ?thesis using ok by simp
  next
    case 2
    note r = reading_change_ok [OF doc ok cn 2(1) [unfolded Channel_enableReading_def] isWriting_events(3)]
    from r(1) [of True] r(2-5) show ?thesis unfolding 2(2) using cn by (simp add: out_stream_def)
  next
    case 3
    note r = reading_change_ok [OF doc ok cn 3(1) [unfolded Channel_disableReading_def] isWriting_events(4)]
    from r(1) [of False] r(2-5) show ?thesis unfolding 3(2) using cn by (simp add: out_stream_def)
  qed
qed

lemma conn_history_ok:
  assumes doc: "epoll_documented (epoll_ctl E) interest" and ok: "conn_ok interest p s0" and t: "threadId s0 = tid E"
    and h: "conn_history E p s0 acc s"
  shows "conn_ok interest p s \<and> out_stream p s = out_stream p s0 @ acc \<and> threadId s = tid E"
  using h
proof induction
  case start
  then show ?case using ok t by simp
next
  case (send acc s w d s')
  then have ok: "conn_ok interest p s" and t: "threadId s = tid E" by simp_all
  from conn_ok_conns [OF ok] obtain cn where cn: "conns s p = Some cn" by blast
  show ?case
  proof (cases "state cn = kConnected")
    case True
    with send.hyps(4) cn t have "TcpConnection_sendInLoop E p d w s = Inr s'"
      by (simp add: TcpConnection_send_def EventLoop_isInLoopThread_def)
    from send_step [OF doc ok t send.hyps(2,3) this] send.IH True cn show ?thesis by (simp add: is_connected_def)
  next
    case False
    with send.hyps(4) cn have "s' = s" by (simp add: TcpConnection_send_def)
    with send.IH False cn show ?thesis by (simp add: is_connected_def)
  qed
next
  case (queued acc s w d s')
  then show ?case using send_step [OF doc _ _ queued.hyps(2,3,4)] by simp
next
  case (writable acc s w s')
  then have ok: "conn_ok interest p s" and t: "threadId s = tid E" by simp_all
  from conn_ok_conns [OF ok] obtain cn where cn: "conns s p = Some cn" by blast
  with writable.hyps(2) have "write_ok w (length (content (outputBuffer cn)))" by (simp add: waiting_bytes_def)
  from handleWrite_ok [OF doc ok t cn this] writable.hyps(3) writable.IH show ?case by simp
next
  case (shutdown acc s s')
  then have ok: "conn_ok interest p s" and t: "threadId s = tid E" by simp_all
  from conn_ok_conns [OF ok] obtain cn where cn: "conns s p = Some cn" by blast
  let ?s = "set_conn p (cn\<lparr>state := kDisconnecting\<rparr>) s"
  show ?case
  proof (cases "state cn = kConnected")
    case True
    then have "TcpConnection_shutdownInLoop E p ?s = Inr s'"
      using shutdown.hyps(2) cn t by (simp add: TcpConnection_shutdown_def setState_def EventLoop_isInLoopThread_def)
    with shutdown_step [of interest p ?s E s'] conn_ok_state [OF ok cn, of kDisconnecting] t shutdown.IH
    show ?thesis by simp
  next
    case False
    then have "s' = s" using shutdown.hyps(2) cn by (simp add: TcpConnection_shutdown_def)
    with shutdown.IH show ?thesis by simp
  qed
next
  case (shutdownQueued acc s s')
  then show ?case using shutdown_step [of interest p s E s'] by simp
next
  case (forceClose acc s s')
  then have ok: "conn_ok interest p s" and t: "threadId s = tid E" by simp_all
  from conn_ok_conns [OF ok] obtain cn where cn: "conns s p = Some cn" "state cn = kConnected \<or> state cn = kDisconnecting" by blast
  then have "s' = EventLoop_queueInLoop E (ForceCloseInLoop p) (set_conn p (cn\<lparr>state := kDisconnecting\<rparr>) s)"
    using forceClose.hyps(2) by (auto simp: TcpConnection_forceClose_def setState_def)
  with conn_ok_state [OF ok cn(1), of kDisconnecting] forceClose.IH show ?case
    by (simp add: conn_ok_queue)
next
  case (startRead acc s s')
  then show ?case using read_step [OF doc, of p s s'] by simp
next
  case (stopRead acc s s')
  then show ?case using read_step [OF doc, of p s s'] by simp
qed

section \<open>The contract of an output stream\<close>

definition tcp_out_ok :: "('k \<Rightarrow> int \<rightharpoonup> ev \<times> nat) \<Rightarrow> ('k, 'e) env_scheme \<Rightarrow> nat \<Rightarrow> ('k, 'z) Net_scheme \<Rightarrow> bool" where
  "tcp_out_ok interest E p s \<longleftrightarrow> epoll_documented (epoll_ctl E) interest \<and> conn_ok interest p s \<and> threadId s = tid E \<and>
     is_connected p s"

definition tcp_can_send :: "byte list \<Rightarrow> write_result \<Rightarrow> ('k, 'z) Net_scheme \<Rightarrow> bool" where
  "tcp_can_send d w s \<longleftrightarrow> write_ok w (length d) \<and> \<not> lost w \<and> length d \<le> max_size"

definition tcp_can_flush :: "nat \<Rightarrow> write_result \<Rightarrow> ('k, 'z) Net_scheme \<Rightarrow> bool" where
  "tcp_can_flush p w s \<longleftrightarrow> write_ok w (length (waiting_bytes p s))"

lemma tcp_out_send:
  assumes "tcp_out_ok interest E p s" and "tcp_can_send d w s" and "TcpConnection_send E p d w s = Inr t"
  shows "tcp_out_ok interest E p t \<and> out_stream p t = out_stream p s @ d"
proof -
  have doc: "epoll_documented (epoll_ctl E) interest" and ok: "conn_ok interest p s" and th: "threadId s = tid E"
    and w: "write_ok w (length d)" "length d \<le> max_size" "\<not> lost w" using assms(1,2) by (simp_all add: tcp_out_ok_def tcp_can_send_def)
  from assms(1) obtain cn where cn: "conns s p = Some cn" "state cn = kConnected" by (auto simp: tcp_out_ok_def is_connected_def)
  have "TcpConnection_sendInLoop E p d w s = Inr t" using assms(3) cn th by (simp add: TcpConnection_send_def EventLoop_isInLoopThread_def)
  with sendInLoop_ok [OF doc ok th w(1,2) cn(1)] doc th cn(2) w(3) show ?thesis by (auto simp: tcp_out_ok_def is_connected_def)
qed

lemma tcp_out_flush:
  assumes "tcp_out_ok interest E p s" and "tcp_can_flush p w s" and "TcpConnection_handleWrite E p w s = Inr t"
  shows "tcp_out_ok interest E p t \<and> out_stream p t = out_stream p s"
proof -
  have doc: "epoll_documented (epoll_ctl E) interest" and ok: "conn_ok interest p s" and th: "threadId s = tid E"
    using assms(1) by (simp_all add: tcp_out_ok_def)
  from assms(1) obtain cn where cn: "conns s p = Some cn" "state cn = kConnected" by (auto simp: tcp_out_ok_def is_connected_def)
  with assms(2) have "write_ok w (length (content (outputBuffer cn)))" by (simp add: tcp_can_flush_def waiting_bytes_def)
  from handleWrite_ok [OF doc ok th cn(1) this] assms(3) doc th cn(2) show ?thesis by (auto simp: tcp_out_ok_def is_connected_def)
qed

interpretation tcp_out: out_connection "tcp_out_ok interest E p" "out_stream p" "TcpConnection_send E p" "TcpConnection_handleWrite E p"
  tcp_can_send "tcp_can_flush p" for interest E p
  by unfold_locales (rule tcp_out_send, assumption+, rule tcp_out_flush, assumption+)

text \<open>A connected connection at address 1 on descriptor 7, its channel at address 3.\<close>

definition empty_buffer :: Buffer where
  "empty_buffer = \<lparr>buffer = [0, 0, 0, 0, 0, 0, 0, 0], readerIndex = 8, writerIndex = 8\<rparr>"

definition sample_net :: "StateE \<Rightarrow> byte list \<Rightarrow> (int \<rightharpoonup> ev \<times> nat) Net" where
  "sample_net st waiting = Channel.EventLoop.extend ((EventLoop_members 1
       [7 \<mapsto> (kReadEvent OR (if waiting = [] then 0 else kWriteEvent) OR EPOLLET, 3)])\<lparr>
         chan := [3 \<mapsto> (Channel_new 7)\<lparr>events := kReadEvent OR (if waiting = [] then 0 else kWriteEvent),
                    index := 1, addedToLoop := True\<rparr>],
         channels := [7 \<mapsto> 3]\<rparr>)
     (Net.fields [1 \<mapsto> \<lparr>conn_name = ''c'', conn_loop = 0, state = st, reading = True, socket_fd = 7, channel = 3,
        hasWriteComplete = True, hasHighWaterMark = True, highWaterMark = 4,
        inputBuffer = empty_buffer, outputBuffer = \<lparr>buffer = [0, 0, 0, 0, 0, 0, 0, 0] @ waiting,
           readerIndex = 8, writerIndex = 8 + length waiting\<rparr>\<rparr>] Map.empty (\<lambda>f. []) {} [])"

lemmas sample_net_defs = sample_net_def Channel.EventLoop.defs Net.defs EventLoop_members_def

lemma read_not_write: "kReadEvent AND kWriteEvent = 0" "kWriteEvent \<noteq> 0"
  by (simp_all add: kReadEvent_def kWriteEvent_def epoll_masks)

lemma sample_net_ok:
  assumes "st = kConnected \<or> st = kDisconnecting" and "length waiting < 1000"
  shows "conn_ok (\<lambda>m. m) 1 (sample_net st waiting)"
proof (rule conn_okI [where ch = "(Channel_new 7)\<lparr>events := kReadEvent OR (if waiting = [] then 0 else kWriteEvent),
      index := 1, addedToLoop := True\<rparr>"])
  show "Poller_inv (\<lambda>m. m) (sample_net st waiting)"
    by (rule Poller_invI) (auto simp: sample_net_defs reg_ok_def Channel_new_def or.assoc split: if_splits)
qed (use assms in \<open>auto simp: sample_net_defs Channel_new_def Buffer_inv_def kCheapPrepend_def max_size_def
    Channel_isWriting_def content_def seg_def read_not_write\<close>)

text \<open>
  C4: the byte stream of a connection.  However sends (from the loop's thread or queued by others),
  partial, failed and complete writes, writability events, shutdown, forced close and switching reading
  follow each other, the bytes the kernel has taken followed by the bytes in the output buffer are
  exactly what they were at the start followed by all messages taken, in order: nothing is lost,
  repeated or reordered.  The connection asks for writability exactly while bytes wait.
\<close>

theorem TcpConnection_stream:
  assumes "epoll_documented (epoll_ctl E) interest" and "conn_ok interest p s0" and "threadId s0 = tid E"
    and "conn_history E p s0 msgs s"
  shows "\<exists>cn ch. conns s p = Some cn \<and> chan s (channel cn) = Some ch \<and>
    wire s (socket_fd cn) @ content (outputBuffer cn) = out_stream p s0 @ msgs \<and>
    (Channel_isWriting ch \<longleftrightarrow> content (outputBuffer cn) \<noteq> [])"
  using conn_history_ok [OF assms] by (auto simp: out_stream_def elim!: conn_okE)

text \<open>A message of which the kernel takes the first byte only.\<close>

lemma sample_append:
  obtains ob where "Buffer_append \<lparr>buffer = [0, 0, 0, 0, 0, 0, 0, 0], readerIndex = 8, writerIndex = 8\<rparr> [66, 67] = Inr ob"
  using buf.app_total [of "\<lparr>buffer = [0, 0, 0, 0, 0, 0, 0, 0], readerIndex = 8, writerIndex = 8\<rparr>" "[66, 67]"]
  by (auto simp: Buffer_inv_def kCheapPrepend_def max_size_def)

lemma sample_send:
  "\<exists>s1. TcpConnection_send (man_env False) 1 [65, 66, 67] (Wrote 1) (sample_net kConnected []) = Inr s1"
proof -
  obtain ob where "Buffer_append \<lparr>buffer = [0, 0, 0, 0, 0, 0, 0, 0], readerIndex = 8, writerIndex = 8\<rparr> [66, 67] = Inr ob"
    by (rule sample_append)
  moreover have "szsub (Suc (Suc (Suc 0))) (Suc 0) = 2" "szsub 8 8 = 0" by (simp_all add: szsub_def size_mod_def)
  ultimately show ?thesis
    by (simp add: TcpConnection_send_def TcpConnection_sendInLoop_def EventLoop_isInLoopThread_def
        EventLoop_assertInLoopThread_def sample_net_defs Channel_isWriting_def Channel_new_def read_not_write
        Buffer_readableBytes_def Channel_enableWriting_def poller_defs man_epoll_ctl_def set_conn_def cassert_def
        EventLoop_queueInLoop_def EventLoop_push_def EventLoop_notify_def event_mask_def Let_def)
qed

theorem TcpConnection_stream_witness:
  "\<exists>s1 cn. TcpConnection_send (man_env False) 1 [65, 66, 67] (Wrote 1) (sample_net kConnected []) = Inr s1 \<and>
     conns s1 1 = Some cn \<and> wire s1 (socket_fd cn) @ content (outputBuffer cn) = [65, 66, 67]"
proof -
  let ?s = "sample_net kConnected []" and ?E = "man_env False"
  obtain s1 where s1: "TcpConnection_send ?E 1 [65, 66, 67] (Wrote 1) ?s = Inr s1" using sample_send by blast
  have doc: "epoll_documented (epoll_ctl ?E) (\<lambda>m. m)" by (simp add: man_epoll_documented)
  have ok: "conn_ok (\<lambda>m. m) 1 ?s" by (rule sample_net_ok) simp_all
  have t: "threadId ?s = tid ?E" by (simp add: sample_net_defs)
  have "(if is_connected 1 ?s then accepted 1 ?s [65, 66, 67] (Wrote 1) else []) = [65, 66, 67]"
    by (simp add: is_connected_def accepted_def sample_net_defs lost_def)
  then have h1: "conn_history ?E 1 ?s [65, 66, 67] s1"
    using conn_history.send [OF conn_history.start _ _ s1] by (simp add: write_ok_def max_size_def)
  have "out_stream 1 ?s = []" by (simp add: out_stream_def sample_net_defs content_def)
  with TcpConnection_stream [OF doc ok t h1] s1 show ?thesis by auto
qed

section \<open>One send, one flush, shutting down\<close>

text \<open>
  C33: sending on an open connection.  When nothing waits the message goes to the kernel directly and
  only the rest is buffered; otherwise all of it is buffered.  The stream grows by the message, except
  that a direct write to a peer that is gone drops it.  The write-complete callback is queued exactly
  when the kernel took everything at once, the high-water-mark callback exactly when the waiting bytes
  cross the mark from below; the state of the connection does not change.
\<close>

theorem TcpConnection_sendInLoop_correct:
  assumes "epoll_documented (epoll_ctl E) interest" and "conn_ok interest p s" and "threadId s = tid E"
    and "write_ok w (length data)" and "length data \<le> max_size" and "conns s p = Some cn"
  shows "case TcpConnection_sendInLoop E p data w s of
      Inl e \<Rightarrow> send_error E p s e
    | Inr s' \<Rightarrow> conn_ok interest p s' \<and> map_option state (conns s' p) = Some (state cn) \<and>
        out_stream p s' = out_stream p s @ (if content (outputBuffer cn) = [] \<and> lost w then [] else data) \<and>
        pendingFunctors s' = pendingFunctors s @
          (if content (outputBuffer cn) = [] \<and> w = Wrote (length data) \<and> hasWriteComplete cn
           then [WriteComplete p] else []) @
          (if content (outputBuffer cn) = []
           then case w of Wrote n \<Rightarrow> high_water p cn (length data - n)
                | WriteError e \<Rightarrow> if lost w then [] else high_water p cn (length data)
           else high_water p cn (length data))"
  using sendInLoop_ok [OF assms] by (auto split: sum.splits)

text \<open>Three bytes, one taken by the kernel, with a high-water mark of 4 and of 2.\<close>

theorem TcpConnection_sendInLoop_correct_witness:
  "case TcpConnection_sendInLoop (man_env False) 1 [65, 66, 67] (Wrote 1) (sample_net kConnected []) of
     Inl e \<Rightarrow> send_error (man_env False) 1 (sample_net kConnected []) e
   | Inr s' \<Rightarrow> out_stream 1 s' = [65, 66, 67] \<and> pendingFunctors s' = []"
proof -
  let ?s = "sample_net kConnected []" and ?E = "man_env False"
  have doc: "epoll_documented (epoll_ctl ?E) (\<lambda>m. m)" by (simp add: man_epoll_documented)
  have ok: "conn_ok (\<lambda>m. m) 1 ?s" by (rule sample_net_ok) simp_all
  have t: "threadId ?s = tid ?E" by (simp add: sample_net_defs)
  obtain cn where cn: "conns ?s 1 = Some cn" "content (outputBuffer cn) = []" "highWaterMark cn = 4"
    by (simp add: sample_net_defs content_def)
  have o: "out_stream 1 ?s = []" "pendingFunctors ?s = []" by (simp_all add: out_stream_def sample_net_defs content_def)
  have w: "write_ok (Wrote 1) (length [65, 66, 67 :: byte])" and m: "length [65, 66, 67 :: byte] \<le> max_size"
    by (simp_all add: write_ok_def max_size_def)
  from TcpConnection_sendInLoop_correct [OF doc ok t w m cn(1)] show ?thesis
    using cn(2,3) o by (simp add: lost_def high_water_def split: sum.splits)
qed

text \<open>
  a writability event on an open connection.  The kernel gets a prefix of the waiting bytes and they
  leave the buffer, so the stream is unchanged; a failed write changes nothing.  When the last byte has
  gone, and only then, the connection stops asking for writability, the write-complete callback is
  queued, and if the connection is being shut down the write side of the socket is shut down.
\<close>

theorem TcpConnection_handleWrite_correct:
  assumes "epoll_documented (epoll_ctl E) interest" and "conn_ok interest p s" and "threadId s = tid E"
    and "conns s p = Some cn" and "write_ok w (length (content (outputBuffer cn)))"
  shows "case TcpConnection_handleWrite E p w s of
      Inl e \<Rightarrow> send_error E p s e
    | Inr s' \<Rightarrow> conn_ok interest p s' \<and> out_stream p s' = out_stream p s \<and>
        map_option state (conns s' p) = Some (state cn) \<and>
        wire s' = (wire s)(socket_fd cn := wire s (socket_fd cn) @ flushed w (content (outputBuffer cn))) \<and>
        wshut s' = (if drains w (content (outputBuffer cn)) \<and> state cn = kDisconnecting
                    then insert (socket_fd cn) (wshut s) else wshut s) \<and>
        pendingFunctors s' = pendingFunctors s @
          (if drains w (content (outputBuffer cn)) \<and> hasWriteComplete cn then [WriteComplete p] else [])"
  using handleWrite_ok [OF assms] by (auto split: sum.splits)

text \<open>The last two bytes of a connection that is being shut down.\<close>

theorem TcpConnection_handleWrite_correct_witness:
  "case TcpConnection_handleWrite (man_env False) 1 (Wrote 2) (sample_net kDisconnecting [70, 71]) of
     Inl e \<Rightarrow> send_error (man_env False) 1 (sample_net kDisconnecting [70, 71]) e
   | Inr s' \<Rightarrow> wire s' 7 = [70, 71] \<and> wshut s' = {7} \<and> pendingFunctors s' = [WriteComplete 1]"
proof -
  let ?s = "sample_net kDisconnecting [70, 71]" and ?E = "man_env False"
  have doc: "epoll_documented (epoll_ctl ?E) (\<lambda>m. m)" by (simp add: man_epoll_documented)
  have ok: "conn_ok (\<lambda>m. m) 1 ?s" by (rule sample_net_ok) simp_all
  have t: "threadId ?s = tid ?E" by (simp add: sample_net_defs)
  obtain cn where cn: "conns ?s 1 = Some cn" "content (outputBuffer cn) = [70, 71]" "socket_fd cn = 7"
    "hasWriteComplete cn" "state cn = kDisconnecting"
    by (simp add: sample_net_defs content_def seg_def)
  have o: "wire ?s = (\<lambda>f. [])" "pendingFunctors ?s = []" "wshut ?s = {}" by (simp_all add: sample_net_defs)
  have w: "write_ok (Wrote 2) (length (content (outputBuffer cn)))" using cn(2) by (simp add: write_ok_def)
  from TcpConnection_handleWrite_correct [OF doc ok t cn(1) w] show ?thesis
    using cn(2-) o by (simp add: drains_def flushed_def split: sum.splits)
qed

section \<open>The write side after a shutdown\<close>

text \<open>What a writability event leaves waiting.\<close>

lemma handleWrite_waiting:
  assumes doc: "epoll_documented (epoll_ctl E) interest" and ok: "conn_ok interest p s" and t: "threadId s = tid E"
    and cn: "conns s p = Some cn" and w: "write_ok w (length (content (outputBuffer cn)))"
    and r: "TcpConnection_handleWrite E p w s = Inr s'"
  obtains cn' where "conns s' p = Some cn'" and "same_input cn cn'" and "conn_ok interest p s'" and "threadId s' = threadId s"
    and "wire s' (socket_fd cn) @ content (outputBuffer cn') = wire s (socket_fd cn) @ content (outputBuffer cn)"
    and "content (outputBuffer cn') = [] \<longleftrightarrow> drains w (content (outputBuffer cn)) \<or> content (outputBuffer cn) = []"
    and "wshut s' = (if drains w (content (outputBuffer cn)) \<and> state cn = kDisconnecting
           then insert (socket_fd cn) (wshut s) else wshut s)"
proof -
  let ?waiting = "content (outputBuffer cn)"
  from handleWrite_ok [OF doc ok t cn w] r obtain cn' where 1: "conn_ok interest p s'" "out_stream p s' = out_stream p s"
    "conns s' = (conns s)(p \<mapsto> cn')" "same_input cn cn'" "threadId s' = threadId s"
    "wire s' = (wire s)(socket_fd cn := wire s (socket_fd cn) @ flushed w ?waiting)"
    "wshut s' = (if drains w ?waiting \<and> state cn = kDisconnecting then insert (socket_fd cn) (wshut s) else wshut s)" by auto
  have fl: "flushed w ?waiting @ content (outputBuffer cn') = ?waiting"
    using 1(2,3,4,6) cn by (simp add: out_stream_def)
  have "content (outputBuffer cn') = [] \<longleftrightarrow> drains w ?waiting \<or> ?waiting = []"
    using fl w by (cases w) (auto simp: flushed_def drains_def write_ok_def)
  with that 1 fl show thesis by auto
qed

text \<open>Sending nothing, or to a peer that is gone, leaves the connection and the wire as they are.\<close>

lemma sendInLoop_nothing:
  assumes ok: "conn_ok interest p s" and t: "threadId s = tid E" and cn: "conns s p = Some cn"
    and w: "write_ok w (length d)" and a: "accepted p s d w = []" and r: "TcpConnection_sendInLoop E p d w s = Inr s'"
  shows "conns s' = conns s \<and> wire s' = wire s"
proof -
  from ok cn obtain ch where ch: "chan s (channel cn) = Some ch" "Buffer_inv (outputBuffer cn)"
    "state cn = kConnected \<or> state cn = kDisconnecting"
    "Channel_isWriting ch \<longleftrightarrow> content (outputBuffer cn) \<noteq> []" by (auto elim: conn_okE)
  have e: "Buffer_readableBytes (outputBuffer cn) = 0 \<longleftrightarrow> content (outputBuffer cn) = []"
    using readable_content [OF ch(2)] by simp
  from a cn have "d = [] \<or> content (outputBuffer cn) = [] \<and> lost w" by (auto simp: accepted_def split: if_splits)
  with r t cn ch w e show ?thesis
    by (cases w) (auto simp: TcpConnection_sendInLoop_def EventLoop_assertInLoopThread_def cassert_def write_ok_def
        szsub_def lost_def Let_def split: if_splits)
qed

definition closing_ok :: "('k \<Rightarrow> int \<rightharpoonup> ev \<times> nat) \<Rightarrow> ('k, 'e) env_scheme \<Rightarrow> nat \<Rightarrow> int \<Rightarrow> byte list \<Rightarrow> byte list \<Rightarrow>
    ('k, 'z) Net_scheme \<Rightarrow> bool" where
  "closing_ok interest E p f x acc s \<longleftrightarrow> conn_ok interest p s \<and> threadId s = tid E \<and>
     (\<exists>cn. conns s p = Some cn \<and> state cn = kDisconnecting \<and> socket_fd cn = f \<and>
        wire s f @ content (outputBuffer cn) = x @ acc \<and>
        (acc = [] \<longrightarrow> (f \<in> wshut s \<longleftrightarrow> content (outputBuffer cn) = [])))"

lemma closing_ok_frame:
  assumes "closing_ok interest E p f x acc s" and "conn_ok interest p s'" and "threadId s' = threadId s"
    and "\<And>cn. conns s p = Some cn \<Longrightarrow> \<exists>cn'. conns s' p = Some cn' \<and> state cn' = state cn \<and> socket_fd cn' = socket_fd cn \<and>
           outputBuffer cn' = outputBuffer cn"
    and "wire s' = wire s" and "wshut s' = wshut s"
  shows "closing_ok interest E p f x acc s'"
proof -
  from assms(1) obtain cn where cn: "conns s p = Some cn" "state cn = kDisconnecting" "socket_fd cn = f"
    "wire s f @ content (outputBuffer cn) = x @ acc" "acc = [] \<longrightarrow> (f \<in> wshut s \<longleftrightarrow> content (outputBuffer cn) = [])"
    "threadId s = tid E" by (auto simp: closing_ok_def)
  from assms(4) [OF cn(1)] obtain cn' where "conns s' p = Some cn'" "state cn' = state cn" "socket_fd cn' = socket_fd cn"
    "outputBuffer cn' = outputBuffer cn" by blast
  with cn assms(2,3,5,6) show ?thesis by (simp add: closing_ok_def)
qed

text \<open>A writability event of a closing connection, and running \<^verbatim>\<open>shutdownInLoop\<close> again.\<close>

lemma closing_writable:
  assumes doc: "epoll_documented (epoll_ctl E) interest" and c: "closing_ok interest E p f x acc s"
    and w: "write_ok w (length (waiting_bytes p s))" and r: "TcpConnection_handleWrite E p w s = Inr s'"
  shows "closing_ok interest E p f x acc s' \<and> (f \<notin> wshut s \<longrightarrow> f \<in> wshut s' \<longrightarrow> waiting_bytes p s' = [] \<and> wire s' f = x @ acc)"
proof -
  from c obtain cn where ok: "conn_ok interest p s" and t: "threadId s = tid E" and
    cn: "conns s p = Some cn" "state cn = kDisconnecting" "socket_fd cn = f"
    "wire s f @ content (outputBuffer cn) = x @ acc" "acc = [] \<longrightarrow> (f \<in> wshut s \<longleftrightarrow> content (outputBuffer cn) = [])"
    by (auto simp: closing_ok_def)
  have w': "write_ok w (length (content (outputBuffer cn)))" using w cn(1) by (simp add: waiting_bytes_def)
  from handleWrite_waiting [OF doc ok t cn(1) w' r] obtain cn' where
    s': "conns s' p = Some cn'" "same_input cn cn'" "conn_ok interest p s'" "threadId s' = threadId s"
    "wire s' f @ content (outputBuffer cn') = wire s f @ content (outputBuffer cn)"
    "content (outputBuffer cn') = [] \<longleftrightarrow> drains w (content (outputBuffer cn)) \<or> content (outputBuffer cn) = []"
    "wshut s' = (if drains w (content (outputBuffer cn)) \<and> state cn = kDisconnecting
           then insert f (wshut s) else wshut s)" using cn(3) by metis
  have "closing_ok interest E p f x acc s'" using s' cn t by (auto simp: closing_ok_def)
  moreover have "waiting_bytes p s' = [] \<and> wire s' f = x @ acc" if "f \<notin> wshut s" "f \<in> wshut s'"
    using that s' cn(4) by (auto simp: waiting_bytes_def split: if_splits)
  ultimately show ?thesis by blast
qed

lemma closing_shutdownInLoop:
  assumes c: "closing_ok interest E p f x acc s" and r: "TcpConnection_shutdownInLoop E p s = Inr s'"
  shows "closing_ok interest E p f x acc s' \<and> (f \<notin> wshut s \<longrightarrow> f \<in> wshut s' \<longrightarrow> waiting_bytes p s' = [] \<and> wire s' f = x @ acc)"
proof -
  from c obtain cn where ok: "conn_ok interest p s" and t: "threadId s = tid E" and
    cn: "conns s p = Some cn" "state cn = kDisconnecting" "socket_fd cn = f"
    "wire s f @ content (outputBuffer cn) = x @ acc" "acc = [] \<longrightarrow> (f \<in> wshut s \<longleftrightarrow> content (outputBuffer cn) = [])"
    by (auto simp: closing_ok_def)
  from shutdownInLoop_ok [OF ok t cn(1)] r have
    e: "s' = (if content (outputBuffer cn) = [] then s\<lparr>wshut := insert (socket_fd cn) (wshut s)\<rparr> else s)"
    by (simp split: if_splits)
  show ?thesis using ok t cn e by (auto simp: closing_ok_def conn_ok_wshut waiting_bytes_def)
qed

lemma closing_reading:
  assumes doc: "epoll_documented (epoll_ctl E) interest" and c: "closing_ok interest E p f x acc s"
    and s': "TcpConnection_startRead E p s = Inr s' \<or> TcpConnection_stopRead E p s = Inr s'"
  shows "closing_ok interest E p f x acc s'"
proof -
  from c obtain cn where ok: "conn_ok interest p s" and t: "threadId s = tid E" and cn: "conns s p = Some cn"
    by (auto simp: closing_ok_def)
  from ok cn obtain ch where ch: "chan s (channel cn) = Some ch" by (auto elim: conn_okE)
  from s' consider "s' = s"
    | s1 where "Channel_enableReading E (channel cn) s = Inr s1" "s' = set_conn p (cn\<lparr>reading := True\<rparr>) s1"
    | s1 where "Channel_disableReading E (channel cn) s = Inr s1" "s' = set_conn p (cn\<lparr>reading := False\<rparr>) s1"
    using cn ch t by (auto simp: TcpConnection_startRead_def TcpConnection_startReadInLoop_def TcpConnection_stopRead_def
        TcpConnection_stopReadInLoop_def EventLoop_isInLoopThread_def split: if_splits)
  then show ?thesis
  proof cases
    case 1
    then show ?thesis using c by simp
  next
    case 2
    note r = reading_change_ok [OF doc ok cn 2(1) [unfolded Channel_enableReading_def] isWriting_events(3)]
    show ?thesis by (rule closing_ok_frame [OF c]) (use r(1) [of True] r(2-5) 2(2) cn in auto)
  next
    case 3
    note r = reading_change_ok [OF doc ok cn 3(1) [unfolded Channel_disableReading_def] isWriting_events(4)]
    show ?thesis by (rule closing_ok_frame [OF c]) (use r(1) [of False] r(2-5) 3(2) cn in auto)
  qed
qed

lemma closing_queued:
  assumes doc: "epoll_documented (epoll_ctl E) interest" and c: "closing_ok interest E p f x acc s"
    and w: "write_ok w (length d)" "length d \<le> max_size" and r: "TcpConnection_sendInLoop E p d w s = Inr s'"
  shows "closing_ok interest E p f x (acc @ accepted p s d w) s'"
proof -
  from c obtain cn where ok: "conn_ok interest p s" and t: "threadId s = tid E" and
    cn: "conns s p = Some cn" "state cn = kDisconnecting" "socket_fd cn = f"
    "wire s f @ content (outputBuffer cn) = x @ acc" "acc = [] \<longrightarrow> (f \<in> wshut s \<longleftrightarrow> content (outputBuffer cn) = [])"
    by (auto simp: closing_ok_def)
  from sendInLoop_ok [OF doc ok t w cn(1)] r have s': "conn_ok interest p s'" "wshut s' = wshut s" "threadId s' = threadId s"
    "\<exists>cn'. conns s' = (conns s)(p \<mapsto> cn') \<and> same_input cn cn'"
    "out_stream p s' = out_stream p s @ accepted p s d w" using cn(1) by (simp_all add: accepted_def)
  then obtain cn' where cn': "conns s' p = Some cn'" "state cn' = state cn" "socket_fd cn' = f" using cn(3) by auto
  have st: "wire s' f @ content (outputBuffer cn') = x @ acc @ accepted p s d w"
    using s'(5) cn cn' by (simp add: out_stream_def)
  have "f \<in> wshut s' \<longleftrightarrow> content (outputBuffer cn') = []" if "acc @ accepted p s d w = []"
  proof -
    from that have "acc = []" "accepted p s d w = []" by simp_all
    with sendInLoop_nothing [OF ok t cn(1) w(1) _ r] s'(2) cn cn' show ?thesis by auto
  qed
  with s' cn cn' st t show ?thesis by (auto simp: closing_ok_def)
qed

lemma closing_history:
  assumes doc: "epoll_documented (epoll_ctl E) interest" and c: "closing_ok interest E p f x [] s1"
    and h: "conn_history E p s1 acc s"
  shows "closing_ok interest E p f x acc s"
  using h
proof induction
  case start
  then show ?case by (rule c)
next
  case (send acc s w d s')
  then obtain cn where cn: "conns s p = Some cn" "state cn = kDisconnecting" by (auto simp: closing_ok_def)
  with send.hyps(4) have "s' = s" by (simp add: TcpConnection_send_def)
  with send.IH cn show ?case by (simp add: is_connected_def)
next
  case (queued acc s w d s')
  then show ?case using closing_queued [OF doc] by blast
next
  case (writable acc s w s')
  then show ?case using closing_writable [OF doc] by blast
next
  case (shutdown acc s s')
  then obtain cn where cn: "conns s p = Some cn" "state cn = kDisconnecting" by (auto simp: closing_ok_def)
  with shutdown.hyps(2) have "s' = s" by (simp add: TcpConnection_shutdown_def)
  with shutdown.IH show ?case by simp
next
  case (shutdownQueued acc s s')
  then show ?case using closing_shutdownInLoop by blast
next
  case (forceClose acc s s')
  then obtain cn where cn: "conns s p = Some cn" "state cn = kDisconnecting" "conn_ok interest p s"
    by (auto simp: closing_ok_def)
  then have "s' = EventLoop_queueInLoop E (ForceCloseInLoop p) (set_conn p (cn\<lparr>state := kDisconnecting\<rparr>) s)"
    using forceClose.hyps(2) by (auto simp: TcpConnection_forceClose_def setState_def)
  with conn_ok_state(1) [OF cn(3,1), of kDisconnecting] cn show ?case
    by (intro closing_ok_frame [OF forceClose.IH]) (auto simp: conn_ok_queue)
next
  case (startRead acc s s')
  then show ?case using closing_reading [OF doc] by blast
next
  case (stopRead acc s s')
  then show ?case using closing_reading [OF doc] by blast
qed

text \<open>A shutdown with two bytes waiting, and two writability events that take one byte each.\<close>

lemma sample_shutdown:
  "\<exists>s1 s2 s3. TcpConnection_shutdown (man_env False) 1 (sample_net kConnected [70, 71]) = Inr s1 \<and>
     TcpConnection_handleWrite (man_env False) 1 (Wrote 1) s1 = Inr s2 \<and> waiting_bytes 1 s1 = [70, 71] \<and> waiting_bytes 1 s2 = [71] \<and>
     TcpConnection_handleWrite (man_env False) 1 (Wrote 1) s2 = Inr s3 \<and> waiting_bytes 1 s3 = []"
proof -
  have sz: "szsub 10 8 = 2" "szsub 9 8 = 1" "szsub 10 9 = 1" "szadd 8 1 = 9" "szadd 9 1 = 10" "szsub 8 8 = 0" "szadd 8 (Suc 0) = 9" "szadd 9 (Suc 0) = 10"
     by (simp_all add: szsub_def szadd_def size_mod_def)
  show ?thesis
    by (simp add: TcpConnection_shutdown_def setState_def TcpConnection_shutdownInLoop_def TcpConnection_handleWrite_def EventLoop_isInLoopThread_def
        EventLoop_assertInLoopThread_def sample_net_defs Channel_isWriting_def Channel_new_def read_not_write
        Buffer_readableBytes_def Channel_disableWriting_def poller_defs man_epoll_ctl_def set_conn_def cassert_def
        Buffer_retrieve_def Buffer_retrieveAll_def kCheapPrepend_def Buffer_peek_def waiting_bytes_def content_def seg_def
        EventLoop_queueInLoop_def EventLoop_push_def EventLoop_notify_def event_mask_def Let_def sz)
qed

text \<open>
  C10: a graceful shutdown loses nothing.  \<^verbatim>\<open>shutdown()\<close> on a connected connection shuts the write side of
  the socket down at once when nothing waits, otherwise it does not.  In every history that
  follows (writability with any results, whole, partial or failed; sends, which are ignored; sends
  queued before by other threads; further shutdowns; reading on and off) the bytes on the wire
  and those waiting are those of the shutdown followed by the queued ones that were taken; the write side
  is only ever shut down by a step after which nothing waits, all those bytes being on the wire; and as long as no queued
  bytes are taken it is shut down exactly when nothing waits any more.
\<close>

theorem TcpConnection_shutdown_graceful:
  assumes doc: "epoll_documented (epoll_ctl E) interest" and ok: "conn_ok interest p s" and t: "threadId s = tid E"
    and cn: "conns s p = Some cn" "state cn = kConnected" "socket_fd cn \<notin> wshut s"
    and s1: "TcpConnection_shutdown E p s = Inr s1"
  shows "map_option state (conns s1 p) = Some kDisconnecting \<and> wire s1 = wire s \<and>
    (socket_fd cn \<in> wshut s1 \<longleftrightarrow> content (outputBuffer cn) = []) \<and>
    (\<forall>acc s2. conn_history E p s1 acc s2 \<longrightarrow>
      wire s2 (socket_fd cn) @ waiting_bytes p s2 = wire s (socket_fd cn) @ content (outputBuffer cn) @ acc \<and>
      (acc = [] \<longrightarrow> (socket_fd cn \<in> wshut s2 \<longleftrightarrow> waiting_bytes p s2 = [])) \<and>
      (\<forall>w s3. socket_fd cn \<notin> wshut s2 \<longrightarrow> socket_fd cn \<in> wshut s3 \<longrightarrow>
        write_ok w (length (waiting_bytes p s2)) \<and> TcpConnection_handleWrite E p w s2 = Inr s3 \<or>
          TcpConnection_shutdownInLoop E p s2 = Inr s3 \<longrightarrow>
        waiting_bytes p s3 = [] \<and>
        wire s3 (socket_fd cn) = wire s (socket_fd cn) @ content (outputBuffer cn) @ acc))"
proof -
  let ?cn = "cn\<lparr>state := kDisconnecting\<rparr>" and ?f = "socket_fd cn"
  let ?s = "set_conn p ?cn s" and ?x = "wire s (socket_fd cn) @ content (outputBuffer cn)"
  note okd = conn_ok_state(1) [OF ok cn(1), of kDisconnecting, simplified]
  have cd: "conns ?s p = Some ?cn" and td: "threadId ?s = tid E" using t by simp_all
  from shutdownInLoop_ok [OF okd td cd] s1 cn t
  have e: "s1 = (if content (outputBuffer cn) = [] then ?s\<lparr>wshut := insert ?f (wshut s)\<rparr> else ?s)"
    by (simp add: TcpConnection_shutdown_def setState_def EventLoop_isInLoopThread_def split: if_splits)
  have c1: "closing_ok interest E p ?f ?x [] s1"
    using e okd cn(3) t by (auto simp: closing_ok_def conn_ok_wshut)
  have later: "wire s2 ?f @ waiting_bytes p s2 = ?x @ acc \<and> (acc = [] \<longrightarrow> (?f \<in> wshut s2 \<longleftrightarrow> waiting_bytes p s2 = []))"
    if "closing_ok interest E p ?f ?x acc s2" for acc s2
    using that by (auto simp: closing_ok_def waiting_bytes_def)
  have "map_option state (conns s1 p) = Some kDisconnecting \<and> wire s1 = wire s \<and>
      (?f \<in> wshut s1 \<longleftrightarrow> content (outputBuffer cn) = [])" using e cn(3) by simp
  moreover have shut: "waiting_bytes p s3 = [] \<and> wire s3 ?f = ?x @ acc"
    if c2: "closing_ok interest E p ?f ?x acc s2" and f: "?f \<notin> wshut s2" "?f \<in> wshut s3"
      and r: "write_ok w (length (waiting_bytes p s2)) \<and> TcpConnection_handleWrite E p w s2 = Inr s3 \<or>
        TcpConnection_shutdownInLoop E p s2 = Inr s3" for acc s2 w s3
    using r closing_writable [OF doc c2, of w s3] closing_shutdownInLoop [OF c2, of s3] f by blast
  moreover have "wire s2 ?f @ waiting_bytes p s2 = ?x @ acc \<and> (acc = [] \<longrightarrow> (?f \<in> wshut s2 \<longleftrightarrow> waiting_bytes p s2 = [])) \<and>
      (\<forall>w s3. ?f \<notin> wshut s2 \<longrightarrow> ?f \<in> wshut s3 \<longrightarrow>
        write_ok w (length (waiting_bytes p s2)) \<and> TcpConnection_handleWrite E p w s2 = Inr s3 \<or>
          TcpConnection_shutdownInLoop E p s2 = Inr s3 \<longrightarrow> waiting_bytes p s3 = [] \<and> wire s3 ?f = ?x @ acc)"
    if "conn_history E p s1 acc s2" for acc s2
    using later [OF closing_history [OF doc c1 that]] shut [OF closing_history [OF doc c1 that]] by blast
  ultimately show ?thesis unfolding append_assoc by blast
qed

theorem TcpConnection_shutdown_graceful_witness:
  "(\<exists>s1 s2 s3. TcpConnection_shutdown (man_env False) 1 (sample_net kConnected [70, 71]) = Inr s1 \<and> 7 \<notin> wshut s1 \<and>
     TcpConnection_handleWrite (man_env False) 1 (Wrote 1) s1 = Inr s2 \<and> wire s2 7 = [70] \<and> 7 \<notin> wshut s2 \<and>
     TcpConnection_handleWrite (man_env False) 1 (Wrote 1) s2 = Inr s3 \<and> wire s3 7 = [70, 71] \<and> 7 \<in> wshut s3) \<and>
    (\<exists>s1. TcpConnection_shutdown (man_env False) 1 (sample_net kConnected []) = Inr s1 \<and> 7 \<in> wshut s1)"
proof -
  let ?E = "man_env False"
  have doc: "epoll_documented (epoll_ctl ?E) (\<lambda>m. m)" by (simp add: man_epoll_documented)
  have go: "(7 \<in> wshut s1 \<longleftrightarrow> ws = []) \<and> (\<forall>acc s2. conn_history ?E 1 s1 acc s2 \<longrightarrow> wire s2 7 @ waiting_bytes 1 s2 = ws @ acc \<and>
      (acc = [] \<longrightarrow> (7 \<in> wshut s2 \<longleftrightarrow> waiting_bytes 1 s2 = [])))"
    if "length ws < 1000" and s1: "TcpConnection_shutdown ?E 1 (sample_net kConnected ws) = Inr s1" for ws s1
  proof -
    let ?s = "sample_net kConnected ws"
    have ok: "conn_ok (\<lambda>m. m) 1 ?s" by (rule sample_net_ok) (use that in simp_all)
    have t: "threadId ?s = tid ?E" by (simp add: sample_net_defs)
    obtain cn where cn: "conns ?s 1 = Some cn" "content (outputBuffer cn) = ws" "socket_fd cn = 7" "state cn = kConnected"
      by (simp add: sample_net_defs content_def seg_def)
    have o: "wire ?s 7 = []" "7 \<notin> wshut ?s" by (simp_all add: sample_net_defs)
    with cn(3) have "socket_fd cn \<notin> wshut ?s" by simp
    note g = TcpConnection_shutdown_graceful [OF doc ok t cn(1,4) this s1, unfolded cn(2,3) o append_Nil]
    show ?thesis using g by blast
  qed
  obtain s1 s2 s3 where r: "TcpConnection_shutdown ?E 1 (sample_net kConnected [70, 71]) = Inr s1"
    "TcpConnection_handleWrite ?E 1 (Wrote 1) s1 = Inr s2" "waiting_bytes 1 s1 = [70, 71]" "waiting_bytes 1 s2 = [71]"
    "TcpConnection_handleWrite ?E 1 (Wrote 1) s2 = Inr s3" "waiting_bytes 1 s3 = []" using sample_shutdown by blast
  have h2: "conn_history ?E 1 s1 [] s2"
    by (rule conn_history.writable [OF conn_history.start _ r(2)]) (use r(3) in \<open>simp add: write_ok_def\<close>)
  have h3: "conn_history ?E 1 s1 [] s3"
    by (rule conn_history.writable [OF h2 _ r(5)]) (use r(4) in \<open>simp add: write_ok_def\<close>)
  note g = go [of "[70, 71]", OF _ r(1)]
  have 1: "7 \<notin> wshut s1" "wire s2 7 = [70]" "7 \<notin> wshut s2" "wire s3 7 = [70, 71]" "7 \<in> wshut s3"
    using g h2 h3 r(4,6) by (simp, force, force, force, force)
  have "\<exists>t1. TcpConnection_shutdown ?E 1 (sample_net kConnected []) = Inr t1"
    by (simp add: TcpConnection_shutdown_def setState_def TcpConnection_shutdownInLoop_def EventLoop_isInLoopThread_def
        EventLoop_assertInLoopThread_def sample_net_defs set_conn_def Channel_isWriting_def)
  then obtain t1 where t1: "TcpConnection_shutdown ?E 1 (sample_net kConnected []) = Inr t1" ..
  from go [of "[]", OF _ t1] have "7 \<in> wshut t1" by simp
  with r(1,2,5) 1 t1 show ?thesis by blast
qed

section \<open>Closing\<close>

lemma disableAll_registered:
  fixes s :: "('k, 'z) Net_scheme"
  assumes doc: "epoll_documented (epoll_ctl E) interest" and inv: "Poller_inv interest s"
    and t: "threadId s = tid E" and ch: "chan s c = Some ch" and ix: "index ch \<noteq> -1"
  shows "\<exists>s'. Channel_disableAll E c s = Inr s' \<and> Poller_inv interest s' \<and>
    chan s' = (chan s)(c \<mapsto> ch\<lparr>events := kNoneEvent, addedToLoop := True, index := -1\<rparr>) \<and>
    interest (epollk s') = (interest (epollk s))(chan_fd ch := None) \<and>
    conns s' = conns s \<and> wire s' = wire s \<and> wshut s' = wshut s \<and> threadId s' = threadId s \<and> channels s' = channels s"
proof -
  have reg: "\<not> index ch < 0" "channels s (chan_fd ch) = Some c"
    using Poller_invD(1) [OF inv ch] ix by (auto simp: reg_ok_def)
  obtain k' ok where k: "epoll_ctl E (epollk s) EPOLL_CTL_DEL (chan_fd ch)
      (event_mask (ch\<lparr>events := kNoneEvent\<rparr>), c) = (k', ok)" by fastforce
  have d: "Channel_disableAll E c s = Inr (s\<lparr>chan := (chan s)(c \<mapsto> ch\<lparr>events := kNoneEvent, addedToLoop := True, index := -1\<rparr>),
      epollk := k'\<rparr>)" (is "_ = Inr ?s'")
    unfolding Channel_disableAll_def
    using with_events_del [of s c ch E "\<lambda>_. kNoneEvent", OF ch t reg(1) _ k] reg(2)
    by (simp add: kNoneEvent_def)
  have "Poller_inv interest ?s'"
    by (rule Poller_inv_with_events [OF doc inv, where g = "\<lambda>_. kNoneEvent" and c = c])
      (use d in \<open>simp add: Channel_disableAll_def\<close>)
  with d documented_del [OF doc k] show ?thesis by simp
qed

text \<open>
  closing an open, registered connection.  The state becomes disconnected and the descriptor leaves
  the kernel's interest list before the user's callback and the server's run; nothing else of the
  connection changes.  In a build with assertions a second close fails, and so does
  \<^verbatim>\<open>connectDestroyed()\<close>, the step that must follow every close: it removes a channel whose index
  \<^verbatim>\<open>disableAll()\<close> has reset.  With \<^verbatim>\<open>NDEBUG\<close> that step takes the channel out of the poller's table.
\<close>

theorem TcpConnection_close_lifecycle:
  assumes doc: "epoll_documented (epoll_ctl E) interest" and ok: "conn_ok interest p s" and t: "threadId s = tid E"
    and cn: "conns s p = Some cn" and ch: "chan s (channel cn) = Some ch" and ix: "index ch \<noteq> -1"
  shows "\<exists>s1. TcpConnection_handleClose A E p s = bindR (onConnection A p s1) (onClose A p) \<and>
    conns s1 = (conns s)(p \<mapsto> cn\<lparr>state := kDisconnected\<rparr>) \<and> wire s1 = wire s \<and>
    interest (epollk s1) = (interest (epollk s))(socket_fd cn := None) \<and> Poller_inv interest s1 \<and>
    (if ndebug E
     then \<exists>s2. TcpConnection_connectDestroyed A E p s1 = Inr s2 \<and> channels s2 = (channels s)(socket_fd cn := None) \<and>
            interest (epollk s2) = interest (epollk s1)
     else TcpConnection_handleClose A E p s1 = Inl AssertFailed \<and>
          TcpConnection_connectDestroyed A E p s1 = Inl AssertFailed)"
proof -
  from ok cn ch have inv: "Poller_inv interest s" and st: "state cn = kConnected \<or> state cn = kDisconnecting"
    and fd: "chan_fd ch = socket_fd cn" by (auto elim: conn_okE)
  let ?cn = "cn\<lparr>state := kDisconnected\<rparr>"
  let ?s = "set_conn p ?cn s"
  have "Poller_inv interest ?s" "threadId ?s = tid E" "chan ?s (channel cn) = Some ch" using inv t ch by simp_all
  from disableAll_registered [OF doc this ix] obtain s1 where
    s1: "Channel_disableAll E (channel cn) ?s = Inr s1" "Poller_inv interest s1"
      "chan s1 = (chan s)(channel cn \<mapsto> ch\<lparr>events := kNoneEvent, addedToLoop := True, index := -1\<rparr>)"
      "interest (epollk s1) = (interest (epollk s))(chan_fd ch := None)" "conns s1 = (conns s)(p \<mapsto> ?cn)"
      "wire s1 = wire s" "threadId s1 = tid E" "channels s1 = channels s" using t by auto
  have close: "TcpConnection_handleClose A E p s = bindR (onConnection A p s1) (onClose A p)"
    using cn st s1(1) by (simp add: TcpConnection_handleClose_def setState_def)
  have again: "TcpConnection_handleClose A E p s1 = Inl AssertFailed" if "\<not> ndebug E"
    using s1(5) that by (simp add: TcpConnection_handleClose_def cassert_def)
  have destroy: "TcpConnection_connectDestroyed A E p s1 = Channel_remove E (channel cn) s1"
    using s1(5) by (simp add: TcpConnection_connectDestroyed_def)
  have "chan s1 (channel cn) = Some (ch\<lparr>events := kNoneEvent, addedToLoop := True, index := -1\<rparr>)" using s1(3) by simp
  note rem = Channel_remove_eq [of s1 "channel cn", OF this s1(7)]
  show ?thesis
    by (rule exI [of _ s1]) (use close again destroy rem s1(2,4,5,6,8) fd in \<open>simp add: remove_asserts_def\<close>)
qed

theorem TcpConnection_close_lifecycle_witness:
  "\<exists>s1. TcpConnection_handleClose \<lparr>onConnection = \<lambda>p s. Inr s, onMessage = \<lambda>p t s. Inr s, onClose = \<lambda>p s. Inr s\<rparr>
      (man_env False) 1 (sample_net kConnected []) = Inr s1 \<and> epollk s1 = Map.empty \<and>
    TcpConnection_connectDestroyed \<lparr>onConnection = \<lambda>p s. Inr s, onMessage = \<lambda>p t s. Inr s, onClose = \<lambda>p s. Inr s\<rparr>
      (man_env False) 1 s1 = Inl AssertFailed"
proof -
  let ?A = "\<lparr>onConnection = \<lambda>p s. Inr s, onMessage = \<lambda>p t s. Inr s, onClose = \<lambda>p s. Inr s\<rparr>
    :: ((int \<rightharpoonup> ev \<times> nat), unit) app"
  let ?s = "sample_net kConnected []" and ?E = "man_env False"
  have doc: "epoll_documented (epoll_ctl ?E) (\<lambda>m. m)" by (simp add: man_epoll_documented)
  have ok: "conn_ok (\<lambda>m. m) 1 ?s" by (rule sample_net_ok) simp_all
  have t: "threadId ?s = tid ?E" by (simp add: sample_net_defs)
  obtain cn where cn: "conns ?s 1 = Some cn" "channel cn = 3" "socket_fd cn = 7" by (simp add: sample_net_defs)
  have k: "epollk ?s = [7 \<mapsto> (kReadEvent OR EPOLLET, 3)]" by (simp add: sample_net_defs)
  obtain ch where ch: "chan ?s (channel cn) = Some ch" "index ch \<noteq> -1" using cn(2) by (simp add: sample_net_defs)
  from TcpConnection_close_lifecycle [OF doc ok t cn(1) ch, of ?A] show ?thesis using cn(3) k by auto
qed

text \<open>
  destroying a connection that is being shut down (\<^verbatim>\<open>connectDestroyed()\<close> from the server's destructor
  while the state is disconnecting) skips \<^verbatim>\<open>disableAll()\<close>.  With assertions it fails on the channel that
  still has events; with \<^verbatim>\<open>NDEBUG\<close> a channel registered once and never modified (index 1) leaves the
  table but stays in the kernel's interest list, with its address.
\<close>

theorem TcpConnection_destroy_disconnecting:
  assumes ok: "conn_ok interest p s" and t: "threadId s = tid E"
    and cn: "conns s p = Some cn" "state cn = kDisconnecting"
    and ch: "chan s (channel cn) = Some ch" "index ch = 1" "events ch \<noteq> 0"
  shows "if ndebug E
    then \<exists>s'. TcpConnection_connectDestroyed A E p s = Inr s' \<and> channels s' (socket_fd cn) = None \<and>
           (\<exists>e. interest (epollk s') (socket_fd cn) = Some (e, channel cn)) \<and> \<not> Poller_inv interest s'
    else TcpConnection_connectDestroyed A E p s = Inl AssertFailed"
proof -
  from ok cn ch have inv: "Poller_inv interest s" and fd: "chan_fd ch = socket_fd cn" by (auto elim: conn_okE)
  have destroy: "TcpConnection_connectDestroyed A E p s = Channel_remove E (channel cn) s"
    using cn by (simp add: TcpConnection_connectDestroyed_def)
  note rem = Channel_remove_eq [OF ch(1) t]
  let ?s = "s\<lparr>chan := (chan s)(channel cn \<mapsto> ch\<lparr>addedToLoop := False, index := -1\<rparr>),
      channels := (channels s)(chan_fd ch := None)\<rparr>"
  from Poller_invD(1) [OF inv ch(1)] ch(2) fd obtain e where
    e: "interest (epollk s) (socket_fd cn) = Some (e, channel cn)" by (auto simp: reg_ok_def)
  have "\<not> Poller_inv interest ?s"
    using e Poller_invD(2) [of interest ?s "socket_fd cn" e "channel cn"] by auto
  with destroy rem ch e fd show ?thesis by (simp add: remove_asserts_def)
qed

theorem TcpConnection_destroy_disconnecting_witness:
  "TcpConnection_connectDestroyed \<lparr>onConnection = \<lambda>p s. Inr s, onMessage = \<lambda>p t s. Inr s, onClose = \<lambda>p s. Inr s\<rparr>
      (man_env False) 1 (sample_net kDisconnecting []) = Inl AssertFailed \<and>
   (\<exists>s'. TcpConnection_connectDestroyed \<lparr>onConnection = \<lambda>p s. Inr s, onMessage = \<lambda>p t s. Inr s, onClose = \<lambda>p s. Inr s\<rparr>
      (man_env True) 1 (sample_net kDisconnecting []) = Inr s' \<and> channels s' 7 = None \<and> epollk s' 7 \<noteq> None)"
proof -
  let ?A = "\<lparr>onConnection = \<lambda>p s. Inr s, onMessage = \<lambda>p t s. Inr s, onClose = \<lambda>p s. Inr s\<rparr>
    :: ((int \<rightharpoonup> ev \<times> nat), unit) app"
  let ?s = "sample_net kDisconnecting []"
  have ok: "conn_ok (\<lambda>m. m) 1 ?s" by (rule sample_net_ok) simp_all
  have t: "threadId ?s = tid (man_env nd)" for nd by (simp add: sample_net_defs)
  obtain cn where cn: "conns ?s 1 = Some cn" "state cn = kDisconnecting" "channel cn = 3" "socket_fd cn = 7"
    by (simp add: sample_net_defs)
  obtain ch where ch: "chan ?s (channel cn) = Some ch" "index ch = 1" "events ch \<noteq> 0"
    using cn(3) by (simp add: sample_net_defs kReadEvent_def epoll_masks)
  from TcpConnection_destroy_disconnecting [OF ok t cn(1,2) ch, of False ?A]
    TcpConnection_destroy_disconnecting [OF ok t cn(1,2) ch, of True ?A] cn(4) show ?thesis by auto
qed

text \<open>
  stopping to read an idle connection and starting again.  The stop takes its channel out of the
  kernel and resets its index but leaves it in the poller's table; the start then wants to add the
  descriptor again.  With assertions it fails, since the table still has it; with \<^verbatim>\<open>NDEBUG\<close> it
  registers the channel anew if the kernel accepts it.
\<close>

theorem TcpConnection_stop_start_read:
  assumes doc: "epoll_documented (epoll_ctl E) interest" and ok: "conn_ok interest p s" and t: "threadId s = tid E"
    and cn: "conns s p = Some cn" and ch: "chan s (channel cn) = Some ch" "index ch \<noteq> -1" "events ch = kReadEvent"
  shows "\<exists>s1. TcpConnection_stopRead E p s = Inr s1 \<and> interest (epollk s1) (socket_fd cn) = None \<and>
    channels s1 = channels s \<and>
    (if ndebug E
     then TcpConnection_startRead E p s1 = Inl Aborted \<or>
          (\<exists>s2. TcpConnection_startRead E p s1 = Inr s2 \<and> Poller_inv interest s2 \<and>
             (\<exists>e. interest (epollk s2) (socket_fd cn) = Some (e, channel cn)))
     else TcpConnection_startRead E p s1 = Inl AssertFailed)"
proof -
  from ok cn ch have inv: "Poller_inv interest s" and fd: "chan_fd ch = socket_fd cn" by (auto elim: conn_okE)
  have reg: "\<not> index ch < 0" "channels s (chan_fd ch) = Some (channel cn)"
    using Poller_invD(1) [OF inv ch(1)] ch(2) by (auto simp: reg_ok_def)
  let ?g = "\<lambda>e. e AND NOT kReadEvent"
  have z: "?g (events ch) = 0" using ch(3) by simp
  obtain k' b where k: "epoll_ctl E (epollk s) EPOLL_CTL_DEL (chan_fd ch)
      (event_mask (ch\<lparr>events := ?g (events ch)\<rparr>), channel cn) = (k', b)" by fastforce
  let ?ch = "ch\<lparr>events := ?g (events ch), addedToLoop := True, index := -1\<rparr>"
  let ?t = "s\<lparr>chan := (chan s)(channel cn \<mapsto> ?ch), epollk := k'\<rparr>"
  let ?s1 = "set_conn p (cn\<lparr>reading := False\<rparr>) ?t"
  have d: "Channel_disableReading E (channel cn) s = Inr ?t"
    unfolding Channel_disableReading_def
    using with_events_del [of s "channel cn" ch E ?g, OF ch(1) t reg(1) z k] reg(2) by simp
  have rd: "Channel_isReading ch" using ch(3) by (simp add: Channel_isReading_def kReadEvent_def epoll_masks)
  have stop: "TcpConnection_stopRead E p s = Inr ?s1"
    using cn ch(1) t d rd by (simp add: TcpConnection_stopRead_def TcpConnection_stopReadInLoop_def EventLoop_isInLoopThread_def)
  have inv1: "Poller_inv interest ?s1"
    using Poller_inv_with_events [OF doc inv d [unfolded Channel_disableReading_def]] by simp
  have c1: "chan ?s1 (channel cn) = Some ?ch" "index ?ch < 0" "threadId ?s1 = tid E" using t by simp_all
  obtain k2 b2 where k2: "epoll_ctl E (epollk ?s1) EPOLL_CTL_ADD (chan_fd ?ch)
      (event_mask (?ch\<lparr>events := events ?ch OR kReadEvent\<rparr>), channel cn) = (k2, b2)" by fastforce
  note add = with_events_add [of ?s1 "channel cn" ?ch E "\<lambda>e. e OR kReadEvent", OF c1(1,3,2) k2]
  have start: "TcpConnection_startRead E p ?s1 = bindR (Channel_enableReading E (channel cn) ?s1)
      (\<lambda>s1. Inr (set_conn p (cn\<lparr>reading := True\<rparr>) s1))"
    using c1 by (simp add: TcpConnection_startRead_def TcpConnection_startReadInLoop_def EventLoop_isInLoopThread_def)
  have gone: "interest (epollk ?s1) (socket_fd cn) = None" using documented_del [OF doc k] fd by simp
  have "if ndebug E
     then TcpConnection_startRead E p ?s1 = Inl Aborted \<or>
          (\<exists>s2. TcpConnection_startRead E p ?s1 = Inr s2 \<and> Poller_inv interest s2 \<and>
             (\<exists>e. interest (epollk s2) (socket_fd cn) = Some (e, channel cn)))
     else TcpConnection_startRead E p ?s1 = Inl AssertFailed"
  proof (cases "ndebug E")
    case False
    then show ?thesis using start add reg(2) by (simp add: Channel_enableReading_def cassert_def)
  next
    case True
    show ?thesis
    proof (cases b2)
      case False
      then show ?thesis using True start add by (simp add: Channel_enableReading_def)
    next
      case b2: True
      let ?u = "?s1\<lparr>chan := (chan ?s1)(channel cn \<mapsto> ?ch\<lparr>events := events ?ch OR kReadEvent, addedToLoop := True, index := 1\<rparr>),
          channels := (channels ?s1)(chan_fd ?ch \<mapsto> channel cn), epollk := k2\<rparr>"
      have u: "with_events E (channel cn) (\<lambda>e. e OR kReadEvent) ?s1 = Inr ?u" using add True b2 by simp
      have "Poller_inv interest ?u" by (rule Poller_inv_with_events [OF doc inv1 u])
      then have "Poller_inv interest (set_conn p (cn\<lparr>reading := True\<rparr>) ?u)" by simp
      moreover have "interest (epollk ?u) (socket_fd cn) \<noteq> None \<and>
          (\<exists>e. interest (epollk ?u) (socket_fd cn) = Some (e, channel cn))"
        using documented_add [OF doc k2 b2] fd by simp
      moreover have "TcpConnection_startRead E p ?s1 = Inr (set_conn p (cn\<lparr>reading := True\<rparr>) ?u)"
        unfolding start using u by (simp only: Channel_enableReading_def bindR_simps)
      ultimately show ?thesis using True by auto
    qed
  qed
  with stop gone show ?thesis by (intro exI [of _ ?s1]) simp
qed

theorem TcpConnection_stop_start_read_witness:
  "\<exists>s1. TcpConnection_stopRead (man_env False) 1 (sample_net kConnected []) = Inr s1 \<and>
     TcpConnection_startRead (man_env False) 1 s1 = Inl AssertFailed"
proof -
  let ?s = "sample_net kConnected []" and ?E = "man_env False"
  have doc: "epoll_documented (epoll_ctl ?E) (\<lambda>m. m)" by (simp add: man_epoll_documented)
  have ok: "conn_ok (\<lambda>m. m) 1 ?s" by (rule sample_net_ok) simp_all
  have t: "threadId ?s = tid ?E" by (simp add: sample_net_defs)
  obtain cn where cn: "conns ?s 1 = Some cn" "channel cn = 3" by (simp add: sample_net_defs)
  obtain ch where ch: "chan ?s (channel cn) = Some ch" "index ch \<noteq> -1" "events ch = kReadEvent"
    using cn(2) by (simp add: sample_net_defs)
  from TcpConnection_stop_start_read [OF doc ok t cn(1) ch] show ?thesis by auto
qed

end
