(* ===== verification/TcpServer.thy ===== *)
theory TcpServer
  imports TcpConnection
begin

text \<open>
  The server: \<^verbatim>\<open>net/TcpServer.h\<close>, \<^verbatim>\<open>net/TcpServer.cpp\<close>, with its pool of loop threads.

  \<open>nets\<close> maps the address of every loop of the server to that loop's state; an operation runs on
  the thread \<open>tid E\<close>, and \<^verbatim>\<open>runInLoop\<close> on another thread's loop only queues.  Starting a loop thread
  yields the address of its loop, which is an argument of \<open>EventLoopThreadPool_start\<close>.
\<close>

section \<open>What the closures of connections do\<close>

text \<open>
  A queued functor on its loop.  \<open>wr\<close> gives the outcome of a write, \<open>user\<close> runs the functors of the
  program that uses the library, and the server's own functors are run by the server.
\<close>

definition Net_run :: "('k, 'z) app \<Rightarrow> ('k, 'e) env_scheme \<Rightarrow> (nat \<Rightarrow> byte list \<Rightarrow> write_result) \<Rightarrow>
    (closure \<Rightarrow> ('k, 'z) Net_scheme \<Rightarrow> ('k, 'z) Net_scheme result) \<Rightarrow> closure \<Rightarrow>
    ('k, 'z) Net_scheme \<Rightarrow> ('k, 'z) Net_scheme result" where
  "Net_run A E wr user f s = (case f of
     SendInLoop p d \<Rightarrow> TcpConnection_sendInLoop E p d (wr p d) s
   | SendBuffer p b \<Rightarrow> TcpConnection_sendBufferInLoop E p b
        (case bufs s b of None \<Rightarrow> WriteError EOTHER | Some buf \<Rightarrow> wr p (content buf)) s
   | ShutdownInLoop p \<Rightarrow> TcpConnection_shutdownInLoop E p s
   | ForceCloseInLoop p \<Rightarrow> TcpConnection_forceCloseInLoop A E p s
   | StartRead p \<Rightarrow> TcpConnection_startReadInLoop E p s
   | StopRead p \<Rightarrow> TcpConnection_stopReadInLoop E p s
   | ConnectEstablished p \<Rightarrow> TcpConnection_connectEstablished A E p s
   | ConnectDestroyed p \<Rightarrow> TcpConnection_connectDestroyed A E p s
   | _ \<Rightarrow> user f s)"

text \<open>A callback of a connection's channel.\<close>

definition Net_call :: "('k, 'z) app \<Rightarrow> ('k, 'e) env_scheme \<Rightarrow> readv_fun \<Rightarrow> (nat \<Rightarrow> byte list \<Rightarrow> write_result) \<Rightarrow>
    (closure \<Rightarrow> ('k, 'z) Net_scheme \<Rightarrow> ('k, 'z) Net_scheme result) \<Rightarrow> closure \<Rightarrow> Timestamp \<Rightarrow>
    ('k, 'z) Net_scheme \<Rightarrow> ('k, 'z) Net_scheme result" where
  "Net_call A E readv wr user f t s = (case f of
     HandleRead p \<Rightarrow> TcpConnection_handleRead A E readv p t s
   | HandleWrite p \<Rightarrow> TcpConnection_handleWrite E p (wr p (waiting_bytes p s)) s
   | HandleClose p \<Rightarrow> TcpConnection_handleClose A E p s
   | HandleError p \<Rightarrow> Inr s
   | _ \<Rightarrow> user f s)"

section \<open>The pool of loops\<close>

record EventLoopThreadPool =
  baseLoop :: nat
  pool_name :: string
  pool_started :: bool
  numThreads :: int
  nexti :: int
  loops :: "nat list"

definition EventLoopThreadPool_new :: "nat \<Rightarrow> string \<Rightarrow> EventLoopThreadPool" where
  "EventLoopThreadPool_new base nm = \<lparr>baseLoop = base, pool_name = nm, pool_started = False,
     numThreads = 0, nexti = 0, loops = []\<rparr>"

text \<open>
  \<open>fresh\<close> lists the loops that the started threads report, in order; each thread calls the callback on its own
  loop (theory EventLoopThread).  Without threads it is called on the base loop.
\<close>

definition EventLoopThreadPool_start :: "('k, 'e) env_scheme \<Rightarrow> (('k, 'c, 'z) EventLoop_scheme \<Rightarrow> ('k, 'c, 'z) EventLoop_scheme result) option \<Rightarrow>
    ('k, 'c, 'z) EventLoop_scheme \<Rightarrow> nat list \<Rightarrow> EventLoopThreadPool \<Rightarrow> (('k, 'c, 'z) EventLoop_scheme \<times> EventLoopThreadPool) result" where
  "EventLoopThreadPool_start E cb base fresh tp = cassert E (\<not> pool_started tp)
     (EventLoop_assertInLoopThread E base
       (let tp1 = tp\<lparr>pool_started := True, loops := loops tp @ take (nat (numThreads tp)) fresh\<rparr> in
        if numThreads tp = 0 \<and> cb \<noteq> None
        then bindR (the cb base) (\<lambda>base1. Inr (base1, tp1))
        else Inr (base, tp1)))"

definition EventLoopThreadPool_getNextLoop :: "('k, 'e) env_scheme \<Rightarrow> ('k, 'c, 'z) EventLoop_scheme \<Rightarrow> EventLoopThreadPool \<Rightarrow>
    (nat \<times> EventLoopThreadPool) result" where
  "EventLoopThreadPool_getNextLoop E base tp = EventLoop_assertInLoopThread E base
     (if loops tp \<noteq> []
      then if 0 \<le> nexti tp \<and> nat (nexti tp) < length (loops tp)
           then let n = nexti tp + 1 in
                Inr (loops tp ! nat (nexti tp), tp\<lparr>nexti := (if n \<ge> int (length (loops tp)) then 0 else n)\<rparr>)
           else Inl Undefined
      else Inr (baseLoop tp, tp))"

definition EventLoopThreadPool_getAllLoops :: "EventLoopThreadPool \<Rightarrow> nat list" where
  "EventLoopThreadPool_getAllLoops tp = (if loops tp = [] then [baseLoop tp] else loops tp)"

section \<open>The server\<close>

record 'k TcpServer =
  srv_loop :: nat
  ipPort :: string
  srv_name :: string
  threadPool :: EventLoopThreadPool
  srv_writeComplete :: bool
  srv_listening :: bool
  started :: int
  nextConnId :: int
  connections :: "string \<rightharpoonup> nat"
  nets :: "nat \<rightharpoonup> 'k Net"

definition TcpServer_new :: "nat \<Rightarrow> string \<Rightarrow> string \<Rightarrow> (nat \<rightharpoonup> 'k Net) \<Rightarrow> 'k TcpServer" where
  "TcpServer_new l addr nm ns = \<lparr>srv_loop = l, ipPort = addr, srv_name = nm,
     threadPool = EventLoopThreadPool_new l nm, srv_writeComplete = False, srv_listening = False, started = 0, nextConnId = 1,
     connections = Map.empty, nets = ns\<rparr>"

definition TcpServer_setThreadNum :: "('k, 'e) env_scheme \<Rightarrow> int \<Rightarrow> ('k, 'z) TcpServer_scheme \<Rightarrow> ('k, 'z) TcpServer_scheme result" where
  "TcpServer_setThreadNum E n s = cassert E (n \<ge> 0) (Inr (s\<lparr>threadPool := (threadPool s)\<lparr>numThreads := n\<rparr>\<rparr>))"

text \<open>Running an operation of a loop on that loop's state.\<close>

definition on_loop :: "nat \<Rightarrow> ('k Net \<Rightarrow> 'k Net result) \<Rightarrow> ('k, 'z) TcpServer_scheme \<Rightarrow> ('k, 'z) TcpServer_scheme result" where
  "on_loop l f s = bindR (derefR (nets s) l) (\<lambda>n. bindR (f n) (\<lambda>n'. Inr (s\<lparr>nets := (nets s)(l \<mapsto> n')\<rparr>)))"

text \<open>
  What the functor of \<^verbatim>\<open>start()\<close> does on the server's loop: \<open>lst\<close> is the effect of the acceptor's \<^verbatim>\<open>listen()\<close>
  on the loop (theory Acceptor), which records that it listens.
\<close>

definition TcpServer_listen :: "('k Net \<Rightarrow> 'k Net result) \<Rightarrow> ('k, 'z) TcpServer_scheme \<Rightarrow> ('k, 'z) TcpServer_scheme result" where
  "TcpServer_listen lst s = on_loop (srv_loop s) lst (s\<lparr>srv_listening := True\<rparr>)"

text \<open>\<^verbatim>\<open>fetch_add\<close> counts every call; only the first one starts.\<close>

definition TcpServer_start :: "('k, 'e) env_scheme \<Rightarrow> ('k Net \<Rightarrow> 'k Net result) option \<Rightarrow> ('k Net \<Rightarrow> 'k Net result) \<Rightarrow> nat list \<Rightarrow>
    ('k, 'z) TcpServer_scheme \<Rightarrow> ('k, 'z) TcpServer_scheme result" where
  "TcpServer_start E cb lst fresh s = (let s1 = s\<lparr>started := started s + 1\<rparr> in
     if started s = 0
     then bindR (derefR (nets s1) (srv_loop s1)) (\<lambda>n.
          bindR (EventLoopThreadPool_start E cb n fresh (threadPool s1)) (\<lambda>(n1, tp).
            let s2 = s1\<lparr>threadPool := tp, nets := (nets s1)(srv_loop s1 \<mapsto> n1)\<rparr> in
            cassert E (\<not> srv_listening s2)
              (if EventLoop_isInLoopThread E n1 then TcpServer_listen lst s2
               else on_loop (srv_loop s2) (\<lambda>n. Inr (EventLoop_queueInLoop E AcceptorListen n)) s2)))
     else Inr s1)"

definition int_max :: int where "int_max = 2 ^ 31 - 1"

definition connName :: "string \<Rightarrow> int \<Rightarrow> string" where
  "connName nm i = nm @ snprintf 64 (''#'' @ dec_int i)"

text \<open>
  The new connection gets the address \<open>p\<close>, its channel \<open>c\<close>.  The increment of the identifier is
  undefined at the largest \<^verbatim>\<open>int\<close>.
\<close>

definition TcpServer_newConnection :: "('k, unit) app \<Rightarrow> ('k, 'e) env_scheme \<Rightarrow> nat \<Rightarrow> nat \<Rightarrow> int \<Rightarrow>
    ('k, 'z) TcpServer_scheme \<Rightarrow> ('k, 'z) TcpServer_scheme result" where
  "TcpServer_newConnection A E p c sockfd s = bindR (derefR (nets s) (srv_loop s)) (\<lambda>base.
     EventLoop_assertInLoopThread E base
      (let nm = connName (srv_name s) (nextConnId s) in
       if nextConnId s = int_max then Inl Undefined
       else bindR (EventLoopThreadPool_getNextLoop E base (threadPool s)) (\<lambda>(ioLoop, tp).
         let s1 = s\<lparr>nextConnId := nextConnId s + 1, threadPool := tp\<rparr> in
         bindR (on_loop ioLoop (\<lambda>n. bindR (TcpConnection_new p c ioLoop nm sockfd n) (\<lambda>n1.
                  bindR (derefR (conns n1) p) (\<lambda>cn.
                    Inr (set_conn p (cn\<lparr>hasWriteComplete := srv_writeComplete s\<rparr>) n1)))) s1) (\<lambda>s2.
         let s3 = s2\<lparr>connections := (connections s2)(nm \<mapsto> p)\<rparr> in
         on_loop ioLoop (EventLoop_runInLoop (\<lambda>f. TcpConnection_connectEstablished A E p) E (ConnectEstablished p)) s3))))"

definition TcpServer_removeConnectionInLoop :: "('k, 'e) env_scheme \<Rightarrow> nat \<Rightarrow> nat \<Rightarrow> ('k, 'z) TcpServer_scheme \<Rightarrow>
    ('k, 'z) TcpServer_scheme result" where
  "TcpServer_removeConnectionInLoop E l p s = bindR (derefR (nets s) (srv_loop s)) (\<lambda>base.
     EventLoop_assertInLoopThread E base
       (bindR (derefR (nets s) l) (\<lambda>n. bindR (derefR (conns n) p) (\<lambda>cn.
          cassert E (connections s (conn_name cn) \<noteq> None)
            (on_loop (conn_loop cn) (\<lambda>n. Inr (EventLoop_queueInLoop E (ConnectDestroyed p) n))
               (s\<lparr>connections := (connections s)(conn_name cn := None)\<rparr>))))))"

text \<open>
  \<^verbatim>\<open>removeConnection\<close>, the close callback, called on the thread of the connection's loop \<open>l\<close>.
\<close>

definition TcpServer_removeConnection :: "('k, 'e) env_scheme \<Rightarrow> nat \<Rightarrow> nat \<Rightarrow> ('k, 'z) TcpServer_scheme \<Rightarrow>
    ('k, 'z) TcpServer_scheme result" where
  "TcpServer_removeConnection E l p s = bindR (derefR (nets s) (srv_loop s)) (\<lambda>base.
     if EventLoop_isInLoopThread E base then TcpServer_removeConnectionInLoop E l p s
     else on_loop (srv_loop s) (\<lambda>n. Inr (EventLoop_queueInLoop E (RemoveConnectionInLoop p) n)) s)"

text \<open>
  The destructor: every connection of the map, in the order of the names, is destroyed on its loop.
  \<open>entries\<close> are the entries of the map with the loops of their connections.
\<close>

definition TcpServer_destroy :: "('k, unit) app \<Rightarrow> ('k, 'e) env_scheme \<Rightarrow> (string \<times> nat \<times> nat) list \<Rightarrow>
    ('k, 'z) TcpServer_scheme \<Rightarrow> ('k, 'z) TcpServer_scheme result" where
  "TcpServer_destroy A E entries s = bindR (derefR (nets s) (srv_loop s)) (\<lambda>base.
     EventLoop_assertInLoopThread E base
       (foldR (\<lambda>(nm, l, p).
          on_loop l (EventLoop_runInLoop (\<lambda>f. TcpConnection_connectDestroyed A E p) E (ConnectDestroyed p))) entries s))"

section \<open>Round robin\<close>

fun next_loops :: "('k, 'e) env_scheme \<Rightarrow> ('k, 'z) Net_scheme \<Rightarrow> nat \<Rightarrow> EventLoopThreadPool \<Rightarrow>
    (nat list \<times> EventLoopThreadPool) result" where
  "next_loops E base 0 tp = Inr ([], tp)"
| "next_loops E base (Suc m) tp = bindR (EventLoopThreadPool_getNextLoop E base tp) (\<lambda>(l, tp1).
     bindR (next_loops E base m tp1) (\<lambda>(ls, tp2). Inr (l # ls, tp2)))"

definition pool_ok :: "EventLoopThreadPool \<Rightarrow> bool" where
  "pool_ok tp \<longleftrightarrow> 0 \<le> nexti tp \<and>
     (if loops tp = [] then nexti tp = 0 else nat (nexti tp) < length (loops tp))"

lemma getNextLoop_ok:
  assumes "pool_ok tp" and "threadId base = tid E" and "loops tp \<noteq> []"
  shows "\<exists>tp'. EventLoopThreadPool_getNextLoop E base tp = Inr (loops tp ! nat (nexti tp), tp') \<and> pool_ok tp' \<and>
    loops tp' = loops tp \<and> nat (nexti tp') = Suc (nat (nexti tp)) mod length (loops tp)"
proof -
  let ?n = "length (loops tp)"
  have n: "0 \<le> nexti tp" "nat (nexti tp) < ?n" using assms by (simp_all add: pool_ok_def)
  show ?thesis
  proof (cases "Suc (nat (nexti tp)) = ?n")
    case True
    then have "nexti tp + 1 \<ge> int ?n" using n by linarith
    with True n assms show ?thesis
      by (simp add: EventLoopThreadPool_getNextLoop_def EventLoop_assertInLoopThread_def pool_ok_def Let_def)
  next
    case False
    then have "Suc (nat (nexti tp)) < ?n" using n by linarith
    moreover from this have "\<not> nexti tp + 1 \<ge> int ?n" "nat (nexti tp + 1) = Suc (nat (nexti tp))" using n by linarith+
    ultimately show ?thesis using n assms
      by (simp add: EventLoopThreadPool_getNextLoop_def EventLoop_assertInLoopThread_def pool_ok_def Let_def)
  qed
qed

lemma next_loops_ok:
  assumes "pool_ok tp" and "threadId base = tid E" and "loops tp \<noteq> []"
  shows "\<exists>tp'. next_loops E base m tp
    = Inr (map (\<lambda>j. loops tp ! ((nat (nexti tp) + j) mod length (loops tp))) [0..<m], tp') \<and> pool_ok tp' \<and> loops tp' = loops tp"
  using assms(1,3)
proof (induction m arbitrary: tp)
  case 0
  then show ?case by simp
next
  case (Suc m)
  let ?n = "length (loops tp)"
  from getNextLoop_ok [OF Suc.prems(1) assms(2) Suc.prems(2)] obtain tp1 where
    t1: "EventLoopThreadPool_getNextLoop E base tp = Inr (loops tp ! nat (nexti tp), tp1)" "pool_ok tp1"
      "loops tp1 = loops tp" "nat (nexti tp1) = Suc (nat (nexti tp)) mod ?n" by blast
  from Suc.IH [OF t1(2)] t1(3) Suc.prems(2) obtain tp2 where
    t2: "next_loops E base m tp1 = Inr (map (\<lambda>j. loops tp1 ! ((nat (nexti tp1) + j) mod length (loops tp1))) [0..<m], tp2)"
      "pool_ok tp2" "loops tp2 = loops tp" by auto
  have i: "nat (nexti tp) < ?n" using Suc.prems by (simp add: pool_ok_def)
  have "map (\<lambda>j. loops tp ! ((nat (nexti tp) + j) mod ?n)) [0..<Suc m]
      = loops tp ! nat (nexti tp) # map (\<lambda>j. loops tp ! ((Suc (nat (nexti tp)) mod ?n + j) mod ?n)) [0..<m]"
    using i by (simp add: upt_conv_Cons map_Suc_upt [symmetric] mod_add_left_eq del: upt_Suc)
  then show ?case using t1 t2 by simp
qed

text \<open>
  the pool deals its loops out in turn: \<open>m\<close> calls of \<^verbatim>\<open>getNextLoop()\<close> on the base loop's thread return
  consecutive loops of the pool, cyclically from the current index, which stays in range; a pool without
  threads always returns the base loop.
\<close>

theorem EventLoopThreadPool_round_robin:
  assumes "pool_ok tp" and "threadId base = tid E"
  shows "\<exists>tp'. next_loops E base m tp = Inr (map (\<lambda>j. if loops tp = [] then baseLoop tp
      else loops tp ! ((nat (nexti tp) + j) mod length (loops tp))) [0..<m], tp') \<and> pool_ok tp' \<and> loops tp' = loops tp"
proof (cases "loops tp = []")
  case False
  with next_loops_ok [OF assms False, of m] show ?thesis by simp
next
  case True
  then have one: "EventLoopThreadPool_getNextLoop E base tp = Inr (baseLoop tp, tp)"
    using assms(2) by (simp add: EventLoopThreadPool_getNextLoop_def EventLoop_assertInLoopThread_def)
  have "next_loops E base m tp = Inr (map (\<lambda>j. baseLoop tp) [0..<m], tp)"
  proof (induction m)
    case (Suc m)
    then show ?case using one by (simp add: upt_conv_Cons map_Suc_upt [symmetric] del: upt_Suc)
  qed simp
  with True assms(1) show ?thesis by auto
qed

theorem EventLoopThreadPool_round_robin_witness:
  "\<exists>tp'. next_loops (man_env True) (sample_net kConnected []) 5
      ((EventLoopThreadPool_new 9 ''p'')\<lparr>loops := [20, 21, 22], nexti := 1\<rparr>) = Inr ([21, 22, 20, 21, 22], tp')"
proof -
  let ?tp = "(EventLoopThreadPool_new 9 ''p'')\<lparr>loops := [20, 21, 22], nexti := 1\<rparr>"
  have "pool_ok ?tp" by (simp add: pool_ok_def EventLoopThreadPool_new_def)
  moreover have "threadId (sample_net kConnected []) = tid (man_env True)" by (simp add: sample_net_defs)
  ultimately show ?thesis using EventLoopThreadPool_round_robin [of ?tp "sample_net kConnected []" "man_env True" 5]
    by (auto simp: upt_conv_Cons EventLoopThreadPool_new_def)
qed

section \<open>The registry of connections\<close>

lemma connName_inj:
  assumes "0 \<le> i" "i \<le> int_max" "0 \<le> j" "j \<le> int_max" and "connName nm i = connName nm j"
  shows "i = j"
proof -
  have len: "snprintf 64 (''#'' @ dec_int k) = ''#'' @ dec_int k" if "0 \<le> k" "k \<le> int_max" for k
  proof -
    have "nat k < 10 ^ Suc 9" using that by (simp add: int_max_def)
    from length_dec_nat_le [OF this] that show ?thesis by (simp add: snprintf_def dec_int_def)
  qed
  from assms(5) len [OF assms(1,2)] len [OF assms(3,4)] show ?thesis by (simp add: connName_def)
qed

text \<open>Every registered name was made from an identifier below the next one.\<close>

definition srv_inv :: "('k, 'z) TcpServer_scheme \<Rightarrow> bool" where
  "srv_inv s \<longleftrightarrow> 1 \<le> nextConnId s \<and> nextConnId s \<le> int_max \<and> pool_ok (threadPool s) \<and>
     (\<forall>nm \<in> dom (connections s). \<exists>i. 1 \<le> i \<and> i < nextConnId s \<and> nm = connName (srv_name s) i)"

lemma srv_inv_nets [simp]: "srv_inv (s\<lparr>nets := ns\<rparr>) = srv_inv s"
  by (simp add: srv_inv_def)

lemma srv_inv_started [simp]: "srv_inv (s\<lparr>started := k\<rparr>) = srv_inv s"
  by (simp add: srv_inv_def)

lemma srv_inv_listening [simp]: "srv_inv (s\<lparr>srv_listening := b\<rparr>) = srv_inv s"
  by (simp add: srv_inv_def)

lemma srv_inv_threadPool: "srv_inv s \<Longrightarrow> pool_ok tp \<Longrightarrow> srv_inv (s\<lparr>threadPool := tp\<rparr>)"
  by (simp add: srv_inv_def)

lemma srv_inv_pool: "srv_inv s \<Longrightarrow> pool_ok (threadPool s)"
  by (simp add: srv_inv_def)

lemma srv_inv_fresh: "srv_inv s \<Longrightarrow> connections s (connName (srv_name s) (nextConnId s)) = None"
proof (rule ccontr)
  assume inv: "srv_inv s" and "connections s (connName (srv_name s) (nextConnId s)) \<noteq> None"
  then obtain i where "1 \<le> i" "i < nextConnId s" "connName (srv_name s) (nextConnId s) = connName (srv_name s) i"
    unfolding srv_inv_def by blast
  with connName_inj [of "nextConnId s" i "srv_name s"] inv show False by (auto simp: srv_inv_def)
qed

lemma on_loop_frame:
  "on_loop l f s = Inr s' \<Longrightarrow> \<exists>ns. s' = s\<lparr>nets := ns\<rparr>"
  by (auto simp: on_loop_def)

lemma getNextLoop_pool:
  assumes "EventLoopThreadPool_getNextLoop E base tp = Inr (l, tp')" and "pool_ok tp"
  shows "pool_ok tp'" and "l \<in> set (EventLoopThreadPool_getAllLoops tp)"
proof -
  have t: "threadId base = tid E"
    using assms(1) by (simp add: EventLoopThreadPool_getNextLoop_def EventLoop_assertInLoopThread_def split: if_splits)
  have "pool_ok tp' \<and> l \<in> set (EventLoopThreadPool_getAllLoops tp)"
  proof (cases "loops tp = []")
    case True
    with assms t show ?thesis
      by (auto simp: EventLoopThreadPool_getNextLoop_def EventLoop_assertInLoopThread_def EventLoopThreadPool_getAllLoops_def)
  next
    case False
    with getNextLoop_ok [OF assms(2) t False] assms show ?thesis
      by (auto simp: EventLoopThreadPool_getAllLoops_def pool_ok_def)
  qed
  then show "pool_ok tp'" and "l \<in> set (EventLoopThreadPool_getAllLoops tp)" by blast+
qed

lemma newConnection_ok:
  assumes inv: "srv_inv s" and s': "TcpServer_newConnection A E p c sockfd s = Inr s'"
  shows "srv_inv s' \<and> connections s' = (connections s)(connName (srv_name s) (nextConnId s) \<mapsto> p) \<and>
    nextConnId s' = nextConnId s + 1 \<and> srv_name s' = srv_name s"
proof -
  let ?nm = "connName (srv_name s) (nextConnId s)"
  let ?create = "\<lambda>l n. bindR (TcpConnection_new p c l ?nm sockfd n) (\<lambda>n1. bindR (derefR (conns n1) p) (\<lambda>cn.
                    Inr (set_conn p (cn\<lparr>hasWriteComplete := srv_writeComplete s\<rparr>) n1)))"
  let ?run = "EventLoop_runInLoop (\<lambda>f. TcpConnection_connectEstablished A E p) E (ConnectEstablished p)"
  from s' obtain base where base: "nets s (srv_loop s) = Some base" by (auto simp: TcpServer_newConnection_def)
  with s' have "threadId base = tid E"
    by (cases "threadId base = tid E") (simp_all add: TcpServer_newConnection_def EventLoop_assertInLoopThread_def)
  with s' base have i: "nextConnId s \<noteq> int_max"
    by (cases "nextConnId s = int_max") (simp_all add: TcpServer_newConnection_def EventLoop_assertInLoopThread_def)
  with s' base \<open>threadId base = tid E\<close> have "bindR (EventLoopThreadPool_getNextLoop E base (threadPool s)) (\<lambda>(l, tp).
      bindR (on_loop l (?create l) (s\<lparr>nextConnId := nextConnId s + 1, threadPool := tp\<rparr>)) (\<lambda>s2.
        on_loop l ?run (s2\<lparr>connections := (connections s2)(?nm \<mapsto> p)\<rparr>))) = Inr s'"
    by (simp add: TcpServer_newConnection_def EventLoop_assertInLoopThread_def Let_def)
  then obtain l tp s2 where b: "EventLoopThreadPool_getNextLoop E base (threadPool s) = Inr (l, tp)"
    and s2: "on_loop l (?create l) (s\<lparr>nextConnId := nextConnId s + 1, threadPool := tp\<rparr>) = Inr s2"
    and s3: "on_loop l ?run (s2\<lparr>connections := (connections s2)(?nm \<mapsto> p)\<rparr>) = Inr s'"
    by (elim bindR_InrE, clarify, elim bindR_InrE) (rule that)
  from on_loop_frame [OF s2] on_loop_frame [OF s3] obtain ns where
    e: "s' = s\<lparr>nextConnId := nextConnId s + 1, threadPool := tp, connections := (connections s)(?nm \<mapsto> p), nets := ns\<rparr>"
    by auto
  have "pool_ok tp" using getNextLoop_pool [OF b] inv by (simp add: srv_inv_def)
  then have "srv_inv s'" using inv i unfolding srv_inv_def e by (force simp: int_max_def)
  with e show ?thesis by simp
qed

text \<open>The life of a server, on any thread and with anything happening on its loops in between.\<close>

inductive Server_step :: "('k, unit) app \<Rightarrow> ('k, 'e) env_scheme \<Rightarrow> ('k, 'z) TcpServer_scheme \<Rightarrow>
    ('k, 'z) TcpServer_scheme \<Rightarrow> bool" for A :: "('k, unit) app" and E :: "('k, 'e) env_scheme" where
  newConnection: "TcpServer_newConnection A (E\<lparr>tid := th\<rparr>) p c sockfd s = Inr s' \<Longrightarrow> Server_step A E s s'"
| removeConnection: "TcpServer_removeConnection (E\<lparr>tid := th\<rparr>) l p s = Inr s' \<Longrightarrow> Server_step A E s s'"
| removeInLoop: "TcpServer_removeConnectionInLoop (E\<lparr>tid := th\<rparr>) l p s = Inr s' \<Longrightarrow> Server_step A E s s'"
| setThreadNum: "TcpServer_setThreadNum (E\<lparr>tid := th\<rparr>) n s = Inr s' \<Longrightarrow> Server_step A E s s'"
| start: "TcpServer_start (E\<lparr>tid := th\<rparr>) cb lst fresh s = Inr s' \<Longrightarrow> Server_step A E s s'"
| listen: "TcpServer_listen lst s = Inr s' \<Longrightarrow> Server_step A E s s'"
| loops: "Server_step A E s (s\<lparr>nets := ns\<rparr>)"

definition Server_init :: "('k, 'z) TcpServer_scheme \<Rightarrow> bool" where
  "Server_init s \<longleftrightarrow> connections s = Map.empty \<and> nextConnId s = 1 \<and>
     (\<exists>l nm. threadPool s = EventLoopThreadPool_new l nm)"

lemma removeConnectionInLoop_cases:
  assumes "TcpServer_removeConnectionInLoop E l p s = Inr s'"
  obtains base n cn n2 where "nets s (srv_loop s) = Some base" and "threadId base = tid E"
    and "nets s l = Some n" and "conns n p = Some cn" and "connections s (conn_name cn) \<noteq> None \<or> ndebug E"
    and "nets s (conn_loop cn) = Some n2"
    and "s' = s\<lparr>connections := (connections s)(conn_name cn := None),
                nets := (nets s)(conn_loop cn \<mapsto> EventLoop_queueInLoop E (ConnectDestroyed p) n2)\<rparr>"
proof -
  from assms obtain base where base: "nets s (srv_loop s) = Some base"
    by (auto simp: TcpServer_removeConnectionInLoop_def)
  with assms have t: "threadId base = tid E"
    by (cases "threadId base = tid E") (simp_all add: TcpServer_removeConnectionInLoop_def EventLoop_assertInLoopThread_def)
  with assms base have r: "bindR (derefR (nets s) l) (\<lambda>n. bindR (derefR (conns n) p) (\<lambda>cn.
          cassert E (connections s (conn_name cn) \<noteq> None)
            (on_loop (conn_loop cn) (\<lambda>n. Inr (EventLoop_queueInLoop E (ConnectDestroyed p) n))
               (s\<lparr>connections := (connections s)(conn_name cn := None)\<rparr>)))) = Inr s'"
    by (simp only: TcpServer_removeConnectionInLoop_def EventLoop_assertInLoopThread_def derefR_simps(1) bindR_simps if_True refl)
  then obtain n cn where n: "nets s l = Some n" "conns n p = Some cn"
    by (elim bindR_InrE) (simp only: derefR_eq_Inr)
  from r n have "cassert E (connections s (conn_name cn) \<noteq> None)
            (on_loop (conn_loop cn) (\<lambda>n. Inr (EventLoop_queueInLoop E (ConnectDestroyed p) n))
               (s\<lparr>connections := (connections s)(conn_name cn := None)\<rparr>)) = Inr s'"
    by (simp only: derefR_simps(1) bindR_simps)
  then have a: "connections s (conn_name cn) \<noteq> None \<or> ndebug E"
    and o: "on_loop (conn_loop cn) (\<lambda>n. Inr (EventLoop_queueInLoop E (ConnectDestroyed p) n))
               (s\<lparr>connections := (connections s)(conn_name cn := None)\<rparr>) = Inr s'"
    by (simp_all only: cassert_eq_Inr)
  from o obtain n2 where "nets s (conn_loop cn) = Some n2"
    "s' = s\<lparr>connections := (connections s)(conn_name cn := None),
          nets := (nets s)(conn_loop cn \<mapsto> EventLoop_queueInLoop E (ConnectDestroyed p) n2)\<rparr>"
    by (auto simp: on_loop_def)
  with base t n a show thesis by (rule that)
qed

lemma srv_inv_remove:
  "TcpServer_removeConnectionInLoop E l p s = Inr s' \<Longrightarrow> srv_inv s \<Longrightarrow> srv_inv s'"
  by (erule removeConnectionInLoop_cases) (auto simp: srv_inv_def)

lemma pool_start_ok:
  assumes "EventLoopThreadPool_start E cb base fresh tp = Inr (base1, tp1)" and "pool_ok tp"
  shows "pool_ok tp1"
proof -
  have "tp1 = tp\<lparr>pool_started := True, loops := loops tp @ take (nat (numThreads tp)) fresh\<rparr>"
    using assms(1) by (auto simp: EventLoopThreadPool_start_def EventLoop_assertInLoopThread_def cassert_eq_Inr Let_def bindR_eq_Inr
        split: if_splits)
  with assms(2) show ?thesis by (auto simp: pool_ok_def split: if_splits)
qed

lemma srv_inv_start:
  assumes "TcpServer_start E cb lst fresh s = Inr s'" and "started s = 0" and inv: "srv_inv s"
  shows "srv_inv s'"
proof -
  let ?s1 = "s\<lparr>started := started s + 1\<rparr>"
  obtain n n1 tp where tp: "EventLoopThreadPool_start E cb n fresh (threadPool ?s1) = Inr (n1, tp)"
    and r: "cassert E (\<not> srv_listening (?s1\<lparr>threadPool := tp, nets := (nets ?s1)(srv_loop ?s1 \<mapsto> n1)\<rparr>))
      (if EventLoop_isInLoopThread E n1 then TcpServer_listen lst (?s1\<lparr>threadPool := tp, nets := (nets ?s1)(srv_loop ?s1 \<mapsto> n1)\<rparr>)
       else on_loop (srv_loop (?s1\<lparr>threadPool := tp, nets := (nets ?s1)(srv_loop ?s1 \<mapsto> n1)\<rparr>))
          (\<lambda>n. Inr (EventLoop_queueInLoop E AcceptorListen n)) (?s1\<lparr>threadPool := tp, nets := (nets ?s1)(srv_loop ?s1 \<mapsto> n1)\<rparr>)) = Inr s'"
    using assms(1) by (simp only: TcpServer_start_def Let_def assms(2) if_True refl) (elim bindR_InrE, auto split: prod.splits)
  have "pool_ok tp" using pool_start_ok [OF tp] srv_inv_pool [OF inv] by simp
  then have "srv_inv (?s1\<lparr>threadPool := tp, nets := (nets ?s1)(srv_loop ?s1 \<mapsto> n1)\<rparr>)"
    using inv by (intro iffD2 [OF srv_inv_nets] srv_inv_threadPool) simp
  with r show ?thesis
    by (auto simp: cassert_eq_Inr TcpServer_listen_def dest!: on_loop_frame split: if_splits)
qed

lemma srv_inv_step: "Server_step A E s s' \<Longrightarrow> srv_inv s \<Longrightarrow> srv_inv s'"
proof (induction rule: Server_step.induct)
  case (newConnection th p c sockfd s s')
  then show ?case using newConnection_ok by blast
next
  case (removeConnection th l p s s')
  from removeConnection(1) obtain base where "nets s (srv_loop s) = Some base"
    by (auto simp: TcpServer_removeConnection_def)
  with removeConnection(1) have "TcpServer_removeConnectionInLoop (E\<lparr>tid := th\<rparr>) l p s = Inr s' \<or>
      (\<exists>ns. s' = s\<lparr>nets := ns\<rparr>)"
    by (auto simp: TcpServer_removeConnection_def on_loop_def split: if_splits)
  then show ?case
  proof
    assume "TcpServer_removeConnectionInLoop (E\<lparr>tid := th\<rparr>) l p s = Inr s'"
    then show ?thesis using srv_inv_remove removeConnection(2) by blast
  next
    assume "\<exists>ns. s' = s\<lparr>nets := ns\<rparr>"
    then show ?thesis using removeConnection(2) by auto
  qed
next
  case (removeInLoop th l p s s')
  then show ?case using srv_inv_remove by blast
next
  case (setThreadNum th n s s')
  then have "s' = s\<lparr>threadPool := (threadPool s)\<lparr>numThreads := n\<rparr>\<rparr>"
    by (auto simp: TcpServer_setThreadNum_def cassert_eq_Inr)
  moreover have "pool_ok ((threadPool s)\<lparr>numThreads := n\<rparr>)"
    using srv_inv_pool [OF setThreadNum(2)] by (simp add: pool_ok_def)
  ultimately show ?case using srv_inv_threadPool setThreadNum(2) by blast
next
  case (start th cb lst fresh s s')
  show ?case
  proof (cases "started s = 0")
    case False
    with start show ?thesis by (auto simp: TcpServer_start_def Let_def)
  next
    case True
    from srv_inv_start [OF start(1) True start(2)] show ?thesis .
  qed
next
  case (listen lst s s')
  then show ?case by (auto simp: TcpServer_listen_def dest!: on_loop_frame)
next
  case (loops s ns)
  then show ?case by (simp add: srv_inv_def)
qed

lemma srv_inv_init: "Server_init s \<Longrightarrow> srv_inv s"
  by (auto simp: Server_init_def srv_inv_def pool_ok_def EventLoopThreadPool_new_def int_max_def)

interpretation server_steps: inductive_invariant Server_init "Server_step A E" srv_inv for A E
  by unfold_locales (rule srv_inv_init, assumption, rule srv_inv_step)

text \<open>
  C25: in every reachable state of a server, with connections made and removed on any threads, a new
  connection is registered under a name that no registered connection has, so it never displaces one;
  it goes to a loop of the pool, and the registry grows by exactly this entry.
\<close>

theorem TcpServer_newConnection_fresh:
  assumes "reach Server_init (Server_step A E) s" and "TcpServer_newConnection A E p c sockfd s = Inr s'"
  shows "connections s (connName (srv_name s) (nextConnId s)) = None \<and>
    connections s' = (connections s)(connName (srv_name s) (nextConnId s) \<mapsto> p) \<and>
    nextConnId s' = nextConnId s + 1 \<and> nextConnId s' \<le> int_max"
proof -
  have "srv_inv s" by (rule server_steps.reach_inv [OF assms(1)])
  from newConnection_ok [OF this assms(2)] srv_inv_fresh [OF this] show ?thesis by (simp add: srv_inv_def)
qed

definition sample_server :: "(int \<rightharpoonup> ev \<times> nat) TcpServer" where
  "sample_server = TcpServer_new 0 ''127.0.0.1:80'' ''srv'' [0 \<mapsto> sample_net kConnected []]"

definition idle_app :: "((int \<rightharpoonup> ev \<times> nat), unit) app" where
  "idle_app = \<lparr>onConnection = \<lambda>p s. Inr s, onMessage = \<lambda>p t s. Inr s, onClose = \<lambda>p s. Inr s\<rparr>"

lemma sample_newConnection:
  "\<exists>s'. TcpServer_newConnection idle_app (man_env False) 5 6 9 sample_server = Inr s'"
proof -
  obtain b where b: "Buffer_new kInitialSize = Inr b" using new_ok [of kInitialSize]
    by (auto simp: kInitialSize_def kCheapPrepend_def max_size_def)
  then show ?thesis
    by (simp add: TcpServer_newConnection_def sample_server_def TcpServer_new_def EventLoop_assertInLoopThread_def
        sample_net_defs int_max_def EventLoopThreadPool_getNextLoop_def EventLoopThreadPool_new_def on_loop_def
        TcpConnection_new_def set_conn_def set_chan_def EventLoop_runInLoop_def EventLoop_isInLoopThread_def
        TcpConnection_connectEstablished_def setState_def Channel_tie_def Channel_enableReading_def poller_defs
        cassert_def Channel_new_def man_epoll_ctl_def event_mask_def idle_app_def Let_def)
qed

theorem TcpServer_newConnection_fresh_witness:
  "\<exists>s'. TcpServer_newConnection idle_app (man_env False) 5 6 9 sample_server = Inr s' \<and>
     connections s' = [connName ''srv'' 1 \<mapsto> 5] \<and> nextConnId s' = 2"
proof -
  obtain s' where s': "TcpServer_newConnection idle_app (man_env False) 5 6 9 sample_server = Inr s'"
    using sample_newConnection by blast
  have "reach Server_init (Server_step idle_app (man_env False)) sample_server"
    by (rule reach_init) (auto simp: Server_init_def sample_server_def TcpServer_new_def)
  from TcpServer_newConnection_fresh [OF this s'] s' show ?thesis
    by (simp add: sample_server_def TcpServer_new_def)
qed

text \<open>
  removing a connection on the server's thread takes exactly its entry out of the registry and
  queues its destruction on its own loop, waking that loop up; a connection that is not registered any
  more fails the assertion.
\<close>

theorem TcpServer_removeConnectionInLoop_correct:
  assumes "nets s (srv_loop s) = Some base" and "threadId base = tid E"
    and "nets s l = Some n" and "conns n p = Some cn" and "conn_loop cn = l"
  shows "TcpServer_removeConnectionInLoop E l p s =
    (if connections s (conn_name cn) \<noteq> None \<or> ndebug E
     then Inr (s\<lparr>connections := (connections s)(conn_name cn := None),
                nets := (nets s)(l \<mapsto> EventLoop_queueInLoop E (ConnectDestroyed p) n)\<rparr>)
     else Inl AssertFailed) \<and>
    pendingFunctors (EventLoop_queueInLoop E (ConnectDestroyed p) n) = pendingFunctors n @ [ConnectDestroyed p] \<and>
    (threadId n \<noteq> tid E \<longrightarrow> 0 < wakeupCounter (EventLoop_queueInLoop E (ConnectDestroyed p) n))"
  using assms
  by (auto simp: TcpServer_removeConnectionInLoop_def EventLoop_assertInLoopThread_def cassert_def on_loop_def
      EventLoop_queueInLoop_def intro!: EventLoop_notify_wakes) (simp_all add: EventLoop_push_def)

theorem TcpServer_removeConnectionInLoop_correct_witness:
  "TcpServer_removeConnectionInLoop (man_env False) 0 1 sample_server = Inl AssertFailed \<and>
   (\<exists>s'. TcpServer_removeConnectionInLoop (man_env False) 0 1 (sample_server\<lparr>connections := [''c'' \<mapsto> 1]\<rparr>) = Inr s' \<and>
      connections s' = Map.empty)"
proof -
  let ?n = "sample_net kConnected []"
  obtain cn where cn: "conns ?n 1 = Some cn" "conn_name cn = ''c''" "conn_loop cn = 0" by (simp add: sample_net_defs)
  have n: "nets sample_server 0 = Some ?n" "srv_loop sample_server = 0" "connections sample_server = Map.empty"
    by (simp_all add: sample_server_def TcpServer_new_def)
  have t: "threadId ?n = tid (man_env False)" by (simp add: sample_net_defs)
  show ?thesis
    using TcpServer_removeConnectionInLoop_correct [of sample_server ?n "man_env False" 0 ?n 1 cn] cn t n
      TcpServer_removeConnectionInLoop_correct [of "sample_server\<lparr>connections := [''c'' \<mapsto> 1]\<rparr>" ?n "man_env False" 0 ?n 1 cn]
    by simp
qed

end
