(* ===== verification/MPMCQueue.thy ===== *)
theory MPMCQueue
  imports Prelude
begin

unbundle bit_operations_syntax

text \<open>
  The bounded lock-free queue of \<^verbatim>\<open>base/MPMCQueue.h\<close>, for any number of producers and consumers.

  \<open>mpmc_micro\<close> is one atomic step of a call: a load, a compare-and-swap, the move of the data or a
  store; \<open>mpmc_step\<close> lets the threads take these steps in any order.  Positions and sequence numbers
  are \<^verbatim>\<open>size_t\<close> values with their wrap-around; the theorems cover the histories in which fewer than
  \<open>2 ^ 63\<close> items are enqueued, so that no value wraps.  Memory is sequentially consistent: the
  release stores and acquire loads of the sequence numbers order everything else that is shared.

  A \<open>mpmc_variant\<close> says how positions are compared and what a failed compare-and-swap does, the two
  points in which \<^verbatim>\<open>base/MPMCQueueV2.h\<close> differs; the invariant is proved once in a locale and interpreted
  for both.
\<close>

section \<open>The queue\<close>

record 'a Cell =
  cseq :: nat
  cdata :: "'a option"

record 'a MPMCQueue =
  cells :: "'a Cell list"
  enqueuePos :: nat
  dequeuePos :: nat

definition MPMCQueue_new :: "nat \<Rightarrow> 'a MPMCQueue" where
  "MPMCQueue_new capacity = \<lparr>cells = map (\<lambda>i. \<lparr>cseq = i, cdata = None\<rparr>) [0..<capacity],
     enqueuePos = 0, dequeuePos = 0\<rparr>"

definition MPMCQueue_approximate_size :: "'a MPMCQueue \<Rightarrow> nat" where
  "MPMCQueue_approximate_size q =
     (if enqueuePos q \<ge> dequeuePos q then szsub (enqueuePos q) (dequeuePos q) else 0)"

definition MPMCQueue_empty :: "'a MPMCQueue \<Rightarrow> bool" where
  "MPMCQueue_empty q \<longleftrightarrow> dequeuePos q \<ge> enqueuePos q"

definition slot :: "nat \<Rightarrow> nat \<Rightarrow> nat" where
  "slot capacity pos = pos AND (capacity - 1)"

definition set_cell :: "nat \<Rightarrow> 'a Cell \<Rightarrow> 'a MPMCQueue \<Rightarrow> 'a MPMCQueue" where
  "set_cell i c q = q\<lparr>cells := (cells q)[i := c]\<rparr>"

text \<open>
  Where a thread is in a call; the position of type \<open>'p\<close> is its local variable \<open>pos\<close>.  In \<open>EnqCas\<close> and \<open>DeqCas\<close> it has seen the
  sequence number it waits for, in \<open>EnqWrite\<close> and \<open>DeqRead\<close> it owns the slot.
\<close>

datatype ('a, 'p) mpmc_pc =
    Idle
  | EnqStart 'a | EnqTop 'a 'p | EnqCas 'a 'p | EnqWrite 'a 'p | EnqPublish 'p | EnqRet bool
  | DeqStart | DeqTop 'p | DeqCas 'p | DeqRead 'p | DeqPublish 'a 'p | DeqRet "'a option"

text \<open>
  \<open>vcmp seq pos\<close> has the sign of the difference that the code computes; \<open>vreload\<close> says that a failed
  compare-and-swap loads the position anew instead of taking the value it found.
\<close>

record mpmc_variant =
  vcmp :: "nat \<Rightarrow> nat \<Rightarrow> int"
  vreload :: bool

definition to_intptr :: "nat \<Rightarrow> int" where
  "to_intptr n = (if n < 2 ^ 63 then int n else int n - 2 ^ 64)"

definition MPMCQueue_variant :: mpmc_variant where
  "MPMCQueue_variant = \<lparr>vcmp = (\<lambda>seq pos. to_intptr seq - to_intptr pos), vreload = False\<rparr>"

text \<open>
  One atomic step; \<open>weak\<close> makes \<^verbatim>\<open>compare_exchange_weak\<close> fail although the values agree.  Moving the
  data out leaves the cell without a value.
\<close>

fun mpmc_micro :: "mpmc_variant \<Rightarrow> nat \<Rightarrow> bool \<Rightarrow> ('a, nat) mpmc_pc \<Rightarrow> 'a MPMCQueue \<Rightarrow> ('a, nat) mpmc_pc \<times> 'a MPMCQueue" where
  "mpmc_micro V C weak (EnqStart x) q = (EnqTop x (enqueuePos q), q)"
| "mpmc_micro V C weak (EnqTop x pos) q =
     (let diff = vcmp V (cseq (cells q ! slot C pos)) pos in
      (if diff = 0 then EnqCas x pos else if diff < 0 then EnqRet False else EnqStart x, q))"
| "mpmc_micro V C weak (EnqCas x pos) q =
     (if enqueuePos q = pos \<and> \<not> weak then (EnqWrite x pos, q\<lparr>enqueuePos := szadd pos 1\<rparr>)
      else (if vreload V then EnqStart x else EnqTop x (enqueuePos q), q))"
| "mpmc_micro V C weak (EnqWrite x pos) q =
     (EnqPublish pos, set_cell (slot C pos) ((cells q ! slot C pos)\<lparr>cdata := Some x\<rparr>) q)"
| "mpmc_micro V C weak (EnqPublish pos) q =
     (EnqRet True, set_cell (slot C pos) ((cells q ! slot C pos)\<lparr>cseq := szadd pos 1\<rparr>) q)"
| "mpmc_micro V C weak DeqStart q = (DeqTop (dequeuePos q), q)"
| "mpmc_micro V C weak (DeqTop pos) q =
     (let diff = vcmp V (cseq (cells q ! slot C pos)) (szadd pos 1) in
      (if diff = 0 then DeqCas pos else if diff < 0 then DeqRet None else DeqStart, q))"
| "mpmc_micro V C weak (DeqCas pos) q =
     (if dequeuePos q = pos \<and> \<not> weak then (DeqRead pos, q\<lparr>dequeuePos := szadd pos 1\<rparr>)
      else (if vreload V then DeqStart else DeqTop (dequeuePos q), q))"
| "mpmc_micro V C weak (DeqRead pos) q =
     (case cdata (cells q ! slot C pos) of
        None \<Rightarrow> (DeqRet None, q)
      | Some v \<Rightarrow> (DeqPublish v pos, set_cell (slot C pos) ((cells q ! slot C pos)\<lparr>cdata := None\<rparr>) q))"
| "mpmc_micro V C weak (DeqPublish v pos) q =
     (DeqRet (Some v), set_cell (slot C pos) ((cells q ! slot C pos)\<lparr>cseq := szadd pos C\<rparr>) q)"
| "mpmc_micro V C weak pc q = (pc, q)"

section \<open>Interleaved calls\<close>

text \<open>
  \<open>enqd\<close> lists the items in the order in which their slots were claimed (item \<open>t\<close> has ticket \<open>t\<close>),
  \<open>deqd\<close> the tickets and values that calls of \<^verbatim>\<open>dequeue\<close> have handed out.
\<close>

record 'a mpmc_sys =
  que :: "'a MPMCQueue"
  pcs :: "nat \<Rightarrow> ('a, nat) mpmc_pc"
  enqd :: "'a list"
  deqd :: "(nat \<times> 'a) list"

definition note_enq :: "('a, nat) mpmc_pc \<Rightarrow> ('a, nat) mpmc_pc \<Rightarrow> 'a list" where
  "note_enq pc pc' = (case (pc, pc') of (EnqCas x pos, EnqWrite _ _) \<Rightarrow> [x] | _ \<Rightarrow> [])"

definition note_deq :: "('a, nat) mpmc_pc \<Rightarrow> (nat \<times> 'a) list" where
  "note_deq pc = (case pc of DeqPublish v pos \<Rightarrow> [(pos, v)] | _ \<Rightarrow> [])"

inductive mpmc_step :: "mpmc_variant \<Rightarrow> nat \<Rightarrow> 'a mpmc_sys \<Rightarrow> 'a mpmc_sys \<Rightarrow> bool"
  for V :: mpmc_variant and C :: nat where
  enqueue: "pcs s th = Idle \<Longrightarrow> mpmc_step V C s (s\<lparr>pcs := (pcs s)(th := EnqStart x)\<rparr>)"
| dequeue: "pcs s th = Idle \<Longrightarrow> mpmc_step V C s (s\<lparr>pcs := (pcs s)(th := DeqStart)\<rparr>)"
| micro: "mpmc_micro V C weak (pcs s th) (que s) = (pc', q') \<Longrightarrow>
    mpmc_step V C s (s\<lparr>que := q', pcs := (pcs s)(th := pc'),
      enqd := enqd s @ note_enq (pcs s th) pc', deqd := deqd s @ note_deq (pcs s th)\<rparr>)"
| ret: "pcs s th = EnqRet b \<or> pcs s th = DeqRet r \<Longrightarrow> mpmc_step V C s (s\<lparr>pcs := (pcs s)(th := Idle)\<rparr>)"

text \<open>
  A thread that runs alone: \<open>n\<close> of its steps, none of the compare-and-swaps failing spuriously.
\<close>

definition micro_of :: "mpmc_variant \<Rightarrow> nat \<Rightarrow> nat \<Rightarrow> 'a mpmc_sys \<Rightarrow> 'a mpmc_sys" where
  "micro_of V C th s = (let (pc', q') = mpmc_micro V C False (pcs s th) (que s) in
     s\<lparr>que := q', pcs := (pcs s)(th := pc'), enqd := enqd s @ note_enq (pcs s th) pc', deqd := deqd s @ note_deq (pcs s th)\<rparr>)"

primrec solo :: "mpmc_variant \<Rightarrow> nat \<Rightarrow> nat \<Rightarrow> nat \<Rightarrow> 'a mpmc_sys \<Rightarrow> 'a mpmc_sys" where
  "solo V C th 0 s = s"
| "solo V C th (Suc n) s = solo V C th n (micro_of V C th s)"

lemma solo_5:
  "solo V C th 5 s = micro_of V C th (micro_of V C th (micro_of V C th (micro_of V C th (micro_of V C th s))))"
  by (simp add: numeral_eq_Suc)

lemma micro_of_fields:
  assumes "mpmc_micro V C False (pcs s th) (que s) = (pc', q')"
  shows "pcs (micro_of V C th s) th = pc'" "que (micro_of V C th s) = q'"
    "enqd (micro_of V C th s) = enqd s @ note_enq (pcs s th) pc'"
  using assms by (simp_all add: micro_of_def)

definition mpmc_init :: "nat \<Rightarrow> 'a mpmc_sys \<Rightarrow> bool" where
  "mpmc_init C s \<longleftrightarrow> que s = MPMCQueue_new C \<and> pcs s = (\<lambda>th. Idle) \<and> enqd s = [] \<and> deqd s = []"

section \<open>Invariant\<close>

definition writes :: "('a, nat) mpmc_pc \<Rightarrow> nat \<Rightarrow> bool" where
  "writes pc t \<longleftrightarrow> (\<exists>x. pc = EnqWrite x t) \<or> pc = EnqPublish t"

definition reads :: "('a, nat) mpmc_pc \<Rightarrow> nat \<Rightarrow> bool" where
  "reads pc t \<longleftrightarrow> pc = DeqRead t \<or> (\<exists>v. pc = DeqPublish v t)"

text \<open>
  The cell of the tickets that are \<open>i\<close> modulo the capacity: free for ticket \<open>t\<close>, or full with item \<open>t\<close>.
\<close>

definition cell_ok :: "nat \<Rightarrow> 'a list \<Rightarrow> nat \<Rightarrow> nat \<Rightarrow> (nat \<Rightarrow> bool) \<Rightarrow> (nat \<Rightarrow> bool) \<Rightarrow> nat \<Rightarrow> 'a Cell \<Rightarrow> bool" where
  "cell_ok C h E D W R i c \<longleftrightarrow> (\<exists>t. t mod C = i \<and> E \<le> t + C \<and>
      (cseq c = t \<and> D \<le> t \<and> t < D + C \<and> (t < E \<longrightarrow> W t) \<or>
       cseq c = Suc t \<and> t < E \<and> (D \<le> t \<longrightarrow> cdata c = Some (h ! t)) \<and> (t < D \<longrightarrow> R t)))"

definition writing :: "'a mpmc_sys \<Rightarrow> nat \<Rightarrow> bool" where
  "writing s t \<longleftrightarrow> (\<exists>th. writes (pcs s th) t)"

definition reading_out :: "'a mpmc_sys \<Rightarrow> nat \<Rightarrow> bool" where
  "reading_out s t \<longleftrightarrow> (\<exists>th. reads (pcs s th) t)"

definition pc_ok :: "nat \<Rightarrow> 'a MPMCQueue \<Rightarrow> 'a list \<Rightarrow> ('a, nat) mpmc_pc \<Rightarrow> bool" where
  "pc_ok C q h pc = (let E = enqueuePos q; D = dequeuePos q; c = (\<lambda>t. cells q ! (t mod C)) in case pc of
     EnqTop x pos \<Rightarrow> pos \<le> E
   | EnqCas x pos \<Rightarrow> pos \<le> E \<and> (pos = E \<longrightarrow> cseq (c pos) = pos)
   | EnqWrite x t \<Rightarrow> t < E \<and> D \<le> t \<and> cseq (c t) = t \<and> h ! t = x
   | EnqPublish t \<Rightarrow> t < E \<and> D \<le> t \<and> cseq (c t) = t \<and> cdata (c t) = Some (h ! t)
   | DeqTop pos \<Rightarrow> pos \<le> D
   | DeqCas pos \<Rightarrow> pos \<le> D \<and> (pos = D \<longrightarrow> cseq (c pos) = Suc pos)
   | DeqRead t \<Rightarrow> t < D \<and> cseq (c t) = Suc t \<and> cdata (c t) = Some (h ! t)
   | DeqPublish v t \<Rightarrow> t < D \<and> cseq (c t) = Suc t \<and> v = h ! t
   | _ \<Rightarrow> True)"

definition mpmc_good :: "nat \<Rightarrow> 'a mpmc_sys \<Rightarrow> bool" where
  "mpmc_good C s \<longleftrightarrow> length (cells (que s)) = C \<and> enqueuePos (que s) = length (enqd s) \<and>
     dequeuePos (que s) \<le> enqueuePos (que s) \<and> enqueuePos (que s) \<le> dequeuePos (que s) + C \<and>
     (\<forall>i < C. cell_ok C (enqd s) (enqueuePos (que s)) (dequeuePos (que s)) (writing s) (reading_out s) i (cells (que s) ! i)) \<and>
     (\<forall>th. pc_ok C (que s) (enqd s) (pcs s th)) \<and>
     (\<forall>th th' t. writes (pcs s th) t \<longrightarrow> writes (pcs s th') t \<longrightarrow> th = th') \<and>
     (\<forall>th th' t. reads (pcs s th) t \<longrightarrow> reads (pcs s th') t \<longrightarrow> th = th') \<and>
     (\<forall>t v. (t, v) \<in> set (deqd s) \<longrightarrow> t < dequeuePos (que s) \<and> v = enqd s ! t) \<and>
     distinct (map fst (deqd s)) \<and>
     (\<forall>t < dequeuePos (que s). t \<in> fst ` set (deqd s) \<longleftrightarrow> \<not> reading_out s t)"

lemma mod_neighbours:
  assumes "2 \<le> C" "Suc t mod C = t mod C"
  shows False
  using assms by (simp add: mod_Suc split: if_splits)

lemma mod_same_window:
  assumes "(a::nat) mod C = b mod C" "a \<le> b" "b < a + C"
  shows "a = b"
proof (rule ccontr)
  assume "a \<noteq> b"
  moreover have "C dvd b - a" using mod_eq_dvd_iff_nat [of a b C] assms by metis
  ultimately show False using assms dvd_imp_le [of C "b - a"] by linarith
qed

lemma writes_simps [simp]:
  "\<not> writes Idle t" "\<not> writes (EnqStart x) t" "\<not> writes (EnqTop x pos) t" "\<not> writes (EnqCas x pos) t"
  "writes (EnqWrite x pos) t \<longleftrightarrow> t = pos" "writes (EnqPublish pos) t \<longleftrightarrow> t = pos" "\<not> writes (EnqRet b) t"
  "\<not> writes DeqStart t" "\<not> writes (DeqTop pos) t" "\<not> writes (DeqCas pos) t" "\<not> writes (DeqRead pos) t"
  "\<not> writes (DeqPublish v pos) t" "\<not> writes (DeqRet r) t"
  by (auto simp: writes_def)

lemma reads_simps [simp]:
  "\<not> reads Idle t" "\<not> reads (EnqStart x) t" "\<not> reads (EnqTop x pos) t" "\<not> reads (EnqCas x pos) t"
  "\<not> reads (EnqWrite x pos) t" "\<not> reads (EnqPublish pos) t" "\<not> reads (EnqRet b) t"
  "\<not> reads DeqStart t" "\<not> reads (DeqTop pos) t" "\<not> reads (DeqCas pos) t" "reads (DeqRead pos) t \<longleftrightarrow> t = pos"
  "reads (DeqPublish v pos) t \<longleftrightarrow> t = pos" "\<not> reads (DeqRet r) t"
  by (auto simp: reads_def)

lemma pc_ok_simps [simp]:
  "pc_ok C q h Idle" "pc_ok C q h (EnqStart x)" "pc_ok C q h (EnqRet b)" "pc_ok C q h DeqStart" "pc_ok C q h (DeqRet r)"
  "pc_ok C q h (EnqTop x pos) \<longleftrightarrow> pos \<le> enqueuePos q"
  "pc_ok C q h (DeqTop pos) \<longleftrightarrow> pos \<le> dequeuePos q"
  "pc_ok C q h (EnqCas x pos) \<longleftrightarrow> pos \<le> enqueuePos q \<and> (pos = enqueuePos q \<longrightarrow> cseq (cells q ! (pos mod C)) = pos)"
  "pc_ok C q h (DeqCas pos) \<longleftrightarrow> pos \<le> dequeuePos q \<and> (pos = dequeuePos q \<longrightarrow> cseq (cells q ! (pos mod C)) = Suc pos)"
  "pc_ok C q h (EnqWrite x pos) \<longleftrightarrow> pos < enqueuePos q \<and> dequeuePos q \<le> pos \<and> cseq (cells q ! (pos mod C)) = pos \<and> h ! pos = x"
  "pc_ok C q h (EnqPublish pos) \<longleftrightarrow> pos < enqueuePos q \<and> dequeuePos q \<le> pos \<and> cseq (cells q ! (pos mod C)) = pos \<and>
     cdata (cells q ! (pos mod C)) = Some (h ! pos)"
  "pc_ok C q h (DeqRead pos) \<longleftrightarrow> pos < dequeuePos q \<and> cseq (cells q ! (pos mod C)) = Suc pos \<and>
     cdata (cells q ! (pos mod C)) = Some (h ! pos)"
  "pc_ok C q h (DeqPublish v pos) \<longleftrightarrow> pos < dequeuePos q \<and> cseq (cells q ! (pos mod C)) = Suc pos \<and> v = h ! pos"
  by (auto simp: pc_ok_def Let_def)

lemma slot_mod: "slot (2 ^ k) pos = pos mod 2 ^ k"
  unfolding slot_def mask_eq_exp_minus_1 [symmetric] take_bit_eq_mask [symmetric] take_bit_eq_mod ..

text \<open>
  A step of thread \<open>th\<close> that changes the state: \<open>mpmc_goodI\<close> lists what there is to show.
\<close>

lemma mpmc_goodE:
  assumes "mpmc_good C s"
  shows "length (cells (que s)) = C" "enqueuePos (que s) = length (enqd s)" "dequeuePos (que s) \<le> enqueuePos (que s)"
    "enqueuePos (que s) \<le> dequeuePos (que s) + C"
    "\<And>i. i < C \<Longrightarrow> cell_ok C (enqd s) (enqueuePos (que s)) (dequeuePos (que s)) (writing s) (reading_out s) i (cells (que s) ! i)"
    "\<And>th. pc_ok C (que s) (enqd s) (pcs s th)"
    "\<And>th th' t. writes (pcs s th) t \<Longrightarrow> writes (pcs s th') t \<Longrightarrow> th = th'"
    "\<And>th th' t. reads (pcs s th) t \<Longrightarrow> reads (pcs s th') t \<Longrightarrow> th = th'"
    "\<And>t v. (t, v) \<in> set (deqd s) \<Longrightarrow> t < dequeuePos (que s) \<and> v = enqd s ! t"
    "distinct (map fst (deqd s))"
    "\<And>t. t < dequeuePos (que s) \<Longrightarrow> t \<in> fst ` set (deqd s) \<longleftrightarrow> \<not> reading_out s t"
proof -
  note * = assms [unfolded mpmc_good_def]
  show "cell_ok C (enqd s) (enqueuePos (que s)) (dequeuePos (que s)) (writing s) (reading_out s) i (cells (que s) ! i)"
    if "i < C" for i using * that by (elim conjE allE [of _ i]) (erule (1) mp)
  show "\<And>th th' t. writes (pcs s th) t \<Longrightarrow> writes (pcs s th') t \<Longrightarrow> th = th'"
    using * by (elim conjE) blast
  show "\<And>th th' t. reads (pcs s th) t \<Longrightarrow> reads (pcs s th') t \<Longrightarrow> th = th'"
    using * by (elim conjE) blast
qed (use assms in \<open>simp_all add: mpmc_good_def\<close>)

lemma set_cell_simps [simp]:
  "enqueuePos (set_cell i c q) = enqueuePos q" "dequeuePos (set_cell i c q) = dequeuePos q"
  "length (cells (set_cell i c q)) = length (cells q)"
  "j < length (cells q) \<Longrightarrow> cells (set_cell i c q) ! j = (if i = j then c else cells q ! j)"
  by (auto simp: set_cell_def nth_list_update)

lemma ex_fun_upd:
  assumes "\<And>a b. P (f a) \<Longrightarrow> P (f b) \<Longrightarrow> a = b"
  shows "(\<exists>a. P ((f(th := x)) a)) \<longleftrightarrow> (\<exists>a. P (f a)) \<and> \<not> P (f th) \<or> P x"
proof
  assume "\<exists>a. P ((f(th := x)) a)"
  then obtain a where a: "P ((f(th := x)) a)" ..
  then show "(\<exists>a. P (f a)) \<and> \<not> P (f th) \<or> P x"
    using assms [of a th] by (cases "a = th") auto
next
  assume "(\<exists>a. P (f a)) \<and> \<not> P (f th) \<or> P x"
  then show "\<exists>a. P ((f(th := x)) a)"
    by (metis fun_upd_apply)
qed

lemma writing_update:
  assumes "mpmc_good C s"
  shows "writing (s\<lparr>que := q, pcs := (pcs s)(th := pc), enqd := h, deqd := d\<rparr>) t \<longleftrightarrow>
      writing s t \<and> \<not> writes (pcs s th) t \<or> writes pc t"
    "reading_out (s\<lparr>que := q, pcs := (pcs s)(th := pc), enqd := h, deqd := d\<rparr>) t \<longleftrightarrow>
      reading_out s t \<and> \<not> reads (pcs s th) t \<or> reads pc t"
  using ex_fun_upd [of "\<lambda>p. writes p t" "pcs s" th pc] ex_fun_upd [of "\<lambda>p. reads p t" "pcs s" th pc]
    mpmc_goodE(7,8) [OF assms, of _ t] unfolding writing_def reading_out_def by simp_all

lemma mpmc_goodI:
  assumes good: "mpmc_good C s"
    and q: "length (cells q) = C" "enqueuePos q = length h" "dequeuePos q \<le> enqueuePos q" "enqueuePos q \<le> dequeuePos q + C"
    and cell: "\<And>i. i < C \<Longrightarrow> cell_ok C h (enqueuePos q) (dequeuePos q)
      (\<lambda>t. writing s t \<and> \<not> writes (pcs s th) t \<or> writes pc t)
      (\<lambda>t. reading_out s t \<and> \<not> reads (pcs s th) t \<or> reads pc t) i (cells q ! i)"
    and pc: "pc_ok C q h pc" "\<And>th'. th' \<noteq> th \<Longrightarrow> pc_ok C q h (pcs s th')"
    and uniq: "\<And>th' t. th' \<noteq> th \<Longrightarrow> writes pc t \<Longrightarrow> \<not> writes (pcs s th') t"
      "\<And>th' t. th' \<noteq> th \<Longrightarrow> reads pc t \<Longrightarrow> \<not> reads (pcs s th') t"
    and d: "\<And>t v. (t, v) \<in> set d \<Longrightarrow> t < dequeuePos q \<and> v = h ! t" "distinct (map fst d)"
      "\<And>t. t < dequeuePos q \<Longrightarrow> t \<in> fst ` set d \<longleftrightarrow> \<not> (reading_out s t \<and> \<not> reads (pcs s th) t \<or> reads pc t)"
  shows "mpmc_good C (s\<lparr>que := q, pcs := (pcs s)(th := pc), enqd := h, deqd := d\<rparr>)"
proof -
  note W = writing_update [OF good]
  have u: "writes (((pcs s)(th := pc)) a) t \<Longrightarrow> writes (((pcs s)(th := pc)) b) t \<Longrightarrow> a = b"
    "reads (((pcs s)(th := pc)) a) t \<Longrightarrow> reads (((pcs s)(th := pc)) b) t \<Longrightarrow> a = b" for a b t
    using uniq [of a t] uniq [of b t] mpmc_goodE(7,8) [OF good, of a t b] by (auto split: if_splits)
  have p: "pc_ok C q h (((pcs s)(th := pc)) a)" for a using pc by simp
  show ?thesis unfolding mpmc_good_def W
    using q cell d p u by (simp add: W del: fun_upd_apply)
qed

lemma mpmc_good_quiet:
  assumes "mpmc_good C s" "pc_ok C (que s) (enqd s) pc'"
    "\<And>t. writes pc' t = writes (pcs s th) t" "\<And>t. reads pc' t = reads (pcs s th) t"
  shows "mpmc_good C (s\<lparr>pcs := (pcs s)(th := pc')\<rparr>)"
proof -
  note G = mpmc_goodE [OF assms(1)]
  have W: "(writing s t \<and> \<not> writes (pcs s th) t \<or> writes pc' t) = writing s t"
    "(reading_out s t \<and> \<not> reads (pcs s th) t \<or> reads pc' t) = reading_out s t" for t
    using assms(3,4) by (auto simp: writing_def reading_out_def)
  have "mpmc_good C (s\<lparr>que := que s, pcs := (pcs s)(th := pc'), enqd := enqd s, deqd := deqd s\<rparr>)"
  proof (rule mpmc_goodI [OF assms(1)])
    show "\<And>th' t. th' \<noteq> th \<Longrightarrow> writes pc' t \<Longrightarrow> \<not> writes (pcs s th') t"
      "\<And>th' t. th' \<noteq> th \<Longrightarrow> reads pc' t \<Longrightarrow> \<not> reads (pcs s th') t"
      using G(7,8) assms(3,4) by blast+
  qed (use G(1-6,9-11) W assms(2) in simp_all)
  then show ?thesis by simp
qed

text \<open>
  The seven steps that change the state; in each, an operation on the same cell as \<open>th\<close>'s contradicts
  the sequence number that \<open>th\<close> relies on.
\<close>

lemma cell_okE:
  assumes "cell_ok C h E D W R i c"
  obtains (free) t where "t mod C = i" "E \<le> t + C" "cseq c = t" "D \<le> t" "t < D + C" "t < E \<longrightarrow> W t"
  | (full) t where "t mod C = i" "E \<le> t + C" "cseq c = Suc t" "t < E" "D \<le> t \<longrightarrow> cdata c = Some (h ! t)" "t < D \<longrightarrow> R t"
  using assms unfolding cell_ok_def by blast

lemma cell_ok_free:
  assumes "t mod C = i" "E \<le> t + C" "cseq c = t" "D \<le> t" "t < D + C" "t < E \<longrightarrow> W t"
  shows "cell_ok C h E D W R i c"
  using assms unfolding cell_ok_def by blast

lemma cell_ok_full:
  assumes "t mod C = i" "E \<le> t + C" "cseq c = Suc t" "t < E" "D \<le> t \<longrightarrow> cdata c = Some (h ! t)" "t < D \<longrightarrow> R t"
  shows "cell_ok C h E D W R i c"
  using assms unfolding cell_ok_def by blast

lemma claim_enq:
  assumes good: "mpmc_good C s" and C: "2 \<le> C" and pc: "pcs s th = EnqCas x (enqueuePos (que s))"
  shows "mpmc_good C (s\<lparr>que := (que s)\<lparr>enqueuePos := Suc (enqueuePos (que s))\<rparr>,
    pcs := (pcs s)(th := EnqWrite x (enqueuePos (que s))), enqd := enqd s @ [x], deqd := deqd s\<rparr>)"
proof -
  note G = mpmc_goodE [OF good]
  let ?E = "enqueuePos (que s)" and ?D = "dequeuePos (que s)"
  have seq: "cseq (cells (que s) ! (?E mod C)) = ?E" using G(6) [of th] pc by simp
  have mod_lt: "t mod C < C" for t using C by simp
  have room: "?E < ?D + C"
    using G(5) [OF mod_lt [of ?E]] seq mod_neighbours [OF C]
    by (cases rule: cell_okE) (metis, metis)
  have old: "(enqd s @ [x]) ! t = enqd s ! t" if "t < ?E" for t using that G(2) by (simp add: nth_append)
  have cell: "cell_ok C (enqd s @ [x]) (Suc ?E) ?D (\<lambda>t. writing s t \<or> t = ?E) (reading_out s) i (cells (que s) ! i)"
    if i: "i < C" for i
    using G(5) [OF i]
  proof (cases rule: cell_okE)
    case (free t)
    have "?E \<noteq> t + C" using free seq by (metis mod_add_self2 add_cancel_right_right C not_numeral_le_zero)
    then show ?thesis using free by (intro cell_ok_free [of t]) (auto simp: less_Suc_eq)
  next
    case (full t)
    have "?E \<noteq> t + C"
    proof
      assume "?E = t + C"
      then have "Suc t = t + C" using full(1,3) seq by (metis mod_add_self2)
      then show False using C by simp
    qed
    then show ?thesis using full by (intro cell_ok_full [of t]) (auto simp: old)
  qed
  show ?thesis
  proof (rule mpmc_goodI [OF good])
    fix th' assume "th' \<noteq> th"
    show "pc_ok C (que s\<lparr>enqueuePos := Suc ?E\<rparr>) (enqd s @ [x]) (pcs s th')"
      using G(6) [of th'] G(2,3) by (cases "pcs s th'") (auto simp: nth_append)
    show "\<not> writes (pcs s th') t" if "writes (EnqWrite x ?E) t" for t
      using that G(6) [of th'] by (auto simp: writes_def)
  next
    show "t < dequeuePos (que s\<lparr>enqueuePos := Suc ?E\<rparr>) \<and> v = (enqd s @ [x]) ! t" if "(t, v) \<in> set (deqd s)" for t v
      using G(9) [OF that] G(3) old by auto
  qed (use G seq room cell old in \<open>auto simp: pc\<close>)
qed

lemma claim_deq:
  assumes good: "mpmc_good C s" and C: "2 \<le> C" and pc: "pcs s th = DeqCas (dequeuePos (que s))"
  shows "mpmc_good C (s\<lparr>que := (que s)\<lparr>dequeuePos := Suc (dequeuePos (que s))\<rparr>,
    pcs := (pcs s)(th := DeqRead (dequeuePos (que s))), enqd := enqd s, deqd := deqd s\<rparr>)"
proof -
  note G = mpmc_goodE [OF good]
  let ?E = "enqueuePos (que s)" and ?D = "dequeuePos (que s)"
  have seq: "cseq (cells (que s) ! (?D mod C)) = Suc ?D" using G(6) [of th] pc by simp
  have mod_lt: "t mod C < C" for t using C by simp
  have avail: "?D < ?E \<and> cdata (cells (que s) ! (?D mod C)) = Some (enqd s ! ?D)"
    using G(5) [OF mod_lt [of ?D]] seq mod_neighbours [OF C]
    by (cases rule: cell_okE) (metis, metis le_refl nat.inject)
  have cell: "cell_ok C (enqd s) ?E (Suc ?D) (writing s) (\<lambda>t. reading_out s t \<or> t = ?D) i (cells (que s) ! i)"
    if i: "i < C" for i
    using G(5) [OF i]
  proof (cases rule: cell_okE)
    case (free t)
    then have "?D \<noteq> t" using seq by auto
    then show ?thesis using free by (intro cell_ok_free [of t]) auto
  next
    case (full t)
    then show ?thesis by (intro cell_ok_full [of t]) (auto simp: less_Suc_eq)
  qed
  show ?thesis
  proof (rule mpmc_goodI [OF good])
    fix th' assume "th' \<noteq> th"
    show "pc_ok C (que s\<lparr>dequeuePos := Suc ?D\<rparr>) (enqd s) (pcs s th')"
      using G(6) [of th'] seq
      by (cases "pcs s th'") (auto simp: Suc_le_eq order_le_less)
    show "\<not> reads (pcs s th') t" if "reads (DeqRead ?D) t" for t
      using that G(6) [of th'] by (auto simp: reads_def)
  next
    show "t < dequeuePos (que s\<lparr>dequeuePos := Suc ?D\<rparr>) \<and> v = enqd s ! t" if "(t, v) \<in> set (deqd s)" for t v
      using G(9) [OF that] by auto
    show "t \<in> fst ` set (deqd s) \<longleftrightarrow> \<not> (reading_out s t \<and> \<not> reads (pcs s th) t \<or> reads (DeqRead ?D) t)"
      if "t < dequeuePos (que s\<lparr>dequeuePos := Suc ?D\<rparr>)" for t
      using that G(11) [of t] G(9) by (cases "t = ?D") (force simp: pc)+
  qed (use G(1-4,10) seq avail cell in \<open>simp_all add: pc\<close>)
qed

text \<open>
  A step on the cell of ticket \<open>t\<close> that leaves the positions as they are: the other cells keep what
  they had, as the tickets that \<open>th\<close> gives up or keeps are \<open>t\<close> alone.
\<close>

lemma other_cell:
  assumes "cell_ok C h E D W R i c" "i \<noteq> t mod C"
    "\<And>u. u \<noteq> t \<Longrightarrow> W u \<Longrightarrow> W' u" "\<And>u. u \<noteq> t \<Longrightarrow> R u \<Longrightarrow> R' u"
  shows "cell_ok C h E D W' R' i c"
  using assms(1)
proof (cases rule: cell_okE)
  case (free u)
  then have "u \<noteq> t" using assms(2) by blast
  then show ?thesis using free assms(3) [of u] by (intro cell_ok_free [of u]) auto
next
  case (full u)
  then have "u \<noteq> t" using assms(2) by blast
  then show ?thesis using full assms(4) [of u] by (intro cell_ok_full [of u]) auto
qed

lemma set_cell_goodI:
  fixes s :: "'a mpmc_sys"
  assumes good: "mpmc_good C s" and C: "2 \<le> C"
    and own: "writes (pcs s th) t \<or> reads (pcs s th) t" "\<And>u. writes pc u \<Longrightarrow> writes (pcs s th) u" "\<And>u. reads pc u \<Longrightarrow> reads (pcs s th) u"
    and new: "cell_ok C (enqd s) (enqueuePos (que s)) (dequeuePos (que s))
      (\<lambda>u. writing s u \<and> \<not> writes (pcs s th) u \<or> writes pc u)
      (\<lambda>u. reading_out s u \<and> \<not> reads (pcs s th) u \<or> reads pc u) (t mod C) c"
    and pc: "pc_ok C (set_cell (t mod C) c (que s)) (enqd s) pc"
      "\<And>th'. th' \<noteq> th \<Longrightarrow> pc_ok C (set_cell (t mod C) c (que s)) (enqd s) (pcs s th')"
    and d: "\<And>u v. (u, v) \<in> set d \<Longrightarrow> u < dequeuePos (que s) \<and> v = enqd s ! u" "distinct (map fst d)"
      "\<And>u. u < dequeuePos (que s) \<Longrightarrow> u \<in> fst ` set d \<longleftrightarrow> \<not> (reading_out s u \<and> \<not> reads (pcs s th) u \<or> reads pc u)"
  shows "mpmc_good C (s\<lparr>que := set_cell (t mod C) c (que s), pcs := (pcs s)(th := pc), enqd := enqd s, deqd := d\<rparr>)"
proof (rule mpmc_goodI [OF good])
  note G = mpmc_goodE [OF good]
  have only: "writes (pcs s th) u \<Longrightarrow> u = t" "reads (pcs s th) u \<Longrightarrow> u = t" for u
    using own(1) by (auto simp: writes_def reads_def)
  show "cell_ok C (enqd s) (enqueuePos (set_cell (t mod C) c (que s))) (dequeuePos (set_cell (t mod C) c (que s)))
      (\<lambda>u. writing s u \<and> \<not> writes (pcs s th) u \<or> writes pc u)
      (\<lambda>u. reading_out s u \<and> \<not> reads (pcs s th) u \<or> reads pc u) i (cells (set_cell (t mod C) c (que s)) ! i)" if "i < C" for i
  proof (cases "i = t mod C")
    case True
    then show ?thesis using new G(1) that by simp
  next
    case False
    then have "cells (set_cell (t mod C) c (que s)) ! i = cells (que s) ! i" using G(1) that by simp
    then show ?thesis unfolding set_cell_simps
      by simp (rule other_cell [OF G(5) [OF that] False]; use only in blast)
  qed
  show "\<And>th' u. th' \<noteq> th \<Longrightarrow> writes pc u \<Longrightarrow> \<not> writes (pcs s th') u"
    "\<And>th' u. th' \<noteq> th \<Longrightarrow> reads pc u \<Longrightarrow> \<not> reads (pcs s th') u"
    using G(7,8) own(2,3) by blast+
qed (use mpmc_goodE(1-4) [OF good] pc d in \<open>simp_all\<close>)

lemma pc_ok_set_cell:
  assumes "pc_ok C q h pc" "2 \<le> C" "length (cells q) = C"
    and "\<And>u. u mod C = t mod C \<Longrightarrow> writes pc u \<Longrightarrow> cseq c = u \<and> (cdata (cells q ! (t mod C)) = Some (h ! u) \<longrightarrow> cdata c = Some (h ! u))"
    and "\<And>u. u mod C = t mod C \<Longrightarrow> reads pc u \<Longrightarrow> cseq c = Suc u \<and> (cdata (cells q ! (t mod C)) = Some (h ! u) \<longrightarrow> cdata c = Some (h ! u))"
    and "enqueuePos q mod C = t mod C \<Longrightarrow> cseq (cells q ! (t mod C)) = enqueuePos q \<Longrightarrow> cseq c = enqueuePos q"
    and "dequeuePos q mod C = t mod C \<Longrightarrow> cseq (cells q ! (t mod C)) = Suc (dequeuePos q) \<Longrightarrow> cseq c = Suc (dequeuePos q)"
  shows "pc_ok C (set_cell (t mod C) c q) h pc"
proof -
  have lt: "u mod C < length (cells q)" for u using assms(2,3) by simp
  show ?thesis using assms(1,4-) by (cases pc) (auto simp: lt)
qed

lemma owned_seq:
  assumes "mpmc_good C s"
  shows "writes (pcs s th) t \<Longrightarrow> cseq (cells (que s) ! (t mod C)) = t"
    "reads (pcs s th) t \<Longrightarrow> cseq (cells (que s) ! (t mod C)) = Suc t"
  using mpmc_goodE(6) [OF assms, of th] by (auto simp: writes_def reads_def)

lemma owner_alone:
  assumes good: "mpmc_good C s" and C: "2 \<le> C" and own: "writes (pcs s th) t \<or> reads (pcs s th) t"
    and other: "th' \<noteq> th" "u mod C = t mod C"
  shows "\<not> writes (pcs s th') u" "\<not> reads (pcs s th') u"
proof -
  have seq: "writes (pcs s th') u \<Longrightarrow> cseq (cells (que s) ! (t mod C)) = u"
    "reads (pcs s th') u \<Longrightarrow> cseq (cells (que s) ! (t mod C)) = Suc u"
    using owned_seq [OF good, of th' u] other(2) by simp_all
  show "\<not> writes (pcs s th') u"
    using own owned_seq [OF good, of th t] seq(1) other mpmc_goodE(7) [OF good, of th t th'] mod_neighbours [OF C, of t]
    by metis
  show "\<not> reads (pcs s th') u"
    using own owned_seq [OF good, of th t] seq(2) other mpmc_goodE(8) [OF good, of th t th'] mod_neighbours [OF C, of u]
    by (metis nat.inject)
qed

lemma enq_write:
  assumes good: "mpmc_good C s" and C: "2 \<le> C" and pc: "pcs s th = EnqWrite x t"
  shows "mpmc_good C (s\<lparr>que := set_cell (t mod C) ((cells (que s) ! (t mod C))\<lparr>cdata := Some x\<rparr>) (que s),
    pcs := (pcs s)(th := EnqPublish t), enqd := enqd s, deqd := deqd s\<rparr>)"
proof (rule set_cell_goodI [OF good C])
  note G = mpmc_goodE [OF good]
  have ok: "t < enqueuePos (que s)" "dequeuePos (que s) \<le> t" "cseq (cells (que s) ! (t mod C)) = t" "enqd s ! t = x"
    using G(6) [of th] pc by auto
  have mine: "writing s t" unfolding writing_def by (rule exI [of _ th]) (simp add: pc)
  show "cell_ok C (enqd s) (enqueuePos (que s)) (dequeuePos (que s))
      (\<lambda>u. writing s u \<and> \<not> writes (pcs s th) u \<or> writes (EnqPublish t) u)
      (\<lambda>u. reading_out s u \<and> \<not> reads (pcs s th) u \<or> reads (EnqPublish t) u) (t mod C)
      ((cells (que s) ! (t mod C))\<lparr>cdata := Some x\<rparr>)"
    using ok G(3,4) by (intro cell_ok_free [of t]) auto
  show "pc_ok C (set_cell (t mod C) ((cells (que s) ! (t mod C))\<lparr>cdata := Some x\<rparr>) (que s)) (enqd s) (pcs s th')"
    if "th' \<noteq> th" for th'
    by (rule pc_ok_set_cell [OF G(6) C G(1)]) (use owner_alone [OF good C _ that] pc in auto)
qed (use mpmc_goodE [OF good] pc C mpmc_goodE(6) [OF good, of th] in \<open>simp_all\<close>)

lemma enq_publish:
  assumes good: "mpmc_good C s" and C: "2 \<le> C" and pc: "pcs s th = EnqPublish t"
  shows "mpmc_good C (s\<lparr>que := set_cell (t mod C) ((cells (que s) ! (t mod C))\<lparr>cseq := Suc t\<rparr>) (que s),
    pcs := (pcs s)(th := EnqRet True), enqd := enqd s, deqd := deqd s\<rparr>)"
proof (rule set_cell_goodI [OF good C])
  note G = mpmc_goodE [OF good]
  have ok: "t < enqueuePos (que s)" "dequeuePos (que s) \<le> t" "cseq (cells (que s) ! (t mod C)) = t"
      "cdata (cells (que s) ! (t mod C)) = Some (enqd s ! t)"
    using G(6) [of th] pc by auto
  show "cell_ok C (enqd s) (enqueuePos (que s)) (dequeuePos (que s))
      (\<lambda>u. writing s u \<and> \<not> writes (pcs s th) u \<or> writes (EnqRet True) u)
      (\<lambda>u. reading_out s u \<and> \<not> reads (pcs s th) u \<or> reads (EnqRet True) u) (t mod C)
      ((cells (que s) ! (t mod C))\<lparr>cseq := Suc t\<rparr>)"
    using ok G(3,4) by (intro cell_ok_full [of t]) auto
  show "pc_ok C (set_cell (t mod C) ((cells (que s) ! (t mod C))\<lparr>cseq := Suc t\<rparr>) (que s)) (enqd s) (pcs s th')"
    if "th' \<noteq> th" for th'
    by (rule pc_ok_set_cell [OF G(6) C G(1)])
      (use owner_alone [OF good C _ that] pc ok mod_neighbours [OF C, of "dequeuePos (que s)"] in auto)
qed (use mpmc_goodE [OF good] pc C mpmc_goodE(6) [OF good, of th] in \<open>simp_all\<close>)

lemma deq_read:
  assumes good: "mpmc_good C s" and C: "2 \<le> C" and pc: "pcs s th = DeqRead t"
  shows "mpmc_good C (s\<lparr>que := set_cell (t mod C) ((cells (que s) ! (t mod C))\<lparr>cdata := None\<rparr>) (que s),
    pcs := (pcs s)(th := DeqPublish (enqd s ! t) t), enqd := enqd s, deqd := deqd s\<rparr>)"
proof (rule set_cell_goodI [OF good C])
  note G = mpmc_goodE [OF good]
  have ok: "t < dequeuePos (que s)" "cseq (cells (que s) ! (t mod C)) = Suc t"
    using G(6) [of th] pc by auto
  have room: "enqueuePos (que s) \<le> t + C"
    using G(5) [of "t mod C"] C ok(2) mod_neighbours [OF C, of t] by (auto elim!: cell_okE)
  show "cell_ok C (enqd s) (enqueuePos (que s)) (dequeuePos (que s))
      (\<lambda>u. writing s u \<and> \<not> writes (pcs s th) u \<or> writes (DeqPublish (enqd s ! t) t) u)
      (\<lambda>u. reading_out s u \<and> \<not> reads (pcs s th) u \<or> reads (DeqPublish (enqd s ! t) t) u) (t mod C)
      ((cells (que s) ! (t mod C))\<lparr>cdata := None\<rparr>)"
    using ok G(3) room by (intro cell_ok_full [of t]) auto
  show "pc_ok C (set_cell (t mod C) ((cells (que s) ! (t mod C))\<lparr>cdata := None\<rparr>) (que s)) (enqd s) (pcs s th')"
    if "th' \<noteq> th" for th'
    by (rule pc_ok_set_cell [OF G(6) C G(1)]) (use owner_alone [OF good C _ that] pc in auto)
  show "u \<in> fst ` set (deqd s) \<longleftrightarrow>
      \<not> (reading_out s u \<and> \<not> reads (pcs s th) u \<or> reads (DeqPublish (enqd s ! t) t) u)"
    if "u < dequeuePos (que s)" for u
  proof -
    have "reading_out s t" unfolding reading_out_def by (rule exI [of _ th]) (simp add: pc)
    then show ?thesis using G(11) [OF that] by (auto simp: pc)
  qed
qed (use mpmc_goodE [OF good] pc C mpmc_goodE(6) [OF good, of th] in \<open>simp_all\<close>)

lemma deq_publish:
  assumes good: "mpmc_good C s" and C: "2 \<le> C" and pc: "pcs s th = DeqPublish v t"
  shows "mpmc_good C (s\<lparr>que := set_cell (t mod C) ((cells (que s) ! (t mod C))\<lparr>cseq := t + C\<rparr>) (que s),
    pcs := (pcs s)(th := DeqRet (Some v)), enqd := enqd s, deqd := deqd s @ [(t, v)]\<rparr>)"
proof (rule set_cell_goodI [OF good C])
  note G = mpmc_goodE [OF good]
  have ok: "t < dequeuePos (que s)" "cseq (cells (que s) ! (t mod C)) = Suc t" "v = enqd s ! t"
    using G(6) [of th] pc by auto
  have mine: "reading_out s t" unfolding reading_out_def by (rule exI [of _ th]) (simp add: pc)
  have fresh: "t \<notin> fst ` set (deqd s)" using G(11) [OF ok(1)] mine by simp
  have room: "enqueuePos (que s) \<le> t + C"
    using G(5) [of "t mod C"] C ok(2) mod_neighbours [OF C, of t] by (auto elim!: cell_okE)
  show "cell_ok C (enqd s) (enqueuePos (que s)) (dequeuePos (que s))
      (\<lambda>u. writing s u \<and> \<not> writes (pcs s th) u \<or> writes (DeqRet (Some v)) u)
      (\<lambda>u. reading_out s u \<and> \<not> reads (pcs s th) u \<or> reads (DeqRet (Some v)) u) (t mod C)
      ((cells (que s) ! (t mod C))\<lparr>cseq := t + C\<rparr>)"
    using ok G(3) room by (intro cell_ok_free [of "t + C"]) auto
  show "pc_ok C (set_cell (t mod C) ((cells (que s) ! (t mod C))\<lparr>cseq := t + C\<rparr>) (que s)) (enqd s) (pcs s th')"
    if "th' \<noteq> th" for th'
    by (rule pc_ok_set_cell [OF G(6) C G(1)])
      (use owner_alone [OF good C _ that] pc ok mod_neighbours [OF C, of t] in auto)
  show "distinct (map fst (deqd s @ [(t, v)]))" using G(10) fresh by simp
  show "u \<in> fst ` set (deqd s @ [(t, v)]) \<longleftrightarrow> \<not> (reading_out s u \<and> \<not> reads (pcs s th) u \<or> reads (DeqRet (Some v)) u)"
    if "u < dequeuePos (que s)" for u
    using G(11) [OF that] by (auto simp: pc)
  show "u < dequeuePos (que s) \<and> w = enqd s ! u" if "(u, w) \<in> set (deqd s @ [(t, v)])" for u w
    using that G(9) ok by auto
qed (use mpmc_goodE [OF good] pc C mpmc_goodE(6) [OF good, of th] in \<open>simp_all\<close>)

section \<open>Every interleaving\<close>

text \<open>
  The contract of a variant: on positions that have not wrapped around, \<open>vcmp\<close> compares.
\<close>

locale mpmc =
  fixes V :: mpmc_variant and k :: nat
  assumes compares: "a < 2 ^ 63 \<Longrightarrow> b < 2 ^ 63 \<Longrightarrow> vcmp V a b < 0 \<longleftrightarrow> a < b"
    and compares_eq: "a < 2 ^ 63 \<Longrightarrow> b < 2 ^ 63 \<Longrightarrow> vcmp V a b = 0 \<longleftrightarrow> a = b"
    and capacity: "0 < k"
begin

lemma capacity2: "2 \<le> (2::nat) ^ k"
  using capacity self_le_power [of 2 k] by simp

lemma seq_bound:
  assumes "mpmc_good (2 ^ k) s"
  shows "cseq (cells (que s) ! slot (2 ^ k) pos) \<le> length (enqd s) + 2 ^ k"
  using mpmc_goodE(5) [OF assms, of "pos mod 2 ^ k"] mpmc_goodE(2-4) [OF assms]
  by (auto simp: slot_mod elim!: cell_okE)

lemma good_micro:
  assumes good: "mpmc_good (2 ^ k) s" and small: "length (enqd s) + 2 ^ k < 2 ^ 63"
    and step: "mpmc_micro V (2 ^ k) weak (pcs s th) (que s) = (pc', q')"
  shows "mpmc_good (2 ^ k) (s\<lparr>que := q', pcs := (pcs s)(th := pc'),
      enqd := enqd s @ note_enq (pcs s th) pc', deqd := deqd s @ note_deq (pcs s th)\<rparr>)"
proof -
  note G = mpmc_goodE [OF good]
  note quiet = mpmc_good_quiet [OF good, of pc' th]
  have nowrap: "szadd t 1 = Suc t" "szadd t (Suc 0) = Suc t" "szadd t (2 ^ k) = t + 2 ^ k" if "t \<le> length (enqd s)" for t
    using that small capacity2 by (simp_all add: szadd_def size_mod_def)
  note seq = seq_bound [OF good]
  have still: "mpmc_good (2 ^ k) (s\<lparr>que := que s, pcs := (pcs s)(th := p), enqd := enqd s @ note_enq p p, deqd := deqd s @ note_deq p\<rparr>)"
    if "pcs s th = p" "note_enq p p = []" "note_deq p = []" for p
    using that good by (simp add: fun_upd_idem)
  show ?thesis
  proof (cases "pcs s th")
    case (EnqTop x pos)
    then show ?thesis
      using quiet step seq [of pos] small G(1-3) G(6) [of th]
      by (cases "pos = enqueuePos (que s)")
        (auto simp: note_enq_def note_deq_def Let_def compares_eq slot_mod split: if_splits)
  next
    case (EnqCas x pos)
    show ?thesis
    proof (cases "enqueuePos (que s) = pos \<and> \<not> weak")
      case True
      then show ?thesis
        using claim_enq [OF good capacity2, of th x] step EnqCas G(2) by (auto simp: note_enq_def note_deq_def nowrap)
    next
      case False
      then show ?thesis
        using quiet step EnqCas G(1-3) by (auto simp: note_enq_def note_deq_def split: if_splits)
    qed
  next
    case (EnqWrite x t)
    then show ?thesis
      using enq_write [OF good capacity2 EnqWrite] step by (auto simp: note_enq_def note_deq_def slot_mod)
  next
    case (EnqPublish t)
    then show ?thesis
      using enq_publish [OF good capacity2 EnqPublish] step G(6) [of th] G(2)
      by (auto simp: note_enq_def note_deq_def slot_mod nowrap)
  next
    case (DeqTop pos)
    then show ?thesis
      using quiet step seq [of pos] small G(1-3) G(6) [of th] compares_eq [of _ "Suc pos"] capacity2
      by (cases "pos = dequeuePos (que s)")
        (auto simp: note_enq_def note_deq_def Let_def slot_mod nowrap split: if_splits)
  next
    case (DeqCas pos)
    show ?thesis
    proof (cases "dequeuePos (que s) = pos \<and> \<not> weak")
      case True
      then show ?thesis
        using claim_deq [OF good capacity2, of th] step DeqCas G(2,3) by (auto simp: note_enq_def note_deq_def nowrap)
    next
      case False
      then show ?thesis
        using quiet step DeqCas G(1-3) by (auto simp: note_enq_def note_deq_def split: if_splits)
    qed
  next
    case (DeqRead t)
    then show ?thesis
      using deq_read [OF good capacity2 DeqRead] step G(6) [of th] by (auto simp: note_enq_def note_deq_def slot_mod)
  next
    case (DeqPublish v t)
    then show ?thesis
      using deq_publish [OF good capacity2 DeqPublish] step G(6) [of th] G(2,3)
      by (auto simp: note_enq_def note_deq_def slot_mod nowrap)
  next
    case (EnqStart x)
    then show ?thesis using quiet step G(2) by (auto simp: note_enq_def note_deq_def)
  next
    case DeqStart
    then show ?thesis using quiet step by (auto simp: note_enq_def note_deq_def)
  next
    case Idle
    then have "pc' = Idle" "q' = que s" using step by simp_all
    then show ?thesis using Idle still [OF Idle] by (simp add: note_enq_def note_deq_def del: fun_upd_apply)
  next
    case (EnqRet b)
    then have "pc' = EnqRet b" "q' = que s" using step by simp_all
    then show ?thesis using EnqRet still [OF EnqRet] by (simp add: note_enq_def note_deq_def del: fun_upd_apply)
  next
    case (DeqRet r)
    then have "pc' = DeqRet r" "q' = que s" using step by simp_all
    then show ?thesis using DeqRet still [OF DeqRet] by (simp add: note_enq_def note_deq_def del: fun_upd_apply)
  qed
qed

lemma good_step:
  assumes "mpmc_good (2 ^ k) s" "length (enqd s) + 2 ^ k < 2 ^ 63" "mpmc_step V (2 ^ k) s t"
  shows "mpmc_good (2 ^ k) t"
  using assms(3)
proof cases
  case (micro weak th pc' q')
  then show ?thesis using good_micro [OF assms(1,2)] by simp
qed (use mpmc_good_quiet [OF assms(1)] in auto)

lemma enqd_grows: "mpmc_step V C s t \<Longrightarrow> length (enqd s) \<le> length (enqd t)"
  by (cases rule: mpmc_step.cases) auto

lemma good_init: "mpmc_init (2 ^ k) s \<Longrightarrow> mpmc_good (2 ^ k) s"
proof -
  assume s: "mpmc_init (2 ^ k) s"
  have "cell_ok (2 ^ k) [] 0 0 (writing s) (reading_out s) i \<lparr>cseq = i, cdata = None\<rparr>" if "i < 2 ^ k" for i
    using that by (intro cell_ok_free [of i]) auto
  then show ?thesis using s by (auto simp: mpmc_good_def mpmc_init_def MPMCQueue_new_def)
qed

end

definition mpmc_inv :: "nat \<Rightarrow> 'a mpmc_sys \<Rightarrow> bool" where
  "mpmc_inv C s \<longleftrightarrow> (length (enqd s) + C < 2 ^ 63 \<longrightarrow> mpmc_good C s)"

sublocale mpmc \<subseteq> steps: inductive_invariant "mpmc_init (2 ^ k)" "mpmc_step V (2 ^ k)" "mpmc_inv (2 ^ k)"
proof
  show "mpmc_inv (2 ^ k) s" if "mpmc_init (2 ^ k) s" for s :: "'a mpmc_sys"
    using good_init [OF that] by (simp add: mpmc_inv_def)
  show "mpmc_inv (2 ^ k) t" if "mpmc_inv (2 ^ k) s" "mpmc_step V (2 ^ k) s t" for s t :: "'a mpmc_sys"
    using that good_step [OF _ _ that(2)] enqd_grows [OF that(2)] by (auto simp: mpmc_inv_def)
qed

context mpmc
begin

lemma reach_good:
  "reach (mpmc_init (2 ^ k)) (mpmc_step V (2 ^ k)) s \<Longrightarrow> length (enqd s) + 2 ^ k < 2 ^ 63 \<Longrightarrow> mpmc_good (2 ^ k) s"
  using steps.reach_inv by (auto simp: mpmc_inv_def)

text \<open>
  A refused \<^verbatim>\<open>enqueue\<close> has seen a full queue, or a \<^verbatim>\<open>dequeue\<close> that still holds the slot it needs.
\<close>

lemma refused_enqueue:
  assumes good: "mpmc_good (2 ^ k) s" and small: "length (enqd s) + 2 ^ k < 2 ^ 63"
    and pc: "pcs s th = EnqTop x pos" and step: "mpmc_micro V (2 ^ k) weak (pcs s th) (que s) = (EnqRet False, q')"
  shows "enqueuePos (que s) = dequeuePos (que s) + 2 ^ k \<or> reading_out s (enqueuePos (que s) - 2 ^ k)"
proof -
  note G = mpmc_goodE [OF good]
  have pos: "pos \<le> enqueuePos (que s)" using G(6) [of th] pc by simp
  have less: "cseq (cells (que s) ! (pos mod 2 ^ k)) < pos"
    using step pc compares seq_bound [OF good, of pos] small pos G(2)
    by (auto simp: Let_def slot_mod split: if_splits)
  have mod_lt: "pos mod 2 ^ k < 2 ^ k" by simp
  have turn: "t + 2 ^ k = pos" if "t mod 2 ^ k = pos mod 2 ^ k" "t < pos" "pos \<le> t + 2 ^ k" for t
    using that mod_same_window [of t "2 ^ k" pos] by fastforce
  show ?thesis
    using G(5) [OF mod_lt]
  proof (cases rule: cell_okE)
    case (free t)
    then show ?thesis using turn [of t] less pos G(4) by auto
  next
    case (full t)
    then have e: "enqueuePos (que s) = t + 2 ^ k" using turn [of t] less pos by simp
    show ?thesis using full(6) e G(4) by (cases "t < dequeuePos (que s)") simp_all
  qed
qed

text \<open>
  A refused \<^verbatim>\<open>dequeue\<close> has seen an empty queue, or an \<^verbatim>\<open>enqueue\<close> that still holds the oldest slot.
\<close>

lemma refused_dequeue:
  assumes good: "mpmc_good (2 ^ k) s" and small: "length (enqd s) + 2 ^ k < 2 ^ 63"
    and pc: "pcs s th = DeqTop pos \<or> pcs s th = DeqRead pos"
    and step: "mpmc_micro V (2 ^ k) weak (pcs s th) (que s) = (DeqRet None, q')"
  shows "dequeuePos (que s) = enqueuePos (que s) \<or> writing s (dequeuePos (que s))"
proof -
  note G = mpmc_goodE [OF good]
  have top: "pcs s th = DeqTop pos" using pc step G(6) [of th] by (auto simp: slot_mod)
  then have pos: "pos \<le> dequeuePos (que s)" using G(6) [of th] by simp
  have mod_lt: "pos mod 2 ^ k < 2 ^ k" by simp
  from pos have less: "cseq (cells (que s) ! (pos mod 2 ^ k)) < Suc pos"
    using step top compares [of _ "Suc pos"] seq_bound [OF good, of pos] small G(2,3) capacity2
    by (auto simp: Let_def slot_mod szadd_def size_mod_def split: if_splits)
  show ?thesis
    using G(5) [OF mod_lt]
  proof (cases rule: cell_okE)
    case (free t)
    then have "t = dequeuePos (que s)" using less pos by simp
    then show ?thesis using free(6) G(3) by auto
  next
    case (full t)
    then have "\<not> pos < t + 2 ^ k" using mod_same_window [of t "2 ^ k" pos] less by auto
    then show ?thesis using full(2) pos G(3) by simp
  qed
qed

text \<open>
  A thread that runs alone in a queue that has room for it succeeds.
\<close>

lemma enqueue_alone:
  assumes good: "mpmc_good (2 ^ k) s" and small: "length (enqd s) + 2 ^ k < 2 ^ 63"
    and room: "enqueuePos (que s) < dequeuePos (que s) + 2 ^ k" "\<not> reading_out s (enqueuePos (que s) - 2 ^ k)"
  shows "pcs (solo V (2 ^ k) th 5 (s\<lparr>pcs := (pcs s)(th := EnqStart x)\<rparr>)) th = EnqRet True"
    "enqd (solo V (2 ^ k) th 5 (s\<lparr>pcs := (pcs s)(th := EnqStart x)\<rparr>)) = enqd s @ [x]"
proof -
  note G = mpmc_goodE [OF good]
  let ?E = "enqueuePos (que s)"
  have mod_lt: "?E mod 2 ^ k < 2 ^ k" by simp
  have seq: "cseq (cells (que s) ! (?E mod 2 ^ k)) = ?E"
    using G(5) [OF mod_lt]
  proof (cases rule: cell_okE)
    case (free t)
    then have "t = ?E" using room(1) G(3) mod_same_window [of t "2 ^ k" ?E] mod_same_window [of ?E "2 ^ k" t]
      by (cases "t \<le> ?E") auto
    then show ?thesis using free by simp
  next
    case (full t)
    have "\<not> ?E < t + 2 ^ k" using mod_same_window [OF full(1)] full(4) by linarith
    then have "?E = t + 2 ^ k" using full(2) by simp
    then show ?thesis using full room by (cases "t < dequeuePos (que s)") auto
  qed
  have sc: "vcmp V ?E ?E = 0" using compares_eq [of ?E ?E] small G(2) by simp
  define s0 where "s0 = s\<lparr>pcs := (pcs s)(th := EnqStart x)\<rparr>"
  have 0: "pcs s0 th = EnqStart x" "que s0 = que s" "enqd s0 = enqd s" by (simp_all add: s0_def)
  define s1 where "s1 = micro_of V (2 ^ k) th s0"
  have 1: "pcs s1 th = EnqTop x ?E" "que s1 = que s" "enqd s1 = enqd s"
    unfolding s1_def by (simp_all add: micro_of_fields 0 note_enq_def)
  define s2 where "s2 = micro_of V (2 ^ k) th s1"
  have 2: "pcs s2 th = EnqCas x ?E" "que s2 = que s" "enqd s2 = enqd s"
    unfolding s2_def by (simp_all add: micro_of_fields 1 note_enq_def slot_mod seq sc)
  define s3 where "s3 = micro_of V (2 ^ k) th s2"
  have 3: "pcs s3 th = EnqWrite x ?E" "enqd s3 = enqd s @ [x]"
    unfolding s3_def by (simp_all add: micro_of_fields 2 note_enq_def)
  define s4 where "s4 = micro_of V (2 ^ k) th s3"
  have 4: "pcs s4 th = EnqPublish ?E" "enqd s4 = enqd s @ [x]"
    unfolding s4_def by (simp_all add: micro_of_fields 3 note_enq_def)
  show "pcs (solo V (2 ^ k) th 5 (s\<lparr>pcs := (pcs s)(th := EnqStart x)\<rparr>)) th = EnqRet True"
    "enqd (solo V (2 ^ k) th 5 (s\<lparr>pcs := (pcs s)(th := EnqStart x)\<rparr>)) = enqd s @ [x]"
    unfolding solo_5 s0_def [symmetric] s1_def [symmetric] s2_def [symmetric] s3_def [symmetric] s4_def [symmetric]
    by (simp_all add: micro_of_fields 4 note_enq_def)
qed

lemma dequeue_alone:
  assumes good: "mpmc_good (2 ^ k) s" and small: "length (enqd s) + 2 ^ k < 2 ^ 63"
    and avail: "dequeuePos (que s) < enqueuePos (que s)" "\<not> writing s (dequeuePos (que s))"
  shows "pcs (solo V (2 ^ k) th 5 (s\<lparr>pcs := (pcs s)(th := DeqStart)\<rparr>)) th = DeqRet (Some (enqd s ! dequeuePos (que s)))"
proof -
  note G = mpmc_goodE [OF good]
  let ?D = "dequeuePos (que s)"
  have mod_lt: "?D mod 2 ^ k < 2 ^ k" by simp
  have seq: "cseq (cells (que s) ! (?D mod 2 ^ k)) = Suc ?D \<and> cdata (cells (que s) ! (?D mod 2 ^ k)) = Some (enqd s ! ?D)"
    using G(5) [OF mod_lt]
  proof (cases rule: cell_okE)
    case (free t)
    then have "t = ?D" using mod_same_window [of ?D "2 ^ k" t] by auto
    then show ?thesis using free(6) avail by simp
  next
    case (full t)
    have "?D \<le> t"
      using full(2) avail(1) mod_same_window [OF full(1)] by linarith
    then have "t = ?D" using full(4) G(4) mod_same_window [OF full(1) [symmetric]] by linarith
    then show ?thesis using full by simp
  qed
  have nowrap: "szadd ?D (Suc 0) = Suc ?D" and sc: "vcmp V (Suc ?D) (Suc ?D) = 0"
    using small avail(1) G(2) capacity2 compares_eq [of "Suc ?D" "Suc ?D"] by (simp_all add: szadd_def size_mod_def)
  define s0 where "s0 = s\<lparr>pcs := (pcs s)(th := DeqStart)\<rparr>"
  have 0: "pcs s0 th = DeqStart" "que s0 = que s" by (simp_all add: s0_def)
  define s1 where "s1 = micro_of V (2 ^ k) th s0"
  have 1: "pcs s1 th = DeqTop ?D" "que s1 = que s"
    unfolding s1_def by (simp_all add: micro_of_fields 0)
  define s2 where "s2 = micro_of V (2 ^ k) th s1"
  have 2: "pcs s2 th = DeqCas ?D" "que s2 = que s"
    unfolding s2_def by (simp_all add: micro_of_fields 1 slot_mod seq sc nowrap)
  define s3 where "s3 = micro_of V (2 ^ k) th s2"
  have 3: "pcs s3 th = DeqRead ?D" "cells (que s3) = cells (que s)"
    unfolding s3_def by (simp_all add: micro_of_fields 2)
  define s4 where "s4 = micro_of V (2 ^ k) th s3"
  have 4: "pcs s4 th = DeqPublish (enqd s ! ?D) ?D"
    unfolding s4_def by (simp add: micro_of_fields 3 slot_mod seq)
  show ?thesis
    unfolding solo_5 s0_def [symmetric] s1_def [symmetric] s2_def [symmetric] s3_def [symmetric] s4_def [symmetric]
    by (simp add: micro_of_fields 4)
qed

end

lemma MPMCQueue_variant_compares:
  assumes "a < 2 ^ 63" "b < 2 ^ 63"
  shows "vcmp MPMCQueue_variant a b = int a - int b"
  using assms by (simp add: MPMCQueue_variant_def to_intptr_def)

interpretation mpmcq: mpmc MPMCQueue_variant "Suc k" for k
  by unfold_locales (simp_all add: MPMCQueue_variant_compares)

lemma solo_reach:
  "reach init (mpmc_step V C) s \<Longrightarrow> reach init (mpmc_step V C) (solo V C th n s)"
proof (induction n arbitrary: s)
  case (Suc n)
  have "mpmc_step V C s (micro_of V C th s)"
    unfolding micro_of_def
    by (cases "mpmc_micro V C False (pcs s th) (que s)") (auto intro!: mpmc_step.micro [of V C False])
  then show ?case using Suc.IH [OF reach_step [OF Suc.prems]] by simp
qed simp

section \<open>Properties\<close>

text \<open>
  C9: whatever the interleaving of the producers and consumers, at most \<open>C\<close> items are in the queue,
  positions count the claimed slots, and every \<^verbatim>\<open>dequeue\<close> that returned an item got the item of its own
  ticket: no ticket is delivered twice, no item is invented, altered or reordered, and the tickets
  below \<^verbatim>\<open>dequeuePos_\<close> are exactly those delivered and those a running \<^verbatim>\<open>dequeue\<close> holds.
\<close>

theorem MPMCQueue_reachable:
  assumes "reach (mpmc_init (2 ^ Suc k)) (mpmc_step MPMCQueue_variant (2 ^ Suc k)) s"
    and "length (enqd s) + 2 ^ Suc k < 2 ^ 63"
  shows "enqueuePos (que s) = length (enqd s) \<and>
    dequeuePos (que s) \<le> enqueuePos (que s) \<and> enqueuePos (que s) \<le> dequeuePos (que s) + 2 ^ Suc k \<and>
    distinct (map fst (deqd s)) \<and> (\<forall>(t, v) \<in> set (deqd s). v = enqd s ! t) \<and>
    {..<dequeuePos (que s)} = fst ` set (deqd s) \<union> {t. reading_out s t} \<and>
    fst ` set (deqd s) \<inter> {t. reading_out s t} = {}"
proof -
  note good = mpmcq.reach_good [OF assms]
  note G = mpmc_goodE [OF good]
  have lt: "t < dequeuePos (que s)" if "reads (pcs s th) t" for th t
    using G(6) [of th] that by (auto simp: reads_def)
  have "{..<dequeuePos (que s)} = fst ` set (deqd s) \<union> {t. reading_out s t}"
    using G(9,11) lt by (fastforce simp: reading_out_def)
  moreover have "fst ` set (deqd s) \<inter> {t. reading_out s t} = {}"
    using G(11) lt by (auto simp: reading_out_def)
  ultimately show ?thesis using G(2-4,9,10) by auto
qed

lemma fresh_enqueue:
  "reach (mpmc_init C) (mpmc_step V C) \<lparr>que = MPMCQueue_new C, pcs = (\<lambda>th. Idle)(th := EnqStart x), enqd = [], deqd = []\<rparr>"
proof -
  let ?s = "\<lparr>que = MPMCQueue_new C, pcs = \<lambda>th. Idle, enqd = [], deqd = []\<rparr>"
  have "reach (mpmc_init C) (mpmc_step V C) ?s" by (rule reach_init) (simp add: mpmc_init_def)
  moreover have "mpmc_step V C ?s (?s\<lparr>pcs := (pcs ?s)(th := EnqStart x)\<rparr>)" by (rule mpmc_step.enqueue) simp
  ultimately show ?thesis using reach_step by force
qed

definition one_item :: "nat mpmc_sys" where
  "one_item = solo MPMCQueue_variant 2 0 5
     \<lparr>que = MPMCQueue_new 2, pcs = (\<lambda>th. Idle)(0 := EnqStart 7), enqd = [], deqd = []\<rparr>"

lemma slot_small [simp]: "slot 2 0 = 0" "slot 2 1 = 1" "slot (Suc 0) pos = 0"
  by (simp_all add: slot_def)

lemma one_item_value:
  "one_item = \<lparr>que = \<lparr>cells = [\<lparr>cseq = 1, cdata = Some 7\<rparr>, \<lparr>cseq = 1, cdata = None\<rparr>], enqueuePos = 1, dequeuePos = 0\<rparr>,
     pcs = (\<lambda>th. Idle)(0 := EnqRet True), enqd = [7], deqd = []\<rparr>"
  by (simp add: one_item_def solo_5 micro_of_def MPMCQueue_new_def upt_rec Let_def MPMCQueue_variant_def to_intptr_def
      szadd_def size_mod_def set_cell_def note_enq_def note_deq_def)

lemma one_item_reach: "reach (mpmc_init 2) (mpmc_step MPMCQueue_variant 2) one_item"
  unfolding one_item_def by (rule solo_reach [OF fresh_enqueue])

theorem MPMCQueue_reachable_witness:
  "enqd one_item = [7] \<and> enqueuePos (que one_item) = 1 \<and> dequeuePos (que one_item) = 0 \<and>
   {..<dequeuePos (que one_item)} = fst ` set (deqd one_item) \<union> {t. reading_out one_item t}"
  using MPMCQueue_reachable [of 0 one_item] one_item_reach by (simp add: one_item_value)

text \<open>
  a refused call had a reason.  An \<^verbatim>\<open>enqueue\<close> returns false only if the queue is full at the step at
  which it decides, or the \<^verbatim>\<open>dequeue\<close> of the item a whole round before is still reading the slot; a
  \<^verbatim>\<open>dequeue\<close> returns false only if the queue is empty at that step, or the \<^verbatim>\<open>enqueue\<close> that claimed the
  oldest slot is still writing it.
\<close>

theorem MPMCQueue_refusals:
  assumes "reach (mpmc_init (2 ^ Suc k)) (mpmc_step MPMCQueue_variant (2 ^ Suc k)) s"
    and "length (enqd s) + 2 ^ Suc k < 2 ^ 63"
  shows "(pcs s th = EnqTop x pos \<longrightarrow> fst (mpmc_micro MPMCQueue_variant (2 ^ Suc k) weak (pcs s th) (que s)) = EnqRet False \<longrightarrow>
      enqueuePos (que s) = dequeuePos (que s) + 2 ^ Suc k \<or> reading_out s (enqueuePos (que s) - 2 ^ Suc k)) \<and>
    (pcs s th = DeqTop pos \<or> pcs s th = DeqRead pos \<longrightarrow> fst (mpmc_micro MPMCQueue_variant (2 ^ Suc k) weak (pcs s th) (que s)) = DeqRet None \<longrightarrow>
      dequeuePos (que s) = enqueuePos (que s) \<or> writing s (dequeuePos (que s)))"
  using mpmcq.refused_enqueue [OF mpmcq.reach_good [OF assms] assms(2), of th x pos weak]
    mpmcq.refused_dequeue [OF mpmcq.reach_good [OF assms] assms(2), of th pos weak]
  by (metis prod.collapse)

definition empty_dequeue :: "nat mpmc_sys" where
  "empty_dequeue = \<lparr>que = MPMCQueue_new 2, pcs = (\<lambda>th. Idle)(0 := DeqTop 0), enqd = [], deqd = []\<rparr>"

lemma empty_dequeue_reach: "reach (mpmc_init 2) (mpmc_step MPMCQueue_variant 2) empty_dequeue"
proof -
  let ?s = "\<lparr>que = MPMCQueue_new 2, pcs = \<lambda>th. Idle, enqd = [], deqd = []\<rparr>"
  have "reach (mpmc_init 2) (mpmc_step MPMCQueue_variant 2) ?s" by (rule reach_init) (simp add: mpmc_init_def)
  moreover have "mpmc_step MPMCQueue_variant 2 ?s (?s\<lparr>pcs := (pcs ?s)(0 := DeqStart)\<rparr>)" by (rule mpmc_step.dequeue) simp
  ultimately have "reach (mpmc_init 2) (mpmc_step MPMCQueue_variant 2) (?s\<lparr>pcs := (pcs ?s)(0 := DeqStart)\<rparr>)"
    by (rule reach_step)
  then show ?thesis using solo_reach [of "mpmc_init 2" MPMCQueue_variant 2 "?s\<lparr>pcs := (pcs ?s)(0 := DeqStart)\<rparr>" 0 1]
    by (simp add: micro_of_def empty_dequeue_def note_enq_def note_deq_def MPMCQueue_new_def)
qed

theorem MPMCQueue_refusals_witness:
  "fst (mpmc_micro MPMCQueue_variant 2 False (pcs empty_dequeue 0) (que empty_dequeue)) = DeqRet None \<and>
   (dequeuePos (que empty_dequeue) = enqueuePos (que empty_dequeue) \<or> writing empty_dequeue (dequeuePos (que empty_dequeue)))"
proof -
  have "fst (mpmc_micro MPMCQueue_variant 2 False (pcs empty_dequeue 0) (que empty_dequeue)) = DeqRet None"
    by (simp add: empty_dequeue_def MPMCQueue_new_def upt_rec MPMCQueue_variant_def to_intptr_def szadd_def size_mod_def)
  then show ?thesis
    using MPMCQueue_refusals [of 0 empty_dequeue 0 undefined 0 False] empty_dequeue_reach
    by (simp add: empty_dequeue_def)
qed

text \<open>
  C40: progress.  In any reachable state, a thread that runs alone completes an \<^verbatim>\<open>enqueue\<close> with true within
  five atomic steps if a slot is free and not still being read, and a \<^verbatim>\<open>dequeue\<close> with the oldest
  item if there is one and it is not still being written; no other thread has to take a step for it.
\<close>

theorem MPMCQueue_alone_succeeds:
  assumes "reach (mpmc_init (2 ^ Suc k)) (mpmc_step MPMCQueue_variant (2 ^ Suc k)) s"
    and "length (enqd s) + 2 ^ Suc k < 2 ^ 63"
  shows "(enqueuePos (que s) < dequeuePos (que s) + 2 ^ Suc k \<and> \<not> reading_out s (enqueuePos (que s) - 2 ^ Suc k) \<longrightarrow>
      pcs (solo MPMCQueue_variant (2 ^ Suc k) th 5 (s\<lparr>pcs := (pcs s)(th := EnqStart x)\<rparr>)) th = EnqRet True \<and>
      enqd (solo MPMCQueue_variant (2 ^ Suc k) th 5 (s\<lparr>pcs := (pcs s)(th := EnqStart x)\<rparr>)) = enqd s @ [x]) \<and>
    (dequeuePos (que s) < enqueuePos (que s) \<and> \<not> writing s (dequeuePos (que s)) \<longrightarrow>
      pcs (solo MPMCQueue_variant (2 ^ Suc k) th 5 (s\<lparr>pcs := (pcs s)(th := DeqStart)\<rparr>)) th = DeqRet (Some (enqd s ! dequeuePos (que s))))"
  using mpmcq.enqueue_alone [OF mpmcq.reach_good [OF assms] assms(2)]
    mpmcq.dequeue_alone [OF mpmcq.reach_good [OF assms] assms(2)] by blast

theorem MPMCQueue_alone_succeeds_witness:
  "pcs (solo MPMCQueue_variant 2 1 5 (one_item\<lparr>pcs := (pcs one_item)(1 := DeqStart)\<rparr>)) 1 = DeqRet (Some 7)"
proof -
  have "\<not> writing one_item 0"
    by (simp add: writing_def one_item_value)
  then show ?thesis
    using MPMCQueue_alone_succeeds [of 0 one_item 1] one_item_reach by (simp add: one_item_value)
qed

text \<open>Two items enqueued one after the other in a queue of capacity 1.\<close>

definition overrun :: "nat mpmc_sys" where
  "overrun = (let s = solo MPMCQueue_variant 1 0 5
       \<lparr>que = MPMCQueue_new 1, pcs = (\<lambda>th. Idle)(0 := EnqStart 7), enqd = [], deqd = []\<rparr>
     in solo MPMCQueue_variant 1 1 5 (s\<lparr>pcs := (pcs s)(1 := EnqStart 8)\<rparr>))"

lemma overrun_value:
  "overrun = \<lparr>que = \<lparr>cells = [\<lparr>cseq = 2, cdata = Some 8\<rparr>], enqueuePos = 2, dequeuePos = 0\<rparr>,
     pcs = (\<lambda>th. Idle)(0 := EnqRet True, 1 := EnqRet True), enqd = [7, 8], deqd = []\<rparr>"
  by (simp add: overrun_def solo_5 micro_of_def MPMCQueue_new_def upt_rec Let_def MPMCQueue_variant_def to_intptr_def
      szadd_def size_mod_def set_cell_def note_enq_def note_deq_def)

lemma overrun_spins:
  assumes "pcs s th = DeqStart \<or> pcs s th = DeqTop 0" "que s = que overrun"
  shows "pcs (solo MPMCQueue_variant 1 th n s) th \<in> {DeqStart, DeqTop 0}"
  using assms
proof (induction n arbitrary: s)
  case (Suc n)
  have "(pcs (micro_of MPMCQueue_variant 1 th s) th = DeqStart \<or> pcs (micro_of MPMCQueue_variant 1 th s) th = DeqTop 0) \<and>
      que (micro_of MPMCQueue_variant 1 th s) = que overrun"
    using Suc.prems by (auto simp: micro_of_def overrun_value MPMCQueue_variant_def to_intptr_def szadd_def size_mod_def)
  then show ?case using Suc.IH by simp
qed auto

text \<open>
  the static assertion accepts capacity 1 (a power of 2), for which the queue is broken: the
  sequence number of the only cell after an \<^verbatim>\<open>enqueue\<close> is already the one that frees it for the next,
  so two items in a row are accepted, the first is overwritten, and a \<^verbatim>\<open>dequeue\<close> then never returns,
  however many steps it takes.
\<close>

theorem MPMCQueue_capacity_one:
  "pcs overrun 0 = EnqRet True \<and> pcs overrun 1 = EnqRet True \<and> enqd overrun = [7, 8] \<and>
   map cdata (cells (que overrun)) = [Some 8] \<and>
   (\<forall>n r. pcs (solo MPMCQueue_variant 1 2 n (overrun\<lparr>pcs := (pcs overrun)(2 := DeqStart)\<rparr>)) 2 \<noteq> DeqRet r)"
proof -
  have "pcs (solo MPMCQueue_variant 1 2 n (overrun\<lparr>pcs := (pcs overrun)(2 := DeqStart)\<rparr>)) 2 \<in> {DeqStart, DeqTop 0}" for n
    by (rule overrun_spins) simp_all
  then have "pcs (solo MPMCQueue_variant 1 2 n (overrun\<lparr>pcs := (pcs overrun)(2 := DeqStart)\<rparr>)) 2 \<noteq> DeqRet r" for n r
    by (metis insertE mpmc_pc.distinct singletonD)
  then show ?thesis by (auto simp: overrun_value)
qed

end
