(* ===== verification/MPMCQueueV2.thy ===== *)
theory MPMCQueueV2
  imports MPMCQueue
begin

text \<open>
  The queue of \<^verbatim>\<open>base/MPMCQueueV2.h\<close>, whose positions and sequence numbers are 128-bit pairs of a value
  and a tag changed by a double-word compare-and-swap.  Its steps are modelled in full, tags included,
  and simulated by those of \<open>MPMCQueue\<close> for the variant that compares unsigned and reloads the
  position after a failed compare-and-swap: the invariant of that theory then holds here too.
\<close>

section \<open>The queue\<close>

record DoubleWord =
  dval :: nat
  dtag :: nat

record 'a Cell2 =
  sequence2 :: DoubleWord
  data2 :: "'a option"

record 'a MPMCQueueV2 =
  cells2 :: "'a Cell2 list"
  enqueuePos2 :: DoubleWord
  dequeuePos2 :: DoubleWord

definition MPMCQueueV2_new :: "nat \<Rightarrow> 'a MPMCQueueV2" where
  "MPMCQueueV2_new capacity = \<lparr>cells2 = map (\<lambda>i. \<lparr>sequence2 = \<lparr>dval = i, dtag = 0\<rparr>, data2 = None\<rparr>) [0..<capacity],
     enqueuePos2 = \<lparr>dval = 0, dtag = 0\<rparr>, dequeuePos2 = \<lparr>dval = 0, dtag = 0\<rparr>\<rparr>"

definition MPMCQueueV2_approximate_size :: "'a MPMCQueueV2 \<Rightarrow> nat" where
  "MPMCQueueV2_approximate_size q = (if dval (enqueuePos2 q) \<ge> dval (dequeuePos2 q)
     then szsub (dval (enqueuePos2 q)) (dval (dequeuePos2 q)) else 0)"

definition MPMCQueueV2_empty :: "'a MPMCQueueV2 \<Rightarrow> bool" where
  "MPMCQueueV2_empty q \<longleftrightarrow> dval (dequeuePos2 q) \<ge> dval (enqueuePos2 q)"

text \<open>
  \<open>dwCAS target expected desired\<close>: the new value of the target and whether the swap was made.
\<close>

definition dwCAS :: "DoubleWord \<Rightarrow> DoubleWord \<Rightarrow> DoubleWord \<Rightarrow> bool \<times> DoubleWord" where
  "dwCAS target expected desired =
     (let old = target; target' = (if target = expected then desired else target) in (old = expected, target'))"

definition set_cell2 :: "nat \<Rightarrow> 'a Cell2 \<Rightarrow> 'a MPMCQueueV2 \<Rightarrow> 'a MPMCQueueV2" where
  "set_cell2 i c q = q\<lparr>cells2 := (cells2 q)[i := c]\<rparr>"

text \<open>One atomic step of a call, as \<open>mpmc_micro\<close> has it for the other queue.\<close>

fun mpmc2_micro :: "nat \<Rightarrow> ('a, DoubleWord) mpmc_pc \<Rightarrow> 'a MPMCQueueV2 \<Rightarrow> ('a, DoubleWord) mpmc_pc \<times> 'a MPMCQueueV2" where
  "mpmc2_micro C (EnqStart x) q = (EnqTop x (enqueuePos2 q), q)"
| "mpmc2_micro C (EnqTop x pos) q =
     (let seq = sequence2 (cells2 q ! slot C (dval pos)) in
      (if dval seq = dval pos then EnqCas x pos else if dval seq < dval pos then EnqRet False else EnqStart x, q))"
| "mpmc2_micro C (EnqCas x pos) q =
     (case dwCAS (enqueuePos2 q) pos \<lparr>dval = szadd (dval pos) 1, dtag = dtag pos\<rparr> of
        (ok, p) \<Rightarrow> (if ok then EnqWrite x pos else EnqStart x, q\<lparr>enqueuePos2 := p\<rparr>))"
| "mpmc2_micro C (EnqWrite x pos) q =
     (EnqPublish pos, set_cell2 (slot C (dval pos)) ((cells2 q ! slot C (dval pos))\<lparr>data2 := Some x\<rparr>) q)"
| "mpmc2_micro C (EnqPublish pos) q =
     (EnqRet True, set_cell2 (slot C (dval pos))
        ((cells2 q ! slot C (dval pos))\<lparr>sequence2 := \<lparr>dval = szadd (dval pos) 1, dtag = dtag pos\<rparr>\<rparr>) q)"
| "mpmc2_micro C DeqStart q = (DeqTop (dequeuePos2 q), q)"
| "mpmc2_micro C (DeqTop pos) q =
     (let seq = sequence2 (cells2 q ! slot C (dval pos)) in
      (if dval seq = szadd (dval pos) 1 then DeqCas pos
       else if dval seq < szadd (dval pos) 1 then DeqRet None else DeqStart, q))"
| "mpmc2_micro C (DeqCas pos) q =
     (case dwCAS (dequeuePos2 q) pos \<lparr>dval = szadd (dval pos) 1, dtag = dtag pos\<rparr> of
        (ok, p) \<Rightarrow> (if ok then DeqRead pos else DeqStart, q\<lparr>dequeuePos2 := p\<rparr>))"
| "mpmc2_micro C (DeqRead pos) q =
     (case data2 (cells2 q ! slot C (dval pos)) of
        None \<Rightarrow> (DeqRet None, q)
      | Some v \<Rightarrow> (DeqPublish v pos, set_cell2 (slot C (dval pos)) ((cells2 q ! slot C (dval pos))\<lparr>data2 := None\<rparr>) q))"
| "mpmc2_micro C (DeqPublish v pos) q =
     (DeqRet (Some v), set_cell2 (slot C (dval pos))
        ((cells2 q ! slot C (dval pos))\<lparr>sequence2 := \<lparr>dval = szadd (dval pos) C, dtag = szadd (dtag pos) 1\<rparr>\<rparr>) q)"
| "mpmc2_micro C pc q = (pc, q)"

record 'a mpmc2_sys =
  que2 :: "'a MPMCQueueV2"
  pcs2 :: "nat \<Rightarrow> ('a, DoubleWord) mpmc_pc"

inductive mpmc2_step :: "nat \<Rightarrow> 'a mpmc2_sys \<Rightarrow> 'a mpmc2_sys \<Rightarrow> bool"
  for C :: nat where
  enqueue: "pcs2 s th = Idle \<Longrightarrow> mpmc2_step C s (s\<lparr>pcs2 := (pcs2 s)(th := EnqStart x)\<rparr>)"
| dequeue: "pcs2 s th = Idle \<Longrightarrow> mpmc2_step C s (s\<lparr>pcs2 := (pcs2 s)(th := DeqStart)\<rparr>)"
| micro: "mpmc2_micro C (pcs2 s th) (que2 s) = (pc', q') \<Longrightarrow>
    mpmc2_step C s (s\<lparr>que2 := q', pcs2 := (pcs2 s)(th := pc')\<rparr>)"
| ret: "pcs2 s th = EnqRet b \<or> pcs2 s th = DeqRet r \<Longrightarrow> mpmc2_step C s (s\<lparr>pcs2 := (pcs2 s)(th := Idle)\<rparr>)"

definition mpmc2_init :: "nat \<Rightarrow> 'a mpmc2_sys \<Rightarrow> bool" where
  "mpmc2_init C s \<longleftrightarrow> que2 s = MPMCQueueV2_new C \<and> pcs2 s = (\<lambda>th. Idle)"

section \<open>Dropping the tags\<close>

definition V2_variant :: mpmc_variant where
  "V2_variant = \<lparr>vcmp = (\<lambda>seq pos. int seq - int pos), vreload = True\<rparr>"

interpretation mpmcv2: mpmc V2_variant "Suc k" for k
  by unfold_locales (simp_all add: V2_variant_def)

definition untag :: "'a MPMCQueueV2 \<Rightarrow> 'a MPMCQueue" where
  "untag q = \<lparr>cells = map (\<lambda>c. \<lparr>cseq = dval (sequence2 c), cdata = data2 c\<rparr>) (cells2 q),
     enqueuePos = dval (enqueuePos2 q), dequeuePos = dval (dequeuePos2 q)\<rparr>"

abbreviation untag_pc :: "('a, DoubleWord) mpmc_pc \<Rightarrow> ('a, nat) mpmc_pc" where
  "untag_pc \<equiv> map_mpmc_pc (\<lambda>x. x) dval"

text \<open>The tags of the two positions never leave 0, nor do those of the local copies.\<close>

definition tags_zero :: "nat \<Rightarrow> 'a mpmc2_sys \<Rightarrow> bool" where
  "tags_zero C s \<longleftrightarrow> length (cells2 (que2 s)) = C \<and> dtag (enqueuePos2 (que2 s)) = 0 \<and> dtag (dequeuePos2 (que2 s)) = 0 \<and>
     (\<forall>th. \<forall>pos \<in> set2_mpmc_pc (pcs2 s th). dtag pos = 0)"

lemma DoubleWord_eq: "a = b \<longleftrightarrow> dval a = dval b \<and> dtag a = dtag b" for a b :: DoubleWord
  by (cases a; cases b) simp

lemma untag_simps [simp]:
  "enqueuePos (untag q) = dval (enqueuePos2 q)" "dequeuePos (untag q) = dval (dequeuePos2 q)"
  "i < length (cells2 q) \<Longrightarrow> cells (untag q) ! i = \<lparr>cseq = dval (sequence2 (cells2 q ! i)), cdata = data2 (cells2 q ! i)\<rparr>"
  "untag (q\<lparr>enqueuePos2 := p\<rparr>) = (untag q)\<lparr>enqueuePos := dval p\<rparr>"
  "untag (q\<lparr>dequeuePos2 := p\<rparr>) = (untag q)\<lparr>dequeuePos := dval p\<rparr>"
  "untag (set_cell2 i c q) = set_cell i \<lparr>cseq = dval (sequence2 c), cdata = data2 c\<rparr> (untag q)"
  by (simp_all add: untag_def set_cell2_def set_cell_def map_update)

lemma micro_untag:
  assumes len: "length (cells2 q) = 2 ^ k"
    and tags: "dtag (enqueuePos2 q) = 0" "dtag (dequeuePos2 q) = 0" "\<forall>pos \<in> set2_mpmc_pc pc. dtag pos = 0"
    and step: "mpmc2_micro (2 ^ k) pc q = (pc', q')"
  shows "mpmc_micro V2_variant (2 ^ k) False (untag_pc pc) (untag q) = (untag_pc pc', untag q')"
    and "length (cells2 q') = 2 ^ k \<and> dtag (enqueuePos2 q') = 0 \<and> dtag (dequeuePos2 q') = 0 \<and>
      (\<forall>pos \<in> set2_mpmc_pc pc'. dtag pos = 0)"
proof -
  have lt: "slot (2 ^ k) pos < length (cells2 q)" for pos by (simp add: slot_mod len)
  show "mpmc_micro V2_variant (2 ^ k) False (untag_pc pc) (untag q) = (untag_pc pc', untag q')"
    using step tags lt
    by (cases pc) (auto simp: V2_variant_def dwCAS_def Let_def DoubleWord_eq split: if_splits option.splits)
  show "length (cells2 q') = 2 ^ k \<and> dtag (enqueuePos2 q') = 0 \<and> dtag (dequeuePos2 q') = 0 \<and>
      (\<forall>pos \<in> set2_mpmc_pc pc'. dtag pos = 0)"
    using step tags len
    by (cases pc) (auto simp: dwCAS_def Let_def set_cell2_def split: if_splits option.splits)
qed

definition simulates :: "nat \<Rightarrow> 'a mpmc2_sys \<Rightarrow> 'a mpmc_sys \<Rightarrow> bool" where
  "simulates C s2 s \<longleftrightarrow> que s = untag (que2 s2) \<and> pcs s = (\<lambda>th. untag_pc (pcs2 s2 th)) \<and> tags_zero C s2"

lemma simulates_step:
  assumes sim: "simulates (2 ^ k) s2 s" and step: "mpmc2_step (2 ^ k) s2 t2"
  shows "\<exists>t. mpmc_step V2_variant (2 ^ k) s t \<and> simulates (2 ^ k) t2 t"
  using step
proof cases
  case (micro th pc' q')
  have inv: "length (cells2 (que2 s2)) = 2 ^ k" "dtag (enqueuePos2 (que2 s2)) = 0" "dtag (dequeuePos2 (que2 s2)) = 0"
    "\<forall>pos \<in> set2_mpmc_pc (pcs2 s2 th). dtag pos = 0" and abs: "que s = untag (que2 s2)" "pcs s th = untag_pc (pcs2 s2 th)"
    using sim by (auto simp: simulates_def tags_zero_def)
  note m = micro_untag [OF inv micro(2)]
  show ?thesis
    by (rule exI, rule conjI, rule mpmc_step.micro [of _ _ False s th])
      (use m sim in \<open>auto simp: abs simulates_def tags_zero_def micro(1) fun_eq_iff\<close>)
next
  case (enqueue th x)
  then have "mpmc_step V2_variant (2 ^ k) s (s\<lparr>pcs := (pcs s)(th := EnqStart x)\<rparr>)"
    "simulates (2 ^ k) t2 (s\<lparr>pcs := (pcs s)(th := EnqStart x)\<rparr>)"
    using sim by (auto simp: simulates_def tags_zero_def fun_eq_iff intro!: mpmc_step.enqueue)
  then show ?thesis by blast
next
  case (dequeue th)
  then have "mpmc_step V2_variant (2 ^ k) s (s\<lparr>pcs := (pcs s)(th := DeqStart)\<rparr>)"
    "simulates (2 ^ k) t2 (s\<lparr>pcs := (pcs s)(th := DeqStart)\<rparr>)"
    using sim by (auto simp: simulates_def tags_zero_def fun_eq_iff intro!: mpmc_step.dequeue)
  then show ?thesis by blast
next
  case (ret th b r)
  then have "mpmc_step V2_variant (2 ^ k) s (s\<lparr>pcs := (pcs s)(th := Idle)\<rparr>)"
    "simulates (2 ^ k) t2 (s\<lparr>pcs := (pcs s)(th := Idle)\<rparr>)"
    using sim by (auto simp: simulates_def tags_zero_def fun_eq_iff option.map_ident intro!: mpmc_step.ret [of s th b r])
  then show ?thesis by blast
qed

lemma simulates_init:
  assumes "mpmc2_init C s2"
  shows "simulates C s2 \<lparr>que = MPMCQueue_new C, pcs = \<lambda>th. Idle, enqd = [], deqd = []\<rparr>"
  using assms by (auto simp: simulates_def mpmc2_init_def tags_zero_def MPMCQueueV2_new_def MPMCQueue_new_def untag_def)

lemma simulates_reach:
  "reach (mpmc2_init (2 ^ k)) (mpmc2_step (2 ^ k)) s2 \<Longrightarrow>
   \<exists>s. reach (mpmc_init (2 ^ k)) (mpmc_step V2_variant (2 ^ k)) s \<and> simulates (2 ^ k) s2 s"
proof (induction rule: reach.induct)
  case (reach_init s2)
  let ?s = "\<lparr>que = MPMCQueue_new (2 ^ k), pcs = \<lambda>th. Idle, enqd = [], deqd = []\<rparr>"
  have "reach (mpmc_init (2 ^ k)) (mpmc_step V2_variant (2 ^ k)) ?s"
    by (rule reach.reach_init) (simp add: mpmc_init_def)
  then show ?case using simulates_init [OF reach_init] by blast
next
  case (reach_step s2 t2)
  then show ?case using simulates_step reach.reach_step by metis
qed

section \<open>Properties\<close>

text \<open>
  C12: the queue with the tagged double words does what the queue of \<^verbatim>\<open>MPMCQueue.h\<close> does.  Every
  reachable state is, with its tags dropped, one that the untagged algorithm reaches, whose invariant
  it therefore has (at most \<open>C\<close> items, each ticket delivered once with its own item); and the tags of the two
  positions are 0 in all of them, so that they never tell two equal values apart.
\<close>

theorem MPMCQueueV2_refines:
  assumes "reach (mpmc2_init (2 ^ Suc k)) (mpmc2_step (2 ^ Suc k)) s2"
  shows "\<exists>s. reach (mpmc_init (2 ^ Suc k)) (mpmc_step V2_variant (2 ^ Suc k)) s \<and>
    que s = untag (que2 s2) \<and> pcs s = (\<lambda>th. untag_pc (pcs2 s2 th)) \<and>
    (length (enqd s) + 2 ^ Suc k < 2 ^ 63 \<longrightarrow> mpmc_good (2 ^ Suc k) s) \<and>
    dtag (enqueuePos2 (que2 s2)) = 0 \<and> dtag (dequeuePos2 (que2 s2)) = 0"
  using simulates_reach [OF assms] mpmcv2.reach_good by (fastforce simp: simulates_def tags_zero_def)

theorem MPMCQueueV2_refines_witness:
  "\<exists>s :: nat mpmc_sys. reach (mpmc_init 2) (mpmc_step V2_variant 2) s \<and> que s = untag (MPMCQueueV2_new 2) \<and>
     pcs s = (\<lambda>th. Idle)(0 := EnqStart 7)"
proof -
  let ?s = "\<lparr>que2 = MPMCQueueV2_new 2, pcs2 = \<lambda>th. Idle\<rparr> :: nat mpmc2_sys"
  have "reach (mpmc2_init 2) (mpmc2_step 2) ?s" by (rule reach_init) (simp add: mpmc2_init_def)
  moreover have "mpmc2_step 2 ?s (?s\<lparr>pcs2 := (pcs2 ?s)(0 := EnqStart 7)\<rparr>)" by (rule mpmc2_step.enqueue) simp
  ultimately have "reach (mpmc2_init (2 ^ Suc 0)) (mpmc2_step (2 ^ Suc 0)) (?s\<lparr>pcs2 := (pcs2 ?s)(0 := EnqStart 7)\<rparr>)"
    using reach_step by simp
  from MPMCQueueV2_refines [OF this] show ?thesis by (auto simp: fun_eq_iff)
qed

end
