(* ===== verification/Socket.thy ===== *)
theory Socket
  imports Channel
begin

unbundle bit_operations_syntax

text \<open>
  Addresses and sockets: \<^verbatim>\<open>net/InetAddress.h\<close>, \<^verbatim>\<open>net/Socket.h\<close> and \<^verbatim>\<open>net/Socket.cpp\<close>.

  A \<open>sockaddr_in\<close> holds the port and the address as the words that a little-endian host loads from the
  structure, whose bytes are in network order.  The system calls are parameters, the fields of \<open>os\<close>
  over a state \<open>'o\<close> of the kernel; a call that fails returns -1 and its error number.
\<close>

section \<open>Addresses\<close>

record sockaddr_in =
  sin_family :: "16 word"
  sin_port :: "16 word"
  s_addr :: "32 word"

definition AF_INET :: "16 word" where "AF_INET = 2"

definition zero_sockaddr :: sockaddr_in where
  "zero_sockaddr = \<lparr>sin_family = 0, sin_port = 0, s_addr = 0\<rparr>"

definition htons :: "16 word \<Rightarrow> 16 word" where
  "htons w = push_bit 8 w OR drop_bit 8 w"

abbreviation ntohs :: "16 word \<Rightarrow> 16 word" where
  "ntohs \<equiv> htons"

text \<open>The byte at offset \<open>i\<close> of the address.\<close>

definition addr_byte :: "nat \<Rightarrow> 32 word \<Rightarrow> nat" where
  "addr_byte i a = unat (take_bit 8 (drop_bit (8 * i) a))"

definition inet_ntop :: "32 word \<Rightarrow> string" where
  "inet_ntop a = dec_nat (addr_byte 0 a) @ ''.'' @ dec_nat (addr_byte 1 a) @ ''.'' @
     dec_nat (addr_byte 2 a) @ ''.'' @ dec_nat (addr_byte 3 a)"

text \<open>\<open>inet_addr\<close> is the C function that reads a dotted address.\<close>

definition InetAddress_new :: "(string \<Rightarrow> 32 word) \<Rightarrow> 16 word \<Rightarrow> string \<Rightarrow> sockaddr_in" where
  "InetAddress_new inet_addr port ip = \<lparr>sin_family = AF_INET, sin_port = htons port, s_addr = inet_addr ip\<rparr>"

text \<open>Text for the 64 bytes of \<open>buf\<close>; the terminating null must fit.\<close>

definition in_buf64 :: "string \<Rightarrow> string result" where
  "in_buf64 s = (if length s < 64 then Inr s else Inl Undefined)"

definition InetAddress_toIp :: "sockaddr_in \<Rightarrow> string result" where
  "InetAddress_toIp a = in_buf64 (inet_ntop (s_addr a))"

definition InetAddress_toPort :: "sockaddr_in \<Rightarrow> 16 word" where
  "InetAddress_toPort a = ntohs (sin_port a)"

definition InetAddress_toIpPort :: "sockaddr_in \<Rightarrow> string result" where
  "InetAddress_toIpPort a = bindR (in_buf64 (inet_ntop (s_addr a))) (\<lambda>buf.
     let port = ntohs (sin_port a) in in_buf64 (buf @ '':'' @ dec_nat (unat port)))"

section \<open>System calls\<close>

record 'o os =
  os_socket :: "bool \<Rightarrow> 'o \<Rightarrow> int \<times> 'o"            \<comment> \<open>a stream or a datagram socket\<close>
  os_bind :: "int \<Rightarrow> sockaddr_in \<Rightarrow> 'o \<Rightarrow> int \<times> 'o"
  os_listen :: "int \<Rightarrow> 'o \<Rightarrow> int \<times> 'o"
  os_accept :: "int \<Rightarrow> 'o \<Rightarrow> (int \<times> sockaddr_in \<times> int) \<times> 'o"
  os_connect :: "int \<Rightarrow> sockaddr_in \<Rightarrow> 'o \<Rightarrow> int \<times> 'o"
  os_shutdown_write :: "int \<Rightarrow> 'o \<Rightarrow> int \<times> 'o"
  os_setsockopt :: "int \<Rightarrow> string \<Rightarrow> int \<Rightarrow> 'o \<Rightarrow> 'o"
  os_getsockopt_error :: "int \<Rightarrow> 'o \<Rightarrow> int \<times> int \<times> int"   \<comment> \<open>result, option value, error number\<close>
  os_getsockname :: "int \<Rightarrow> 'o \<Rightarrow> int \<times> sockaddr_in"
  os_getpeername :: "int \<Rightarrow> 'o \<Rightarrow> int \<times> sockaddr_in"
  os_getfl :: "int \<Rightarrow> 'o \<Rightarrow> 32 word"
  os_setfl :: "int \<Rightarrow> 32 word \<Rightarrow> 'o \<Rightarrow> 'o"
  os_getfd :: "int \<Rightarrow> 'o \<Rightarrow> 32 word"
  os_setfd :: "int \<Rightarrow> 32 word \<Rightarrow> 'o \<Rightarrow> 'o"
  os_close :: "int \<Rightarrow> 'o \<Rightarrow> 'o"
  os_open_null :: "'o \<Rightarrow> int \<times> 'o"
  os_log_errno :: "int \<Rightarrow> int"                 \<comment> \<open>the error number that a log statement leaves behind\<close>

definition O_NONBLOCK :: "32 word" where "O_NONBLOCK = 2048"
definition FD_CLOEXEC :: "32 word" where "FD_CLOEXEC = 1"

section \<open>Sockets\<close>

text \<open>A \<^verbatim>\<open>Socket\<close> is its descriptor.  The result of \<^verbatim>\<open>bind\<close> is thrown away.\<close>

definition Socket_destroy :: "('o, 'y) os_scheme \<Rightarrow> int \<Rightarrow> 'o \<Rightarrow> 'o" where
  "Socket_destroy Y sockfd k = (if sockfd \<ge> 0 then os_close Y sockfd k else k)"

definition Socket_bindAddress :: "('o, 'y) os_scheme \<Rightarrow> int \<Rightarrow> sockaddr_in \<Rightarrow> 'o \<Rightarrow> 'o" where
  "Socket_bindAddress Y sockfd addr k = (case os_bind Y sockfd addr k of (ret, k') \<Rightarrow> k')"

definition Socket_listen :: "('o, 'y) os_scheme \<Rightarrow> int \<Rightarrow> 'o \<Rightarrow> 'o result" where
  "Socket_listen Y sockfd k = (case os_listen Y sockfd k of (ret, k') \<Rightarrow> if ret < 0 then Inl Aborted else Inr k')"

text \<open>The address of the peer is written only when the call succeeds.\<close>

definition Socket_accept :: "('o, 'y) os_scheme \<Rightarrow> int \<Rightarrow> sockaddr_in \<Rightarrow> 'o \<Rightarrow> (int \<times> sockaddr_in \<times> int) \<times> 'o" where
  "Socket_accept Y sockfd peeraddr k = (case os_accept Y sockfd k of ((connfd, addr, err), k') \<Rightarrow>
     ((connfd, if connfd \<ge> 0 then addr else peeraddr, err), k'))"

definition Socket_shutdownWrite :: "('o, 'y) os_scheme \<Rightarrow> int \<Rightarrow> 'o \<Rightarrow> 'o" where
  "Socket_shutdownWrite Y sockfd k = snd (os_shutdown_write Y sockfd k)"

definition Socket_setTcpNoDelayStatic :: "('o, 'y) os_scheme \<Rightarrow> int \<Rightarrow> bool \<Rightarrow> 'o \<Rightarrow> 'o" where
  "Socket_setTcpNoDelayStatic Y f on = os_setsockopt Y f ''TCP_NODELAY'' (if on then 1 else 0)"

definition Socket_setReuseAddrStatic :: "('o, 'y) os_scheme \<Rightarrow> int \<Rightarrow> bool \<Rightarrow> 'o \<Rightarrow> 'o" where
  "Socket_setReuseAddrStatic Y f on = os_setsockopt Y f ''SO_REUSEADDR'' (if on then 1 else 0)"

definition Socket_setReusePortStatic :: "('o, 'y) os_scheme \<Rightarrow> int \<Rightarrow> bool \<Rightarrow> 'o \<Rightarrow> 'o" where
  "Socket_setReusePortStatic Y f on = os_setsockopt Y f ''SO_REUSEPORT'' (if on then 1 else 0)"

definition Socket_setKeepAliveStatic :: "('o, 'y) os_scheme \<Rightarrow> int \<Rightarrow> bool \<Rightarrow> 'o \<Rightarrow> 'o" where
  "Socket_setKeepAliveStatic Y f on = os_setsockopt Y f ''SO_KEEPALIVE'' (if on then 1 else 0)"

definition Socket_getSocketError :: "('o, 'y) os_scheme \<Rightarrow> int \<Rightarrow> 'o \<Rightarrow> int" where
  "Socket_getSocketError Y sockfd k = (case os_getsockopt_error Y sockfd k of (ret, optval, err) \<Rightarrow>
     if ret < 0 then err else optval)"

definition createNonblockingOrDie :: "('o, 'y) os_scheme \<Rightarrow> 'o \<Rightarrow> (int \<times> 'o) result" where
  "createNonblockingOrDie Y k = (case os_socket Y True k of (sockfd, k') \<Rightarrow>
     if sockfd < 0 then Inl Aborted else Inr (sockfd, k'))"

definition createNonblockingUdpOrDie :: "('o, 'y) os_scheme \<Rightarrow> 'o \<Rightarrow> (int \<times> 'o) result" where
  "createNonblockingUdpOrDie Y k = (case os_socket Y False k of (sockfd, k') \<Rightarrow>
     if sockfd < 0 then Inl Aborted else Inr (sockfd, k'))"

definition setNonBlockAndCloseOnExec :: "('o, 'y) os_scheme \<Rightarrow> int \<Rightarrow> 'o \<Rightarrow> 'o" where
  "setNonBlockAndCloseOnExec Y sockfd k =
     (let k1 = os_setfl Y sockfd (os_getfl Y sockfd k OR O_NONBLOCK) k
      in os_setfd Y sockfd (os_getfd Y sockfd k1 OR FD_CLOEXEC) k1)"

definition getLocalAddr :: "('o, 'y) os_scheme \<Rightarrow> int \<Rightarrow> 'o \<Rightarrow> sockaddr_in" where
  "getLocalAddr Y sockfd k = (case os_getsockname Y sockfd k of (ret, a) \<Rightarrow> if ret < 0 then zero_sockaddr else a)"

definition getPeerAddr :: "('o, 'y) os_scheme \<Rightarrow> int \<Rightarrow> 'o \<Rightarrow> sockaddr_in" where
  "getPeerAddr Y sockfd k = (case os_getpeername Y sockfd k of (ret, a) \<Rightarrow> if ret < 0 then zero_sockaddr else a)"

definition isSelfConnect :: "('o, 'y) os_scheme \<Rightarrow> int \<Rightarrow> 'o \<Rightarrow> bool" where
  "isSelfConnect Y sockfd k = (let l = getLocalAddr Y sockfd k; p = getPeerAddr Y sockfd k in
     if sin_family l = AF_INET then sin_port l = sin_port p \<and> s_addr l = s_addr p else False)"

section \<open>Printed addresses\<close>

lemma htons_htons [simp]: "htons (htons w) = w"
  by (rule bit_word_eqI) (auto simp: htons_def bit_simps)

lemma htons_eq [simp]: "htons v = htons w \<longleftrightarrow> v = w"
  by (metis htons_htons)

lemma addr_byte_less: "addr_byte i a < 256"
  using take_bit_nat_less_exp [of 8 "unat (drop_bit (8 * i) a)"] by (simp add: addr_byte_def unsigned_take_bit_eq)

lemma addr_bytes_inj:
  assumes "\<And>i. i < 4 \<Longrightarrow> addr_byte i a = addr_byte i b"
  shows "a = b"
proof (rule bit_word_eqI)
  fix n assume "n < LENGTH(32)"
  then have n: "n div 8 < 4" "n mod 8 < 8" "8 * (n div 8) + n mod 8 = n" by auto
  have "take_bit 8 (drop_bit (8 * (n div 8)) a) = take_bit 8 (drop_bit (8 * (n div 8)) b)"
    using assms [OF n(1)] unfolding addr_byte_def by (metis word_unat_eq_iff)
  then have "bit (take_bit 8 (drop_bit (8 * (n div 8)) a)) (n mod 8) = bit (take_bit 8 (drop_bit (8 * (n div 8)) b)) (n mod 8)"
    by simp
  then show "bit a n = bit b n" using n by (simp add: bit_simps)
qed

lemma split_unique:
  "c \<notin> set a \<Longrightarrow> c \<notin> set a' \<Longrightarrow> a @ c # r = a' @ c # r' \<longleftrightarrow> a = a' \<and> r = r'"
proof (induction a arbitrary: a')
  case Nil
  then show ?case by (cases a') auto
next
  case (Cons x a)
  then show ?case by (cases a') auto
qed

lemma dec_nat_no_colon: "CHR '':'' \<notin> set (dec_nat n)"
proof
  assume "CHR '':'' \<in> set (dec_nat n)"
  then obtain d where d: "d < 10" "CHR '':'' = digit d" using dec_nat_digits by blast
  have "of_char (CHR '':'') = (58::nat)" by simp
  then show False using d of_char_digit [OF d(1)] by simp
qed

lemma inet_ntop_inj: "inet_ntop a = inet_ntop b \<Longrightarrow> a = b"
proof -
  assume "inet_ntop a = inet_ntop b"
  then have "addr_byte 0 a = addr_byte 0 b \<and> addr_byte 1 a = addr_byte 1 b \<and> addr_byte 2 a = addr_byte 2 b \<and> addr_byte 3 a = addr_byte 3 b"
    by (simp add: inet_ntop_def split_unique dec_nat_no_punct)
  then show "a = b"
    by (intro addr_bytes_inj) (auto simp: less_Suc_eq numeral_eq_Suc)
qed

lemma inet_ntop_no_colon: "CHR '':'' \<notin> set (inet_ntop a)"
  by (simp add: inet_ntop_def dec_nat_no_colon)

lemma length_inet_ntop: "length (inet_ntop a) \<le> 15"
proof -
  have "length (dec_nat (addr_byte i a)) \<le> 3" for i
    using addr_byte_less [of i a] length_dec_nat_le [of "addr_byte i a" 2] by (simp add: numeral_eq_Suc)
  from this [of 0] this [of 1] this [of 2] this [of 3] show ?thesis by (simp add: inet_ntop_def)
qed

lemma length_port: "length (dec_nat (unat (w :: 16 word))) \<le> 5"
proof -
  have "unat w < 2 ^ LENGTH(16)" by (rule unsigned_less)
  then show ?thesis using length_dec_nat_le [of "unat w" 4] by simp
qed

text \<open>
  the text \<^verbatim>\<open>a.b.c.d:port\<close> that names an endpoint always fits its 64-byte buffer, and determines the endpoint: two
  addresses print alike only if they have the same IPv4 address and port.  The port given to the
  constructor is the one printed.
\<close>

theorem InetAddress_toIpPort_determines:
  "\<exists>s t. InetAddress_toIpPort a = Inr s \<and> InetAddress_toIpPort b = Inr t \<and> length s \<le> 21 \<and>
     (s = t \<longleftrightarrow> s_addr a = s_addr b \<and> sin_port a = sin_port b) \<and>
     InetAddress_toPort (InetAddress_new inet_addr port ip) = port"
proof -
  let ?t = "\<lambda>a. inet_ntop (s_addr a) @ '':'' @ dec_nat (unat (ntohs (sin_port a)))"
  have ok: "InetAddress_toIpPort a = Inr (?t a)" "length (?t a) \<le> 21" for a
    using length_inet_ntop [of "s_addr a"] length_port [of "ntohs (sin_port a)"]
    by (simp_all add: InetAddress_toIpPort_def in_buf64_def)
  have "?t a = ?t b \<longleftrightarrow> s_addr a = s_addr b \<and> sin_port a = sin_port b"
  proof
    assume "?t a = ?t b"
    then have "inet_ntop (s_addr a) = inet_ntop (s_addr b) \<and> unat (ntohs (sin_port a)) = unat (ntohs (sin_port b))"
      by (simp add: split_unique inet_ntop_no_colon)
    then show "s_addr a = s_addr b \<and> sin_port a = sin_port b"
      using inet_ntop_inj by (metis htons_eq word_unat_eq_iff)
  qed simp
  then show ?thesis using ok by (auto simp: InetAddress_toPort_def InetAddress_new_def)
qed

end
