(* ===== verification/Acceptor.thy ===== *)
theory Acceptor
  imports Socket Poller
begin

text \<open>
  The acceptor: \<^verbatim>\<open>net/Acceptor.h\<close> and \<^verbatim>\<open>net/Acceptor.cpp\<close>, on the loop's state extended by the kernel's
  state \<open>osk\<close> and the members of \<^verbatim>\<open>Acceptor\<close>.

  The locale \<open>listener\<close> states what the manual pages say of \<^verbatim>\<open>accept\<close>, \<^verbatim>\<open>close\<close> and \<^verbatim>\<open>open\<close> in terms of the open
  descriptors \<open>fds\<close>, the connections that wait at the listening descriptor and the limit of the
  process; it is interpreted on a descriptor table written out.
\<close>

section \<open>Operations\<close>

record ('o, 'k, 'c) Acceptor = "('k, 'c) EventLoop" +
  osk :: 'o
  acceptSocket :: int
  acceptChannel :: nat
  newConnectionCallback :: bool
  listening :: bool
  idleFd :: int

definition EMFILE :: int where "EMFILE = 24"
definition EAGAIN :: int where "EAGAIN = 11"

text \<open>
  The members in the order of their declaration, then the body; \<open>c\<close> is the address of the channel, \<open>rd\<close> the
  bound \<^verbatim>\<open>handleRead\<close>.
\<close>

definition Acceptor_new :: "('o, 'y) os_scheme \<Rightarrow> sockaddr_in \<Rightarrow> bool \<Rightarrow> nat \<Rightarrow> 'c \<Rightarrow>
    ('o, 'k, 'c, 'z) Acceptor_scheme \<Rightarrow> ('o, 'k, 'c, 'z) Acceptor_scheme result" where
  "Acceptor_new Y listenAddr reuseport c rd s = bindR (createNonblockingOrDie Y (osk s)) (\<lambda>(f, k1).
     case os_open_null Y k1 of (idle, k2) \<Rightarrow>
       let k3 = Socket_setReuseAddrStatic Y f True k2;
           k4 = Socket_setReusePortStatic Y f reuseport k3;
           k5 = Socket_bindAddress Y f listenAddr k4
       in Inr (set_chan c ((Channel_new f)\<lparr>readCallback := Some rd\<rparr>)
            (s\<lparr>osk := k5, acceptSocket := f, acceptChannel := c, newConnectionCallback := False,
               listening := False, idleFd := idle\<rparr>)))"

text \<open>The destructor, then those of \<^verbatim>\<open>acceptChannel_\<close> and \<^verbatim>\<open>acceptSocket_\<close>.\<close>

definition Acceptor_destroy :: "('o, 'y) os_scheme \<Rightarrow> ('k, 'e) env_scheme \<Rightarrow>
    ('o, 'k, 'c, 'z) Acceptor_scheme \<Rightarrow> ('o, 'k, 'c, 'z) Acceptor_scheme result" where
  "Acceptor_destroy Y E s =
     bindR (Channel_disableAll E (acceptChannel s) s) (\<lambda>s1.
     bindR (Channel_remove E (acceptChannel s1) s1) (\<lambda>s2.
     bindR (Channel_destroy E (acceptChannel s2) (s2\<lparr>osk := os_close Y (idleFd s2) (osk s2)\<rparr>)) (\<lambda>s3.
       Inr (s3\<lparr>osk := Socket_destroy Y (acceptSocket s3) (osk s3)\<rparr>))))"

definition Acceptor_listen :: "('o, 'y) os_scheme \<Rightarrow> ('k, 'e) env_scheme \<Rightarrow>
    ('o, 'k, 'c, 'z) Acceptor_scheme \<Rightarrow> ('o, 'k, 'c, 'z) Acceptor_scheme result" where
  "Acceptor_listen Y E s = (let s1 = s\<lparr>listening := True\<rparr> in
     bindR (Socket_listen Y (acceptSocket s1) (osk s1)) (\<lambda>k.
       Channel_enableReading E (acceptChannel s1) (s1\<lparr>osk := k\<rparr>)))"

text \<open>
  \<open>cb\<close> is what the registered callback does.  The error number is read after the log statement.
\<close>

definition Acceptor_handleRead :: "('o, 'y) os_scheme \<Rightarrow>
    (int \<Rightarrow> sockaddr_in \<Rightarrow> ('o, 'k, 'c, 'z) Acceptor_scheme \<Rightarrow> ('o, 'k, 'c, 'z) Acceptor_scheme result) \<Rightarrow>
    ('o, 'k, 'c, 'z) Acceptor_scheme \<Rightarrow> ('o, 'k, 'c, 'z) Acceptor_scheme result" where
  "Acceptor_handleRead Y cb s =
     (case Socket_accept Y (acceptSocket s) zero_sockaddr (osk s) of ((connfd, peerAddr, err), k1) \<Rightarrow>
        let s1 = s\<lparr>osk := k1\<rparr> in
        if connfd \<ge> 0
        then if newConnectionCallback s1 then cb connfd peerAddr s1 else Inr (s1\<lparr>osk := os_close Y connfd k1\<rparr>)
        else if os_log_errno Y err = EMFILE
        then let k2 = os_close Y (idleFd s1) k1 in
             case os_accept Y (acceptSocket s1) k2 of ((f, _, _), k3) \<Rightarrow>
               let k4 = os_close Y f k3 in
               case os_open_null Y k4 of (idle, k5) \<Rightarrow> Inr (s1\<lparr>idleFd := idle, osk := k5\<rparr>)
        else Inr s1)"

section \<open>What the manual pages say\<close>

locale listener =
  fixes Y :: "('o, 'y) os_scheme" and fds :: "'o \<Rightarrow> int set" and backlog :: "'o \<Rightarrow> sockaddr_in list"
    and maxfds :: nat and lfd :: int
  assumes finite_fds: "finite (fds k)" and fds_nonneg: "f \<in> fds k \<Longrightarrow> 0 \<le> f"
    and accept_limit: "maxfds \<le> card (fds k) \<Longrightarrow>
      \<exists>a k'. os_accept Y lfd k = ((-1, a, EMFILE), k') \<and> fds k' = fds k \<and> backlog k' = backlog k"
    and accept_none: "card (fds k) < maxfds \<Longrightarrow> backlog k = [] \<Longrightarrow>
      \<exists>a k'. os_accept Y lfd k = ((-1, a, EAGAIN), k') \<and> fds k' = fds k \<and> backlog k' = []"
    and accept_next: "card (fds k) < maxfds \<Longrightarrow> backlog k = p # ps \<Longrightarrow>
      \<exists>f e k'. os_accept Y lfd k = ((f, p, e), k') \<and> 0 \<le> f \<and> f \<notin> fds k \<and> fds k' = insert f (fds k) \<and> backlog k' = ps"
    and close_fds: "fds (os_close Y f k) = fds k - {f}"
    and close_backlog: "f \<noteq> lfd \<Longrightarrow> backlog (os_close Y f k) = backlog k"
    and open_null: "card (fds k) < maxfds \<Longrightarrow>
      \<exists>f k'. os_open_null Y k = (f, k') \<and> 0 \<le> f \<and> f \<notin> fds k \<and> fds k' = insert f (fds k) \<and> backlog k' = backlog k"
begin

lemma handleRead_next:
  assumes "acceptSocket s = lfd" "card (fds (osk s)) < maxfds" "backlog (osk s) = p # ps"
  shows "\<exists>f k. f \<notin> fds (osk s) \<and> 0 \<le> f \<and> fds k = insert f (fds (osk s)) \<and> backlog k = ps \<and>
    Acceptor_handleRead Y cb s = (if newConnectionCallback s then cb f p (s\<lparr>osk := k\<rparr>) else Inr (s\<lparr>osk := os_close Y f k\<rparr>))"
proof -
  obtain f e k where f: "os_accept Y lfd (osk s) = ((f, p, e), k)" "0 \<le> f" "f \<notin> fds (osk s)"
    "fds k = insert f (fds (osk s))" "backlog k = ps"
    using accept_next [OF assms(2,3)] by blast
  then show ?thesis
    by (intro exI [of _ f] exI [of _ k]) (simp add: Acceptor_handleRead_def Socket_accept_def Let_def assms(1))
qed

text \<open>
  At the limit: the spare descriptor makes room for the oldest waiting connection, which is closed.
\<close>

lemma spare_round:
  assumes "card (fds k) < maxfds" "lfd \<in> fds k"
  shows "\<exists>f a e k3 idle k5. os_accept Y lfd k = ((f, a, e), k3) \<and> os_open_null Y (os_close Y f k3) = (idle, k5) \<and>
    0 \<le> idle \<and> idle \<notin> fds k \<and> fds k5 = insert idle (fds k) \<and> backlog k5 = tl (backlog k)"
proof -
  obtain f a e k3 where acc: "os_accept Y lfd k = ((f, a, e), k3)" and
    k3: "fds k3 - {f} = fds k" "backlog (os_close Y f k3) = tl (backlog k)"
  proof (cases "backlog k")
    case Nil
    obtain a k' where acc: "os_accept Y lfd k = ((-1, a, EAGAIN), k')" "fds k' = fds k" "backlog k' = []"
      using accept_none [OF assms(1) Nil] by blast
    have "-1 \<notin> fds k" "lfd \<noteq> -1" using fds_nonneg [of "-1" k] fds_nonneg [OF assms(2)] by auto
    then show ?thesis using that [OF acc(1)] acc Nil by (simp add: close_backlog)
  next
    case (Cons p ps)
    obtain f e k' where f: "os_accept Y lfd k = ((f, p, e), k')" "f \<notin> fds k" "fds k' = insert f (fds k)" "backlog k' = ps"
      using accept_next [OF assms(1) Cons] by blast
    then have "f \<noteq> lfd" using assms(2) by blast
    then show ?thesis using f Cons by (intro that [of f p e k']) (auto simp: close_backlog)
  qed
  have "card (fds (os_close Y f k3)) < maxfds" using assms(1) k3 by (simp add: close_fds)
  from open_null [OF this] show ?thesis using acc k3 by (auto simp: close_fds)
qed

lemma idle_trick:
  assumes "lfd \<in> fds k" "card (fds k) \<le> maxfds" "idle0 \<in> fds k" "idle0 \<noteq> lfd"
  shows "\<exists>f a e k3 idle k5. os_accept Y lfd (os_close Y idle0 k) = ((f, a, e), k3) \<and> os_open_null Y (os_close Y f k3) = (idle, k5) \<and>
    0 \<le> idle \<and> fds k5 = insert idle (fds k - {idle0}) \<and> card (fds k5) = card (fds k) \<and> backlog k5 = tl (backlog k)"
proof -
  let ?k2 = "os_close Y idle0 k"
  have fin: "finite (fds k)" by (rule finite_fds)
  have pos: "0 < card (fds k)" using assms(3) fin card_gt_0_iff by blast
  have k2: "fds ?k2 = fds k - {idle0}" "backlog ?k2 = backlog k"
    using assms(4) by (simp_all add: close_fds close_backlog)
  have less: "card (fds ?k2) < maxfds" "lfd \<in> fds ?k2"
    using k2 assms pos fin by (simp_all add: card_Diff_singleton)
  obtain f b e k3 idle k5 where r: "os_accept Y lfd ?k2 = ((f, b, e), k3)" "os_open_null Y (os_close Y f k3) = (idle, k5)"
    "0 \<le> idle" "idle \<notin> fds ?k2" "fds k5 = insert idle (fds ?k2)" "backlog k5 = tl (backlog ?k2)"
    using spare_round [OF less] by blast
  have "card (fds k5) = card (fds k)" using r(4,5) k2(1) fin assms(3) pos by (simp add: card_Diff_singleton)
  then show ?thesis using r k2 by auto
qed

text \<open>The two failures of \<^verbatim>\<open>accept\<close>, with the error number \<open>e\<close> that the log statement may change.\<close>

lemma handleRead_failed:
  assumes "acceptSocket s = lfd" "lfd \<in> fds (osk s)" "card (fds (osk s)) \<le> maxfds"
    and "idleFd s \<in> fds (osk s)" "idleFd s \<noteq> lfd"
    and e: "e = (if card (fds (osk s)) < maxfds then EAGAIN else EMFILE)"
    and "card (fds (osk s)) < maxfds \<Longrightarrow> backlog (osk s) = []"
  shows "if os_log_errno Y e = EMFILE
    then \<exists>idle k. Acceptor_handleRead Y cb s = Inr (s\<lparr>idleFd := idle, osk := k\<rparr>) \<and> 0 \<le> idle \<and>
      fds k = insert idle (fds (osk s) - {idleFd s}) \<and> card (fds k) = card (fds (osk s)) \<and> backlog k = tl (backlog (osk s))
    else \<exists>k. Acceptor_handleRead Y cb s = Inr (s\<lparr>osk := k\<rparr>) \<and> fds k = fds (osk s) \<and> backlog k = backlog (osk s)"
proof -
  obtain a k1 where k1: "os_accept Y lfd (osk s) = ((-1, a, e), k1)" "fds k1 = fds (osk s)" "backlog k1 = backlog (osk s)"
    using accept_limit [of "osk s"] accept_none [of "osk s"] assms(7) e by fastforce
  obtain f b e' k3 idle k5 where r: "os_accept Y lfd (os_close Y (idleFd s) k1) = ((f, b, e'), k3)"
    "os_open_null Y (os_close Y f k3) = (idle, k5)" "0 \<le> idle" "fds k5 = insert idle (fds k1 - {idleFd s})"
    "card (fds k5) = card (fds k1)" "backlog k5 = tl (backlog k1)"
    using idle_trick [of k1 "idleFd s"] k1(2) assms(2-5) by auto
  show ?thesis
  proof (cases "os_log_errno Y e = EMFILE")
    case True
    with r k1 have "Acceptor_handleRead Y cb s = Inr (s\<lparr>idleFd := idle, osk := k5\<rparr>)"
      by (simp add: Acceptor_handleRead_def Socket_accept_def Let_def assms(1))
    moreover have "0 \<le> idle \<and> fds k5 = insert idle (fds (osk s) - {idleFd s}) \<and> card (fds k5) = card (fds (osk s)) \<and>
        backlog k5 = tl (backlog (osk s))" using r k1 by simp
    ultimately show ?thesis unfolding if_P [OF True] by blast
  next
    case False
    with k1 have "Acceptor_handleRead Y cb s = Inr (s\<lparr>osk := k1\<rparr>)"
      by (simp add: Acceptor_handleRead_def Socket_accept_def Let_def assms(1))
    with False k1 show ?thesis by auto
  qed
qed

end

section \<open>A descriptor table\<close>

text \<open>
  Open descriptors (the listening one is 3) and the connections that wait; at most \<open>maxfds\<close> descriptors.
\<close>

type_synonym fd_table = "int list \<times> sockaddr_in list"

definition fresh_fd :: "int list \<Rightarrow> int" where
  "fresh_fd fs = foldr max fs 0 + 1"

definition open_fds :: "int list \<Rightarrow> int set" where
  "open_fds fs = {f \<in> set fs. 0 \<le> f}"

definition man_os :: "nat \<Rightarrow> fd_table os" where
  "man_os maxfds = \<lparr>
     os_socket = (\<lambda>_ (fs, q). if maxfds \<le> card (open_fds fs) then (-1, (fs, q)) else (fresh_fd fs, (fresh_fd fs # fs, q))),
     os_bind = (\<lambda>_ _ k. (0, k)), os_listen = (\<lambda>_ k. (0, k)),
     os_accept = (\<lambda>_ (fs, q). if maxfds \<le> card (open_fds fs) then ((-1, zero_sockaddr, EMFILE), (fs, q))
        else case q of [] \<Rightarrow> ((-1, zero_sockaddr, EAGAIN), (fs, q))
        | p # ps \<Rightarrow> ((fresh_fd fs, p, 0), (fresh_fd fs # fs, ps))),
     os_connect = (\<lambda>_ _ k. (0, k)), os_shutdown_write = (\<lambda>_ k. (0, k)), os_setsockopt = (\<lambda>_ _ _ k. k),
     os_getsockopt_error = (\<lambda>_ _. (0, 0, 0)), os_getsockname = (\<lambda>_ _. (0, zero_sockaddr)),
     os_getpeername = (\<lambda>_ _. (0, zero_sockaddr)), os_getfl = (\<lambda>_ _. 0), os_setfl = (\<lambda>_ _ k. k),
     os_getfd = (\<lambda>_ _. 0), os_setfd = (\<lambda>_ _ k. k),
     os_close = (\<lambda>f (fs, q). (filter (\<lambda>g. g \<noteq> f) fs, q)),
     os_open_null = (\<lambda>(fs, q). if maxfds \<le> card (open_fds fs) then (-1, (fs, q)) else (fresh_fd fs, (fresh_fd fs # fs, q))),
     os_log_errno = (\<lambda>e. e)\<rparr>"

lemma fresh_fd_bound: "f \<in> set fs \<Longrightarrow> f < fresh_fd fs" and fresh_fd_pos: "0 < fresh_fd fs"
proof -
  have "f \<le> foldr max fs 0" if "f \<in> set fs" for f using that by (induction fs) auto
  moreover have "0 \<le> foldr max fs 0" by (induction fs) auto
  ultimately show "f \<in> set fs \<Longrightarrow> f < fresh_fd fs" "0 < fresh_fd fs" by (force simp: fresh_fd_def)+
qed

lemma fresh_fd_new [simp]: "fresh_fd fs \<notin> set fs" "0 \<le> fresh_fd fs"
  using fresh_fd_bound [of "fresh_fd fs" fs] fresh_fd_pos [of fs] by auto

interpretation fd_table: listener "man_os maxfds" "\<lambda>k. open_fds (fst k)" snd maxfds lfd for maxfds lfd
  by unfold_locales (auto simp: man_os_def open_fds_def)

section \<open>Properties\<close>

text \<open>
  C26: one readiness event of the listening socket.  Below the descriptor limit the oldest waiting
  connection is accepted on a new descriptor, which goes to the callback, or is closed again if there is
  none.  When \<^verbatim>\<open>accept\<close> fails, with \<^verbatim>\<open>EAGAIN\<close> as none waits or with \<^verbatim>\<open>EMFILE\<close> at the limit, what happens depends on the errno
  that the log statement leaves: if that is \<^verbatim>\<open>EMFILE\<close>, the spare descriptor is given up for the oldest
  waiting connection, which is closed, and a new spare one is opened, so that the number of descriptors stays the same and
  the connection is refused instead of waiting for ever; if it is not, nothing changes, so at the limit the
  connection goes on waiting when the log statement has changed errno.  In each case at most one connection is
  taken off the queue, although the channel is edge-triggered: the others get no event of their own.
\<close>

theorem Acceptor_handleRead_correct:
  assumes "listener Y fds backlog maxfds lfd"
    and "acceptSocket s = lfd" "lfd \<in> fds (osk s)" "idleFd s \<in> fds (osk s)" "idleFd s \<noteq> lfd"
    and "card (fds (osk s)) \<le> maxfds"
  shows "if card (fds (osk s)) < maxfds \<and> backlog (osk s) \<noteq> []
    then (\<exists>f k. f \<notin> fds (osk s) \<and> 0 \<le> f \<and> fds k = insert f (fds (osk s)) \<and> backlog k = tl (backlog (osk s)) \<and>
          Acceptor_handleRead Y cb s =
            (if newConnectionCallback s then cb f (hd (backlog (osk s))) (s\<lparr>osk := k\<rparr>) else Inr (s\<lparr>osk := os_close Y f k\<rparr>)))
    else if os_log_errno Y (if card (fds (osk s)) < maxfds then EAGAIN else EMFILE) = EMFILE
    then (\<exists>idle k. Acceptor_handleRead Y cb s = Inr (s\<lparr>idleFd := idle, osk := k\<rparr>) \<and> 0 \<le> idle \<and>
      fds k = insert idle (fds (osk s) - {idleFd s}) \<and> card (fds k) = card (fds (osk s)) \<and> backlog k = tl (backlog (osk s)))
    else (\<exists>k. Acceptor_handleRead Y cb s = Inr (s\<lparr>osk := k\<rparr>) \<and> fds k = fds (osk s) \<and> backlog k = backlog (osk s))"
proof (cases "card (fds (osk s)) < maxfds \<and> backlog (osk s) \<noteq> []")
  case True
  then obtain p ps where "backlog (osk s) = p # ps" by (cases "backlog (osk s)") auto
  with listener.handleRead_next [OF assms(1,2), of p ps cb] show ?thesis
    unfolding if_P [OF True] using True by (simp only: list.sel)
next
  case False
  note f = listener.handleRead_failed [OF assms(1,2,3,6,4,5) refl]
  show ?thesis unfolding if_not_P [OF False] by (rule f) (use False in blast)
qed

definition crowded :: "(fd_table, unit, nat) Acceptor" where
  "crowded = EventLoop.extend (EventLoop_members 1 ())
     \<lparr>osk = ([3, 4, 5], [\<lparr>sin_family = 2, sin_port = 80, s_addr = 1\<rparr>, \<lparr>sin_family = 2, sin_port = 81, s_addr = 1\<rparr>]),
      acceptSocket = 3, acceptChannel = 0, newConnectionCallback = True, listening = True, idleFd = 4\<rparr>"

theorem Acceptor_handleRead_correct_witness:
  "\<exists>idle k. Acceptor_handleRead (man_os 3) (\<lambda>_ _ s. Inr s) crowded = Inr (crowded\<lparr>idleFd := idle, osk := k\<rparr>) \<and>
     open_fds (fst k) = {3, 5, idle} \<and> card (open_fds (fst k)) = 3 \<and> length (snd k) = 1"
proof -
  have c: "open_fds (fst (osk crowded)) = {3, 4, 5}" "acceptSocket crowded = 3" "idleFd crowded = 4"
    "length (snd (osk crowded)) = 2"
    by (auto simp: crowded_def Channel.EventLoop.defs open_fds_def)
  have m: "open_fds (fst (osk crowded)) - {idleFd crowded} = {3, 5}" "card (open_fds (fst (osk crowded))) = 3"
    unfolding c by auto
  have "\<exists>idle k. Acceptor_handleRead (man_os 3) (\<lambda>_ _ s. Inr s) crowded = Inr (crowded\<lparr>idleFd := idle, osk := k\<rparr>) \<and> 0 \<le> idle \<and>
      open_fds (fst k) = insert idle {3, 5} \<and> card (open_fds (fst k)) = 3 \<and> snd k = tl (snd (osk crowded))"
    using Acceptor_handleRead_correct [OF fd_table.listener_axioms, of crowded 3 3 "\<lambda>_ _ s. Inr s"] c(2,3)
    unfolding m by (simp add: c(1) man_os_def)
  then obtain idle k where "Acceptor_handleRead (man_os 3) (\<lambda>_ _ s. Inr s) crowded = Inr (crowded\<lparr>idleFd := idle, osk := k\<rparr>)"
    "open_fds (fst k) = insert idle {3, 5}" "card (open_fds (fst k)) = 3" "snd k = tl (snd (osk crowded))" by blast
  then show ?thesis using c(4) by (intro exI [of _ idle] exI [of _ k]) (simp add: insert_commute)
qed

end
