(* ===== verification/TaggedPointer.thy ===== *)
theory TaggedPointer
  imports Prelude
begin

unbundle bit_operations_syntax

text \<open>
  \<^verbatim>\<open>base/TaggedPointer.h\<close>: a pointer and a 16-bit version packed into one word, and the lock-free stack
  built on it.  The calls of the stack are modelled as their atomic steps.  \<open>nd\<close> says whether the program
  was compiled with \<^verbatim>\<open>NDEBUG\<close>.
\<close>

section \<open>Tagged pointers\<close>

definition kPtrMask :: "64 word" where "kPtrMask = 0x0000FFFFFFFFFFFF"
definition kTagMask :: "64 word" where "kTagMask = 0xFFFF000000000000"
definition kTagShift :: nat where "kTagShift = 48"

definition TaggedPointer_pack :: "bool \<Rightarrow> 64 word \<Rightarrow> 16 word \<Rightarrow> 64 word result" where
  "TaggedPointer_pack nd addr tag =
     (let signExt = (if addr AND push_bit 47 1 \<noteq> 0 then kTagMask else 0) in
      if nd \<or> addr AND kTagMask = signExt \<or> addr = 0
      then Inr (addr OR push_bit kTagShift (ucast tag)) else Inl AssertFailed)"

text \<open>A \<^verbatim>\<open>TaggedPointer\<close> is its packed word.\<close>

definition TaggedPointer_ptr :: "64 word \<Rightarrow> 64 word" where
  "TaggedPointer_ptr packed = packed AND kPtrMask"

definition TaggedPointer_tag :: "64 word \<Rightarrow> 16 word" where
  "TaggedPointer_tag packed = ucast (drop_bit kTagShift packed)"

definition TaggedPointer_compare_exchange :: "bool \<Rightarrow> 64 word \<Rightarrow> 64 word \<Rightarrow> 16 word \<Rightarrow> 64 word \<Rightarrow> (bool \<times> 64 word) result" where
  "TaggedPointer_compare_exchange nd expected newPtr newTag target =
     bindR (TaggedPointer_pack nd newPtr newTag) (\<lambda>newPacked.
       Inr (if target = expected then (True, newPacked) else (False, target)))"

text \<open>The overload that increments the version.\<close>

definition TaggedPointer_compare_exchange_next :: "bool \<Rightarrow> 64 word \<Rightarrow> 64 word \<Rightarrow> 64 word \<Rightarrow> (bool \<times> 64 word) result" where
  "TaggedPointer_compare_exchange_next nd expected newPtr target =
     TaggedPointer_compare_exchange nd expected newPtr (TaggedPointer_tag expected + 1) target"

definition TaggedPointer_store :: "bool \<Rightarrow> 64 word \<Rightarrow> 16 word \<Rightarrow> 64 word result" where
  "TaggedPointer_store nd ptr tag = TaggedPointer_pack nd ptr tag"

section \<open>The stack\<close>

record 'a LFStack =
  head_packed :: "64 word"
  node_at :: "64 word \<rightharpoonup> 'a \<times> 64 word"

text \<open>
  Where a thread is in a call.  \<open>oldHead\<close>, a packed word, is loaded once before the loop: the
  compare-and-swap of \<^verbatim>\<open>HeadProxy\<close> works on a copy of it.
\<close>

datatype 'a lfs_pc =
    LfsIdle
  | PushNew 'a | PushLoad "64 word" | PushLoop "64 word" "64 word" | PushCas "64 word" "64 word" "64 word" | PushRet
  | PopLoad | PopLoop "64 word" | PopCas "64 word" "64 word" | PopTake "64 word" | PopRet "'a option"

definition HeadProxy_load :: "bool \<Rightarrow> 64 word \<Rightarrow> 64 word result" where
  "HeadProxy_load nd p = TaggedPointer_pack nd (p AND 0x0000FFFFFFFFFFFF) (ucast (drop_bit 48 p))"

text \<open>\<open>fresh\<close> is the address that \<^verbatim>\<open>new\<close> returns if the step is a \<^verbatim>\<open>new\<close>.\<close>

fun LFStack_micro :: "bool \<Rightarrow> 64 word \<Rightarrow> 'a lfs_pc \<Rightarrow> 'a LFStack \<Rightarrow> ('a lfs_pc \<times> 'a LFStack) result" where
  "LFStack_micro nd fresh (PushNew v) s = Inr (PushLoad fresh, s\<lparr>node_at := (node_at s)(fresh \<mapsto> (v, 0))\<rparr>)"
| "LFStack_micro nd fresh (PushLoad node) s =
     bindR (HeadProxy_load nd (head_packed s)) (\<lambda>oldHead. Inr (PushLoop node oldHead, s))"
| "LFStack_micro nd fresh (PushLoop node oldHead) s =
     bindR (derefR (node_at s) node) (\<lambda>(v, _).
     bindR (TaggedPointer_pack nd node (TaggedPointer_tag oldHead)) (\<lambda>newHead.
       Inr (PushCas node oldHead newHead, s\<lparr>node_at := (node_at s)(node \<mapsto> (v, TaggedPointer_ptr oldHead))\<rparr>)))"
| "LFStack_micro nd fresh (PushCas node oldHead newHead) s =
     (if head_packed s = oldHead then Inr (PushRet, s\<lparr>head_packed := newHead\<rparr>)
      else Inr (PushLoop node oldHead, s))"
| "LFStack_micro nd fresh PopLoad s =
     bindR (HeadProxy_load nd (head_packed s)) (\<lambda>oldHead. Inr (PopLoop oldHead, s))"
| "LFStack_micro nd fresh (PopLoop oldHead) s =
     (if TaggedPointer_ptr oldHead = 0 then Inr (PopRet None, s)
      else bindR (derefR (node_at s) (TaggedPointer_ptr oldHead)) (\<lambda>(_, next).
           bindR (TaggedPointer_pack nd next (TaggedPointer_tag oldHead + 1)) (\<lambda>newHead.
             Inr (PopCas oldHead newHead, s))))"
| "LFStack_micro nd fresh (PopCas oldHead newHead) s =
     (if head_packed s = oldHead then Inr (PopTake (TaggedPointer_ptr oldHead), s\<lparr>head_packed := newHead\<rparr>)
      else Inr (PopLoop oldHead, s))"
| "LFStack_micro nd fresh (PopTake node) s =
     bindR (derefR (node_at s) node) (\<lambda>(v, _). Inr (PopRet (Some v), s\<lparr>node_at := (node_at s)(node := None)\<rparr>))"
| "LFStack_micro nd fresh pc s = Inr (pc, s)"

definition LFStack_empty :: "bool \<Rightarrow> 'a LFStack \<Rightarrow> bool result" where
  "LFStack_empty nd s = bindR (HeadProxy_load nd (head_packed s)) (\<lambda>p. Inr (TaggedPointer_ptr p = 0))"

text \<open>\<open>n\<close> steps of a thread that runs alone.\<close>

fun lfs_solo :: "bool \<Rightarrow> 64 word \<Rightarrow> nat \<Rightarrow> 'a lfs_pc \<times> 'a LFStack \<Rightarrow> ('a lfs_pc \<times> 'a LFStack) result" where
  "lfs_solo nd fresh 0 c = Inr c"
| "lfs_solo nd fresh (Suc n) c = bindR (LFStack_micro nd fresh (fst c) (snd c)) (lfs_solo nd fresh n)"

section \<open>Packing\<close>

lemma mask_bits [simp]:
  "bit kPtrMask n \<longleftrightarrow> n < 48" "bit kTagMask n \<longleftrightarrow> 48 \<le> n \<and> n < 64"
proof -
  have p: "kPtrMask = mask 48" by (simp add: kPtrMask_def mask_eq_exp_minus_1)
  show "bit kPtrMask n \<longleftrightarrow> n < 48" unfolding p by (auto simp: bit_simps possible_bit_word)
  have t: "kTagMask = push_bit 48 (mask 16)" by (simp add: kTagMask_def mask_eq_exp_minus_1 push_bit_eq_mult)
  show "bit kTagMask n \<longleftrightarrow> 48 \<le> n \<and> n < 64" unfolding t by (auto simp: bit_simps possible_bit_word)
qed

lemma user_bits:
  assumes "addr < 2 ^ 47" "bit (addr :: 64 word) n"
  shows "n < 47"
proof -
  have "unat addr < 2 ^ 47" using assms(1) by (simp add: word_less_nat_alt)
  then have "take_bit 47 (unat addr) = unat addr" by (simp add: take_bit_nat_eq_self)
  moreover have "bit (unat addr) n" using assms(2) by (simp add: bit_unsigned_iff)
  ultimately have "bit (take_bit 47 (unat addr)) n" by simp
  then show ?thesis by (simp only: bit_take_bit_iff)
qed

lemma bit_last: "bit (ucast (tag :: 16 word) :: 64 word) n \<longleftrightarrow> bit tag n"
  by (auto simp: bit_simps dest: bit_imp_le_length)

lemma and_bit47: "addr AND push_bit 47 1 = 0 \<longleftrightarrow> \<not> bit (addr :: 64 word) 47"
  using and_exp_eq_0_iff_not_bit [of addr 47] by (simp add: push_bit_eq_mult)

lemma pack_user:
  assumes "addr < 2 ^ 47"
  shows "TaggedPointer_pack nd addr tag = Inr (addr OR push_bit 48 (ucast tag))"
proof -
  have "\<not> bit addr n" if "47 \<le> n" for n using user_bits [OF assms, of n] that by auto
  then have "addr AND push_bit 47 1 = 0" "addr AND kTagMask = 0"
    unfolding and_bit47 by (auto intro!: bit_word_eqI simp: bit_simps)
  then show ?thesis by (simp add: TaggedPointer_pack_def kTagShift_def)
qed

lemma unpack_user:
  assumes "addr < 2 ^ 47"
  shows "TaggedPointer_ptr (addr OR push_bit 48 (ucast tag)) = addr" "TaggedPointer_tag (addr OR push_bit 48 (ucast tag)) = tag"
proof -
  have b: "bit addr n \<Longrightarrow> n < 47" for n using user_bits [OF assms] .
  show "TaggedPointer_ptr (addr OR push_bit 48 (ucast tag)) = addr"
    unfolding TaggedPointer_ptr_def by (rule bit_word_eqI) (auto simp: bit_simps dest: b)
  show "TaggedPointer_tag (addr OR push_bit 48 (ucast tag)) = tag"
    unfolding TaggedPointer_tag_def kTagShift_def
    by (rule bit_word_eqI) (auto simp: bit_simps bit_last possible_bit_word dest: b)
qed

lemma pack_kernel:
  assumes "bit addr 47" "addr AND kTagMask = kTagMask"
  shows "TaggedPointer_pack nd addr tag = Inr addr"
proof -
  have "bit addr n" if "48 \<le> n" "n < 64" for n
    using arg_cong [OF assms(2), of "\<lambda>w. bit w n"] that by (simp add: bit_simps)
  then have "addr OR push_bit 48 (ucast tag) = addr"
    by (intro bit_word_eqI) (auto simp: bit_simps)
  moreover have "addr AND push_bit 47 1 \<noteq> 0"
    using assms(1) by (simp only: and_bit47 simp_thms)
  ultimately show ?thesis using assms(2) by (simp add: TaggedPointer_pack_def kTagShift_def)
qed

text \<open>
  for an address of the lower half of the address space, what a user program has, packing loses nothing: the pointer and
  every version read back, and two packed words agree only if both agree.  For an address whose upper
  bits are ones, which the assertion accepts, the version is lost: every version packs to the same
  word, its version reads as 65535 and the pointer is not the one packed.
\<close>

theorem TaggedPointer_pack_roundtrip:
  assumes "addr < 2 ^ 47" "addr' < 2 ^ 47" and "bit high 47" "high AND kTagMask = kTagMask"
  shows "\<exists>p p'. TaggedPointer_pack nd addr tag = Inr p \<and> TaggedPointer_pack nd addr' tag' = Inr p' \<and>
      TaggedPointer_ptr p = addr \<and> TaggedPointer_tag p = tag \<and> (p = p' \<longleftrightarrow> addr = addr' \<and> tag = tag') \<and>
    TaggedPointer_pack nd high tag = TaggedPointer_pack nd high tag' \<and>
    (\<exists>h. TaggedPointer_pack nd high tag = Inr h \<and> TaggedPointer_tag h = 65535 \<and> TaggedPointer_ptr h \<noteq> high)"
proof -
  have h: "bit high n" if "48 \<le> n" "n < 64" for n
    using arg_cong [OF assms(4), of "\<lambda>w. bit w n"] that by (simp add: bit_simps)
  have tag: "TaggedPointer_tag high = 65535"
    unfolding TaggedPointer_tag_def kTagShift_def
  proof (rule bit_word_eqI)
    have m: "(65535 :: 16 word) = mask 16" by (simp add: mask_eq_exp_minus_1)
    show "bit (ucast (drop_bit 48 high) :: 16 word) n = bit (65535 :: 16 word) n" if "n < LENGTH(16)" for n
      unfolding m using that h [of "48 + n"] by (simp add: bit_simps possible_bit_word)
  qed
  have "\<not> bit (TaggedPointer_ptr high) 63" by (simp add: TaggedPointer_ptr_def bit_simps)
  then have "TaggedPointer_ptr high \<noteq> high" using h [of 63] by auto
  moreover have "addr OR push_bit 48 (ucast tag) = addr' OR push_bit 48 (ucast tag') \<longleftrightarrow> addr = addr' \<and> tag = tag'"
    using unpack_user [OF assms(1), of tag] unpack_user [OF assms(2), of tag'] by auto
  ultimately show ?thesis
    using pack_user [OF assms(1), of nd tag] pack_user [OF assms(2), of nd tag'] unpack_user [OF assms(1), of tag]
    by (simp add: pack_kernel [OF assms(3,4)] tag)
qed

theorem TaggedPointer_pack_roundtrip_witness:
  "\<exists>p. TaggedPointer_pack False 0x7F00DEADBEE0 7 = Inr p \<and> TaggedPointer_ptr p = 0x7F00DEADBEE0 \<and> TaggedPointer_tag p = 7 \<and>
    TaggedPointer_pack False 0xFFFF800000000000 7 = TaggedPointer_pack False 0xFFFF800000000000 8"
proof -
  have "bit (0xFFFF800000000000 :: 64 word) 47" by simp
  moreover have "(0xFFFF800000000000 :: 64 word) AND kTagMask = kTagMask" by (simp add: kTagMask_def)
  ultimately show ?thesis
    using TaggedPointer_pack_roundtrip [of "0x7F00DEADBEE0" 0 "0xFFFF800000000000" False 7 8] by auto
qed

section \<open>Retries of the stack\<close>

lemma push_stuck:
  assumes "lfs_solo nd fresh n (pc, s) = Inr (pc', s')" and "head_packed s \<noteq> old"
    and "pc = PushLoop node old \<or> (\<exists>new. pc = PushCas node old new)"
  shows "head_packed s' = head_packed s \<and> (pc' = PushLoop node old \<or> (\<exists>new. pc' = PushCas node old new))"
  using assms
proof (induction n arbitrary: pc s)
  case (Suc n)
  then obtain pc1 s1 where 1: "LFStack_micro nd fresh pc s = Inr (pc1, s1)" "lfs_solo nd fresh n (pc1, s1) = Inr (pc', s')"
    by auto
  have "head_packed s1 = head_packed s \<and> (pc1 = PushLoop node old \<or> (\<exists>new. pc1 = PushCas node old new))"
    using 1(1) Suc.prems(2,3) by (auto elim!: bindR_InrE split: prod.splits if_splits)
  then show ?case using Suc.IH [OF 1(2)] Suc.prems(2) by auto
qed auto

lemma pop_stuck:
  assumes "lfs_solo nd fresh n (pc, s) = Inr (pc', s')" and "head_packed s \<noteq> old" "TaggedPointer_ptr old \<noteq> 0"
    and "pc = PopLoop old \<or> (\<exists>new. pc = PopCas old new)"
  shows "s' = s \<and> (pc' = PopLoop old \<or> (\<exists>new. pc' = PopCas old new))"
  using assms
proof (induction n arbitrary: pc)
  case (Suc n)
  then obtain pc1 s1 where 1: "LFStack_micro nd fresh pc s = Inr (pc1, s1)" "lfs_solo nd fresh n (pc1, s1) = Inr (pc', s')"
    by auto
  have "s1 = s \<and> (pc1 = PopLoop old \<or> (\<exists>new. pc1 = PopCas old new))"
    using 1(1) Suc.prems(2-4) by (auto elim!: bindR_InrE split: prod.splits if_splits)
  then show ?case using Suc.IH [of pc1] 1(2) Suc.prems(2,3) by auto
qed auto

text \<open>
  a push or a pop whose compare-and-swap fails never succeeds by itself.  The proxy compares with a copy,
  so the loaded head is not refreshed: a thread that has lost the race once and then runs alone, for any
  number of steps, is still in its loop, with the head unchanged, or has dereferenced a dead node.
\<close>

theorem LFStack_retry_stuck:
  assumes "head_packed s \<noteq> old" and "TaggedPointer_ptr old \<noteq> 0"
  shows "((\<exists>e. lfs_solo nd fresh n (PushLoop node old, s) = Inl e) \<or>
      (\<exists>pc' s'. lfs_solo nd fresh n (PushLoop node old, s) = Inr (pc', s') \<and> pc' \<noteq> PushRet \<and> head_packed s' = head_packed s)) \<and>
    ((\<exists>e. lfs_solo nd fresh n (PopLoop old, s) = Inl e) \<or>
      (\<exists>pc'. lfs_solo nd fresh n (PopLoop old, s) = Inr (pc', s) \<and> (\<forall>r. pc' \<noteq> PopRet r)))"
proof
  show "(\<exists>e. lfs_solo nd fresh n (PushLoop node old, s) = Inl e) \<or>
      (\<exists>pc' s'. lfs_solo nd fresh n (PushLoop node old, s) = Inr (pc', s') \<and> pc' \<noteq> PushRet \<and> head_packed s' = head_packed s)"
    using push_stuck [of nd fresh n "PushLoop node old" s _ _ old node] assms(1)
    by (cases "lfs_solo nd fresh n (PushLoop node old, s)") fastforce+
  show "(\<exists>e. lfs_solo nd fresh n (PopLoop old, s) = Inl e) \<or>
      (\<exists>pc'. lfs_solo nd fresh n (PopLoop old, s) = Inr (pc', s) \<and> (\<forall>r. pc' \<noteq> PopRet r))"
    using pop_stuck [of nd fresh n "PopLoop old" s _ _ old] assms
    by (cases "lfs_solo nd fresh n (PopLoop old, s)") fastforce+
qed

text \<open>A pop that loaded node 32 as the head, which is node 16 by now.\<close>

theorem LFStack_retry_stuck_witness:
  "\<exists>pc' s'. lfs_solo False 0 2 (PopLoop 32, \<lparr>head_packed = 16, node_at = [16 \<mapsto> (1 :: nat, 0), 32 \<mapsto> (2, 0)]\<rparr>) = Inr (pc', s') \<and>
     (\<forall>r. pc' \<noteq> PopRet r) \<and> head_packed s' = 16"
proof -
  let ?s = "\<lparr>head_packed = 16, node_at = [16 \<mapsto> (1 :: nat, 0), 32 \<mapsto> (2, 0)]\<rparr>"
  have two: "2 = Suc (Suc 0)" by simp
  have p: "TaggedPointer_ptr 32 = 32" by (simp add: TaggedPointer_ptr_def kPtrMask_def)
  have "lfs_solo False 0 2 (PopLoop 32, ?s) = Inr (PopLoop 32, ?s)"
    unfolding two by (simp add: p TaggedPointer_pack_def TaggedPointer_tag_def kTagShift_def)
  then show ?thesis
    using LFStack_retry_stuck [of ?s 32 False 0 2 32] by (auto simp: p)
qed

section \<open>The stack without contention\<close>

text \<open>A call by a thread that runs alone: four steps complete it.\<close>

definition LFStack_push :: "bool \<Rightarrow> 64 word \<Rightarrow> 'a \<Rightarrow> 'a LFStack \<Rightarrow> ('a lfs_pc \<times> 'a LFStack) result" where
  "LFStack_push nd fresh v s = lfs_solo nd fresh 4 (PushNew v, s)"

definition LFStack_pop :: "bool \<Rightarrow> 'a LFStack \<Rightarrow> ('a lfs_pc \<times> 'a LFStack) result" where
  "LFStack_pop nd s = lfs_solo nd 0 4 (PopLoad, s)"

text \<open>The destructor pops until the stack is empty; \<open>None\<close> when the fuel does not last.\<close>

fun LFStack_destroy :: "bool \<Rightarrow> nat \<Rightarrow> 'a LFStack \<Rightarrow> 'a LFStack result option" where
  "LFStack_destroy nd 0 s = None"
| "LFStack_destroy nd (Suc n) s = (case LFStack_pop nd s of
     Inl e \<Rightarrow> Some (Inl e)
   | Inr (PopRet None, s1) \<Rightarrow> Some (Inr s1)
   | Inr (PopRet (Some v), s1) \<Rightarrow> LFStack_destroy nd n s1
   | Inr (_, s1) \<Rightarrow> None)"

text \<open>The nodes \<open>ps\<close> hold the values \<open>xs\<close>, from the head on, and there are no others.\<close>

fun linked :: "(64 word \<rightharpoonup> 'a \<times> 64 word) \<Rightarrow> 64 word list \<Rightarrow> 'a list \<Rightarrow> bool" where
  "linked m [] [] \<longleftrightarrow> True"
| "linked m (p # ps) (x # xs) \<longleftrightarrow> m p = Some (x, hd (ps @ [0])) \<and> linked m ps xs"
| "linked m _ _ \<longleftrightarrow> False"

definition lfs_list :: "'a LFStack \<Rightarrow> 64 word list \<Rightarrow> 'a list \<Rightarrow> bool" where
  "lfs_list s ps xs \<longleftrightarrow> linked (node_at s) ps xs \<and> distinct ps \<and> (\<forall>p \<in> set ps. 0 < p \<and> p < 2 ^ 47) \<and>
     dom (node_at s) = set ps \<and> (\<exists>tag. head_packed s = hd (ps @ [0]) OR push_bit 48 (ucast (tag :: 16 word)))"

lemma linked_upd: "q \<notin> set ps \<Longrightarrow> linked (m(q := v)) ps xs = linked m ps xs"
  by (induction m ps xs rule: linked.induct) auto

lemma HeadProxy_load_user:
  fixes tag :: "16 word"
  assumes "p < 2 ^ 47"
  shows "HeadProxy_load nd (p OR push_bit 48 (ucast tag)) = Inr (p OR push_bit 48 (ucast tag))"
proof -
  have "(p OR push_bit 48 (ucast tag)) AND 0x0000FFFFFFFFFFFF = p" "ucast (drop_bit 48 (p OR push_bit 48 (ucast tag))) = tag"
    using unpack_user [OF assms, of tag] by (simp_all only: TaggedPointer_ptr_def TaggedPointer_tag_def kPtrMask_def kTagShift_def)
  then show ?thesis by (simp add: HeadProxy_load_def pack_user [OF assms])
qed

lemma LFStack_push_ok:
  assumes l: "lfs_list s ps xs" and f: "0 < fresh" "fresh < 2 ^ 47" "fresh \<notin> set ps"
  shows "\<exists>s'. LFStack_push nd fresh v s = Inr (PushRet, s') \<and> lfs_list s' (fresh # ps) (v # xs)"
proof -
  let ?p = "hd (ps @ [0])"
  from l obtain tag :: "16 word" where h: "head_packed s = ?p OR push_bit 48 (ucast tag)" by (auto simp: lfs_list_def)
  have p: "?p < 2 ^ 47" using l by (cases ps) (auto simp: lfs_list_def)
  let ?s = "\<lparr>head_packed = fresh OR push_bit 48 (ucast tag), node_at = (node_at s)(fresh \<mapsto> (v, ?p))\<rparr>"
  have four: "4 = Suc (Suc (Suc (Suc 0)))" by simp
  have "LFStack_push nd fresh v s = Inr (PushRet, ?s)"
    unfolding LFStack_push_def four
    by (cases s) (use h HeadProxy_load_user [OF p, of nd tag] unpack_user [OF p, of tag] pack_user [OF f(2), of nd tag] in \<open>simp\<close>)
  moreover have "lfs_list ?s (fresh # ps) (v # xs)" using l f by (auto simp: lfs_list_def linked_upd)
  ultimately show ?thesis by blast
qed

lemma LFStack_pop_ok:
  assumes l: "lfs_list s ps xs"
  shows "\<exists>s'. LFStack_pop nd s = Inr (PopRet (case xs of [] \<Rightarrow> None | x # _ \<Rightarrow> Some x), s') \<and> lfs_list s' (tl ps) (tl xs)"
proof -
  let ?p = "hd (ps @ [0])"
  from l obtain tag :: "16 word" where h: "head_packed s = ?p OR push_bit 48 (ucast tag)" by (auto simp: lfs_list_def)
  have p: "?p < 2 ^ 47" using l by (cases ps) (auto simp: lfs_list_def)
  note u = HeadProxy_load_user [OF p, of nd tag] unpack_user [OF p, of tag]
  have four: "4 = Suc (Suc (Suc (Suc 0)))" by simp
  show ?thesis
  proof (cases xs)
    case Nil
    then have [simp]: "ps = []" using l by (cases ps) (auto simp: lfs_list_def)
    have "LFStack_pop nd s = Inr (PopRet None, s)" unfolding LFStack_pop_def four using h u by simp
    then show ?thesis using l Nil by simp
  next
    case (Cons x ys)
    then obtain q qs where ps: "ps = q # qs" using l by (cases ps) (auto simp: lfs_list_def)
    let ?n = "hd (qs @ [0])"
    have n: "?n < 2 ^ 47" and q: "q \<noteq> 0" "node_at s q = Some (x, ?n)" using l ps Cons by (cases qs; auto simp: lfs_list_def)+
    let ?s = "\<lparr>head_packed = ?n OR push_bit 48 (ucast (tag + 1)), node_at = (node_at s)(q := None)\<rparr>"
    have "LFStack_pop nd s = Inr (PopRet (Some x), ?s)"
      unfolding LFStack_pop_def four
      by (cases s) (use h u ps q pack_user [OF n, of nd "tag + 1"] in \<open>simp\<close>)
    moreover have "lfs_list ?s qs ys"
      using l ps Cons by (auto simp: lfs_list_def linked_upd)
    ultimately show ?thesis using ps Cons by simp
  qed
qed

text \<open>Used by one thread at a time the stack is a stack, and its destructor ends and frees every node.\<close>

lemma LFStack_destroy_ok:
  "lfs_list s ps xs \<Longrightarrow> length xs < n \<Longrightarrow> \<exists>s'. LFStack_destroy nd n s = Some (Inr s') \<and> node_at s' = Map.empty"
proof (induction n arbitrary: s ps xs)
  case (Suc n)
  from LFStack_pop_ok [OF Suc.prems(1), of nd] obtain s' where
    s': "LFStack_pop nd s = Inr (PopRet (case xs of [] \<Rightarrow> None | x # _ \<Rightarrow> Some x), s')" "lfs_list s' (tl ps) (tl xs)" by blast
  show ?case
  proof (cases xs)
    case Nil
    then have "ps = []" using Suc.prems(1) by (cases ps) (auto simp: lfs_list_def)
    then show ?thesis using s' Nil by (auto simp: lfs_list_def)
  next
    case (Cons x ys)
    then show ?thesis using s' Suc.IH [OF s'(2)] Suc.prems(2) by simp
  qed
qed simp


end
