(* ===== verification/HazardPointer.thy ===== *)
theory HazardPointer
  imports Prelude "HOL-Library.Multiset"
begin

text \<open>
  Deferred reclamation, \<^verbatim>\<open>base/HazardPointer.h\<close>: threads publish the pointers they are using, and a retired
  node is deleted only by a scan that finds it in no published pointer.

  The scan reads the slots one after the other while other threads change them: \<open>h k\<close> is the content of the
  table at its \<open>k\<close>-th read.  \<open>deleted\<close> lists what has been deleted so far.  A pointer is its address, 0 the
  null pointer.
\<close>

section \<open>Operations\<close>

definition kMaxHazardPointers :: nat where "kMaxHazardPointers = 2"
definition kRetireThreshold :: nat where "kRetireThreshold = 64"
definition kMaxThreads :: nat where "kMaxThreads = 128"

record ThreadRecord =
  hazardPointers :: "nat list"
  retireList :: "nat list"
  active :: bool

record HazardPointerDomain =
  records :: "ThreadRecord list"
  nextSlot :: nat
  my_record :: "nat \<rightharpoonup> nat"
  deleted :: "nat list"

definition ThreadRecord_new :: ThreadRecord where
  "ThreadRecord_new = \<lparr>hazardPointers = replicate kMaxHazardPointers 0, retireList = [], active = False\<rparr>"

definition HazardPointerDomain_new :: HazardPointerDomain where
  "HazardPointerDomain_new = \<lparr>records = replicate kMaxThreads ThreadRecord_new, nextSlot = 0,
     my_record = Map.empty, deleted = []\<rparr>"

definition registerThread :: "nat \<Rightarrow> HazardPointerDomain \<Rightarrow> (nat \<times> HazardPointerDomain) result" where
  "registerThread th s = (let slot = nextSlot s; s1 = s\<lparr>nextSlot := slot + 1\<rparr> in
     if slot \<ge> kMaxThreads then Inl Aborted
     else Inr (slot, s1\<lparr>records := (records s1)[slot := (records s1 ! slot)\<lparr>active := True\<rparr>]\<rparr>))"

definition getThreadRecord :: "nat \<Rightarrow> HazardPointerDomain \<Rightarrow> (nat \<times> HazardPointerDomain) result" where
  "getThreadRecord th s = (case my_record s th of
     None \<Rightarrow> bindR (registerThread th s) (\<lambda>(i, s1). Inr (i, s1\<lparr>my_record := (my_record s1)(th \<mapsto> i)\<rparr>))
   | Some i \<Rightarrow> Inr (i, s))"

definition HP_store :: "nat \<Rightarrow> nat \<Rightarrow> nat \<Rightarrow> HazardPointerDomain \<Rightarrow> HazardPointerDomain result" where
  "HP_store th idx p s = bindR (getThreadRecord th s) (\<lambda>(i, s1).
     if idx < kMaxHazardPointers
     then Inr (s1\<lparr>records := (records s1)[i := (records s1 ! i)\<lparr>hazardPointers := (hazardPointers (records s1 ! i))[idx := p]\<rparr>]\<rparr>)
     else Inl Undefined)"

definition HP_protect :: "nat \<Rightarrow> nat \<Rightarrow> nat \<Rightarrow> HazardPointerDomain \<Rightarrow> HazardPointerDomain result" where
  "HP_protect th idx ptr = HP_store th idx ptr"

definition HP_clear :: "nat \<Rightarrow> nat \<Rightarrow> HazardPointerDomain \<Rightarrow> HazardPointerDomain result" where
  "HP_clear th idx = HP_store th idx 0"

text \<open>The pointers that a scan collects: three reads for each record.\<close>

definition HP_collect :: "(nat \<Rightarrow> ThreadRecord list) \<Rightarrow> nat list" where
  "HP_collect h = concat (map (\<lambda>i.
     if active (h (3 * i) ! i)
     then filter (\<lambda>hp. hp \<noteq> 0) [hazardPointers (h (3 * i + 1) ! i) ! 0, hazardPointers (h (3 * i + 2) ! i) ! 1]
     else []) [0..<kMaxThreads])"

fun HP_isHazardous :: "nat \<Rightarrow> nat list \<Rightarrow> bool" where
  "HP_isHazardous ptr [] = False"
| "HP_isHazardous ptr (hp # hazardous) = (hp = ptr \<or> HP_isHazardous ptr hazardous)"

text \<open>The loop over the retire list: what it keeps and what it deletes.\<close>

fun HP_sweep :: "nat list \<Rightarrow> nat list \<Rightarrow> nat list \<times> nat list" where
  "HP_sweep hazardous [] = ([], [])"
| "HP_sweep hazardous (p # ps) = (case HP_sweep hazardous ps of (kept, del) \<Rightarrow>
     if HP_isHazardous p hazardous then (p # kept, del) else (kept, p # del))"

definition HP_scan :: "(nat \<Rightarrow> ThreadRecord list) \<Rightarrow> nat \<Rightarrow> HazardPointerDomain \<Rightarrow> HazardPointerDomain" where
  "HP_scan h i s = (case HP_sweep (HP_collect h) (retireList (records s ! i)) of (kept, del) \<Rightarrow>
     s\<lparr>records := (records s)[i := (records s ! i)\<lparr>retireList := kept\<rparr>], deleted := deleted s @ del\<rparr>)"

definition HP_retire :: "(nat \<Rightarrow> ThreadRecord list) \<Rightarrow> nat \<Rightarrow> nat \<Rightarrow> HazardPointerDomain \<Rightarrow> HazardPointerDomain result" where
  "HP_retire h th ptr s = bindR (getThreadRecord th s) (\<lambda>(i, s1).
     let s2 = s1\<lparr>records := (records s1)[i := (records s1 ! i)\<lparr>retireList := retireList (records s1 ! i) @ [ptr]\<rparr>]\<rparr> in
     Inr (if length (retireList (records s2 ! i)) \<ge> kRetireThreshold then HP_scan h i s2 else s2))"

definition HP_reclaimAll :: "(nat \<Rightarrow> ThreadRecord list) \<Rightarrow> nat \<Rightarrow> HazardPointerDomain \<Rightarrow> HazardPointerDomain result" where
  "HP_reclaimAll h th s = bindR (getThreadRecord th s) (\<lambda>(i, s1). let s2 = HP_scan h i s1 in
     Inr (s2\<lparr>deleted := deleted s2 @ retireList (records s2 ! i),
             records := (records s2)[i := (records s2 ! i)\<lparr>retireList := []\<rparr>]\<rparr>))"

section \<open>What a scan does\<close>

lemma isHazardous_set [simp]: "HP_isHazardous p hs \<longleftrightarrow> p \<in> set hs"
  by (induction hs) auto

lemma sweep_filter: "HP_sweep hs ps = (filter (\<lambda>p. p \<in> set hs) ps, filter (\<lambda>p. p \<notin> set hs) ps)"
  by (induction ps) auto

lemma collect_held:
  assumes "i < kMaxThreads" "j < kMaxHazardPointers" "p \<noteq> 0"
    and "\<And>k. active (h k ! i)" "\<And>k. hazardPointers (h k ! i) ! j = p"
  shows "p \<in> set (HP_collect h)"
proof -
  have "j = 0 \<or> j = 1" using assms(2) by (auto simp: kMaxHazardPointers_def)
  then show ?thesis using assms(1,3-) unfolding HP_collect_def by (auto intro!: bexI [of _ i])
qed

lemma length_collect: "length (HP_collect h) \<le> 256"
proof -
  have "length (concat (map f xs)) \<le> 2 * length xs" if "\<And>x. length (f x) \<le> 2" for f :: "nat \<Rightarrow> nat list" and xs
  proof (induction xs)
    case (Cons x xs)
    then show ?case using that [of x] by simp
  qed simp
  then have "length (HP_collect h) \<le> 2 * length [0..<kMaxThreads]"
    unfolding HP_collect_def by (rule meta_mp) (auto intro!: order_trans [OF length_filter_le])
  then show ?thesis by (simp add: kMaxThreads_def)
qed

lemma scan_fields:
  assumes "i < length (records s)"
  shows "retireList (records (HP_scan h i s) ! i) = filter (\<lambda>p. p \<in> set (HP_collect h)) (retireList (records s ! i))"
    "deleted (HP_scan h i s) = deleted s @ filter (\<lambda>p. p \<notin> set (HP_collect h)) (retireList (records s ! i))"
  using assms by (simp_all add: HP_scan_def sweep_filter)

text \<open>
  C36: retiring a node, with other threads publishing and clearing pointers during the scan.  While fewer than 64 nodes
  wait with the new one, it is put behind the others and nothing is deleted; from 64 on, exactly the waiting nodes seen in
  no slot are deleted.  Nothing is lost: the nodes that were waiting and the new one are each deleted once or still waiting.  A node that some thread's slot
  held throughout the scan is not deleted.  Afterwards fewer than 64 nodes wait or all that wait
  were seen in use, so with distinct nodes never more than 256.
\<close>

theorem HazardPointer_retire_correct:
  assumes "my_record s th = Some r" "r < length (records s)"
  shows "\<exists>s' del. HP_retire h th q s = Inr s' \<and> deleted s' = deleted s @ del \<and>
    (let waiting = retireList (records s ! r) @ [q]; seen = (\<lambda>p. p \<in> set (HP_collect h)) in
      (length waiting < 64 \<longrightarrow> del = [] \<and> retireList (records s' ! r) = waiting) \<and>
      (64 \<le> length waiting \<longrightarrow> del = filter (\<lambda>p. \<not> seen p) waiting \<and> retireList (records s' ! r) = filter seen waiting)) \<and>
    mset (retireList (records s' ! r)) + mset del = add_mset q (mset (retireList (records s ! r))) \<and>
    (\<forall>i j p. i < kMaxThreads \<and> j < kMaxHazardPointers \<and> p \<noteq> 0 \<and>
       (\<forall>k. active (h k ! i) \<and> hazardPointers (h k ! i) ! j = p) \<longrightarrow> p \<notin> set del) \<and>
    (length (retireList (records s' ! r)) < 64 \<or> set (retireList (records s' ! r)) \<subseteq> set (HP_collect h)) \<and>
    (distinct (q # retireList (records s ! r)) \<longrightarrow> length (retireList (records s' ! r)) \<le> 256)"
proof -
  let ?l = "retireList (records s ! r) @ [q]"
  let ?s = "s\<lparr>records := (records s)[r := (records s ! r)\<lparr>retireList := ?l\<rparr>]\<rparr>"
  have ret: "HP_retire h th q s = Inr (if 64 \<le> length ?l then HP_scan h r ?s else ?s)"
    using assms by (simp add: HP_retire_def getThreadRecord_def kRetireThreshold_def Let_def)
  show ?thesis
  proof (cases "64 \<le> length ?l")
    case False
    then show ?thesis using ret assms(2) by (intro exI [of _ ?s] exI [of _ "[]"]) auto
  next
    case True
    let ?c = "set (HP_collect h)"
    let ?kept = "filter (\<lambda>p. p \<in> ?c) ?l" and ?del = "filter (\<lambda>p. p \<notin> ?c) ?l"
    have f: "retireList (records (HP_scan h r ?s) ! r) = ?kept" "deleted (HP_scan h r ?s) = deleted s @ ?del"
      using scan_fields [of r ?s h] assms(2) by simp_all
    have "mset ?kept + mset ?del = mset ?l" by (metis mset_filter multiset_partition)
    moreover have "length ?kept \<le> 256" if "distinct ?l"
    proof -
      have "card (set ?kept) \<le> card ?c" by (intro card_mono) auto
      then show ?thesis using that distinct_card [of ?kept] card_length [of "HP_collect h"] length_collect [of h] by simp
    qed
    ultimately show ?thesis
      using ret True f collect_held by (intro exI [of _ "HP_scan h r ?s"] exI [of _ ?del]) auto
  qed
qed

text \<open>Thread 7 retires its 64th node while a thread uses node 5.\<close>

definition hp_sample :: HazardPointerDomain where
  "hp_sample = \<lparr>records = (replicate kMaxThreads ThreadRecord_new)
       [0 := \<lparr>hazardPointers = [5, 0], retireList = [1..<64], active = True\<rparr>],
     nextSlot = 1, my_record = [7 \<mapsto> 0], deleted = []\<rparr>"

theorem HazardPointer_retire_correct_witness:
  "\<exists>s' del. HP_retire (\<lambda>_. records hp_sample) 7 64 hp_sample = Inr s' \<and> deleted s' = del \<and> 5 \<notin> set del \<and>
     mset (retireList (records s' ! 0)) + mset del = mset [1..<65] \<and> length (retireList (records s' ! 0)) \<le> 256"
proof -
  have r: "my_record hp_sample 7 = Some 0" "0 < length (records hp_sample)" "deleted hp_sample = []"
    "retireList (records hp_sample ! 0) = [1..<64]" "active (records hp_sample ! 0)" "hazardPointers (records hp_sample ! 0) ! 0 = 5"
    by (simp_all add: hp_sample_def kMaxThreads_def)
  have l: "add_mset 64 (mset [1..<64]) = mset [1..<65]" using upt_Suc [of 1 64] by simp
  obtain s' del where *: "HP_retire (\<lambda>_. records hp_sample) 7 64 hp_sample = Inr s'" "deleted s' = del"
    "mset (retireList (records s' ! 0)) + mset del = mset [1..<65]" "length (retireList (records s' ! 0)) \<le> 256"
    "\<forall>i j p. i < kMaxThreads \<and> j < kMaxHazardPointers \<and> p \<noteq> 0 \<and>
       (\<forall>k :: nat. active (records hp_sample ! i) \<and> hazardPointers (records hp_sample ! i) ! j = p) \<longrightarrow> p \<notin> set del"
    using HazardPointer_retire_correct [OF r(1,2), of "\<lambda>_. records hp_sample" 64] unfolding r(3,4) l by auto
  have "5 \<notin> set del" using *(5) [rule_format, of 0 0 5] r(5,6) by (simp add: kMaxThreads_def kMaxHazardPointers_def)
  then show ?thesis using *(1-4) by blast
qed

text \<open>
  A thread that ends keeps its record: after 128 registrations in the life of the process the next thread
  aborts it.
\<close>

lemma registerThread_exhausted:
  "nextSlot s = kMaxThreads \<Longrightarrow> my_record s th = None \<Longrightarrow> HP_protect th i p s = Inl Aborted"
  by (simp add: HP_protect_def HP_store_def getThreadRecord_def registerThread_def)

end
