(* ===== verification/LFMemoryPool.thy ===== *)
theory LFMemoryPool
  imports TaggedPointer "HOL-Library.Multiset"
begin

unbundle bit_operations_syntax

text \<open>
  The lock-free memory pool, \<^verbatim>\<open>base/LFMemoryPool.h\<close>.  First its free lists: stacks of blocks linked through their
  first word, with a tagged head.  \<open>FreeList_micro\<close> is one atomic step of \<^verbatim>\<open>push\<close> or \<^verbatim>\<open>pop\<close>, and
  \<open>FreeList_step\<close> interleaves any number of threads with clients that write to the blocks they
  own.  Then \<^verbatim>\<open>allocate\<close> and \<^verbatim>\<open>deallocate\<close> with the cache of one thread, over the stacks that the free lists are
  shown to be.  Blocks are never unmapped while the pool is in use, so every read of \<^verbatim>\<open>next\<close> is of mapped memory.
\<close>

section \<open>Free lists\<close>

datatype fl_pc =
    FlIdle
  | FlPush "64 word" | FlLink "64 word" "64 word" | FlPushCas "64 word" "64 word" "64 word" | FlPushed
  | FlPop | FlTop "64 word" | FlVerify "64 word" | FlNext "64 word" | FlPopCas "64 word" "64 word" "64 word"
  | FlGot "64 word" | FlNone

record FreeList =
  headPacked :: "64 word"
  next_of :: "64 word \<Rightarrow> 64 word"
  protected :: "nat \<Rightarrow> 64 word"

text \<open>
  One step of thread \<open>th\<close>; \<open>weak\<close> makes \<^verbatim>\<open>compare_exchange_weak\<close> fail although the values agree.  A
  failed one leaves the value it found in \<^verbatim>\<open>oldPacked\<close>.
\<close>

fun FreeList_micro :: "nat \<Rightarrow> bool \<Rightarrow> fl_pc \<Rightarrow> FreeList \<Rightarrow> fl_pc \<times> FreeList" where
  "FreeList_micro th weak (FlPush node) f = (FlLink node (headPacked f), f)"
| "FreeList_micro th weak (FlLink node oldPacked) f =
     (let oldHead = oldPacked AND 0x0000FFFFFFFFFFFF; oldTag = ucast (drop_bit 48 oldPacked) :: 16 word in
      (FlPushCas node oldPacked (node OR push_bit 48 (ucast oldTag)), f\<lparr>next_of := (next_of f)(node := oldHead)\<rparr>))"
| "FreeList_micro th weak (FlPushCas node oldPacked newPacked) f =
     (if headPacked f = oldPacked \<and> \<not> weak then (FlPushed, f\<lparr>headPacked := newPacked\<rparr>)
      else (FlLink node (headPacked f), f))"
| "FreeList_micro th weak FlPop f = (FlTop (headPacked f), f)"
| "FreeList_micro th weak (FlTop oldPacked) f =
     (let head = oldPacked AND 0x0000FFFFFFFFFFFF in
      if head = 0 then (FlNone, f) else (FlVerify oldPacked, f\<lparr>protected := (protected f)(th := head)\<rparr>))"
| "FreeList_micro th weak (FlVerify oldPacked) f =
     (let head = oldPacked AND 0x0000FFFFFFFFFFFF; verifyPacked = headPacked f;
          verifyHead = verifyPacked AND 0x0000FFFFFFFFFFFF in
      if head \<noteq> verifyHead then (FlTop verifyPacked, f\<lparr>protected := (protected f)(th := 0)\<rparr>)
      else (FlNext oldPacked, f))"
| "FreeList_micro th weak (FlNext oldPacked) f =
     (let head = oldPacked AND 0x0000FFFFFFFFFFFF; oldTag = ucast (drop_bit 48 oldPacked) :: 16 word;
          nextPtr = next_of f head; newPacked = nextPtr OR push_bit 48 (ucast oldTag + 1) in
      (FlPopCas head oldPacked newPacked, f))"
| "FreeList_micro th weak (FlPopCas head oldPacked newPacked) f =
     (if headPacked f = oldPacked \<and> \<not> weak
      then (FlGot head, f\<lparr>headPacked := newPacked, protected := (protected f)(th := 0)\<rparr>)
      else (FlTop (headPacked f), f\<lparr>protected := (protected f)(th := 0)\<rparr>))"
| "FreeList_micro th weak pc f = (pc, f)"

definition FreeList_empty :: "FreeList \<Rightarrow> bool" where
  "FreeList_empty f \<longleftrightarrow> headPacked f AND 0x0000FFFFFFFFFFFF = 0"

section \<open>Interleaved calls\<close>

text \<open>
  \<open>held\<close> are the blocks of the clients, \<open>stack\<close> those of the list from its head on, \<open>pops\<close> counts the
  successful pops, and \<open>known\<close> are all the blocks that have been allocated.
\<close>

record fl_sys =
  flist :: FreeList
  fl_pcs :: "nat \<Rightarrow> fl_pc"
  held :: "64 word set"
  stack :: "64 word list"
  pops :: nat
  known :: "64 word set"

fun note_stack :: "fl_pc \<Rightarrow> fl_pc \<Rightarrow> 64 word list \<Rightarrow> 64 word list" where
  "note_stack (FlPushCas n _ _) FlPushed st = n # st"
| "note_stack (FlPopCas _ _ _) (FlGot _) st = tl st"
| "note_stack _ _ st = st"

fun note_pops :: "fl_pc \<Rightarrow> nat" where
  "note_pops (FlGot _) = 1"
| "note_pops _ = 0"

fun busy :: "fl_pc \<Rightarrow> 64 word set" where
  "busy (FlPush n) = {n}"
| "busy (FlLink n _) = {n}"
| "busy (FlPushCas n _ _) = {n}"
| "busy (FlGot n) = {n}"
| "busy _ = {}"

definition block_ok :: "64 word \<Rightarrow> bool" where
  "block_ok n \<longleftrightarrow> n \<noteq> 0 \<and> n < 2 ^ 47"

inductive FreeList_step :: "fl_sys \<Rightarrow> fl_sys \<Rightarrow> bool" where
  push: "fl_pcs s th = FlIdle \<Longrightarrow> n \<in> held s \<Longrightarrow>
    FreeList_step s (s\<lparr>fl_pcs := (fl_pcs s)(th := FlPush n), held := held s - {n}\<rparr>)"
| pop: "fl_pcs s th = FlIdle \<Longrightarrow> FreeList_step s (s\<lparr>fl_pcs := (fl_pcs s)(th := FlPop)\<rparr>)"
| micro: "FreeList_micro th weak (fl_pcs s th) (flist s) = (pc', f') \<Longrightarrow> (\<forall>n. fl_pcs s th \<noteq> FlGot n) \<Longrightarrow>
    FreeList_step s (s\<lparr>flist := f', fl_pcs := (fl_pcs s)(th := pc'), stack := note_stack (fl_pcs s th) pc' (stack s),
      pops := pops s + note_pops pc'\<rparr>)"
| got: "fl_pcs s th = FlGot n \<Longrightarrow> FreeList_step s (s\<lparr>fl_pcs := (fl_pcs s)(th := FlIdle), held := insert n (held s)\<rparr>)"
| ret: "fl_pcs s th = FlPushed \<or> fl_pcs s th = FlNone \<Longrightarrow> FreeList_step s (s\<lparr>fl_pcs := (fl_pcs s)(th := FlIdle)\<rparr>)"
| client_write: "n \<in> held s \<Longrightarrow> FreeList_step s (s\<lparr>flist := (flist s)\<lparr>next_of := (next_of (flist s))(n := v)\<rparr>\<rparr>)"
| malloc: "block_ok n \<Longrightarrow> n \<notin> known s \<Longrightarrow>
    FreeList_step s (s\<lparr>held := insert n (held s), known := insert n (known s)\<rparr>)"

definition FreeList_init :: "fl_sys \<Rightarrow> bool" where
  "FreeList_init s \<longleftrightarrow> headPacked (flist s) = 0 \<and> fl_pcs s = (\<lambda>th. FlIdle) \<and> held s = {} \<and> stack s = [] \<and> pops s = 0 \<and>
     known s = {}"

section \<open>Invariant\<close>

fun list_at :: "(64 word \<Rightarrow> 64 word) \<Rightarrow> 64 word \<Rightarrow> 64 word list \<Rightarrow> bool" where
  "list_at m p [] \<longleftrightarrow> p = 0"
| "list_at m p (n # ns) \<longleftrightarrow> p = n \<and> list_at m (m n) ns"

definition pk :: "64 word \<Rightarrow> nat \<Rightarrow> 64 word" where
  "pk p t = p OR push_bit 48 (ucast (of_nat t :: 16 word))"

definition top_of :: "64 word list \<Rightarrow> 64 word" where
  "top_of st = (case st of [] \<Rightarrow> 0 | n # _ \<Rightarrow> n)"

text \<open>
  A packed word that a thread has loaded: the head as it was when \<open>t\<close> blocks had been popped.  If
  none has been popped since, its block is still in the stack.
\<close>

definition loaded :: "fl_sys \<Rightarrow> 64 word \<Rightarrow> 64 word \<Rightarrow> nat \<Rightarrow> bool" where
  "loaded s w p t \<longleftrightarrow> w = pk p t \<and> p < 2 ^ 47 \<and> t \<le> pops s \<and> (t = pops s \<and> p \<noteq> 0 \<longrightarrow> p \<in> set (stack s))"

fun fl_pc_ok :: "fl_sys \<Rightarrow> fl_pc \<Rightarrow> bool" where
  "fl_pc_ok s (FlLink n w) = (\<exists>p t. loaded s w p t)"
| "fl_pc_ok s (FlPushCas n w w') = (\<exists>p t. loaded s w p t \<and> next_of (flist s) n = p \<and> w' = pk n t)"
| "fl_pc_ok s (FlTop w) = (\<exists>p t. loaded s w p t)"
| "fl_pc_ok s (FlVerify w) = (\<exists>p t. loaded s w p t \<and> p \<noteq> 0)"
| "fl_pc_ok s (FlNext w) = (\<exists>p t. loaded s w p t \<and> p \<noteq> 0)"
| "fl_pc_ok s (FlPopCas h w w') = (\<exists>p t. loaded s w p t \<and> p \<noteq> 0 \<and> h = p \<and>
     (t = pops s \<longrightarrow> w' = next_of (flist s) p OR push_bit 48 (ucast (of_nat t :: 16 word) + 1)))"
| "fl_pc_ok s _ = True"

definition fl_good :: "fl_sys \<Rightarrow> bool" where
  "fl_good s \<longleftrightarrow> headPacked (flist s) = pk (top_of (stack s)) (pops s) \<and>
     list_at (next_of (flist s)) (top_of (stack s)) (stack s) \<and> distinct (stack s) \<and>
     (\<forall>n \<in> set (stack s) \<union> held s \<union> (\<Union>th. busy (fl_pcs s th)). block_ok n) \<and>
     set (stack s) \<inter> held s = {} \<and> (\<forall>th. busy (fl_pcs s th) \<inter> (set (stack s) \<union> held s) = {}) \<and>
     (\<forall>th th'. th \<noteq> th' \<longrightarrow> busy (fl_pcs s th) \<inter> busy (fl_pcs s th') = {}) \<and>
     (\<forall>th. fl_pc_ok s (fl_pcs s th))"

text \<open>No block is lost: each is in the list, with a client, or in the hands of a thread that pushes or has popped it.\<close>

definition known_ok :: "fl_sys \<Rightarrow> bool" where
  "known_ok s \<longleftrightarrow> known s = set (stack s) \<union> held s \<union> (\<Union>th. busy (fl_pcs s th))"

section \<open>Packed heads\<close>

lemma kPtrMask_num: "w AND 0x0000FFFFFFFFFFFF = TaggedPointer_ptr w"
  by (simp add: TaggedPointer_ptr_def kPtrMask_def)

lemma tag_num: "ucast (drop_bit 48 w) = TaggedPointer_tag w"
  by (simp add: TaggedPointer_tag_def kTagShift_def)

lemma ptr_pk [simp]: "p < 2 ^ 47 \<Longrightarrow> TaggedPointer_ptr (pk p t) = p"
  by (simp add: pk_def unpack_user)

lemma tag_pk [simp]: "p < 2 ^ 47 \<Longrightarrow> TaggedPointer_tag (pk p t) = of_nat t"
  by (simp add: pk_def unpack_user)

lemma pk_eq:
  assumes "pk p t = pk q u" "p < 2 ^ 47" "q < 2 ^ 47" "t < 2 ^ 16" "u < 2 ^ 16"
  shows "p = q \<and> t = u"
proof -
  have "p = q" "(of_nat t :: 16 word) = of_nat u"
    using arg_cong [OF assms(1), of TaggedPointer_ptr] arg_cong [OF assms(1), of TaggedPointer_tag] assms(2,3) by simp_all
  moreover have "unat (of_nat t :: 16 word) = t" "unat (of_nat u :: 16 word) = u"
    using assms(4,5) by (auto intro!: of_nat_inverse [OF refl])
  ultimately show ?thesis by metis
qed

lemma pk_next: "p OR push_bit 48 (ucast (of_nat t :: 16 word) + 1) = pk p (Suc t)"
proof -
  have "push_bit 48 (ucast w + 1) = (push_bit 48 (ucast (w + 1)) :: 64 word)" for w :: "16 word"
  proof (cases "w = - 1")
    case True
    have "ucast (- 1 :: 16 word) = (mask 16 :: 64 word)" by (simp add: unsigned_minus_1_eq_mask)
    then have "ucast w + 1 = (2 ^ 16 :: 64 word)" using True by (simp add: mask_eq_exp_minus_1)
    then show ?thesis using True by (simp add: push_bit_eq_mult)
  next
    case False
    then have "unat (w + 1) = Suc (unat w)"
      using unatSuc [of w] by (metis add.commute add_eq_0_iff)
    then have "ucast (w + 1) = (ucast w + 1 :: 64 word)"
      by (metis of_nat_unat of_nat_Suc add.commute)
    then show ?thesis by simp
  qed
  then show ?thesis by (simp add: pk_def add.commute)
qed

section \<open>Preservation\<close>

lemma fl_goodE:
  assumes "fl_good s"
  shows "headPacked (flist s) = pk (top_of (stack s)) (pops s)" "list_at (next_of (flist s)) (top_of (stack s)) (stack s)"
    "distinct (stack s)" "\<And>n. n \<in> set (stack s) \<Longrightarrow> block_ok n" "\<And>n. n \<in> held s \<Longrightarrow> block_ok n"
    "\<And>n th. n \<in> busy (fl_pcs s th) \<Longrightarrow> block_ok n" "set (stack s) \<inter> held s = {}"
    "\<And>n th. n \<in> busy (fl_pcs s th) \<Longrightarrow> n \<notin> set (stack s) \<and> n \<notin> held s"
    "\<And>n th th'. th \<noteq> th' \<Longrightarrow> n \<in> busy (fl_pcs s th) \<Longrightarrow> n \<notin> busy (fl_pcs s th')"
    "\<And>th. fl_pc_ok s (fl_pcs s th)"
  using assms unfolding fl_good_def by blast+

lemma fl_goodI:
  assumes "headPacked (flist s) = pk (top_of (stack s)) (pops s)" "list_at (next_of (flist s)) (top_of (stack s)) (stack s)"
    "distinct (stack s)" "\<And>n. n \<in> set (stack s) \<Longrightarrow> block_ok n" "\<And>n. n \<in> held s \<Longrightarrow> block_ok n"
    "\<And>n th. n \<in> busy (fl_pcs s th) \<Longrightarrow> block_ok n" "\<And>n. n \<in> set (stack s) \<Longrightarrow> n \<notin> held s"
    "\<And>n th. n \<in> busy (fl_pcs s th) \<Longrightarrow> n \<notin> set (stack s) \<and> n \<notin> held s"
    "\<And>n th th'. th \<noteq> th' \<Longrightarrow> n \<in> busy (fl_pcs s th) \<Longrightarrow> n \<notin> busy (fl_pcs s th')"
    "\<And>th. fl_pc_ok s (fl_pcs s th)"
  shows "fl_good s"
  unfolding fl_good_def using assms by blast

lemma block_bound: "block_ok n \<Longrightarrow> n < 2 ^ 47" "block_ok n \<Longrightarrow> n \<noteq> 0"
  by (simp_all add: block_ok_def)

lemma top_bound: "fl_good s \<Longrightarrow> top_of (stack s) < 2 ^ 47"
  using fl_goodE(4) [of s] by (cases "stack s") (auto simp: top_of_def block_ok_def)

lemma loaded_now: "fl_good s \<Longrightarrow> loaded s (headPacked (flist s)) (top_of (stack s)) (pops s)"
  using top_bound [of s] fl_goodE(1) [of s] by (cases "stack s") (auto simp: loaded_def top_of_def)

lemma list_at_upd: "n \<notin> set ns \<Longrightarrow> list_at (m(n := v)) p ns = list_at m p ns"
  by (induction ns arbitrary: p) auto

text \<open>What the steps of others leave valid in the local variables of a thread.\<close>

definition evolves :: "fl_pc \<Rightarrow> fl_sys \<Rightarrow> fl_sys \<Rightarrow> bool" where
  "evolves pc s s' \<longleftrightarrow> (\<forall>n \<in> busy pc. next_of (flist s') n = next_of (flist s) n) \<and>
     (pops s < pops s' \<or> pops s' = pops s \<and> set (stack s) \<subseteq> set (stack s') \<and>
        (\<forall>n \<in> set (stack s). next_of (flist s') n = next_of (flist s) n))"

lemma loaded_evolves: "loaded s w p t \<Longrightarrow> evolves pc s s' \<Longrightarrow> loaded s' w p t"
  by (auto simp: loaded_def evolves_def)

lemma fl_pc_ok_evolves:
  assumes ok: "fl_pc_ok s pc" and ev: "evolves pc s s'"
  shows "fl_pc_ok s' pc"
proof (cases pc)
  case (FlPushCas n w w')
  then show ?thesis using ok ev loaded_evolves [OF _ ev] by (auto simp: evolves_def)
next
  case (FlPopCas h w w')
  then obtain p t where p: "loaded s w p t" "p \<noteq> 0" "h = p"
    "t = pops s \<longrightarrow> w' = next_of (flist s) p OR push_bit 48 (ucast (of_nat t :: 16 word) + 1)" using ok by auto
  have "t = pops s' \<longrightarrow> w' = next_of (flist s') p OR push_bit 48 (ucast (of_nat t :: 16 word) + 1)"
    using p ev by (auto simp: evolves_def loaded_def)
  then show ?thesis using FlPopCas p loaded_evolves [OF p(1) ev] by auto
qed (use ok loaded_evolves [OF _ ev] in \<open>simp_all, blast+\<close>)

lemma good_quiet:
  assumes good: "fl_good s" and f: "headPacked f = headPacked (flist s)" "next_of f = next_of (flist s)"
    and pc: "fl_pc_ok s pc" "busy pc = busy (fl_pcs s th)"
  shows "fl_good (s\<lparr>flist := f, fl_pcs := (fl_pcs s)(th := pc)\<rparr>)" (is "fl_good ?s")
proof -
  note G = fl_goodE [OF good]
  have ok: "fl_pc_ok ?s p" if "fl_pc_ok s p" for p
    by (rule fl_pc_ok_evolves [OF that]) (simp add: evolves_def f)
  have b: "busy (((fl_pcs s)(th := pc)) th') = busy (fl_pcs s th')" for th' using pc(2) by simp
  show ?thesis
    by (rule fl_goodI) (use G f ok pc(1) in \<open>auto simp: b simp del: fun_upd_apply\<close>, auto simp: ok)
qed

lemma good_link:
  assumes good: "fl_good s" and pc: "fl_pcs s th = FlLink n w"
  shows "fl_good (s\<lparr>flist := (flist s)\<lparr>next_of := (next_of (flist s))(n := TaggedPointer_ptr w)\<rparr>,
    fl_pcs := (fl_pcs s)(th := FlPushCas n w (n OR push_bit 48 (ucast (TaggedPointer_tag w))))\<rparr>)" (is "fl_good ?s")
proof -
  note G = fl_goodE [OF good]
  obtain p t where l: "loaded s w p t" using G(10) [of th] pc by auto
  have n: "block_ok n" "n \<notin> set (stack s)" "n \<notin> held s" using G(6) [of n th] G(8) [of n th] pc by auto
  have w: "TaggedPointer_ptr w = p" "n OR push_bit 48 (ucast (TaggedPointer_tag w)) = pk n t"
    using l by (auto simp: loaded_def pk_def unpack_user)
  have b: "busy (((fl_pcs s)(th := FlPushCas n w v)) th') = busy (fl_pcs s th')" for th' v using pc by simp
  have ok: "fl_pc_ok ?s (fl_pcs ?s th')" for th'
  proof (cases "th' = th")
    case True
    have "loaded ?s w p t" using l by (simp add: loaded_def)
    then show ?thesis using True w by auto
  next
    case False
    have "fl_pc_ok ?s (fl_pcs s th')"
      by (rule fl_pc_ok_evolves [OF G(10)]) (use G(9) [OF False, of n] pc n in \<open>auto simp: evolves_def\<close>)
    then show ?thesis using False by simp
  qed
  show ?thesis
    by (rule fl_goodI) (use G n ok in \<open>auto simp: b list_at_upd simp del: fun_upd_apply\<close>)
qed

lemma good_push:
  assumes good: "fl_good s" and pc: "fl_pcs s th = FlPushCas n (headPacked (flist s)) w'" and few: "pops s < 2 ^ 16"
  shows "fl_good (s\<lparr>flist := (flist s)\<lparr>headPacked := w'\<rparr>, fl_pcs := (fl_pcs s)(th := FlPushed), stack := n # stack s\<rparr>)"
    (is "fl_good ?s")
proof -
  note G = fl_goodE [OF good]
  have n: "block_ok n" "n \<notin> set (stack s)" "n \<notin> held s" using G(6) [of n th] G(8) [of n th] pc by auto
  obtain p t where l: "loaded s (headPacked (flist s)) p t" "next_of (flist s) n = p" "w' = pk n t" using G(10) [of th] pc by auto
  then have "p = top_of (stack s) \<and> t = pops s"
    using G(1) top_bound [OF good] few by (intro pk_eq) (auto simp: loaded_def)
  then have w: "next_of (flist s) n = top_of (stack s)" "w' = pk n (pops s)" using l by auto
  have b: "busy (fl_pcs ?s th') \<subseteq> busy (fl_pcs s th')" for th' using pc by simp
  have nb: "n \<notin> busy (fl_pcs ?s th')" for th' using G(9) [of th th' n] pc by auto
  have ok: "fl_pc_ok ?s (fl_pcs ?s th')" for th'
  proof (cases "th' = th")
    case False
    have "fl_pc_ok ?s (fl_pcs s th')" by (rule fl_pc_ok_evolves [OF G(10)]) (auto simp: evolves_def)
    then show ?thesis using False by simp
  qed simp
  show ?thesis
  proof (rule fl_goodI)
    show "m \<notin> set (stack ?s) \<and> m \<notin> held ?s" if "m \<in> busy (fl_pcs ?s th')" for m th'
      using that nb [of th'] b [of th'] G(8) by auto
    show "m \<notin> busy (fl_pcs ?s th'')" if "th' \<noteq> th''" "m \<in> busy (fl_pcs ?s th')" for m th' th''
      using that b G(9) by blast
    show "block_ok m" if "m \<in> busy (fl_pcs ?s th')" for m th' using that b G(6) by blast
  qed (use G(1-5,7) n w ok in \<open>auto simp: top_of_def simp del: fun_upd_apply split: list.splits\<close>)
qed

lemma pop_head:
  assumes good: "fl_good s" and pc: "fl_pcs s th = FlPopCas h (headPacked (flist s)) w'" and few: "pops s < 2 ^ 16"
  shows "\<exists>ns. stack s = h # ns"
proof -
  note G = fl_goodE [OF good]
  obtain p t where l: "loaded s (headPacked (flist s)) p t" "p \<noteq> 0" "h = p" using G(10) [of th] pc by auto
  then have "p = top_of (stack s) \<and> t = pops s"
    using G(1) top_bound [OF good] few by (intro pk_eq) (auto simp: loaded_def)
  then show ?thesis using l(2,3) by (cases "stack s") (auto simp: top_of_def)
qed

lemma good_pop:
  assumes good: "fl_good s" and pc: "fl_pcs s th = FlPopCas h (headPacked (flist s)) w'" and few: "pops s < 2 ^ 16"
  shows "fl_good (s\<lparr>flist := (flist s)\<lparr>headPacked := w', protected := pr\<rparr>, fl_pcs := (fl_pcs s)(th := FlGot h),
    stack := tl (stack s), pops := Suc (pops s)\<rparr>)" (is "fl_good ?s")
proof -
  note G = fl_goodE [OF good]
  obtain p t where l: "loaded s (headPacked (flist s)) p t" "p \<noteq> 0" "h = p"
    "t = pops s \<longrightarrow> w' = next_of (flist s) p OR push_bit 48 (ucast (of_nat t :: 16 word) + 1)"
    using G(10) [of th] pc by auto
  then have p: "p = top_of (stack s) \<and> t = pops s"
    using G(1) top_bound [OF good] few by (intro pk_eq) (auto simp: loaded_def)
  then obtain ns where st: "stack s = h # ns" using l(2,3) by (cases "stack s") (auto simp: top_of_def)
  have w: "w' = pk (next_of (flist s) h) (Suc (pops s))" using l p pk_next by simp
  have top: "next_of (flist s) h = top_of ns" using G(2) st by (cases ns) (auto simp: top_of_def)
  have h: "block_ok h" "h \<notin> set ns" "h \<notin> held s" using G(3,4,7) st by auto
  have ok: "fl_pc_ok ?s (fl_pcs ?s th')" for th'
  proof (cases "th' = th")
    case False
    have "fl_pc_ok ?s (fl_pcs s th')" by (rule fl_pc_ok_evolves [OF G(10)]) (auto simp: evolves_def)
    then show ?thesis using False by simp
  qed simp
  have b: "busy (fl_pcs ?s th') = (if th' = th then {h} else busy (fl_pcs s th'))" for th' by simp
  have nb: "h \<notin> busy (fl_pcs s th')" for th' using G(8) [of h th'] st by auto
  show ?thesis
  proof (rule fl_goodI)
    show "list_at (next_of (flist ?s)) (top_of (stack ?s)) (stack ?s)" using G(2) st top by simp
    show "m \<notin> busy (fl_pcs ?s th'')" if "th' \<noteq> th''" "m \<in> busy (fl_pcs ?s th')" for m th' th''
      using that nb G(9) unfolding b by (auto split: if_splits)
    show "m \<notin> set (stack ?s) \<and> m \<notin> held ?s" if "m \<in> busy (fl_pcs ?s th')" for m th'
      using that h G(8) st unfolding b by (auto split: if_splits)
    show "block_ok m" if "m \<in> busy (fl_pcs ?s th')" for m th'
      using that h G(6) unfolding b by (auto split: if_splits)
  qed (use G(3-5,7) st w top ok in \<open>auto simp del: fun_upd_apply\<close>)
qed

lemma fl_good_micro:
  assumes good: "fl_good s" and few: "pops s < 2 ^ 16"
    and step: "FreeList_micro th weak (fl_pcs s th) (flist s) = (pc', f')" and own: "\<forall>n. fl_pcs s th \<noteq> FlGot n"
  shows "fl_good (s\<lparr>flist := f', fl_pcs := (fl_pcs s)(th := pc'), stack := note_stack (fl_pcs s th) pc' (stack s),
    pops := pops s + note_pops pc'\<rparr>)"
proof -
  note G = fl_goodE [OF good]
  note quiet = good_quiet [OF good, of f' pc' th]
  have now: "fl_pc_ok s (FlLink n (headPacked (flist s)))" "fl_pc_ok s (FlTop (headPacked (flist s)))" for n
    using loaded_now [OF good] by auto
  show ?thesis
  proof (cases "fl_pcs s th")
    case (FlLink n w)
    then show ?thesis using good_link [OF good FlLink] step by (auto simp: Let_def kPtrMask_num tag_num)
  next
    case (FlPushCas n w w')
    show ?thesis
    proof (cases "headPacked (flist s) = w \<and> \<not> weak")
      case True
      then show ?thesis using good_push [OF good, of th n w'] FlPushCas few step by auto
    next
      case False
      then show ?thesis using quiet step FlPushCas by (auto simp: now simp del: fl_pc_ok.simps split: if_splits)
    qed
  next
    case (FlPopCas h w w')
    show ?thesis
    proof (cases "headPacked (flist s) = w \<and> \<not> weak")
      case True
      then show ?thesis using good_pop [OF good, of th h w'] FlPopCas few step by auto
    next
      case False
      then show ?thesis using quiet step FlPopCas by (auto simp: now simp del: fl_pc_ok.simps split: if_splits)
    qed
  next
    case (FlTop w)
    then obtain p t where l: "loaded s w p t" using G(10) [of th] by auto
    then have "TaggedPointer_ptr w = p" by (auto simp: loaded_def)
    then have "TaggedPointer_ptr w \<noteq> 0 \<Longrightarrow> fl_pc_ok s (FlVerify w)" using l by auto
    then show ?thesis using quiet step FlTop
      by (cases "TaggedPointer_ptr w = 0") (auto simp: Let_def kPtrMask_num simp del: fl_pc_ok.simps(4) split: if_splits)
  next
    case (FlVerify w)
    then have "fl_pc_ok s (FlNext w)" using G(10) [of th] by simp
    then show ?thesis using quiet step FlVerify by (auto simp: now Let_def simp del: fl_pc_ok.simps split: if_splits)
  next
    case (FlNext w)
    then obtain p t where l: "loaded s w p t" "p \<noteq> 0" using G(10) [of th] by auto
    then have "TaggedPointer_ptr w = p" "TaggedPointer_tag w = of_nat t" by (auto simp: loaded_def)
    then have "fl_pc_ok s (FlPopCas (TaggedPointer_ptr w) w
        (next_of (flist s) (TaggedPointer_ptr w) OR push_bit 48 (ucast (TaggedPointer_tag w) + 1)))"
      using l by auto
    then show ?thesis using quiet step FlNext by (auto simp: Let_def kPtrMask_num tag_num simp del: fl_pc_ok.simps(6))
  next
    case (FlPush n)
    then show ?thesis using quiet step by (auto simp: now simp del: fl_pc_ok.simps)
  next
    case FlPop
    then show ?thesis using quiet step by (auto simp: now simp del: fl_pc_ok.simps)
  qed (use quiet step own in auto)
qed

lemma good_block:
  assumes "fl_good s" "\<And>th. n \<notin> busy (fl_pcs s th)" "n \<notin> set (stack s)" "block_ok n"
  shows "fl_good (s\<lparr>held := insert n (held s)\<rparr>)"
proof -
  note G = fl_goodE [OF assms(1)]
  have ok: "fl_pc_ok (s\<lparr>held := insert n (held s)\<rparr>) p" if "fl_pc_ok s p" for p
    by (rule fl_pc_ok_evolves [OF that]) (simp add: evolves_def)
  show ?thesis by (rule fl_goodI) (use G assms ok in auto)
qed

lemma loaded_known [simp]: "loaded (s\<lparr>known := k\<rparr>) = loaded s"
  by (simp add: loaded_def fun_eq_iff)

lemma good_known: "fl_good s \<Longrightarrow> fl_good (s\<lparr>known := k\<rparr>)"
proof -
  have "fl_pc_ok (s\<lparr>known := k\<rparr>) p = fl_pc_ok s p" for p by (cases p) simp_all
  then show "fl_good s \<Longrightarrow> fl_good (s\<lparr>known := k\<rparr>)" by (simp add: fl_good_def)
qed

definition fl_inv :: "fl_sys \<Rightarrow> bool" where
  "fl_inv s \<longleftrightarrow> (pops s < 2 ^ 16 \<longrightarrow> fl_good s \<and> known_ok s)"

lemma good_call:
  assumes good: "fl_good s" and pc: "fl_pcs s th = FlIdle" and n: "n \<in> held s"
  shows "fl_good (s\<lparr>fl_pcs := (fl_pcs s)(th := FlPush n), held := held s - {n}\<rparr>)" (is "fl_good ?s")
proof -
  note G = fl_goodE [OF good]
  have ok: "fl_pc_ok ?s p" if "fl_pc_ok s p" for p
    by (rule fl_pc_ok_evolves [OF that]) (simp add: evolves_def)
  have b: "busy (((fl_pcs s)(th := FlPush n)) th') = (if th' = th then {n} else busy (fl_pcs s th'))" for th' by simp
  have nb: "n \<notin> busy (fl_pcs s th')" for th' using G(8) [of n th'] n by auto
  show ?thesis
  proof (rule fl_goodI)
    show "m \<notin> busy (fl_pcs ?s th'')" if "th' \<noteq> th''" "m \<in> busy (fl_pcs ?s th')" for m th' th''
      using that nb G(9) by (auto simp: b simp del: fun_upd_apply split: if_splits)
    show "m \<notin> set (stack ?s) \<and> m \<notin> held ?s" if "m \<in> busy (fl_pcs ?s th')" for m th'
      using that n G(7,8) by (auto simp: b simp del: fun_upd_apply split: if_splits)
    show "block_ok m" if "m \<in> busy (fl_pcs ?s th')" for m th'
      using that n G(5,6) by (auto simp: b simp del: fun_upd_apply split: if_splits)
  qed (use G ok in auto)
qed

lemma good_return:
  assumes good: "fl_good s" and pc: "busy (fl_pcs s th) \<subseteq> {n}"
  shows "fl_good (s\<lparr>fl_pcs := (fl_pcs s)(th := FlIdle)\<rparr>)" (is "fl_good ?s")
proof -
  note G = fl_goodE [OF good]
  have ok: "fl_pc_ok ?s p" if "fl_pc_ok s p" for p
    by (rule fl_pc_ok_evolves [OF that]) (simp add: evolves_def)
  have b: "busy (((fl_pcs s)(th := FlIdle)) th') = (if th' = th then {} else busy (fl_pcs s th'))" for th' by simp
  show ?thesis
    by (rule fl_goodI) (use G ok in \<open>auto simp: b simp del: fun_upd_apply split: if_splits\<close>, auto)
qed

lemma good_write:
  assumes good: "fl_good s" and n: "n \<in> held s"
  shows "fl_good (s\<lparr>flist := (flist s)\<lparr>next_of := (next_of (flist s))(n := v)\<rparr>\<rparr>)" (is "fl_good ?s")
proof -
  note G = fl_goodE [OF good]
  have "fl_pc_ok ?s (fl_pcs s th)" for th
    by (rule fl_pc_ok_evolves [OF G(10)]) (use G(7,8) n in \<open>auto simp: evolves_def\<close>)
  moreover have "n \<notin> set (stack s)" using G(7) n by blast
  ultimately show ?thesis using G n by (intro fl_goodI) (auto simp: list_at_upd)
qed

lemma pops_grow: "FreeList_step s t \<Longrightarrow> pops s \<le> pops t"
  by (cases rule: FreeList_step.cases) auto

lemma fl_good_step:
  assumes step: "FreeList_step s t" and good: "fl_good s" and few: "pops s < 2 ^ 16" and k: "known_ok s"
  shows "fl_good t"
  using step
proof cases
  case (push th n)
  then show ?thesis using good_call [OF good] by simp
next
  case (pop th)
  then show ?thesis using good_quiet [OF good, of "flist s" FlPop th] by simp
next
  case (micro th weak pc' f')
  then show ?thesis using fl_good_micro [OF good few] by simp
next
  case (got th n)
  have "fl_good (s\<lparr>fl_pcs := (fl_pcs s)(th := FlIdle)\<rparr>)" by (rule good_return [OF good, of th n]) (simp add: got)
  moreover have "n \<notin> busy (((fl_pcs s)(th := FlIdle)) th')" for th'
    using fl_goodE(9) [OF good, of th th' n] got by auto
  ultimately show ?thesis
    using good_block [of "s\<lparr>fl_pcs := (fl_pcs s)(th := FlIdle)\<rparr>" n] fl_goodE(6,8) [OF good, of n th] got by auto
next
  case (ret th)
  then show ?thesis using good_return [OF good, of th 0] by auto
next
  case (client_write n v)
  then show ?thesis using good_write [OF good] by simp
next
  case (malloc n)
  then show ?thesis using good_known [OF good_block [OF good, of n]] k by (auto simp: known_ok_def)
qed

text \<open>Every step leaves each block in one of the three places.\<close>

lemma busy_split: "(\<Union>th'. busy ((pcs(th := pc)) th')) = busy pc \<union> (\<Union>th' \<in> - {th}. busy (pcs th'))"
  "(\<Union>th'. busy (pcs th')) = busy (pcs th) \<union> (\<Union>th' \<in> - {th}. busy (pcs th'))"
  by (auto split: if_splits)

lemma known_pcs:
  assumes "known_ok s" and "busy pc \<union> set st \<union> h = busy (fl_pcs s th) \<union> set (stack s) \<union> held s"
  shows "known_ok (s\<lparr>flist := f, fl_pcs := (fl_pcs s)(th := pc), stack := st, held := h, pops := k\<rparr>)"
  using assms unfolding known_ok_def by (simp add: busy_split(1) busy_split(2) [of "fl_pcs s" th] del: fun_upd_apply) blast

lemma known_micro:
  assumes good: "fl_good s" and few: "pops s < 2 ^ 16"
    and step: "FreeList_micro th weak (fl_pcs s th) (flist s) = (pc', f')" and own: "\<forall>n. fl_pcs s th \<noteq> FlGot n"
  shows "busy pc' \<union> set (note_stack (fl_pcs s th) pc' (stack s)) = busy (fl_pcs s th) \<union> set (stack s)"
proof (cases "fl_pcs s th")
  case (FlPopCas h w w')
  show ?thesis
  proof (cases "headPacked (flist s) = w \<and> \<not> weak")
    case True
    then obtain ns where "stack s = h # ns" using pop_head [OF good, of th h w'] FlPopCas few by auto
    then show ?thesis using step FlPopCas True by auto
  next
    case False
    then show ?thesis using step FlPopCas by (auto split: if_splits)
  qed
qed (use step own in \<open>auto simp: Let_def split: if_splits\<close>)

lemma known_step:
  assumes step: "FreeList_step s t" and good: "fl_good s" and few: "pops s < 2 ^ 16" and k: "known_ok s"
  shows "known_ok t"
  using step
proof cases
  case (push th n)
  with known_pcs [OF k, where pc = "FlPush n" and st = "stack s" and h = "held s - {n}" and th = th and f = "flist s" and k = "pops s"] show ?thesis by auto
next
  case (pop th)
  with known_pcs [OF k, where pc = FlPop and st = "stack s" and h = "held s" and th = th and f = "flist s" and k = "pops s"] show ?thesis by auto
next
  case (micro th weak pc' f')
  from known_micro [OF good few micro(2,3)]
    known_pcs [OF k, where pc = pc' and st = "note_stack (fl_pcs s th) pc' (stack s)" and h = "held s" and th = th and f = f' and k = "pops s + note_pops pc'"] micro(1)
  show ?thesis by simp
next
  case (got th n)
  with known_pcs [OF k, where pc = FlIdle and st = "stack s" and h = "insert n (held s)" and th = th and f = "flist s" and k = "pops s"] show ?thesis by auto
next
  case (ret th)
  with known_pcs [OF k, where pc = FlIdle and st = "stack s" and h = "held s" and th = th and f = "flist s" and k = "pops s"] show ?thesis by auto
next
  case (client_write n v)
  with k show ?thesis by (simp add: known_ok_def)
next
  case (malloc n)
  with k show ?thesis by (auto simp: known_ok_def)
qed

interpretation free_list_steps: inductive_invariant FreeList_init FreeList_step fl_inv
proof
  show "fl_inv s" if "FreeList_init s" for s
    using that by (auto simp: fl_inv_def fl_good_def FreeList_init_def top_of_def pk_def known_ok_def)
  show "fl_inv t" if "fl_inv s" "FreeList_step s t" for s t
    using that fl_good_step [OF that(2)] known_step [OF that(2)] pops_grow [OF that(2)] by (auto simp: fl_inv_def)
qed

section \<open>Allocation through the cache of a thread\<close>

text \<open>
  The free lists as the stacks they are, with the cache of the calling thread; a \<^verbatim>\<open>std::vector\<close> has its back at the
  end of the list.
\<close>

definition kMinClass :: nat where "kMinClass = 6"
definition kMaxClass :: nat where "kMaxClass = 12"
definition kNumClasses :: nat where "kNumClasses = kMaxClass - kMinClass + 1"
definition kCacheCapacity :: nat where "kCacheCapacity = 16"

record LFMemoryPool =
  freeLists :: "64 word list list"
  caches :: "64 word list list"

definition LFMemoryPool_new :: LFMemoryPool where
  "LFMemoryPool_new = \<lparr>freeLists = replicate kNumClasses [], caches = replicate kNumClasses []\<rparr>"

text \<open>What an allocation returns: a block of the pool, or what \<^verbatim>\<open>malloc\<close> returns for so many bytes.\<close>

datatype block_source = Pooled "64 word" | Malloced nat

text \<open>The loop of \<^verbatim>\<open>sizeClass\<close>; \<^verbatim>\<open>aligned\<close> does not overflow as no caller passes more than 4096.\<close>

function class_loop :: "nat \<Rightarrow> nat \<Rightarrow> nat \<Rightarrow> nat" where
  "class_loop aligned cls sz = (if 0 < aligned \<and> aligned < sz then class_loop (2 * aligned) (cls + 1) sz else cls)"
  by auto
termination by (relation "measure (\<lambda>(aligned, cls, sz). sz - aligned)") auto

declare class_loop.simps [simp del]

definition LFMemoryPool_sizeClass :: "bool \<Rightarrow> nat \<Rightarrow> nat result" where
  "LFMemoryPool_sizeClass nd sz =
     (if nd \<or> sz > 0
      then let cls = class_loop 1 0 sz;
               cls1 = (if cls < kMinClass then kMinClass else cls);
               cls2 = (if cls1 > kMaxClass then kMaxClass else cls1)
           in Inr (cls2 - kMinClass)
      else Inl AssertFailed)"

definition LFMemoryPool_blockSize :: "nat \<Rightarrow> nat" where
  "LFMemoryPool_blockSize cls = 2 ^ (cls + kMinClass)"

fun refill_cache :: "nat \<Rightarrow> 64 word list \<Rightarrow> 64 word list \<Rightarrow> 64 word list \<times> 64 word list" where
  "refill_cache 0 fl vec = (fl, vec)"
| "refill_cache (Suc n) [] vec = ([], vec)"
| "refill_cache (Suc n) (node # fl) vec = refill_cache n fl (vec @ [node])"

fun drain_cache :: "nat \<Rightarrow> 64 word list \<Rightarrow> 64 word list \<Rightarrow> 64 word list \<times> 64 word list" where
  "drain_cache 0 fl vec = (fl, vec)"
| "drain_cache (Suc n) fl vec = drain_cache n (last vec # fl) (butlast vec)"

definition LFMemoryPool_allocate :: "bool \<Rightarrow> nat \<Rightarrow> LFMemoryPool \<Rightarrow> (block_source \<times> LFMemoryPool) result" where
  "LFMemoryPool_allocate nd sz s =
     (if sz > 2 ^ kMaxClass then Inr (Malloced sz, s)
      else bindR (LFMemoryPool_sizeClass nd sz) (\<lambda>cls.
        let vec = caches s ! cls in
        if vec \<noteq> [] then Inr (Pooled (last vec), s\<lparr>caches := (caches s)[cls := butlast vec]\<rparr>)
        else case refill_cache kCacheCapacity (freeLists s ! cls) vec of (fl, vec1) \<Rightarrow>
          let s1 = s\<lparr>freeLists := (freeLists s)[cls := fl], caches := (caches s)[cls := vec1]\<rparr> in
          if vec1 \<noteq> [] then Inr (Pooled (last vec1), s1\<lparr>caches := (caches s1)[cls := butlast vec1]\<rparr>)
          else Inr (Malloced (LFMemoryPool_blockSize cls), s1)))"

text \<open>The flag says that the block goes to \<^verbatim>\<open>free\<close>.\<close>

definition LFMemoryPool_deallocate :: "bool \<Rightarrow> 64 word \<Rightarrow> nat \<Rightarrow> LFMemoryPool \<Rightarrow> (bool \<times> LFMemoryPool) result" where
  "LFMemoryPool_deallocate nd p sz s =
     (if sz > 2 ^ kMaxClass then Inr (True, s)
      else bindR (LFMemoryPool_sizeClass nd sz) (\<lambda>cls.
        let vec = caches s ! cls @ [p] in
        if length vec \<ge> kCacheCapacity * 2
        then case drain_cache (length vec div 2) (freeLists s ! cls) vec of (fl, vec1) \<Rightarrow>
          Inr (False, s\<lparr>freeLists := (freeLists s)[cls := fl], caches := (caches s)[cls := vec1]\<rparr>)
        else Inr (False, s\<lparr>caches := (caches s)[cls := vec]\<rparr>)))"

text \<open>The blocks that \<^verbatim>\<open>cleanup\<close> frees; those in the caches of threads are not among them.\<close>

definition LFMemoryPool_cleanup :: "LFMemoryPool \<Rightarrow> 64 word list \<times> LFMemoryPool" where
  "LFMemoryPool_cleanup s = (concat (freeLists s), s\<lparr>freeLists := map (\<lambda>_. []) (freeLists s)\<rparr>)"

lemma class_loop_bounds:
  assumes "0 < a" "sz > 0"
  shows "sz \<le> a * 2 ^ (class_loop a c sz - c) \<and> c \<le> class_loop a c sz \<and>
    (class_loop a c sz = c \<or> a * 2 ^ (class_loop a c sz - c) < 2 * sz)"
  using assms
proof (induction a c sz rule: class_loop.induct)
  case (1 a c sz)
  show ?case
  proof (cases "a < sz")
    case True
    let ?l = "class_loop (2 * a) (c + 1) sz"
    have l: "class_loop a c sz = ?l" using True 1(2) by (simp add: class_loop.simps [of a c sz])
    from 1(1) True 1(2,3) have ih: "sz \<le> 2 * a * 2 ^ (?l - (c + 1))" "c + 1 \<le> ?l"
      "?l = c + 1 \<or> 2 * a * 2 ^ (?l - (c + 1)) < 2 * sz" by auto
    then have e: "?l - c = Suc (?l - (c + 1))" by simp
    show ?thesis unfolding l e using ih True by (auto simp: mult.assoc)
  qed (auto simp: class_loop.simps [of a c sz])
qed

lemma sizeClass_bounds:
  assumes "0 < sz" "sz \<le> 2 ^ kMaxClass"
  shows "\<exists>c < kNumClasses. LFMemoryPool_sizeClass nd sz = Inr c \<and> sz \<le> LFMemoryPool_blockSize c \<and>
    (c = 0 \<or> LFMemoryPool_blockSize c < 2 * sz)"
proof -
  let ?l = "class_loop 1 0 sz"
  have l: "sz \<le> 2 ^ ?l" "?l = 0 \<or> 2 ^ ?l < 2 * sz" using class_loop_bounds [of 1 sz 0] assms by auto
  have "?l \<le> 12"
  proof (rule ccontr)
    assume "\<not> ?l \<le> 12"
    then have "(2::nat) ^ 13 \<le> 2 ^ ?l" by (intro power_increasing) auto
    then show False using l assms \<open>\<not> ?l \<le> 12\<close> by (auto simp: kMaxClass_def)
  qed
  show ?thesis
  proof (cases "?l < 6")
    case True
    have "(2::nat) ^ ?l \<le> 2 ^ 6" using True by (intro power_increasing) auto
    then have "sz \<le> 64" using l by simp
    then show ?thesis using True assms
      by (auto simp: LFMemoryPool_sizeClass_def kMinClass_def kMaxClass_def kNumClasses_def LFMemoryPool_blockSize_def Let_def)
  next
    case False
    then show ?thesis using \<open>?l \<le> 12\<close> l assms
      by (auto simp: LFMemoryPool_sizeClass_def kMinClass_def kMaxClass_def kNumClasses_def LFMemoryPool_blockSize_def Let_def
          intro!: exI [of _ "?l - 6"])
  qed
qed

definition pool_blocks :: "LFMemoryPool \<Rightarrow> nat \<Rightarrow> 64 word multiset" where
  "pool_blocks s c = mset (caches s ! c) + mset (freeLists s ! c)"

definition pool_ok :: "LFMemoryPool \<Rightarrow> bool" where
  "pool_ok s \<longleftrightarrow> length (freeLists s) = kNumClasses \<and> length (caches s) = kNumClasses \<and>
     (\<forall>c < kNumClasses. length (caches s ! c) < 2 * kCacheCapacity)"

lemma refill_cache_ok:
  assumes "refill_cache n fl vec = (fl', vec')"
  shows "mset fl' + mset vec' = mset fl + mset vec \<and> length vec' \<le> length vec + n \<and>
    (vec \<noteq> [] \<or> fl \<noteq> [] \<and> 0 < n \<longrightarrow> vec' \<noteq> []) \<and> (fl = [] \<longrightarrow> fl' = [] \<and> vec' = vec)"
  using assms by (induction n fl vec rule: refill_cache.induct) auto

lemma drain_cache_ok:
  assumes "drain_cache n fl vec = (fl', vec')" "n \<le> length vec"
  shows "mset fl' + mset vec' = mset fl + mset vec \<and> length vec' = length vec - n"
  using assms
proof (induction n arbitrary: fl vec)
  case (Suc n)
  then have v: "vec = butlast vec @ [last vec]" by (metis append_butlast_last_id list.size(3) not_less_eq_eq le0)
  from Suc.IH [of "last vec # fl" "butlast vec"] Suc.prems
  have ih: "mset fl' + mset vec' = mset (last vec # fl) + mset (butlast vec) \<and> length vec' = length (butlast vec) - n" by simp
  have "mset vec = add_mset (last vec) (mset (butlast vec))" by (subst v) simp
  then show ?case using ih by simp
qed simp

lemma pool_blocks_upd [simp]:
  assumes "c < length (freeLists s)" "c < length (caches s)"
  shows "pool_blocks (s\<lparr>caches := (caches s)[c := v]\<rparr>) d =
      (if d = c then mset v + mset (freeLists s ! c) else pool_blocks s d)"
    "pool_blocks (s\<lparr>freeLists := (freeLists s)[c := f], caches := (caches s)[c := v]\<rparr>) d =
      (if d = c then mset v + mset f else pool_blocks s d)"
  using assms by (auto simp: pool_blocks_def nth_list_update)

lemma mset_butlast: "v \<noteq> [] \<Longrightarrow> add_mset (last v) (mset (butlast v)) = mset v"
  by (metis add_mset_add_single append_butlast_last_id mset.simps mset_append)

lemma allocate_ok:
  assumes ok: "pool_ok s" and sz: "0 < sz" "sz \<le> 2 ^ kMaxClass" and c: "LFMemoryPool_sizeClass nd sz = Inr c" "c < kNumClasses"
  shows "\<exists>s'. pool_ok s' \<and> (\<forall>d. d \<noteq> c \<longrightarrow> pool_blocks s' d = pool_blocks s d) \<and>
    (if pool_blocks s c = {#} then LFMemoryPool_allocate nd sz s = Inr (Malloced (LFMemoryPool_blockSize c), s') \<and> pool_blocks s' c = {#}
     else \<exists>p. LFMemoryPool_allocate nd sz s = Inr (Pooled p, s') \<and> pool_blocks s c = add_mset p (pool_blocks s' c))"
proof -
  have len: "c < length (freeLists s)" "c < length (caches s)" and small: "length (caches s ! c) < 2 * kCacheCapacity"
    using ok c(2) by (auto simp: pool_ok_def)
  have big: "\<not> 2 ^ kMaxClass < sz" using sz(2) by simp
  show ?thesis
  proof (cases "caches s ! c = []")
    case False
    then have "LFMemoryPool_allocate nd sz s =
        Inr (Pooled (last (caches s ! c)), s\<lparr>caches := (caches s)[c := butlast (caches s ! c)]\<rparr>)" (is "_ = Inr (Pooled ?p, ?s)")
      using big c(1) by (simp add: LFMemoryPool_allocate_def Let_def)
    moreover have "pool_ok ?s" using ok small len by (auto simp: pool_ok_def nth_list_update)
    moreover have "pool_blocks s c = add_mset ?p (pool_blocks ?s c)"
      using mset_butlast [OF False] len by (simp add: pool_blocks_def flip: union_mset_add_mset_left)
    ultimately show ?thesis using len False by (intro exI [of _ ?s]) (auto simp: pool_blocks_def)
  next
    case True
    obtain fl vec where r: "refill_cache kCacheCapacity (freeLists s ! c) [] = (fl, vec)" by fastforce
    note R = refill_cache_ok [OF r]
    have vec: "vec \<noteq> [] \<longleftrightarrow> freeLists s ! c \<noteq> []" using R by (auto simp: kCacheCapacity_def)
    show ?thesis
    proof (cases "vec = []")
      case e: True
      let ?s = "s\<lparr>freeLists := (freeLists s)[c := fl], caches := (caches s)[c := []]\<rparr>"
      have "LFMemoryPool_allocate nd sz s = Inr (Malloced (LFMemoryPool_blockSize c), ?s)"
        using big c(1) True r e by (simp add: LFMemoryPool_allocate_def Let_def)
      moreover have "pool_ok ?s" using ok len by (auto simp: pool_ok_def nth_list_update kCacheCapacity_def)
      moreover have "fl = []" "pool_blocks s c = {#}" using e vec R True by (auto simp: pool_blocks_def)
      ultimately show ?thesis using len by (intro exI [of _ ?s]) auto
    next
      case v: False
      let ?s = "s\<lparr>freeLists := (freeLists s)[c := fl], caches := (caches s)[c := butlast vec]\<rparr>"
      have "LFMemoryPool_allocate nd sz s = Inr (Pooled (last vec), ?s)"
        using big c(1) True r v len by (simp add: LFMemoryPool_allocate_def Let_def)
      moreover have "pool_ok ?s" using ok R len by (auto simp: pool_ok_def nth_list_update kCacheCapacity_def)
      moreover have "pool_blocks s c = add_mset (last vec) (pool_blocks ?s c)"
      proof -
        have "mset fl + mset vec = mset (freeLists s ! c)" using R by simp
        then have "mset (freeLists s ! c) = mset fl + add_mset (last vec) (mset (butlast vec))" using mset_butlast [OF v] by simp
        then show ?thesis using len True by (simp add: pool_blocks_def)
      qed
      ultimately show ?thesis using len by (intro exI [of _ ?s]) auto
    qed
  qed
qed

lemma deallocate_ok:
  assumes ok: "pool_ok s" and sz: "0 < sz" "sz \<le> 2 ^ kMaxClass" and c: "LFMemoryPool_sizeClass nd sz = Inr c" "c < kNumClasses"
  shows "\<exists>s'. LFMemoryPool_deallocate nd p sz s = Inr (False, s') \<and> pool_ok s' \<and>
    pool_blocks s' c = add_mset p (pool_blocks s c) \<and> (\<forall>d. d \<noteq> c \<longrightarrow> pool_blocks s' d = pool_blocks s d)"
proof -
  have len: "c < length (freeLists s)" "c < length (caches s)" and small: "length (caches s ! c) < 2 * kCacheCapacity"
    using ok c(2) by (auto simp: pool_ok_def)
  have big: "\<not> 2 ^ kMaxClass < sz" using sz(2) by simp
  let ?v = "caches s ! c @ [p]"
  show ?thesis
  proof (cases "2 * kCacheCapacity \<le> length ?v")
    case False
    let ?s = "s\<lparr>caches := (caches s)[c := ?v]\<rparr>"
    have "LFMemoryPool_deallocate nd p sz s = Inr (False, ?s)"
      using False big c(1) by (simp add: LFMemoryPool_deallocate_def Let_def)
    moreover have "pool_ok ?s" using ok False len by (auto simp: pool_ok_def nth_list_update)
    ultimately show ?thesis using len by (intro exI [of _ ?s]) (auto simp: pool_blocks_def)
  next
    case True
    obtain fl vec where d: "drain_cache (length ?v div 2) (freeLists s ! c) ?v = (fl, vec)" by fastforce
    let ?s = "s\<lparr>freeLists := (freeLists s)[c := fl], caches := (caches s)[c := vec]\<rparr>"
    have D: "mset fl + mset vec = mset (freeLists s ! c) + mset ?v" "length vec = length ?v - length ?v div 2"
      using drain_cache_ok [OF d] by auto
    have "LFMemoryPool_deallocate nd p sz s = Inr (False, ?s)"
      using True big c(1) d by (simp add: LFMemoryPool_deallocate_def Let_def mult.commute)
    moreover have "pool_ok ?s" using ok D(2) small len by (auto simp: pool_ok_def nth_list_update kCacheCapacity_def)
    moreover have "pool_blocks ?s c = add_mset p (pool_blocks s c)"
      using D(1) len by (simp add: pool_blocks_def add.commute)
    ultimately show ?thesis using len by (intro exI [of _ ?s]) auto
  qed
qed

section \<open>Properties\<close>

text \<open>
  C28: the free list never gives a block to two owners and loses none.  However pushes and pops of any number of threads,
  spurious failures and writes of the clients to their own blocks interleave, as long as fewer than \<open>2 ^ 16\<close> pops
  have succeeded (the tag then tells any two of them apart): the head and the links in memory spell out a stack without
  repetition, and every block ever allocated is in exactly one place: in that stack, with a client, or in the
  hands of exactly one thread, which is pushing it or has popped it.
\<close>

theorem FreeList_no_double_allocation:
  assumes "reach FreeList_init FreeList_step s" and "pops s < 2 ^ 16"
  shows "TaggedPointer_ptr (headPacked (flist s)) = top_of (stack s) \<and>
    list_at (next_of (flist s)) (top_of (stack s)) (stack s) \<and> distinct (stack s) \<and>
    known s = set (stack s) \<union> held s \<union> (\<Union>th. busy (fl_pcs s th)) \<and> set (stack s) \<inter> held s = {} \<and>
    (\<forall>th. busy (fl_pcs s th) \<inter> (set (stack s) \<union> held s) = {} \<and>
       (\<forall>th'. th' \<noteq> th \<longrightarrow> busy (fl_pcs s th) \<inter> busy (fl_pcs s th') = {}))"
proof -
  have good: "fl_good s" and k: "known_ok s" using free_list_steps.reach_inv [OF assms(1)] assms(2) by (simp_all add: fl_inv_def)
  note G = fl_goodE [OF good]
  have "busy (fl_pcs s th) \<inter> (set (stack s) \<union> held s) = {} \<and> (\<forall>th'. th' \<noteq> th \<longrightarrow> busy (fl_pcs s th) \<inter> busy (fl_pcs s th') = {})" for th
    using good unfolding fl_good_def by (simp add: eq_commute)
  then show ?thesis using G(1-3,7) top_bound [OF good] k by (simp add: known_ok_def)
qed

definition two_blocks :: fl_sys where
  "two_blocks = \<lparr>flist = \<lparr>headPacked = 0, next_of = (\<lambda>_. 0), protected = (\<lambda>_. 0)\<rparr>,
     fl_pcs = (\<lambda>_. FlIdle), held = {64, 128}, stack = [], pops = 0, known = {64, 128}\<rparr>"

text \<open>Two clients' blocks, and the first of them pushed by thread 0 up to its compare-and-swap.\<close>

theorem FreeList_no_double_allocation_witness:
  "\<exists>s. reach FreeList_init FreeList_step s \<and> stack s = [64] \<and> held s = {128} \<and>
     known s = {64, 128} \<and> TaggedPointer_ptr (headPacked (flist s)) = 64"
proof -
  let ?R = "reach FreeList_init FreeList_step" and ?s = "two_blocks\<lparr>held := {}, known := {}\<rparr>"
  have "?R ?s" by (rule reach_init) (simp add: FreeList_init_def two_blocks_def)
  then have "?R (?s\<lparr>held := insert 128 (held ?s), known := insert 128 (known ?s)\<rparr>)"
    by (rule reach_step) (rule FreeList_step.malloc, simp_all add: two_blocks_def block_ok_def)
  then have a: "?R (?s\<lparr>held := {128}, known := {128}\<rparr>)" by (simp add: two_blocks_def)
  let ?t = "?s\<lparr>held := {128}, known := {128}\<rparr>"
  from a have "?R (?t\<lparr>held := insert 64 (held ?t), known := insert 64 (known ?t)\<rparr>)"
    by (rule reach_step) (rule FreeList_step.malloc, simp_all add: two_blocks_def block_ok_def)
  then have "?R two_blocks" by (simp add: two_blocks_def)
  then have "?R (two_blocks\<lparr>fl_pcs := (fl_pcs two_blocks)(0 := FlPush 64), held := held two_blocks - {64}\<rparr>)"
    by (rule reach_step) (rule FreeList_step.push, simp_all add: two_blocks_def)
  then have u: "?R (two_blocks\<lparr>fl_pcs := (\<lambda>_. FlIdle)(0 := FlPush 64), held := {128}\<rparr>)" by (simp add: two_blocks_def)
  let ?u = "two_blocks\<lparr>fl_pcs := (\<lambda>_. FlIdle)(0 := FlPush 64), held := {128}\<rparr>"
  from u have "?R (?u\<lparr>flist := flist ?u, fl_pcs := (fl_pcs ?u)(0 := FlLink 64 0), stack := note_stack (fl_pcs ?u 0) (FlLink 64 0) (stack ?u),
      pops := pops ?u + note_pops (FlLink 64 0)\<rparr>)"
    by (rule reach_step) (rule FreeList_step.micro, simp_all add: two_blocks_def)
  then have v: "?R (two_blocks\<lparr>fl_pcs := (\<lambda>_. FlIdle)(0 := FlLink 64 0), held := {128}\<rparr>)" by (simp add: two_blocks_def)
  let ?v = "two_blocks\<lparr>fl_pcs := (\<lambda>_. FlIdle)(0 := FlLink 64 0), held := {128}\<rparr>"
  let ?f = "(flist ?v)\<lparr>next_of := (next_of (flist ?v))(64 := 0)\<rparr>"
  from v have "?R (?v\<lparr>flist := ?f, fl_pcs := (fl_pcs ?v)(0 := FlPushCas 64 0 64), stack := note_stack (fl_pcs ?v 0) (FlPushCas 64 0 64) (stack ?v),
      pops := pops ?v + note_pops (FlPushCas 64 0 64)\<rparr>)"
    by (rule reach_step) (rule FreeList_step.micro, simp_all add: two_blocks_def Let_def)
  then have w: "?R (two_blocks\<lparr>flist := ?f, fl_pcs := (\<lambda>_. FlIdle)(0 := FlPushCas 64 0 64), held := {128}\<rparr>)"
    by (simp add: two_blocks_def)
  let ?w = "two_blocks\<lparr>flist := ?f, fl_pcs := (\<lambda>_. FlIdle)(0 := FlPushCas 64 0 64), held := {128}\<rparr>"
  let ?x = "?w\<lparr>flist := (flist ?w)\<lparr>headPacked := 64\<rparr>, fl_pcs := (fl_pcs ?w)(0 := FlPushed),
      stack := note_stack (fl_pcs ?w 0) FlPushed (stack ?w), pops := pops ?w + note_pops FlPushed\<rparr>"
  from w have x: "?R ?x"
    by (rule reach_step) (rule FreeList_step.micro [where weak = False], simp_all add: two_blocks_def)
  have f: "stack ?x = [64]" "held ?x = {128}" "pops ?x < 2 ^ 16" "known ?x = {64, 128}" by (simp_all add: two_blocks_def)
  from FreeList_no_double_allocation [OF x f(3)] have "TaggedPointer_ptr (headPacked (flist ?x)) = 64"
    unfolding f(1) by (simp add: top_of_def)
  with x f show ?thesis by blast
qed

text \<open>
  the pool's size classes and its bookkeeping.  A request of 1 to 4096 bytes is served by a class whose blocks
  hold it and, above the least class, are less than twice as large; a class with a free block, in the cache or in the
  free list, serves it by exactly one of them and otherwise asks \<^verbatim>\<open>malloc\<close> for a block of that class.
  Giving a block back adds it to the class of its size, loses none, and keeps the cache below 32.
\<close>

theorem LFMemoryPool_conserves:
  assumes "pool_ok s" "0 < sz" "sz \<le> 4096"
  shows "\<exists>c < kNumClasses. sz \<le> LFMemoryPool_blockSize c \<and> (c = 0 \<or> LFMemoryPool_blockSize c < 2 * sz) \<and>
    (\<exists>s'. pool_ok s' \<and> (\<forall>d. d \<noteq> c \<longrightarrow> pool_blocks s' d = pool_blocks s d) \<and>
      (if pool_blocks s c = {#}
       then LFMemoryPool_allocate nd sz s = Inr (Malloced (LFMemoryPool_blockSize c), s') \<and> pool_blocks s' c = {#}
       else \<exists>q. LFMemoryPool_allocate nd sz s = Inr (Pooled q, s') \<and> pool_blocks s c = add_mset q (pool_blocks s' c))) \<and>
    (\<exists>s'. LFMemoryPool_deallocate nd p sz s = Inr (False, s') \<and> pool_ok s' \<and>
      pool_blocks s' c = add_mset p (pool_blocks s c) \<and> (\<forall>d. d \<noteq> c \<longrightarrow> pool_blocks s' d = pool_blocks s d))"
proof -
  have sz: "sz \<le> 2 ^ kMaxClass" using assms(3) by (simp add: kMaxClass_def)
  obtain c where c: "c < kNumClasses" "LFMemoryPool_sizeClass nd sz = Inr c" "sz \<le> LFMemoryPool_blockSize c"
    "c = 0 \<or> LFMemoryPool_blockSize c < 2 * sz"
    using sizeClass_bounds [OF assms(2) sz, of nd] by blast
  from allocate_ok [OF assms(1,2) sz c(2,1)] deallocate_ok [OF assms(1,2) sz c(2,1), of p] c
  show ?thesis by (intro exI [of _ c] conjI)
qed

theorem LFMemoryPool_conserves_witness:
  "\<exists>c < kNumClasses. 100 \<le> LFMemoryPool_blockSize c \<and>
     (\<exists>s'. LFMemoryPool_deallocate False 64 100 LFMemoryPool_new = Inr (False, s') \<and> pool_blocks s' c = {#64#})"
proof -
  have ok: "pool_ok LFMemoryPool_new"
    by (simp add: pool_ok_def LFMemoryPool_new_def kNumClasses_def kMaxClass_def kMinClass_def kCacheCapacity_def)
  have "pool_blocks LFMemoryPool_new c = {#}" if "c < kNumClasses" for c
    using that by (simp add: pool_blocks_def LFMemoryPool_new_def)
  then show ?thesis using LFMemoryPool_conserves [OF ok, of 100 False 64] by fastforce
qed

end
