(* ===== verification/Thread.thy ===== *)
theory Thread
  imports Decimal
begin

text \<open>
  Threads and the identifiers they cache: \<^verbatim>\<open>base/Thread.h\<close> and \<^verbatim>\<open>base/Thread.cc\<close>, and the loop with which the two
  pools start theirs.
\<close>

section \<open>Threads\<close>

text \<open>The \<^verbatim>\<open>std::thread\<close> that \<^verbatim>\<open>thread_\<close> points to: none yet, one to join, one joined or detached.\<close>

datatype thread_handle = NoThread | Joinable | NotJoinable

record Thread =
  th_name :: string
  th_thread :: thread_handle
  th_started :: bool
  th_joined :: bool

definition Thread_new :: "string \<Rightarrow> Thread" where
  "Thread_new nm = \<lparr>th_name = nm, th_thread = NoThread, th_started = False, th_joined = False\<rparr>"

text \<open>Without assertions a second start replaces the handle; destroying one that is joinable ends the process.\<close>

definition Thread_start :: "bool \<Rightarrow> Thread \<Rightarrow> Thread result" where
  "Thread_start nd t =
     (if nd \<or> \<not> th_started t
      then if th_thread t = Joinable then Inl Aborted else Inr (t\<lparr>th_started := True, th_thread := Joinable\<rparr>)
      else Inl AssertFailed)"

text \<open>Joining a thread that was never started dereferences its null \<^verbatim>\<open>thread_\<close>.\<close>

definition Thread_join :: "bool \<Rightarrow> Thread \<Rightarrow> Thread result" where
  "Thread_join nd t =
     (if \<not> nd \<and> \<not> th_started t then Inl AssertFailed
      else if \<not> nd \<and> th_joined t then Inl AssertFailed
      else let t1 = t\<lparr>th_joined := True\<rparr> in (case th_thread t1 of
        NoThread \<Rightarrow> Inl Undefined
      | Joinable \<Rightarrow> Inr (t1\<lparr>th_thread := NotJoinable\<rparr>)
      | NotJoinable \<Rightarrow> Inr t1))"

text \<open>The destructor: its body detaches, then the handle is destroyed.  The result says whether the thread runs on.\<close>

definition Thread_destroy :: "Thread \<Rightarrow> bool result" where
  "Thread_destroy t =
     (let t1 = (if th_started t \<and> \<not> th_joined t \<and> th_thread t = Joinable then t\<lparr>th_thread := NotJoinable\<rparr> else t) in
      if th_thread t1 = Joinable then Inl Aborted else Inr (th_thread t1 \<noteq> th_thread t))"

text \<open>
  \<^verbatim>\<open>runInThread\<close>: the thread-local pointer to the running \<open>Thread\<close> (here its address \<open>this\<close>) is set while the function
  runs; an exception is reported on standard error and ends the process.
\<close>

datatype thrown = StdException string | UnknownException

record 's ThreadLocal =
  t_thread :: "nat option"
  stderr_text :: string
  world :: 's

definition thrown_text :: "string \<Rightarrow> thrown \<Rightarrow> string" where
  "thrown_text nm ex = (case ex of
     StdException what \<Rightarrow> ''Thread '' @ nm @ '' caught exception: '' @ what @ ''\<newline>''
   | UnknownException \<Rightarrow> ''Thread '' @ nm @ '' caught unknown exception'' @ ''\<newline>'')"

definition Thread_runInThread :: "nat \<Rightarrow> Thread \<Rightarrow> ('s ThreadLocal \<Rightarrow> thrown option \<times> 's ThreadLocal) \<Rightarrow> 's ThreadLocal \<Rightarrow>
    's ThreadLocal \<times> unit result" where
  "Thread_runInThread this t func s = (case func (s\<lparr>t_thread := Some this\<rparr>) of
     (None, s1) \<Rightarrow> (s1\<lparr>t_thread := None\<rparr>, Inr ())
   | (Some ex, s1) \<Rightarrow> (s1\<lparr>stderr_text := stderr_text s1 @ thrown_text (th_name t) ex\<rparr>, Inl Aborted))"

definition Thread_currentThread :: "'s ThreadLocal \<Rightarrow> nat option" where
  "Thread_currentThread s = t_thread s"

text \<open>
  With assertions, whatever has been called before, destroying a thread does not end the process, and it leaves
  the thread running exactly if it was started and not joined.
\<close>

definition thread_ok :: "Thread \<Rightarrow> bool" where
  "thread_ok t \<longleftrightarrow> th_thread t = (if th_started t then if th_joined t then NotJoinable else Joinable else NoThread) \<and>
     (th_joined t \<longrightarrow> th_started t)"

inductive Thread_step :: "Thread \<Rightarrow> Thread \<Rightarrow> bool" where
  ThreadStart: "Thread_start False t = Inr t' \<Longrightarrow> Thread_step t t'"
| ThreadJoin: "Thread_join False t = Inr t' \<Longrightarrow> Thread_step t t'"

lemma thread_ok_step: "Thread_step t t' \<Longrightarrow> thread_ok t \<Longrightarrow> thread_ok t'"
  by (induction rule: Thread_step.induct)
    (auto simp: thread_ok_def Thread_start_def Thread_join_def Let_def split: if_splits thread_handle.splits)

interpretation thread_life: inductive_invariant "\<lambda>t. \<exists>nm. t = Thread_new nm" Thread_step thread_ok
proof unfold_locales
  show "thread_ok t" if "\<exists>nm. t = Thread_new nm" for t using that by (auto simp: thread_ok_def Thread_new_def)
qed (rule thread_ok_step)

lemma Thread_destroy_safe:
  assumes "reach (\<lambda>t. \<exists>nm. t = Thread_new nm) Thread_step t"
  shows "Thread_destroy t = Inr (th_started t \<and> \<not> th_joined t)"
  using thread_life.reach_inv [OF assms] by (auto simp: thread_ok_def Thread_destroy_def Let_def split: if_splits)

text \<open>A pool appends a new thread and starts the one at index \<open>i\<close>.\<close>

definition spawn_thread :: "bool \<Rightarrow> string \<Rightarrow> nat \<Rightarrow> Thread list \<Rightarrow> Thread list result" where
  "spawn_thread nd nm i ths = (let ths' = ths @ [Thread_new nm] in
     if i < length ths' then bindR (Thread_start nd (ths' ! i)) (\<lambda>t. Inr (ths'[i := t])) else Inl Undefined)"

definition started_thread :: "string \<Rightarrow> nat \<Rightarrow> Thread" where
  "started_thread nm i = (Thread_new (snprintf 32 (nm @ ''-'' @ dec_int (int i))))\<lparr>th_started := True, th_thread := Joinable\<rparr>"

lemma spawn_thread_next:
  "i = length ths \<Longrightarrow> spawn_thread nd nm i ths = Inr (ths @ [(Thread_new nm)\<lparr>th_started := True, th_thread := Joinable\<rparr>])"
  by (simp add: spawn_thread_def Thread_start_def Thread_new_def)

lemma spawn_threads:
  "foldR (\<lambda>i. spawn_thread nd (snprintf 32 (nm @ ''-'' @ dec_int (int i))) i) [0..<k] [] = Inr (map (started_thread nm) [0..<k])"
  by (induction k) (simp_all add: foldR_append spawn_thread_next started_thread_def)

section \<open>Cached thread identifiers\<close>

record CurrentThread =
  t_cachedTid :: int
  t_tidString :: string
  t_tidStringLength :: nat

definition CurrentThread_new :: CurrentThread where
  "CurrentThread_new = \<lparr>t_cachedTid = 0, t_tidString = [], t_tidStringLength = 6\<rparr>"

text \<open>The format \<^verbatim>\<open>%5d\<close> followed by a space, into 32 bytes; \<^verbatim>\<open>snprintf\<close> returns the full length.\<close>

definition tid_text :: "int \<Rightarrow> string" where
  "tid_text tid = (let d = dec_int tid in replicate (5 - length d) CHR '' '' @ d @ '' '')"

definition CurrentThread_cacheTid :: "int \<Rightarrow> CurrentThread \<Rightarrow> CurrentThread" where
  "CurrentThread_cacheTid gettid s = (if t_cachedTid s = 0
     then s\<lparr>t_cachedTid := gettid, t_tidString := snprintf 32 (tid_text gettid), t_tidStringLength := length (tid_text gettid)\<rparr> else s)"

definition CurrentThread_tid :: "int \<Rightarrow> CurrentThread \<Rightarrow> int \<times> CurrentThread" where
  "CurrentThread_tid gettid s = (let s' = (if t_cachedTid s = 0 then CurrentThread_cacheTid gettid s else s) in (t_cachedTid s', s'))"

definition CurrentThread_isMainThread :: "int \<Rightarrow> int \<Rightarrow> CurrentThread \<Rightarrow> bool \<times> CurrentThread" where
  "CurrentThread_isMainThread gettid getpid s = (case CurrentThread_tid gettid s of (t, s') \<Rightarrow> (t = getpid, s'))"

text \<open>Once a thread has asked for its identifier, every further call gives the same without a system call.\<close>

lemma CurrentThread_tid_cached:
  assumes "CurrentThread_tid g s = (tid, s')" "g \<noteq> 0"
  shows "tid \<noteq> 0 \<and> CurrentThread_tid g' s' = (tid, s')"
  using assms by (auto simp: CurrentThread_tid_def CurrentThread_cacheTid_def Let_def split: if_splits)

end
