(* ===== verification/ThreadPool.thy ===== *)
theory ThreadPool
  imports Thread "HOL-Library.Multiset"
begin

text \<open>
  The pool that runs tasks on threads in batches: \<^verbatim>\<open>base/ThreadPool.h\<close> and \<^verbatim>\<open>base/ThreadPool.cc\<close>.

  \<open>ThreadPool_step\<close> interleaves the workers, threads that call \<^verbatim>\<open>run\<close> and one that calls \<^verbatim>\<open>stop\<close>.  The mutex and the
  two condition variables are explicit: testing a predicate, going to sleep and being notified are
  distinct steps, as \<^verbatim>\<open>running_\<close> changes without the mutex.  Time-outs of \<^verbatim>\<open>wait_for\<close> may come at any
  moment, and so may spurious wake-ups.  Tasks themselves do not call \<^verbatim>\<open>run\<close>.
\<close>

section \<open>The pool\<close>

datatype tp_model = FIXED | CACHE

text \<open>\<open>tp_model\<close> has no value before \<^verbatim>\<open>setModel\<close>: the constructor does not set it.\<close>

record 'a ThreadPool =
  tp_name :: string
  running :: bool
  tp_numThreads :: int
  model_of :: "tp_model option"
  batchSize :: nat
  queue :: "'a list"
  queueLength :: nat
  activeThreads :: nat
  adjusting :: bool
  lastScaleUp :: nat
  runCounter :: nat
  threads :: "Thread list"

record 'a ThreadLocalCache =
  tasks :: "'a list"
  cache_index :: nat

definition kMinBatchSize :: nat where "kMinBatchSize = 4"
definition kMaxBatchSize :: nat where "kMaxBatchSize = 64"
definition kMaxQueueSize :: nat where "kMaxQueueSize = 10000"
definition minThreads :: nat where "minThreads = 4"
definition maxThreads :: nat where "maxThreads = 128"
definition queueHighWatermark :: nat where "queueHighWatermark = 500"
definition cooldownMs :: nat where "cooldownMs = 1000"
definition SAMPLE_INTERVAL :: nat where "SAMPLE_INTERVAL = 64"

definition ThreadPool_new :: "string \<Rightarrow> 'a ThreadPool" where
  "ThreadPool_new nm = \<lparr>tp_name = nm, running = False, tp_numThreads = 0, model_of = None, batchSize = kMinBatchSize,
     queue = [], queueLength = 0, activeThreads = 0, adjusting = False, lastScaleUp = 0, runCounter = 0, threads = []\<rparr>"

definition ThreadPool_setThreadNum :: "bool \<Rightarrow> int \<Rightarrow> 'a ThreadPool \<Rightarrow> 'a ThreadPool result" where
  "ThreadPool_setThreadNum nd n s = (if nd \<or> \<not> running s \<and> n > 0 then Inr (s\<lparr>tp_numThreads := n\<rparr>) else Inl AssertFailed)"

definition ThreadPool_setModel :: "tp_model \<Rightarrow> 'a ThreadPool \<Rightarrow> 'a ThreadPool" where
  "ThreadPool_setModel m s = (if running s then s else s\<lparr>model_of := Some m\<rparr>)"

definition ThreadPool_spawn :: "bool \<Rightarrow> string \<Rightarrow> nat \<Rightarrow> 'a ThreadPool \<Rightarrow> 'a ThreadPool result" where
  "ThreadPool_spawn nd nm i s = bindR (spawn_thread nd nm i (threads s)) (\<lambda>ths. Inr (s\<lparr>threads := ths\<rparr>))"

definition ThreadPool_start :: "bool \<Rightarrow> 'a ThreadPool \<Rightarrow> 'a ThreadPool result" where
  "ThreadPool_start nd s =
     (if nd \<or> \<not> running s \<and> tp_numThreads s > 0
      then foldR (\<lambda>i s. ThreadPool_spawn nd (snprintf 32 (tp_name s @ ''-'' @ dec_int (int i))) i s)
             [0..<nat (tp_numThreads s)] (s\<lparr>running := True\<rparr>)
      else Inl AssertFailed)"

definition ThreadPool_queueSize :: "'a ThreadPool \<Rightarrow> nat" where
  "ThreadPool_queueSize s = queueLength s"

text \<open>\<open>now\<close> is the time in milliseconds; the loop runs from 1.\<close>

definition ThreadPool_maybeAdjust :: "bool \<Rightarrow> nat \<Rightarrow> 'a ThreadPool \<Rightarrow> 'a ThreadPool result" where
  "ThreadPool_maybeAdjust nd now s = (case model_of s of
     None \<Rightarrow> Inl Undefined
   | Some FIXED \<Rightarrow> Inr s
   | Some CACHE \<Rightarrow>
       if adjusting s then Inr s
       else let s1 = s\<lparr>adjusting := True\<rparr>; qlen = queueLength s1; active = activeThreads s1 in
         bindR (if qlen > queueHighWatermark \<and> active < maxThreads \<and> now > lastScaleUp s1 + cooldownMs
                then bindR (foldR (\<lambda>i s. ThreadPool_spawn nd (snprintf 32 (tp_name s @ ''-'' @ dec_int (int (1 + active)))) i s)
                       [1..<Suc (min (maxThreads - active) 2)] s1)
                     (\<lambda>s2. Inr (s2\<lparr>lastScaleUp := now\<rparr>))
                else Inr s1)
           (\<lambda>s2. Inr (s2\<lparr>adjusting := False\<rparr>)))"

text \<open>The body of \<^verbatim>\<open>run\<close> once the wait is over: whether the task was accepted, and whether the sampling is due.\<close>

definition ThreadPool_push :: "'a \<Rightarrow> 'a ThreadPool \<Rightarrow> bool \<times> bool \<times> 'a ThreadPool" where
  "ThreadPool_push task s =
     (if \<not> running s then (False, False, s)
      else (True, runCounter s mod SAMPLE_INTERVAL = 0,
            s\<lparr>queue := queue s @ [task], runCounter := (runCounter s + 1) mod 2 ^ 64\<rparr>))"

definition adapt_batch :: "nat \<Rightarrow> nat \<Rightarrow> nat" where
  "adapt_batch batch len =
     (if len > batch * 2 then min (batch * 2) kMaxBatchSize
      else if len < batch div 2 then max (batch div 2) kMinBatchSize else batch)"

text \<open>The part of \<^verbatim>\<open>fillLocalCache\<close> that takes a batch.\<close>

definition ThreadPool_take :: "'a ThreadPool \<Rightarrow> 'a ThreadLocalCache \<times> 'a ThreadPool" where
  "ThreadPool_take s = (let b = adapt_batch (batchSize s) (length (queue s)); n = min b (length (queue s)) in
     (\<lparr>tasks = take n (queue s), cache_index = 0\<rparr>, s\<lparr>batchSize := b, queue := drop n (queue s)\<rparr>))"

text \<open>The predicates of the two condition variables.\<close>

definition notEmpty_pred :: "'a ThreadPool \<Rightarrow> bool" where
  "notEmpty_pred s \<longleftrightarrow> \<not> running s \<or> queue s \<noteq> []"

definition notFull_pred :: "'a ThreadPool \<Rightarrow> bool" where
  "notFull_pred s \<longleftrightarrow> \<not> running s \<or> length (queue s) < kMaxQueueSize"

text \<open>
  What \<^verbatim>\<open>fillLocalCache\<close> does with an empty queue after its wait: 0, which ends the worker, or -1, which repeats
  its loop; \<open>None\<close> if it goes on to take a batch.
\<close>

definition empty_result :: "'a ThreadPool \<Rightarrow> int option result" where
  "empty_result s = (case model_of s of
     None \<Rightarrow> Inl Undefined
   | Some CACHE \<Rightarrow> Inr (if queue s = [] then (if activeThreads s > minThreads then Some 0 else if \<not> running s then Some 0 else Some (-1)) else None)
   | Some FIXED \<Rightarrow> Inr (if queue s = [] \<and> \<not> running s then Some 0 else None))"

section \<open>Threads at work\<close>

text \<open>
  Program counters of workers (\<open>W\<close>), of callers of \<^verbatim>\<open>run\<close> (\<open>P\<close>) and of \<^verbatim>\<open>stop\<close> (\<open>S\<close>).  In \<open>WTest\<close>, \<open>WDoze\<close>, \<open>WTake\<close>,
  \<open>PTest\<close>, \<open>PDoze\<close>, \<open>PPush\<close> and \<open>PAdjust\<close> the thread holds the mutex; in \<open>WDoze\<close> and \<open>PDoze\<close> it has found its predicate false and is about to sleep.
\<close>

datatype 'a tp_pc =
    Outside
  | WStart | WTop | WFill | WTest | WDoze | WSleep | WWoken | WTake | WRun | WExit
  | PLock 'a | PTest 'a | PDoze 'a | PSleep 'a | PWoken 'a | PPush 'a | PAdjust
  | SSet | SNotify | SJoin nat

record 'a tp_sys =
  pool :: "'a ThreadPool"
  tpc :: "nat \<Rightarrow> 'a tp_pc"
  wcache :: "nat \<Rightarrow> 'a ThreadLocalCache"
  mutex :: "nat option"
  accepted :: "'a list"
  taken_tasks :: "'a list"
  executed :: "'a list"

definition wake_all :: "(nat \<Rightarrow> 'a tp_pc) \<Rightarrow> nat \<Rightarrow> 'a tp_pc" where
  "wake_all pcs = (\<lambda>th. if pcs th = WSleep then WWoken else pcs th)"

definition wake_producers :: "(nat \<Rightarrow> 'a tp_pc) \<Rightarrow> nat \<Rightarrow> 'a tp_pc" where
  "wake_producers pcs = (\<lambda>th. case pcs th of PSleep x \<Rightarrow> PWoken x | pc \<Rightarrow> pc)"

text \<open>\<^verbatim>\<open>notify_one\<close> wakes one of the sleeping workers, if there is one.\<close>

definition wakes_one :: "(nat \<Rightarrow> 'a tp_pc) \<Rightarrow> (nat \<Rightarrow> 'a tp_pc) \<Rightarrow> bool" where
  "wakes_one pcs pcs' \<longleftrightarrow> (\<exists>w. pcs w = WSleep \<and> pcs' = pcs(w := WWoken)) \<or> (\<forall>w. pcs w \<noteq> WSleep) \<and> pcs' = pcs"

definition set_pc :: "nat \<Rightarrow> 'a tp_pc \<Rightarrow> 'a tp_sys \<Rightarrow> 'a tp_sys" where
  "set_pc th pc s = s\<lparr>tpc := (tpc s)(th := pc)\<rparr>"

definition unread :: "'a ThreadLocalCache \<Rightarrow> 'a list" where
  "unread c = drop (cache_index c) (tasks c)"

inductive ThreadPool_step :: "bool \<Rightarrow> nat \<Rightarrow> 'a tp_sys \<Rightarrow> 'a tp_sys \<Rightarrow> bool"
  for nd :: bool and n :: nat where
  \<comment> \<open>\<^verbatim>\<open>runInThread\<close>\<close>
  w_start: "tpc s th = WStart \<Longrightarrow> ThreadPool_step nd n s
    (set_pc th WTop s\<lparr>pool := (pool s)\<lparr>activeThreads := activeThreads (pool s) + 1\<rparr>\<rparr>)"
| w_top: "tpc s th = WTop \<Longrightarrow> ThreadPool_step nd n s (set_pc th (if running (pool s) then WFill else WExit) s)"
| w_task: "tpc s th = WRun \<Longrightarrow> unread (wcache s th) = x # xs \<Longrightarrow> ThreadPool_step nd n s
    (s\<lparr>wcache := (wcache s)(th := (wcache s th)\<lparr>cache_index := cache_index (wcache s th) + 1\<rparr>), executed := executed s @ [x]\<rparr>)"
| w_batch_done: "tpc s th = WRun \<Longrightarrow> unread (wcache s th) = [] \<Longrightarrow> ThreadPool_step nd n s (set_pc th WTop s)"
  \<comment> \<open>\<^verbatim>\<open>fillLocalCache\<close>\<close>
| w_cached: "tpc s th = WFill \<Longrightarrow> unread (wcache s th) \<noteq> [] \<Longrightarrow> ThreadPool_step nd n s (set_pc th WRun s)"
| w_lock: "tpc s th = WFill \<or> tpc s th = WWoken \<Longrightarrow> unread (wcache s th) = [] \<Longrightarrow> mutex s = None \<Longrightarrow>
    ThreadPool_step nd n s (set_pc th WTest s\<lparr>mutex := Some th\<rparr>)"
| w_ready: "tpc s th = WTest \<Longrightarrow> notEmpty_pred (pool s) \<Longrightarrow> ThreadPool_step nd n s (set_pc th WTake s)"
| w_doze: "tpc s th = WTest \<Longrightarrow> \<not> notEmpty_pred (pool s) \<Longrightarrow> ThreadPool_step nd n s (set_pc th WDoze s)"
| w_sleep: "tpc s th = WDoze \<Longrightarrow> ThreadPool_step nd n s (set_pc th WSleep s\<lparr>mutex := None\<rparr>)"
| w_timeout: "tpc s th = WSleep \<Longrightarrow> model_of (pool s) = Some CACHE \<Longrightarrow> mutex s = None \<Longrightarrow>
    ThreadPool_step nd n s (set_pc th WTake s\<lparr>mutex := Some th\<rparr>)"
| w_spurious: "tpc s th = WSleep \<Longrightarrow> ThreadPool_step nd n s (set_pc th WWoken s)"
| w_empty: "tpc s th = WTake \<Longrightarrow> empty_result (pool s) = Inr (Some r) \<Longrightarrow>
    ThreadPool_step nd n s (set_pc th (if r = 0 then WExit else WTop) s\<lparr>mutex := None\<rparr>)"
| w_take: "tpc s th = WTake \<Longrightarrow> empty_result (pool s) = Inr None \<Longrightarrow> ThreadPool_take (pool s) = (c, p) \<Longrightarrow>
    (if queue p \<noteq> [] then wakes_one (tpc s) pcs else pcs = tpc s) \<Longrightarrow>
    ThreadPool_step nd n s (s\<lparr>pool := p, wcache := (wcache s)(th := c), mutex := None, taken_tasks := taken_tasks s @ tasks c,
      tpc := (if length (queue p) < kMaxQueueSize * 3 div 4 then wake_producers pcs else pcs)(th := WRun)\<rparr>)"
  \<comment> \<open>\<^verbatim>\<open>run\<close>, on a thread that is not a worker\<close>
| p_inline: "tpc s th = Outside \<Longrightarrow> n \<le> th \<Longrightarrow> threads (pool s) = [] \<Longrightarrow> ThreadPool_step nd n s
    (s\<lparr>accepted := accepted s @ [x], taken_tasks := taken_tasks s @ [x], executed := executed s @ [x]\<rparr>)"
| p_run: "tpc s th = Outside \<Longrightarrow> n \<le> th \<Longrightarrow> threads (pool s) \<noteq> [] \<Longrightarrow> ThreadPool_step nd n s (set_pc th (PLock x) s)"
| p_lock: "tpc s th = PLock x \<or> tpc s th = PWoken x \<Longrightarrow> mutex s = None \<Longrightarrow>
    ThreadPool_step nd n s (set_pc th (PTest x) s\<lparr>mutex := Some th\<rparr>)"
| p_ready: "tpc s th = PTest x \<Longrightarrow> notFull_pred (pool s) \<Longrightarrow> ThreadPool_step nd n s (set_pc th (PPush x) s)"
| p_doze: "tpc s th = PTest x \<Longrightarrow> \<not> notFull_pred (pool s) \<Longrightarrow> ThreadPool_step nd n s (set_pc th (PDoze x) s)"
| p_sleep: "tpc s th = PDoze x \<Longrightarrow> ThreadPool_step nd n s (set_pc th (PSleep x) s\<lparr>mutex := None\<rparr>)"
| p_spurious: "tpc s th = PSleep x \<Longrightarrow> ThreadPool_step nd n s (set_pc th (PWoken x) s)"
| p_refuse: "tpc s th = PPush x \<Longrightarrow> ThreadPool_push x (pool s) = (False, smp, p) \<Longrightarrow>
    ThreadPool_step nd n s (set_pc th Outside s\<lparr>pool := p, mutex := None\<rparr>)"
| p_push: "tpc s th = PPush x \<Longrightarrow> ThreadPool_push x (pool s) = (True, smp, p) \<Longrightarrow> wakes_one (tpc s) pcs \<Longrightarrow>
    ThreadPool_step nd n s (s\<lparr>pool := p, accepted := accepted s @ [x], mutex := (if smp then mutex s else None),
      tpc := pcs(th := (if smp then PAdjust else Outside))\<rparr>)"
| p_adjust: "tpc s th = PAdjust \<Longrightarrow> ThreadPool_maybeAdjust nd now (pool s) = Inr p \<Longrightarrow>
    ThreadPool_step nd n s (set_pc th Outside s\<lparr>pool := p, mutex := None\<rparr>)"
  \<comment> \<open>\<^verbatim>\<open>stop\<close>\<close>
| s_check: "tpc s th = Outside \<Longrightarrow> n \<le> th \<Longrightarrow> running (pool s) \<Longrightarrow> ThreadPool_step nd n s (set_pc th SSet s)"
| s_set: "tpc s th = SSet \<Longrightarrow> ThreadPool_step nd n s (set_pc th SNotify s\<lparr>pool := (pool s)\<lparr>running := False\<rparr>\<rparr>)"
| s_notify: "tpc s th = SNotify \<Longrightarrow> ThreadPool_step nd n s (s\<lparr>tpc := (wake_all (tpc s))(th := SJoin 0)\<rparr>)"
| s_join: "tpc s th = SJoin i \<Longrightarrow> i < n \<Longrightarrow> tpc s i = WExit \<Longrightarrow> ThreadPool_step nd n s (set_pc th (SJoin (i + 1)) s)"
| s_done: "tpc s th = SJoin n \<Longrightarrow> ThreadPool_step nd n s (set_pc th Outside s)"

definition ThreadPool_init :: "bool \<Rightarrow> nat \<Rightarrow> 'a tp_sys \<Rightarrow> bool" where
  "ThreadPool_init nd n s \<longleftrightarrow> 0 < n \<and> (\<exists>nm m. m \<noteq> None \<and>
     ThreadPool_start nd ((ThreadPool_new nm)\<lparr>tp_numThreads := int n, model_of := m\<rparr>) = Inr (pool s)) \<and>
     tpc s = (\<lambda>th. if th < n then WStart else Outside) \<and> wcache s = (\<lambda>_. \<lparr>tasks = [], cache_index = 0\<rparr>) \<and>
     mutex s = None \<and> accepted s = [] \<and> taken_tasks s = [] \<and> executed s = []"

section \<open>Invariant\<close>

fun holds :: "'a tp_pc \<Rightarrow> bool" where
  "holds WTest = True"
| "holds WDoze = True"
| "holds WTake = True"
| "holds (PTest x) = True"
| "holds (PDoze x) = True"
| "holds (PPush x) = True"
| "holds PAdjust = True"
| "holds _ = False"

fun is_worker :: "'a tp_pc \<Rightarrow> bool" where
  "is_worker Outside = False"
| "is_worker (PLock x) = False"
| "is_worker (PTest x) = False"
| "is_worker (PDoze x) = False"
| "is_worker (PSleep x) = False"
| "is_worker (PWoken x) = False"
| "is_worker (PPush x) = False"
| "is_worker PAdjust = False"
| "is_worker SSet = False"
| "is_worker SNotify = False"
| "is_worker (SJoin i) = False"
| "is_worker _ = True"

text \<open>Tasks that workers have taken and not yet started.\<close>

definition in_caches :: "nat \<Rightarrow> 'a tp_sys \<Rightarrow> 'a multiset" where
  "in_caches n s = (\<Sum>th<n. mset (unread (wcache s th)))"

definition tp_inv :: "nat \<Rightarrow> 'a tp_sys \<Rightarrow> bool" where
  "tp_inv n s \<longleftrightarrow> (\<forall>th. holds (tpc s th) \<longrightarrow> mutex s = Some th) \<and> (\<forall>th. is_worker (tpc s th) \<longleftrightarrow> th < n) \<and>
     accepted s = taken_tasks s @ queue (pool s) \<and> mset (taken_tasks s) = mset (executed s) + in_caches n s \<and>
     (\<forall>th. tpc s th \<noteq> WRun \<longrightarrow> unread (wcache s th) = []) \<and>
     kMinBatchSize \<le> batchSize (pool s) \<and> batchSize (pool s) \<le> kMaxBatchSize \<and>
     length (queue (pool s)) \<le> kMaxQueueSize \<and> (\<forall>th. length (tasks (wcache s th)) \<le> kMaxBatchSize) \<and>
     (\<forall>th x. tpc s th = PPush x \<longrightarrow> notFull_pred (pool s)) \<and>
     queueLength (pool s) = 0 \<and> length (threads (pool s)) = n \<and> 0 < n"

lemma tp_invD:
  assumes "tp_inv n s"
  shows "\<And>th. holds (tpc s th) \<Longrightarrow> mutex s = Some th" "\<And>th. is_worker (tpc s th) \<longleftrightarrow> th < n"
    "accepted s = taken_tasks s @ queue (pool s)" "mset (taken_tasks s) = mset (executed s) + in_caches n s"
    "\<And>th. tpc s th \<noteq> WRun \<Longrightarrow> unread (wcache s th) = []"
    "kMinBatchSize \<le> batchSize (pool s)" "batchSize (pool s) \<le> kMaxBatchSize"
    "length (queue (pool s)) \<le> kMaxQueueSize" "\<And>th. length (tasks (wcache s th)) \<le> kMaxBatchSize"
    "\<And>th x. tpc s th = PPush x \<Longrightarrow> notFull_pred (pool s)" "queueLength (pool s) = 0" "length (threads (pool s)) = n" "0 < n"
  using assms unfolding tp_inv_def by blast+

lemma tp_invI:
  assumes "\<And>th. holds (tpc s th) \<Longrightarrow> mutex s = Some th" "\<And>th. is_worker (tpc s th) \<longleftrightarrow> th < n"
    "accepted s = taken_tasks s @ queue (pool s)" "mset (taken_tasks s) = mset (executed s) + in_caches n s"
    "\<And>th. tpc s th \<noteq> WRun \<Longrightarrow> unread (wcache s th) = []"
    "kMinBatchSize \<le> batchSize (pool s)" "batchSize (pool s) \<le> kMaxBatchSize"
    "length (queue (pool s)) \<le> kMaxQueueSize" "\<And>th. length (tasks (wcache s th)) \<le> kMaxBatchSize"
    "\<And>th x. tpc s th = PPush x \<Longrightarrow> notFull_pred (pool s)" "queueLength (pool s) = 0" "length (threads (pool s)) = n" "0 < n"
  shows "tp_inv n s"
  unfolding tp_inv_def using assms by blast

lemma in_caches_cong: "wcache s' = wcache s \<Longrightarrow> in_caches n s' = in_caches n s"
  by (simp add: in_caches_def)

lemma in_caches_upd:
  assumes "th < n" "wcache s' = (wcache s)(th := c)"
  shows "in_caches n s' + mset (unread (wcache s th)) = in_caches n s + mset (unread c)"
proof -
  have *: "in_caches n s = mset (unread (wcache s th)) + (\<Sum>i \<in> {..<n} - {th}. mset (unread (wcache s i)))"
    unfolding in_caches_def using assms(1) by (intro sum.remove) auto
  have "in_caches n s' = mset (unread c) + (\<Sum>i \<in> {..<n} - {th}. mset (unread (wcache s' i)))"
    unfolding in_caches_def using assms by (subst sum.remove [of _ th]) auto
  also have "(\<Sum>i \<in> {..<n} - {th}. mset (unread (wcache s' i))) = (\<Sum>i \<in> {..<n} - {th}. mset (unread (wcache s i)))"
    using assms(2) by (intro sum.cong) auto
  finally show ?thesis using * by simp
qed

text \<open>A step that changes nothing but the program counters and the mutex.\<close>

lemma tp_inv_control:
  assumes inv: "tp_inv n s" and s': "wcache s' = wcache s" "accepted s' = accepted s" "taken_tasks s' = taken_tasks s"
      "executed s' = executed s" "queue (pool s') = queue (pool s)" "batchSize (pool s') = batchSize (pool s)"
      "queueLength (pool s') = queueLength (pool s)" "threads (pool s') = threads (pool s)"
    and pc: "\<And>th. holds (tpc s' th) \<Longrightarrow> mutex s' = Some th" "\<And>th. is_worker (tpc s' th) \<longleftrightarrow> is_worker (tpc s th)"
      "\<And>th. tpc s' th \<noteq> WRun \<Longrightarrow> unread (wcache s th) = []" "\<And>th x. tpc s' th = PPush x \<Longrightarrow> notFull_pred (pool s')"
  shows "tp_inv n s'"
  by (rule tp_invI) (use tp_invD [OF inv] pc in \<open>simp_all add: s' in_caches_cong [OF s'(1)]\<close>)

lemma adapt_batch_bounds:
  "kMinBatchSize \<le> b \<Longrightarrow> b \<le> kMaxBatchSize \<Longrightarrow> kMinBatchSize \<le> adapt_batch b len \<and> adapt_batch b len \<le> kMaxBatchSize"
  by (auto simp: adapt_batch_def kMinBatchSize_def kMaxBatchSize_def)

lemma maybeAdjust_idle:
  "queueLength p = 0 \<Longrightarrow> ThreadPool_maybeAdjust nd now p = Inr p' \<Longrightarrow>
   p' = p \<or> p' = p\<lparr>adjusting := False\<rparr>"
  by (auto simp: ThreadPool_maybeAdjust_def Let_def queueHighWatermark_def split: option.splits tp_model.splits if_splits)

lemma wakes_one_pc:
  assumes "wakes_one pcs pcs'"
  shows "pcs' th = pcs th \<or> pcs th = WSleep \<and> pcs' th = WWoken"
  using assms by (auto simp: wakes_one_def split: if_splits)

lemma wake_pcs [simp]:
  "holds (wake_all pcs th) = holds (pcs th)" "is_worker (wake_all pcs th) = is_worker (pcs th)"
  "wake_all pcs th = WRun \<longleftrightarrow> pcs th = WRun" "wake_all pcs th = PPush x \<longleftrightarrow> pcs th = PPush x"
  "holds (wake_producers pcs th) = holds (pcs th)" "is_worker (wake_producers pcs th) = is_worker (pcs th)"
  "wake_producers pcs th = WRun \<longleftrightarrow> pcs th = WRun" "wake_producers pcs th = PPush x \<longleftrightarrow> pcs th = PPush x"
  by (auto simp: wake_all_def wake_producers_def split: tp_pc.splits)

lemma wakes_one_simps:
  assumes "wakes_one pcs pcs'"
  shows "holds (pcs' th) = holds (pcs th)" "is_worker (pcs' th) = is_worker (pcs th)"
    "pcs' th = WRun \<longleftrightarrow> pcs th = WRun" "pcs' th = PPush x \<longleftrightarrow> pcs th = PPush x"
  using wakes_one_pc [OF assms, of th] by auto

lemma tp_inv_push:
  assumes inv: "tp_inv n s" and pc: "tpc s th = PPush x" and push: "ThreadPool_push x (pool s) = (True, smp, p)"
    and wake: "wakes_one (tpc s) pcs"
  shows "tp_inv n (s\<lparr>pool := p, accepted := accepted s @ [x], mutex := (if smp then mutex s else None),
      tpc := pcs(th := (if smp then PAdjust else Outside))\<rparr>)" (is "tp_inv n ?s")
proof (rule tp_invI)
  note I = tp_invD [OF inv]
  note W = wakes_one_simps [OF wake]
  have p: "running (pool s)" "p = (pool s)\<lparr>queue := queue (pool s) @ [x], runCounter := (runCounter (pool s) + 1) mod 2 ^ 64\<rparr>"
    using push by (auto simp: ThreadPool_push_def split: if_splits)
  have mine: "mutex s = Some th" using I(1) [of th] pc by simp
  have others: "\<not> holds (pcs th')" if "th' \<noteq> th" for th' using I(1) [of th'] mine that W(1) by auto
  show "holds (tpc ?s th') \<Longrightarrow> mutex ?s = Some th'" for th' using others [of th'] mine by (auto split: if_splits)
  show "is_worker (tpc ?s th') \<longleftrightarrow> th' < n" for th' using I(2) [of th] I(2) [of th'] pc W(2) by auto
  show "tpc ?s th' \<noteq> WRun \<Longrightarrow> unread (wcache ?s th') = []" for th' using I(5) [of th] I(5) [of th'] pc W(3) by (auto split: if_splits)
  show "length (queue (pool ?s)) \<le> kMaxQueueSize" using I(10) [OF pc] p by (auto simp: notFull_pred_def)
  show "tpc ?s th' = PPush y \<Longrightarrow> notFull_pred (pool ?s)" for th' y
    using others [of th'] by (auto split: if_splits)
qed (use tp_invD [OF inv] push in \<open>auto simp: in_caches_def ThreadPool_push_def split: if_splits\<close>)

lemma tp_inv_take:
  assumes inv: "tp_inv n s" and pc: "tpc s th = WTake" and take: "ThreadPool_take (pool s) = (c, p)"
    and wake: "\<And>th'. holds (pcs th') = holds (tpc s th')" "\<And>th'. is_worker (pcs th') = is_worker (tpc s th')"
      "\<And>th'. pcs th' = WRun \<longleftrightarrow> tpc s th' = WRun" "\<And>th' x. pcs th' = PPush x \<longleftrightarrow> tpc s th' = PPush x"
  shows "tp_inv n (s\<lparr>pool := p, wcache := (wcache s)(th := c), mutex := None, taken_tasks := taken_tasks s @ tasks c,
      tpc := pcs(th := WRun)\<rparr>)" (is "tp_inv n ?s")
proof (rule tp_invI)
  note I = tp_invD [OF inv]
  let ?b = "adapt_batch (batchSize (pool s)) (length (queue (pool s)))"
  define k where "k = min ?b (length (queue (pool s)))"
  have c: "c = \<lparr>tasks = take k (queue (pool s)), cache_index = 0\<rparr>" and p: "p = (pool s)\<lparr>batchSize := ?b, queue := drop k (queue (pool s))\<rparr>"
    using take by (simp_all add: ThreadPool_take_def Let_def k_def)
  have b: "kMinBatchSize \<le> ?b \<and> ?b \<le> kMaxBatchSize" using adapt_batch_bounds I(6,7) by blast
  have mine: "mutex s = Some th" and th: "th < n" using I(1) [of th] I(2) [of th] pc by auto
  have others: "\<not> holds (pcs th')" if "th' \<noteq> th" for th' using I(1) [of th'] mine that wake(1) by auto
  show "holds (tpc ?s th') \<Longrightarrow> mutex ?s = Some th'" for th' using others [of th'] by (auto split: if_splits)
  show "is_worker (tpc ?s th') \<longleftrightarrow> th' < n" for th' using I(2) [of th'] th wake(2) by auto
  show "tpc ?s th' \<noteq> WRun \<Longrightarrow> unread (wcache ?s th') = []" for th' using I(5) [of th'] wake(3) by (auto split: if_splits)
  show "tpc ?s th' = PPush y \<Longrightarrow> notFull_pred (pool ?s)" for th' y
    using others [of th'] by (auto split: if_splits)
  show "accepted ?s = taken_tasks ?s @ queue (pool ?s)" using I(3) c p by simp
  have "in_caches n ?s + mset (unread (wcache s th)) = in_caches n s + mset (unread c)"
    by (rule in_caches_upd [OF th]) simp
  then show "mset (taken_tasks ?s) = mset (executed ?s) + in_caches n ?s"
    using I(4) I(5) [of th] pc c by (simp add: unread_def)
  show "length (tasks (wcache ?s th')) \<le> kMaxBatchSize" for th' using I(9) [of th'] b c by (auto simp: k_def)
qed (use tp_invD [OF inv] take in \<open>auto simp: ThreadPool_take_def Let_def adapt_batch_bounds\<close>)

lemma tp_inv_task:
  assumes inv: "tp_inv n s" and pc: "tpc s th = WRun" and x: "unread (wcache s th) = x # xs"
  shows "tp_inv n (s\<lparr>wcache := (wcache s)(th := (wcache s th)\<lparr>cache_index := cache_index (wcache s th) + 1\<rparr>), executed := executed s @ [x]\<rparr>)"
    (is "tp_inv n ?s")
proof (rule tp_invI)
  note I = tp_invD [OF inv]
  have th: "th < n" using I(2) [of th] pc by simp
  let ?c = "(wcache s th)\<lparr>cache_index := cache_index (wcache s th) + 1\<rparr>"
  have "unread ?c = tl (unread (wcache s th))" by (simp add: unread_def drop_Suc tl_drop)
  then have "unread ?c = xs" using x by simp
  moreover have "in_caches n ?s + mset (unread (wcache s th)) = in_caches n s + mset (unread ?c)"
    by (rule in_caches_upd [OF th]) simp
  ultimately show "mset (taken_tasks ?s) = mset (executed ?s) + in_caches n ?s" using I(4) x by simp
  show "tpc ?s th' \<noteq> WRun \<Longrightarrow> unread (wcache ?s th') = []" for th' using I(5) [of th'] pc by auto
  show "length (tasks (wcache ?s th')) \<le> kMaxBatchSize" for th' using I(9) [of th'] I(9) [of th] by simp
qed (use tp_invD [OF inv] in auto)

lemma tp_inv_one:
  assumes inv: "tp_inv n s" and s': "wcache s' = wcache s" "accepted s' = accepted s" "taken_tasks s' = taken_tasks s"
      "executed s' = executed s" "queue (pool s') = queue (pool s)" "batchSize (pool s') = batchSize (pool s)"
      "queueLength (pool s') = queueLength (pool s)" "threads (pool s') = threads (pool s)" "tpc s' = (tpc s)(th := pc)"
    and lock: "mutex s' = mutex s \<and> (holds pc \<longrightarrow> holds (tpc s th)) \<or>
      holds (tpc s th) \<and> \<not> holds pc \<or> mutex s = None \<and> mutex s' = Some th"
    and pc: "is_worker pc = is_worker (tpc s th)" "pc \<noteq> WRun \<longrightarrow> tpc s th \<noteq> WRun \<or> unread (wcache s th) = []"
      "\<And>x. pc = PPush x \<Longrightarrow> notFull_pred (pool s')" "notFull_pred (pool s) \<longrightarrow> notFull_pred (pool s')"
  shows "tp_inv n s'"
proof -
  note I = tp_invD [OF inv]
  show ?thesis
  proof (rule tp_inv_control [OF inv s'(1-8)])
    show "mutex s' = Some th'" if "holds (tpc s' th')" for th'
      using that lock I(1) [of th'] I(1) [of th] by (auto simp: s'(9) split: if_splits)
    show "is_worker (tpc s' th') \<longleftrightarrow> is_worker (tpc s th')" for th' using pc(1) by (simp add: s'(9))
    show "unread (wcache s th') = []" if "tpc s' th' \<noteq> WRun" for th'
      using that pc(2) I(5) [of th'] by (auto simp: s'(9) split: if_splits)
    show "notFull_pred (pool s')" if "tpc s' th' = PPush x" for th' x
      using that pc(3,4) I(10) [of th' x] by (auto simp: s'(9) split: if_splits)
  qed
qed

lemma tp_inv_pc:
  assumes "tp_inv n s" "holds pc \<longrightarrow> holds (tpc s th)" "is_worker pc = is_worker (tpc s th)"
    "pc \<noteq> WRun \<longrightarrow> tpc s th \<noteq> WRun" "\<And>x. pc = PPush x \<Longrightarrow> notFull_pred (pool s)"
  shows "tp_inv n (set_pc th pc s)"
  unfolding set_pc_def by (rule tp_inv_one [OF assms(1), where th = th and pc = pc]) (use assms(2-) in simp_all)

lemma tp_inv_pc_mutex:
  assumes "tp_inv n s" "holds (tpc s th) \<and> \<not> holds pc \<or> mutex s = None \<and> m = Some th" "is_worker pc = is_worker (tpc s th)"
    "pc \<noteq> WRun \<longrightarrow> tpc s th \<noteq> WRun" "\<And>x. pc = PPush x \<Longrightarrow> notFull_pred (pool s)"
  shows "tp_inv n ((set_pc th pc s)\<lparr>mutex := m\<rparr>)"
  unfolding set_pc_def by (rule tp_inv_one [OF assms(1), where th = th and pc = pc]) (use assms(2-) in simp_all)

lemma tp_inv_step:
  assumes inv: "tp_inv n s" and step: "ThreadPool_step nd n s t"
  shows "tp_inv n t"
proof -
  note I = tp_invD [OF inv]
  note one = tp_inv_one [OF inv]
  show ?thesis
    using step
  proof cases
    case (w_task th x xs)
    then show ?thesis using tp_inv_task [OF inv] by simp
  next
    case (w_take th c p pcs)
    have "tp_inv n (s\<lparr>pool := p, wcache := (wcache s)(th := c), mutex := None, taken_tasks := taken_tasks s @ tasks c,
        tpc := (if length (queue p) < kMaxQueueSize * 3 div 4 then wake_producers pcs else pcs)(th := WRun)\<rparr>)"
      by (rule tp_inv_take [OF inv w_take(2,4)]) (use w_take(5) wakes_one_simps [of "tpc s" pcs] in \<open>auto split: if_splits\<close>)
    then show ?thesis using w_take by simp
  next
    case (p_push th x smp p pcs)
    then show ?thesis using tp_inv_push [OF inv] by simp
  next
    case (p_refuse th x smp p)
    then have "p = pool s" by (auto simp: ThreadPool_push_def split: if_splits)
    then show ?thesis unfolding p_refuse(1) set_pc_def by (intro one [where th = th and pc = Outside]) (simp_all add: p_refuse(2))
  next
    case (p_adjust th now p)
    then have p: "p = pool s \<or> p = (pool s)\<lparr>adjusting := False\<rparr>" using maybeAdjust_idle I(11) by blast
    then have "notFull_pred p = notFull_pred (pool s)" by (auto simp: notFull_pred_def)
    with p show ?thesis unfolding p_adjust(1) set_pc_def by (intro one [where th = th and pc = "Outside"]) (auto simp: p_adjust(2))
  next
    case (s_set th)
    show ?thesis unfolding s_set(1) set_pc_def by (intro one [where th = th and pc = "SNotify"]) (simp_all add: s_set(2) notFull_pred_def)
  next
    case (s_notify th)
    show ?thesis unfolding s_notify(1)
      by (rule tp_inv_control [OF inv]) (use I(1,2,5,10) I(2) [of th] I(5) [of th] s_notify(2) in \<open>auto split: if_splits\<close>)
  next
    case (p_inline th x)
    then show ?thesis using I(12,13) by simp
  next
    case (w_start th)
    show ?thesis unfolding w_start(1) set_pc_def by (intro one [where th = th and pc = "WTop"]) (simp_all add: w_start(2) notFull_pred_def)
  next
    case (w_batch_done th)
    show ?thesis unfolding w_batch_done(1) set_pc_def by (intro one [where th = th and pc = "WTop"]) (simp_all add: w_batch_done(2,3))
  next
    case (w_lock th)
    then show ?thesis unfolding w_lock(1) set_pc_def by (intro one [where th = th and pc = "WTest"]) auto
  next
    case (p_lock th x)
    then show ?thesis unfolding p_lock(1) set_pc_def by (intro one [where th = th and pc = "PTest x"]) auto
  qed (auto intro!: tp_inv_pc [OF inv] tp_inv_pc_mutex [OF inv])
qed

section \<open>Starting the pool\<close>

lemma ThreadPool_spawn_next:
  "i = length (threads s) \<Longrightarrow>
   ThreadPool_spawn nd nm i s = Inr (s\<lparr>threads := threads s @ [(Thread_new nm)\<lparr>th_started := True, th_thread := Joinable\<rparr>]\<rparr>)"
  by (simp add: ThreadPool_spawn_def spawn_thread_next)

lemma ThreadPool_spawn_all:
  assumes "threads s = []"
  shows "foldR (\<lambda>i s. ThreadPool_spawn nd (snprintf 32 (tp_name s @ ''-'' @ dec_int (int i))) i s) [0..<k] s =
    Inr (s\<lparr>threads := map (started_thread (tp_name s)) [0..<k]\<rparr>)"
  by (induction k) (use assms in \<open>simp_all add: foldR_append ThreadPool_spawn_next started_thread_def\<close>)

text \<open>\<^verbatim>\<open>start\<close> creates and starts exactly the configured number of threads.\<close>

lemma ThreadPool_start_eq:
  assumes "\<not> running s" "0 < tp_numThreads s" "threads s = []"
  shows "ThreadPool_start nd s =
    Inr (s\<lparr>running := True, threads := map (started_thread (tp_name s)) [0..<nat (tp_numThreads s)]\<rparr>)"
  using assms ThreadPool_spawn_all [of "s\<lparr>running := True\<rparr>" nd] by (simp add: ThreadPool_start_def)

lemma ThreadPool_init_pool:
  assumes "ThreadPool_init nd n s"
  obtains nm m where "0 < n" "pool s = (ThreadPool_new nm)\<lparr>running := True, tp_numThreads := int n, model_of := m,
    threads := map (started_thread nm) [0..<n]\<rparr>" "m \<noteq> None"
proof -
  from assms obtain nm m where *: "0 < n" "m \<noteq> None"
      "ThreadPool_start nd ((ThreadPool_new nm)\<lparr>tp_numThreads := int n, model_of := m\<rparr>) = Inr (pool s)"
    by (auto simp: ThreadPool_init_def)
  then have "pool s = (ThreadPool_new nm)\<lparr>running := True, tp_numThreads := int n, model_of := m,
      threads := map (started_thread nm) [0..<n]\<rparr>"
    by (subst (asm) ThreadPool_start_eq) (auto simp: ThreadPool_new_def)
  with * show ?thesis by (rule_tac that) auto
qed

lemma tp_inv_init:
  assumes "ThreadPool_init nd n s"
  shows "tp_inv n s"
proof -
  obtain nm m where p: "0 < n" "pool s = (ThreadPool_new nm)\<lparr>running := True, tp_numThreads := int n, model_of := m,
      threads := map (started_thread nm) [0..<n]\<rparr>"
    using assms by (rule ThreadPool_init_pool)
  show ?thesis
    by (rule tp_invI) (use assms p in \<open>auto simp: ThreadPool_init_def in_caches_def unread_def ThreadPool_new_def
      kMinBatchSize_def kMaxBatchSize_def split: if_splits\<close>)
qed

text \<open>With one worker, tasks run in the order they were accepted.\<close>

definition tp_fifo :: "'a tp_sys \<Rightarrow> bool" where
  "tp_fifo s \<longleftrightarrow> taken_tasks s = executed s @ unread (wcache s 0)"

definition tp_full_inv :: "nat \<Rightarrow> 'a tp_sys \<Rightarrow> bool" where
  "tp_full_inv n s \<longleftrightarrow> tp_inv n s \<and> (n = 1 \<longrightarrow> tp_fifo s)"

lemma tp_fifo_step:
  assumes inv: "tp_inv 1 s" and f: "tp_fifo s" and step: "ThreadPool_step nd 1 s t"
  shows "tp_fifo t"
proof -
  note I = tp_invD [OF inv]
  show ?thesis
    using step
  proof cases
    case (w_task th x xs)
    then have "th = 0" using I(2) [of th] by simp
    moreover have "unread ((wcache s th)\<lparr>cache_index := cache_index (wcache s th) + 1\<rparr>) = tl (unread (wcache s th))"
      by (simp add: unread_def drop_Suc tl_drop)
    ultimately show ?thesis using w_task f by (simp add: tp_fifo_def)
  next
    case (w_take th c p pcs)
    then have "th = 0" using I(2) [of th] by simp
    then show ?thesis using w_take f I(5) [of 0]
      by (auto simp: tp_fifo_def ThreadPool_take_def Let_def unread_def)
  next
    case (p_inline th x)
    then show ?thesis using I(12,13) by simp
  qed (use f in \<open>auto simp: tp_fifo_def set_pc_def\<close>)
qed

interpretation thread_pool: inductive_invariant "ThreadPool_init nd n" "ThreadPool_step nd n" "tp_full_inv n" for nd n
proof unfold_locales
  show "tp_full_inv n s" if "ThreadPool_init nd n s" for s :: "'a tp_sys"
    using tp_inv_init [OF that] that by (auto simp: tp_full_inv_def tp_fifo_def ThreadPool_init_def unread_def)
  show "tp_full_inv n t" if "tp_full_inv n s" "ThreadPool_step nd n s t" for s t :: "'a tp_sys"
    using that tp_inv_step [of n s nd t] tp_fifo_step [of s nd t] by (auto simp: tp_full_inv_def)
qed

text \<open>
  C29: In every interleaving of workers, callers of run and stop: at most one thread is in a section that needs the
  mutex; every accepted task is in the queue, in a worker's cache or executed, each exactly once; the queue hands
  tasks out in the order of their acceptance, so a single worker executes them in that order; the queue never
  exceeds 10000 tasks and a batch has between 4 and 64; and queueSize answers 0 whatever the queue holds.
\<close>

theorem ThreadPool_reachable:
  assumes "reach (ThreadPool_init nd n) (ThreadPool_step nd n) s"
  shows "(holds (tpc s th) \<and> holds (tpc s th') \<longrightarrow> th = th') \<and>
    accepted s = taken_tasks s @ queue (pool s) \<and>
    mset (accepted s) = mset (executed s) + (\<Sum>w<n. mset (unread (wcache s w))) + mset (queue (pool s)) \<and>
    (n = 1 \<longrightarrow> accepted s = executed s @ unread (wcache s 0) @ queue (pool s)) \<and>
    length (queue (pool s)) \<le> 10000 \<and> 4 \<le> batchSize (pool s) \<and> batchSize (pool s) \<le> 64 \<and>
    ThreadPool_queueSize (pool s) = 0"
proof -
  have inv: "tp_inv n s" and fifo: "n = 1 \<longrightarrow> tp_fifo s"
    using thread_pool.reach_inv [OF assms] by (simp_all add: tp_full_inv_def)
  note I = tp_invD [OF inv]
  have "th = th'" if "holds (tpc s th)" "holds (tpc s th')" using I(1) [OF that(1)] I(1) [OF that(2)] by simp
  moreover have "mset (accepted s) = mset (executed s) + (\<Sum>w<n. mset (unread (wcache s w))) + mset (queue (pool s))"
    using I(3,4) by (simp add: in_caches_def)
  moreover have "n = 1 \<longrightarrow> accepted s = executed s @ unread (wcache s 0) @ queue (pool s)"
    using fifo I(3) by (simp add: tp_fifo_def)
  ultimately show ?thesis
    using I(3,6,7,8,11) by (simp add: kMinBatchSize_def kMaxBatchSize_def kMaxQueueSize_def ThreadPool_queueSize_def)
qed

text \<open>A pool of one worker, just started.\<close>

definition tp_start1 :: "nat tp_sys" where
  "tp_start1 = \<lparr>pool = (ThreadPool_new ''p'')\<lparr>running := True, tp_numThreads := 1, model_of := Some FIXED,
       threads := [started_thread ''p'' 0]\<rparr>,
     tpc = (\<lambda>th. if th < 1 then WStart else Outside), wcache = (\<lambda>_. \<lparr>tasks = [], cache_index = 0\<rparr>), mutex = None,
     accepted = [], taken_tasks = [], executed = []\<rparr>"

lemma tp_start1_init: "ThreadPool_init nd 1 tp_start1"
proof -
  have "ThreadPool_start nd ((ThreadPool_new ''p'')\<lparr>tp_numThreads := int 1, model_of := Some FIXED\<rparr>) = Inr (pool tp_start1)"
    by (subst ThreadPool_start_eq) (auto simp: ThreadPool_new_def tp_start1_def)
  then show ?thesis unfolding ThreadPool_init_def by (auto simp: tp_start1_def)
qed

lemma tp_start1_reach: "reach (ThreadPool_init nd 1) (ThreadPool_step nd 1) tp_start1"
  by (rule reach_init) (rule tp_start1_init)

lemma tp_start1_sim: "tpc tp_start1 0 = WStart" "tpc tp_start1 (Suc 0) = Outside" "mutex tp_start1 = None"
    "running (pool tp_start1)" "queue (pool tp_start1) = []" "unread (wcache tp_start1 th) = []"
    "threads (pool tp_start1) = [started_thread ''p'' 0]" "model_of (pool tp_start1) = Some FIXED"
    "runCounter (pool tp_start1) = 0" "0 < th \<Longrightarrow> tpc tp_start1 th = Outside" "accepted tp_start1 = []"
  by (simp_all add: tp_start1_def unread_def ThreadPool_new_def)

lemma reach_push:
  assumes "reach I (ThreadPool_step nd n) s" "tpc s th = PPush x" "running (pool s)" "runCounter (pool s) = 0" "\<And>w. tpc s w \<noteq> WSleep"
  shows "\<exists>t. reach I (ThreadPool_step nd n) t \<and> tpc t th = PAdjust \<and> accepted t = accepted s @ [x]"
proof -
  obtain p where push: "ThreadPool_push x (pool s) = (True, True, p)"
    using assms(3,4) by (simp add: ThreadPool_push_def)
  have w: "wakes_one (tpc s) (tpc s)" using assms(5) by (simp add: wakes_one_def)
  show ?thesis
    by (intro exI conjI, rule reach_step [OF assms(1) p_push [OF assms(2) push w]]) simp_all
qed

lemma tp_start1_accepts:
  "\<exists>s. reach (ThreadPool_init nd 1) (ThreadPool_step nd 1) s \<and> tpc s 1 = PAdjust \<and> accepted s = [7::nat]"
proof -
  let ?R = "reach (ThreadPool_init nd 1) (ThreadPool_step nd 1)"
  let ?a = "set_pc 1 (PLock 7) tp_start1"
  let ?b = "(set_pc 1 (PTest 7) ?a)\<lparr>mutex := Some 1\<rparr>"
  let ?c = "set_pc 1 (PPush 7) ?b"
  have a: "?R ?a" by (rule reach_step [OF tp_start1_reach p_run]) (simp_all add: tp_start1_sim)
  have b: "?R ?b" by (rule reach_step [OF a p_lock]) (simp_all add: tp_start1_sim set_pc_def)
  have c: "?R ?c" by (rule reach_step [OF b p_ready]) (simp_all add: tp_start1_sim set_pc_def notFull_pred_def kMaxQueueSize_def)
  have "accepted ?c = []" by (simp add: set_pc_def tp_start1_sim)
  then show ?thesis
    using reach_push [OF c, of 1 7] by (simp add: set_pc_def tp_start1_def ThreadPool_new_def)
qed

theorem ThreadPool_reachable_witness:
  "\<exists>s. reach (ThreadPool_init True 1) (ThreadPool_step True 1) s \<and> accepted s = [7::nat] \<and>
     accepted s = taken_tasks s @ queue (pool s) \<and> length (queue (pool s)) \<le> 10000 \<and> ThreadPool_queueSize (pool s) = 0"
proof -
  obtain s where "reach (ThreadPool_init True 1) (ThreadPool_step True 1) s" "accepted s = [7::nat]"
    using tp_start1_accepts by blast
  with ThreadPool_reachable [OF this(1)] show ?thesis by (intro exI [of _ s]) simp
qed

section \<open>Stopping\<close>

text \<open>A step that is not the spurious wake-up of a worker.\<close>

definition notified_step :: "bool \<Rightarrow> nat \<Rightarrow> 'a tp_sys \<Rightarrow> 'a tp_sys \<Rightarrow> bool" where
  "notified_step nd n s t \<longleftrightarrow> ThreadPool_step nd n s t \<and> \<not> (\<exists>th. tpc s th = WSleep \<and> t = set_pc th WWoken s)"

text \<open>The worker sleeps and nobody is left who would wake it.\<close>

definition tp_stuck :: "'a tp_sys \<Rightarrow> bool" where
  "tp_stuck s \<longleftrightarrow> \<not> running (pool s) \<and> model_of (pool s) = Some FIXED \<and> tpc s 0 = WSleep \<and> tpc s 1 = SJoin 0 \<and>
     (\<forall>th. tpc s th \<noteq> SSet \<and> tpc s th \<noteq> SNotify) \<and> (\<forall>th. 0 < th \<longrightarrow> \<not> is_worker (tpc s th))"

lemma tp_stuckD:
  assumes "tp_stuck s"
  shows "\<not> running (pool s)" "model_of (pool s) = Some FIXED" "tpc s 0 = WSleep" "tpc s (Suc 0) = SJoin 0"
    "\<And>th. tpc s th \<noteq> SSet" "\<And>th. tpc s th \<noteq> SNotify" "\<And>th. is_worker (tpc s th) \<Longrightarrow> th = 0"
  using assms unfolding tp_stuck_def by auto

lemma tp_stuck_pc:
  assumes "tp_stuck s"
  shows "tpc s th \<noteq> WStart" "tpc s th \<noteq> WTop" "tpc s th \<noteq> WFill" "tpc s th \<noteq> WTest" "tpc s th \<noteq> WDoze" "tpc s th \<noteq> WWoken"
    "tpc s th \<noteq> WTake" "tpc s th \<noteq> WRun" "tpc s th \<noteq> WExit" "tpc s th \<noteq> SSet" "tpc s th \<noteq> SNotify"
proof -
  have "is_worker (tpc s th) \<Longrightarrow> tpc s th = WSleep" using tp_stuckD(3,7) [OF assms] by metis
  then show "tpc s th \<noteq> WStart" "tpc s th \<noteq> WTop" "tpc s th \<noteq> WFill" "tpc s th \<noteq> WTest" "tpc s th \<noteq> WDoze" "tpc s th \<noteq> WWoken"
      "tpc s th \<noteq> WTake" "tpc s th \<noteq> WRun" "tpc s th \<noteq> WExit" by auto
qed (use tp_stuckD(5,6) [OF assms] in simp_all)

lemma tp_stuck_one:
  assumes "tp_stuck s" "tpc s th \<noteq> WSleep" "tpc s th \<noteq> SJoin 0" "tpc t = (tpc s)(th := pc)" "\<not> is_worker pc"
    "pc \<noteq> SSet" "pc \<noteq> SNotify" "running (pool t) = running (pool s)" "model_of (pool t) = model_of (pool s)"
  shows "tp_stuck t"
  using assms unfolding tp_stuck_def by auto

lemma tp_stuck_step:
  assumes st: "tp_stuck s" and step: "notified_step nd 1 s t"
  shows "tp_stuck t"
proof -
  have step: "ThreadPool_step nd 1 s t" and no: "\<And>th. tpc s th = WSleep \<Longrightarrow> t \<noteq> set_pc th WWoken s"
    using step unfolding notified_step_def by blast+
  note S = tp_stuckD [OF st]
  note P = tp_stuck_pc [OF st]
  note one = tp_stuck_one [OF st]
  show ?thesis
    using step
  proof cases
    case (p_inline th x)
    then show ?thesis using st by (simp add: tp_stuck_def)
  next
    case (p_run th x)
    show ?thesis unfolding p_run(1) by (rule one [where th = th and pc = "PLock x"]) (simp_all add: set_pc_def p_run(2))
  next
    case (p_lock th x)
    show ?thesis unfolding p_lock(1) by (rule one [where th = th and pc = "PTest x"]) (use p_lock(2) in \<open>auto simp: set_pc_def\<close>)
  next
    case (p_ready th x)
    show ?thesis unfolding p_ready(1) by (rule one [where th = th and pc = "PPush x"]) (simp_all add: set_pc_def p_ready(2))
  next
    case (p_doze th x)
    show ?thesis unfolding p_doze(1) by (rule one [where th = th and pc = "PDoze x"]) (simp_all add: set_pc_def p_doze(2))
  next
    case (p_sleep th x)
    show ?thesis unfolding p_sleep(1) by (rule one [where th = th and pc = "PSleep x"]) (simp_all add: set_pc_def p_sleep(2))
  next
    case (p_spurious th x)
    show ?thesis unfolding p_spurious(1) by (rule one [where th = th and pc = "PWoken x"]) (simp_all add: set_pc_def p_spurious(2))
  next
    case (w_spurious th)
    then show ?thesis using no by blast
  next
    case (p_refuse th x smp p)
    then have "p = pool s" by (auto simp: ThreadPool_push_def split: if_splits)
    then show ?thesis unfolding p_refuse(1) by (intro one [where th = th and pc = Outside]) (simp_all add: set_pc_def p_refuse(2))
  next
    case (p_adjust th now p)
    then have "p = pool s" using S(2) by (simp add: ThreadPool_maybeAdjust_def)
    then show ?thesis unfolding p_adjust(1) by (intro one [where th = th and pc = Outside]) (simp_all add: set_pc_def p_adjust(2))
  next
    case (p_push th x smp p pcs)
    then show ?thesis using S(1) by (simp add: ThreadPool_push_def)
  next
    case (s_join th i)
    then show ?thesis using P by simp
  next
    case (s_done th)
    show ?thesis unfolding s_done(1) by (rule one [where th = th and pc = Outside]) (simp_all add: set_pc_def s_done(2))
  qed (use S(1,2) P in auto)
qed

interpretation stuck_pool: inductive_invariant tp_stuck "notified_step nd 1" tp_stuck for nd
  by unfold_locales (auto intro: tp_stuck_step)

text \<open>
  C37: stop() can wait for ever.  It clears running_ and notifies without the mutex, so both can fall between a
  worker's test of its condition and its going to sleep: then the worker sleeps, stop() has joined nobody, and in
  every continuation in which no worker wakes up spuriously both stay where they are.
\<close>

theorem ThreadPool_stop_lost_wakeup:
  "\<exists>s :: nat tp_sys. reach (ThreadPool_init nd 1) (ThreadPool_step nd 1) s \<and>
     {t. (notified_step nd 1)\<^sup>*\<^sup>* s t} \<subseteq> {t. tpc t 0 = WSleep \<and> tpc t 1 = SJoin 0 \<and> \<not> running (pool t)}"
proof -
  let ?R = "reach (ThreadPool_init nd 1) (ThreadPool_step nd 1)"
  let ?a = "set_pc 0 WTop (tp_start1\<lparr>pool := (pool tp_start1)\<lparr>activeThreads := 1\<rparr>\<rparr>)"
  let ?b = "set_pc 0 WFill ?a"
  let ?c = "(set_pc 0 WTest ?b)\<lparr>mutex := Some 0\<rparr>"
  let ?d = "set_pc 0 WDoze ?c"
  let ?e = "set_pc 1 SSet ?d"
  let ?f = "(set_pc 1 SNotify ?e)\<lparr>pool := (pool ?e)\<lparr>running := False\<rparr>\<rparr>"
  let ?g = "?f\<lparr>tpc := (wake_all (tpc ?f))(1 := SJoin 0)\<rparr>"
  let ?h = "(set_pc 0 WSleep ?g)\<lparr>mutex := None\<rparr>"
  note sim = tp_start1_sim set_pc_def notEmpty_pred_def
  have a: "?R ?a"
    using reach_step [OF tp_start1_reach w_start [of _ 0]] by (simp add: sim tp_start1_def ThreadPool_new_def)
  have b: "?R ?b" using reach_step [OF a w_top [of _ 0]] by (simp add: sim)
  have c: "?R ?c" using reach_step [OF b w_lock [of _ 0]] by (simp add: sim)
  have d: "?R ?d" using reach_step [OF c w_doze [of _ 0]] by (simp add: sim)
  have e: "?R ?e" using reach_step [OF d s_check [of _ 1]] by (simp add: sim)
  have f: "?R ?f" using reach_step [OF e s_set [of _ 1]] by (simp add: sim)
  have g: "?R ?g" using reach_step [OF f s_notify [of _ 1]] by (simp add: sim)
  have h: "?R ?h" using reach_step [OF g w_sleep [of _ 0]] by (simp add: sim wake_all_def)
  have "tp_stuck ?h" by (simp add: tp_stuck_def set_pc_def wake_all_def tp_start1_def)
  then have "{t. (notified_step nd 1)\<^sup>*\<^sup>* ?h t} \<subseteq> {t. tpc t 0 = WSleep \<and> tpc t 1 = SJoin 0 \<and> \<not> running (pool t)}"
    using stuck_pool.steps_inv [of nd ?h] by (auto simp: tp_stuck_def)
  with h show ?thesis by blast
qed

end
