(* ===== verification/DynamicThreadPool.thy ===== *)
theory DynamicThreadPool
  imports Prelude Complex_Main "HOL-Library.Multiset" "HOL-Library.Signed_Division"
begin

text \<open>
  The thread pool that grows and shrinks: \<^verbatim>\<open>base/DynamicThreadPool.h\<close>.

  Times are nanoseconds of the steady clock.  Each critical section of \<^verbatim>\<open>queueMutex_\<close> is one function, and so is each
  test made before the mutex is taken; \<open>dt_exec\<close> interleaves those of any number of workers and callers with
  the passing of time.  \<^verbatim>\<open>wait_for\<close> is called without a predicate and its time-out is shifted by a random
  amount, so a waiting worker may wake at any moment.

  The header names the lower limit \<^verbatim>\<open>minThreads\<close> in \<^verbatim>\<open>Config\<close> and \<^verbatim>\<open>minThreads_\<close> where it is used; the model reads the
  one field there is.
\<close>

section \<open>State\<close>

text \<open>Factors are rationals, as every \<^verbatim>\<open>double\<close> is; their products with thread counts are not rounded.\<close>

record Config =
  cfg_minThreads :: nat
  cfg_maxThreads :: nat
  cfg_initialThreads :: nat
  cfg_expandFactor :: rat
  cfg_shrinkFactor :: rat
  cfg_avgWaitThreshold :: int   \<comment> \<open>milliseconds\<close>
  cfg_idleTimeout :: int        \<comment> \<open>seconds, as the two below\<close>
  cfg_expandCooldown :: int
  cfg_shrinkCooldown :: int

definition Config_default :: Config where
  "Config_default = \<lparr>cfg_minThreads = 2, cfg_maxThreads = 128, cfg_initialThreads = 4, cfg_expandFactor = 2,
     cfg_shrinkFactor = 1 / 2, cfg_avgWaitThreshold = 50, cfg_idleTimeout = 60, cfg_expandCooldown = 2, cfg_shrinkCooldown = 10\<rparr>"

record 'a TaskEntry =
  te_task :: 'a
  te_enqueueTime :: int

record 'a DynamicThreadPool =
  dt_config :: Config
  dt_tasks :: "'a TaskEntry list"
  dt_threads :: nat
  dt_stop :: bool
  lastExpandTime :: int
  lastShrinkTime :: int

text \<open>Conversions of durations: \<^verbatim>\<open>duration_cast\<close> truncates towards zero.\<close>

definition ns_of_s :: "int \<Rightarrow> int" where "ns_of_s d = d * 10 ^ 9"
definition ms_of_ns :: "int \<Rightarrow> int" where "ms_of_ns d = d sdiv 10 ^ 6"
definition s_of_ns :: "int \<Rightarrow> int" where "s_of_ns d = d sdiv 10 ^ 9"

definition scaled :: "nat \<Rightarrow> rat \<Rightarrow> nat" where
  "scaled n f = nat \<lfloor>of_nat n * f\<rfloor>"

section \<open>Operations\<close>

definition DynamicThreadPool_spawnOne :: "'a DynamicThreadPool \<Rightarrow> 'a DynamicThreadPool" where
  "DynamicThreadPool_spawnOne p = p\<lparr>dt_threads := szadd (dt_threads p) 1\<rparr>"

definition DynamicThreadPool_resize :: "nat \<Rightarrow> 'a DynamicThreadPool \<Rightarrow> 'a DynamicThreadPool" where
  "DynamicThreadPool_resize target p =
     (if target > dt_threads p then (DynamicThreadPool_spawnOne ^^ (target - dt_threads p)) p else p)"

definition DynamicThreadPool_new :: "bool \<Rightarrow> Config \<Rightarrow> int \<Rightarrow> 'a DynamicThreadPool result" where
  "DynamicThreadPool_new nd cfg now =
     (if nd \<or> cfg_minThreads cfg \<le> cfg_initialThreads cfg \<and> cfg_initialThreads cfg \<le> cfg_maxThreads cfg
      then Inr (DynamicThreadPool_resize (cfg_initialThreads cfg)
             \<lparr>dt_config = cfg, dt_tasks = [], dt_threads = 0, dt_stop = False,
              lastExpandTime = now - ns_of_s (cfg_expandCooldown cfg), lastShrinkTime = now - ns_of_s (cfg_shrinkCooldown cfg)\<rparr>)
      else Inl AssertFailed)"

text \<open>The part of \<^verbatim>\<open>submit\<close> under the mutex; \<open>now\<close> was read before.\<close>

definition DynamicThreadPool_submit :: "'a \<Rightarrow> int \<Rightarrow> 'a DynamicThreadPool \<Rightarrow> 'a DynamicThreadPool" where
  "DynamicThreadPool_submit x now p = p\<lparr>dt_tasks := dt_tasks p @ [\<lparr>te_task = x, te_enqueueTime = now\<rparr>]\<rparr>"

definition DynamicThreadPool_threadCount :: "'a DynamicThreadPool \<Rightarrow> nat" where
  "DynamicThreadPool_threadCount p = dt_threads p"

definition DynamicThreadPool_pendingTasks :: "'a DynamicThreadPool \<Rightarrow> nat" where
  "DynamicThreadPool_pendingTasks p = length (dt_tasks p)"

text \<open>The number of tasks is cast to a 32-bit \<^verbatim>\<open>int\<close>; dividing by zero is undefined.\<close>

definition DynamicThreadPool_computeAvgWait :: "int \<Rightarrow> 'a DynamicThreadPool \<Rightarrow> int result" where
  "DynamicThreadPool_computeAvgWait now p =
     (if dt_tasks p = [] then Inr 0
      else let total = (\<Sum>e\<leftarrow>dt_tasks p. ms_of_ns (now - te_enqueueTime e));
               n = sint (word_of_nat (length (dt_tasks p)) :: 32 word)
           in if n = 0 then Inl Undefined else Inr (total sdiv n))"

text \<open>Whether the test of \<^verbatim>\<open>tryExpand\<close> before the mutex lets it go on, and its part under the mutex.\<close>

definition tryExpand_fast :: "int \<Rightarrow> 'a DynamicThreadPool \<Rightarrow> bool" where
  "tryExpand_fast now p \<longleftrightarrow> \<not> dt_threads p \<ge> cfg_maxThreads (dt_config p) \<and>
     \<not> now - lastExpandTime p < ns_of_s (cfg_expandCooldown (dt_config p))"

definition tryExpand_slow :: "int \<Rightarrow> 'a DynamicThreadPool \<Rightarrow> (bool \<times> 'a DynamicThreadPool) result" where
  "tryExpand_slow now p =
     (if dt_threads p \<ge> cfg_maxThreads (dt_config p) then Inr (False, p)
      else if now - lastExpandTime p < ns_of_s (cfg_expandCooldown (dt_config p)) then Inr (False, p)
      else if length (dt_tasks p) \<le> scaled (dt_threads p) (cfg_expandFactor (dt_config p)) then Inr (False, p)
      else bindR (DynamicThreadPool_computeAvgWait now p) (\<lambda>avgWait.
        if avgWait < cfg_avgWaitThreshold (dt_config p) then Inr (False, p)
        else Inr (True, (DynamicThreadPool_spawnOne p)\<lparr>lastExpandTime := now\<rparr>)))"

definition worker_must_wait :: "'a DynamicThreadPool \<Rightarrow> bool" where
  "worker_must_wait p \<longleftrightarrow> dt_tasks p = [] \<or> dt_stop p"

text \<open>After \<^verbatim>\<open>wait_for\<close>: whether the worker ends.\<close>

definition worker_woken :: "int \<Rightarrow> int \<Rightarrow> 'a DynamicThreadPool \<Rightarrow> bool \<times> 'a DynamicThreadPool" where
  "worker_woken now lastActive p =
     (if dt_stop p \<and> dt_tasks p = [] then (True, p\<lparr>dt_threads := szsub (dt_threads p) 1\<rparr>)
      else if dt_tasks p = [] \<and> \<not> dt_stop p \<and> dt_threads p > cfg_minThreads (dt_config p) \<and>
              s_of_ns (now - lastActive) \<ge> cfg_idleTimeout (dt_config p)
      then (True, p\<lparr>dt_threads := szsub (dt_threads p) 1\<rparr>)
      else (False, p))"

definition worker_take :: "'a DynamicThreadPool \<Rightarrow> 'a option \<times> 'a DynamicThreadPool" where
  "worker_take p = (case dt_tasks p of [] \<Rightarrow> (None, p) | e # es \<Rightarrow> (Some (te_task e), p\<lparr>dt_tasks := es\<rparr>))"

text \<open>\<^verbatim>\<open>tryShrink\<close> before the mutex and under it; the flag says whether it took one off the count.\<close>

definition tryShrink_fast :: "int \<Rightarrow> 'a DynamicThreadPool \<Rightarrow> bool" where
  "tryShrink_fast now p \<longleftrightarrow> \<not> dt_threads p \<le> cfg_minThreads (dt_config p) \<and>
     \<not> now - lastShrinkTime p < ns_of_s (cfg_shrinkCooldown (dt_config p))"

definition tryShrink_slow :: "int \<Rightarrow> int \<Rightarrow> 'a DynamicThreadPool \<Rightarrow> bool \<times> 'a DynamicThreadPool" where
  "tryShrink_slow now lastActive p =
     (if dt_threads p \<le> cfg_minThreads (dt_config p) then (False, p)
      else if now - lastShrinkTime p < ns_of_s (cfg_shrinkCooldown (dt_config p)) then (False, p)
      else if length (dt_tasks p) > scaled (dt_threads p) (cfg_shrinkFactor (dt_config p)) then (False, p)
      else if s_of_ns (now - lastActive) < cfg_idleTimeout (dt_config p) then (False, p)
      else (True, p\<lparr>dt_threads := szsub (dt_threads p) 1, lastShrinkTime := now\<rparr>))"

text \<open>\<^verbatim>\<open>stopAll\<close>: its first critical section, and the test of its polling loop.\<close>

definition stopAll_begin :: "'a DynamicThreadPool \<Rightarrow> 'a DynamicThreadPool" where
  "stopAll_begin p = p\<lparr>dt_stop := True\<rparr>"

definition stopAll_finished :: "'a DynamicThreadPool \<Rightarrow> bool" where
  "stopAll_finished p \<longleftrightarrow> dt_threads p = 0"

section \<open>Threads at work\<close>

datatype 'a dt_worker_pc = DNone | DNew | DTop | DWait | DRun 'a | DShrink | DShrinkSlow int | DGone

datatype 'a dt_caller_pc = CIdle | CPush 'a int | CExpand | CExpandSlow int | CPoll

text \<open>
  \<open>workers\<close> is the number of threads ever created.  \<open>shrink_times\<close> and \<open>expand_times\<close> list the readings of the clock with
  which \<^verbatim>\<open>tryShrink\<close> and \<^verbatim>\<open>tryExpand\<close> decided to act, in the order in which they did.
  Once \<open>destroyed\<close>, the pool is gone and a worker that is not cannot move without touching it.
\<close>

record 'a dt_sys =
  dpool :: "'a DynamicThreadPool"
  clock :: int
  workers :: nat
  wpc :: "nat \<Rightarrow> 'a dt_worker_pc"
  last_active :: "nat \<Rightarrow> int"
  cpc :: "nat \<Rightarrow> 'a dt_caller_pc"
  destroyed :: bool
  dt_accepted :: "'a list"
  dt_taken :: "'a list"
  dt_executed :: "'a list"
  shrink_times :: "int list"
  expand_times :: "int list"

abbreviation shrinks :: "'a dt_sys \<Rightarrow> nat" where
  "shrinks s \<equiv> length (shrink_times s)"

abbreviation expands :: "'a dt_sys \<Rightarrow> nat" where
  "expands s \<equiv> length (expand_times s)"

definition set_wpc :: "nat \<Rightarrow> 'a dt_worker_pc \<Rightarrow> 'a dt_sys \<Rightarrow> 'a dt_sys" where
  "set_wpc w pc s = s\<lparr>wpc := (wpc s)(w := pc)\<rparr>"

definition set_cpc :: "nat \<Rightarrow> 'a dt_caller_pc \<Rightarrow> 'a dt_sys \<Rightarrow> 'a dt_sys" where
  "set_cpc c pc s = s\<lparr>cpc := (cpc s)(c := pc)\<rparr>"

definition dt_take_step :: "nat \<Rightarrow> 'a dt_sys \<Rightarrow> 'a dt_sys" where
  "dt_take_step w s = (case worker_take (dpool s) of
     (None, p) \<Rightarrow> set_wpc w DShrink s
   | (Some x, p) \<Rightarrow> set_wpc w (DRun x) (s\<lparr>dpool := p, dt_taken := dt_taken s @ [x]\<rparr>))"

text \<open>The next step of a worker: \<^verbatim>\<open>workerLoop\<close> and \<^verbatim>\<open>tryShrink\<close>.\<close>

definition dt_worker_step :: "nat \<Rightarrow> 'a dt_sys \<Rightarrow> 'a dt_sys option" where
  "dt_worker_step w s = (case wpc s w of
     DNone \<Rightarrow> None
   | DGone \<Rightarrow> None
   | DNew \<Rightarrow> Some (set_wpc w DTop (s\<lparr>last_active := (last_active s)(w := clock s)\<rparr>))
   | DTop \<Rightarrow> Some (if worker_must_wait (dpool s) then set_wpc w DWait s else dt_take_step w s)
   | DWait \<Rightarrow> Some (case worker_woken (clock s) (last_active s w) (dpool s) of (ends, p) \<Rightarrow>
       if ends then set_wpc w DGone (s\<lparr>dpool := p\<rparr>) else dt_take_step w s)
   | DRun x \<Rightarrow> Some (set_wpc w DShrink (s\<lparr>dt_executed := dt_executed s @ [x], last_active := (last_active s)(w := clock s)\<rparr>))
   | DShrink \<Rightarrow> Some (set_wpc w (if tryShrink_fast (clock s) (dpool s) then DShrinkSlow (clock s) else DTop) s)
   | DShrinkSlow now \<Rightarrow> Some (case tryShrink_slow now (last_active s w) (dpool s) of (shrunk, p) \<Rightarrow>
       set_wpc w DTop (s\<lparr>dpool := p, shrink_times := (if shrunk then shrink_times s @ [now] else shrink_times s)\<rparr>)))"

text \<open>The next step of a thread inside \<^verbatim>\<open>submit\<close> or the destructor.\<close>

definition dt_caller_step :: "nat \<Rightarrow> 'a dt_sys \<Rightarrow> 'a dt_sys option" where
  "dt_caller_step c s = (case cpc s c of
     CIdle \<Rightarrow> None
   | CPush x now \<Rightarrow> Some (set_cpc c CExpand (s\<lparr>dpool := DynamicThreadPool_submit x now (dpool s), dt_accepted := dt_accepted s @ [x]\<rparr>))
   | CExpand \<Rightarrow> Some (set_cpc c (if tryExpand_fast (clock s) (dpool s) then CExpandSlow (clock s) else CIdle) s)
   | CExpandSlow now \<Rightarrow> (case tryExpand_slow now (dpool s) of
       Inl e \<Rightarrow> None
     | Inr (spawned, p) \<Rightarrow> Some (set_cpc c CIdle (if spawned
         then s\<lparr>dpool := p, workers := workers s + 1, wpc := (wpc s)(workers s := DNew), expand_times := expand_times s @ [now]\<rparr> else s)))
   | CPoll \<Rightarrow> Some (if stopAll_finished (dpool s) then s\<lparr>destroyed := True\<rparr> else s))"

datatype 'a dt_action = Tick nat | Worker nat | Submit nat 'a | Caller nat | Destroy nat

definition dt_exec :: "'a dt_action \<Rightarrow> 'a dt_sys \<Rightarrow> 'a dt_sys option" where
  "dt_exec a s = (if destroyed s then None else case a of
     Tick d \<Rightarrow> Some (s\<lparr>clock := clock s + int d\<rparr>)
   | Worker w \<Rightarrow> dt_worker_step w s
   | Submit c x \<Rightarrow> if cpc s c = CIdle then Some (set_cpc c (CPush x (clock s)) s) else None
   | Caller c \<Rightarrow> dt_caller_step c s
   | Destroy c \<Rightarrow> if cpc s c = CIdle then Some (set_cpc c CPoll (s\<lparr>dpool := stopAll_begin (dpool s)\<rparr>)) else None)"

definition dt_step :: "'a dt_sys \<Rightarrow> 'a dt_sys \<Rightarrow> bool" where
  "dt_step s t \<longleftrightarrow> (\<exists>a. dt_exec a s = Some t)"

definition dt_init :: "bool \<Rightarrow> Config \<Rightarrow> int \<Rightarrow> 'a dt_sys \<Rightarrow> bool" where
  "dt_init nd cfg t0 s \<longleftrightarrow> DynamicThreadPool_new nd cfg t0 = Inr (dpool s) \<and> clock s = t0 \<and> workers s = cfg_initialThreads cfg \<and>
     wpc s = (\<lambda>w. if w < cfg_initialThreads cfg then DNew else DNone) \<and> cpc s = (\<lambda>_. CIdle) \<and> \<not> destroyed s \<and>
     dt_accepted s = [] \<and> dt_taken s = [] \<and> dt_executed s = [] \<and> shrink_times s = [] \<and> expand_times s = []"

section \<open>Invariant\<close>

definition Config_valid :: "Config \<Rightarrow> bool" where
  "Config_valid cfg \<longleftrightarrow> cfg_minThreads cfg \<le> cfg_initialThreads cfg \<and> cfg_initialThreads cfg \<le> cfg_maxThreads cfg \<and>
     cfg_maxThreads cfg < size_mod \<and> 0 \<le> cfg_expandCooldown cfg \<and> 0 \<le> cfg_shrinkCooldown cfg"

text \<open>Threads that have not ended, and the tasks being run.\<close>

definition alive :: "'a dt_sys \<Rightarrow> nat set" where
  "alive s = {w. w < workers s \<and> wpc s w \<noteq> DGone}"

fun running_task :: "'a dt_worker_pc \<Rightarrow> 'a multiset" where
  "running_task (DRun x) = {#x#}"
| "running_task _ = {#}"

definition in_flight :: "'a dt_sys \<Rightarrow> 'a multiset" where
  "in_flight s = (\<Sum>w<workers s. running_task (wpc s w))"

text \<open>The accounts of tasks, of threads and of the cool-down periods.\<close>

definition dt_tasks_ok :: "'a dt_sys \<Rightarrow> bool" where
  "dt_tasks_ok s \<longleftrightarrow> dt_accepted s = dt_taken s @ map te_task (dt_tasks (dpool s)) \<and>
     mset (dt_taken s) = mset (dt_executed s) + in_flight s"

definition dt_threads_ok :: "Config \<Rightarrow> 'a dt_sys \<Rightarrow> bool" where
  "dt_threads_ok cfg s \<longleftrightarrow> (\<forall>w. wpc s w = DNone \<longleftrightarrow> workers s \<le> w) \<and> workers s = cfg_initialThreads cfg + expands s \<and>
     dt_threads (dpool s) < size_mod \<and> (dt_threads (dpool s) + shrinks s) mod size_mod = card (alive s) mod size_mod \<and>
     (\<not> dt_stop (dpool s) \<longrightarrow> cfg_minThreads cfg \<le> dt_threads (dpool s) \<and> dt_threads (dpool s) \<le> cfg_maxThreads cfg \<and>
        dt_threads (dpool s) + shrinks s = card (alive s))"

text \<open>Any two of the times lie at least \<open>d\<close> apart, the later ones later in the list.\<close>

definition times_apart :: "int \<Rightarrow> int list \<Rightarrow> bool" where
  "times_apart d ts \<longleftrightarrow> (\<forall>i j. i < j \<longrightarrow> j < length ts \<longrightarrow> ts ! i + d \<le> ts ! j)"

lemma times_apart_append:
  assumes "times_apart d ts" and "\<forall>x \<in> set ts. x \<le> lt0" and "lt0 + d \<le> now"
  shows "times_apart d (ts @ [now])"
  unfolding times_apart_def
proof (intro allI impI)
  fix i j assume ij: "i < j" "j < length (ts @ [now])"
  show "(ts @ [now]) ! i + d \<le> (ts @ [now]) ! j"
  proof (cases "j < length ts")
    case True
    with ij assms(1) show ?thesis by (simp add: times_apart_def nth_append)
  next
    case False
    with ij have "j = length ts" "i < length ts" by auto
    moreover from this assms(2) have "ts ! i \<le> lt0" by simp
    ultimately show ?thesis using assms(3) by (simp add: nth_append)
  qed
qed

definition dt_times_ok :: "Config \<Rightarrow> int \<Rightarrow> 'a dt_sys \<Rightarrow> bool" where
  "dt_times_ok cfg t0 s \<longleftrightarrow> lastExpandTime (dpool s) \<le> clock s \<and> lastShrinkTime (dpool s) \<le> clock s \<and>
     int (expands s) * ns_of_s (cfg_expandCooldown cfg) \<le> lastExpandTime (dpool s) - t0 + ns_of_s (cfg_expandCooldown cfg) \<and>
     int (shrinks s) * ns_of_s (cfg_shrinkCooldown cfg) \<le> lastShrinkTime (dpool s) - t0 + ns_of_s (cfg_shrinkCooldown cfg) \<and>
     (\<forall>x \<in> set (expand_times s). x \<le> lastExpandTime (dpool s)) \<and> (\<forall>x \<in> set (shrink_times s). x \<le> lastShrinkTime (dpool s)) \<and>
     times_apart (ns_of_s (cfg_expandCooldown cfg)) (expand_times s) \<and> times_apart (ns_of_s (cfg_shrinkCooldown cfg)) (shrink_times s) \<and>
     (\<forall>c now. cpc s c = CExpandSlow now \<longrightarrow> now \<le> clock s) \<and> (\<forall>w now. wpc s w = DShrinkSlow now \<longrightarrow> now \<le> clock s)"

definition dt_inv :: "Config \<Rightarrow> int \<Rightarrow> 'a dt_sys \<Rightarrow> bool" where
  "dt_inv cfg t0 s \<longleftrightarrow> dt_config (dpool s) = cfg \<and> dt_tasks_ok s \<and> dt_threads_ok cfg s \<and> dt_times_ok cfg t0 s"

lemma cooldown_over:
  assumes "0 \<le> d" and "times_apart (ns_of_s d) ts" and "\<forall>x \<in> set ts. x \<le> lt0" and "\<not> now - lt0 < ns_of_s d"
  shows "times_apart (ns_of_s d) (ts @ [now])" and "\<forall>x \<in> set (ts @ [now]). x \<le> now"
proof -
  show "times_apart (ns_of_s d) (ts @ [now])" by (rule times_apart_append [OF assms(2,3)]) (use assms(4) in simp)
  have "lt0 \<le> now" using assms(1,4) by (simp add: ns_of_s_def)
  with assms(3) show "\<forall>x \<in> set (ts @ [now]). x \<le> now" by auto
qed

lemma times_shrink:
  assumes "dt_times_ok cfg t0 s" and "Config_valid cfg" and "\<not> now - lastShrinkTime (dpool s) < ns_of_s (cfg_shrinkCooldown cfg)"
  shows "times_apart (ns_of_s (cfg_shrinkCooldown cfg)) (shrink_times s @ [now])" and "\<forall>x \<in> set (shrink_times s @ [now]). x \<le> now"
  using cooldown_over [of "cfg_shrinkCooldown cfg" "shrink_times s" "lastShrinkTime (dpool s)" now] assms
  by (simp_all add: dt_times_ok_def Config_valid_def)

lemma times_expand:
  assumes "dt_times_ok cfg t0 s" and "Config_valid cfg" and "\<not> now - lastExpandTime (dpool s) < ns_of_s (cfg_expandCooldown cfg)"
  shows "times_apart (ns_of_s (cfg_expandCooldown cfg)) (expand_times s @ [now])" and "\<forall>x \<in> set (expand_times s @ [now]). x \<le> now"
  using cooldown_over [of "cfg_expandCooldown cfg" "expand_times s" "lastExpandTime (dpool s)" now] assms
  by (simp_all add: dt_times_ok_def Config_valid_def)

lemma alive_finite [simp]: "finite (alive s)"
  by (rule finite_subset [of _ "{..<workers s}"]) (auto simp: alive_def)

lemma alive_cong: "workers s' = workers s \<Longrightarrow> wpc s' = wpc s \<Longrightarrow> alive s' = alive s"
  by (simp add: alive_def)

lemma alive_update:
  assumes "w < workers s" "wpc s w \<noteq> DGone" "workers s' = workers s" "wpc s' = (wpc s)(w := pc)"
  shows "pc \<noteq> DGone \<Longrightarrow> alive s' = alive s" "pc = DGone \<Longrightarrow> Suc (card (alive s')) = card (alive s)"
proof -
  show "pc \<noteq> DGone \<Longrightarrow> alive s' = alive s" using assms by (auto simp: alive_def)
  assume "pc = DGone"
  then have "alive s' = alive s - {w}" "w \<in> alive s" using assms by (auto simp: alive_def)
  then show "Suc (card (alive s')) = card (alive s)" by (metis alive_finite card_Suc_Diff1)
qed

lemma alive_spawn:
  assumes "workers s' = workers s + 1" "wpc s' = (wpc s)(workers s := DNew)"
  shows "card (alive s') = Suc (card (alive s))"
proof -
  have "alive s' = insert (workers s) (alive s)" "workers s \<notin> alive s" using assms by (auto simp: alive_def)
  then show ?thesis by simp
qed

lemma in_flight_update:
  assumes "w < workers s" "workers s' = workers s" "wpc s' = (wpc s)(w := pc)"
  shows "in_flight s' + running_task (wpc s w) = in_flight s + running_task pc"
proof -
  have *: "in_flight s = running_task (wpc s w) + (\<Sum>i \<in> {..<workers s} - {w}. running_task (wpc s i))"
    unfolding in_flight_def using assms(1) by (intro sum.remove) auto
  have "in_flight s' = running_task pc + (\<Sum>i \<in> {..<workers s} - {w}. running_task (wpc s' i))"
    unfolding in_flight_def using assms by (subst sum.remove [of _ w]) auto
  also have "(\<Sum>i \<in> {..<workers s} - {w}. running_task (wpc s' i)) = (\<Sum>i \<in> {..<workers s} - {w}. running_task (wpc s i))"
    using assms(3) by (intro sum.cong) auto
  finally show ?thesis using * by simp
qed

lemma in_flight_spawn:
  assumes "workers s' = workers s + 1" "wpc s' = (wpc s)(workers s := DNew)"
  shows "in_flight s' = in_flight s"
proof -
  have "(\<Sum>w<workers s. running_task (wpc s' w)) = (\<Sum>w<workers s. running_task (wpc s w))"
    using assms(2) by (intro sum.cong) auto
  then show ?thesis using assms by (simp add: in_flight_def)
qed

lemma mod_pred:
  assumes "(a + b) mod size_mod = Suc l mod size_mod"
  shows "(szsub a 1 + b) mod size_mod = l mod size_mod"
proof -
  have "int size_mod dvd int (a + b) - int (Suc l)"
    using assms by (metis mod_eq_dvd_iff of_nat_mod)
  then have "int size_mod dvd (int (a + b) - int (Suc l)) + int size_mod" by simp
  moreover have "(int (a + b) - int (Suc l)) + int size_mod = int (a + size_mod - 1 + b) - int l"
    by (cases size_mod) (use size_mod_pos in auto)
  ultimately have "(a + size_mod - 1 + b) mod size_mod = l mod size_mod"
    by (metis mod_eq_dvd_iff of_nat_mod of_nat_eq_iff)
  then show ?thesis by (simp add: szsub_def mod_add_left_eq)
qed

lemma dt_invD:
  assumes "dt_inv cfg t0 s"
  shows "dt_config (dpool s) = cfg" "dt_accepted s = dt_taken s @ map te_task (dt_tasks (dpool s))"
    "mset (dt_taken s) = mset (dt_executed s) + in_flight s" "\<And>w. wpc s w = DNone \<longleftrightarrow> workers s \<le> w"
    "workers s = cfg_initialThreads cfg + expands s" "dt_threads (dpool s) < size_mod"
    "(dt_threads (dpool s) + shrinks s) mod size_mod = card (alive s) mod size_mod"
    "\<not> dt_stop (dpool s) \<Longrightarrow> cfg_minThreads cfg \<le> dt_threads (dpool s)"
    "\<not> dt_stop (dpool s) \<Longrightarrow> dt_threads (dpool s) \<le> cfg_maxThreads cfg"
    "\<not> dt_stop (dpool s) \<Longrightarrow> dt_threads (dpool s) + shrinks s = card (alive s)" "dt_times_ok cfg t0 s"
  using assms unfolding dt_inv_def dt_tasks_ok_def dt_threads_ok_def by blast+

lemma dt_inv_dead: "dt_inv cfg t0 s \<Longrightarrow> wpc s w \<noteq> DNone \<Longrightarrow> w < workers s"
  using dt_invD(4) by (meson not_le)

lemma dt_threads_okI:
  assumes "\<And>w. wpc s w = DNone \<longleftrightarrow> workers s \<le> w" "workers s = cfg_initialThreads cfg + expands s"
    "dt_threads (dpool s) < size_mod" "(dt_threads (dpool s) + shrinks s) mod size_mod = card (alive s) mod size_mod"
    "\<not> dt_stop (dpool s) \<Longrightarrow> cfg_minThreads cfg \<le> dt_threads (dpool s) \<and> dt_threads (dpool s) \<le> cfg_maxThreads cfg \<and>
      dt_threads (dpool s) + shrinks s = card (alive s)"
  shows "dt_threads_ok cfg s"
  unfolding dt_threads_ok_def using assms by blast

text \<open>A worker moves on, the number of threads and the cool-down clocks stay.\<close>

lemma dt_inv_move:
  assumes inv: "dt_inv cfg t0 s" and w: "wpc s w \<noteq> DNone" "wpc s w \<noteq> DGone" and pc: "pc \<noteq> DNone" "pc \<noteq> DGone" "\<And>now. pc = DShrinkSlow now \<Longrightarrow> now \<le> clock s"
    and s': "wpc s' = (wpc s)(w := pc)" "workers s' = workers s" "clock s' = clock s" "cpc s' = cpc s" "shrink_times s' = shrink_times s"
      "expand_times s' = expand_times s" "dt_config (dpool s') = dt_config (dpool s)" "dt_threads (dpool s') = dt_threads (dpool s)"
      "dt_stop (dpool s') = dt_stop (dpool s)" "lastExpandTime (dpool s') = lastExpandTime (dpool s)"
      "lastShrinkTime (dpool s') = lastShrinkTime (dpool s)"
    and tasks: "dt_tasks_ok s'"
  shows "dt_inv cfg t0 s'"
proof -
  note I = dt_invD [OF inv]
  have lt: "w < workers s" using dt_inv_dead [OF inv w(1)] .
  have "alive s' = alive s" by (rule alive_update(1) [OF lt w(2) s'(2,1) pc(2)])
  then have "dt_threads_ok cfg s'"
    by (intro dt_threads_okI) (use I(4-10) lt pc(1) in \<open>auto simp: s'\<close>)
  moreover have "dt_times_ok cfg t0 s'" using I(11) pc(3) by (auto simp: dt_times_ok_def s' split: if_splits)
  ultimately show ?thesis using tasks I(1) by (simp add: dt_inv_def s')
qed

lemma dt_tasks_okI:
  assumes inv: "dt_inv cfg t0 s" and w: "wpc s w \<noteq> DNone" and s': "wpc s' = (wpc s)(w := pc)" "workers s' = workers s"
    "dt_accepted s' = dt_taken s' @ map te_task (dt_tasks (dpool s'))"
    and acc: "mset (dt_taken s') + mset (dt_executed s) + running_task (wpc s w) = mset (dt_taken s) + mset (dt_executed s') + running_task pc"
  shows "dt_tasks_ok s'"
proof -
  note I = dt_invD [OF inv]
  have "in_flight s' + running_task (wpc s w) = in_flight s + running_task pc"
    by (rule in_flight_update [OF dt_inv_dead [OF inv w] s'(2,1)])
  then have "mset (dt_taken s') + (mset (dt_executed s) + running_task (wpc s w)) =
      (mset (dt_executed s') + in_flight s') + (mset (dt_executed s) + running_task (wpc s w))"
    using acc I(3) by (simp add: ac_simps)
  then show ?thesis using s'(3) by (simp add: dt_tasks_ok_def)
qed

lemma dt_inv_take:
  assumes inv: "dt_inv cfg t0 s" and w: "wpc s w = DTop \<or> wpc s w = DWait"
  shows "dt_inv cfg t0 (dt_take_step w s)"
proof -
  note I = dt_invD [OF inv]
  have w1: "wpc s w \<noteq> DNone" "wpc s w \<noteq> DGone" and r: "running_task (wpc s w) = {#}" using w by auto
  show ?thesis
  proof (cases "dt_tasks (dpool s)")
    case Nil
    then have t: "dt_take_step w s = set_wpc w DShrink s" by (simp add: dt_take_step_def worker_take_def)
    have "dt_tasks_ok (set_wpc w DShrink s)"
      by (rule dt_tasks_okI [OF inv w1(1), where pc = DShrink]) (use I(2) r in \<open>simp_all add: set_wpc_def\<close>)
    then show ?thesis unfolding t
      by (intro dt_inv_move [OF inv w1, where pc = DShrink]) (simp_all add: set_wpc_def)
  next
    case (Cons e es)
    let ?s = "set_wpc w (DRun (te_task e)) (s\<lparr>dpool := (dpool s)\<lparr>dt_tasks := es\<rparr>, dt_taken := dt_taken s @ [te_task e]\<rparr>)"
    have t: "dt_take_step w s = ?s" using Cons by (simp add: dt_take_step_def worker_take_def)
    have "dt_tasks_ok ?s"
      by (rule dt_tasks_okI [OF inv w1(1), where pc = "DRun (te_task e)"]) (use I(2) r Cons in \<open>simp_all add: set_wpc_def\<close>)
    then show ?thesis unfolding t
      by (intro dt_inv_move [OF inv w1, where pc = "DRun (te_task e)"]) (simp_all add: set_wpc_def)
  qed
qed

text \<open>A worker ends, having taken itself off the count.\<close>

lemma dt_inv_exit:
  assumes inv: "dt_inv cfg t0 s" and w: "wpc s w = DWait" and one: "worker_woken now la (dpool s) = (True, p)"
  shows "dt_inv cfg t0 (set_wpc w DGone (s\<lparr>dpool := p\<rparr>))" (is "dt_inv cfg t0 ?s")
proof -
  note I = dt_invD [OF inv]
  have w1: "wpc s w \<noteq> DNone" "wpc s w \<noteq> DGone" using w by auto
  have lt: "w < workers s" using dt_inv_dead [OF inv w1(1)] .
  have p: "p = (dpool s)\<lparr>dt_threads := szsub (dt_threads (dpool s)) 1\<rparr>"
    and more: "\<not> dt_stop (dpool s) \<Longrightarrow> cfg_minThreads cfg < dt_threads (dpool s)"
    using one I(1) by (auto simp: worker_woken_def split: if_splits)
  have fewer: "Suc (card (alive ?s)) = card (alive s)"
    by (rule alive_update(2) [OF lt w1(2), where pc = DGone]) (simp_all add: set_wpc_def)
  have "dt_tasks_ok ?s"
    by (rule dt_tasks_okI [OF inv w1(1), where pc = DGone]) (use I(2) w p in \<open>simp_all add: set_wpc_def\<close>)
  moreover have "dt_threads_ok cfg ?s"
  proof (rule dt_threads_okI)
    show "(dt_threads (dpool ?s) + shrinks ?s) mod size_mod = card (alive ?s) mod size_mod"
      using mod_pred [of "dt_threads (dpool s)" "shrinks s" "card (alive ?s)"] I(7) fewer p by (simp add: set_wpc_def)
    show "cfg_minThreads cfg \<le> dt_threads (dpool ?s) \<and> dt_threads (dpool ?s) \<le> cfg_maxThreads cfg \<and>
        dt_threads (dpool ?s) + shrinks ?s = card (alive ?s)" if "\<not> dt_stop (dpool ?s)"
    proof -
      have ns: "\<not> dt_stop (dpool s)" using that p by (simp add: set_wpc_def)
      have "szsub (dt_threads (dpool s)) 1 = dt_threads (dpool s) - 1"
        using more [OF ns] I(6) by (intro szsub_no_wrap) auto
      then have "dt_threads (dpool ?s) = dt_threads (dpool s) - 1" "shrinks ?s = shrinks s" using p by (simp_all add: set_wpc_def)
      then show ?thesis using more [OF ns] I(9,10) [OF ns] fewer by linarith
    qed
    show "dt_threads (dpool ?s) < size_mod" using p by (simp add: set_wpc_def szsub_def)
  qed (use I(4,5) lt in \<open>auto simp: set_wpc_def\<close>)
  moreover have "dt_times_ok cfg t0 ?s" using I(11) p by (auto simp: dt_times_ok_def set_wpc_def)
  ultimately show ?thesis using I(1) p by (simp add: dt_inv_def set_wpc_def)
qed

text \<open>\<^verbatim>\<open>tryShrink\<close> takes one off the count while the worker goes on.\<close>

lemma dt_inv_shrink:
  assumes inv: "dt_inv cfg t0 s" and w: "wpc s w = DShrinkSlow now" and one: "tryShrink_slow now la (dpool s) = (True, p)"
    and cfg: "Config_valid cfg"
  shows "dt_inv cfg t0 (set_wpc w DTop (s\<lparr>dpool := p, shrink_times := shrink_times s @ [now]\<rparr>))" (is "dt_inv cfg t0 ?s")
proof -
  note I = dt_invD [OF inv]
  have w1: "wpc s w \<noteq> DNone" "wpc s w \<noteq> DGone" using w by auto
  have lt: "w < workers s" using dt_inv_dead [OF inv w1(1)] .
  have p0: "p = (dpool s)\<lparr>dt_threads := szsub (dt_threads (dpool s)) 1, lastShrinkTime := now\<rparr>"
    and more: "cfg_minThreads cfg < dt_threads (dpool s)" and cool: "\<not> now - lastShrinkTime (dpool s) < ns_of_s (cfg_shrinkCooldown cfg)"
    using one I(1) by (auto simp: tryShrink_slow_def split: if_splits)
  have "szsub (dt_threads (dpool s)) 1 = dt_threads (dpool s) - 1"
    using more I(6) by (intro szsub_no_wrap) auto
  then have p: "p = (dpool s)\<lparr>dt_threads := dt_threads (dpool s) - 1, lastShrinkTime := now\<rparr>" using p0 by simp
  have al: "alive ?s = alive s"
    by (rule alive_update(1) [OF lt w1(2), where pc = DTop]) (simp_all add: set_wpc_def)
  have sum: "dt_threads (dpool ?s) + shrinks ?s = dt_threads (dpool s) + shrinks s"
    using p more by (simp add: set_wpc_def)
  have "dt_tasks_ok ?s"
    by (rule dt_tasks_okI [OF inv w1(1), where pc = DTop]) (use I(2) w p in \<open>simp_all add: set_wpc_def\<close>)
  moreover have "dt_threads_ok cfg ?s"
  proof (rule dt_threads_okI)
    show "(dt_threads (dpool ?s) + shrinks ?s) mod size_mod = card (alive ?s) mod size_mod" unfolding sum al by (rule I(7))
    show "cfg_minThreads cfg \<le> dt_threads (dpool ?s) \<and> dt_threads (dpool ?s) \<le> cfg_maxThreads cfg \<and>
        dt_threads (dpool ?s) + shrinks ?s = card (alive ?s)" if "\<not> dt_stop (dpool ?s)"
    proof -
      have "\<not> dt_stop (dpool s)" using that p by (simp add: set_wpc_def)
      moreover have "dt_threads (dpool ?s) = dt_threads (dpool s) - 1" using p by (simp add: set_wpc_def)
      ultimately show ?thesis unfolding sum al using more I(9,10) by linarith
    qed
    show "dt_threads (dpool ?s) < size_mod" using p I(6) by (simp add: set_wpc_def)
  qed (use I(4,5) lt in \<open>auto simp: set_wpc_def\<close>)
  moreover have "dt_times_ok cfg t0 ?s"
    using times_shrink [OF I(11) cfg, of now] p w cool I(11) by (auto simp: dt_times_ok_def set_wpc_def distrib_right)
  ultimately show ?thesis using I(1) p by (simp add: dt_inv_def set_wpc_def)
qed

lemma dt_inv_expand:
  assumes inv: "dt_inv cfg t0 s" and cfg: "Config_valid cfg" and c: "cpc s c = CExpandSlow now"
    and one: "tryExpand_slow now (dpool s) = Inr (True, p)"
  shows "dt_inv cfg t0 (set_cpc c CIdle
      (s\<lparr>dpool := p, workers := workers s + 1, wpc := (wpc s)(workers s := DNew), expand_times := expand_times s @ [now]\<rparr>))" (is "dt_inv cfg t0 ?s")
proof -
  note I = dt_invD [OF inv]
  have p0: "p = (dpool s)\<lparr>dt_threads := szadd (dt_threads (dpool s)) 1, lastExpandTime := now\<rparr>"
    and less: "dt_threads (dpool s) < cfg_maxThreads cfg" and cool: "\<not> now - lastExpandTime (dpool s) < ns_of_s (cfg_expandCooldown cfg)"
    using one I(1) by (auto simp: tryExpand_slow_def DynamicThreadPool_spawnOne_def split: if_splits)
  have bound: "cfg_maxThreads cfg < size_mod" using cfg by (simp add: Config_valid_def)
  then have "szadd (dt_threads (dpool s)) 1 = dt_threads (dpool s) + 1"
    using less by (intro szadd_no_wrap) auto
  then have p: "p = (dpool s)\<lparr>dt_threads := dt_threads (dpool s) + 1, lastExpandTime := now\<rparr>" using p0 by simp
  have al: "card (alive ?s) = Suc (card (alive s))" by (rule alive_spawn) (simp_all add: set_cpc_def)
  have fl: "in_flight ?s = in_flight s" by (rule in_flight_spawn) (simp_all add: set_cpc_def)
  have "dt_tasks_ok ?s" using I(2,3) fl p by (simp add: dt_tasks_ok_def set_cpc_def)
  moreover have "dt_threads_ok cfg ?s"
  proof (rule dt_threads_okI)
    have "(dt_threads (dpool s) + 1 + shrinks s) mod size_mod = Suc (card (alive s)) mod size_mod"
      using mod_add_cong [OF I(7) refl [of "1 mod size_mod"]] by (simp add: ac_simps)
    then show "(dt_threads (dpool ?s) + shrinks ?s) mod size_mod = card (alive ?s) mod size_mod"
      unfolding al using p by (simp add: set_cpc_def)
    show "cfg_minThreads cfg \<le> dt_threads (dpool ?s) \<and> dt_threads (dpool ?s) \<le> cfg_maxThreads cfg \<and>
        dt_threads (dpool ?s) + shrinks ?s = card (alive ?s)" if "\<not> dt_stop (dpool ?s)"
    proof -
      have "\<not> dt_stop (dpool s)" using that p by (simp add: set_cpc_def)
      then show ?thesis unfolding al using less I(8,10) p by (simp add: set_cpc_def)
    qed
    show "dt_threads (dpool ?s) < size_mod" using p less bound by (simp add: set_cpc_def)
    show "wpc ?s w = DNone \<longleftrightarrow> workers ?s \<le> w" for w using I(4) [of w] by (auto simp: set_cpc_def)
  qed (use I(5) in \<open>simp add: set_cpc_def\<close>)
  moreover have "dt_times_ok cfg t0 ?s"
    using times_expand [OF I(11) cfg, of now] p c cool I(11) by (auto simp: dt_times_ok_def set_cpc_def distrib_right)
  ultimately show ?thesis using I(1) p by (simp add: dt_inv_def set_cpc_def)
qed

text \<open>Steps that leave workers and their number alone.\<close>

lemma dt_inv_caller:
  assumes inv: "dt_inv cfg t0 s"
    and s': "wpc s' = wpc s" "workers s' = workers s" "clock s \<le> clock s'" "shrink_times s' = shrink_times s" "expand_times s' = expand_times s"
      "dt_config (dpool s') = dt_config (dpool s)" "dt_threads (dpool s') = dt_threads (dpool s)" "lastExpandTime (dpool s') = lastExpandTime (dpool s)"
      "lastShrinkTime (dpool s') = lastShrinkTime (dpool s)" "dt_stop (dpool s) \<longrightarrow> dt_stop (dpool s')" "dt_taken s' = dt_taken s" "dt_executed s' = dt_executed s"
    and acc: "dt_accepted s' = dt_taken s @ map te_task (dt_tasks (dpool s'))"
    and c: "\<And>c now. cpc s' c = CExpandSlow now \<Longrightarrow> cpc s c = CExpandSlow now \<or> now \<le> clock s"
  shows "dt_inv cfg t0 s'"
proof -
  note I = dt_invD [OF inv]
  have "dt_tasks_ok s'" using acc I(3) by (simp add: dt_tasks_ok_def in_flight_def s')
  moreover have "dt_threads_ok cfg s'"
    by (intro dt_threads_okI) (use I(4-10) s'(10) in \<open>auto simp: s' alive_cong [OF s'(2,1)]\<close>)
  moreover have "dt_times_ok cfg t0 s'"
    unfolding dt_times_ok_def
  proof (intro conjI allI impI ballI)
    note T = I(11) [unfolded dt_times_ok_def]
    show "lastExpandTime (dpool s') \<le> clock s'" "lastShrinkTime (dpool s') \<le> clock s'" using T s'(3) by (simp_all add: s'(8,9))
    show "int (expands s') * ns_of_s (cfg_expandCooldown cfg) \<le> lastExpandTime (dpool s') - t0 + ns_of_s (cfg_expandCooldown cfg)"
      "int (shrinks s') * ns_of_s (cfg_shrinkCooldown cfg) \<le> lastShrinkTime (dpool s') - t0 + ns_of_s (cfg_shrinkCooldown cfg)"
      using T by (simp_all add: s'(4,5,8,9))
    show "x \<le> lastExpandTime (dpool s')" if "x \<in> set (expand_times s')" for x using T that by (simp add: s'(5,8))
    show "x \<le> lastShrinkTime (dpool s')" if "x \<in> set (shrink_times s')" for x using T that by (simp add: s'(4,9))
    show "times_apart (ns_of_s (cfg_expandCooldown cfg)) (expand_times s')" "times_apart (ns_of_s (cfg_shrinkCooldown cfg)) (shrink_times s')"
      using T by (simp_all add: s'(4,5))
    show "now \<le> clock s'" if "cpc s' c = CExpandSlow now" for c now using c [OF that] T s'(3) by force
    show "now \<le> clock s'" if "wpc s' w = DShrinkSlow now" for w now using that T s'(3) unfolding s'(1) by force
  qed
  ultimately show ?thesis using I(1) by (simp add: dt_inv_def s'(6))
qed

lemma dt_inv_worker:
  assumes inv: "dt_inv cfg t0 s" and cfg: "Config_valid cfg" and step: "dt_worker_step w s = Some t"
  shows "dt_inv cfg t0 t"
proof -
  note I = dt_invD [OF inv]
  note move = dt_inv_move [OF inv, where w = w]
  have plain: "dt_inv cfg t0 t" if "wpc s w \<noteq> DNone" "wpc s w \<noteq> DGone" "running_task (wpc s w) = {#}" "running_task pc = {#}" "pc \<noteq> DNone" "pc \<noteq> DGone"
      "\<And>now. pc = DShrinkSlow now \<Longrightarrow> now \<le> clock s" "t = set_wpc w pc (s\<lparr>last_active := la\<rparr>)" for pc la
  proof -
    have "dt_tasks_ok t" by (rule dt_tasks_okI [OF inv that(1), where pc = pc]) (use I(2) that in \<open>simp_all add: set_wpc_def\<close>)
    then show ?thesis by (intro move [where pc = pc]) (use that in \<open>simp_all add: set_wpc_def\<close>)
  qed
  show ?thesis
  proof (cases "wpc s w")
    case DNew
    then show ?thesis using step by (intro plain [where pc = DTop]) (auto simp: dt_worker_step_def)
  next
    case DTop
    then show ?thesis
      using step plain [where pc = DWait and la = "last_active s"] dt_inv_take [OF inv, of w] by (auto simp: dt_worker_step_def split: if_splits)
  next
    case DWait
    obtain ends p where e: "worker_woken (clock s) (last_active s w) (dpool s) = (ends, p)" by fastforce
    then show ?thesis
      using DWait step dt_inv_take [OF inv, of w] dt_inv_exit [OF inv DWait] by (cases ends) (auto simp: dt_worker_step_def)
  next
    case (DRun x)
    then have t: "t = set_wpc w DShrink (s\<lparr>dt_executed := dt_executed s @ [x], last_active := (last_active s)(w := clock s)\<rparr>)"
      using step by (simp add: dt_worker_step_def)
    have "dt_tasks_ok t" unfolding t
      by (rule dt_tasks_okI [OF inv, where w = w and pc = DShrink]) (use I(2) DRun in \<open>simp_all add: set_wpc_def\<close>)
    then show ?thesis by (intro move [where pc = DShrink]) (use DRun t in \<open>simp_all add: set_wpc_def\<close>)
  next
    case DShrink
    then show ?thesis using step
      by (intro plain [where pc = "if tryShrink_fast (clock s) (dpool s) then DShrinkSlow (clock s) else DTop" and la = "last_active s"])
        (auto simp: dt_worker_step_def split: if_splits)
  next
    case (DShrinkSlow now)
    obtain sh p where e: "tryShrink_slow now (last_active s w) (dpool s) = (sh, p)" by fastforce
    show ?thesis
    proof (cases sh)
      case True
      then show ?thesis using DShrinkSlow step e dt_inv_shrink [OF inv DShrinkSlow _ cfg] by (auto simp: dt_worker_step_def)
    next
      case False
      then have "p = dpool s" using e by (auto simp: tryShrink_slow_def split: if_splits)
      then show ?thesis using DShrinkSlow step e False by (intro plain [where pc = DTop and la = "last_active s"]) (auto simp: dt_worker_step_def)
    qed
  qed (use step in \<open>auto simp: dt_worker_step_def\<close>)
qed

lemma dt_inv_caller_step:
  assumes inv: "dt_inv cfg t0 s" and cfg: "Config_valid cfg" and step: "dt_caller_step c s = Some t"
  shows "dt_inv cfg t0 t"
proof -
  note I = dt_invD [OF inv]
  note same = dt_inv_caller [OF inv]
  show ?thesis
  proof (cases "cpc s c")
    case (CPush x now)
    then have "t = set_cpc c CExpand (s\<lparr>dpool := DynamicThreadPool_submit x now (dpool s), dt_accepted := dt_accepted s @ [x]\<rparr>)"
      using step by (simp add: dt_caller_step_def)
    then show ?thesis
      by (intro same) (use I(2) in \<open>auto simp: set_cpc_def DynamicThreadPool_submit_def split: if_splits\<close>)
  next
    case CExpand
    then have "t = set_cpc c (if tryExpand_fast (clock s) (dpool s) then CExpandSlow (clock s) else CIdle) s"
      using step by (simp add: dt_caller_step_def)
    then show ?thesis by (intro same) (use I(2) in \<open>auto simp: set_cpc_def split: if_splits\<close>)
  next
    case (CExpandSlow now)
    then obtain sp p where e: "tryExpand_slow now (dpool s) = Inr (sp, p)" using step
      by (auto simp: dt_caller_step_def split: sum.splits)
    show ?thesis
    proof (cases sp)
      case True
      then show ?thesis using step e CExpandSlow dt_inv_expand [OF inv cfg CExpandSlow] by (simp add: dt_caller_step_def)
    next
      case False
      then have "t = set_cpc c CIdle s" using step e CExpandSlow by (simp add: dt_caller_step_def)
      then show ?thesis by (intro same) (use I(2) in \<open>auto simp: set_cpc_def split: if_splits\<close>)
    qed
  next
    case CPoll
    then have "t = s \<or> t = s\<lparr>destroyed := True\<rparr>" using step by (auto simp: dt_caller_step_def)
    then show ?thesis by (elim disjE) (intro same; use I(2) in simp)+
  qed (use step in \<open>simp add: dt_caller_step_def\<close>)
qed

lemma dt_inv_step:
  assumes inv: "dt_inv cfg t0 s" and cfg: "Config_valid cfg" and step: "dt_step s t"
  shows "dt_inv cfg t0 t"
proof -
  note I = dt_invD [OF inv]
  obtain a where a: "dt_exec a s = Some t" using step by (auto simp: dt_step_def)
  show ?thesis
  proof (cases a)
    case (Tick d)
    then show ?thesis using a by (intro dt_inv_caller [OF inv]) (use I(2) in \<open>auto simp: dt_exec_def split: if_splits\<close>)
  next
    case (Worker w)
    then show ?thesis using a dt_inv_worker [OF inv cfg] by (auto simp: dt_exec_def split: if_splits)
  next
    case (Submit c x)
    then show ?thesis using a
      by (intro dt_inv_caller [OF inv]) (use I(2) in \<open>auto simp: dt_exec_def set_cpc_def split: if_splits\<close>)
  next
    case (Caller c)
    then show ?thesis using a dt_inv_caller_step [OF inv cfg] by (auto simp: dt_exec_def split: if_splits)
  next
    case (Destroy c)
    then show ?thesis using a
      by (intro dt_inv_caller [OF inv]) (use I(2) in \<open>auto simp: dt_exec_def set_cpc_def stopAll_begin_def split: if_splits\<close>)
  qed
qed

lemma spawnOne_pow:
  "n < size_mod \<Longrightarrow> dt_threads p = 0 \<Longrightarrow> (DynamicThreadPool_spawnOne ^^ n) p = p\<lparr>dt_threads := n\<rparr>"
proof (induction n)
  case (Suc n)
  then show ?case by (simp add: DynamicThreadPool_spawnOne_def szadd_def)
qed simp

text \<open>The constructor starts the initial number of threads, and both cool-down periods are over.\<close>

lemma DynamicThreadPool_new_eq:
  assumes "Config_valid cfg"
  shows "DynamicThreadPool_new nd cfg now = Inr \<lparr>dt_config = cfg, dt_tasks = [], dt_threads = cfg_initialThreads cfg, dt_stop = False,
    lastExpandTime = now - ns_of_s (cfg_expandCooldown cfg), lastShrinkTime = now - ns_of_s (cfg_shrinkCooldown cfg)\<rparr>"
proof -
  have "cfg_initialThreads cfg < size_mod" using assms by (simp add: Config_valid_def)
  then show ?thesis
    using assms by (simp add: DynamicThreadPool_new_def DynamicThreadPool_resize_def spawnOne_pow Config_valid_def)
qed

lemma dt_inv_init:
  assumes cfg: "Config_valid cfg" and init: "dt_init nd cfg t0 s"
  shows "dt_inv cfg t0 s"
proof -
  have "dpool s = \<lparr>dt_config = cfg, dt_tasks = [], dt_threads = cfg_initialThreads cfg, dt_stop = False,
      lastExpandTime = t0 - ns_of_s (cfg_expandCooldown cfg), lastShrinkTime = t0 - ns_of_s (cfg_shrinkCooldown cfg)\<rparr>"
    using init unfolding dt_init_def DynamicThreadPool_new_eq [OF cfg] by auto
  moreover have "alive s = {..<cfg_initialThreads cfg}" "in_flight s = {#}"
    using init by (auto simp: alive_def in_flight_def dt_init_def)
  ultimately show ?thesis
    using cfg init by (auto simp: dt_inv_def dt_tasks_ok_def dt_threads_ok_def dt_times_ok_def dt_init_def Config_valid_def ns_of_s_def times_apart_def split: if_splits)
qed

interpretation dynamic_pool: inductive_invariant "\<lambda>s. Config_valid cfg \<and> dt_init nd cfg t0 s" dt_step "\<lambda>s. Config_valid cfg \<and> dt_inv cfg t0 s" for cfg nd t0
  by unfold_locales (auto intro: dt_inv_init dt_inv_step)

text \<open>
  C30: In every interleaving of workers and callers of a pool with a valid configuration, every submitted task is
  queued, running or executed, each once, and tasks are taken in the order of their submission.  Until stopAll, the
  counted threads stay between the two limits, and the threads that really run exceed them by one for every
  successful tryShrink.  The clock readings with which any two expansions were decided lie at least a cool-down period apart,
  in the order of the expansions, and so do those of any two shrinks.  (A reading is taken before the mutex, so the
  actions themselves may come later and closer together.)
\<close>

theorem DynamicThreadPool_reachable:
  assumes "reach (\<lambda>s. Config_valid cfg \<and> dt_init nd cfg t0 s) dt_step s"
  shows "dt_accepted s = dt_taken s @ map te_task (dt_tasks (dpool s)) \<and>
    mset (dt_accepted s) = mset (dt_executed s) + (\<Sum>w<workers s. running_task (wpc s w)) + mset (map te_task (dt_tasks (dpool s))) \<and>
    (dt_stop (dpool s) \<or> cfg_minThreads cfg \<le> dt_threads (dpool s) \<and> dt_threads (dpool s) \<le> cfg_maxThreads cfg \<and>
       card (alive s) = dt_threads (dpool s) + length (shrink_times s)) \<and>
    workers s = cfg_initialThreads cfg + length (expand_times s) \<and>
    (\<forall>i < length (expand_times s). \<forall>j < i. expand_times s ! j + ns_of_s (cfg_expandCooldown cfg) \<le> expand_times s ! i) \<and>
    (\<forall>i < length (shrink_times s). \<forall>j < i. shrink_times s ! j + ns_of_s (cfg_shrinkCooldown cfg) \<le> shrink_times s ! i) \<and>
    (\<forall>x \<in> set (expand_times s) \<union> set (shrink_times s). x \<le> clock s) \<and>
    (int (expands s) - 1) * ns_of_s (cfg_expandCooldown cfg) \<le> clock s - t0 \<and>
    (int (shrinks s) - 1) * ns_of_s (cfg_shrinkCooldown cfg) \<le> clock s - t0"
proof -
  have inv: "dt_inv cfg t0 s" using dynamic_pool.reach_inv [OF assms] by simp
  note I = dt_invD [OF inv]
  have "mset (dt_accepted s) = mset (dt_executed s) + (\<Sum>w<workers s. running_task (wpc s w)) + mset (map te_task (dt_tasks (dpool s)))"
    using I(2,3) by (simp add: in_flight_def)
  moreover have "\<forall>x \<in> set (expand_times s) \<union> set (shrink_times s). x \<le> clock s"
    using I(11) by (force simp: dt_times_ok_def)
  moreover have "\<forall>i < length (expand_times s). \<forall>j < i. expand_times s ! j + ns_of_s (cfg_expandCooldown cfg) \<le> expand_times s ! i"
    "\<forall>i < length (shrink_times s). \<forall>j < i. shrink_times s ! j + ns_of_s (cfg_shrinkCooldown cfg) \<le> shrink_times s ! i"
    using I(11) by (simp_all add: dt_times_ok_def times_apart_def)
  moreover have "(int (expands s) - 1) * ns_of_s (cfg_expandCooldown cfg) \<le> clock s - t0"
    "(int (shrinks s) - 1) * ns_of_s (cfg_shrinkCooldown cfg) \<le> clock s - t0"
    using I(11) by (auto simp: dt_times_ok_def left_diff_distrib)
  moreover have "dt_stop (dpool s) \<or> cfg_minThreads cfg \<le> dt_threads (dpool s) \<and> dt_threads (dpool s) \<le> cfg_maxThreads cfg \<and>
       card (alive s) = dt_threads (dpool s) + length (shrink_times s)" using I(8-10) by auto
  ultimately show ?thesis using I(2,5) by blast
qed

text \<open>Runs of actions, and a pool of two workers that may be one.\<close>

abbreviation dt_run :: "'a dt_action list \<Rightarrow> 'a dt_sys \<Rightarrow> 'a dt_sys option" where
  "dt_run \<equiv> run_exec dt_exec"

lemma dt_run_reach: "reach I dt_step s \<Longrightarrow> dt_run as s = Some t \<Longrightarrow> reach I dt_step t"
  by (rule run_exec_reach [of dt_exec]) (auto simp: dt_step_def)

definition small_config :: Config where
  "small_config = Config_default\<lparr>cfg_minThreads := 1, cfg_maxThreads := 2, cfg_initialThreads := 2\<rparr>"

definition small_pool :: "nat dt_sys" where
  "small_pool = \<lparr>dpool = \<lparr>dt_config = small_config, dt_tasks = [], dt_threads = 2, dt_stop = False,
       lastExpandTime = - 2000000000, lastShrinkTime = - 10000000000\<rparr>,
     clock = 0, workers = 2, wpc = (\<lambda>w. if w < 2 then DNew else DNone), last_active = (\<lambda>_. 0), cpc = (\<lambda>_. CIdle),
     destroyed = False, dt_accepted = [], dt_taken = [], dt_executed = [], shrink_times = [], expand_times = []\<rparr>"

lemma small_config_valid: "Config_valid small_config"
  by (simp add: Config_valid_def small_config_def Config_default_def size_mod_def)

lemma small_pool_init: "dt_init nd small_config 0 small_pool"
  unfolding dt_init_def DynamicThreadPool_new_eq [OF small_config_valid]
  by (simp add: small_pool_def small_config_def Config_default_def ns_of_s_def)

lemma small_pool_reach: "reach (\<lambda>s. Config_valid small_config \<and> dt_init nd small_config 0 s) dt_step small_pool"
  by (rule reach_init) (simp add: small_config_valid small_pool_init)

lemmas dt_eval = dt_exec_def dt_worker_step_def dt_caller_step_def set_wpc_def set_cpc_def small_pool_def small_config_def
  Config_default_def worker_must_wait_def worker_woken_def dt_take_step_def worker_take_def tryShrink_fast_def tryShrink_slow_def
  stopAll_begin_def stopAll_finished_def ns_of_s_def s_of_ns_def scaled_def szsub_def size_mod_def DynamicThreadPool_submit_def

text \<open>
  Worker 0 waits 59.9 seconds, passes the test of its wait as it has not been idle long enough, and a second later
  is counted off by \<^verbatim>\<open>tryShrink\<close>; then the pool is destroyed.
\<close>

definition shrink_then_destroy :: "nat dt_action list" where
  "shrink_then_destroy = [Worker 0, Worker 1, Worker 0, Tick 59900000000, Worker 0, Tick 1000000000, Worker 0, Worker 0,
     Destroy 0, Worker 1, Worker 1, Caller 0]"

lemma shrink_then_destroy_run:
  "\<exists>t. dt_run shrink_then_destroy small_pool = Some t \<and> destroyed t \<and> workers t = 2 \<and> wpc t 0 = DTop \<and> dt_threads (dpool t) = 0"
  by (simp add: shrink_then_destroy_def dt_eval)

text \<open>
  tryShrink takes a thread off the count that goes on running: with two workers, it can count one off and the
  destructor, which waits until the count is 0, destroys the pool while that worker still runs its loop on it.
\<close>

theorem DynamicThreadPool_destroyed_early:
  "\<exists>s :: nat dt_sys. reach (\<lambda>s. Config_valid small_config \<and> dt_init nd small_config 0 s) dt_step s \<and>
     destroyed s \<and> wpc s 0 = DTop \<and> alive s \<noteq> {} \<and> dt_threads (dpool s) = 0"
proof -
  obtain t where t: "dt_run shrink_then_destroy small_pool = Some t" "destroyed t" "workers t = 2" "wpc t 0 = DTop" "dt_threads (dpool t) = 0"
    using shrink_then_destroy_run by blast
  have "reach (\<lambda>s. Config_valid small_config \<and> dt_init nd small_config 0 s) dt_step t"
    by (rule dt_run_reach [OF small_pool_reach t(1)])
  moreover have "0 \<in> alive t" using t by (simp add: alive_def)
  ultimately show ?thesis using t by blast
qed

text \<open>Two tasks submitted; one of them is taken and run.\<close>

lemma two_tasks_run:
  "\<exists>t. dt_run [Worker 0, Submit 0 7, Submit 1 8, Caller 1, Caller 0, Worker 0, Worker 0] small_pool = Some t \<and>
     dt_accepted t = [8, 7] \<and> dt_executed t = [8] \<and> map te_task (dt_tasks (dpool t)) = [7]"
  by (simp add: dt_eval)

theorem DynamicThreadPool_reachable_witness:
  "\<exists>s :: nat dt_sys. reach (\<lambda>s. Config_valid small_config \<and> dt_init True small_config 0 s) dt_step s \<and>
     dt_accepted s = [8, 7] \<and> dt_executed s = [8] \<and> dt_taken s @ map te_task (dt_tasks (dpool s)) = [8, 7] \<and>
     (int (shrinks s) - 1) * 10000000000 \<le> clock s"
proof -
  obtain t where t: "dt_run [Worker 0, Submit 0 7, Submit 1 8, Caller 1, Caller 0, Worker 0, Worker 0] small_pool = Some t"
      "dt_accepted t = [8, 7]" "dt_executed t = [8]"
    using two_tasks_run by blast
  have r: "reach (\<lambda>s. Config_valid small_config \<and> dt_init True small_config 0 s) dt_step t"
    by (rule dt_run_reach [OF small_pool_reach t(1)])
  show ?thesis
    using DynamicThreadPool_reachable [OF r] r t(2,3)
    by (intro exI [of _ t]) (simp add: small_config_def Config_default_def ns_of_s_def)
qed

end
