(* ===== verification/LockFreeThreadPool.thy ===== *)
theory LockFreeThreadPool
  imports MPMCQueue Thread "HOL-Library.Multiset"
begin

text \<open>
  The thread pool on the lock-free queue: \<^verbatim>\<open>base/LockFreeThreadPool.h\<close>.

  \<open>lf_exec\<close> interleaves producers in \<^verbatim>\<open>run\<close>, workers in \<^verbatim>\<open>runInThread\<close> and a thread in \<^verbatim>\<open>stop\<close>, each call of the queue
  being taken apart into the atomic steps of \<open>mpmc_micro\<close>.  The two semaphores are counters; acquiring one at zero
  is no step.  The release of a permit beyond the template argument of \<^verbatim>\<open>counting_semaphore\<close> is allowed,
  as by the library implementations whose maximum is larger.
\<close>

section \<open>The pool\<close>

record LockFreeThreadPool =
  lf_name :: string
  lf_running :: bool
  lf_numThreads :: int
  slotsSem :: nat
  itemsSem :: nat
  lf_threads :: "Thread list"

definition LockFreeThreadPool_new :: "nat \<Rightarrow> string \<Rightarrow> LockFreeThreadPool" where
  "LockFreeThreadPool_new C nm = \<lparr>lf_name = nm, lf_running = False, lf_numThreads = 0, slotsSem = C, itemsSem = 0, lf_threads = []\<rparr>"

definition LockFreeThreadPool_setThreadNum :: "bool \<Rightarrow> int \<Rightarrow> LockFreeThreadPool \<Rightarrow> LockFreeThreadPool result" where
  "LockFreeThreadPool_setThreadNum nd n s =
     (if nd \<or> \<not> lf_running s \<and> n > 0 then Inr (s\<lparr>lf_numThreads := n\<rparr>) else Inl AssertFailed)"

definition LockFreeThreadPool_start :: "bool \<Rightarrow> LockFreeThreadPool \<Rightarrow> LockFreeThreadPool result" where
  "LockFreeThreadPool_start nd s =
     (if nd \<or> \<not> lf_running s \<and> lf_numThreads s > 0
      then let s1 = s\<lparr>lf_running := True\<rparr> in
           bindR (foldR (\<lambda>i. spawn_thread nd (snprintf 32 (lf_name s @ ''-'' @ dec_int (int i))) i) [0..<nat (lf_numThreads s)] (lf_threads s1))
             (\<lambda>ths. Inr (s1\<lparr>lf_threads := ths\<rparr>))
      else Inl AssertFailed)"

definition LockFreeThreadPool_approxSize :: "'a MPMCQueue \<Rightarrow> nat" where
  "LockFreeThreadPool_approxSize q = MPMCQueue_approximate_size q"

section \<open>Threads at work\<close>

datatype 'a lf_pc =
    LIdle | LSlots 'a | LCheck 'a | LEnqueue 'a | LItems | LAborted
  | LTop | LAcquire | LChecked | LDequeue | LSlotBack 'a | LRunTask 'a | LGone
  | LStop | LRelease nat | LJoin nat

text \<open>
  \<open>lf_returned\<close> are the tasks whose \<^verbatim>\<open>run\<close> has returned true or is about to, \<open>lf_lost\<close> those among them that the queue
  refused, \<open>lf_released\<close> the number of permits released by \<^verbatim>\<open>stop\<close>.
\<close>

record 'a lf_sys =
  lpool :: LockFreeThreadPool
  lque :: "'a mpmc_sys"
  lpc :: "nat \<Rightarrow> 'a lf_pc"
  lf_returned :: "'a list"
  lf_lost :: "'a list"
  lf_executed :: "'a list"
  lf_released :: nat
  lf_aborted :: bool

definition at_pc :: "nat \<Rightarrow> 'a lf_pc \<Rightarrow> 'a lf_sys \<Rightarrow> 'a lf_sys" where
  "at_pc th pc s = s\<lparr>lpc := (lpc s)(th := pc)\<rparr>"

definition set_qpc :: "nat \<Rightarrow> ('a, nat) mpmc_pc \<Rightarrow> 'a lf_sys \<Rightarrow> 'a lf_sys" where
  "set_qpc th pc s = s\<lparr>lque := (lque s)\<lparr>pcs := (pcs (lque s))(th := pc)\<rparr>\<rparr>"

text \<open>One atomic step of the queue's code.\<close>

definition queue_micro :: "nat \<Rightarrow> bool \<Rightarrow> nat \<Rightarrow> 'a lf_sys \<Rightarrow> 'a lf_sys" where
  "queue_micro C weak th s = (let q = lque s; (pc', q') = mpmc_micro MPMCQueue_variant C weak (pcs q th) (que q) in
     s\<lparr>lque := q\<lparr>que := q', pcs := (pcs q)(th := pc'), enqd := enqd q @ note_enq (pcs q th) pc', deqd := deqd q @ note_deq (pcs q th)\<rparr>\<rparr>)"

text \<open>The steps of \<^verbatim>\<open>run\<close>; \<open>ok\<close> is asserted without NDEBUG.\<close>

definition lf_producer :: "bool \<Rightarrow> nat \<Rightarrow> bool \<Rightarrow> nat \<Rightarrow> 'a lf_sys \<Rightarrow> 'a lf_sys option" where
  "lf_producer nd C weak th s = (case lpc s th of
     LSlots x \<Rightarrow> if slotsSem (lpool s) > 0
       then Some (at_pc th (LCheck x) (s\<lparr>lpool := (lpool s)\<lparr>slotsSem := slotsSem (lpool s) - 1\<rparr>\<rparr>)) else None
   | LCheck x \<Rightarrow> Some (if lf_running (lpool s) then at_pc th (LEnqueue x) (set_qpc th (EnqStart x) s) else at_pc th LIdle s)
   | LEnqueue x \<Rightarrow> (case pcs (lque s) th of
       EnqRet ok \<Rightarrow> Some (if ok then at_pc th LItems (set_qpc th Idle (s\<lparr>lf_returned := lf_returned s @ [x]\<rparr>))
         else if nd then at_pc th LItems (set_qpc th Idle (s\<lparr>lf_returned := lf_returned s @ [x], lf_lost := lf_lost s @ [x]\<rparr>))
         else at_pc th LAborted (set_qpc th Idle (s\<lparr>lf_aborted := True\<rparr>)))
     | _ \<Rightarrow> Some (queue_micro C weak th s))
   | LItems \<Rightarrow> Some (at_pc th LIdle (s\<lparr>lpool := (lpool s)\<lparr>itemsSem := itemsSem (lpool s) + 1\<rparr>\<rparr>))
   | _ \<Rightarrow> None)"

text \<open>The steps of \<^verbatim>\<open>runInThread\<close>.\<close>

definition lf_worker :: "nat \<Rightarrow> bool \<Rightarrow> nat \<Rightarrow> 'a lf_sys \<Rightarrow> 'a lf_sys option" where
  "lf_worker C weak th s = (case lpc s th of
     LTop \<Rightarrow> Some (at_pc th (if lf_running (lpool s) then LAcquire else LGone) s)
   | LAcquire \<Rightarrow> if itemsSem (lpool s) > 0
       then Some (at_pc th LChecked (s\<lparr>lpool := (lpool s)\<lparr>itemsSem := itemsSem (lpool s) - 1\<rparr>\<rparr>)) else None
   | LChecked \<Rightarrow> Some (if lf_running (lpool s) then at_pc th LDequeue (set_qpc th DeqStart s) else at_pc th LGone s)
   | LDequeue \<Rightarrow> Some (case pcs (lque s) th of
       DeqRet r \<Rightarrow> (case r of None \<Rightarrow> at_pc th LTop (set_qpc th Idle s) | Some x \<Rightarrow> at_pc th (LSlotBack x) (set_qpc th Idle s))
     | _ \<Rightarrow> queue_micro C weak th s)
   | LSlotBack x \<Rightarrow> Some (at_pc th (LRunTask x) (s\<lparr>lpool := (lpool s)\<lparr>slotsSem := slotsSem (lpool s) + 1\<rparr>\<rparr>))
   | LRunTask x \<Rightarrow> Some (at_pc th LTop (s\<lparr>lf_executed := lf_executed s @ [x]\<rparr>))
   | _ \<Rightarrow> None)"

text \<open>The steps of \<^verbatim>\<open>stop\<close> with \<open>n\<close> workers.\<close>

definition lf_stopper :: "nat \<Rightarrow> nat \<Rightarrow> 'a lf_sys \<Rightarrow> 'a lf_sys option" where
  "lf_stopper n th s = (case lpc s th of
     LStop \<Rightarrow> Some (at_pc th (LRelease 0) (s\<lparr>lpool := (lpool s)\<lparr>lf_running := False\<rparr>\<rparr>))
   | LRelease i \<Rightarrow> Some (if i < n
       then at_pc th (LRelease (i + 1)) (s\<lparr>lpool := (lpool s)\<lparr>itemsSem := itemsSem (lpool s) + 1\<rparr>, lf_released := lf_released s + 1\<rparr>)
       else at_pc th (LJoin 0) s)
   | LJoin i \<Rightarrow> if i < n then (if lpc s i = LGone then Some (at_pc th (LJoin (i + 1)) s) else None) else Some (at_pc th LIdle s)
   | _ \<Rightarrow> None)"

text \<open>Entering \<^verbatim>\<open>run\<close> and \<^verbatim>\<open>stop\<close>.  A failed assertion ends the process: \<open>lf_aborted\<close>.\<close>

datatype 'a lf_action = LfRun nat 'a | LfStop nat | LfProducer bool nat | LfWorker bool nat | LfStopper nat

definition lf_exec :: "bool \<Rightarrow> nat \<Rightarrow> nat \<Rightarrow> 'a lf_action \<Rightarrow> 'a lf_sys \<Rightarrow> 'a lf_sys option" where
  "lf_exec nd C n a s = (if lf_aborted s then None else case a of
     LfRun th x \<Rightarrow> if lpc s th = LIdle \<and> n \<le> th then Some (
         if \<not> lf_running (lpool s) then s
         else if lf_threads (lpool s) = [] then s\<lparr>lf_returned := lf_returned s @ [x], lf_executed := lf_executed s @ [x]\<rparr>
         else at_pc th (LSlots x) s) else None
   | LfStop th \<Rightarrow> if lpc s th = LIdle \<and> n \<le> th then Some (if lf_running (lpool s) then at_pc th LStop s else s) else None
   | LfProducer weak th \<Rightarrow> lf_producer nd C weak th s
   | LfWorker weak th \<Rightarrow> lf_worker C weak th s
   | LfStopper th \<Rightarrow> lf_stopper n th s)"

definition lf_step :: "bool \<Rightarrow> nat \<Rightarrow> nat \<Rightarrow> 'a lf_sys \<Rightarrow> 'a lf_sys \<Rightarrow> bool" where
  "lf_step nd C n s t \<longleftrightarrow> (\<exists>a. lf_exec nd C n a s = Some t)"

definition lf_init :: "bool \<Rightarrow> nat \<Rightarrow> nat \<Rightarrow> 'a lf_sys \<Rightarrow> bool" where
  "lf_init nd C n s \<longleftrightarrow> 0 < n \<and>
     (\<exists>nm. LockFreeThreadPool_start nd ((LockFreeThreadPool_new C nm)\<lparr>lf_numThreads := int n\<rparr>) = Inr (lpool s)) \<and>
     mpmc_init C (lque s) \<and> lpc s = (\<lambda>th. if th < n then LTop else LIdle) \<and>
     lf_returned s = [] \<and> lf_lost s = [] \<and> lf_executed s = [] \<and> lf_released s = 0 \<and> \<not> lf_aborted s"

section \<open>Invariant\<close>

fun enq_call :: "('a, nat) mpmc_pc \<Rightarrow> bool" where
  "enq_call (EnqStart x) = True"
| "enq_call (EnqTop x pos) = True"
| "enq_call (EnqCas x pos) = True"
| "enq_call (EnqWrite x pos) = True"
| "enq_call (EnqPublish pos) = True"
| "enq_call (EnqRet b) = True"
| "enq_call _ = False"

fun deq_call :: "('a, nat) mpmc_pc \<Rightarrow> bool" where
  "deq_call DeqStart = True"
| "deq_call (DeqTop pos) = True"
| "deq_call (DeqCas pos) = True"
| "deq_call (DeqRead pos) = True"
| "deq_call (DeqPublish v pos) = True"
| "deq_call (DeqRet r) = True"
| "deq_call _ = False"

fun call_ok :: "'a lf_pc \<Rightarrow> ('a, nat) mpmc_pc \<Rightarrow> bool" where
  "call_ok (LEnqueue x) pc = enq_call pc"
| "call_ok LDequeue pc = deq_call pc"
| "call_ok _ pc \<longleftrightarrow> pc = Idle"

fun lf_is_worker :: "'a lf_pc \<Rightarrow> bool" where
  "lf_is_worker LTop = True"
| "lf_is_worker LAcquire = True"
| "lf_is_worker LChecked = True"
| "lf_is_worker LDequeue = True"
| "lf_is_worker (LSlotBack x) = True"
| "lf_is_worker (LRunTask x) = True"
| "lf_is_worker LGone = True"
| "lf_is_worker _ = False"

text \<open>What a worker has been given by the queue and not yet run.\<close>

fun given :: "('a, nat) mpmc_pc \<Rightarrow> 'a multiset" where
  "given (DeqRet (Some x)) = {#x#}"
| "given _ = {#}"

fun hand :: "'a lf_pc \<Rightarrow> ('a, nat) mpmc_pc \<Rightarrow> 'a multiset" where
  "hand LDequeue pc = given pc"
| "hand (LSlotBack x) pc = {#x#}"
| "hand (LRunTask x) pc = {#x#}"
| "hand _ pc = {#}"

definition hands :: "nat \<Rightarrow> 'a lf_sys \<Rightarrow> 'a multiset" where
  "hands n s = (\<Sum>th<n. hand (lpc s th) (pcs (lque s) th))"

text \<open>A thread that has acquired a permit of one semaphore and not yet released one of the other.\<close>

fun permit :: "'a lf_pc \<Rightarrow> bool" where
  "permit (LCheck x) = True"
| "permit (LEnqueue x) = True"
| "permit LItems = True"
| "permit LAborted = True"
| "permit LChecked = True"
| "permit LDequeue = True"
| "permit (LSlotBack x) = True"
| "permit _ = False"

definition permits :: "'a lf_sys \<Rightarrow> nat set" where
  "permits s = {th. permit (lpc s th)}"

definition lf_inv :: "nat \<Rightarrow> nat \<Rightarrow> 'a lf_sys \<Rightarrow> bool" where
  "lf_inv C n s \<longleftrightarrow> reach (mpmc_init C) (mpmc_step MPMCQueue_variant C) (lque s) \<and>
     (\<forall>th. call_ok (lpc s th) (pcs (lque s) th)) \<and> (\<forall>th. lf_is_worker (lpc s th) \<longleftrightarrow> th < n) \<and> lf_threads (lpool s) \<noteq> [] \<and>
     mset (map snd (deqd (lque s))) = mset (lf_executed s) + hands n s \<and> finite (permits s) \<and>
     slotsSem (lpool s) + itemsSem (lpool s) + card (permits s) \<le> C + lf_released s"

lemma lf_invD:
  assumes "lf_inv C n s"
  shows "reach (mpmc_init C) (mpmc_step MPMCQueue_variant C) (lque s)" "\<And>th. call_ok (lpc s th) (pcs (lque s) th)"
    "\<And>th. lf_is_worker (lpc s th) \<longleftrightarrow> th < n" "lf_threads (lpool s) \<noteq> []"
    "mset (map snd (deqd (lque s))) = mset (lf_executed s) + hands n s" "finite (permits s)"
    "slotsSem (lpool s) + itemsSem (lpool s) + card (permits s) \<le> C + lf_released s"
  using assms unfolding lf_inv_def by blast+

lemma permits_update:
  assumes "finite (permits s)" "lpc s' = (lpc s)(th := pc)"
  shows "finite (permits s')" "card (permits s') + of_bool (permit (lpc s th)) = card (permits s) + of_bool (permit pc)"
proof -
  have eq: "permits s' = (if permit pc then insert th (permits s) else permits s - {th})"
    using assms(2) by (auto simp: permits_def)
  then show "finite (permits s')" using assms(1) by simp
  have "th \<in> permits s \<longleftrightarrow> permit (lpc s th)" by (simp add: permits_def)
  then show "card (permits s') + of_bool (permit (lpc s th)) = card (permits s) + of_bool (permit pc)"
    using assms(1) eq card_Suc_Diff1 [of "permits s" th] by (auto simp: insert_absorb)
qed

lemma hands_update:
  assumes "th < n" "lpc s' = (lpc s)(th := pc)" "pcs (lque s') = (pcs (lque s))(th := qpc)"
  shows "hands n s' + hand (lpc s th) (pcs (lque s) th) = hands n s + hand pc qpc"
proof -
  have *: "hands n s = hand (lpc s th) (pcs (lque s) th) + (\<Sum>i \<in> {..<n} - {th}. hand (lpc s i) (pcs (lque s) i))"
    unfolding hands_def using assms(1) by (intro sum.remove) auto
  have "hands n s' = hand pc qpc + (\<Sum>i \<in> {..<n} - {th}. hand (lpc s' i) (pcs (lque s') i))"
    unfolding hands_def using assms by (subst sum.remove [of _ th]) auto
  also have "(\<Sum>i \<in> {..<n} - {th}. hand (lpc s' i) (pcs (lque s') i)) = (\<Sum>i \<in> {..<n} - {th}. hand (lpc s i) (pcs (lque s) i))"
    using assms by (intro sum.cong) auto
  finally show ?thesis using * by simp
qed

lemma hand_worker: "\<not> lf_is_worker pc \<Longrightarrow> hand pc qpc = {#}"
  by (cases pc) auto

lemma hands_other:
  assumes "n \<le> th" "lpc s' = (lpc s)(th := pc)" "pcs (lque s') = (pcs (lque s))(th := qpc)"
  shows "hands n s' = hands n s"
  unfolding hands_def using assms by (intro sum.cong) auto

text \<open>One thread moves on.\<close>

lemma lf_inv_one:
  assumes inv: "lf_inv C n s" and pc: "lpc s' = (lpc s)(th := pc)" "pcs (lque s') = (pcs (lque s))(th := qpc)"
    and q: "reach (mpmc_init C) (mpmc_step MPMCQueue_variant C) (lque s')" and ok: "call_ok pc qpc" "lf_is_worker pc = lf_is_worker (lpc s th)"
    and th: "lf_threads (lpool s') = lf_threads (lpool s)"
    and tasks: "mset (map snd (deqd (lque s'))) + mset (lf_executed s) + hand (lpc s th) (pcs (lque s) th) =
      mset (map snd (deqd (lque s))) + mset (lf_executed s') + hand pc qpc"
    and sem: "slotsSem (lpool s') + itemsSem (lpool s') + of_bool (permit pc) + lf_released s \<le>
      slotsSem (lpool s) + itemsSem (lpool s) + of_bool (permit (lpc s th)) + lf_released s'"
  shows "lf_inv C n s'"
proof -
  note I = lf_invD [OF inv]
  have "hands n s' + hand (lpc s th) (pcs (lque s) th) = hands n s + hand pc qpc"
  proof (cases "th < n")
    case True
    then show ?thesis by (rule hands_update [OF _ pc])
  next
    case False
    then have "hand (lpc s th) (pcs (lque s) th) = {#}" "hand pc qpc = {#}" using I(3) [of th] ok(2) by (simp_all add: hand_worker)
    moreover have "hands n s' = hands n s" using False by (intro hands_other [OF _ pc]) simp
    ultimately show ?thesis by simp
  qed
  moreover have "mset (map snd (deqd (lque s'))) + (mset (lf_executed s) + hand (lpc s th) (pcs (lque s) th)) =
      mset (lf_executed s') + (hands n s + hand pc qpc) + mset (lf_executed s)"
    using tasks I(5) by (simp add: ac_simps)
  ultimately have "mset (map snd (deqd (lque s'))) + (mset (lf_executed s) + hand (lpc s th) (pcs (lque s) th)) =
      (mset (lf_executed s') + hands n s') + (mset (lf_executed s) + hand (lpc s th) (pcs (lque s) th))"
    by (metis (no_types, lifting) add.assoc add.commute)
  then have "mset (map snd (deqd (lque s'))) = mset (lf_executed s') + hands n s'" by simp
  moreover have "slotsSem (lpool s') + itemsSem (lpool s') + card (permits s') \<le> C + lf_released s'"
    using permits_update(2) [OF I(6) pc(1)] sem I(7) by linarith
  moreover have "call_ok (lpc s' th') (pcs (lque s') th')" for th' using I(2) [of th'] ok(1) pc by simp
  moreover have "lf_is_worker (lpc s' th') \<longleftrightarrow> th' < n" for th' using I(3) [of th] I(3) [of th'] ok(2) pc(1) by simp
  ultimately show ?thesis
    using q I(4) th permits_update(1) [OF I(6) pc(1)] unfolding lf_inv_def by simp
qed

lemma micro_enq_call:
  assumes "enq_call pc" "\<And>b. pc \<noteq> EnqRet b" "mpmc_micro V C weak pc q = (pc', q')"
  shows "enq_call pc' \<and> note_deq pc = []"
  using assms by (cases pc) (auto simp: Let_def note_deq_def split: if_splits)

lemma micro_deq_call:
  assumes "deq_call pc" "\<And>r. pc \<noteq> DeqRet r" "mpmc_micro V C weak pc q = (pc', q')"
  shows "deq_call pc' \<and> mset (map snd (note_deq pc)) = given pc' \<and> given pc = {#}"
  using assms by (cases pc) (auto simp: Let_def note_deq_def split: if_splits option.splits)

lemma lf_inv_micro:
  assumes inv: "lf_inv C n s"
    and at: "(\<exists>x. lpc s th = LEnqueue x) \<and> (\<forall>b. pcs (lque s) th \<noteq> EnqRet b) \<or> lpc s th = LDequeue \<and> (\<forall>r. pcs (lque s) th \<noteq> DeqRet r)"
  shows "lf_inv C n (queue_micro C weak th s)"
proof -
  note I = lf_invD [OF inv]
  obtain pc' q' where m: "mpmc_micro MPMCQueue_variant C weak (pcs (lque s) th) (que (lque s)) = (pc', q')" by fastforce
  let ?q = "(lque s)\<lparr>que := q', pcs := (pcs (lque s))(th := pc'),
      enqd := enqd (lque s) @ note_enq (pcs (lque s) th) pc', deqd := deqd (lque s) @ note_deq (pcs (lque s) th)\<rparr>"
  have t: "queue_micro C weak th s = s\<lparr>lque := ?q\<rparr>" by (simp add: queue_micro_def Let_def m)
  have r: "reach (mpmc_init C) (mpmc_step MPMCQueue_variant C) ?q" by (rule reach_step [OF I(1) mpmc_step.micro [OF m]])
  have call: "call_ok (lpc s th) (pcs (lque s) th)" by (rule I(2))
  have "call_ok (lpc s th) pc' \<and>
      mset (map snd (note_deq (pcs (lque s) th))) + hand (lpc s th) (pcs (lque s) th) = hand (lpc s th) pc'"
    using at
  proof
    assume "(\<exists>x. lpc s th = LEnqueue x) \<and> (\<forall>b. pcs (lque s) th \<noteq> EnqRet b)"
    then show ?thesis using micro_enq_call [OF _ _ m] call by auto
  next
    assume "lpc s th = LDequeue \<and> (\<forall>r. pcs (lque s) th \<noteq> DeqRet r)"
    then show ?thesis using micro_deq_call [OF _ _ m] call by auto
  qed
  then show ?thesis unfolding t
    by (intro lf_inv_one [OF inv, where th = th and pc = "lpc s th" and qpc = pc']) (use r in \<open>simp_all add: ac_simps\<close>)
qed

lemma lf_inv_producer:
  assumes inv: "lf_inv C n s" and step: "lf_producer nd C weak th s = Some t"
  shows "lf_inv C n t"
proof -
  note I = lf_invD [OF inv]
  note one = lf_inv_one [OF inv, where th = th]
  show ?thesis
  proof (cases "lpc s th")
    case (LSlots x)
    then show ?thesis using step I(1) I(2) [of th]
      by (intro one [where pc = "LCheck x" and qpc = Idle]) (auto simp: lf_producer_def at_pc_def split: if_splits)
  next
    case (LCheck x)
    have idle: "pcs (lque s) th = Idle" using I(2) [of th] LCheck by simp
    show ?thesis
    proof (cases "lf_running (lpool s)")
      case True
      have "reach (mpmc_init C) (mpmc_step MPMCQueue_variant C) ((lque s)\<lparr>pcs := (pcs (lque s))(th := EnqStart x)\<rparr>)"
        by (rule reach_step [OF I(1)]) (rule mpmc_step.enqueue [OF idle])
      then show ?thesis using step LCheck True idle
        by (intro one [where pc = "LEnqueue x" and qpc = "EnqStart x"]) (auto simp: lf_producer_def at_pc_def set_qpc_def)
    next
      case False
      then show ?thesis using step LCheck I(1) idle
        by (intro one [where pc = LIdle and qpc = Idle]) (auto simp: lf_producer_def at_pc_def)
    qed
  next
    case (LEnqueue x)
    show ?thesis
    proof (cases "\<exists>b. pcs (lque s) th = EnqRet b")
      case True
      then obtain b where b: "pcs (lque s) th = EnqRet b" by blast
      have "reach (mpmc_init C) (mpmc_step MPMCQueue_variant C) ((lque s)\<lparr>pcs := (pcs (lque s))(th := Idle)\<rparr>)"
        by (rule reach_step [OF I(1)], rule mpmc_step.ret) (simp add: b)
      then show ?thesis using step LEnqueue b
        by (intro one [where pc = "if b \<or> nd then LItems else LAborted" and qpc = Idle])
          (auto simp: lf_producer_def at_pc_def set_qpc_def split: if_splits)
    next
      case False
      then have "t = queue_micro C weak th s" using step LEnqueue by (auto simp: lf_producer_def split: mpmc_pc.splits)
      then show ?thesis using LEnqueue False by (auto intro: lf_inv_micro [OF inv])
    qed
  next
    case LItems
    then show ?thesis using step I(1) I(2) [of th]
      by (intro one [where pc = LIdle and qpc = Idle]) (auto simp: lf_producer_def at_pc_def)
  qed (use step in \<open>auto simp: lf_producer_def\<close>)
qed

lemma lf_inv_worker:
  assumes inv: "lf_inv C n s" and step: "lf_worker C weak th s = Some t"
  shows "lf_inv C n t"
proof -
  note I = lf_invD [OF inv]
  note one = lf_inv_one [OF inv, where th = th]
  show ?thesis
  proof (cases "lpc s th")
    case LTop
    then show ?thesis using step I(1) I(2) [of th]
      by (intro one [where pc = "if lf_running (lpool s) then LAcquire else LGone" and qpc = Idle]) (auto simp: lf_worker_def at_pc_def split: if_splits)
  next
    case LAcquire
    then show ?thesis using step I(1) I(2) [of th]
      by (intro one [where pc = LChecked and qpc = Idle]) (auto simp: lf_worker_def at_pc_def split: if_splits)
  next
    case LChecked
    have idle: "pcs (lque s) th = Idle" using I(2) [of th] LChecked by simp
    show ?thesis
    proof (cases "lf_running (lpool s)")
      case True
      have "reach (mpmc_init C) (mpmc_step MPMCQueue_variant C) ((lque s)\<lparr>pcs := (pcs (lque s))(th := DeqStart)\<rparr>)"
        by (rule reach_step [OF I(1)]) (rule mpmc_step.dequeue [OF idle])
      then show ?thesis using step LChecked True idle
        by (intro one [where pc = LDequeue and qpc = DeqStart]) (auto simp: lf_worker_def at_pc_def set_qpc_def)
    next
      case False
      then show ?thesis using step LChecked I(1) idle
        by (intro one [where pc = LGone and qpc = Idle]) (auto simp: lf_worker_def at_pc_def)
    qed
  next
    case LDequeue
    show ?thesis
    proof (cases "\<exists>r. pcs (lque s) th = DeqRet r")
      case True
      then obtain r where r: "pcs (lque s) th = DeqRet r" by blast
      have "reach (mpmc_init C) (mpmc_step MPMCQueue_variant C) ((lque s)\<lparr>pcs := (pcs (lque s))(th := Idle)\<rparr>)"
        by (rule reach_step [OF I(1)], rule mpmc_step.ret) (simp add: r)
      then show ?thesis using step LDequeue r
        by (intro one [where pc = "case r of None \<Rightarrow> LTop | Some x \<Rightarrow> LSlotBack x" and qpc = Idle])
          (auto simp: lf_worker_def at_pc_def set_qpc_def split: option.splits)
    next
      case False
      then have "t = queue_micro C weak th s" using step LDequeue by (auto simp: lf_worker_def split: mpmc_pc.splits)
      then show ?thesis using LDequeue False by (auto intro: lf_inv_micro [OF inv])
    qed
  next
    case (LSlotBack x)
    then show ?thesis using step I(1) I(2) [of th]
      by (intro one [where pc = "LRunTask x" and qpc = Idle]) (auto simp: lf_worker_def at_pc_def)
  next
    case (LRunTask x)
    then show ?thesis using step I(1) I(2) [of th]
      by (intro one [where pc = LTop and qpc = Idle]) (auto simp: lf_worker_def at_pc_def)
  qed (use step in \<open>auto simp: lf_worker_def\<close>)
qed

lemma lf_inv_stopper:
  assumes inv: "lf_inv C n s" and step: "lf_stopper n th s = Some t"
  shows "lf_inv C n t"
proof -
  note I = lf_invD [OF inv]
  note one = lf_inv_one [OF inv, where th = th and qpc = Idle]
  show ?thesis
  proof (cases "lpc s th")
    case LStop
    then show ?thesis using step I(1) I(2) [of th]
      by (intro one [where pc = "LRelease 0"]) (auto simp: lf_stopper_def at_pc_def)
  next
    case (LRelease i)
    then show ?thesis using step I(1) I(2) [of th]
      by (intro one [where pc = "if i < n then LRelease (i + 1) else LJoin 0"]) (auto simp: lf_stopper_def at_pc_def split: if_splits)
  next
    case (LJoin i)
    then show ?thesis using step I(1) I(2) [of th]
      by (intro one [where pc = "if i < n then LJoin (i + 1) else LIdle"]) (auto simp: lf_stopper_def at_pc_def split: if_splits)
  qed (use step in \<open>auto simp: lf_stopper_def\<close>)
qed

lemma lf_inv_step:
  assumes inv: "lf_inv C n s" and step: "lf_step nd C n s t"
  shows "lf_inv C n t"
proof -
  note I = lf_invD [OF inv]
  obtain a where a: "lf_exec nd C n a s = Some t" using step by (auto simp: lf_step_def)
  show ?thesis
  proof (cases a)
    case (LfRun th x)
    then have at: "lpc s th = LIdle" and "t = s \<or> t = at_pc th (LSlots x) s" using a I(4) by (auto simp: lf_exec_def split: if_splits)
    then show ?thesis
    proof (elim disjE)
      assume "t = at_pc th (LSlots x) s"
      then show ?thesis using at I(1) I(2) [of th]
        by (intro lf_inv_one [OF inv, where th = th and qpc = Idle and pc = "LSlots x"]) (auto simp: at_pc_def)
    qed (use inv in simp)
  next
    case (LfStop th)
    then have at: "lpc s th = LIdle" and "t = s \<or> t = at_pc th LStop s" using a by (auto simp: lf_exec_def split: if_splits)
    then show ?thesis
    proof (elim disjE)
      assume "t = at_pc th LStop s"
      then show ?thesis using at I(1) I(2) [of th]
        by (intro lf_inv_one [OF inv, where th = th and qpc = Idle and pc = LStop]) (auto simp: at_pc_def)
    qed (use inv in simp)
  next
    case (LfProducer weak th)
    then show ?thesis using a lf_inv_producer [OF inv] by (auto simp: lf_exec_def split: if_splits)
  next
    case (LfWorker weak th)
    then show ?thesis using a lf_inv_worker [OF inv] by (auto simp: lf_exec_def split: if_splits)
  next
    case (LfStopper th)
    then show ?thesis using a lf_inv_stopper [OF inv] by (auto simp: lf_exec_def split: if_splits)
  qed
qed

lemma LockFreeThreadPool_start_eq:
  "0 < n \<Longrightarrow> LockFreeThreadPool_start nd ((LockFreeThreadPool_new C nm)\<lparr>lf_numThreads := int n\<rparr>) =
   Inr \<lparr>lf_name = nm, lf_running = True, lf_numThreads = int n, slotsSem = C, itemsSem = 0,
     lf_threads = map (started_thread nm) [0..<n]\<rparr>"
  using spawn_threads [of nd nm n] by (simp add: LockFreeThreadPool_start_def LockFreeThreadPool_new_def Let_def)

lemma lf_inv_init:
  assumes "lf_init nd C n s"
  shows "lf_inv C n s"
proof -
  obtain nm where n: "0 < n" and st: "LockFreeThreadPool_start nd ((LockFreeThreadPool_new C nm)\<lparr>lf_numThreads := int n\<rparr>) = Inr (lpool s)"
    using assms by (auto simp: lf_init_def)
  have "lpool s = \<lparr>lf_name = nm, lf_running = True, lf_numThreads = int n, slotsSem = C, itemsSem = 0,
     lf_threads = map (started_thread nm) [0..<n]\<rparr>"
    using st unfolding LockFreeThreadPool_start_eq [OF n] by simp
  then show ?thesis
    using n assms reach_init [of "mpmc_init C" "lque s" "mpmc_step MPMCQueue_variant C"]
    by (auto simp: lf_inv_def lf_init_def hands_def permits_def mpmc_init_def)
qed

interpretation lock_free_pool: inductive_invariant "lf_init nd C n" "lf_step nd C n" "lf_inv C n" for nd C n
  by unfold_locales (auto intro: lf_inv_init lf_inv_step)

text \<open>
  C31: the pool refines its queue.  In every reachable state of producers, workers and a stopping thread, the queue's
  own state is one that its interleaved calls reach, so that all its properties hold of it; every item it handed out
  has been run once or is in the hands of one worker; and the permits of the two semaphores, with those held between
  acquiring one and releasing the other, never exceed the capacity and what stop() released.
\<close>

theorem LockFreeThreadPool_reachable:
  assumes "reach (lf_init nd C n) (lf_step nd C n) s"
  shows "reach (mpmc_init C) (mpmc_step MPMCQueue_variant C) (lque s) \<and>
    mset (map snd (deqd (lque s))) = mset (lf_executed s) + (\<Sum>th<n. hand (lpc s th) (pcs (lque s) th)) \<and>
    slotsSem (lpool s) + itemsSem (lpool s) + card {th. permit (lpc s th)} \<le> C + lf_released s"
  using lock_free_pool.reach_inv [OF assms] by (simp add: lf_inv_def hands_def permits_def)

section \<open>Tasks that are lost\<close>

definition fresh_lf :: "nat \<Rightarrow> nat lf_sys" where
  "fresh_lf n = \<lparr>lpool = \<lparr>lf_name = ''p'', lf_running = True, lf_numThreads = int n, slotsSem = 2, itemsSem = 0,
       lf_threads = map (started_thread ''p'') [0..<n]\<rparr>,
     lque = \<lparr>que = \<lparr>cells = [\<lparr>cseq = 0, cdata = None\<rparr>, \<lparr>cseq = 1, cdata = None\<rparr>], enqueuePos = 0, dequeuePos = 0\<rparr>,
       pcs = (\<lambda>_. Idle), enqd = [], deqd = []\<rparr>,
     lpc = (\<lambda>th. if th < n then LTop else LIdle), lf_returned = [], lf_lost = [], lf_executed = [], lf_released = 0, lf_aborted = False\<rparr>"

lemma new_queue_2: "MPMCQueue_new 2 = \<lparr>cells = [\<lparr>cseq = 0, cdata = None\<rparr>, \<lparr>cseq = 1, cdata = None\<rparr>], enqueuePos = 0, dequeuePos = 0\<rparr>"
  by (simp add: MPMCQueue_new_def upt_rec)

lemma fresh_lf_reach:
  assumes "0 < n"
  shows "reach (lf_init nd 2 n) (lf_step nd 2 n) (fresh_lf n)"
proof (rule reach_init)
  have "lpool (fresh_lf n) = \<lparr>lf_name = ''p'', lf_running = True, lf_numThreads = int n, slotsSem = 2, itemsSem = 0,
      lf_threads = map (started_thread ''p'') [0..<n]\<rparr>" by (simp add: fresh_lf_def)
  then have "LockFreeThreadPool_start nd ((LockFreeThreadPool_new 2 ''p'')\<lparr>lf_numThreads := int n\<rparr>) = Inr (lpool (fresh_lf n))"
    unfolding LockFreeThreadPool_start_eq [OF assms] by simp
  then show "lf_init nd 2 n (fresh_lf n)"
    using assms unfolding lf_init_def by (auto simp: fresh_lf_def mpmc_init_def new_queue_2)
qed

abbreviation lf_run :: "bool \<Rightarrow> nat \<Rightarrow> 'a lf_action list \<Rightarrow> 'a lf_sys \<Rightarrow> 'a lf_sys option" where
  "lf_run nd n \<equiv> run_exec (lf_exec nd 2 n)"

lemma lf_run_reach:
  assumes "0 < n" "lf_run nd n as (fresh_lf n) = Some t"
  shows "reach (lf_init nd 2 n) (lf_step nd 2 n) t"
  by (rule run_exec_reach [OF _ fresh_lf_reach [OF assms(1)] assms(2)]) (auto simp: lf_step_def)

text \<open>Complete calls: nine steps of a producer, eleven of a worker.\<close>

abbreviation "producer k th \<equiv> replicate k (LfProducer False th)"
abbreviation "worker k th \<equiv> replicate k (LfWorker False th)"

lemma replicate_num: "replicate (numeral k) x = x # replicate (pred_numeral k) x"
  by (simp add: numeral_eq_Suc)

lemma slot_two: "slot 2 pos = pos mod 2"
  by (simp add: slot_def and_one_eq)

lemmas lf_eval = replicate_num slot_two lf_exec_def lf_producer_def lf_worker_def at_pc_def set_qpc_def queue_micro_def Let_def fresh_lf_def
  MPMCQueue_variant_def to_intptr_def szadd_def size_mod_def set_cell_def note_enq_def note_deq_def

text \<open>
  With two tasks queued, worker 0 claims the first and stalls; worker 1 takes the second and gives a slot back; the
  producer that acquires it finds the next cell still occupied by worker 0.
\<close>

definition refused_run :: "nat lf_action list" where
  "refused_run = LfRun 2 7 # producer 9 2 @ LfRun 2 8 # producer 9 2 @ worker 6 0 @ worker 10 1 @ LfRun 2 9 # producer 5 2"

lemma refused_run_nd:
  "\<exists>t. lf_run True 2 refused_run (fresh_lf 2) = Some t \<and> lf_returned t = [7, 8, 9] \<and> lf_lost t = [9] \<and> enqd (lque t) = [7, 8]"
  by (simp add: refused_run_def lf_eval)

lemma refused_run_debug: "\<exists>t. lf_run False 2 refused_run (fresh_lf 2) = Some t \<and> lf_aborted t"
  by (simp add: refused_run_def lf_eval)

text \<open>
  Producer 1 claims the first cell and stalls; producer 2 fills the second and releases an item; the worker that
  acquires it finds the first cell not written yet and goes back to waiting, its permit spent.
\<close>

definition stranded_run :: "nat lf_action list" where
  "stranded_run = LfRun 1 7 # producer 5 1 @ LfRun 2 8 # producer 9 2 @ worker 7 0 @ producer 4 1 @ worker 11 0"

lemma stranded_run_value:
  "\<exists>t. lf_run nd 1 stranded_run (fresh_lf 1) = Some t \<and> lf_returned t = [8, 7] \<and> lf_lost t = [] \<and> lf_executed t = [7] \<and>
     map cdata (cells (que (lque t))) = [None, Some 8] \<and> itemsSem (lpool t) = 0 \<and> (\<forall>th. lpc t th = LIdle \<or> lpc t th = LAcquire)"
  by (simp add: stranded_run_def lf_eval)

text \<open>
  a free slot does not mean that enqueue succeeds, nor an available item that dequeue does.  With two workers, a
  producer that holds a permit is refused by the queue: its task is dropped while run returns true, or the assertion
  fails.  With one worker, a worker that holds a permit finds nothing: both tasks are accepted, one is run, and the
  other stays in the queue while every thread waits or is outside and no step of theirs is possible.
\<close>

theorem LockFreeThreadPool_loses_tasks:
  "(\<exists>s :: nat lf_sys. reach (lf_init True 2 2) (lf_step True 2 2) s \<and>
      lf_returned s = [7, 8, 9] \<and> lf_lost s = [9] \<and> enqd (lque s) = [7, 8]) \<and>
   (\<exists>s :: nat lf_sys. reach (lf_init False 2 2) (lf_step False 2 2) s \<and> lf_aborted s) \<and>
   (\<exists>s :: nat lf_sys. reach (lf_init nd 2 1) (lf_step nd 2 1) s \<and> lf_returned s = [8, 7] \<and> lf_executed s = [7] \<and>
      map cdata (cells (que (lque s))) = [None, Some 8] \<and>
      (\<forall>weak th. lf_exec nd 2 1 (LfProducer weak th) s = None \<and> lf_exec nd 2 1 (LfWorker weak th) s = None \<and>
         lf_exec nd 2 1 (LfStopper th) s = None))"
proof (intro conjI)
  show "\<exists>s :: nat lf_sys. reach (lf_init True 2 2) (lf_step True 2 2) s \<and> lf_returned s = [7, 8, 9] \<and> lf_lost s = [9] \<and> enqd (lque s) = [7, 8]"
    using refused_run_nd lf_run_reach [of 2] by fastforce
  show "\<exists>s :: nat lf_sys. reach (lf_init False 2 2) (lf_step False 2 2) s \<and> lf_aborted s"
    using refused_run_debug lf_run_reach [of 2] by fastforce
  obtain t where t: "lf_run nd 1 stranded_run (fresh_lf 1) = Some t" "lf_returned t = [8, 7]" "lf_executed t = [7]"
      "map cdata (cells (que (lque t))) = [None, Some 8]" "itemsSem (lpool t) = 0" "\<And>th. lpc t th = LIdle \<or> lpc t th = LAcquire"
    using stranded_run_value [of nd] by metis
  have "lf_exec nd 2 1 (LfProducer weak th) t = None \<and> lf_exec nd 2 1 (LfWorker weak th) t = None \<and> lf_exec nd 2 1 (LfStopper th) t = None" for weak th
    using t(5) t(6) [of th] by (auto simp: lf_exec_def lf_producer_def lf_worker_def lf_stopper_def)
  moreover have "reach (lf_init nd 2 1) (lf_step nd 2 1) t" by (rule lf_run_reach [OF _ t(1)]) simp
  ultimately show "\<exists>s :: nat lf_sys. reach (lf_init nd 2 1) (lf_step nd 2 1) s \<and> lf_returned s = [8, 7] \<and> lf_executed s = [7] \<and>
      map cdata (cells (que (lque s))) = [None, Some 8] \<and>
      (\<forall>weak th. lf_exec nd 2 1 (LfProducer weak th) s = None \<and> lf_exec nd 2 1 (LfWorker weak th) s = None \<and>
         lf_exec nd 2 1 (LfStopper th) s = None)"
    using t by (intro exI [of _ t]) simp
qed

text \<open>One task accepted by a pool of one worker and run.\<close>

lemma one_task_run:
  "\<exists>t. lf_run True 1 (LfRun 1 7 # producer 9 1 @ worker 11 0) (fresh_lf 1) = Some t \<and> lf_executed t = [7] \<and> slotsSem (lpool t) = 2"
  by (simp add: lf_eval)

theorem LockFreeThreadPool_reachable_witness:
  "\<exists>s :: nat lf_sys. reach (lf_init True 2 1) (lf_step True 2 1) s \<and> lf_executed s = [7] \<and> slotsSem (lpool s) = 2 \<and>
     itemsSem (lpool s) + card {th. permit (lpc s th)} \<le> lf_released s \<and> mset (map snd (deqd (lque s))) = {#7#} + (\<Sum>th<1. hand (lpc s th) (pcs (lque s) th))"
proof -
  obtain t where t: "lf_run True 1 (LfRun 1 7 # producer 9 1 @ worker 11 0) (fresh_lf 1) = Some t" "lf_executed t = [7]" "slotsSem (lpool t) = 2"
    using one_task_run by blast
  have r: "reach (lf_init True 2 1) (lf_step True 2 1) t" by (rule lf_run_reach [OF _ t(1)]) simp
  show ?thesis
    using LockFreeThreadPool_reachable [OF r] r t(2,3) by (intro exI [of _ t]) simp
qed

end
