(* ===== verification/BlockPool.thy ===== *)
theory BlockPool
  imports Prelude
begin

text \<open>
  Pools of blocks of one size, \<^verbatim>\<open>pool/FixedBlockPool.h\<close> and \<^verbatim>\<open>pool/SlabAllocator.h\<close>, and the pool of coroutine frames
  built from five of them, \<^verbatim>\<open>pool/CoroutinePool.h\<close>.  Each pool has the part of memory that lies in its chunks.

  A free block holds in its first word the address of the next one.  \<open>chain\<close> says that such a list lies in
  memory.  The result of \<^verbatim>\<open>::operator new\<close> is a parameter, \<open>None\<close> if it throws; what it promises of an address (its region is
  none of those handed out before) is the hypothesis \<open>fresh_chunk\<close>.
\<close>

section \<open>Linked free lists\<close>

fun chain :: "(nat \<Rightarrow> nat) \<Rightarrow> nat \<Rightarrow> nat list \<Rightarrow> bool" where
  "chain m p [] \<longleftrightarrow> p = 0"
| "chain m p (x # xs) \<longleftrightarrow> p = x \<and> x \<noteq> 0 \<and> chain m (m x) xs"

lemma chain_cong: "(\<And>x. x \<in> set xs \<Longrightarrow> m' x = m x) \<Longrightarrow> chain m' p xs = chain m p xs"
  by (induction xs arbitrary: p) auto

lemma chain_push: "chain m p xs \<Longrightarrow> x \<notin> set xs \<Longrightarrow> x \<noteq> 0 \<Longrightarrow> chain (m(x := p)) x (x # xs)"
proof -
  assume a: "chain m p xs" "x \<notin> set xs" "x \<noteq> 0"
  have "chain (m(x := p)) p xs = chain m p xs" by (rule chain_cong) (use a in auto)
  then show "chain (m(x := p)) x (x # xs)" using a by simp
qed

lemma chain_nonnull: "chain m p xs \<Longrightarrow> 0 \<notin> set xs"
  by (induction xs arbitrary: p) auto

lemma chain_pop: "chain m p xs \<Longrightarrow> p \<noteq> 0 \<Longrightarrow> \<exists>ys. xs = p # ys \<and> chain m (m p) ys"
  by (cases xs) auto

lemma chain_null: "chain m p xs \<Longrightarrow> p = 0 \<longleftrightarrow> xs = []"
  by (cases xs) auto

text \<open>Two regions of memory that do not overlap.\<close>

definition apart :: "nat \<Rightarrow> nat \<Rightarrow> nat \<Rightarrow> nat \<Rightarrow> bool" where
  "apart a m b n \<longleftrightarrow> a + m \<le> b \<or> b + n \<le> a"

lemma apart_sym: "apart a m b n \<longleftrightarrow> apart b n a m"
  by (auto simp: apart_def)

lemma apart_within: "apart a m b n \<Longrightarrow> b \<le> c \<Longrightarrow> c + k \<le> b + n \<Longrightarrow> apart a m c k"
  by (auto simp: apart_def)

lemma apart_ne: "apart a m b n \<Longrightarrow> 0 < m \<Longrightarrow> 0 < n \<Longrightarrow> a \<noteq> b"
  by (auto simp: apart_def)

section \<open>Stores of blocks\<close>

record block_store =
  freeList :: nat
  bmem :: "nat \<Rightarrow> nat"
  chunks :: "nat list"

definition push_node :: "nat \<Rightarrow> 'z block_store_scheme \<Rightarrow> 'z block_store_scheme" where
  "push_node p s = s\<lparr>bmem := (bmem s)(p := freeList s), freeList := p\<rparr>"

definition pop_node :: "'z block_store_scheme \<Rightarrow> (nat \<times> 'z block_store_scheme) result" where
  "pop_node s = (if freeList s = 0 then Inl Undefined else Inr (freeList s, s\<lparr>freeList := bmem s (freeList s)\<rparr>))"

definition link_blocks :: "nat \<Rightarrow> nat \<Rightarrow> nat \<Rightarrow> 'z block_store_scheme \<Rightarrow> 'z block_store_scheme" where
  "link_blocks mem sz k s = foldl (\<lambda>s i. push_node (mem + i * sz) s) s [0..<k]"

subsection \<open>Blocks of fixed size\<close>

record FixedBlockPool = block_store +
  allocated :: nat
  freed :: nat

definition kChunkSize :: nat where "kChunkSize = 64"

definition FixedBlockPool_allocateChunk :: "nat \<Rightarrow> nat \<Rightarrow> FixedBlockPool \<Rightarrow> FixedBlockPool" where
  "FixedBlockPool_allocateChunk N mem s = link_blocks mem N kChunkSize (s\<lparr>chunks := chunks s @ [mem]\<rparr>)"

definition FixedBlockPool_new :: "nat \<Rightarrow> nat option \<Rightarrow> (nat \<Rightarrow> nat) \<Rightarrow> FixedBlockPool result" where
  "FixedBlockPool_new N mem m0 = (case mem of None \<Rightarrow> Inl BadAlloc
     | Some a \<Rightarrow> Inr (FixedBlockPool_allocateChunk N a \<lparr>freeList = 0, bmem = m0, chunks = [], allocated = 0, freed = 0\<rparr>))"

definition FixedBlockPool_allocate :: "nat \<Rightarrow> nat option \<Rightarrow> FixedBlockPool \<Rightarrow> (nat \<times> FixedBlockPool) result" where
  "FixedBlockPool_allocate N mem s =
     bindR (if freeList s = 0 then (case mem of None \<Rightarrow> Inl BadAlloc | Some a \<Rightarrow> Inr (FixedBlockPool_allocateChunk N a s)) else Inr s)
       (\<lambda>s1. bindR (pop_node s1) (\<lambda>(p, s2). Inr (p, s2\<lparr>allocated := szadd (allocated s2) 1\<rparr>)))"

definition FixedBlockPool_deallocate :: "nat \<Rightarrow> FixedBlockPool \<Rightarrow> FixedBlockPool" where
  "FixedBlockPool_deallocate p s = (if p = 0 then s else (push_node p s)\<lparr>freed := szadd (freed s) 1\<rparr>)"

definition FixedBlockPool_destroy :: "FixedBlockPool \<Rightarrow> nat list" where
  "FixedBlockPool_destroy s = chunks s"

subsection \<open>Slabs of objects\<close>

record SlabAllocator = block_store +
  objectSize :: nat
  objectsPerSlab :: nat

definition SlabAllocator_new :: "nat \<Rightarrow> nat \<Rightarrow> (nat \<Rightarrow> nat) \<Rightarrow> SlabAllocator" where
  "SlabAllocator_new sz k m0 = \<lparr>freeList = 0, bmem = m0, chunks = [], objectSize = max sz 8, objectsPerSlab = k\<rparr>"

definition SlabAllocator_deallocate :: "nat \<Rightarrow> SlabAllocator \<Rightarrow> SlabAllocator" where
  "SlabAllocator_deallocate p s = (if p = 0 then s else push_node p s)"

definition SlabAllocator_allocateSlab :: "nat \<Rightarrow> SlabAllocator \<Rightarrow> SlabAllocator" where
  "SlabAllocator_allocateSlab mem s = foldl (\<lambda>s i. SlabAllocator_deallocate (mem + i * objectSize s) s)
     (s\<lparr>chunks := chunks s @ [mem]\<rparr>) [0..<objectsPerSlab s]"

definition SlabAllocator_allocate :: "nat option \<Rightarrow> SlabAllocator \<Rightarrow> (nat \<times> SlabAllocator) result" where
  "SlabAllocator_allocate mem s =
     bindR (if freeList s = 0 then (case mem of None \<Rightarrow> Inl BadAlloc | Some a \<Rightarrow> Inr (SlabAllocator_allocateSlab a s)) else Inr s) pop_node"

definition SlabAllocator_destroy :: "SlabAllocator \<Rightarrow> nat list" where
  "SlabAllocator_destroy s = chunks s"

subsection \<open>Coroutine frames\<close>

record CoroutinePool =
  slab256 :: FixedBlockPool
  slab512 :: FixedBlockPool
  slab1k :: FixedBlockPool
  slab2k :: FixedBlockPool
  slab4k :: FixedBlockPool
  globAlloc :: nat
  globFree :: nat

definition CoroutinePool_allocate :: "nat option \<Rightarrow> nat \<Rightarrow> CoroutinePool \<Rightarrow> (nat \<times> CoroutinePool) result" where
  "CoroutinePool_allocate mem sz s =
     (if sz \<le> 256 then bindR (FixedBlockPool_allocate 256 mem (slab256 s)) (\<lambda>(p, b). Inr (p, s\<lparr>slab256 := b\<rparr>))
      else if sz \<le> 512 then bindR (FixedBlockPool_allocate 512 mem (slab512 s)) (\<lambda>(p, b). Inr (p, s\<lparr>slab512 := b\<rparr>))
      else if sz \<le> 1024 then bindR (FixedBlockPool_allocate 1024 mem (slab1k s)) (\<lambda>(p, b). Inr (p, s\<lparr>slab1k := b\<rparr>))
      else if sz \<le> 2048 then bindR (FixedBlockPool_allocate 2048 mem (slab2k s)) (\<lambda>(p, b). Inr (p, s\<lparr>slab2k := b\<rparr>))
      else if sz \<le> 4096 then bindR (FixedBlockPool_allocate 4096 mem (slab4k s)) (\<lambda>(p, b). Inr (p, s\<lparr>slab4k := b\<rparr>))
      else (case mem of None \<Rightarrow> Inl BadAlloc | Some a \<Rightarrow> Inr (a, s\<lparr>globAlloc := szadd (globAlloc s) 1\<rparr>)))"

text \<open>The flag says that the block goes to \<^verbatim>\<open>::operator delete\<close>.\<close>

definition CoroutinePool_deallocate :: "nat \<Rightarrow> nat \<Rightarrow> CoroutinePool \<Rightarrow> bool \<times> CoroutinePool" where
  "CoroutinePool_deallocate p sz s =
     (if sz \<le> 256 then (False, s\<lparr>slab256 := FixedBlockPool_deallocate p (slab256 s)\<rparr>)
      else if sz \<le> 512 then (False, s\<lparr>slab512 := FixedBlockPool_deallocate p (slab512 s)\<rparr>)
      else if sz \<le> 1024 then (False, s\<lparr>slab1k := FixedBlockPool_deallocate p (slab1k s)\<rparr>)
      else if sz \<le> 2048 then (False, s\<lparr>slab2k := FixedBlockPool_deallocate p (slab2k s)\<rparr>)
      else if sz \<le> 4096 then (False, s\<lparr>slab4k := FixedBlockPool_deallocate p (slab4k s)\<rparr>)
      else (True, s\<lparr>globFree := szadd (globFree s) 1\<rparr>))"

section \<open>Correctness\<close>

text \<open>
  The blocks of a pool whose chunks hold \<open>k\<close> blocks of \<open>sz\<close> bytes each; what \<^verbatim>\<open>::operator new\<close> promises of a chunk; and
  the state of a pool whose client holds the blocks \<open>live\<close>.
\<close>

definition block_set :: "nat \<Rightarrow> nat \<Rightarrow> nat list \<Rightarrow> nat set" where
  "block_set sz k cs = {c + i * sz |c i. c \<in> set cs \<and> i < k}"

definition chunks_ok :: "nat \<Rightarrow> nat \<Rightarrow> nat list \<Rightarrow> bool" where
  "chunks_ok sz k cs \<longleftrightarrow> 0 \<notin> set cs \<and> sorted_wrt (\<lambda>c d. apart c (k * sz) d (k * sz)) cs"

definition fresh_chunk :: "nat \<Rightarrow> nat \<Rightarrow> nat \<Rightarrow> nat list \<Rightarrow> bool" where
  "fresh_chunk sz k m cs \<longleftrightarrow> m \<noteq> 0 \<and> (\<forall>c \<in> set cs. apart c (k * sz) m (k * sz))"

definition store_ok :: "nat \<Rightarrow> nat \<Rightarrow> nat set \<Rightarrow> 'z block_store_scheme \<Rightarrow> bool" where
  "store_ok sz k live s \<longleftrightarrow> (\<exists>free. chain (bmem s) (freeList s) free \<and> distinct free \<and> set free \<inter> live = {} \<and>
     set free \<union> live = block_set sz k (chunks s)) \<and> chunks_ok sz k (chunks s)"

locale blocks =
  fixes sz k :: nat
  assumes word_fits: "8 \<le> sz" and some_block: "0 < k"
begin

lemma sz_pos [simp]: "0 < sz"
  using word_fits by simp

lemma chunks_apart:
  assumes "chunks_ok sz k cs" "c \<in> set cs" "d \<in> set cs" "c \<noteq> d"
  shows "apart c (k * sz) d (k * sz)"
  using assms unfolding chunks_ok_def by (induction cs) (auto simp: apart_sym)

lemma block_bounds: "b \<in> block_set sz k cs \<Longrightarrow> \<exists>c \<in> set cs. c \<le> b \<and> b + sz \<le> c + k * sz"
proof -
  assume "b \<in> block_set sz k cs"
  then obtain c i where b: "b = c + i * sz" "c \<in> set cs" "i < k" by (auto simp: block_set_def)
  have "Suc i * sz \<le> k * sz" using b(3) by (intro mult_le_mono1) simp
  then show ?thesis using b by (intro bexI [of _ c]) auto
qed

lemma blocks_apart:
  assumes "chunks_ok sz k cs" "b \<in> block_set sz k cs" "b' \<in> block_set sz k cs" "b \<noteq> b'"
  shows "apart b sz b' sz"
proof -
  obtain c i where b: "b = c + i * sz" "c \<in> set cs" "i < k" using assms(2) by (auto simp: block_set_def)
  obtain d j where b': "b' = d + j * sz" "d \<in> set cs" "j < k" using assms(3) by (auto simp: block_set_def)
  show ?thesis
  proof (cases "c = d")
    case True
    then have "i < j \<or> j < i" using b b' assms(4) by auto
    then have "Suc i * sz \<le> j * sz \<or> Suc j * sz \<le> i * sz" by (auto intro: mult_le_mono1 simp del: mult_Suc)
    then show ?thesis using True b b' by (auto simp: apart_def)
  next
    case False
    have "apart c (k * sz) d (k * sz)" by (rule chunks_apart [OF assms(1) b(2) b'(2) False])
    moreover have "Suc i * sz \<le> k * sz" "Suc j * sz \<le> k * sz" using b(3) b'(3) by (auto intro!: mult_le_mono1 simp del: mult_Suc)
    ultimately show ?thesis using b(1) b'(1) by (auto simp: apart_def)
  qed
qed

lemma block_nonnull: "chunks_ok sz k cs \<Longrightarrow> b \<in> block_set sz k cs \<Longrightarrow> b \<noteq> 0"
  using block_bounds [of b cs] unfolding chunks_ok_def by (metis le_zero_eq)

lemma store_ok_push:
  assumes ok: "store_ok sz k live s" and p: "p \<in> live"
  shows "store_ok sz k (live - {p}) (push_node p s)"
proof -
  obtain free where f: "chain (bmem s) (freeList s) free" "distinct free" "set free \<inter> live = {}"
      "set free \<union> live = block_set sz k (chunks s)" "chunks_ok sz k (chunks s)"
    using ok by (auto simp: store_ok_def)
  have "p \<noteq> 0" using f(4,5) p block_nonnull by blast
  moreover have "p \<notin> set free" using f(3) p by blast
  ultimately have "chain ((bmem s)(p := freeList s)) p (p # free)" by (intro chain_push [OF f(1)])
  moreover have "set (p # free) \<union> (live - {p}) = block_set sz k (chunks s)" "set (p # free) \<inter> (live - {p}) = {}" using f(3,4) p by auto
  ultimately show ?thesis using f(2,5) \<open>p \<notin> set free\<close>
    unfolding store_ok_def by (intro conjI exI [of _ "p # free"]) (simp_all add: push_node_def)
qed

text \<open>What the client writes into its own blocks does not disturb the free list.\<close>

lemma store_ok_write:
  assumes ok: "store_ok sz k live s" and p: "p \<in> live" "p \<le> a" "a < p + sz"
  shows "store_ok sz k live (s\<lparr>bmem := (bmem s)(a := v)\<rparr>)"
proof -
  obtain free where f: "chain (bmem s) (freeList s) free" "distinct free" "set free \<inter> live = {}"
      "set free \<union> live = block_set sz k (chunks s)" "chunks_ok sz k (chunks s)"
    using ok by (auto simp: store_ok_def)
  have "a \<noteq> x" if "x \<in> set free" for x
  proof
    assume "a = x"
    then have "x \<noteq> p" using f(3) p(1) that by blast
    then have "apart p sz x sz" using f(4,5) p(1) that by (intro blocks_apart) auto
    then show False using p \<open>a = x\<close> by (auto simp: apart_def)
  qed
  then have "chain ((bmem s)(a := v)) (freeList s) free" using f(1) by (subst chain_cong [of free _ "bmem s"]) auto
  then show ?thesis using f unfolding store_ok_def by auto
qed

lemma store_ok_pop:
  assumes ok: "store_ok sz k live s" and ne: "freeList s \<noteq> 0"
  shows "\<exists>p s'. pop_node s = Inr (p, s') \<and> p \<notin> live \<and> p \<in> block_set sz k (chunks s) \<and> chunks s' = chunks s \<and> store_ok sz k (insert p live) s'"
proof -
  obtain free where f: "chain (bmem s) (freeList s) free" "distinct free" "set free \<inter> live = {}"
      "set free \<union> live = block_set sz k (chunks s)" "chunks_ok sz k (chunks s)"
    using ok by (auto simp: store_ok_def)
  obtain ys where ys: "free = freeList s # ys" "chain (bmem s) (bmem s (freeList s)) ys" using chain_pop [OF f(1) ne] by blast
  have "store_ok sz k (insert (freeList s) live) (s\<lparr>freeList := bmem s (freeList s)\<rparr>)"
    using f ys unfolding store_ok_def by (intro conjI exI [of _ ys]) auto
  then show ?thesis using f ys ne by (auto simp: pop_node_def)
qed

lemma link_blocks_chain:
  assumes "chain (bmem s) (freeList s) []" "m \<noteq> 0"
  shows "chain (bmem (link_blocks m sz n s)) (freeList (link_blocks m sz n s)) (rev (map (\<lambda>i. m + i * sz) [0..<n])) \<and>
    chunks (link_blocks m sz n s) = chunks s"
proof (induction n)
  case 0
  then show ?case using assms by (simp add: link_blocks_def)
next
  case (Suc n)
  let ?l = "link_blocks m sz n s"
  have more: "link_blocks m sz (Suc n) s = push_node (m + n * sz) ?l" by (simp add: link_blocks_def)
  have "m + n * sz \<notin> set (rev (map (\<lambda>i. m + i * sz) [0..<n]))" using word_fits by auto
  then have "chain ((bmem ?l)(m + n * sz := freeList ?l)) (m + n * sz) ((m + n * sz) # rev (map (\<lambda>i. m + i * sz) [0..<n]))"
    using Suc assms(2) by (intro chain_push) auto
  then show ?case unfolding more using Suc by (simp add: push_node_def del: fun_upd_apply chain.simps)
qed

lemma store_ok_chunk:
  assumes ok: "store_ok sz k live s" and empty: "freeList s = 0" and fresh: "fresh_chunk sz k m (chunks s)"
  shows "store_ok sz k live (link_blocks m sz k (s\<lparr>chunks := chunks s @ [m]\<rparr>)) \<and> freeList (link_blocks m sz k (s\<lparr>chunks := chunks s @ [m]\<rparr>)) \<noteq> 0"
proof -
  let ?s = "link_blocks m sz k (s\<lparr>chunks := chunks s @ [m]\<rparr>)"
  let ?new = "map (\<lambda>i. m + i * sz) [0..<k]"
  obtain free where f: "chain (bmem s) (freeList s) free" "set free \<union> live = block_set sz k (chunks s)" "chunks_ok sz k (chunks s)"
    using ok by (auto simp: store_ok_def)
  have live: "live = block_set sz k (chunks s)" using f(1,2) empty chain_null by fastforce
  have m: "m \<noteq> 0" "\<And>c. c \<in> set (chunks s) \<Longrightarrow> apart c (k * sz) m (k * sz)" using fresh by (auto simp: fresh_chunk_def)
  have ch: "chain (bmem ?s) (freeList ?s) (rev ?new)" "chunks ?s = chunks s @ [m]"
    using link_blocks_chain [of "s\<lparr>chunks := chunks s @ [m]\<rparr>" m k] empty m(1) by simp_all
  have cs: "chunks_ok sz k (chunks s @ [m])" using f(3) m by (auto simp: chunks_ok_def sorted_wrt_append)
  have new: "set ?new = block_set sz k [m]" by (auto simp: block_set_def)
  have "set ?new \<inter> live = {}"
  proof -
    have "False" if b1: "b \<in> block_set sz k [m]" and b2: "b \<in> block_set sz k (chunks s)" for b
    proof -
      obtain c where c: "c \<in> set (chunks s)" "c \<le> b" "b + sz \<le> c + k * sz" using block_bounds [OF b2] by blast
      have "m \<le> b" "b + sz \<le> m + k * sz" using block_bounds [OF b1] by auto
      then show False using m(2) [OF c(1)] c sz_pos unfolding apart_def by linarith
    qed
    then show ?thesis using live new by blast
  qed
  moreover have "set ?new \<union> live = block_set sz k (chunks s @ [m])" using live new by (auto simp: block_set_def)
  moreover have "distinct ?new" using word_fits by (auto simp: distinct_map inj_on_def)
  ultimately have "store_ok sz k live ?s"
    using ch cs unfolding store_ok_def by (intro conjI exI [of _ "rev ?new"]) simp_all
  moreover have "freeList ?s \<noteq> 0" using ch(1) chain_null some_block by fastforce
  ultimately show ?thesis by simp
qed

text \<open>Allocation: a new chunk is linked in if there is no free block, then the first free block is taken.\<close>

lemma alloc_ok:
  assumes ok: "store_ok sz k live s" and fresh: "fresh_chunk sz k m (chunks s)"
  shows "\<exists>p s'. pop_node (if freeList s = 0 then link_blocks m sz k (s\<lparr>chunks := chunks s @ [m]\<rparr>) else s) = Inr (p, s') \<and>
    store_ok sz k (insert p live) s' \<and> p \<notin> live \<and> p \<noteq> 0 \<and> (\<forall>q \<in> live. apart p sz q sz) \<and>
    (\<exists>c \<in> set (chunks s'). c \<le> p \<and> p + sz \<le> c + k * sz) \<and>
    chunks s' = (if freeList s = 0 then chunks s @ [m] else chunks s)"
proof -
  let ?s = "if freeList s = 0 then link_blocks m sz k (s\<lparr>chunks := chunks s @ [m]\<rparr>) else s"
  have "store_ok sz k live ?s" "freeList ?s \<noteq> 0" using store_ok_chunk [OF ok _ fresh] ok by auto
  then obtain p s' where p: "pop_node ?s = Inr (p, s')" "p \<notin> live" "p \<in> block_set sz k (chunks ?s)" "chunks s' = chunks ?s"
      "store_ok sz k (insert p live) s'"
    using store_ok_pop by blast
  have ok': "chunks_ok sz k (chunks s')" "insert p live \<subseteq> block_set sz k (chunks s')" using p(5) by (auto simp: store_ok_def)
  have "apart p sz q sz" if "q \<in> live" for q
    using ok' p(2) that by (intro blocks_apart [OF ok'(1)]) auto
  moreover have "p \<noteq> 0" using ok' block_nonnull by blast
  moreover have "\<exists>c \<in> set (chunks s'). c \<le> p \<and> p + sz \<le> c + k * sz" using ok'(2) block_bounds by blast
  moreover have "chunks ?s = (if freeList s = 0 then chunks s @ [m] else chunks s)"
  proof (cases "freeList s = 0")
    case True
    have "m \<noteq> 0" using fresh by (simp add: fresh_chunk_def)
    then show ?thesis using True link_blocks_chain [of "s\<lparr>chunks := chunks s @ [m]\<rparr>" m k] by simp
  qed simp
  ultimately show ?thesis using p by (intro exI [of _ p] exI [of _ s']) (simp only:, simp)
qed

lemma store_ok_empty: "freeList s = 0 \<Longrightarrow> chunks s = [] \<Longrightarrow> store_ok sz k {} s"
  unfolding store_ok_def by (intro conjI exI [of _ "[]"]) (simp_all add: block_set_def chunks_ok_def)

end

lemma store_ok_cong:
  "freeList s' = freeList s \<Longrightarrow> bmem s' = bmem s \<Longrightarrow> chunks s' = chunks s \<Longrightarrow> store_ok sz k live s' = store_ok sz k live s"
  by (simp add: store_ok_def)

text \<open>The block sizes of the coroutine pool.\<close>

interpretation frames_256: blocks 256 kChunkSize by unfold_locales (simp_all add: kChunkSize_def)
interpretation frames_512: blocks 512 kChunkSize by unfold_locales (simp_all add: kChunkSize_def)
interpretation frames_1k: blocks 1024 kChunkSize by unfold_locales (simp_all add: kChunkSize_def)
interpretation frames_2k: blocks 2048 kChunkSize by unfold_locales (simp_all add: kChunkSize_def)
interpretation frames_4k: blocks 4096 kChunkSize by unfold_locales (simp_all add: kChunkSize_def)

lemma fixed_blocks: "8 \<le> N \<Longrightarrow> blocks N kChunkSize"
  by unfold_locales (simp_all add: kChunkSize_def)

subsection \<open>Histories of a fixed-size pool\<close>

text \<open>
  The client allocates, writes into blocks it holds and gives them back.  A chunk that \<^verbatim>\<open>operator new\<close> returns is
  fresh; the constructor has allocated the first.
\<close>

inductive fbp_step :: "nat \<Rightarrow> FixedBlockPool \<times> nat set \<Rightarrow> FixedBlockPool \<times> nat set \<Rightarrow> bool" for N where
  fbp_alloc: "FixedBlockPool_allocate N (Some m) s = Inr (p, s') \<Longrightarrow> fresh_chunk N kChunkSize m (chunks s) \<Longrightarrow>
    fbp_step N (s, live) (s', insert p live)"
| fbp_free: "p \<in> live \<Longrightarrow> fbp_step N (s, live) (FixedBlockPool_deallocate p s, live - {p})"
| fbp_write: "p \<in> live \<Longrightarrow> p \<le> a \<Longrightarrow> a < p + N \<Longrightarrow> fbp_step N (s, live) (s\<lparr>bmem := (bmem s)(a := v)\<rparr>, live)"

definition fbp_init :: "nat \<Rightarrow> FixedBlockPool \<times> nat set \<Rightarrow> bool" where
  "fbp_init N sl \<longleftrightarrow> snd sl = {} \<and> (\<exists>m m0. m \<noteq> 0 \<and> FixedBlockPool_new N (Some m) m0 = Inr (fst sl))"

definition fbp_inv :: "nat \<Rightarrow> FixedBlockPool \<times> nat set \<Rightarrow> bool" where
  "fbp_inv N sl \<longleftrightarrow> store_ok N kChunkSize (snd sl) (fst sl) \<and> finite (snd sl) \<and>
     allocated (fst sl) mod size_mod = (freed (fst sl) + card (snd sl)) mod size_mod"

lemma FixedBlockPool_allocate_eq:
  "FixedBlockPool_allocate N (Some m) s = bindR (pop_node (if freeList s = 0 then link_blocks m N kChunkSize (s\<lparr>chunks := chunks s @ [m]\<rparr>) else s))
     (\<lambda>(p, s2). Inr (p, s2\<lparr>allocated := szadd (allocated s2) 1\<rparr>))"
  by (simp add: FixedBlockPool_allocate_def FixedBlockPool_allocateChunk_def)

lemma link_blocks_counts:
  "allocated (link_blocks m sz n s) = allocated s \<and> freed (link_blocks m sz n s) = freed s"
  by (induction n) (simp_all add: link_blocks_def push_node_def)

lemma pop_node_counts: "pop_node s = Inr (p, s') \<Longrightarrow> allocated s' = allocated s \<and> freed s' = freed s"
  by (auto simp: pop_node_def split: if_splits)

lemma FixedBlockPool_allocate_ok:
  assumes N: "8 \<le> N" and ok: "store_ok N kChunkSize live s" and fresh: "fresh_chunk N kChunkSize m (chunks s)"
  shows "\<exists>p s'. FixedBlockPool_allocate N (Some m) s = Inr (p, s') \<and> store_ok N kChunkSize (insert p live) s' \<and> p \<notin> live \<and> p \<noteq> 0 \<and>
    (\<forall>q \<in> live. apart p N q N) \<and> (\<exists>c \<in> set (chunks s'). c \<le> p \<and> p + N \<le> c + kChunkSize * N) \<and>
    chunks s' = (if freeList s = 0 then chunks s @ [m] else chunks s) \<and> allocated s' = szadd (allocated s) 1 \<and> freed s' = freed s"
proof -
  obtain p s' where p: "pop_node (if freeList s = 0 then link_blocks m N kChunkSize (s\<lparr>chunks := chunks s @ [m]\<rparr>) else s) = Inr (p, s')"
    "store_ok N kChunkSize (insert p live) s'" "p \<notin> live" "p \<noteq> 0" "\<forall>q \<in> live. apart p N q N"
    "\<exists>c \<in> set (chunks s'). c \<le> p \<and> p + N \<le> c + kChunkSize * N" "chunks s' = (if freeList s = 0 then chunks s @ [m] else chunks s)"
    using blocks.alloc_ok [OF fixed_blocks [OF N] ok fresh] by blast
  have "allocated s' = allocated s \<and> freed s' = freed s"
    using pop_node_counts [OF p(1)] by (auto simp: link_blocks_counts)
  then show ?thesis unfolding FixedBlockPool_allocate_eq p(1) using p(2-)
    by (auto simp: store_ok_cong [of "s'\<lparr>allocated := _\<rparr>" s'])
qed

lemma FixedBlockPool_deallocate_ok:
  assumes N: "8 \<le> N" and ok: "store_ok N kChunkSize live s" and p: "p \<in> live"
  shows "store_ok N kChunkSize (live - {p}) (FixedBlockPool_deallocate p s) \<and> chunks (FixedBlockPool_deallocate p s) = chunks s \<and>
    allocated (FixedBlockPool_deallocate p s) = allocated s \<and> freed (FixedBlockPool_deallocate p s) = szadd (freed s) 1"
proof -
  have "p \<noteq> 0" using ok p blocks.block_nonnull [OF fixed_blocks [OF N], of "chunks s" p] by (auto simp: store_ok_def)
  then show ?thesis
    using blocks.store_ok_push [OF fixed_blocks [OF N] ok p]
    by (simp add: FixedBlockPool_deallocate_def push_node_def store_ok_cong [of "(push_node p s)\<lparr>freed := _\<rparr>" "push_node p s"] del: fun_upd_apply)
      (simp add: store_ok_def)
qed

lemma fbp_inv_init:
  assumes "8 \<le> N" "fbp_init N sl"
  shows "fbp_inv N sl"
proof -
  obtain m m0 where new: "m \<noteq> 0" "FixedBlockPool_new N (Some m) m0 = Inr (fst sl)" "snd sl = {}"
    using assms(2) by (auto simp: fbp_init_def)
  then have m: "m \<noteq> 0" "fst sl = link_blocks m N kChunkSize \<lparr>freeList = 0, bmem = m0, chunks = [m], allocated = 0, freed = 0\<rparr>" "snd sl = {}"
    by (auto simp: FixedBlockPool_new_def FixedBlockPool_allocateChunk_def)
  let ?e = "\<lparr>freeList = 0, bmem = m0, chunks = [], allocated = 0, freed = 0\<rparr> :: FixedBlockPool"
  have "store_ok N kChunkSize {} ?e" by (rule blocks.store_ok_empty [OF fixed_blocks [OF assms(1)]]) simp_all
  then have "store_ok N kChunkSize {} (fst sl)"
    using blocks.store_ok_chunk [OF fixed_blocks [OF assms(1)], of "{}" ?e m] m by (simp add: fresh_chunk_def)
  then show ?thesis using m by (simp add: fbp_inv_def link_blocks_counts)
qed

lemma fbp_inv_step:
  assumes N: "8 \<le> N" and inv: "fbp_inv N sl" and step: "fbp_step N sl sl'"
  shows "fbp_inv N sl'"
  using step inv
proof (cases rule: fbp_step.cases)
  case (fbp_alloc m s p s' live)
  then have ok: "store_ok N kChunkSize live s" and fin: "finite live" and cnt: "allocated s mod size_mod = (freed s + card live) mod size_mod"
    using inv by (auto simp: fbp_inv_def)
  have r: "store_ok N kChunkSize (insert p live) s'" "p \<notin> live" "allocated s' = szadd (allocated s) 1" "freed s' = freed s"
    using FixedBlockPool_allocate_ok [OF N ok fbp_alloc(4)] fbp_alloc(3) by auto
  have "allocated s' mod size_mod = (freed s' + card (insert p live)) mod size_mod"
    using mod_add_cong [OF cnt refl [of "1 mod size_mod"]] r fin by (simp add: szadd_def ac_simps)
  then show ?thesis using r fin fbp_alloc by (simp add: fbp_inv_def)
next
  case (fbp_free p live s)
  then have ok: "store_ok N kChunkSize live s" and fin: "finite live" and cnt: "allocated s mod size_mod = (freed s + card live) mod size_mod"
    using inv by (auto simp: fbp_inv_def)
  have r: "store_ok N kChunkSize (live - {p}) (FixedBlockPool_deallocate p s)" "allocated (FixedBlockPool_deallocate p s) = allocated s"
      "freed (FixedBlockPool_deallocate p s) = szadd (freed s) 1"
    using FixedBlockPool_deallocate_ok [OF N ok fbp_free(3)] by simp_all
  have "card live = Suc (card (live - {p}))" using fin fbp_free(3) by (metis card_Suc_Diff1)
  then have "(szadd (freed s) 1 + card (live - {p})) mod size_mod = (freed s + card live) mod size_mod"
    by (simp add: szadd_def mod_add_left_eq)
  then show ?thesis using r fin fbp_free cnt by (simp add: fbp_inv_def)
next
  case (fbp_write p live a s v)
  then show ?thesis
    using inv blocks.store_ok_write [OF fixed_blocks [OF N] _ fbp_write(3-5), of s v] by (simp add: fbp_inv_def)
qed

interpretation fixed_pool: inductive_invariant "\<lambda>sl. 8 \<le> N \<and> fbp_init N sl" "fbp_step N" "\<lambda>sl. 8 \<le> N \<and> fbp_inv N sl" for N
  by unfold_locales (auto intro: fbp_inv_init fbp_inv_step)

text \<open>
  whatever the history of allocations, client writes and deallocations of a FixedBlockPool, the next allocation
  succeeds, and its block is not null, lies in a chunk and overlaps no block the client holds; allocated and freed
  blocks differ by those held.
\<close>

theorem FixedBlockPool_allocate_disjoint:
  assumes "reach (\<lambda>sl. 8 \<le> N \<and> fbp_init N sl) (fbp_step N) (s, live)" and "fresh_chunk N kChunkSize m (chunks s)"
  shows "\<exists>p s'. FixedBlockPool_allocate N (Some m) s = Inr (p, s') \<and> p \<noteq> 0 \<and> p \<notin> live \<and> (\<forall>q \<in> live. apart p N q N) \<and>
    (\<exists>c \<in> set (chunks s'). c \<le> p \<and> p + N \<le> c + kChunkSize * N) \<and>
    allocated s mod size_mod = (freed s + card live) mod size_mod"
proof -
  have inv: "8 \<le> N" "store_ok N kChunkSize live s" "allocated s mod size_mod = (freed s + card live) mod size_mod"
    using fixed_pool.reach_inv [OF assms(1)] by (simp_all add: fbp_inv_def)
  then show ?thesis using FixedBlockPool_allocate_ok [OF inv(1,2) assms(2)] by blast
qed

definition small_fbp :: FixedBlockPool where
  "small_fbp = FixedBlockPool_allocateChunk 16 4096 \<lparr>freeList = 0, bmem = (\<lambda>_. 0), chunks = [], allocated = 0, freed = 0\<rparr>"

theorem FixedBlockPool_allocate_disjoint_witness:
  "\<exists>p s'. FixedBlockPool_allocate 16 (Some 8192) small_fbp = Inr (p, s') \<and> p \<noteq> 0 \<and>
     (\<exists>c \<in> set (chunks s'). c \<le> p \<and> p + 16 \<le> c + kChunkSize * 16)"
proof -
  have "FixedBlockPool_new 16 (Some 4096) (\<lambda>_. 0) = Inr small_fbp" by (simp add: FixedBlockPool_new_def small_fbp_def)
  then have "fbp_init 16 (small_fbp, {})" unfolding fbp_init_def by (intro conjI exI [of _ "4096::nat"] exI [of _ "\<lambda>_. 0"]) simp_all
  then have r: "reach (\<lambda>sl. 8 \<le> (16::nat) \<and> fbp_init 16 sl) (fbp_step 16) (small_fbp, {})" by (intro reach_init) simp
  have "chunks small_fbp = [4096]"
    using blocks.link_blocks_chain [OF fixed_blocks, of 16 "\<lparr>freeList = 0, bmem = (\<lambda>_. 0), chunks = [4096], allocated = 0, freed = 0\<rparr>" 4096 64]
    by (simp add: small_fbp_def FixedBlockPool_allocateChunk_def kChunkSize_def)
  then have "fresh_chunk 16 kChunkSize 8192 (chunks small_fbp)" by (simp add: fresh_chunk_def apart_def kChunkSize_def)
  from FixedBlockPool_allocate_disjoint [OF r this] show ?thesis by blast
qed

subsection \<open>Slabs\<close>

lemma allocateSlab_fold:
  "m \<noteq> 0 \<Longrightarrow> objectSize s = sz \<Longrightarrow> foldl (\<lambda>s i. SlabAllocator_deallocate (m + i * objectSize s) s) s [0..<k] = link_blocks m sz k s \<and>
     objectSize (link_blocks m sz k s) = sz \<and> objectsPerSlab (link_blocks m sz k s) = objectsPerSlab s"
  by (induction k) (simp_all add: link_blocks_def SlabAllocator_deallocate_def push_node_def)

lemma SlabAllocator_allocateSlab_eq:
  "m \<noteq> 0 \<Longrightarrow> SlabAllocator_allocateSlab m s = link_blocks m (objectSize s) (objectsPerSlab s) (s\<lparr>chunks := chunks s @ [m]\<rparr>)"
  using allocateSlab_fold [of m "s\<lparr>chunks := chunks s @ [m]\<rparr>" "objectSize s" "objectsPerSlab s"]
  by (simp add: SlabAllocator_allocateSlab_def)

definition slab_ok :: "nat set \<Rightarrow> SlabAllocator \<Rightarrow> bool" where
  "slab_ok live s \<longleftrightarrow> 8 \<le> objectSize s \<and> 0 < objectsPerSlab s \<and> store_ok (objectSize s) (objectsPerSlab s) live s"

lemma slab_blocks: "slab_ok live s \<Longrightarrow> blocks (objectSize s) (objectsPerSlab s)"
  by unfold_locales (simp_all add: slab_ok_def)

lemma slab_ok_new: "0 < k \<Longrightarrow> slab_ok {} (SlabAllocator_new sz k m0)"
  unfolding slab_ok_def store_ok_def SlabAllocator_new_def by (auto simp: block_set_def chunks_ok_def intro!: exI [of _ "[]"])

text \<open>
  a SlabAllocator of at least one object per slab hands out, whatever it holds, an object apart from all those
  in use and of at least the size asked for, and takes it back.  With no object per slab the first allocation
  dereferences a null pointer; with a size that is no multiple of 8 it returns misaligned objects.
\<close>

theorem SlabAllocator_contract:
  assumes "slab_ok live s" and "fresh_chunk (objectSize s) (objectsPerSlab s) m (chunks s)"
  shows "(\<exists>p s'. SlabAllocator_allocate (Some m) s = Inr (p, s') \<and> p \<noteq> 0 \<and> p \<notin> live \<and>
      (\<forall>q \<in> live. apart p (objectSize s) q (objectSize s)) \<and> slab_ok (insert p live) s' \<and>
      slab_ok live (SlabAllocator_deallocate p s') \<and> objectSize s' = objectSize s) \<and>
    slab_ok {} (SlabAllocator_new sz (Suc k) m0) \<and> sz \<le> objectSize (SlabAllocator_new sz (Suc k) m0) \<and>
    SlabAllocator_allocate (Some m) (SlabAllocator_new sz 0 m0) = Inl Undefined \<and>
    map_sum id (\<lambda>(p, s). p mod 8) (SlabAllocator_allocate (Some 4096) (SlabAllocator_new 12 2 m0)) = Inr 4"
proof -
  have B: "blocks (objectSize s) (objectsPerSlab s)" by (rule slab_blocks [OF assms(1)])
  have m: "m \<noteq> 0" using assms(2) by (simp add: fresh_chunk_def)
  have ok: "store_ok (objectSize s) (objectsPerSlab s) live s" using assms(1) by (simp add: slab_ok_def)
  let ?s = "if freeList s = 0 then link_blocks m (objectSize s) (objectsPerSlab s) (s\<lparr>chunks := chunks s @ [m]\<rparr>) else s"
  obtain p s' where p: "pop_node ?s = Inr (p, s')" "store_ok (objectSize s) (objectsPerSlab s) (insert p live) s'" "p \<notin> live" "p \<noteq> 0"
    "\<forall>q \<in> live. apart p (objectSize s) q (objectSize s)"
    using blocks.alloc_ok [OF B ok assms(2)] by blast
  have a: "SlabAllocator_allocate (Some m) s = Inr (p, s')"
    using p(1) SlabAllocator_allocateSlab_eq [OF m, of s] by (simp add: SlabAllocator_allocate_def split: if_splits)
  have sizes: "objectSize s' = objectSize s" "objectsPerSlab s' = objectsPerSlab s"
    using p(1) allocateSlab_fold [OF m, of "s\<lparr>chunks := chunks s @ [m]\<rparr>" "objectSize s" "objectsPerSlab s"]
    by (auto simp: pop_node_def split: if_splits)
  have ok': "slab_ok (insert p live) s'" using assms(1) p(2) sizes by (simp add: slab_ok_def)
  have "store_ok (objectSize s) (objectsPerSlab s) (insert p live - {p}) (push_node p s')"
    by (rule blocks.store_ok_push [OF B p(2)]) simp
  then have "slab_ok live (SlabAllocator_deallocate p s')"
    using ok' p(3,4) sizes by (simp add: slab_ok_def SlabAllocator_deallocate_def push_node_def)
  moreover have "SlabAllocator_allocate (Some m) (SlabAllocator_new sz 0 m0) = Inl Undefined"
    by (simp add: SlabAllocator_allocate_def SlabAllocator_new_def SlabAllocator_allocateSlab_def pop_node_def)
  moreover have "map_sum id (\<lambda>(p, s). p mod 8) (SlabAllocator_allocate (Some 4096) (SlabAllocator_new 12 2 m0)) = Inr 4"
    by (simp add: SlabAllocator_allocate_def SlabAllocator_new_def SlabAllocator_allocateSlab_def pop_node_def upt_rec
        SlabAllocator_deallocate_def push_node_def)
  moreover have "sz \<le> objectSize (SlabAllocator_new sz (Suc k) m0)" by (simp add: SlabAllocator_new_def)
  ultimately show ?thesis using a p ok' sizes slab_ok_new [of "Suc k" sz m0] by blast
qed

theorem SlabAllocator_contract_witness:
  "\<exists>p s'. SlabAllocator_allocate (Some 4096) (SlabAllocator_new 24 3 (\<lambda>_. 0)) = Inr (p, s') \<and> p \<noteq> 0 \<and> slab_ok {p} s'"
proof -
  have "slab_ok {} (SlabAllocator_new 24 3 (\<lambda>_. 0))" by (rule slab_ok_new) simp
  moreover have "fresh_chunk (objectSize (SlabAllocator_new 24 3 (\<lambda>_. 0))) (objectsPerSlab (SlabAllocator_new 24 3 (\<lambda>_. 0))) 4096
      (chunks (SlabAllocator_new 24 3 (\<lambda>_. 0)))"
    by (simp add: fresh_chunk_def SlabAllocator_new_def)
  ultimately show ?thesis using SlabAllocator_contract [of "{}" "SlabAllocator_new 24 3 (\<lambda>_. 0)" 4096] by blast
qed

subsection \<open>Frames\<close>

definition frame_sizes :: "nat set" where "frame_sizes = {256, 512, 1024, 2048, 4096}"

definition frame_class :: "nat \<Rightarrow> nat" where
  "frame_class sz = (if sz \<le> 256 then 256 else if sz \<le> 512 then 512 else if sz \<le> 1024 then 1024 else if sz \<le> 2048 then 2048 else 4096)"

definition slab_of :: "nat \<Rightarrow> CoroutinePool \<Rightarrow> FixedBlockPool" where
  "slab_of N s = (if N = 256 then slab256 s else if N = 512 then slab512 s else if N = 1024 then slab1k s
     else if N = 2048 then slab2k s else slab4k s)"

definition with_slab :: "nat \<Rightarrow> FixedBlockPool \<Rightarrow> CoroutinePool \<Rightarrow> CoroutinePool" where
  "with_slab N b s = (if N = 256 then s\<lparr>slab256 := b\<rparr> else if N = 512 then s\<lparr>slab512 := b\<rparr> else if N = 1024 then s\<lparr>slab1k := b\<rparr>
     else if N = 2048 then s\<lparr>slab2k := b\<rparr> else s\<lparr>slab4k := b\<rparr>)"

text \<open>\<open>live N\<close> are the frames in use that came from the slab of blocks of \<open>N\<close> bytes.\<close>

definition frames_ok :: "(nat \<Rightarrow> nat set) \<Rightarrow> CoroutinePool \<Rightarrow> bool" where
  "frames_ok live s \<longleftrightarrow> (\<forall>N \<in> frame_sizes. store_ok N kChunkSize (live N) (slab_of N s))"

lemma frame_class_simps:
  "frame_class sz \<in> frame_sizes" "8 \<le> frame_class sz" "sz \<le> 4096 \<Longrightarrow> sz \<le> frame_class sz"
  by (simp_all add: frame_class_def frame_sizes_def)

lemma slab_of_with: "N \<in> frame_sizes \<Longrightarrow> M \<in> frame_sizes \<Longrightarrow> slab_of M (with_slab N b s) = (if M = N then b else slab_of M s)"
  by (auto simp: frame_sizes_def slab_of_def with_slab_def)

lemma CoroutinePool_allocate_slab:
  assumes "sz \<le> 4096"
  shows "CoroutinePool_allocate mem sz s =
    bindR (FixedBlockPool_allocate (frame_class sz) mem (slab_of (frame_class sz) s)) (\<lambda>(p, b). Inr (p, with_slab (frame_class sz) b s))"
  using assms by (simp add: CoroutinePool_allocate_def frame_class_def slab_of_def with_slab_def)

lemma CoroutinePool_deallocate_slab:
  assumes "sz \<le> 4096"
  shows "CoroutinePool_deallocate p sz s = (False, with_slab (frame_class sz) (FixedBlockPool_deallocate p (slab_of (frame_class sz) s)) s)"
  using assms by (simp add: CoroutinePool_deallocate_def frame_class_def slab_of_def with_slab_def)

lemma frames_ok_with:
  assumes "frames_ok live s" "N \<in> frame_sizes" "store_ok N kChunkSize L b"
  shows "frames_ok (live(N := L)) (with_slab N b s)"
  using assms by (simp add: frames_ok_def slab_of_with)

text \<open>
  a coroutine frame of at most 4096 bytes gets a block at least as large from the slab of its size class, apart
  from every frame in use there, and given back with the same size it returns to that slab; a larger frame goes
  to operator new and operator delete.
\<close>

theorem CoroutinePool_frames:
  assumes "frames_ok live s" and "fresh_chunk (frame_class sz) kChunkSize m (chunks (slab_of (frame_class sz) s))"
  shows "if sz \<le> 4096
    then \<exists>p s'. CoroutinePool_allocate (Some m) sz s = Inr (p, s') \<and> sz \<le> frame_class sz \<and> p \<noteq> 0 \<and> p \<notin> live (frame_class sz) \<and>
      (\<forall>q \<in> live (frame_class sz). apart p (frame_class sz) q (frame_class sz)) \<and>
      frames_ok (live(frame_class sz := insert p (live (frame_class sz)))) s' \<and>
      fst (CoroutinePool_deallocate p sz s') = False \<and> frames_ok live (snd (CoroutinePool_deallocate p sz s'))
    else CoroutinePool_allocate (Some m) sz s = Inr (m, s\<lparr>globAlloc := szadd (globAlloc s) 1\<rparr>) \<and>
      CoroutinePool_deallocate m sz s = (True, s\<lparr>globFree := szadd (globFree s) 1\<rparr>)"
proof (cases "sz \<le> 4096")
  case True
  let ?N = "frame_class sz"
  note N = frame_class_simps(1,2) [of sz] frame_class_simps(3) [OF True]
  have ok: "store_ok ?N kChunkSize (live ?N) (slab_of ?N s)" using assms(1) N(1) by (simp add: frames_ok_def)
  obtain p b where p: "FixedBlockPool_allocate ?N (Some m) (slab_of ?N s) = Inr (p, b)" "store_ok ?N kChunkSize (insert p (live ?N)) b"
      "p \<notin> live ?N" "p \<noteq> 0" "\<forall>q \<in> live ?N. apart p ?N q ?N"
    using FixedBlockPool_allocate_ok [OF N(2) ok assms(2)] by blast
  have a: "CoroutinePool_allocate (Some m) sz s = Inr (p, with_slab ?N b s)" unfolding CoroutinePool_allocate_slab [OF True] p(1) by simp
  have ok1: "frames_ok (live(?N := insert p (live ?N))) (with_slab ?N b s)" by (rule frames_ok_with [OF assms(1) N(1) p(2)])
  have "store_ok ?N kChunkSize (insert p (live ?N) - {p}) (FixedBlockPool_deallocate p b)"
    using FixedBlockPool_deallocate_ok [OF N(2) p(2), of p] by simp
  then have "frames_ok ((live(?N := insert p (live ?N)))(?N := live ?N)) (with_slab ?N (FixedBlockPool_deallocate p b) (with_slab ?N b s))"
    using p(3) by (intro frames_ok_with [OF ok1 N(1)]) simp
  then have "frames_ok live (snd (CoroutinePool_deallocate p sz (with_slab ?N b s)))" "fst (CoroutinePool_deallocate p sz (with_slab ?N b s)) = False"
    unfolding CoroutinePool_deallocate_slab [OF True] by (simp_all add: slab_of_with N(1))
  then show ?thesis unfolding if_P [OF True] using a ok1 p N(3) by (intro exI [of _ p] exI [of _ "with_slab ?N b s"]) blast
next
  case False
  then show ?thesis by (simp add: CoroutinePool_allocate_def CoroutinePool_deallocate_def)
qed

text \<open>A pool before any frame: no slab has a chunk yet.\<close>

definition no_chunks :: FixedBlockPool where
  "no_chunks = \<lparr>freeList = 0, bmem = (\<lambda>_. 0), chunks = [], allocated = 0, freed = 0\<rparr>"

definition empty_frames :: CoroutinePool where
  "empty_frames = \<lparr>slab256 = no_chunks, slab512 = no_chunks, slab1k = no_chunks, slab2k = no_chunks, slab4k = no_chunks, globAlloc = 0, globFree = 0\<rparr>"

theorem CoroutinePool_frames_witness:
  "\<exists>p s'. CoroutinePool_allocate (Some 65536) 700 empty_frames = Inr (p, s') \<and> p \<noteq> 0 \<and> frames_ok (\<lambda>_. {}) (snd (CoroutinePool_deallocate p 700 s'))"
proof -
  have "store_ok N kChunkSize {} no_chunks" for N
    unfolding store_ok_def by (auto simp: no_chunks_def block_set_def chunks_ok_def intro!: exI [of _ "[]"])
  then have "frames_ok (\<lambda>_. {}) empty_frames" by (simp add: frames_ok_def slab_of_def empty_frames_def)
  moreover have "fresh_chunk (frame_class 700) kChunkSize 65536 (chunks (slab_of (frame_class 700) empty_frames))"
    by (simp add: fresh_chunk_def slab_of_def empty_frames_def no_chunks_def)
  ultimately show ?thesis using CoroutinePool_frames [of "\<lambda>_. {}" empty_frames 700 65536] by simp blast
qed

end
