(* ===== verification/MemPool.thy ===== *)
theory MemPool
  imports BlockPool
begin

unbundle bit_operations_syntax

text \<open>
  The pool of small blocks of variable size: \<^verbatim>\<open>pool/MemPool.h\<close> and \<^verbatim>\<open>pool/MemPool.cpp\<close>.

  32 free lists hold blocks of 8, 16, up to 256 bytes, cut from regions of \<^verbatim>\<open>::operator new\<close>.  The addresses that
  \<^verbatim>\<open>operator new\<close> returns are the argument \<open>news\<close>; an empty list is an allocation that throws.  What it promises is the
  hypothesis \<open>fresh_region\<close>: the region lies in the address space and overlaps none it has returned before.

  An exception of \<^verbatim>\<open>operator new\<close> leaves the pool as it is at that moment: the result of an operation that fails is the
  error together with the pool.
\<close>

section \<open>The pool\<close>

definition kMaxBytes :: nat where "kMaxBytes = 256"
definition kAlign :: nat where "kAlign = 8"
definition kNumFreeLists :: nat where "kNumFreeLists = kMaxBytes div kAlign"

record MemPool =
  mp_free :: "nat list"
  mp_mem :: "nat \<Rightarrow> nat"
  startFree :: nat
  endFree :: nat
  heapSize :: nat
  totalAllocated :: nat
  totalFreed :: nat

definition MemPool_new :: "(nat \<Rightarrow> nat) \<Rightarrow> MemPool" where
  "MemPool_new m0 = \<lparr>mp_free = replicate kNumFreeLists 0, mp_mem = m0, startFree = 0, endFree = 0, heapSize = 0,
     totalAllocated = 0, totalFreed = 0\<rparr>"

definition MemPool_roundUp :: "nat \<Rightarrow> nat" where
  "MemPool_roundUp bytes = nat (int (szsub (szadd bytes kAlign) 1) AND NOT (int kAlign - 1))"

definition MemPool_freeListIndex :: "nat \<Rightarrow> nat" where
  "MemPool_freeListIndex bytes = szsub (szsub (szadd bytes kAlign) 1 div kAlign) 1"

text \<open>A block becomes the head of a list; an index out of range is undefined.\<close>

definition MemPool_push :: "nat \<Rightarrow> nat \<Rightarrow> MemPool \<Rightarrow> MemPool result" where
  "MemPool_push idx p s = (if idx < length (mp_free s)
     then Inr (s\<lparr>mp_mem := (mp_mem s)(p := mp_free s ! idx), mp_free := (mp_free s)[idx := p]\<rparr>) else Inl Undefined)"

text \<open>A result, or an error and the pool as the exception finds it.\<close>

type_synonym 'a mp_result = "(error \<times> MemPool) + 'a"

text \<open>The leftover is listed before \<^verbatim>\<open>operator new\<close> is called, the bounds of the region are changed after it.\<close>

fun MemPool_chunkAlloc :: "nat list \<Rightarrow> nat \<Rightarrow> nat \<Rightarrow> MemPool \<Rightarrow> (nat \<times> nat \<times> MemPool) mp_result" where
  "MemPool_chunkAlloc news sz nobjs s =
     (let totalBytes = szmul sz nobjs; bytesLeft = szsub (endFree s) (startFree s) in
      if bytesLeft \<ge> totalBytes then Inr (startFree s, nobjs, s\<lparr>startFree := startFree s + totalBytes\<rparr>)
      else if bytesLeft \<ge> sz
      then let nobjs' = bytesLeft div sz in Inr (startFree s, nobjs', s\<lparr>startFree := startFree s + szmul sz nobjs'\<rparr>)
      else let bytesToGet = szadd (szmul 2 totalBytes) (MemPool_roundUp (drop_bit 4 (heapSize s))) in
        (case (if bytesLeft > 0 then MemPool_push (MemPool_freeListIndex bytesLeft) (startFree s) s else Inr s) of
           Inl e \<Rightarrow> Inl (e, s)
         | Inr s1 \<Rightarrow> (case news of [] \<Rightarrow> Inl (BadAlloc, s1)
             | m # ms \<Rightarrow> MemPool_chunkAlloc ms sz nobjs
                 (s1\<lparr>startFree := m, heapSize := szadd (heapSize s1) bytesToGet, endFree := m + bytesToGet\<rparr>))))"

declare MemPool_chunkAlloc.simps [simp del]

text \<open>The loop of \<^verbatim>\<open>refill\<close> with \<open>k\<close> iterations left.\<close>

fun MemPool_link :: "nat \<Rightarrow> nat \<Rightarrow> nat \<Rightarrow> (nat \<Rightarrow> nat) \<Rightarrow> nat \<Rightarrow> nat" where
  "MemPool_link n 0 current m = m(current := 0)"
| "MemPool_link n (Suc k) current m = MemPool_link n k (current + n) (m(current := current + n))"

definition MemPool_refill :: "nat list \<Rightarrow> nat \<Rightarrow> MemPool \<Rightarrow> (nat \<times> MemPool) mp_result" where
  "MemPool_refill news n s = (case MemPool_chunkAlloc news n 20 s of Inl e \<Rightarrow> Inl e | Inr (chunk, nobjs, s1) \<Rightarrow>
     if nobjs = 1 then Inr (chunk, s1)
     else let idx = MemPool_freeListIndex n in
       if idx < length (mp_free s1)
       then Inr (chunk, s1\<lparr>mp_free := (mp_free s1)[idx := chunk + n], mp_mem := MemPool_link n (nobjs - 2) (chunk + n) (mp_mem s1)\<rparr>)
       else Inl (Undefined, s1))"

text \<open>A large request is counted before \<^verbatim>\<open>operator new\<close> is called, whether it throws or not.\<close>

definition MemPool_allocate :: "nat list \<Rightarrow> nat \<Rightarrow> MemPool \<Rightarrow> (nat \<times> MemPool) mp_result" where
  "MemPool_allocate news n s =
     (if n > kMaxBytes
      then let s1 = s\<lparr>totalAllocated := szadd (totalAllocated s) n\<rparr> in (case news of [] \<Rightarrow> Inl (BadAlloc, s1) | m # ms \<Rightarrow> Inr (m, s1))
      else let idx = MemPool_freeListIndex n in
        if idx < length (mp_free s)
        then let result = mp_free s ! idx in
          if result = 0 then MemPool_refill news (MemPool_roundUp n) s
          else Inr (result, s\<lparr>mp_free := (mp_free s)[idx := mp_mem s result], totalAllocated := szadd (totalAllocated s) n\<rparr>)
        else Inl (Undefined, s))"

text \<open>The flag says that the block goes to \<^verbatim>\<open>::operator delete\<close>.\<close>

definition MemPool_deallocate :: "nat \<Rightarrow> nat \<Rightarrow> MemPool \<Rightarrow> (bool \<times> MemPool) result" where
  "MemPool_deallocate p n s =
     (let s1 = s\<lparr>totalFreed := szadd (totalFreed s) n\<rparr> in
      if n > kMaxBytes then Inr (True, s1)
      else bindR (MemPool_push (MemPool_freeListIndex n) p s1) (\<lambda>s2. Inr (False, s2)))"

section \<open>Size classes\<close>

abbreviation class_size :: "nat \<Rightarrow> nat" where "class_size i \<equiv> 8 * Suc i"

lemma and_not_7: "int x AND NOT 7 = 8 * int (x div 8)"
proof -
  have "int x AND NOT (mask 3) = push_bit 3 (drop_bit 3 (int x))"
    by (rule bit_eqI) (auto simp: bit_simps)
  then show ?thesis by (simp add: mask_eq_exp_minus_1 push_bit_eq_mult drop_bit_eq_div zdiv_int)
qed

lemma add_align: "n \<le> 2 ^ 63 \<Longrightarrow> szsub (szadd n kAlign) 1 = n + 7"
  by (simp add: kAlign_def no_wrap size_mod_def)

lemma roundUp_eq: "n \<le> 2 ^ 63 \<Longrightarrow> MemPool_roundUp n = 8 * ((n + 7) div 8)"
  unfolding MemPool_roundUp_def add_align by (simp only: kAlign_def) (use and_not_7 [of "n + 7"] in simp)

lemma freeListIndex_eq: "0 < n \<Longrightarrow> n \<le> 2 ^ 63 \<Longrightarrow> MemPool_freeListIndex n = (n + 7) div 8 - 1"
  unfolding MemPool_freeListIndex_def add_align
  by (rule szsub_no_wrap [THEN trans]) (simp_all add: kAlign_def size_mod_def)

lemma index_class:
  assumes "0 < n" "n \<le> 256"
  shows "MemPool_freeListIndex n < 32" "MemPool_roundUp n = class_size (MemPool_freeListIndex n)" "n \<le> class_size (MemPool_freeListIndex n)"
  using assms by (simp_all add: freeListIndex_eq roundUp_eq)

lemma index_of_class: "i < 32 \<Longrightarrow> MemPool_freeListIndex (class_size i) = i"
  by (simp add: freeListIndex_eq)

lemma index_zero: "MemPool_freeListIndex 0 = size_mod - 1"
  by (simp add: MemPool_freeListIndex_def szadd_def szsub_def kAlign_def size_mod_def)

section \<open>Invariant\<close>

text \<open>
  A piece is an address and the index of its size class: those on the free lists and those the client holds.
  \<open>heap\<close> lists the regions that \<^verbatim>\<open>operator new\<close> has returned.
\<close>

definition pieces :: "(nat \<Rightarrow> nat list) \<Rightarrow> (nat \<times> nat) set \<Rightarrow> (nat \<times> nat) set" where
  "pieces fls live = {(x, i). i < 32 \<and> x \<in> set (fls i)} \<union> live"

definition pieces_apart :: "(nat \<times> nat) set \<Rightarrow> bool" where
  "pieces_apart P \<longleftrightarrow> (\<forall>a \<in> P. \<forall>b \<in> P. a \<noteq> b \<longrightarrow> apart (fst a) (class_size (snd a)) (fst b) (class_size (snd b)))"

definition covered :: "(nat \<times> nat) list \<Rightarrow> nat \<Rightarrow> nat \<Rightarrow> bool" where
  "covered heap a n \<longleftrightarrow> (\<exists>(c, l) \<in> set heap. c \<le> a \<and> a + n \<le> c + l)"

definition fresh_region :: "nat \<Rightarrow> nat \<Rightarrow> (nat \<times> nat) list \<Rightarrow> bool" where
  "fresh_region m len heap \<longleftrightarrow> m \<noteq> 0 \<and> m + len < size_mod \<and> (\<forall>(c, l) \<in> set heap. apart c l m len)"

definition mp_at :: "(nat \<Rightarrow> nat list) \<Rightarrow> (nat \<times> nat) set \<Rightarrow> (nat \<times> nat) list \<Rightarrow> MemPool \<Rightarrow> bool" where
  "mp_at fls live heap s \<longleftrightarrow> length (mp_free s) = 32 \<and>
     (\<forall>i < 32. chain (mp_mem s) (mp_free s ! i) (fls i) \<and> distinct (fls i)) \<and>
     (\<forall>i < 32. \<forall>x \<in> set (fls i). (x, i) \<notin> live) \<and> (\<forall>a \<in> live. snd a < 32) \<and> pieces_apart (pieces fls live) \<and>
     (\<forall>a \<in> pieces fls live. fst a \<noteq> 0 \<and> covered heap (fst a) (class_size (snd a)) \<and>
        (startFree s < endFree s \<longrightarrow> apart (fst a) (class_size (snd a)) (startFree s) (endFree s - startFree s))) \<and>
     startFree s \<le> endFree s \<and> endFree s < size_mod \<and> 8 dvd endFree s - startFree s \<and>
     (startFree s < endFree s \<longrightarrow> startFree s \<noteq> 0 \<and> covered heap (startFree s) (endFree s - startFree s)) \<and> heapSize s < size_mod"

definition mp_ok :: "(nat \<times> nat) set \<Rightarrow> (nat \<times> nat) list \<Rightarrow> MemPool \<Rightarrow> bool" where
  "mp_ok live heap s \<longleftrightarrow> (\<exists>fls. mp_at fls live heap s)"

lemma mp_atD:
  assumes "mp_at fls live heap s"
  shows "length (mp_free s) = 32" "\<And>i. i < 32 \<Longrightarrow> chain (mp_mem s) (mp_free s ! i) (fls i)" "\<And>i. i < 32 \<Longrightarrow> distinct (fls i)"
    "\<And>i x. i < 32 \<Longrightarrow> x \<in> set (fls i) \<Longrightarrow> (x, i) \<notin> live" "\<And>a. a \<in> live \<Longrightarrow> snd a < 32" "pieces_apart (pieces fls live)"
    "\<And>a. a \<in> pieces fls live \<Longrightarrow> fst a \<noteq> 0" "\<And>a. a \<in> pieces fls live \<Longrightarrow> covered heap (fst a) (class_size (snd a))"
    "\<And>a. a \<in> pieces fls live \<Longrightarrow> startFree s < endFree s \<Longrightarrow> apart (fst a) (class_size (snd a)) (startFree s) (endFree s - startFree s)"
    "startFree s \<le> endFree s" "endFree s < size_mod" "8 dvd endFree s - startFree s" "startFree s < endFree s \<Longrightarrow> startFree s \<noteq> 0"
    "startFree s < endFree s \<Longrightarrow> covered heap (startFree s) (endFree s - startFree s)" "heapSize s < size_mod"
  using assms unfolding mp_at_def by blast+

lemma mp_atI:
  assumes "length (mp_free s) = 32" "\<And>i. i < 32 \<Longrightarrow> chain (mp_mem s) (mp_free s ! i) (fls i)" "\<And>i. i < 32 \<Longrightarrow> distinct (fls i)"
    "\<And>i x. i < 32 \<Longrightarrow> x \<in> set (fls i) \<Longrightarrow> (x, i) \<notin> live" "\<And>a. a \<in> live \<Longrightarrow> snd a < 32" "pieces_apart (pieces fls live)"
    "\<And>a. a \<in> pieces fls live \<Longrightarrow> fst a \<noteq> 0" "\<And>a. a \<in> pieces fls live \<Longrightarrow> covered heap (fst a) (class_size (snd a))"
    "\<And>a. a \<in> pieces fls live \<Longrightarrow> startFree s < endFree s \<Longrightarrow> apart (fst a) (class_size (snd a)) (startFree s) (endFree s - startFree s)"
    "startFree s \<le> endFree s" "endFree s < size_mod" "8 dvd endFree s - startFree s" "startFree s < endFree s \<Longrightarrow> startFree s \<noteq> 0"
    "startFree s < endFree s \<Longrightarrow> covered heap (startFree s) (endFree s - startFree s)" "heapSize s < size_mod"
  shows "mp_at fls live heap s"
  unfolding mp_at_def using assms by blast

lemma covered_more: "covered heap a n \<Longrightarrow> covered (heap @ h) a n"
  by (auto simp: covered_def)

lemma covered_part: "covered heap a n \<Longrightarrow> a \<le> b \<Longrightarrow> b + k \<le> a + n \<Longrightarrow> covered heap b k"
  unfolding covered_def by (elim bexE, rule bexI) auto

lemma pieces_apartD: "pieces_apart P \<Longrightarrow> (x, i) \<in> P \<Longrightarrow> (y, j) \<in> P \<Longrightarrow> (x, i) \<noteq> (y, j) \<Longrightarrow> apart x (class_size i) y (class_size j)"
  unfolding pieces_apart_def by force

text \<open>Two pieces have different addresses.\<close>

lemma pieces_address: "pieces_apart P \<Longrightarrow> (x, i) \<in> P \<Longrightarrow> (x, j) \<in> P \<Longrightarrow> i = j"
  using pieces_apartD [of P x i x j] by (auto simp: apart_def)

text \<open>A block moves from the client to the head of the list of its class, and back.\<close>

lemma mp_at_push:
  assumes at: "mp_at fls live heap s" and p: "(p, i) \<in> live"
  shows "\<exists>s'. MemPool_push i p s = Inr s' \<and> mp_at (fls(i := p # fls i)) (live - {(p, i)}) heap s' \<and>
    totalAllocated s' = totalAllocated s \<and> totalFreed s' = totalFreed s"
proof -
  note A = mp_atD [OF at]
  have i: "i < 32" using A(5) [OF p] by simp
  let ?s = "s\<lparr>mp_mem := (mp_mem s)(p := mp_free s ! i), mp_free := (mp_free s)[i := p]\<rparr>"
  have eq: "pieces (fls(i := p # fls i)) (live - {(p, i)}) = pieces fls live" using p i by (auto simp: pieces_def split: if_splits)
  have new: "p \<notin> set (fls j)" if "j < 32" for j
  proof
    assume x: "p \<in> set (fls j)"
    then have "(p, j) \<in> pieces fls live" "(p, i) \<in> pieces fls live" using that p by (auto simp: pieces_def)
    then have "i = j" using pieces_address [OF A(6)] by blast
    then show False using A(4) [OF that x] p by simp
  qed
  have "p \<noteq> 0" using A(7) [of "(p, i)"] p by (simp add: pieces_def)
  have "mp_at (fls(i := p # fls i)) (live - {(p, i)}) heap ?s"
  proof (rule mp_atI)
    show "chain (mp_mem ?s) (mp_free ?s ! j) ((fls(i := p # fls i)) j)" if "j < 32" for j
    proof (cases "j = i")
      case True
      then show ?thesis using chain_push [OF A(2) [OF i] new [OF i] \<open>p \<noteq> 0\<close>] A(1) i by (simp del: fun_upd_apply) simp
    next
      case False
      have "chain ((mp_mem s)(p := mp_free s ! i)) (mp_free s ! j) (fls j) = chain (mp_mem s) (mp_free s ! j) (fls j)"
        by (rule chain_cong) (use new [OF that] in auto)
      then show ?thesis using False A(1) A(2) [OF that] by simp
    qed
    show "distinct ((fls(i := p # fls i)) j)" if "j < 32" for j using A(3) [OF that] new [OF i] by auto
    show "(x, j) \<notin> live - {(p, i)}" if "j < 32" "x \<in> set ((fls(i := p # fls i)) j)" for j x
      using A(4) [OF that(1), of x] that(2) by (auto split: if_splits)
  qed (use A eq in \<open>simp_all\<close>)
  then show ?thesis using i A(1) by (simp add: MemPool_push_def)
qed

lemma mp_at_pop:
  assumes at: "mp_at fls live heap s" and i: "i < 32" and ne: "mp_free s ! i \<noteq> 0"
  shows "\<exists>xs. fls i = (mp_free s ! i) # xs \<and>
    mp_at (fls(i := xs)) (insert (mp_free s ! i, i) live) heap (s\<lparr>mp_free := (mp_free s)[i := mp_mem s (mp_free s ! i)], totalAllocated := t\<rparr>)"
proof -
  note A = mp_atD [OF at]
  let ?p = "mp_free s ! i"
  obtain xs where xs: "fls i = ?p # xs" "chain (mp_mem s) (mp_mem s ?p) xs" using chain_pop [OF A(2) [OF i] ne] by blast
  have eq: "pieces (fls(i := xs)) (insert (?p, i) live) = pieces fls live" using xs(1) i by (auto simp: pieces_def split: if_splits)
  have "mp_at (fls(i := xs)) (insert (?p, i) live) heap (s\<lparr>mp_free := (mp_free s)[i := mp_mem s ?p], totalAllocated := t\<rparr>)" (is "mp_at _ _ _ ?s")
  proof (rule mp_atI)
    show "chain (mp_mem ?s) (mp_free ?s ! j) ((fls(i := xs)) j)" if "j < 32" for j using A(1) A(2) [OF that] xs(2) i by auto
    show "distinct ((fls(i := xs)) j)" if "j < 32" for j using A(3) [OF that] xs(1) by auto
    show "(x, j) \<notin> insert (?p, i) live" if "j < 32" "x \<in> set ((fls(i := xs)) j)" for j x
      using A(4) [OF that(1), of x] A(3) [OF i] that(2) xs(1) by (auto split: if_splits)
    show "snd a < 32" if "a \<in> insert (?p, i) live" for a using that A(5) [of a] i by auto
  qed (use A eq in \<open>simp_all\<close>)
  then show ?thesis using xs(1) by blast
qed

text \<open>A piece is cut from the front of the region.\<close>

lemma mp_at_cut:
  assumes at: "mp_at fls live heap s" and i: "i < 32" and room: "class_size i \<le> endFree s - startFree s"
  shows "mp_at fls (insert (startFree s, i) live) heap (s\<lparr>startFree := startFree s + class_size i\<rparr>)" (is "mp_at _ ?live _ ?s")
proof -
  note A = mp_atD [OF at]
  have lt: "startFree s < endFree s" using room by simp
  have far: "apart (fst a) (class_size (snd a)) (startFree s) (endFree s - startFree s)" if "a \<in> pieces fls live" for a
    using A(9) [OF that lt] .
  have new: "apart (fst a) (class_size (snd a)) (startFree s) (class_size i)" if "a \<in> pieces fls live" for a
    using far [OF that] room by (rule_tac apart_within) auto
  have eq: "pieces fls ?live = insert (startFree s, i) (pieces fls live)" by (auto simp: pieces_def)
  show ?thesis
  proof (rule mp_atI)
    show "(x, j) \<notin> ?live" if "j < 32" "x \<in> set (fls j)" for j x
    proof
      assume "(x, j) \<in> ?live"
      then have "x = startFree s" using A(4) [OF that] by auto
      moreover have "(x, j) \<in> pieces fls live" using that by (simp add: pieces_def)
      ultimately show False using far [of "(x, j)"] lt by (auto simp: apart_def)
    qed
    show "pieces_apart (pieces fls ?live)" unfolding eq pieces_apart_def
    proof (intro ballI impI)
      fix a b assume "a \<in> insert (startFree s, i) (pieces fls live)" "b \<in> insert (startFree s, i) (pieces fls live)" "a \<noteq> b"
      then show "apart (fst a) (class_size (snd a)) (fst b) (class_size (snd b))"
        using A(6) new [of a] new [of b] apart_sym [of "fst b" "class_size (snd b)" "startFree s" "class_size i"] unfolding pieces_apart_def by auto
    qed
    show "fst a \<noteq> 0" if "a \<in> pieces fls ?live" for a using that A(7) [of a] A(13) [OF lt] unfolding eq by auto
    show "covered heap (fst a) (class_size (snd a))" if "a \<in> pieces fls ?live" for a
      using that A(8) [of a] covered_part [OF A(14) [OF lt] order_refl, of "class_size i"] room unfolding eq by auto
    show "apart (fst a) (class_size (snd a)) (startFree ?s) (endFree ?s - startFree ?s)" if "a \<in> pieces fls ?live" "startFree ?s < endFree ?s" for a
      using that far [of a] unfolding eq by (auto simp: apart_def)
    show "startFree ?s \<le> endFree ?s" using room A(10) by simp
    show "8 dvd endFree ?s - startFree ?s" using A(12) room by (simp add: dvd_diff_nat flip: diff_diff_left)
    show "covered heap (startFree ?s) (endFree ?s - startFree ?s)" if "startFree ?s < endFree ?s"
      using covered_part [OF A(14) [OF lt]] that by simp
    show "snd a < 32" if "a \<in> ?live" for a using that A(5) [of a] i by auto
  qed (use A in \<open>simp_all\<close>)
qed

text \<open>\<open>k\<close> pieces of the same class in a row.\<close>

definition row :: "nat \<Rightarrow> nat \<Rightarrow> nat \<Rightarrow> nat list" where
  "row c n k = map (\<lambda>j. c + j * n) [0..<k]"

lemma row_simps: "row c n 0 = []" "row c n (Suc k) = row c n k @ [c + k * n]" "length (row c n k) = k"
  by (simp_all add: row_def)

lemma row_Cons: "row c n (Suc k) = c # row (c + n) n k"
  by (rule nth_equalityI) (auto simp: row_def nth_Cons' nth_append less_Suc_eq_0_disj algebra_simps simp del: upt_Suc)

lemma row_distinct: "0 < n \<Longrightarrow> distinct (row c n k)"
  by (auto simp: row_def distinct_map inj_on_def)

lemma row_bound: "x \<in> set (row c n k) \<Longrightarrow> c \<le> x"
  by (auto simp: row_def)

lemma mp_at_cut_row:
  assumes "mp_at fls live heap s" "i < 32" "k * class_size i \<le> endFree s - startFree s"
  shows "mp_at fls (live \<union> (\<lambda>x. (x, i)) ` set (row (startFree s) (class_size i) k)) heap (s\<lparr>startFree := startFree s + k * class_size i\<rparr>)"
  using assms(3)
proof (induction k)
  case 0
  then show ?case using assms(1) by (simp add: row_simps)
next
  case (Suc k)
  let ?s = "s\<lparr>startFree := startFree s + k * class_size i\<rparr>"
  have room: "class_size i \<le> endFree ?s - startFree ?s" using Suc.prems by simp
  have "k * class_size i \<le> endFree s - startFree s" using Suc.prems by simp
  then have "mp_at fls (live \<union> (\<lambda>x. (x, i)) ` set (row (startFree s) (class_size i) k)) heap ?s" by (rule Suc.IH)
  from mp_at_cut [OF this assms(2) room] show ?case by (simp add: row_simps algebra_simps del: mult_Suc_right)
qed

text \<open>Pieces of the client become the list of their class, which was empty.\<close>

lemma mp_at_give:
  assumes at: "mp_at fls live heap s" and i: "i < 32" and empty: "fls i = []" and xs: "(\<lambda>x. (x, i)) ` set xs \<subseteq> live" "distinct xs"
    and m: "chain m h xs" "\<And>x. x \<notin> set xs \<Longrightarrow> m x = mp_mem s x"
  shows "mp_at (fls(i := xs)) (live - (\<lambda>x. (x, i)) ` set xs) heap (s\<lparr>mp_free := (mp_free s)[i := h], mp_mem := m\<rparr>)" (is "mp_at ?fls ?live _ ?s")
proof -
  note A = mp_atD [OF at]
  have eq: "pieces ?fls ?live = pieces fls live" using xs(1) empty i by (auto simp: pieces_def split: if_splits)
  show ?thesis
  proof (rule mp_atI)
    show "chain (mp_mem ?s) (mp_free ?s ! j) (?fls j)" if "j < 32" for j
    proof (cases "j = i")
      case True
      then show ?thesis using m(1) A(1) i by simp
    next
      case False
      have "x \<notin> set xs" if "x \<in> set (fls j)" for x
      proof
        assume "x \<in> set xs"
        then have "(x, i) \<in> pieces fls live" "(x, j) \<in> pieces fls live" using xs(1) that \<open>j < 32\<close> by (auto simp: pieces_def)
        then show False using pieces_address [OF A(6)] False by blast
      qed
      then have "chain m (mp_free s ! j) (fls j) = chain (mp_mem s) (mp_free s ! j) (fls j)" by (intro chain_cong m(2))
      then show ?thesis using A(1) A(2) [OF that] False by simp
    qed
    show "distinct (?fls j)" if "j < 32" for j using A(3) [OF that] xs(2) by simp
    show "(x, j) \<notin> ?live" if "j < 32" "x \<in> set (?fls j)" for j x using A(4) [OF that(1), of x] that(2) by (auto split: if_splits)
  qed (use A eq in \<open>simp_all\<close>)
qed

lemma link_row:
  "0 < n \<Longrightarrow> 0 < c \<Longrightarrow> chain (MemPool_link n k c m) c (row c n (Suc k)) \<and> (\<forall>x. x \<notin> set (row c n (Suc k)) \<longrightarrow> MemPool_link n k c m x = m x)"
proof (induction k arbitrary: c m)
  case 0
  then show ?case by (simp add: row_def)
next
  case (Suc k)
  let ?m = "MemPool_link n k (c + n) (m(c := c + n))"
  have r: "row c n (Suc (Suc k)) = c # row (c + n) n (Suc k)" by (rule row_Cons)
  have ih: "chain ?m (c + n) (row (c + n) n (Suc k))" "\<And>x. x \<notin> set (row (c + n) n (Suc k)) \<Longrightarrow> ?m x = (m(c := c + n)) x"
    using Suc.IH [of "c + n" "m(c := c + n)"] Suc.prems by (simp_all del: fun_upd_apply)
  have "c \<notin> set (row (c + n) n (Suc k))" using row_bound [of c "c + n" n "Suc k"] Suc.prems by auto
  then have mc: "?m c = c + n" using ih(2) [of c] by simp
  show ?case unfolding r
  proof (intro conjI allI impI)
    show "chain (MemPool_link n (Suc k) c m) c (c # row (c + n) n (Suc k))" using ih(1) mc Suc.prems by (simp del: fun_upd_apply)
    show "MemPool_link n (Suc k) c m x = m x" if "x \<notin> set (c # row (c + n) n (Suc k))" for x using ih(2) [of x] that by simp
  qed
qed

section \<open>Refilling\<close>

lemma region_fresh:
  assumes at: "mp_at fls live heap s" and x: "startFree s \<le> x" "x < endFree s"
  shows "(x, i) \<notin> pieces fls live"
proof
  assume "(x, i) \<in> pieces fls live"
  then have "apart x (class_size i) (startFree s) (endFree s - startFree s)" using mp_atD(9) [OF at, of "(x, i)"] x by simp
  then show False using x by (auto simp: apart_def)
qed

lemma row_in_region: "x \<in> set (row c n k) \<Longrightarrow> 0 < n \<Longrightarrow> k * n \<le> l \<Longrightarrow> c \<le> x \<and> x < c + l"
proof -
  assume x: "x \<in> set (row c n k)" "0 < n" "k * n \<le> l"
  then obtain j where j: "x = c + j * n" "j < k" by (auto simp: row_def)
  then have "Suc j * n \<le> k * n" by (intro mult_le_mono1) simp
  then show "c \<le> x \<and> x < c + l" using j x by simp
qed

text \<open>A new region replaces an exhausted one.\<close>

lemma mp_at_new_region:
  assumes at: "mp_at fls live heap s" and empty: "startFree s = endFree s" and fresh: "fresh_region m len heap" and len: "8 dvd len" and h: "h < size_mod"
  shows "mp_at fls live (heap @ [(m, len)]) (s\<lparr>startFree := m, heapSize := h, endFree := m + len\<rparr>)"
proof -
  note A = mp_atD [OF at]
  have "apart (fst a) (class_size (snd a)) m len" if a: "a \<in> pieces fls live" for a
  proof -
    obtain c l where c: "(c, l) \<in> set heap" "c \<le> fst a" "fst a + class_size (snd a) \<le> c + l"
      using A(8) [OF a] by (auto simp: covered_def)
    then have "apart c l m len" using fresh by (auto simp: fresh_region_def)
    then show ?thesis using c(2,3) by (auto simp: apart_def)
  qed
  then show ?thesis
    by (intro mp_atI) (use A fresh len h covered_more in \<open>auto simp: fresh_region_def covered_def\<close>)
qed

text \<open>What is left of the old region, if anything, goes to the list of its size, which is a smaller class.\<close>

lemma mp_at_region:
  assumes at: "mp_at fls live heap s" and i: "endFree s - startFree s < class_size i" "i < 32"
    and fresh: "fresh_region m len heap" "8 dvd len" "h < size_mod"
  shows "\<exists>fls' s1. (if endFree s - startFree s > 0 then MemPool_push (MemPool_freeListIndex (endFree s - startFree s)) (startFree s) s else Inr s) = Inr s1 \<and>
    fls' i = fls i \<and> mp_at fls' live (heap @ [(m, len)]) (s1\<lparr>startFree := m, heapSize := h, endFree := m + len\<rparr>) \<and>
    heapSize s1 = heapSize s \<and> totalAllocated s1 = totalAllocated s \<and> totalFreed s1 = totalFreed s"
proof (cases "endFree s - startFree s > 0")
  case False
  then have "startFree s = endFree s" using mp_atD(10) [OF at] by simp
  then show ?thesis using mp_at_new_region [OF at _ fresh] False by (intro exI [of _ fls] exI [of _ s]) simp
next
  case True
  let ?l = "endFree s - startFree s"
  define j where "j = MemPool_freeListIndex ?l"
  obtain q where q: "?l = 8 * q" using mp_atD(12) [OF at] by (elim dvdE)
  have "?l \<le> 2 ^ 63" using i by simp
  then have jq: "j = q - 1" "0 < q" using True q by (simp_all add: j_def freeListIndex_eq)
  then have cl: "class_size j = ?l" and j: "j < i" "j < 32" using q i by simp_all
  let ?s = "s\<lparr>startFree := startFree s + class_size j\<rparr>"
  have end_eq: "startFree s + class_size j = endFree s" using cl True by simp
  have cut: "mp_at fls (insert (startFree s, j) live) heap ?s" by (rule mp_at_cut [OF at j(2)]) (simp only: cl)
  have new: "(startFree s, j) \<notin> live" using region_fresh [OF at, of "startFree s" j] True by (auto simp: pieces_def)
  obtain s' where s': "MemPool_push j (startFree s) ?s = Inr s'" "mp_at (fls(j := startFree s # fls j)) (insert (startFree s, j) live - {(startFree s, j)}) heap s'"
    using mp_at_push [OF cut, of "startFree s" j] by auto
  then obtain s1 where s1: "MemPool_push j (startFree s) s = Inr s1" "s' = s1\<lparr>startFree := endFree s\<rparr>"
      "heapSize s1 = heapSize s" "totalAllocated s1 = totalAllocated s" "totalFreed s1 = totalFreed s" "endFree s1 = endFree s"
    using end_eq by (auto simp: MemPool_push_def split: if_splits)
  have "mp_at (fls(j := startFree s # fls j)) live heap (s1\<lparr>startFree := endFree s\<rparr>)" using s'(2) s1(2) new by simp
  from mp_at_new_region [OF this _ fresh] s1
  have "mp_at (fls(j := startFree s # fls j)) live (heap @ [(m, len)]) (s1\<lparr>startFree := m, heapSize := h, endFree := m + len\<rparr>)" by simp
  then show ?thesis using True s1 j(1) unfolding j_def by (intro exI [of _ "fls(j := startFree s # fls j)"] exI [of _ s1]) (simp add: j_def)
qed

text \<open>How much \<^verbatim>\<open>chunkAlloc\<close> asks for.\<close>

definition bytes_to_get :: "nat \<Rightarrow> MemPool \<Rightarrow> nat" where
  "bytes_to_get n s = szadd (szmul 2 (szmul (MemPool_roundUp n) 20)) (MemPool_roundUp (drop_bit 4 (heapSize s)))"

lemma bytes_to_get_eq:
  assumes "i < 32" "heapSize s < size_mod"
  shows "szadd (szmul 2 (szmul (class_size i) 20)) (MemPool_roundUp (drop_bit 4 (heapSize s))) =
    40 * class_size i + 8 * ((heapSize s div 16 + 7) div 8)"
proof -
  have h: "heapSize s div 16 < 2 ^ 60" using assms(2) by (simp add: size_mod_def)
  then have r: "MemPool_roundUp (drop_bit 4 (heapSize s)) = 8 * ((heapSize s div 16 + 7) div 8)"
    by (simp add: drop_bit_eq_div roundUp_eq)
  have "szmul 2 (szmul (class_size i) 20) = 40 * class_size i" using assms(1) by (simp add: szmul_def size_mod_def)
  moreover have "40 * class_size i + 8 * ((heapSize s div 16 + 7) div 8) < size_mod" using h assms(1) by (simp add: size_mod_def)
  ultimately show ?thesis unfolding r by (simp add: szadd_no_wrap)
qed

lemma chunkAlloc_room:
  assumes at: "mp_at fls live heap s" and i: "i < 32" and room: "class_size i \<le> endFree s - startFree s"
  shows "\<exists>k. MemPool_chunkAlloc news (class_size i) 20 s = Inr (startFree s, k, s\<lparr>startFree := startFree s + k * class_size i\<rparr>) \<and>
    1 \<le> k \<and> k \<le> 20 \<and> k * class_size i \<le> endFree s - startFree s"
proof -
  note A = mp_atD [OF at]
  have left: "szsub (endFree s) (startFree s) = endFree s - startFree s" using A(10,11) by (simp add: szsub_no_wrap)
  define sz where "sz = class_size i"
  have sz: "0 < sz" "sz \<le> 256" using i by (simp_all add: sz_def)
  have tot: "szmul sz k = k * sz" if "k \<le> 20" for k
  proof -
    have "sz * k \<le> 256 * 20" using sz that by (intro mult_mono) auto
    then show ?thesis by (simp add: szmul_def size_mod_def mult.commute)
  qed
  have "\<exists>k. MemPool_chunkAlloc news sz 20 s = Inr (startFree s, k, s\<lparr>startFree := startFree s + k * sz\<rparr>) \<and>
    1 \<le> k \<and> k \<le> 20 \<and> k * sz \<le> endFree s - startFree s"
  proof (cases "20 * sz \<le> endFree s - startFree s")
    case True
    then show ?thesis by (intro exI [of _ 20]) (simp add: MemPool_chunkAlloc.simps [of news] Let_def left tot)
  next
    case False
    let ?k = "(endFree s - startFree s) div sz"
    have k: "?k < 20" using False sz by (simp add: div_less_iff_less_mult mult.commute)
    have "1 \<le> ?k" using room sz by (simp add: div_greater_zero_iff Suc_le_eq sz_def del: mult_Suc_right)
    moreover have "?k * sz \<le> endFree s - startFree s" by (rule div_times_less_eq_dividend)
    ultimately show ?thesis using False room k
      by (intro exI [of _ ?k]) (simp add: MemPool_chunkAlloc.simps [of news] Let_def left tot sz_def [symmetric] del: mult_Suc_right)
  qed
  then show ?thesis by (simp add: sz_def del: mult_Suc_right)
qed

text \<open>
  \<^verbatim>\<open>chunkAlloc\<close> returns between 1 and 20 objects at the front of the region of a pool in order, in which the list of
  the class is still empty; one new region is enough for it to return.
\<close>

lemma szadd_changes: "0 < l \<Longrightarrow> l < size_mod \<Longrightarrow> h < size_mod \<Longrightarrow> szadd h l \<noteq> h"
  by (cases "h + l < size_mod") (auto simp: szadd_def mod_if)

lemma chunkAlloc_ok:
  assumes at: "mp_at fls live heap s" and i: "i < 32" and empty: "fls i = []"
    and fresh: "fresh_region m (40 * class_size i + 8 * ((heapSize s div 16 + 7) div 8)) heap"
  shows "\<exists>k s' fls' heap'. MemPool_chunkAlloc [m] (class_size i) 20 s = Inr (startFree s', k, s'\<lparr>startFree := startFree s' + k * class_size i\<rparr>) \<and>
    1 \<le> k \<and> k \<le> 20 \<and> k * class_size i \<le> endFree s' - startFree s' \<and> mp_at fls' live heap' s' \<and> fls' i = [] \<and>
    totalAllocated s' = totalAllocated s \<and> totalFreed s' = totalFreed s \<and>
    heap' = (if heapSize s' = heapSize s then heap else heap @ [(m, 40 * class_size i + 8 * ((heapSize s div 16 + 7) div 8))])"
proof (cases "class_size i \<le> endFree s - startFree s")
  case True
  obtain k where k: "MemPool_chunkAlloc [m] (class_size i) 20 s = Inr (startFree s, k, s\<lparr>startFree := startFree s + k * class_size i\<rparr>)"
      "1 \<le> k" "k \<le> 20" "k * class_size i \<le> endFree s - startFree s"
    using chunkAlloc_room [OF at i True, of "[m]"] by blast
  show ?thesis by (intro exI [of _ k] exI [of _ s] exI [of _ fls] exI [of _ heap] conjI) (simp_all only: k at empty if_True simp_thms)
next
  case False
  note A = mp_atD [OF at]
  let ?len = "40 * class_size i + 8 * ((heapSize s div 16 + 7) div 8)"
  let ?h = "szadd (heapSize s) ?len"
  have left: "szsub (endFree s) (startFree s) = endFree s - startFree s" using A(10,11) by (simp add: szsub_no_wrap)
  have h: "?h < size_mod" by simp
  have len: "8 dvd ?len" by (intro dvd_add dvd_mult2) simp_all
  obtain fls' s1 where r: "(if endFree s - startFree s > 0 then MemPool_push (MemPool_freeListIndex (endFree s - startFree s)) (startFree s) s else Inr s) = Inr s1"
      "fls' i = fls i" "mp_at fls' live (heap @ [(m, ?len)]) (s1\<lparr>startFree := m, heapSize := ?h, endFree := m + ?len\<rparr>)"
      "heapSize s1 = heapSize s" "totalAllocated s1 = totalAllocated s" "totalFreed s1 = totalFreed s"
    using mp_at_region [OF at _ i fresh len h] False by auto
  let ?s = "s1\<lparr>startFree := m, heapSize := ?h, endFree := m + ?len\<rparr>"
  have "\<not> szmul (class_size i) 20 \<le> endFree s - startFree s"
    using False i by (simp add: szmul_def size_mod_def)
  then have eq: "MemPool_chunkAlloc [m] (class_size i) 20 s = MemPool_chunkAlloc [] (class_size i) 20 ?s"
    using False r(1,4) unfolding MemPool_chunkAlloc.simps [of "[m]"] Let_def left bytes_to_get_eq [OF i A(15)]
    by (simp only: if_False) simp
  have "class_size i \<le> endFree ?s - startFree ?s" by simp
  then obtain k where k: "MemPool_chunkAlloc [] (class_size i) 20 ?s = Inr (startFree ?s, k, ?s\<lparr>startFree := startFree ?s + k * class_size i\<rparr>)"
      "1 \<le> k" "k \<le> 20" "k * class_size i \<le> endFree ?s - startFree ?s"
    using chunkAlloc_room [OF r(3) i, of "[]"] by blast
  have "?len < size_mod" "0 < ?len" using fresh by (auto simp: fresh_region_def)
  then have grown: "heapSize ?s \<noteq> heapSize s" using A(15) szadd_changes [of ?len "heapSize s"] by simp
  have "fls' i = []" "totalAllocated ?s = totalAllocated s" "totalFreed ?s = totalFreed s" using r empty by simp_all
  with k r(3) eq show ?thesis by (intro exI [of _ k] exI [of _ ?s] exI [of _ fls'] exI [of _ "heap @ [(m, ?len)]"] conjI) (simp_all only: grown if_False simp_thms)
qed

lemma refill_ok:
  assumes at: "mp_at fls live heap s" and i: "i < 32" and empty: "fls i = []"
    and fresh: "fresh_region m (40 * class_size i + 8 * ((heapSize s div 16 + 7) div 8)) heap"
  shows "\<exists>c s' heap'. MemPool_refill [m] (class_size i) s = Inr (c, s') \<and> mp_ok (insert (c, i) live) heap' s' \<and> (c, i) \<notin> live \<and>
    totalAllocated s' = totalAllocated s \<and> totalFreed s' = totalFreed s \<and>
    heap' = (if heapSize s' = heapSize s then heap else heap @ [(m, 40 * class_size i + 8 * ((heapSize s div 16 + 7) div 8))])"
proof -
  let ?n = "class_size i"
  obtain k t fls' heap' where c: "MemPool_chunkAlloc [m] ?n 20 s = Inr (startFree t, k, t\<lparr>startFree := startFree t + k * ?n\<rparr>)"
      "1 \<le> k" "k * ?n \<le> endFree t - startFree t" "mp_at fls' live heap' t" "fls' i = []" "totalAllocated t = totalAllocated s" "totalFreed t = totalFreed s"
    and heap: "heap' = (if heapSize t = heapSize s then heap else heap @ [(m, 40 * class_size i + 8 * ((heapSize s div 16 + 7) div 8))])"
    using chunkAlloc_ok [OF at i empty fresh] by blast
  let ?c = "startFree t" and ?t = "t\<lparr>startFree := startFree t + k * ?n\<rparr>"
  obtain k' where k': "k = Suc k'" using c(2) by (cases k) auto
  let ?xs = "row (?c + ?n) ?n k'"
  have row: "row ?c ?n k = ?c # ?xs" unfolding k' by (rule row_Cons)
  have dist: "distinct (?c # ?xs)" using row_distinct [of ?n ?c k] row by simp
  have region: "?c \<le> x \<and> x < endFree t" if "x \<in> set (?c # ?xs)" for x
    using row_in_region [of x ?c ?n k, OF _ _ c(3)] that mp_atD(10) [OF c(4)] unfolding row by simp
  have notin: "(x, i) \<notin> live" if "x \<in> set (?c # ?xs)" for x
    using region_fresh [OF c(4)] region [OF that] by (auto simp: pieces_def)
  have cut: "mp_at fls' (live \<union> (\<lambda>x. (x, i)) ` set (?c # ?xs)) heap' ?t" using mp_at_cut_row [OF c(4) i c(3)] unfolding row .
  have len: "length (mp_free ?t) = 32" using mp_atD(1) [OF cut] .
  show ?thesis
  proof (cases "k = 1")
    case True
    then have "mp_at fls' (insert (?c, i) live) heap' ?t" using cut k' by (simp add: row_simps)
    moreover have "MemPool_refill [m] ?n s = Inr (?c, ?t)" unfolding MemPool_refill_def c(1) using True by simp
    ultimately show ?thesis using notin [of ?c] c(6,7) heap unfolding mp_ok_def by (intro exI [of _ ?c] exI [of _ ?t] exI [of _ heap']) auto
  next
    case False
    let ?m = "MemPool_link ?n (k - 2) (?c + ?n) (mp_mem ?t)"
    have k2: "k' = Suc (k - 2)" using False k' c(2) by simp
    let ?s' = "?t\<lparr>mp_free := (mp_free ?t)[i := ?c + ?n], mp_mem := ?m\<rparr>"
    have link: "chain ?m (?c + ?n) ?xs" "\<And>x. x \<notin> set ?xs \<Longrightarrow> ?m x = mp_mem ?t x"
      using link_row [of ?n "?c + ?n" "k - 2" "mp_mem ?t"] unfolding k2 [symmetric] by simp_all
    have "mp_at (fls'(i := ?xs)) ((live \<union> (\<lambda>x. (x, i)) ` set (?c # ?xs)) - (\<lambda>x. (x, i)) ` set ?xs) heap' ?s'"
      by (rule mp_at_give [OF cut i c(5) _ _ link]) (use dist in auto)
    moreover have "(live \<union> (\<lambda>x. (x, i)) ` set (?c # ?xs)) - (\<lambda>x. (x, i)) ` set ?xs = insert (?c, i) live"
      using notin dist by auto
    ultimately have "mp_ok (insert (?c, i) live) heap' ?s'" unfolding mp_ok_def by auto
    moreover have "MemPool_refill [m] ?n s = Inr (?c, ?s')"
      unfolding MemPool_refill_def c(1) index_of_class [OF i] using False len i by (simp add: Let_def index_of_class [OF i] del: mult_Suc_right)
    ultimately show ?thesis using notin [of ?c] c(6,7) heap by (intro exI [of _ ?c] exI [of _ ?s'] exI [of _ heap']) auto
  qed
qed

section \<open>Histories\<close>

text \<open>
  The client allocates blocks, writes into the small ones it holds and gives them back with the size it asked for.
  The small blocks it holds are recorded with their class; \<open>mp_mem\<close> is the memory of the pool, in which the large blocks do
  not lie.  Any allocation may fail.  The last component is set by a failure that finds a part of the old region left.
\<close>

type_synonym mem_state = "MemPool \<times> (nat \<times> nat) set \<times> (nat \<times> nat) list \<times> bool"

inductive mem_step :: "mem_state \<Rightarrow> mem_state \<Rightarrow> bool" where
  mem_alloc: "MemPool_allocate [m] n s = Inr (p, s') \<Longrightarrow> 0 < n \<Longrightarrow> n \<le> kMaxBytes \<Longrightarrow> fresh_region m (bytes_to_get n s) heap \<Longrightarrow>
    mem_step (s, live, heap, left) (s', insert (p, MemPool_freeListIndex n) live,
      if heapSize s' = heapSize s then heap else heap @ [(m, bytes_to_get n s)], left)"
| mem_fail: "MemPool_allocate [] n s = Inl (BadAlloc, s') \<Longrightarrow> 0 < n \<Longrightarrow> n \<le> kMaxBytes \<Longrightarrow>
    mem_step (s, live, heap, left) (s', live, heap, left \<or> startFree s \<noteq> endFree s)"
| mem_large: "MemPool_allocate news n s \<in> {Inr (p, s'), Inl (BadAlloc, s')} \<Longrightarrow> kMaxBytes < n \<Longrightarrow>
    mem_step (s, live, heap, left) (s', live, heap, left)"
| mem_free: "(p, MemPool_freeListIndex n) \<in> live \<Longrightarrow> 0 < n \<Longrightarrow> n \<le> kMaxBytes \<Longrightarrow> MemPool_deallocate p n s = Inr (del, s') \<Longrightarrow>
    mem_step (s, live, heap, left) (s', live - {(p, MemPool_freeListIndex n)}, heap, left)"
| mem_free_large: "MemPool_deallocate p n s = Inr (del, s') \<Longrightarrow> kMaxBytes < n \<Longrightarrow>
    mem_step (s, live, heap, left) (s', live, heap, left)"
| mem_write: "(p, i) \<in> live \<Longrightarrow> p \<le> a \<Longrightarrow> a < p + class_size i \<Longrightarrow>
    mem_step (s, live, heap, left) (s\<lparr>mp_mem := (mp_mem s)(a := v)\<rparr>, live, heap, left)"

definition mem_init :: "mem_state \<Rightarrow> bool" where
  "mem_init st \<longleftrightarrow> (\<exists>m0. st = (MemPool_new m0, {}, [], False))"

definition mem_inv :: "mem_state \<Rightarrow> bool" where
  "mem_inv = (\<lambda>(s, live, heap, left). \<not> left \<longrightarrow> mp_ok live heap s)"

lemma mp_ok_new: "mp_ok {} [] (MemPool_new m0)"
  unfolding mp_ok_def
  by (intro exI [of _ "\<lambda>_. []"] mp_atI)
    (simp_all add: MemPool_new_def pieces_def pieces_apart_def kNumFreeLists_def kMaxBytes_def kAlign_def)

lemma mp_ok_totals: "mp_ok live heap (s\<lparr>totalAllocated := t, totalFreed := u\<rparr>) = mp_ok live heap s"
  by (simp add: mp_ok_def mp_at_def)

lemma mp_at_cong:
  "mp_free s' = mp_free s \<Longrightarrow> mp_mem s' = mp_mem s \<Longrightarrow> startFree s' = startFree s \<Longrightarrow> endFree s' = endFree s \<Longrightarrow>
   heapSize s' = heapSize s \<Longrightarrow> mp_at fls live heap s' = mp_at fls live heap s"
  by (simp add: mp_at_def)

text \<open>An allocation of \<open>n\<close> bytes; the result comes from the free list of its class or from a refill.\<close>

lemma MemPool_allocate_ok:
  assumes ok: "mp_ok live heap s" and n: "0 < n" "n \<le> kMaxBytes" and fresh: "fresh_region m (bytes_to_get n s) heap"
  shows "\<exists>p s'. MemPool_allocate [m] n s = Inr (p, s') \<and> (p, MemPool_freeListIndex n) \<notin> live \<and>
    mp_ok (insert (p, MemPool_freeListIndex n) live) (if heapSize s' = heapSize s then heap else heap @ [(m, bytes_to_get n s)]) s' \<and>
    totalAllocated s' = (if mp_free s ! MemPool_freeListIndex n = 0 then totalAllocated s else szadd (totalAllocated s) n)"
proof -
  obtain fls where at: "mp_at fls live heap s" using ok by (auto simp: mp_ok_def)
  note A = mp_atD [OF at]
  let ?i = "MemPool_freeListIndex n"
  have i: "?i < 32" "MemPool_roundUp n = class_size ?i" using index_class [of n] n by (simp_all add: kMaxBytes_def)
  have bytes: "bytes_to_get n s = 40 * class_size ?i + 8 * ((heapSize s div 16 + 7) div 8)"
    unfolding bytes_to_get_def i(2) by (rule bytes_to_get_eq [OF i(1) A(15)])
  show ?thesis
  proof (cases "mp_free s ! ?i = 0")
    case True
    then have "fls ?i = []" using chain_null [OF A(2) [OF i(1)]] by simp
    from refill_ok [OF at i(1) this] fresh
    obtain c s' where r: "MemPool_refill [m] (class_size ?i) s = Inr (c, s')" "(c, ?i) \<notin> live" "totalAllocated s' = totalAllocated s"
      "mp_ok (insert (c, ?i) live) (if heapSize s' = heapSize s then heap else heap @ [(m, bytes_to_get n s)]) s'"
      unfolding bytes by blast
    have "MemPool_allocate [m] n s = Inr (c, s')"
      using True n i(1) A(1) r(1) unfolding MemPool_allocate_def Let_def i(2) by simp
    then show ?thesis using r True by (intro exI [of _ c] exI [of _ s']) simp
  next
    case False
    let ?p = "mp_free s ! ?i"
    let ?s = "s\<lparr>mp_free := (mp_free s)[?i := mp_mem s ?p], totalAllocated := szadd (totalAllocated s) n\<rparr>"
    obtain xs where xs: "fls ?i = ?p # xs" "mp_at (fls(?i := xs)) (insert (?p, ?i) live) heap ?s"
      using mp_at_pop [OF at i(1) False] by blast
    have "MemPool_allocate [m] n s = Inr (?p, ?s)" using False n i(1) A(1) unfolding MemPool_allocate_def Let_def by simp
    moreover have "(?p, ?i) \<notin> live" using A(4) [OF i(1)] xs(1) by simp
    moreover have "mp_ok (insert (?p, ?i) live) heap ?s" using xs(2) unfolding mp_ok_def by blast
    ultimately show ?thesis using False by (intro exI [of _ ?p] exI [of _ ?s]) simp
  qed
qed

lemma MemPool_deallocate_ok:
  assumes ok: "mp_ok live heap s" and p: "(p, MemPool_freeListIndex n) \<in> live" and n: "n \<le> kMaxBytes"
  shows "\<exists>s'. MemPool_deallocate p n s = Inr (False, s') \<and> mp_ok (live - {(p, MemPool_freeListIndex n)}) heap s' \<and>
    totalFreed s' = szadd (totalFreed s) n \<and> totalAllocated s' = totalAllocated s"
proof -
  obtain fls where at: "mp_at fls live heap s" using ok by (auto simp: mp_ok_def)
  let ?s = "s\<lparr>totalFreed := szadd (totalFreed s) n\<rparr>"
  have "mp_at fls live heap ?s" using at by (simp add: mp_at_def)
  from mp_at_push [OF this p] obtain s' where s': "MemPool_push (MemPool_freeListIndex n) p ?s = Inr s'"
    "mp_at (fls(MemPool_freeListIndex n := p # fls (MemPool_freeListIndex n))) (live - {(p, MemPool_freeListIndex n)}) heap s'"
    "totalAllocated s' = totalAllocated s" "totalFreed s' = szadd (totalFreed s) n" by auto
  then show ?thesis using n unfolding MemPool_deallocate_def Let_def mp_ok_def by auto
qed

lemma mp_ok_write:
  assumes ok: "mp_ok live heap s" and p: "(p, i) \<in> live" "p \<le> a" "a < p + class_size i"
  shows "mp_ok live heap (s\<lparr>mp_mem := (mp_mem s)(a := v)\<rparr>)"
proof -
  obtain fls where at: "mp_at fls live heap s" using ok by (auto simp: mp_ok_def)
  note A = mp_atD [OF at]
  have "a \<noteq> x" if "j < 32" "x \<in> set (fls j)" for j x
  proof
    assume "a = x"
    have "(x, j) \<in> pieces fls live" "(p, i) \<in> pieces fls live" "(x, j) \<noteq> (p, i)" using that p(1) A(4) [OF that] by (auto simp: pieces_def)
    then have "apart p (class_size i) x (class_size j)" using pieces_apartD [OF A(6)] by metis
    then show False using p \<open>a = x\<close> by (auto simp: apart_def)
  qed
  then have "chain ((mp_mem s)(a := v)) (mp_free s ! j) (fls j)" if "j < 32" for j
    using A(2) [OF that] that by (subst chain_cong [of "fls j" _ "mp_mem s"]) auto
  then show ?thesis using at unfolding mp_ok_def by (intro exI [of _ fls]) (simp add: mp_at_def)
qed

text \<open>
  Without memory from \<^verbatim>\<open>operator new\<close> an allocation fails only if the list of its class is empty and less than one object
  is left.  The pool is then as before if nothing was left, otherwise the leftover is on the list of its size.
\<close>

definition listed :: "nat \<Rightarrow> MemPool \<Rightarrow> MemPool" where
  "listed j s = s\<lparr>mp_mem := (mp_mem s)(startFree s := mp_free s ! j), mp_free := (mp_free s)[j := startFree s]\<rparr>"

lemma MemPool_allocate_fails:
  assumes ok: "mp_ok live heap s" and n: "0 < n" "n \<le> kMaxBytes" and fail: "MemPool_allocate [] n s = Inl (e, s')"
  shows "e = BadAlloc \<and> startFree s \<le> endFree s \<and> endFree s - startFree s < class_size (MemPool_freeListIndex n) \<and>
    s' = (if startFree s = endFree s then s else listed (MemPool_freeListIndex (endFree s - startFree s)) s)"
proof -
  obtain fls where at: "mp_at fls live heap s" using ok by (auto simp: mp_ok_def)
  note A = mp_atD [OF at]
  let ?i = "MemPool_freeListIndex n" and ?l = "endFree s - startFree s"
  have i: "?i < 32" "MemPool_roundUp n = class_size ?i" using index_class [of n] n by (simp_all add: kMaxBytes_def)
  have "mp_free s ! ?i = 0"
    using fail n A(1) i(1) unfolding MemPool_allocate_def Let_def by (auto split: if_splits)
  then have refill: "MemPool_refill [] (class_size ?i) s = Inl (e, s')"
    using fail n A(1) i unfolding MemPool_allocate_def Let_def by simp
  have less: "?l < class_size ?i"
  proof (rule ccontr)
    assume "\<not> ?l < class_size ?i"
    then obtain k where "MemPool_chunkAlloc [] (class_size ?i) 20 s = Inr (startFree s, k, s\<lparr>startFree := startFree s + k * class_size ?i\<rparr>)"
      using chunkAlloc_room [OF at i(1), of "[]"] by auto
    moreover have "MemPool_freeListIndex (8 + 8 * ?i) = ?i" using index_of_class [OF i(1)] by simp
    ultimately show False using refill A(1) i(1) unfolding MemPool_refill_def by (auto simp: Let_def split: if_splits)
  qed
  have left: "szsub (endFree s) (startFree s) = ?l" using A(10,11) by (simp add: szsub_no_wrap)
  have total: "\<not> szmul (class_size ?i) 20 \<le> ?l" using less i(1) by (simp add: szmul_def size_mod_def)
  have small: "?l < 256" using less i(1) by simp
  have push: "MemPool_push (MemPool_freeListIndex ?l) (startFree s) s = Inr (listed (MemPool_freeListIndex ?l) s)" if "0 < ?l"
    using index_class(1) [of ?l] that small A(1) unfolding MemPool_push_def listed_def by simp
  have "MemPool_chunkAlloc [] (class_size ?i) 20 s =
      Inl (BadAlloc, if startFree s = endFree s then s else listed (MemPool_freeListIndex ?l) s)"
    using less total push A(10) unfolding MemPool_chunkAlloc.simps [of "[]"] Let_def left by (cases "0 < ?l") simp_all
  then show ?thesis using refill less A(10) unfolding MemPool_refill_def by auto
qed

text \<open>Afterwards the leftover is handed out from the list, and once more from the region if it was alone on the list.\<close>

lemma MemPool_leftover_twice:
  assumes ok: "mp_ok live heap s" and l: "l = endFree s - startFree s" "0 < l" "l < 256"
  shows "\<exists>s2. MemPool_allocate ms l (listed (MemPool_freeListIndex l) s) = Inr (startFree s, s2) \<and>
    (mp_free s ! MemPool_freeListIndex l = 0 \<longrightarrow> (\<exists>s3. MemPool_allocate ms l s2 = Inr (startFree s, s3)))"
proof -
  obtain fls where at: "mp_at fls live heap s" using ok by (auto simp: mp_ok_def)
  note A = mp_atD [OF at]
  let ?j = "MemPool_freeListIndex l"
  obtain q where q: "l = 8 * q" using A(12) unfolding l(1) by (elim dvdE)
  have j: "?j < 32" "MemPool_roundUp l = l" "\<not> kMaxBytes < l" using index_class(1) [of l] l(2,3) q by (simp_all add: roundUp_eq kMaxBytes_def)
  obtain s2 where s2: "MemPool_allocate ms l (listed ?j s) = Inr (startFree s, s2)" "mp_free s2 ! ?j = mp_free s ! ?j" "length (mp_free s2) = 32"
      "startFree s2 = startFree s" "endFree s2 = endFree s"
    using j(1,3) A(1,13) l(1,2) unfolding MemPool_allocate_def Let_def listed_def by simp
  have left: "szsub (endFree s2) (startFree s2) = l" using A(10,11) l(1) s2(4,5) by (simp add: szsub_no_wrap)
  have mult: "szmul l 20 = 20 * l" "szmul l (Suc 0) = l" using l(3) by (simp_all add: szmul_def size_mod_def)
  have "MemPool_chunkAlloc ms l 20 s2 = Inr (startFree s, 1, s2\<lparr>startFree := startFree s + l\<rparr>)"
    using l(2) unfolding MemPool_chunkAlloc.simps [of ms] Let_def left mult by (simp add: mult s2(4))
  then have "MemPool_refill ms l s2 = Inr (startFree s, s2\<lparr>startFree := startFree s + l\<rparr>)" unfolding MemPool_refill_def by simp
  then have "mp_free s ! ?j = 0 \<longrightarrow> (\<exists>s3. MemPool_allocate ms l s2 = Inr (startFree s, s3))"
    using j s2(2,3) unfolding MemPool_allocate_def Let_def by simp
  with s2(1) show ?thesis by (intro exI [of _ s2] conjI)
qed

interpretation mem_pool: inductive_invariant mem_init mem_step mem_inv
proof unfold_locales
  show "mem_inv st" if "mem_init st" for st using that by (auto simp: mem_init_def mem_inv_def mp_ok_new)
  show "mem_inv st'" if inv: "mem_inv st" and step: "mem_step st st'" for st st'
    using step
  proof cases
    case (mem_alloc m n s p s' heap live left)
    then show ?thesis using inv MemPool_allocate_ok [of live heap s n m] by (auto simp: mem_inv_def)
  next
    case (mem_fail n s s' live heap left)
    then show ?thesis using inv MemPool_allocate_fails [of live heap s n BadAlloc s'] by (auto simp: mem_inv_def)
  next
    case (mem_large news n s p s' live heap left)
    then have "s' = s\<lparr>totalAllocated := szadd (totalAllocated s) n\<rparr>" by (cases news) (auto simp: MemPool_allocate_def Let_def)
    then show ?thesis using mem_large inv by (simp add: mem_inv_def mp_ok_def mp_at_def)
  next
    case (mem_free p n live s del s' heap left)
    then show ?thesis using inv MemPool_deallocate_ok [of live heap s p n] by (auto simp: mem_inv_def)
  next
    case (mem_free_large p n s del s' live heap left)
    then have "s' = s\<lparr>totalFreed := szadd (totalFreed s) n\<rparr>" by (simp add: MemPool_deallocate_def Let_def)
    then show ?thesis using mem_free_large inv by (simp add: mem_inv_def mp_ok_def mp_at_def)
  next
    case (mem_write p i live a s heap left v)
    then show ?thesis using inv mp_ok_write [of live heap s p i a v] by (simp add: mem_inv_def)
  qed
qed

lemma mp_ok_live_apart:
  assumes "mp_ok (insert (p, i) live) heap s" "(p, i) \<notin> live"
  shows "p \<noteq> 0 \<and> covered heap p (class_size i) \<and> (\<forall>(q, j) \<in> live. apart p (class_size i) q (class_size j))"
proof -
  obtain fls where at: "mp_at fls (insert (p, i) live) heap s" using assms(1) by (auto simp: mp_ok_def)
  note A = mp_atD [OF at]
  have in_p: "(p, i) \<in> pieces fls (insert (p, i) live)" by (simp add: pieces_def)
  have "apart p (class_size i) q (class_size j)" if "(q, j) \<in> live" for q j
    using that assms(2) by (intro pieces_apartD [OF A(6) in_p]) (auto simp: pieces_def)
  then show ?thesis using A(7,8) [OF in_p] by auto
qed

text \<open>
  C32: whatever the history of allocations, failed ones included, client writes and deallocations of a MemPool, as long
  as no operator new has thrown while a part of the old region was left, an allocation of 1 to 256 bytes succeeds, and its
  block is not null, has room for the bytes, lies in memory the pool has obtained and overlaps no block the client holds.
  It is not counted in totalAllocated when the free list had to be refilled; an allocation of no bytes indexes the
  free lists out of range.  When operator new throws, the pool is unchanged if nothing was left of the region; otherwise
  the leftover is on a free list and still the region to cut from, and two later allocations of its size return the same
  address when it is alone on that list.
\<close>

theorem MemPool_allocate_disjoint:
  assumes "reach mem_init mem_step (s, live, heap, left)" and "\<not> left" and "0 < n" and "n \<le> kMaxBytes"
    and "fresh_region m (bytes_to_get n s) heap"
  shows "(\<exists>p s'. MemPool_allocate [m] n s = Inr (p, s') \<and> p \<noteq> 0 \<and> n \<le> class_size (MemPool_freeListIndex n) \<and>
      (\<exists>(c, l) \<in> set (heap @ [(m, bytes_to_get n s)]). c \<le> p \<and> p + class_size (MemPool_freeListIndex n) \<le> c + l) \<and>
      (\<forall>(q, j) \<in> live. apart p (class_size (MemPool_freeListIndex n)) q (class_size j)) \<and>
      totalAllocated s' = (if mp_free s ! MemPool_freeListIndex n = 0 then totalAllocated s else szadd (totalAllocated s) n)) \<and>
    MemPool_allocate news 0 s = Inl (Undefined, s) \<and>
    (\<forall>e s'. MemPool_allocate [] n s = Inl (e, s') \<longrightarrow> e = BadAlloc \<and>
      (let l = endFree s - startFree s in
        (if l = 0 then s' = s
         else \<exists>s2. MemPool_allocate ms l s' = Inr (startFree s, s2) \<and>
           (mp_free s ! MemPool_freeListIndex l = 0 \<longrightarrow> (\<exists>s3. MemPool_allocate ms l s2 = Inr (startFree s, s3))))))"
proof -
  have ok: "mp_ok live heap s" using mem_pool.reach_inv [OF assms(1)] assms(2) by (simp add: mem_inv_def)
  let ?i = "MemPool_freeListIndex n" and ?l = "endFree s - startFree s"
  obtain p s' where p: "MemPool_allocate [m] n s = Inr (p, s')" "(p, ?i) \<notin> live"
      "mp_ok (insert (p, ?i) live) (if heapSize s' = heapSize s then heap else heap @ [(m, bytes_to_get n s)]) s'"
      "totalAllocated s' = (if mp_free s ! ?i = 0 then totalAllocated s else szadd (totalAllocated s) n)"
    using MemPool_allocate_ok [OF ok assms(3-5)] by blast
  note L = mp_ok_live_apart [OF p(3,2)]
  have "covered (heap @ [(m, bytes_to_get n s)]) p (class_size ?i)" using L covered_more [of heap p] by (auto split: if_splits)
  moreover have i: "n \<le> class_size ?i" "?i < 32" using index_class(1,3) [of n] assms(3,4) by (simp_all add: kMaxBytes_def)
  moreover have "length (mp_free s) = 32" using ok by (auto simp: mp_ok_def mp_at_def)
  then have "MemPool_allocate news 0 s = Inl (Undefined, s)" by (simp add: MemPool_allocate_def index_zero size_mod_def Let_def)
  moreover have "e = BadAlloc \<and> (let l = ?l in (if l = 0 then t = s else \<exists>s2. MemPool_allocate ms l t = Inr (startFree s, s2) \<and>
      (mp_free s ! MemPool_freeListIndex l = 0 \<longrightarrow> (\<exists>s3. MemPool_allocate ms l s2 = Inr (startFree s, s3)))))"
    if fail: "MemPool_allocate [] n s = Inl (e, t)" for e t
  proof -
    note F = MemPool_allocate_fails [OF ok assms(3,4) fail]
    have "?l < 256" using F i(2) by simp
    then show ?thesis using F MemPool_leftover_twice [OF ok refl, of ms] by (cases "?l = 0") (auto simp: Let_def)
  qed
  ultimately show ?thesis using p L unfolding covered_def by blast
qed

text \<open>
  A history with a failure: after the allocation of one small block 160 bytes are left; an allocation of 256 bytes fails, and two
  allocations of 160 bytes return the same address.
\<close>

definition sample_pool :: MemPool where
  "sample_pool = \<lparr>mp_free = (replicate 32 0)[0 := 4104], mp_mem = MemPool_link 8 18 4104 (\<lambda>_. 0), startFree = 4256, endFree = 4416,
     heapSize = 320, totalAllocated = 0, totalFreed = 0\<rparr>"

lemma sample_pool_step: "MemPool_allocate [4096] 8 (MemPool_new (\<lambda>_. 0)) = Inr (4096, sample_pool)"
proof -
  let ?s = "MemPool_new (\<lambda>_. 0)" and ?t = "(MemPool_new (\<lambda>_. 0))\<lparr>startFree := 4096, heapSize := 320, endFree := 4416\<rparr>"
  have idx: "MemPool_freeListIndex 8 = 0" "MemPool_roundUp 8 = 8" "MemPool_roundUp 0 = 0" by (simp_all add: freeListIndex_eq roundUp_eq)
  have "MemPool_chunkAlloc [] 8 20 ?t = Inr (4096, 20, ?t\<lparr>startFree := 4256\<rparr>)"
    by (simp add: MemPool_chunkAlloc.simps szmul_def szsub_def size_mod_def)
  moreover have "MemPool_chunkAlloc [4096] 8 20 ?s = MemPool_chunkAlloc [] 8 20 ?t"
    by (subst MemPool_chunkAlloc.simps) (simp add: MemPool_new_def idx szmul_def szsub_def szadd_def size_mod_def)
  ultimately show ?thesis
    by (simp add: MemPool_allocate_def MemPool_refill_def MemPool_new_def idx sample_pool_def kMaxBytes_def kAlign_def kNumFreeLists_def)
qed

theorem MemPool_allocate_disjoint_witness:
  "\<exists>s1. MemPool_allocate [] 256 sample_pool = Inl (BadAlloc, s1) \<and>
    (\<exists>s2 s3. MemPool_allocate [] 160 s1 = Inr (4256, s2) \<and> MemPool_allocate [] 160 s2 = Inr (4256, s3)) \<and>
    (\<exists>p s'. MemPool_allocate [8192] 256 sample_pool = Inr (p, s') \<and> p \<noteq> 0)"
proof -
  have idx: "MemPool_freeListIndex 8 = 0" "MemPool_freeListIndex 256 = 31" "MemPool_freeListIndex 160 = 19" by (simp_all add: freeListIndex_eq)
  have get: "bytes_to_get 8 (MemPool_new (\<lambda>_. 0)) = 320" "bytes_to_get 256 sample_pool = 10264"
    by (simp_all add: bytes_to_get_def roundUp_eq MemPool_new_def sample_pool_def drop_bit_eq_div szadd_def szmul_def size_mod_def)
  have hs: "heapSize sample_pool \<noteq> heapSize (MemPool_new (\<lambda>_. 0))" by (simp add: sample_pool_def MemPool_new_def)
  have "mem_step (MemPool_new (\<lambda>_. 0), {}, [], False) (sample_pool, {(4096, 0)}, [(4096, 320)], False)"
    using mem_alloc [OF sample_pool_step, of "[]" "{}" False] by (simp add: get idx hs kMaxBytes_def fresh_region_def size_mod_def)
  then have "reach mem_init mem_step (sample_pool, {(4096, 0)}, [(4096, 320)], False)"
    by (rule reach_step [OF reach_init, rotated]) (auto simp: mem_init_def)
  note T = MemPool_allocate_disjoint [OF this, of 256 8192 "[]" "[]"]
  have "fresh_region 8192 (bytes_to_get 256 sample_pool) [(4096, 320)]" by (simp add: get fresh_region_def apart_def size_mod_def)
  moreover have "\<exists>s1. MemPool_allocate [] 256 sample_pool = Inl (BadAlloc, s1)"
    by (simp add: MemPool_allocate_def MemPool_refill_def MemPool_chunkAlloc.simps [of "[]"] MemPool_push_def idx roundUp_eq sample_pool_def
      kMaxBytes_def szmul_def szsub_def size_mod_def)
  ultimately show ?thesis using T by (auto simp: kMaxBytes_def sample_pool_def idx)
qed

end
