(* ===== verification/UringPoller.thy ===== *)
theory UringPoller
  imports TimerQueue "HOL-Library.Multiset"
begin

text \<open>
  The completion-based loop: \<^verbatim>\<open>io_uring/uring_poller.h\<close>, \<^verbatim>\<open>io_uring/uring_poller.cpp\<close>,
  \<^verbatim>\<open>io_uring/awaiter.h\<close>, \<^verbatim>\<open>io_uring/awaiter.cpp\<close>, \<^verbatim>\<open>io_uring/UringEventLoop.h\<close>,
  \<^verbatim>\<open>io_uring/UringEventLoop.cpp\<close>.

  \<^item> \<^verbatim>\<open>liburing\<close> and the kernel behind it are the record of functions \<open>liburing\<close> on a ring of
    abstract type \<open>'u\<close>.  What the code relies on is the locale \<open>uring_ring\<close>: a prepared entry joins
    the submission queue, a submission passes a prefix of it to the kernel, the kernel turns accepted
    entries into completions at the end of the completion queue, and advancing the queue releases its
    first slots.  The content of a slot is fixed only while the slot is in the queue.
  \<^item> A \<^verbatim>\<open>UringContext\<close> is an object with an address; an entry carries the address of its context, the
    wake-up poll carries none.  Resuming a coroutine handle is the parameter \<open>run\<close>.
  \<^item> The loop's own state is that of \<open>EventLoop\<close>, extended by the members of \<^verbatim>\<open>UringPoller\<close>.
\<close>

section \<open>The ring\<close>

text \<open>An operation of a submission entry: descriptor, buffer, length, file offset.\<close>

datatype uring_op =
    PrepRead int nat nat int | PrepWrite int nat nat int | PrepAccept int | PrepPollWakeup

type_synonym sqe = "uring_op \<times> nat option"
type_synonym cqe = "nat option \<times> int"

text \<open>
  \<open>cq_ready\<close> are the pointers that \<^verbatim>\<open>io_uring_for_each_cqe\<close> visits and \<open>cqe_at\<close> what such a pointer
  refers to.  The waiting calls are one function of the timeout in milliseconds, \<open>None\<close> for no timeout.
\<close>

record 'u liburing =
  io_uring_queue_init :: "nat \<Rightarrow> int \<times> 'u"
  io_uring_get_sqe :: "'u \<Rightarrow> 'u option"
  io_uring_prep :: "uring_op \<Rightarrow> nat option \<Rightarrow> 'u \<Rightarrow> 'u"
  io_uring_submit :: "'u \<Rightarrow> int \<times> 'u"
  io_uring_wait_cqe :: "int option \<Rightarrow> 'u \<Rightarrow> int \<times> 'u"
  cq_ready :: "'u \<Rightarrow> nat list"
  cqe_at :: "'u \<Rightarrow> nat \<Rightarrow> cqe"
  io_uring_cq_advance :: "nat \<Rightarrow> 'u \<Rightarrow> 'u"

section \<open>State\<close>

record UringContext =
  ctx_handle :: "nat option"
  ctx_loop :: nat
  ctx_res :: int

definition UringContext_new :: "nat \<Rightarrow> UringContext" where
  "UringContext_new l = \<lparr>ctx_handle = None, ctx_loop = l, ctx_res = -1\<rparr>"

record ('k, 'c, 'u) UringLoop = "('k, 'c) EventLoop" +
  uring :: 'u
  initialized :: bool
  wakeupPollArmed :: bool
  pending_sqes :: int
  active_cqes :: "nat list"
  ctxs :: "nat \<rightharpoonup> UringContext"

definition min_submit_sqes :: int where "min_submit_sqes = 4"

definition ETIME :: int where "ETIME = 62"

section \<open>Submission\<close>

definition UringPoller_submitPendingSqes ::
  "'u liburing \<Rightarrow> ('k, 'c, 'u, 'z) UringLoop_scheme \<Rightarrow> ('k, 'c, 'u, 'z) UringLoop_scheme" where
  "UringPoller_submitPendingSqes L s =
     (if 0 < pending_sqes s
      then case io_uring_submit L (uring s) of (ret, u) \<Rightarrow>
        if ret < 0 then s\<lparr>uring := u\<rparr> else s\<lparr>uring := u, pending_sqes := pending_sqes s - ret\<rparr>
      else s)"

text \<open>The comparison is made in \<^verbatim>\<open>size_t\<close>: a negative count would be huge.\<close>

definition UringPoller_submitIfNeeded ::
  "'u liburing \<Rightarrow> ('k, 'c, 'u, 'z) UringLoop_scheme \<Rightarrow> ('k, 'c, 'u, 'z) UringLoop_scheme" where
  "UringPoller_submitIfNeeded L s =
     (if pending_sqes s < 0 \<or> min_submit_sqes \<le> pending_sqes s
      then UringPoller_submitPendingSqes L s else s)"

text \<open>The flag says whether an entry was obtained.\<close>

definition UringPoller_getSqe ::
  "'u liburing \<Rightarrow> ('k, 'c, 'u, 'z) UringLoop_scheme \<Rightarrow> bool \<times> ('k, 'c, 'u, 'z) UringLoop_scheme" where
  "UringPoller_getSqe L s = (case io_uring_get_sqe L (uring s) of
       Some u \<Rightarrow> (True, s\<lparr>uring := u\<rparr>)
     | None \<Rightarrow> let s1 = UringPoller_submitPendingSqes L s in
         (case io_uring_get_sqe L (uring s1) of
            Some u \<Rightarrow> (True, s1\<lparr>uring := u\<rparr>) | None \<Rightarrow> (False, s1)))"

text \<open>What the three submissions and the wake-up poll share: fill the entry, count it.\<close>

definition UringPoller_prepare ::
  "'u liburing \<Rightarrow> uring_op \<Rightarrow> nat option \<Rightarrow> ('k, 'c, 'u, 'z) UringLoop_scheme \<Rightarrow> ('k, 'c, 'u, 'z) UringLoop_scheme"
  where "UringPoller_prepare L op d s =
     s\<lparr>uring := io_uring_prep L op d (uring s), pending_sqes := pending_sqes s + 1\<rparr>"

definition UringPoller_submitRead :: "'u liburing \<Rightarrow> int \<Rightarrow> nat \<Rightarrow> nat \<Rightarrow> nat \<Rightarrow> int \<Rightarrow>
    ('k, 'c, 'u, 'z) UringLoop_scheme \<Rightarrow> bool \<times> ('k, 'c, 'u, 'z) UringLoop_scheme" where
  "UringPoller_submitRead L fd buf len user_data offset s = (case UringPoller_getSqe L s of
     (got, s1) \<Rightarrow> if \<not> got then (False, s1)
       else (True, UringPoller_prepare L (PrepRead fd buf len offset) (Some user_data) s1))"

definition UringPoller_submitWrite :: "'u liburing \<Rightarrow> int \<Rightarrow> nat \<Rightarrow> nat \<Rightarrow> nat \<Rightarrow> int \<Rightarrow>
    ('k, 'c, 'u, 'z) UringLoop_scheme \<Rightarrow> bool \<times> ('k, 'c, 'u, 'z) UringLoop_scheme" where
  "UringPoller_submitWrite L fd buf len user_data offset s = (case UringPoller_getSqe L s of
     (got, s1) \<Rightarrow> if \<not> got then (False, s1)
       else (True, UringPoller_prepare L (PrepWrite fd buf len offset) (Some user_data) s1))"

definition UringPoller_submitAccept :: "'u liburing \<Rightarrow> int \<Rightarrow> nat \<Rightarrow>
    ('k, 'c, 'u, 'z) UringLoop_scheme \<Rightarrow> bool \<times> ('k, 'c, 'u, 'z) UringLoop_scheme" where
  "UringPoller_submitAccept L fd user_data s = (case UringPoller_getSqe L s of
     (got, s1) \<Rightarrow> if \<not> got then (False, s1)
       else (True, UringPoller_prepare L (PrepAccept fd) (Some user_data) s1))"

definition UringPoller_registerWakeupPoll ::
  "'u liburing \<Rightarrow> ('k, 'c, 'u, 'z) UringLoop_scheme \<Rightarrow> ('k, 'c, 'u, 'z) UringLoop_scheme" where
  "UringPoller_registerWakeupPoll L s = (case UringPoller_getSqe L s of
     (got, s1) \<Rightarrow> if \<not> got then s1
       else UringPoller_submitPendingSqes L
              ((UringPoller_prepare L PrepPollWakeup None s1)\<lparr>wakeupPollArmed := True\<rparr>))"

definition UringPoller_initUring ::
  "'u liburing \<Rightarrow> nat \<Rightarrow> ('k, 'c, 'u, 'z) UringLoop_scheme \<Rightarrow> bool \<times> ('k, 'c, 'u, 'z) UringLoop_scheme" where
  "UringPoller_initUring L entries s = (case io_uring_queue_init L entries of
     (ret, u) \<Rightarrow> if ret < 0 then (False, s)
       else (True, UringPoller_registerWakeupPoll L (s\<lparr>uring := u, initialized := True\<rparr>)))"

text \<open>The constructor on the loop that owns the poller; a failed initialisation is fatal.\<close>

definition UringPoller_new ::
  "'u liburing \<Rightarrow> ('k, 'c, 'u, 'z) UringLoop_scheme \<Rightarrow> ('k, 'c, 'u, 'z) UringLoop_scheme result" where
  "UringPoller_new L s =
     (case UringPoller_initUring L 1024 (s\<lparr>initialized := False, wakeupPollArmed := False,
             pending_sqes := 0, active_cqes := []\<rparr>) of
        (ok, s1) \<Rightarrow> if ok then Inr s1 else Inl Aborted)"

section \<open>Completion\<close>

text \<open>\<^verbatim>\<open>handle_.resume()\<close> of a context: a context that is gone or has no handle is undefined behaviour.\<close>

definition resume_ctx ::
  "(nat \<Rightarrow> ('k, 'c, 'u, 'z) UringLoop_scheme \<Rightarrow> ('k, 'c, 'u, 'z) UringLoop_scheme result) \<Rightarrow> nat \<Rightarrow>
   ('k, 'c, 'u, 'z) UringLoop_scheme \<Rightarrow> ('k, 'c, 'u, 'z) UringLoop_scheme result" where
  "resume_ctx run c s = bindR (derefR (ctxs s) c) (\<lambda>ctx.
     case ctx_handle ctx of None \<Rightarrow> Inl Undefined | Some h \<Rightarrow> run h s)"

text \<open>One pass of the loop of \<^verbatim>\<open>handleCompletions\<close>; \<open>later\<close> names the lambda that resumes a context.\<close>

definition UringPoller_handleCompletion ::
  "'u liburing \<Rightarrow> ('k, 'e) env_scheme \<Rightarrow> (nat \<Rightarrow> 'c) \<Rightarrow>
   (nat \<Rightarrow> ('k, 'c, 'u, 'z) UringLoop_scheme \<Rightarrow> ('k, 'c, 'u, 'z) UringLoop_scheme result) \<Rightarrow> nat \<Rightarrow>
   ('k, 'c, 'u, 'z) UringLoop_scheme \<Rightarrow> ('k, 'c, 'u, 'z) UringLoop_scheme result" where
  "UringPoller_handleCompletion L E later run p s = (case cqe_at L (uring s) p of
     (None, res) \<Rightarrow>
       Inr (UringPoller_registerWakeupPoll L ((EventLoop_handleRead s)\<lparr>wakeupPollArmed := False\<rparr>))
   | (Some c, res) \<Rightarrow> bindR (derefR (ctxs s) c) (\<lambda>ctx.
       let s1 = s\<lparr>ctxs := (ctxs s)(c \<mapsto> ctx\<lparr>ctx_res := res\<rparr>)\<rparr> in
       if \<not> EventLoop_isInLoopThread E s1 then Inr (EventLoop_queueInLoop E (later c) s1)
       else resume_ctx run c s1))"

definition UringPoller_handleCompletions ::
  "'u liburing \<Rightarrow> ('k, 'e) env_scheme \<Rightarrow> (nat \<Rightarrow> 'c) \<Rightarrow>
   (nat \<Rightarrow> ('k, 'c, 'u, 'z) UringLoop_scheme \<Rightarrow> ('k, 'c, 'u, 'z) UringLoop_scheme result) \<Rightarrow>
   ('k, 'c, 'u, 'z) UringLoop_scheme \<Rightarrow> ('k, 'c, 'u, 'z) UringLoop_scheme result" where
  "UringPoller_handleCompletions L E later run s =
     foldR (UringPoller_handleCompletion L E later run) (active_cqes s) s"

text \<open>
  \<^verbatim>\<open>poll\<close> up to the call of \<^verbatim>\<open>handleCompletions\<close>: submit, wait, collect the pointers, advance the queue.
  The conversion of the count to \<^verbatim>\<open>unsigned\<close> makes a negative one positive.
\<close>

definition UringPoller_collect ::
  "'u liburing \<Rightarrow> int \<Rightarrow> ('k, 'c, 'u, 'z) UringLoop_scheme \<Rightarrow> ('k, 'c, 'u, 'z) UringLoop_scheme" where
  "UringPoller_collect L timeoutMs s =
     (let s1 = (if pending_sqes s \<noteq> 0
                then case io_uring_submit L (uring s) of (ret, u) \<Rightarrow>
                  if 0 < ret then s\<lparr>uring := u, pending_sqes := pending_sqes s - ret\<rparr> else s\<lparr>uring := u\<rparr>
                else s)
      in case io_uring_wait_cqe L (if 0 \<le> timeoutMs then Some timeoutMs else None) (uring s1) of (ret, u) \<Rightarrow>
        let s2 = s1\<lparr>uring := u\<rparr> in
        if ret < 0 \<and> ret \<noteq> - ETIME then s2
        else let ptrs = cq_ready L u; s3 = s2\<lparr>active_cqes := active_cqes s2 @ ptrs\<rparr> in
          if 0 < length ptrs then s3\<lparr>uring := io_uring_cq_advance L (length ptrs) u\<rparr> else s3)"

text \<open>
  The whole of \<^verbatim>\<open>poll\<close>: \<^verbatim>\<open>handleCompletions\<close> runs when something was collected; nothing is collected
  across calls, because \<^verbatim>\<open>active_cqes_\<close> is cleared after it.
\<close>

definition UringPoller_poll ::
  "'u liburing \<Rightarrow> ('k, 'e) env_scheme \<Rightarrow> (nat \<Rightarrow> 'c) \<Rightarrow>
   (nat \<Rightarrow> ('k, 'c, 'u, 'z) UringLoop_scheme \<Rightarrow> ('k, 'c, 'u, 'z) UringLoop_scheme result) \<Rightarrow> int \<Rightarrow>
   ('k, 'c, 'u, 'z) UringLoop_scheme \<Rightarrow> ('k, 'c, 'u, 'z) UringLoop_scheme result" where
  "UringPoller_poll L E later run timeoutMs s =
     (if \<not> initialized s then Inr s
      else let s1 = UringPoller_collect L timeoutMs s in
        if length (active_cqes s1) = length (active_cqes s) then Inr s1
        else bindR (UringPoller_handleCompletions L E later run s1) (\<lambda>s2. Inr (s2\<lparr>active_cqes := []\<rparr>)))"

section \<open>The loop and its awaiters\<close>

text \<open>
  The constructor: that of the base class, then the poller; \<open>u\<close> is the memory of the ring before its
  initialisation.
\<close>

definition UringLoop_extend :: "'u \<Rightarrow> ('k, 'c) EventLoop \<Rightarrow> ('k, 'c, 'u) UringLoop" where
  "UringLoop_extend u s = Channel.EventLoop.extend s
     \<lparr>uring = u, initialized = False, wakeupPollArmed = False, pending_sqes = 0, active_cqes = [], ctxs = Map.empty\<rparr>"

definition UringEventLoop_new :: "'u liburing \<Rightarrow> ('k, 'e) env_scheme \<Rightarrow> 'k \<Rightarrow> bool \<Rightarrow> nat \<Rightarrow> int \<Rightarrow> 'c \<Rightarrow> nat \<Rightarrow> int \<Rightarrow> 'c \<Rightarrow>
    'u \<Rightarrow> ('k, 'c, 'u) UringLoop result" where
  "UringEventLoop_new L E k occupied tc tfd tcb wc wfd wcb u =
     bindR (EventLoop_new E k occupied tc tfd tcb wc wfd wcb) (\<lambda>s. UringPoller_new L (UringLoop_extend u s))"

definition UringEventLoop_wait_read :: "'u liburing \<Rightarrow> int \<Rightarrow> nat \<Rightarrow> nat \<Rightarrow> nat \<Rightarrow>
    ('k, 'c, 'u, 'z) UringLoop_scheme \<Rightarrow> ('k, 'c, 'u, 'z) UringLoop_scheme" where
  "UringEventLoop_wait_read L fd buf len c s = snd (UringPoller_submitRead L fd buf len c 0 s)"

definition UringEventLoop_wait_write :: "'u liburing \<Rightarrow> int \<Rightarrow> nat \<Rightarrow> nat \<Rightarrow> nat \<Rightarrow>
    ('k, 'c, 'u, 'z) UringLoop_scheme \<Rightarrow> ('k, 'c, 'u, 'z) UringLoop_scheme" where
  "UringEventLoop_wait_write L fd buf len c s = snd (UringPoller_submitWrite L fd buf len c 0 s)"

definition UringEventLoop_wait_accept :: "'u liburing \<Rightarrow> int \<Rightarrow> nat \<Rightarrow>
    ('k, 'c, 'u, 'z) UringLoop_scheme \<Rightarrow> ('k, 'c, 'u, 'z) UringLoop_scheme" where
  "UringEventLoop_wait_accept L fd c s = snd (UringPoller_submitAccept L fd c s)"

text \<open>\<^verbatim>\<open>await_suspend\<close>: remember the handle in the context, hand the operation to the loop, maybe submit.\<close>

definition set_ctx_handle :: "nat \<Rightarrow> nat \<Rightarrow>
    ('k, 'c, 'u, 'z) UringLoop_scheme \<Rightarrow> ('k, 'c, 'u, 'z) UringLoop_scheme result" where
  "set_ctx_handle c h s = bindR (derefR (ctxs s) c) (\<lambda>ctx.
     Inr (s\<lparr>ctxs := (ctxs s)(c \<mapsto> ctx\<lparr>ctx_handle := Some h\<rparr>)\<rparr>))"

definition ReadAwaiter_await_suspend :: "'u liburing \<Rightarrow> int \<Rightarrow> nat \<Rightarrow> nat \<Rightarrow> nat \<Rightarrow> nat \<Rightarrow>
    ('k, 'c, 'u, 'z) UringLoop_scheme \<Rightarrow> ('k, 'c, 'u, 'z) UringLoop_scheme result" where
  "ReadAwaiter_await_suspend L fd buf len c h s = bindR (set_ctx_handle c h s) (\<lambda>s1.
     Inr (UringPoller_submitIfNeeded L (UringEventLoop_wait_read L fd buf len c s1)))"

definition WriteAwaiter_await_suspend :: "'u liburing \<Rightarrow> int \<Rightarrow> nat \<Rightarrow> nat \<Rightarrow> nat \<Rightarrow> nat \<Rightarrow>
    ('k, 'c, 'u, 'z) UringLoop_scheme \<Rightarrow> ('k, 'c, 'u, 'z) UringLoop_scheme result" where
  "WriteAwaiter_await_suspend L fd buf len c h s = bindR (set_ctx_handle c h s) (\<lambda>s1.
     Inr (UringPoller_submitIfNeeded L (UringEventLoop_wait_write L fd buf len c s1)))"

definition AcceptAwaiter_await_suspend :: "'u liburing \<Rightarrow> int \<Rightarrow> nat \<Rightarrow> nat \<Rightarrow>
    ('k, 'c, 'u, 'z) UringLoop_scheme \<Rightarrow> ('k, 'c, 'u, 'z) UringLoop_scheme result" where
  "AcceptAwaiter_await_suspend L fd c h s = bindR (set_ctx_handle c h s) (\<lambda>s1.
     Inr (UringPoller_submitIfNeeded L (UringEventLoop_wait_accept L fd c s1)))"

text \<open>\<^verbatim>\<open>await_resume\<close> of the three awaiters.\<close>

definition Awaiter_await_resume :: "nat \<Rightarrow> ('k, 'c, 'u, 'z) UringLoop_scheme \<Rightarrow> int result" where
  "Awaiter_await_resume c s = bindR (derefR (ctxs s) c) (\<lambda>ctx. Inr (ctx_res ctx))"

text \<open>One pass of the \<^verbatim>\<open>while\<close> loop of \<^verbatim>\<open>UringEventLoop::loop\<close>; the clock is its input.\<close>

definition UringEventLoop_iterate ::
  "'u liburing \<Rightarrow> ('k, 'e) env_scheme \<Rightarrow> (nat \<Rightarrow> 'c) \<Rightarrow>
   (nat \<Rightarrow> ('k, 'c, 'u, 'z) UringLoop_scheme \<Rightarrow> ('k, 'c, 'u, 'z) UringLoop_scheme result) \<Rightarrow>
   ('c \<Rightarrow> ('k, 'c, 'u, 'z) UringLoop_scheme \<Rightarrow> ('k, 'c, 'u, 'z) UringLoop_scheme result) \<Rightarrow> Timestamp \<Rightarrow>
   ('k, 'c, 'u, 'z) UringLoop_scheme \<Rightarrow> ('k, 'c, 'u, 'z) UringLoop_scheme result" where
  "UringEventLoop_iterate L E later run functor now s =
     bindR (UringPoller_poll L E later run 1000 s) (\<lambda>s1.
       EventLoop_doPendingFunctors functor (s1\<lparr>pollReturnTime := now\<rparr>))"

definition UringEventLoop_loop ::
  "'u liburing \<Rightarrow> ('k, 'e) env_scheme \<Rightarrow> (nat \<Rightarrow> 'c) \<Rightarrow>
   (nat \<Rightarrow> ('k, 'c, 'u, 'z) UringLoop_scheme \<Rightarrow> ('k, 'c, 'u, 'z) UringLoop_scheme result) \<Rightarrow>
   ('c \<Rightarrow> ('k, 'c, 'u, 'z) UringLoop_scheme \<Rightarrow> ('k, 'c, 'u, 'z) UringLoop_scheme result) \<Rightarrow> Timestamp list \<Rightarrow>
   ('k, 'c, 'u, 'z) UringLoop_scheme \<Rightarrow> (bool \<times> ('k, 'c, 'u, 'z) UringLoop_scheme) result" where
  "UringEventLoop_loop L E later run functor clock s = cassert E (\<not> looping s)
     (EventLoop_assertInLoopThread E s
       (bindR (EventLoop_while (UringEventLoop_iterate L E later run functor) clock
                 (s\<lparr>looping := True, quit := False\<rparr>))
         (\<lambda>(left, s1). Inr (left, if left then s1\<lparr>looping := False\<rparr> else s1))))"

section \<open>What the code relies on\<close>

text \<open>The user data of the completions at some pointers.\<close>

definition ring_data :: "'u liburing \<Rightarrow> 'u \<Rightarrow> nat list \<Rightarrow> nat option multiset" where
  "ring_data L u ps = mset (map (fst \<circ> cqe_at L u) ps)"

lemma ring_data_simps [simp]:
  "ring_data L u [] = {#}"
  "ring_data L u (p # ps) = add_mset (fst (cqe_at L u p)) (ring_data L u ps)"
  "ring_data L u (ps @ qs) = ring_data L u ps + ring_data L u qs"
  by (simp_all add: ring_data_def)

lemma ring_data_cong: "\<forall>p \<in> set ps. cqe_at L u' p = cqe_at L u p \<Longrightarrow> ring_data L u' ps = ring_data L u ps"
  by (induction ps) simp_all

text \<open>
  \<open>ring_moves\<close>: \<open>n\<close> entries leave the submission queue for the kernel, and the kernel turns some of the
  entries it holds into completions behind those that are ready.
\<close>

definition ring_moves :: "'u liburing \<Rightarrow> ('u \<Rightarrow> sqe list) \<Rightarrow> ('u \<Rightarrow> nat option multiset) \<Rightarrow> nat \<Rightarrow> 'u \<Rightarrow> 'u \<Rightarrow> bool"
  where "ring_moves L sqs flight n u u' \<longleftrightarrow> n \<le> length (sqs u) \<and> sqs u' = drop n (sqs u) \<and>
     (\<exists>posted. cq_ready L u' = cq_ready L u @ posted \<and>
        (\<forall>p \<in> set (cq_ready L u). cqe_at L u' p = cqe_at L u p) \<and>
        flight u + mset (map snd (take n (sqs u))) = flight u' + ring_data L u' posted)"

text \<open>The user data of all entries that are on their way through the ring.\<close>

definition outstanding :: "'u liburing \<Rightarrow> ('u \<Rightarrow> sqe list) \<Rightarrow> ('u \<Rightarrow> nat option multiset) \<Rightarrow> 'u \<Rightarrow> nat option multiset"
  where "outstanding L sqs flight u = mset (map snd (sqs u)) + flight u + ring_data L u (cq_ready L u)"

lemma ring_moves_outstanding:
  assumes "ring_moves L sqs flight n u u'"
  shows "outstanding L sqs flight u' = outstanding L sqs flight u"
proof -
  from assms obtain posted where p: "cq_ready L u' = cq_ready L u @ posted"
    "\<forall>p \<in> set (cq_ready L u). cqe_at L u' p = cqe_at L u p"
    "flight u + mset (map snd (take n (sqs u))) = flight u' + ring_data L u' posted"
    and s: "sqs u' = drop n (sqs u)" by (auto simp: ring_moves_def)
  have "mset (map snd (sqs u)) = mset (map snd (take n (sqs u))) + mset (map snd (drop n (sqs u)))"
    by (metis append_take_drop_id map_append mset_append)
  with p(3) ring_data_cong [OF p(2)] p(1) s show ?thesis
    by (simp add: outstanding_def ac_simps del: mset_map)
qed

lemma ring_moves_refl [simp]: "ring_moves L sqs flight 0 u u"
  by (simp add: ring_moves_def)

lemma ring_moves_trans:
  assumes "ring_moves L sqs flight n u v" and "ring_moves L sqs flight 0 v w"
  shows "ring_moves L sqs flight n u w"
proof -
  from assms(1) obtain p where p: "cq_ready L v = cq_ready L u @ p"
    "\<forall>x \<in> set (cq_ready L u). cqe_at L v x = cqe_at L u x"
    "flight u + mset (map snd (take n (sqs u))) = flight v + ring_data L v p"
    and n: "n \<le> length (sqs u)" "sqs v = drop n (sqs u)" by (auto simp: ring_moves_def)
  from assms(2) obtain q where q: "cq_ready L w = cq_ready L v @ q"
    "\<forall>x \<in> set (cq_ready L v). cqe_at L w x = cqe_at L v x"
    "flight v = flight w + ring_data L w q"
    and m: "sqs w = sqs v" by (auto simp: ring_moves_def)
  have "ring_data L w p = ring_data L v p" using q(2) p(1) by (intro ring_data_cong) simp
  then have "flight u + mset (map snd (take n (sqs u))) = flight w + ring_data L w (p @ q)"
    using p(3) q(3) by (simp add: ac_simps del: mset_map)
  with n m p(1,2) q(1,2) show ?thesis unfolding ring_moves_def by auto
qed

locale uring_ring =
  fixes L :: "'u liburing"
    and ring_ok :: "'u \<Rightarrow> bool"
    and sqs :: "'u \<Rightarrow> sqe list"
    and flight :: "'u \<Rightarrow> nat option multiset"
  assumes queue_init: "io_uring_queue_init L n = (ret, u) \<Longrightarrow> 0 \<le> ret \<Longrightarrow>
      ring_ok u \<and> sqs u = [] \<and> flight u = {#} \<and> cq_ready L u = []"
    and prep: "ring_ok u \<Longrightarrow> io_uring_get_sqe L u = Some v \<Longrightarrow>
      ring_ok (io_uring_prep L op d v) \<and> sqs (io_uring_prep L op d v) = sqs u @ [(op, d)] \<and>
      flight (io_uring_prep L op d v) = flight u \<and> cq_ready L (io_uring_prep L op d v) = cq_ready L u \<and>
      cqe_at L (io_uring_prep L op d v) = cqe_at L u"
    and submit: "ring_ok u \<Longrightarrow> io_uring_submit L u = (ret, v) \<Longrightarrow>
      ring_ok v \<and> ring_moves L sqs flight (nat ret) u v"
    and wait: "ring_ok u \<Longrightarrow> io_uring_wait_cqe L timeout u = (ret, v) \<Longrightarrow>
      ring_ok v \<and> ring_moves L sqs flight 0 u v"
    and advance: "ring_ok u \<Longrightarrow> n \<le> length (cq_ready L u) \<Longrightarrow>
      ring_ok (io_uring_cq_advance L n u) \<and> sqs (io_uring_cq_advance L n u) = sqs u \<and>
      flight (io_uring_cq_advance L n u) = flight u \<and>
      cq_ready L (io_uring_cq_advance L n u) = drop n (cq_ready L u) \<and>
      cqe_at L (io_uring_cq_advance L n u) = cqe_at L u"

section \<open>The poller, its coroutines and the kernel\<close>

text \<open>
  \<open>held\<close> are the collected pointers that \<^verbatim>\<open>handleCompletions\<close> has still to visit; \<open>accepted\<close> and
  \<open>resumed\<close> record the contexts whose operation got an entry and those that were resumed.  Between two
  visits the resumed coroutine runs: it may start further operations and create and destroy contexts.
\<close>

record ('k, 'c, 'u) UringSystem =
  lp :: "('k, 'c, 'u) UringLoop"
  held :: "nat list"
  accepted :: "nat list"
  resumed :: "nat list"

definition ctx_started :: "'u liburing \<Rightarrow> nat \<Rightarrow> ('k, 'c, 'u) UringLoop \<Rightarrow> nat list" where
  "ctx_started L c s = (if fst (UringPoller_getSqe L s) then [c] else [])"

definition resumed_by :: "'u liburing \<Rightarrow> nat \<Rightarrow> ('k, 'c, 'u) UringLoop \<Rightarrow> nat list" where
  "resumed_by L p s = (case fst (cqe_at L (uring s) p) of None \<Rightarrow> [] | Some c \<Rightarrow> [c])"

inductive Uring_step ::
  "'u liburing \<Rightarrow> ('u \<Rightarrow> bool) \<Rightarrow> ('u \<Rightarrow> sqe list) \<Rightarrow> ('u \<Rightarrow> nat option multiset) \<Rightarrow> 'k env \<Rightarrow> (nat \<Rightarrow> 'c) \<Rightarrow>
   ('k, 'c, 'u) UringSystem \<Rightarrow> ('k, 'c, 'u) UringSystem \<Rightarrow> bool"
  for L ring_ok sqs flight E later where
  user: "Uring_step L ring_ok sqs flight E later s (s\<lparr>lp := (lp s)\<lparr>ctxs := m\<rparr>\<rparr>)"
| await_read: "ReadAwaiter_await_suspend L fd buf len c h (lp s) = Inr b \<Longrightarrow>
    Uring_step L ring_ok sqs flight E later s (s\<lparr>lp := b, accepted := accepted s @ ctx_started L c (lp s)\<rparr>)"
| await_write: "WriteAwaiter_await_suspend L fd buf len c h (lp s) = Inr b \<Longrightarrow>
    Uring_step L ring_ok sqs flight E later s (s\<lparr>lp := b, accepted := accepted s @ ctx_started L c (lp s)\<rparr>)"
| await_accept: "AcceptAwaiter_await_suspend L fd c h (lp s) = Inr b \<Longrightarrow>
    Uring_step L ring_ok sqs flight E later s (s\<lparr>lp := b, accepted := accepted s @ ctx_started L c (lp s)\<rparr>)"
| collect: "held s = [] \<Longrightarrow> active_cqes (lp s) = [] \<Longrightarrow> UringPoller_collect L timeoutMs (lp s) = b \<Longrightarrow>
    Uring_step L ring_ok sqs flight E later s (s\<lparr>lp := b, held := active_cqes b\<rparr>)"
| handle: "held s = p # ps \<Longrightarrow> tid E = threadId (lp s) \<Longrightarrow>
    UringPoller_handleCompletion L E later (\<lambda>h t. Inr t) p (lp s) = Inr b \<Longrightarrow>
    Uring_step L ring_ok sqs flight E later s (s\<lparr>lp := (if ps = [] then b\<lparr>active_cqes := []\<rparr> else b), held := ps,
      resumed := resumed s @ resumed_by L p (lp s)\<rparr>)"
| kernel: "ring_moves L sqs flight 0 (uring (lp s)) u \<Longrightarrow> ring_ok u \<Longrightarrow>
    Uring_step L ring_ok sqs flight E later s (s\<lparr>lp := (lp s)\<lparr>uring := u\<rparr>\<rparr>)"

text \<open>
  The same steps with what a history remembers: \<open>T\<close> lists the data of the completions that \<^verbatim>\<open>collect\<close> took, as
  they were then, and \<open>r\<close> says whether a slot that had been released and not yet been visited has been
  given new content.  The code permits that, since \<^verbatim>\<open>poll\<close> releases the slots before they are read.
\<close>

fun Uring_traced_step ::
  "'u liburing \<Rightarrow> ('u \<Rightarrow> bool) \<Rightarrow> ('u \<Rightarrow> sqe list) \<Rightarrow> ('u \<Rightarrow> nat option multiset) \<Rightarrow> 'k env \<Rightarrow> (nat \<Rightarrow> 'c) \<Rightarrow>
   ('k, 'c, 'u) UringSystem \<times> nat option list \<times> bool \<Rightarrow> ('k, 'c, 'u) UringSystem \<times> nat option list \<times> bool \<Rightarrow> bool" where
  "Uring_traced_step L ring_ok sqs flight E later (s, T, r) (t, T', r') \<longleftrightarrow> Uring_step L ring_ok sqs flight E later s t \<and>
     T' = T @ (if held s = [] then map (\<lambda>p. fst (cqe_at L (uring (lp t)) p)) (held t) else []) \<and>
     r' = (r \<or> held s \<noteq> [] \<and> (\<exists>p \<in> set (held t). cqe_at L (uring (lp t)) p \<noteq> cqe_at L (uring (lp s)) p))"

definition Uring_init :: "'u liburing \<Rightarrow> ('k, 'c, 'u) UringSystem \<Rightarrow> bool" where
  "Uring_init L s \<longleftrightarrow> (\<exists>s0. UringPoller_new L s0 = Inr (lp s)) \<and> held s = [] \<and> accepted s = [] \<and> resumed s = []"

definition Uring_start :: "'u liburing \<Rightarrow> ('k, 'c, 'u) UringSystem \<times> nat option list \<times> bool \<Rightarrow> bool" where
  "Uring_start L x \<longleftrightarrow> Uring_init L (fst x) \<and> snd x = ([], False)"

text \<open>What holds in every history: no operation is lost or doubled on its way to \<^verbatim>\<open>collect\<close>.\<close>

definition Uring_taken_inv ::
  "'u liburing \<Rightarrow> ('u \<Rightarrow> bool) \<Rightarrow> ('u \<Rightarrow> sqe list) \<Rightarrow> ('u \<Rightarrow> nat option multiset) \<Rightarrow> ('k, 'c, 'u) UringSystem \<Rightarrow>
   nat option list \<Rightarrow> bool" where
  "Uring_taken_inv L ring_ok sqs flight s T \<longleftrightarrow> ring_ok (uring (lp s)) \<and>
     pending_sqes (lp s) = int (length (sqs (uring (lp s)))) \<and>
     (\<forall>c. count_list (accepted s) c = count_list T (Some c) + count (outstanding L sqs flight (uring (lp s))) (Some c))"

text \<open>What holds while no released slot was overwritten before its visit.\<close>

definition Uring_inv ::
  "'u liburing \<Rightarrow> ('u \<Rightarrow> bool) \<Rightarrow> ('u \<Rightarrow> sqe list) \<Rightarrow> ('u \<Rightarrow> nat option multiset) \<Rightarrow> ('k, 'c, 'u) UringSystem \<Rightarrow> bool"
  where "Uring_inv L ring_ok sqs flight s \<longleftrightarrow> ring_ok (uring (lp s)) \<and>
     pending_sqes (lp s) = int (length (sqs (uring (lp s)))) \<and>
     mset (map Some (accepted s)) + (if wakeupPollArmed (lp s) then {#None#} else {#}) =
       outstanding L sqs flight (uring (lp s)) + ring_data L (uring (lp s)) (held s) + mset (map Some (resumed s))"

lemma submitPending_frame [simp]:
  "wakeupPollArmed (UringPoller_submitPendingSqes L s) = wakeupPollArmed s"
  "active_cqes (UringPoller_submitPendingSqes L s) = active_cqes s"
  "ctxs (UringPoller_submitPendingSqes L s) = ctxs s"
  by (simp_all add: UringPoller_submitPendingSqes_def split: prod.split)

lemma submitIfNeeded_frame [simp]:
  "wakeupPollArmed (UringPoller_submitIfNeeded L s) = wakeupPollArmed s"
  "active_cqes (UringPoller_submitIfNeeded L s) = active_cqes s"
  "ctxs (UringPoller_submitIfNeeded L s) = ctxs s"
  by (simp_all add: UringPoller_submitIfNeeded_def)

lemma getSqe_frame:
  assumes "UringPoller_getSqe L s = (got, t)"
  shows "wakeupPollArmed t = wakeupPollArmed s" and "active_cqes t = active_cqes s" and "ctxs t = ctxs s"
  using assms by (auto simp: UringPoller_getSqe_def Let_def split: option.splits)

context uring_ring
begin

definition good :: "('k, 'c, 'u, 'z) UringLoop_scheme \<Rightarrow> bool" where
  "good s \<longleftrightarrow> ring_ok (uring s) \<and> pending_sqes s = int (length (sqs (uring s)))"

abbreviation out :: "('k, 'c, 'u, 'z) UringLoop_scheme \<Rightarrow> nat option multiset" where
  "out s \<equiv> outstanding L sqs flight (uring s)"

lemma submitPending_good:
  assumes "good s"
  shows "good (UringPoller_submitPendingSqes L s)" and "out (UringPoller_submitPendingSqes L s) = out s"
proof -
  obtain r v where v: "io_uring_submit L (uring s) = (r, v)" by fastforce
  have "ring_ok v \<and> ring_moves L sqs flight (nat r) (uring s) v"
    using submit [OF _ v] assms by (simp add: good_def)
  then have m: "ring_ok v" "ring_moves L sqs flight (nat r) (uring s) v" by auto
  then have "sqs v = drop (nat r) (sqs (uring s))" "nat r \<le> length (sqs (uring s))"
    by (auto simp: ring_moves_def)
  with m assms v ring_moves_outstanding [OF m(2)]
  show "good (UringPoller_submitPendingSqes L s)" and "out (UringPoller_submitPendingSqes L s) = out s"
    by (auto simp: good_def UringPoller_submitPendingSqes_def)
qed

lemma submitIfNeeded_good:
  "good s \<Longrightarrow> good (UringPoller_submitIfNeeded L s)"
  "good s \<Longrightarrow> out (UringPoller_submitIfNeeded L s) = out s"
  by (simp_all add: UringPoller_submitIfNeeded_def submitPending_good)

lemma prepare_good:
  assumes "good s" and "io_uring_get_sqe L (uring s) = Some v"
  shows "good (UringPoller_prepare L op d (s\<lparr>uring := v\<rparr>))"
    and "out (UringPoller_prepare L op d (s\<lparr>uring := v\<rparr>)) = add_mset d (out s)"
  using assms prep [OF _ assms(2), of op d] by (auto simp: good_def UringPoller_prepare_def outstanding_def ring_data_def)

lemma getSqe_good:
  assumes "good s" and "UringPoller_getSqe L s = (got, t)"
  shows "got \<Longrightarrow> good (UringPoller_prepare L op d t)"
    and "got \<Longrightarrow> out (UringPoller_prepare L op d t) = add_mset d (out s)"
    and "\<not> got \<Longrightarrow> good t" and "\<not> got \<Longrightarrow> out t = out s"
proof -
  consider v where "got" "io_uring_get_sqe L (uring s) = Some v" "t = s\<lparr>uring := v\<rparr>"
    | v where "got" "io_uring_get_sqe L (uring (UringPoller_submitPendingSqes L s)) = Some v"
        "t = (UringPoller_submitPendingSqes L s)\<lparr>uring := v\<rparr>"
    | "\<not> got" "t = UringPoller_submitPendingSqes L s"
    using assms(2) by (auto simp: UringPoller_getSqe_def Let_def split: option.splits)
  note cs = this
  show "got \<Longrightarrow> good (UringPoller_prepare L op d t)"
    and "got \<Longrightarrow> out (UringPoller_prepare L op d t) = add_mset d (out s)"
    and "\<not> got \<Longrightarrow> good t" and "\<not> got \<Longrightarrow> out t = out s"
    using prepare_good [OF assms(1)] prepare_good [OF submitPending_good(1) [OF assms(1)]]
      submitPending_good [OF assms(1)] by (cases rule: cs; simp)+
qed

lemma registerWakeupPoll_good:
  assumes "good s" and "\<not> wakeupPollArmed s"
  shows "good (UringPoller_registerWakeupPoll L s)"
    and "out (UringPoller_registerWakeupPoll L s) =
           out s + (if wakeupPollArmed (UringPoller_registerWakeupPoll L s) then {#None#} else {#})"
proof -
  obtain got t where t: "UringPoller_getSqe L s = (got, t)" by fastforce
  let ?p = "(UringPoller_prepare L PrepPollWakeup None t)\<lparr>wakeupPollArmed := True\<rparr>"
  note g = getSqe_good(1,2) [OF assms(1) t, where op = PrepPollWakeup and d = None]
    getSqe_good(3,4) [OF assms(1) t]
  have "good ?p" "out ?p = add_mset None (out s)" if got using g(1,2) that by (simp_all add: good_def)
  with submitPending_good [of ?p] g(3,4) getSqe_frame [OF t] t assms(2)
  show "good (UringPoller_registerWakeupPoll L s)"
    and "out (UringPoller_registerWakeupPoll L s) =
           out s + (if wakeupPollArmed (UringPoller_registerWakeupPoll L s) then {#None#} else {#})"
    by (auto simp: UringPoller_registerWakeupPoll_def)
qed

end

lemma submitPending_ctxs:
  "UringPoller_submitPendingSqes L (s\<lparr>ctxs := m\<rparr>) = (UringPoller_submitPendingSqes L s)\<lparr>ctxs := m\<rparr>"
  by (simp add: UringPoller_submitPendingSqes_def split: prod.split)

lemma getSqe_ctxs:
  "UringPoller_getSqe L (s\<lparr>ctxs := m\<rparr>) =
     (fst (UringPoller_getSqe L s), (snd (UringPoller_getSqe L s))\<lparr>ctxs := m\<rparr>)"
  by (simp add: UringPoller_getSqe_def submitPending_ctxs Let_def split: option.split)

text \<open>The three awaiters are one operation up to the entry they prepare.\<close>

definition await_op :: "'u liburing \<Rightarrow> uring_op \<Rightarrow> nat \<Rightarrow> nat \<Rightarrow>
    ('k, 'c, 'u, 'z) UringLoop_scheme \<Rightarrow> ('k, 'c, 'u, 'z) UringLoop_scheme result" where
  "await_op L op c h s = bindR (set_ctx_handle c h s) (\<lambda>s1. Inr (UringPoller_submitIfNeeded L
     (case UringPoller_getSqe L s1 of (got, s2) \<Rightarrow>
        if \<not> got then s2 else UringPoller_prepare L op (Some c) s2)))"

lemma await_suspend_eq:
  "ReadAwaiter_await_suspend L fd buf len c h s = await_op L (PrepRead fd buf len 0) c h s"
  "WriteAwaiter_await_suspend L fd buf len c h s = await_op L (PrepWrite fd buf len 0) c h s"
  "AcceptAwaiter_await_suspend L fd c h s = await_op L (PrepAccept fd) c h s"
  by (auto simp: await_op_def ReadAwaiter_await_suspend_def WriteAwaiter_await_suspend_def AcceptAwaiter_await_suspend_def
      UringEventLoop_wait_read_def UringEventLoop_wait_write_def UringEventLoop_wait_accept_def
      UringPoller_submitRead_def UringPoller_submitWrite_def UringPoller_submitAccept_def bindR_def
      split: sum.splits prod.splits)

context uring_ring
begin

lemma await_good:
  assumes "good s" and "await_op L op c h s = Inr t"
  shows "good t" and "wakeupPollArmed t = wakeupPollArmed s"
    and "out t = out s + (if fst (UringPoller_getSqe L s) then {#Some c#} else {#})"
    and "\<exists>ctx. ctxs t c = Some ctx \<and> ctx_handle ctx = Some h"
proof -
  obtain ctx where ctx: "ctxs s c = Some ctx" using assms(2) by (auto simp: await_op_def set_ctx_handle_def bindR_eq_Inr)
  let ?a = "s\<lparr>ctxs := (ctxs s)(c \<mapsto> ctx\<lparr>ctx_handle := Some h\<rparr>)\<rparr>"
  obtain got b where b: "UringPoller_getSqe L ?a = (got, b)" by fastforce
  have got: "fst (UringPoller_getSqe L s) = got" using b by (simp add: getSqe_ctxs)
  let ?p = "if \<not> got then b else UringPoller_prepare L op (Some c) b"
  have t: "t = UringPoller_submitIfNeeded L ?p"
    using assms(2) ctx b by (simp add: await_op_def set_ctx_handle_def)
  have a: "good ?a" "out ?a = out s" using assms(1) by (simp_all add: good_def)
  note g = getSqe_good(1,2) [OF a(1) b, where op = op and d = "Some c"] getSqe_good(3,4) [OF a(1) b]
  have p: "good ?p" "out ?p = out s + (if got then {#Some c#} else {#})" using g a(2) by auto
  from submitIfNeeded_good [OF p(1)] p t got show "good t"
    and "out t = out s + (if fst (UringPoller_getSqe L s) then {#Some c#} else {#})" by simp_all
  show "wakeupPollArmed t = wakeupPollArmed s"
    using getSqe_frame(1) [OF b] by (simp add: t UringPoller_prepare_def)
  show "\<exists>ctx. ctxs t c = Some ctx \<and> ctx_handle ctx = Some h"
    using getSqe_frame(3) [OF b] by (simp add: t UringPoller_prepare_def)
qed

lemma collect_good:
  assumes "good s" and "active_cqes s = []" and "UringPoller_collect L timeoutMs s = t"
  shows "good t" and "out s = out t + ring_data L (uring t) (active_cqes t)"
    and "wakeupPollArmed t = wakeupPollArmed s"
proof -
  define s1 where "s1 = (if pending_sqes s \<noteq> 0 then case io_uring_submit L (uring s) of (ret, u) \<Rightarrow>
       if 0 < ret then s\<lparr>uring := u, pending_sqes := pending_sqes s - ret\<rparr> else s\<lparr>uring := u\<rparr> else s)"
  obtain r v where v: "io_uring_submit L (uring s) = (r, v)" by fastforce
  have m: "ring_ok v" "ring_moves L sqs flight (nat r) (uring s) v"
    using submit [OF _ v] assms(1) by (simp_all add: good_def)
  then have "sqs v = drop (nat r) (sqs (uring s))" "nat r \<le> length (sqs (uring s))" by (auto simp: ring_moves_def)
  with m assms(1) v ring_moves_outstanding [OF m(2)]
  have s1: "good s1" "out s1 = out s" "wakeupPollArmed s1 = wakeupPollArmed s" "active_cqes s1 = []"
    using assms(2) by (auto simp: good_def s1_def)
  obtain r2 w where w: "io_uring_wait_cqe L (if 0 \<le> timeoutMs then Some timeoutMs else None) (uring s1) = (r2, w)"
    by fastforce
  have "ring_ok w" "ring_moves L sqs flight 0 (uring s1) w" using wait [OF _ w] s1(1) by (simp_all add: good_def)
  then have w2: "good (s1\<lparr>uring := w\<rparr>)" "outstanding L sqs flight w = out s"
    using ring_moves_outstanding [of L sqs flight 0 "uring s1" w] s1(1,2) by (auto simp: good_def ring_moves_def)
  let ?ps = "cq_ready L w"
  let ?w = "if 0 < length ?ps then io_uring_cq_advance L (length ?ps) w else w"
  have t: "t = (if r2 < 0 \<and> r2 \<noteq> - ETIME then s1\<lparr>uring := w\<rparr> else s1\<lparr>uring := ?w, active_cqes := ?ps\<rparr>)"
    using assms(3) s1(4) unfolding UringPoller_collect_def Let_def s1_def [symmetric] w prod.case by auto
  have adv: "ring_ok ?w" "sqs ?w = sqs w" "flight ?w = flight w" "cq_ready L ?w = []" "cqe_at L ?w = cqe_at L w"
    using advance [of w "length ?ps"] w2(1) by (auto simp: good_def)
  show "good t" using w2(1) adv t by (auto simp: good_def)
  show "wakeupPollArmed t = wakeupPollArmed s" using s1(3) t by simp
  have "outstanding L sqs flight ?w + ring_data L ?w ?ps = out s"
    using adv w2(2) by (simp only: outstanding_def ring_data_simps) (simp add: ring_data_def)
  moreover have "outstanding L sqs flight w + ring_data L w [] = out s" using w2(2) by simp
  ultimately show "out s = out t + ring_data L (uring t) (active_cqes t)"
    using t s1(4) by simp
qed

end

lemma handleRead_uring [simp]:
  "uring (EventLoop_handleRead s) = uring s" "pending_sqes (EventLoop_handleRead s) = pending_sqes s"
  by (simp_all add: EventLoop_handleRead_def)

context uring_ring
begin

lemma handle_good:
  assumes "good s" and "tid E = threadId s"
    and "UringPoller_handleCompletion L E later (\<lambda>h t. Inr t) p s = Inr t"
  shows "good t"
    and "fst (cqe_at L (uring s) p) = None \<Longrightarrow> out t = out s + (if wakeupPollArmed t then {#None#} else {#})"
    and "fst (cqe_at L (uring s) p) \<noteq> None \<Longrightarrow> out t = out s \<and> wakeupPollArmed t = wakeupPollArmed s"
proof -
  obtain d r where d: "cqe_at L (uring s) p = (d, r)" by fastforce
  let ?r = "(EventLoop_handleRead s)\<lparr>wakeupPollArmed := False\<rparr>"
  have r: "good ?r" "\<not> wakeupPollArmed ?r" "out ?r = out s" using assms(1) by (simp_all add: good_def)
  show "good t"
    and "fst (cqe_at L (uring s) p) = None \<Longrightarrow> out t = out s + (if wakeupPollArmed t then {#None#} else {#})"
    and "fst (cqe_at L (uring s) p) \<noteq> None \<Longrightarrow> out t = out s \<and> wakeupPollArmed t = wakeupPollArmed s"
    using assms registerWakeupPoll_good [OF r(1,2)] r(3) d
    by (auto simp: UringPoller_handleCompletion_def good_def resume_ctx_def EventLoop_isInLoopThread_def
        bindR_eq_Inr Let_def split: option.splits)
qed

lemma Uring_inv_good: "Uring_inv L ring_ok sqs flight s \<Longrightarrow> good (lp s)"
  by (simp add: Uring_inv_def good_def)

lemma Uring_inv_await:
  assumes inv: "Uring_inv L ring_ok sqs flight s" and a: "await_op L op c h (lp s) = Inr b"
    and st: "\<forall>p \<in> set (held s). cqe_at L (uring b) p = cqe_at L (uring (lp s)) p"
  shows "Uring_inv L ring_ok sqs flight (s\<lparr>lp := b, accepted := accepted s @ ctx_started L c (lp s)\<rparr>)"
  using await_good [OF Uring_inv_good [OF inv] a] inv ring_data_cong [OF st]
  by (auto simp: Uring_inv_def good_def ctx_started_def)

lemma Uring_inv_handle:
  assumes inv: "Uring_inv L ring_ok sqs flight s" and h: "held s = p # ps" and t: "tid E = threadId (lp s)"
    and b: "UringPoller_handleCompletion L E later (\<lambda>h t. Inr t) p (lp s) = Inr b"
    and st: "\<forall>p \<in> set ps. cqe_at L (uring b) p = cqe_at L (uring (lp s)) p"
  shows "Uring_inv L ring_ok sqs flight (s\<lparr>lp := b, held := ps, resumed := resumed s @ resumed_by L p (lp s)\<rparr>)"
proof -
  note g = handle_good [OF Uring_inv_good [OF inv] t b]
  from inv have eq: "mset (map Some (accepted s)) + (if wakeupPollArmed (lp s) then {#None#} else {#}) =
      out (lp s) + add_mset (fst (cqe_at L (uring (lp s)) p)) (ring_data L (uring (lp s)) ps) + mset (map Some (resumed s))"
    by (simp add: Uring_inv_def h)
  show ?thesis
  proof (cases "fst (cqe_at L (uring (lp s)) p)")
    case None
    have "None \<in># mset (map Some (accepted s)) + (if wakeupPollArmed (lp s) then {#None#} else {#})"
      unfolding eq None by simp
    then have "wakeupPollArmed (lp s)" by (auto split: if_splits)
    with eq None have "mset (map Some (accepted s)) =
        out (lp s) + ring_data L (uring (lp s)) ps + mset (map Some (resumed s))" by simp
    with g(1) g(2) [OF None] ring_data_cong [OF st] None show ?thesis
      by (simp add: Uring_inv_def good_def resumed_by_def)
  next
    case (Some c)
    with g(1,3) eq ring_data_cong [OF st] show ?thesis by (simp add: Uring_inv_def good_def resumed_by_def)
  qed
qed

lemma Uring_inv_stable_step:
  assumes "Uring_step L ring_ok sqs flight E later s t"
    and "held s \<noteq> [] \<longrightarrow> (\<forall>p \<in> set (held t). cqe_at L (uring (lp t)) p = cqe_at L (uring (lp s)) p)"
    and "Uring_inv L ring_ok sqs flight s"
  shows "Uring_inv L ring_ok sqs flight t"
  using assms
proof (induction rule: Uring_step.induct)
  case (user s m)
  then show ?case by (simp add: Uring_inv_def)
next
  case (await_read fd buf len c h s b)
  then show ?case unfolding await_suspend_eq by (intro Uring_inv_await) auto
next
  case (await_write fd buf len c h s b)
  then show ?case unfolding await_suspend_eq by (intro Uring_inv_await) auto
next
  case (await_accept fd c h s b)
  then show ?case unfolding await_suspend_eq by (intro Uring_inv_await) auto
next
  case (collect s timeoutMs b)
  from collect_good [OF Uring_inv_good [OF collect.prems(2)] collect.hyps(2,3)] collect.prems(2) collect.hyps(1)
  show ?case by (simp add: Uring_inv_def good_def ac_simps)
next
  case (handle s p ps b)
  have st: "\<forall>p \<in> set ps. cqe_at L (uring b) p = cqe_at L (uring (lp s)) p"
    using handle.prems(1) handle.hyps(1) by (auto split: if_splits)
  from Uring_inv_handle [OF handle.prems(2) handle.hyps st] show ?case by (simp add: Uring_inv_def)
next
  case (kernel s u)
  then have "\<forall>p \<in> set (held s). cqe_at L u p = cqe_at L (uring (lp s)) p" by auto
  with kernel ring_data_cong ring_moves_outstanding [OF kernel.hyps(1)] show ?case
    by (fastforce simp: Uring_inv_def ring_moves_def)
qed

lemma Uring_inv_init:
  assumes "Uring_init L s"
  shows "Uring_inv L ring_ok sqs flight s"
proof -
  from assms obtain s0 where n: "UringPoller_new L s0 = Inr (lp s)" and z: "held s = []" "accepted s = []" "resumed s = []"
    by (auto simp: Uring_init_def)
  obtain r u where u: "io_uring_queue_init L 1024 = (r, u)" by fastforce
  let ?a = "s0\<lparr>initialized := False, wakeupPollArmed := False, pending_sqes := 0, active_cqes := []\<rparr>
     \<lparr>uring := u, initialized := True\<rparr>"
  have r: "0 \<le> r" "lp s = UringPoller_registerWakeupPoll L ?a"
    using n u by (auto simp: UringPoller_new_def UringPoller_initUring_def split: if_splits)
  have "good ?a" "out ?a = {#}" "\<not> wakeupPollArmed ?a"
    using queue_init [OF u r(1)] by (simp_all add: good_def outstanding_def)
  from registerWakeupPoll_good [OF this(1,3)] this(2) r(2) z show ?thesis
    by (simp add: Uring_inv_def good_def)
qed

end

context uring_ring
begin

lemma count_ring_data: "count (ring_data L u ps) d = count_list (map (\<lambda>p. fst (cqe_at L u p)) ps) d"
  by (induction ps) (auto simp: ring_data_def)

lemma Uring_taken_good: "Uring_taken_inv L ring_ok sqs flight s T \<Longrightarrow> good (lp s)"
  by (simp add: Uring_taken_inv_def good_def)

lemma Uring_taken_await:
  assumes inv: "Uring_taken_inv L ring_ok sqs flight s T" and a: "await_op L op c h (lp s) = Inr b"
  shows "Uring_taken_inv L ring_ok sqs flight (s\<lparr>lp := b, accepted := accepted s @ ctx_started L c (lp s)\<rparr>) T"
  using await_good [OF Uring_taken_good [OF inv] a] inv
  by (auto simp: Uring_taken_inv_def good_def ctx_started_def)

lemma Uring_taken_step:
  assumes "Uring_step L ring_ok sqs flight E later s t" and "Uring_taken_inv L ring_ok sqs flight s T"
  shows "Uring_taken_inv L ring_ok sqs flight t
    (T @ (if held s = [] then map (\<lambda>p. fst (cqe_at L (uring (lp t)) p)) (held t) else []))"
  using assms
proof (induction rule: Uring_step.induct)
  case (user s m)
  then show ?case by (simp add: Uring_taken_inv_def)
next
  case (await_read fd buf len c h s b)
  then show ?case using Uring_taken_await unfolding await_suspend_eq by simp
next
  case (await_write fd buf len c h s b)
  then show ?case using Uring_taken_await unfolding await_suspend_eq by simp
next
  case (await_accept fd c h s b)
  then show ?case using Uring_taken_await unfolding await_suspend_eq by simp
next
  case (collect s timeoutMs b)
  from collect_good [OF Uring_taken_good [OF collect.prems] collect.hyps(2,3)] collect.prems collect.hyps(1)
  show ?case by (simp add: Uring_taken_inv_def good_def count_ring_data)
next
  case (handle s p ps b)
  note g = handle_good [OF Uring_taken_good [OF handle.prems] handle.hyps(2,3)]
  have "count (out b) (Some c) = count (out (lp s)) (Some c)" for c
    using g(2,3) by (cases "fst (cqe_at L (uring (lp s)) p)") auto
  with g(1) handle.prems handle.hyps(1) show ?case by (simp add: Uring_taken_inv_def good_def)
next
  case (kernel s u)
  with ring_moves_outstanding [OF kernel.hyps(1)] show ?case
    by (auto simp: Uring_taken_inv_def ring_moves_def)
qed

lemma Uring_taken_init:
  assumes "Uring_init L s"
  shows "Uring_taken_inv L ring_ok sqs flight s []"
proof -
  from Uring_inv_init [OF assms] assms have "ring_ok (uring (lp s))" "pending_sqes (lp s) = int (length (sqs (uring (lp s))))"
    "(if wakeupPollArmed (lp s) then {#None#} else {#}) = out (lp s)" "accepted s = []"
    by (simp_all add: Uring_inv_def Uring_init_def ring_data_def)
  note f = this
  have "count (out (lp s)) (Some c) = 0" for c unfolding f(3) [symmetric] by simp
  with f show ?thesis by (simp add: Uring_taken_inv_def)
qed

end

sublocale uring_ring \<subseteq> uring_steps: inductive_invariant "Uring_start L"
  "Uring_traced_step L ring_ok sqs flight E later"
  "\<lambda>(s, T, r). Uring_taken_inv L ring_ok sqs flight s T \<and> (\<not> r \<longrightarrow> Uring_inv L ring_ok sqs flight s)" for E later
proof (unfold_locales, goal_cases)
  case (1 x)
  then show ?case by (cases x) (auto simp: Uring_start_def intro: Uring_inv_init Uring_taken_init)
next
  case (2 x y)
  obtain s T r where x: "x = (s, T, r)" by (cases x)
  obtain t T' r' where y: "y = (t, T', r')" by (cases y)
  from 2 x y have st: "Uring_step L ring_ok sqs flight E later s t" by simp
  from 2 x y Uring_taken_step [OF st] Uring_inv_stable_step [OF st] show ?case by auto
qed

context uring_ring
begin

lemma reach_Uring_inv:
  assumes "reach (Uring_start L) (Uring_traced_step L ring_ok sqs flight E later) (s, T, r)"
  shows "Uring_taken_inv L ring_ok sqs flight s T" and "\<not> r \<Longrightarrow> Uring_inv L ring_ok sqs flight s"
  using uring_steps.reach_inv [OF assms] by simp_all

end

section \<open>A reference ring\<close>

text \<open>
  A ring with \<open>m\<close> completion slots.  Completions that find the queue full stay with the kernel; which
  accepted operation completes next is the index given to \<open>ring_complete\<close>.
\<close>

record ring =
  r_entries :: nat
  r_sq :: "sqe list"
  r_flight :: "nat option list"
  r_slots :: "cqe list"
  r_head :: nat
  r_tail :: nat

definition ring_ready :: "nat \<Rightarrow> ring \<Rightarrow> nat list" where
  "ring_ready m u = map (\<lambda>i. i mod m) [r_head u..<r_tail u]"

definition ring_complete :: "nat \<Rightarrow> nat \<Rightarrow> int \<Rightarrow> ring \<Rightarrow> ring" where
  "ring_complete m i res u =
     (if i < length (r_flight u) \<and> r_tail u < r_head u + m
      then u\<lparr>r_flight := take i (r_flight u) @ drop (Suc i) (r_flight u),
             r_slots := (r_slots u)[r_tail u mod m := (r_flight u ! i, res)], r_tail := Suc (r_tail u)\<rparr>
      else u)"

definition ring_lib :: "nat \<Rightarrow> ring liburing" where
  "ring_lib m = \<lparr>io_uring_queue_init = (\<lambda>n. (0, \<lparr>r_entries = n, r_sq = [], r_flight = [],
        r_slots = replicate m (None, 0), r_head = 0, r_tail = 0\<rparr>)),
     io_uring_get_sqe = (\<lambda>u. if length (r_sq u) < r_entries u then Some u else None),
     io_uring_prep = (\<lambda>op d u. u\<lparr>r_sq := r_sq u @ [(op, d)]\<rparr>),
     io_uring_submit = (\<lambda>u. (int (length (r_sq u)), u\<lparr>r_sq := [], r_flight := r_flight u @ map snd (r_sq u)\<rparr>)),
     io_uring_wait_cqe = (\<lambda>timeout u. (if r_head u < r_tail u then 0 else - ETIME, u)),
     cq_ready = ring_ready m,
     cqe_at = (\<lambda>u p. r_slots u ! p),
     io_uring_cq_advance = (\<lambda>n u. u\<lparr>r_head := r_head u + n\<rparr>)\<rparr>"

definition ring_wf :: "nat \<Rightarrow> ring \<Rightarrow> bool" where
  "ring_wf m u \<longleftrightarrow> length (r_slots u) = m \<and> r_head u \<le> r_tail u \<and> r_tail u \<le> r_head u + m"

definition ring_flight :: "ring \<Rightarrow> nat option multiset" where
  "ring_flight u = mset (r_flight u)"

lemma mod_slot_fresh:
  fixes h i t m :: nat
  assumes "h \<le> i" and "i < t" and "t < h + m"
  shows "i mod m \<noteq> t mod m"
proof
  assume "i mod m = t mod m"
  then have "m dvd t - i" using assms by (metis mod_eq_dvd_iff_nat less_imp_le)
  moreover have "0 < t - i" "t - i < m" using assms by auto
  ultimately show False by (auto dest: nat_dvd_not_less)
qed

lemma ring_complete_moves:
  assumes "ring_wf m u"
  shows "ring_wf m (ring_complete m i res u)"
    and "ring_moves (ring_lib m) r_sq ring_flight 0 u (ring_complete m i res u)"
proof -
  show "ring_wf m (ring_complete m i res u)" using assms by (auto simp: ring_wf_def ring_complete_def)
  show "ring_moves (ring_lib m) r_sq ring_flight 0 u (ring_complete m i res u)"
  proof (cases "i < length (r_flight u) \<and> r_tail u < r_head u + m")
    case True
    let ?v = "ring_complete m i res u"
    have m: "0 < m" using True assms by (cases m) (auto simp: ring_wf_def)
    have "mset (r_flight u) = add_mset (r_flight u ! i) (mset (take i (r_flight u) @ drop (Suc i) (r_flight u)))"
      using True by (subst id_take_nth_drop [of i "r_flight u"]) auto
    then have f: "ring_flight u = ring_flight ?v + ring_data (ring_lib m) ?v [r_tail u mod m]"
      using True assms m by (simp add: ring_flight_def ring_complete_def ring_lib_def ring_wf_def)
    have fresh: "r_tail u mod m \<notin> set (ring_ready m u)"
      using True mod_slot_fresh by (fastforce simp: ring_ready_def)
    have k: "\<forall>p \<in> set (ring_ready m u). r_slots ?v ! p = r_slots u ! p"
    proof
      fix p assume "p \<in> set (ring_ready m u)"
      with fresh have "p \<noteq> r_tail u mod m" by auto
      with True show "r_slots ?v ! p = r_slots u ! p" by (simp add: ring_complete_def)
    qed
    have "ring_ready m ?v = ring_ready m u @ [r_tail u mod m]" and "r_sq ?v = r_sq u"
      using True assms by (simp_all add: ring_ready_def ring_complete_def ring_wf_def)
    with f k show ?thesis by (simp add: ring_moves_def) (simp add: ring_lib_def)
  next
    case False
    then have "ring_complete m i res u = u" by (simp only: ring_complete_def if_False)
    then show ?thesis by simp
  qed
qed

interpretation reference_ring: uring_ring "ring_lib m" "ring_wf m" r_sq ring_flight for m
proof unfold_locales
  fix u v :: ring and op d
  assume "ring_wf m u" and "io_uring_get_sqe (ring_lib m) u = Some v"
  then show "ring_wf m (io_uring_prep (ring_lib m) op d v) \<and> r_sq (io_uring_prep (ring_lib m) op d v) = r_sq u @ [(op, d)] \<and>
      ring_flight (io_uring_prep (ring_lib m) op d v) = ring_flight u \<and>
      cq_ready (ring_lib m) (io_uring_prep (ring_lib m) op d v) = cq_ready (ring_lib m) u \<and>
      cqe_at (ring_lib m) (io_uring_prep (ring_lib m) op d v) = cqe_at (ring_lib m) u"
    by (auto simp: ring_lib_def ring_wf_def ring_flight_def ring_ready_def split: if_splits)
next
  fix u v :: ring and n :: nat
  assume "ring_wf m u" and "n \<le> length (cq_ready (ring_lib m) u)"
  then show "ring_wf m (io_uring_cq_advance (ring_lib m) n u) \<and> r_sq (io_uring_cq_advance (ring_lib m) n u) = r_sq u \<and>
      ring_flight (io_uring_cq_advance (ring_lib m) n u) = ring_flight u \<and>
      cq_ready (ring_lib m) (io_uring_cq_advance (ring_lib m) n u) = drop n (cq_ready (ring_lib m) u) \<and>
      cqe_at (ring_lib m) (io_uring_cq_advance (ring_lib m) n u) = cqe_at (ring_lib m) u"
    by (auto simp: ring_lib_def ring_wf_def ring_flight_def ring_ready_def drop_map)
qed (auto simp: ring_lib_def ring_wf_def ring_flight_def ring_ready_def ring_moves_def)

section \<open>Properties\<close>

lemma count_map_Some: "count (mset (map Some xs)) (Some c) = count_list xs c"
  by (induction xs) auto

lemma count_map_Some_None: "count (mset (map Some xs)) None = 0"
  by (induction xs) auto


text \<open>One read on the reference ring with eight slots: prepared, submitted by the next poll, completed, resumed.\<close>

lemmas uring_eval = UringLoop_extend_def UringPoller_new_def UringPoller_initUring_def
  UringPoller_registerWakeupPoll_def UringPoller_getSqe_def UringPoller_prepare_def
  UringPoller_submitPendingSqes_def UringPoller_submitIfNeeded_def UringPoller_collect_def min_submit_sqes_def
  ring_lib_def ring_ready_def ring_complete_def ring_wf_def Channel.EventLoop.defs EventLoop_members_def Let_def ETIME_def


abbreviation sample_state :: "ring \<Rightarrow> bool \<Rightarrow> int \<Rightarrow> nat list \<Rightarrow> (nat \<rightharpoonup> UringContext) \<Rightarrow> (unit, nat, ring) UringLoop" where
  "sample_state u a n ps m \<equiv> Channel.EventLoop.extend (EventLoop_members 1 ())
     \<lparr>uring = u, initialized = True, wakeupPollArmed = a, pending_sqes = n, active_cqes = ps, ctxs = m\<rparr>"

abbreviation sample_ring :: "sqe list \<Rightarrow> nat option list \<Rightarrow> cqe list \<Rightarrow> nat \<Rightarrow> nat \<Rightarrow> ring" where
  "sample_ring q f c h t \<equiv> \<lparr>r_entries = 1024, r_sq = q, r_flight = f,
     r_slots = c, r_head = h, r_tail = t\<rparr>"

abbreviation empty_slots :: "cqe list" where
  "empty_slots \<equiv> [(None, 0), (None, 0)]"

lemma sample_new: "UringPoller_new (ring_lib 2) (UringLoop_extend u (EventLoop_members 1 ())) = Inr (sample_state (sample_ring [] [None] empty_slots 0 0) True 0 [] Map.empty)"
  by (simp add: uring_eval eval_nat_numeral)

lemma sample_read:
  "ReadAwaiter_await_suspend (ring_lib 2) 7 64 10 4 3 (sample_state (sample_ring [] [None] empty_slots 0 0) True 0 [] [4 \<mapsto> UringContext_new 0]) =
   Inr (sample_state (sample_ring [(PrepRead 7 64 10 0, Some 4)] [None] empty_slots 0 0) True 1 []
     [4 \<mapsto> \<lparr>ctx_handle = Some 3, ctx_loop = 0, ctx_res = -1\<rparr>])"
  by (simp add: uring_eval ReadAwaiter_await_suspend_def set_ctx_handle_def UringEventLoop_wait_read_def
      UringPoller_submitRead_def UringContext_new_def)

lemma sample_collect1:
  "UringPoller_collect (ring_lib 2) 1000 (sample_state (sample_ring [(PrepRead 7 64 10 0, Some 4)] [None] empty_slots 0 0) True 1 [] m) =
   sample_state (sample_ring [] [None, Some 4] empty_slots 0 0) True 0 [] m"
  by (simp add: uring_eval)

lemma sample_collect2:
  "UringPoller_collect (ring_lib 2) 1000 (sample_state (sample_ring [] [None] [(Some 4, 10), (None, 0)] 0 1) True 0 [] m) =
   sample_state (sample_ring [] [None] [(Some 4, 10), (None, 0)] 1 1) True 0 [0] m"
  by (simp add: uring_eval)

lemma sample_handle:
  "UringPoller_handleCompletion (ring_lib 2) \<lparr>ndebug = False, tid = 1, epoll_ctl = f\<rparr> later (\<lambda>h t. Inr t) 0
     (sample_state (sample_ring [] [None] [(Some 4, 10), (None, 0)] 1 1) True 0 [0] [4 \<mapsto> \<lparr>ctx_handle = Some 3, ctx_loop = 0, ctx_res = -1\<rparr>]) =
   Inr (sample_state (sample_ring [] [None] [(Some 4, 10), (None, 0)] 1 1) True 0 [0] [4 \<mapsto> \<lparr>ctx_handle = Some 3, ctx_loop = 0, ctx_res = 10\<rparr>])"
  by (simp add: uring_eval UringPoller_handleCompletion_def EventLoop_isInLoopThread_def resume_ctx_def)


definition sample_env :: "unit env" where
  "sample_env = \<lparr>ndebug = False, tid = 1, epoll_ctl = (\<lambda>k op fd e. (k, True))\<rparr>"

abbreviation sample_step :: "(unit, nat, ring) UringSystem \<times> nat option list \<times> bool \<Rightarrow>
    (unit, nat, ring) UringSystem \<times> nat option list \<times> bool \<Rightarrow> bool" where
  "sample_step \<equiv> Uring_traced_step (ring_lib 2) (ring_wf 2) r_sq ring_flight sample_env (\<lambda>c. c)"

lemma stable_stepI:
  "Uring_step L ring_ok sqs flight E later s t' \<Longrightarrow> t' = t \<Longrightarrow>
   held s \<noteq> [] \<longrightarrow> (\<forall>p \<in> set (held t). cqe_at L (uring (lp t)) p = cqe_at L (uring (lp s)) p) \<Longrightarrow>
   T' = T @ (if held s = [] then map (\<lambda>p. fst (cqe_at L (uring (lp t)) p)) (held t) else []) \<Longrightarrow>
   Uring_traced_step L ring_ok sqs flight E later (s, T, False) (t, T', False)"
  by auto

lemma sample_run:
  "reach (Uring_start (ring_lib 2)) sample_step
     (\<lparr>lp = sample_state (sample_ring [] [None] [(Some 4, 10), (None, 0)] 1 1) True 0 []
        [4 \<mapsto> \<lparr>ctx_handle = Some 3, ctx_loop = 0, ctx_res = 10\<rparr>], held = [], accepted = [4], resumed = [4]\<rparr>,
      [Some 4], False)"
proof -
  let ?R = "reach (Uring_start (ring_lib 2)) sample_step"
  let ?c = "[4 \<mapsto> \<lparr>ctx_handle = Some 3, ctx_loop = 0, ctx_res = -1\<rparr>] :: nat \<rightharpoonup> UringContext"
  have "?R (\<lparr>lp = sample_state (sample_ring [] [None] empty_slots 0 0) True 0 [] Map.empty, held = [], accepted = [], resumed = []\<rparr>, [], False)"
    by (rule reach_init) (use sample_new in \<open>auto simp: Uring_start_def Uring_init_def\<close>)
  then have "?R (\<lparr>lp = sample_state (sample_ring [] [None] empty_slots 0 0) True 0 [] [4 \<mapsto> UringContext_new 0],
      held = [], accepted = [], resumed = []\<rparr>, [], False)"
    by (rule reach_step) (rule stable_stepI [OF Uring_step.user [where m = "[4 \<mapsto> UringContext_new 0]"]],
      simp_all add: Channel.EventLoop.defs)
  then have "?R (\<lparr>lp = sample_state (sample_ring [(PrepRead 7 64 10 0, Some 4)] [None] empty_slots 0 0) True 1 [] ?c,
      held = [], accepted = [4], resumed = []\<rparr>, [], False)"
    by (rule reach_step) (rule stable_stepI [OF Uring_step.await_read [where fd = 7 and buf = 64 and
        len = 10 and c = 4 and h = 3 and b = "sample_state (sample_ring [(PrepRead 7 64 10 0, Some 4)] [None] empty_slots 0 0) True 1 [] ?c"]],
      simp add: sample_read, simp_all add: ctx_started_def uring_eval)
  then have "?R (\<lparr>lp = sample_state (sample_ring [] [None, Some 4] empty_slots 0 0) True 0 [] ?c,
      held = [], accepted = [4], resumed = []\<rparr>, [], False)"
    by (rule reach_step) (rule stable_stepI [OF Uring_step.collect [where timeoutMs = 1000, OF _ _ refl]],
      simp_all add: sample_collect1 del: One_nat_def, simp_all add: Channel.EventLoop.defs)
  then have "?R (\<lparr>lp = sample_state (ring_complete 2 1 10 (sample_ring [] [None, Some 4] empty_slots 0 0)) True 0 [] ?c,
      held = [], accepted = [4], resumed = []\<rparr>, [], False)"
    by (rule reach_step) (rule stable_stepI [OF Uring_step.kernel
        [where u = "ring_complete 2 1 10 (sample_ring [] [None, Some 4] empty_slots 0 0)"]],
      simp add: ring_wf_def Channel.EventLoop.defs ring_complete_moves, simp add: ring_wf_def ring_complete_def,
      simp_all add: Channel.EventLoop.defs)
  then have "?R (\<lparr>lp = sample_state (sample_ring [] [None] [(Some 4, 10), (None, 0)] 0 1) True 0 [] ?c,
      held = [], accepted = [4], resumed = []\<rparr>, [], False)"
    by (simp add: ring_complete_def)
  then have "?R (\<lparr>lp = sample_state (sample_ring [] [None] [(Some 4, 10), (None, 0)] 1 1) True 0 [0] ?c,
      held = [0], accepted = [4], resumed = []\<rparr>, [Some 4], False)"
    by (rule reach_step) (rule stable_stepI [OF Uring_step.collect [where timeoutMs = 1000, OF _ _ refl]],
      simp_all add: sample_collect2 del: One_nat_def, simp_all add: Channel.EventLoop.defs, simp add: ring_lib_def)
  then show ?thesis
    by (rule reach_step) (rule stable_stepI [OF Uring_step.handle [where p = 0 and ps = "[]" and
        b = "sample_state (sample_ring [] [None] [(Some 4, 10), (None, 0)] 1 1) True 0 [0]
               [4 \<mapsto> \<lparr>ctx_handle = Some 3, ctx_loop = 0, ctx_res = 10\<rparr>]"]],
      simp, simp add: sample_env_def Channel.EventLoop.defs EventLoop_members_def,
      simp add: sample_env_def sample_handle del: One_nat_def, simp_all add: resumed_by_def uring_eval)
qed



text \<open>
  \<^verbatim>\<open>poll\<close> releases the completion slots before \<^verbatim>\<open>handleCompletions\<close> reads them.  On a ring whose
  completion queue is full while the kernel holds one more finished operation, the kernel may use the
  first released slot at once: the visit of that slot then resumes the context of the late operation,
  the next poll finds it again and resumes it a second time, and the context whose completion was
  collected is not resumed at all.
\<close>

theorem UringPoller_released_slot_overwritten:
  fixes s :: "('k, 'c, ring) UringLoop"
  assumes "0 < m" and "ring_wf m (uring s)" and "r_tail (uring s) = r_head (uring s) + m"
    and "r_flight (uring s) = [Some b]" and "r_sq (uring s) = []" and "pending_sqes s = 0" and "active_cqes s = []"
    and "p = r_head (uring s) mod m" and "r_slots (uring s) ! p = (Some a, r)"
    and "t = UringPoller_collect (ring_lib m) ms s"
    and "v = t\<lparr>uring := ring_complete m 0 res (uring t)\<rparr>"
    and "w = UringPoller_collect (ring_lib m) ms (v\<lparr>active_cqes := []\<rparr>)"
  shows "hd (active_cqes t) = p \<and> resumed_by (ring_lib m) p t = [a] \<and>
    ring_moves (ring_lib m) r_sq ring_flight 0 (uring t) (uring v) \<and>
    resumed_by (ring_lib m) p v = [b] \<and> active_cqes w = [p] \<and> resumed_by (ring_lib m) p w = [b]"
proof -
  have sl: "length (r_slots (uring s)) = m" "p < m" using assms by (simp_all add: ring_wf_def)
  have up: "[r_head (uring s)..<r_head (uring s) + m] = r_head (uring s) # [Suc (r_head (uring s))..<r_head (uring s) + m]"
    using assms(1) by (simp add: upt_conv_Cons)
  have t: "t = s\<lparr>uring := (uring s)\<lparr>r_head := r_tail (uring s)\<rparr>,
      active_cqes := p # map (\<lambda>i. i mod m) [Suc (r_head (uring s))..<r_tail (uring s)]\<rparr>"
    using assms(1,3,6,7,8,10) up
    by (cases "uring s") (simp add: UringPoller_collect_def ring_lib_def ring_ready_def ETIME_def Let_def)
  have wf: "ring_wf m (uring t)" using assms(2) by (simp add: t ring_wf_def)
  have tl: "r_tail (uring s) mod m = p" using assms(3,8) by simp
  have v: "v = t\<lparr>uring := (uring t)\<lparr>r_flight := [], r_slots := (r_slots (uring s))[p := (Some b, res)],
      r_tail := Suc (r_tail (uring s))\<rparr>\<rparr>"
    using assms(1,4,11) tl by (simp add: t ring_complete_def)
  have w: "active_cqes w = [p]" "r_slots (uring w) = (r_slots (uring s))[p := (Some b, res)]"
    using assms(6,12) tl by (simp_all add: v t UringPoller_collect_def ring_lib_def ring_ready_def ETIME_def Let_def)
  have "ring_moves (ring_lib m) r_sq ring_flight 0 (uring t) (uring v)"
    using ring_complete_moves(2) [OF wf, of 0 res] by (simp add: assms(11))
  with sl assms(9) w show ?thesis
    by (simp add: resumed_by_def ring_lib_def v) (simp add: t)
qed

text \<open>Two slots, both filled: contexts 5 and 6 completed, 7 still with the kernel.\<close>

theorem UringPoller_released_slot_overwritten_witness:
  "\<exists>(v :: (unit, nat, ring) UringLoop) (w :: (unit, nat, ring) UringLoop). resumed_by (ring_lib 2) 0 v = [7] \<and> active_cqes w = [0] \<and> resumed_by (ring_lib 2) 0 w = [7]"
proof -
  let ?s = "sample_state (sample_ring [] [Some 7] [(Some 5, 1), (Some 6, 1)] 0 2) True 0 [] Map.empty"
  obtain t v w :: "(unit, nat, ring) UringLoop" where d: "t = UringPoller_collect (ring_lib 2) 1000 ?s"
    "v = t\<lparr>uring := ring_complete 2 0 1 (uring t)\<rparr>" "w = UringPoller_collect (ring_lib 2) 1000 (v\<lparr>active_cqes := []\<rparr>)"
    by simp
  have "resumed_by (ring_lib 2) 0 v = [7] \<and> active_cqes w = [0] \<and> resumed_by (ring_lib 2) 0 w = [7]"
    using UringPoller_released_slot_overwritten [of 2 ?s 7 0 5 1, OF _ _ _ _ _ _ _ _ _ d]
    by (simp add: ring_wf_def Channel.EventLoop.defs)
  then show ?thesis by blast
qed

text \<open>The kernel refuses submissions while its completion queue overflows.\<close>

definition busy_lib :: "nat \<Rightarrow> ring liburing" where
  "busy_lib m = (ring_lib m)\<lparr>io_uring_submit := (\<lambda>u. (-16, u))\<rparr>"

lemma busy_wait [simp]: "io_uring_wait_cqe (busy_lib m) = io_uring_wait_cqe (ring_lib m)"
  by (simp add: busy_lib_def)

lemma busy_moves [simp]: "ring_moves (busy_lib m) = ring_moves (ring_lib m)"
  by (intro ext) (simp add: ring_moves_def busy_lib_def ring_data_def)

interpretation busy_ring: uring_ring "busy_lib m" "ring_wf m" r_sq ring_flight for m
proof unfold_locales
  fix u v :: ring and ret
  assume "ring_wf m u" and "io_uring_submit (busy_lib m) u = (ret, v)"
  then show "ring_wf m v \<and> ring_moves (busy_lib m) r_sq ring_flight (nat ret) u v" by (auto simp: busy_lib_def)
next
  fix u v :: ring and timeout ret
  assume "ring_wf m u" and "io_uring_wait_cqe (busy_lib m) timeout u = (ret, v)"
  then show "ring_wf m v \<and> ring_moves (busy_lib m) r_sq ring_flight 0 u v"
    using reference_ring.wait [of m u timeout ret v] by simp
qed (use reference_ring.queue_init reference_ring.prep reference_ring.advance in \<open>simp_all add: busy_lib_def\<close>)

text \<open>
  when the submission queue is full and submitting frees no entry, \<^verbatim>\<open>submitRead\<close> returns false and
  \<^verbatim>\<open>wait_read\<close> ignores it: the coroutine is suspended with its handle stored, but nothing on its way
  through the ring carries its context, so that no completion can ever resume it.
\<close>

theorem UringPoller_full_queue_strands_read:
  assumes "uring_ring L ring_ok sqs flight" and "ring_ok (uring s)"
    and "pending_sqes s = int (length (sqs (uring s)))" and "ctxs s c = Some ctx"
    and "io_uring_get_sqe L (uring s) = None"
    and "io_uring_get_sqe L (uring (UringPoller_submitPendingSqes L s)) = None"
    and "Some c \<notin># outstanding L sqs flight (uring s)"
  shows "\<exists>t. ReadAwaiter_await_suspend L fd buf len c h s = Inr t \<and>
    (\<exists>ctx'. ctxs t c = Some ctx' \<and> ctx_handle ctx' = Some h) \<and> Some c \<notin># outstanding L sqs flight (uring t)"
proof -
  have g: "uring_ring.good ring_ok sqs s"
    using assms(2,3) by (simp add: uring_ring.good_def [OF assms(1)])
  have n: "\<not> fst (UringPoller_getSqe L s)" using assms(5,6) by (simp add: UringPoller_getSqe_def)
  obtain t where t: "await_op L (PrepRead fd buf len 0) c h s = Inr t"
    using assms(4) by (auto simp: await_op_def set_ctx_handle_def)
  from uring_ring.await_good [OF assms(1) g t] n assms(7) t show ?thesis
    by (simp add: await_suspend_eq)
qed

theorem UringPoller_full_queue_strands_read_witness:
  "\<exists>t. ReadAwaiter_await_suspend (busy_lib 2) 7 64 10 4 3
      (sample_state \<lparr>r_entries = 1, r_sq = [(PrepPollWakeup, None)], r_flight = [], r_slots = empty_slots,
         r_head = 0, r_tail = 0\<rparr> True 1 [] [4 \<mapsto> UringContext_new 0]) = Inr t \<and>
     (\<exists>ctx'. ctxs t 4 = Some ctx' \<and> ctx_handle ctx' = Some 3) \<and>
     Some 4 \<notin># outstanding (busy_lib 2) r_sq ring_flight (uring t)"
  by (rule UringPoller_full_queue_strands_read [OF busy_ring.uring_ring_axioms])
    (simp_all add: busy_lib_def uring_eval outstanding_def ring_flight_def)

end
