(* ===== verification/EventLoopThread.thy ===== *)
theory EventLoopThread
  imports Thread
begin

text \<open>
  The thread that runs an event loop for a server: \<^verbatim>\<open>EventLoopThread\<close> of \<^verbatim>\<open>net/TcpServer.cpp\<close>, and its copy
  in \<^verbatim>\<open>io_uring/UringEventLoopThread.h\<close>.

  The owner calls \<^verbatim>\<open>startLoop()\<close> and the destructor, the new thread runs \<^verbatim>\<open>threadFunc()\<close>; each action below is
  one access to what they share (the members under the mutex, the flag \<^verbatim>\<open>quit_\<close> of the loop), and any
  other holder of the loop's address may call its \<^verbatim>\<open>quit()\<close>.
\<close>

section \<open>State\<close>

text \<open>
  Where \<^verbatim>\<open>threadFunc\<close> is: building the loop and calling the user's callback, about to publish \<^verbatim>\<open>loop_\<close>, about
  to enter \<^verbatim>\<open>loop()\<close>, inside it, about to take the mutex and clear \<^verbatim>\<open>loop_\<close>, about to release it, returned.
\<close>

datatype thread_pc = T_none | T_construct | T_publish | T_enter | T_loop | T_clear | T_unlock | T_done

text \<open>
  Where the owner is: before \<^verbatim>\<open>startLoop\<close>, waiting in it, returned from it, in the destructor after the test
  of \<^verbatim>\<open>loop_\<close>, joining, after the destructor.
\<close>

datatype owner_pc = O_new | O_wait | O_ready | O_quit | O_join | O_gone

record LoopThread =
  tpc :: thread_pc
  opc :: owner_pc
  loop_set :: bool
  exiting :: bool
  quit_flag :: bool
  lt_thread :: Thread

definition EventLoopThread_new :: LoopThread where
  "EventLoopThread_new = \<lparr>tpc = T_none, opc = O_new, loop_set = False, exiting = False, quit_flag = False,
     lt_thread = Thread_new []\<rparr>"

section \<open>Operations\<close>

text \<open>The two halves of \<^verbatim>\<open>startLoop()\<close>; \<open>nd\<close> says whether the build defines \<^verbatim>\<open>NDEBUG\<close>.\<close>

definition EventLoopThread_startLoop :: "bool \<Rightarrow> LoopThread \<Rightarrow> LoopThread result" where
  "EventLoopThread_startLoop nd s =
     (if \<not> nd \<and> th_started (lt_thread s) then Inl AssertFailed
      else bindR (Thread_start nd (lt_thread s)) (\<lambda>t. Inr (s\<lparr>lt_thread := t, tpc := T_construct, opc := O_wait\<rparr>)))"

text \<open>The wait ends only on a loop that is set; the flag is what \<^verbatim>\<open>startLoop\<close> returns.\<close>

definition EventLoopThread_awaitLoop :: "LoopThread \<Rightarrow> LoopThread option" where
  "EventLoopThread_awaitLoop s = (if loop_set s then Some (s\<lparr>opc := O_ready\<rparr>) else None)"

text \<open>The destructor: the test of \<^verbatim>\<open>loop_\<close>, the call of \<^verbatim>\<open>quit()\<close> through it, the join.\<close>

definition EventLoopThread_destroy :: "LoopThread \<Rightarrow> LoopThread" where
  "EventLoopThread_destroy s = s\<lparr>exiting := True, opc := (if loop_set s then O_quit else O_gone)\<rparr>"

definition EventLoopThread_destroyQuit :: "LoopThread \<Rightarrow> LoopThread result" where
  "EventLoopThread_destroyQuit s =
     (if loop_set s then Inr (s\<lparr>quit_flag := True, opc := O_join\<rparr>) else Inl Undefined)"

definition EventLoopThread_join :: "bool \<Rightarrow> LoopThread \<Rightarrow> LoopThread result" where
  "EventLoopThread_join nd s = bindR (Thread_join nd (lt_thread s)) (\<lambda>t. Inr (s\<lparr>lt_thread := t, opc := O_gone\<rparr>))"

text \<open>
  The steps of \<^verbatim>\<open>threadFunc()\<close>.  \<^verbatim>\<open>loop()\<close> first clears \<^verbatim>\<open>quit_\<close> and then runs until it finds it set.  The
  members are gone after the destructor: touching them is undefined.
\<close>

definition EventLoopThread_threadFunc :: "LoopThread \<Rightarrow> LoopThread result option" where
  "EventLoopThread_threadFunc s = (case tpc s of
     T_none \<Rightarrow> None
   | T_construct \<Rightarrow> Some (Inr (s\<lparr>tpc := T_publish\<rparr>))
   | T_publish \<Rightarrow> Some (if opc s = O_gone then Inl Undefined else Inr (s\<lparr>loop_set := True, tpc := T_enter\<rparr>))
   | T_enter \<Rightarrow> Some (Inr (s\<lparr>quit_flag := False, tpc := T_loop\<rparr>))
   | T_loop \<Rightarrow> if quit_flag s then Some (Inr (s\<lparr>tpc := T_clear\<rparr>)) else None
   | T_clear \<Rightarrow> Some (if opc s = O_gone then Inl Undefined else Inr (s\<lparr>loop_set := False, tpc := T_unlock\<rparr>))
   | T_unlock \<Rightarrow> Some (if opc s = O_gone then Inl Undefined else Inr (s\<lparr>tpc := T_done\<rparr>))
   | T_done \<Rightarrow> None)"

datatype lt_action = StartLoop | AwaitLoop | Destroy | DestroyQuit | Join | ThreadStep | OtherQuit

text \<open>Which action is possible where; \<open>None\<close> when it is not, or has to wait.\<close>

definition EventLoopThread_step :: "bool \<Rightarrow> lt_action \<Rightarrow> LoopThread \<Rightarrow> LoopThread result option" where
  "EventLoopThread_step nd a s = (case a of
     StartLoop \<Rightarrow> if opc s = O_new then Some (EventLoopThread_startLoop nd s) else None
   | AwaitLoop \<Rightarrow> if opc s = O_wait then map_option Inr (EventLoopThread_awaitLoop s) else None
   | Destroy \<Rightarrow> if opc s = O_new \<or> opc s = O_ready then Some (Inr (EventLoopThread_destroy s)) else None
   | DestroyQuit \<Rightarrow> if opc s = O_quit then Some (EventLoopThread_destroyQuit s) else None
   | Join \<Rightarrow> if opc s = O_join \<and> tpc s = T_done then Some (EventLoopThread_join nd s) else None
   | ThreadStep \<Rightarrow> EventLoopThread_threadFunc s
   | OtherQuit \<Rightarrow> if tpc s \<in> {T_enter, T_loop} then Some (Inr (s\<lparr>quit_flag := True\<rparr>)) else None)"

definition EventLoopThread_exec :: "bool \<Rightarrow> lt_action \<Rightarrow> LoopThread \<Rightarrow> LoopThread option" where
  "EventLoopThread_exec nd a s = (case EventLoopThread_step nd a s of Some (Inr t) \<Rightarrow> Some t | _ \<Rightarrow> None)"

lemmas lt_defs = EventLoopThread_exec_def EventLoopThread_step_def EventLoopThread_startLoop_def
  EventLoopThread_awaitLoop_def EventLoopThread_destroy_def EventLoopThread_destroyQuit_def EventLoopThread_join_def
  EventLoopThread_threadFunc_def Thread_start_def Thread_join_def

section \<open>Invariant\<close>

definition lt_inv :: "LoopThread \<Rightarrow> bool" where
  "lt_inv s \<longleftrightarrow>
     loop_set s = (tpc s \<in> {T_enter, T_loop, T_clear}) \<and>
     th_started (lt_thread s) = (tpc s \<noteq> T_none) \<and>
     (opc s = O_new \<longrightarrow> tpc s = T_none) \<and>
     (opc s \<in> {O_wait, O_ready, O_quit, O_join} \<longrightarrow> tpc s \<noteq> T_none) \<and>
     (opc s \<in> {O_ready, O_quit, O_join} \<longrightarrow> tpc s \<notin> {T_construct, T_publish}) \<and>
     (opc s = O_gone \<longrightarrow> tpc s \<in> {T_none, T_unlock, T_done}) \<and>
     (th_joined (lt_thread s) \<longrightarrow> opc s = O_gone) \<and> thread_ok (lt_thread s)"

text \<open>What each action needs and does, when it does not fail.\<close>

lemma exec_cases:
  assumes "EventLoopThread_exec nd a s = Some t" and "lt_inv s"
  obtains (start) "a = StartLoop" "opc s = O_new"
      "t = s\<lparr>lt_thread := (lt_thread s)\<lparr>th_started := True, th_thread := Joinable\<rparr>, tpc := T_construct, opc := O_wait\<rparr>"
    | (await) "a = AwaitLoop" "opc s = O_wait" "loop_set s" "t = s\<lparr>opc := O_ready\<rparr>"
    | (destroy) "a = Destroy" "opc s = O_new \<or> opc s = O_ready" "t = EventLoopThread_destroy s"
    | (quit) "a = DestroyQuit" "opc s = O_quit" "loop_set s" "t = s\<lparr>quit_flag := True, opc := O_join\<rparr>"
    | (join) "a = Join" "opc s = O_join" "tpc s = T_done"
        "t = s\<lparr>lt_thread := (lt_thread s)\<lparr>th_joined := True, th_thread := NotJoinable\<rparr>, opc := O_gone\<rparr>"
    | (thread) "a = ThreadStep" "EventLoopThread_threadFunc s = Some (Inr t)"
    | (other) "a = OtherQuit" "tpc s \<in> {T_enter, T_loop}" "t = s\<lparr>quit_flag := True\<rparr>"
proof (cases a)
  case StartLoop
  with assms start show ?thesis by (simp add: lt_defs lt_inv_def thread_ok_def split: if_splits)
next
  case AwaitLoop
  with assms await show ?thesis by (simp add: lt_defs split: if_splits)
next
  case Destroy
  with assms destroy show ?thesis by (simp add: EventLoopThread_exec_def EventLoopThread_step_def split: if_splits)
next
  case DestroyQuit
  with assms quit show ?thesis by (simp add: lt_defs split: if_splits)
next
  case Join
  with assms join show ?thesis by (auto simp: lt_defs lt_inv_def thread_ok_def split: if_splits)
next
  case ThreadStep
  with assms thread show ?thesis
    by (simp add: EventLoopThread_exec_def EventLoopThread_step_def split: option.splits sum.splits)
next
  case OtherQuit
  with assms other show ?thesis by (simp add: lt_defs split: if_splits)
qed

lemma lt_inv_thread: "EventLoopThread_threadFunc s = Some (Inr t) \<Longrightarrow> lt_inv s \<Longrightarrow> lt_inv t"
  by (cases "tpc s") (simp_all add: EventLoopThread_threadFunc_def lt_inv_def split: if_splits, auto)

lemma lt_inv_exec:
  assumes "EventLoopThread_exec nd a s = Some t" and "lt_inv s"
  shows "lt_inv t"
  using assms
proof (cases rule: exec_cases)
  case destroy
  with assms(2) show ?thesis
    by (cases "tpc s"; auto simp: lt_inv_def EventLoopThread_destroy_def split: if_splits)
next
  case thread
  from thread(2) assms(2) show ?thesis by (rule lt_inv_thread)
qed (use assms(2) in \<open>auto simp: lt_inv_def thread_ok_def\<close>)

definition LoopThread_init :: "LoopThread \<Rightarrow> bool" where
  "LoopThread_init s \<longleftrightarrow> s = EventLoopThread_new"

definition LoopThread_step :: "bool \<Rightarrow> LoopThread \<Rightarrow> LoopThread \<Rightarrow> bool" where
  "LoopThread_step nd s t \<longleftrightarrow> (\<exists>a. EventLoopThread_exec nd a s = Some t)"

interpretation loop_thread: inductive_invariant LoopThread_init "LoopThread_step nd" lt_inv for nd
proof unfold_locales
  fix s :: LoopThread
  assume "LoopThread_init s"
  then show "lt_inv s"
    by (simp add: LoopThread_init_def EventLoopThread_new_def lt_inv_def thread_ok_def Thread_new_def)
next
  fix s t :: LoopThread
  assume "lt_inv s" and "LoopThread_step nd s t"
  then show "lt_inv t" unfolding LoopThread_step_def by (blast intro: lt_inv_exec)
qed

section \<open>Properties\<close>

text \<open>Once the destructor has set \<^verbatim>\<open>quit_\<close> before \<^verbatim>\<open>loop()\<close> was entered, the flag is lost and the join waits for ever.\<close>

definition joining_forever :: "LoopThread \<Rightarrow> bool" where
  "joining_forever s \<longleftrightarrow> opc s = O_join \<and> (tpc s = T_enter \<or> tpc s = T_loop \<and> \<not> quit_flag s)"

lemma joining_forever_exec:
  assumes "EventLoopThread_exec nd a s = Some t" and "a \<noteq> OtherQuit" and "joining_forever s"
  shows "joining_forever t"
  using assms by (cases a) (auto simp: lt_defs joining_forever_def)

lemma joining_forever_run:
  "joining_forever s \<Longrightarrow> OtherQuit \<notin> set acts \<Longrightarrow> run_exec (EventLoopThread_exec nd) acts s = Some t \<Longrightarrow> joining_forever t"
  by (induction acts arbitrary: s) (auto split: option.splits intro: joining_forever_exec)

text \<open>
  \<^verbatim>\<open>startLoop()\<close> returns only a loop that exists: when its wait ends, the thread has published the loop and
  not yet cleared it.  But if the owner is destroyed before the thread has entered \<^verbatim>\<open>loop()\<close>, the
  \<^verbatim>\<open>quit()\<close> of the destructor is overwritten by \<^verbatim>\<open>loop()\<close>, and the join never ends, unless somebody else
  asks the loop to quit.
\<close>

theorem EventLoopThread_ready_and_hang:
  assumes "reach LoopThread_init (LoopThread_step nd) s"
  shows "(opc s = O_wait \<and> EventLoopThread_exec nd AwaitLoop s = Some t \<longrightarrow> tpc s \<in> {T_enter, T_loop, T_clear}) \<and>
    (opc s = O_ready \<and> tpc s = T_enter \<longrightarrow>
      (\<exists>u. run_exec (EventLoopThread_exec nd) [Destroy, DestroyQuit] s = Some u \<and>
        (\<forall>acts v. OtherQuit \<notin> set acts \<longrightarrow> run_exec (EventLoopThread_exec nd) acts u = Some v \<longrightarrow> opc v = O_join)))"
proof -
  have inv: "lt_inv s" by (rule loop_thread.reach_inv [OF assms])
  have "tpc s \<in> {T_enter, T_loop, T_clear}" if "EventLoopThread_exec nd AwaitLoop s = Some t"
    using inv that by (auto simp: lt_defs lt_inv_def split: if_splits)
  moreover have "\<exists>u. run_exec (EventLoopThread_exec nd) [Destroy, DestroyQuit] s = Some u \<and> joining_forever u"
    if "opc s = O_ready" "tpc s = T_enter"
    using inv that by (auto simp: lt_defs lt_inv_def joining_forever_def)
  moreover have "opc v = O_join" if "joining_forever v" for v using that by (simp add: joining_forever_def)
  ultimately show ?thesis using joining_forever_run by blast
qed

theorem EventLoopThread_ready_and_hang_witness:
  "\<exists>s u. run_exec (EventLoopThread_exec False) [StartLoop, ThreadStep, ThreadStep, AwaitLoop] EventLoopThread_new = Some s \<and>
     run_exec (EventLoopThread_exec False) [Destroy, DestroyQuit] s = Some u \<and>
     (\<forall>acts v. OtherQuit \<notin> set acts \<longrightarrow> run_exec (EventLoopThread_exec False) acts u = Some v \<longrightarrow> opc v = O_join)"
proof -
  let ?acts = "[StartLoop, ThreadStep, ThreadStep, AwaitLoop]"
  obtain s where s: "run_exec (EventLoopThread_exec False) ?acts EventLoopThread_new = Some s" "opc s = O_ready" "tpc s = T_enter"
    by (simp add: EventLoopThread_new_def lt_defs Thread_new_def)
  have "reach LoopThread_init (LoopThread_step False) EventLoopThread_new"
    by (rule reach_init) (simp add: LoopThread_init_def)
  then have r: "reach LoopThread_init (LoopThread_step False) s"
    by (rule run_exec_reach [rotated, OF _ s(1)]) (auto simp: LoopThread_step_def)
  from EventLoopThread_ready_and_hang [OF r] s show ?thesis by blast
qed

text \<open>
  when the loop ends because somebody else called its \<^verbatim>\<open>quit()\<close>, the destructor may find \<^verbatim>\<open>loop_\<close> already
  cleared: it does not join, and the thread then releases a mutex that is gone.
\<close>

theorem EventLoopThread_use_after_destroy:
  "\<exists>s. run_exec (EventLoopThread_exec nd)
      [StartLoop, ThreadStep, ThreadStep, AwaitLoop, ThreadStep, OtherQuit, ThreadStep, ThreadStep, Destroy]
      EventLoopThread_new = Some s \<and> opc s = O_gone \<and>
    EventLoopThread_step nd ThreadStep s = Some (Inl Undefined)"
  by (simp add: EventLoopThread_new_def lt_defs Thread_new_def)

end
