(* ===== verification/Coroutine.thy ===== *)
theory Coroutine
  imports Prelude
begin

text \<open>
  Coroutines: \<^verbatim>\<open>coro/Task.h\<close> and \<^verbatim>\<open>coro/Generator.h\<close>.

  \<^item> The body of a coroutine is user code, a value of type \<open>body\<close>: it returns, throws, awaits the task of
    another coroutine that it calls (\<^verbatim>\<open>co_await f(...)\<close>, the way the library uses tasks), or suspends in
    a leaf awaiter with a request \<open>'e\<close> and goes on with the answer \<open>'r\<close> of its resumption.
  \<^item> A coroutine frame has an address and holds the promise (\<^verbatim>\<open>continuation_\<close>, \<^verbatim>\<open>eptr_\<close>, \<^verbatim>\<open>result_\<close>) and the point
    at which the coroutine is suspended.  Resuming a handle runs frames one after the other, by symmetric
    transfer, until a leaf awaiter suspends or the outermost continuation, \<^verbatim>\<open>noop_coroutine\<close>, is reached.
  \<^item> The reference is the direct-style reading of a body, in which awaiting a coroutine is calling it.
\<close>

section \<open>Bodies and frames\<close>

datatype ('e, 'r, 'v, 'x) body =
    CoReturn 'v
  | CoThrow 'x
  | CoAwait "('e, 'r, 'v, 'x) body" "'x + 'v \<Rightarrow> ('e, 'r, 'v, 'x) body"
  | CoSuspend 'e "'r \<Rightarrow> ('e, 'r, 'v, 'x) body"

text \<open>
  Suspended before a body (initially, or running), in \<^verbatim>\<open>co_await\<close> of the task with handle \<open>t\<close>, in a leaf
  awaiter, at the final suspension point.
\<close>

datatype ('e, 'r, 'v, 'x) resume_point =
    AtBody "('e, 'r, 'v, 'x) body"
  | AtAwait nat "'x + 'v \<Rightarrow> ('e, 'r, 'v, 'x) body"
  | AtEvent "'r \<Rightarrow> ('e, 'r, 'v, 'x) body"
  | AtEnd

text \<open>\<open>None\<close> in \<open>continuation_\<close> is \<^verbatim>\<open>std::noop_coroutine()\<close>.\<close>

record ('e, 'r, 'v, 'x) TaskPromise =
  continuation_of :: "nat option"
  eptr :: "'x option"
  result_val :: "'v option"
  point :: "('e, 'r, 'v, 'x) resume_point"

definition TaskPromise_new :: "('e, 'r, 'v, 'x) body \<Rightarrow> ('e, 'r, 'v, 'x) TaskPromise" where
  "TaskPromise_new b = \<lparr>continuation_of = None, eptr = None, result_val = None, point = AtBody b\<rparr>"

record ('e, 'r, 'v, 'x) Coroutines =
  frames :: "nat \<rightharpoonup> ('e, 'r, 'v, 'x) TaskPromise"
  next_frame :: nat

definition no_coroutines :: "('e, 'r, 'v, 'x) Coroutines" where
  "no_coroutines = \<lparr>frames = Map.empty, next_frame = 0\<rparr>"

definition set_frame :: "nat \<Rightarrow> ('e, 'r, 'v, 'x) TaskPromise \<Rightarrow> ('e, 'r, 'v, 'x) Coroutines \<Rightarrow> ('e, 'r, 'v, 'x) Coroutines"
  where "set_frame h f m = m\<lparr>frames := (frames m)(h \<mapsto> f)\<rparr>"

text \<open>Calling a coroutine: a new frame, suspended initially; the task holds its handle.\<close>

definition Task_create :: "('e, 'r, 'v, 'x) body \<Rightarrow> ('e, 'r, 'v, 'x) Coroutines \<Rightarrow> nat \<times> ('e, 'r, 'v, 'x) Coroutines" where
  "Task_create b m = (next_frame m, (set_frame (next_frame m) (TaskPromise_new b) m)\<lparr>next_frame := next_frame m + 1\<rparr>)"

definition handle_done :: "nat \<Rightarrow> ('e, 'r, 'v, 'x) Coroutines \<Rightarrow> bool result" where
  "handle_done h m = bindR (derefR (frames m) h) (\<lambda>f. Inr (case point f of AtEnd \<Rightarrow> True | _ \<Rightarrow> False))"

text \<open>\<^verbatim>\<open>get_result\<close>: the stored exception, else the result, which must be there; \<open>nd\<close> is \<^verbatim>\<open>NDEBUG\<close>.\<close>

definition TaskPromise_get_result :: "bool \<Rightarrow> ('e, 'r, 'v, 'x) TaskPromise \<Rightarrow> ('x + 'v) result" where
  "TaskPromise_get_result nd f = (case eptr f of
     Some x \<Rightarrow> Inr (Inl x)
   | None \<Rightarrow> (case result_val f of Some v \<Rightarrow> Inr (Inr v) | None \<Rightarrow> Inl (if nd then Undefined else AssertFailed)))"

definition TaskPromise_void_get_result :: "('e, 'r, unit, 'x) TaskPromise \<Rightarrow> ('x + unit) result" where
  "TaskPromise_void_get_result f = (case eptr f of Some x \<Rightarrow> Inr (Inl x) | None \<Rightarrow> Inr (Inr ()))"

definition TaskPromise_return_value :: "'v \<Rightarrow> ('e, 'r, 'v, 'x) TaskPromise \<Rightarrow> ('e, 'r, 'v, 'x) TaskPromise" where
  "TaskPromise_return_value v f = f\<lparr>result_val := Some v\<rparr>"

definition TaskPromise_unhandled_exception :: "'x \<Rightarrow> ('e, 'r, 'v, 'x) TaskPromise \<Rightarrow> ('e, 'r, 'v, 'x) TaskPromise" where
  "TaskPromise_unhandled_exception x f = f\<lparr>eptr := Some x\<rparr>"

text \<open>
  Destroying a task destroys its frame, and with it the temporary task of a \<^verbatim>\<open>co_await\<close> it is suspended
  in; a callee's handle is larger than its caller's, so \<open>next_frame\<close> bounds the depth.
\<close>

fun destroy_frames :: "nat \<Rightarrow> nat \<Rightarrow> ('e, 'r, 'v, 'x) Coroutines \<Rightarrow> ('e, 'r, 'v, 'x) Coroutines" where
  "destroy_frames 0 h m = m"
| "destroy_frames (Suc n) h m = (case frames m h of
     None \<Rightarrow> m
   | Some f \<Rightarrow> let m1 = m\<lparr>frames := (frames m)(h := None)\<rparr> in
       (case point f of AtAwait t k \<Rightarrow> destroy_frames n t m1 | _ \<Rightarrow> m1))"

definition Task_destroy :: "nat option \<Rightarrow> ('e, 'r, 'v, 'x) Coroutines \<Rightarrow> ('e, 'r, 'v, 'x) Coroutines" where
  "Task_destroy h m = (case h of None \<Rightarrow> m | Some t \<Rightarrow> destroy_frames (next_frame m) t m)"

text \<open>
  Moving: the source gives up its handle.  Assignment first destroys the frame of the target; assigning a task to
  itself (\<open>same\<close>) changes nothing.
\<close>

definition Task_move :: "nat option \<Rightarrow> nat option \<times> nat option" where
  "Task_move other = (other, None)"

definition Task_move_assign :: "bool \<Rightarrow> nat option \<Rightarrow> nat option \<Rightarrow> ('e, 'r, 'v, 'x) Coroutines \<Rightarrow>
    nat option \<times> nat option \<times> ('e, 'r, 'v, 'x) Coroutines" where
  "Task_move_assign same h other m = (if same then (h, other, m) else (other, None, Task_destroy h m))"

section \<open>Running a coroutine\<close>

text \<open>Where control goes: to another frame, or back to the caller of \<^verbatim>\<open>resume()\<close>.\<close>

datatype 'e control = Goto nat | Return "(nat \<times> 'e) option"

text \<open>
  \<^verbatim>\<open>final_suspend\<close> transfers to the continuation; transferring to \<^verbatim>\<open>noop_coroutine\<close> returns to the resumer.
\<close>

definition final_suspend :: "nat \<Rightarrow> ('e, 'r, 'v, 'x) TaskPromise \<Rightarrow> ('e, 'r, 'v, 'x) Coroutines \<Rightarrow>
    'e control \<times> ('e, 'r, 'v, 'x) Coroutines" where
  "final_suspend h f m =
     (case continuation_of f of None \<Rightarrow> Return None | Some c \<Rightarrow> Goto c, set_frame h (f\<lparr>point := AtEnd\<rparr>) m)"

text \<open>\<^verbatim>\<open>await_suspend\<close> of a task: remember the awaiting coroutine, transfer to the task.\<close>

definition Awaiter_await_suspend :: "nat \<Rightarrow> nat \<Rightarrow> ('e, 'r, 'v, 'x) Coroutines \<Rightarrow>
    ('e control \<times> ('e, 'r, 'v, 'x) Coroutines) result" where
  "Awaiter_await_suspend t c m = bindR (derefR (frames m) t) (\<lambda>f.
     Inr (Goto t, set_frame t (f\<lparr>continuation_of := Some c\<rparr>) m))"

text \<open>
  One move of the frame \<open>h\<close>.  \<^verbatim>\<open>co_await f(...)\<close> creates the task, asks \<^verbatim>\<open>await_ready\<close>, and suspends if it is
  not done; on resumption \<^verbatim>\<open>await_resume\<close> takes the result and the temporary task is destroyed.
  Resuming a frame that is gone, or at its final suspension point, is undefined.
\<close>

definition coro_step :: "bool \<Rightarrow> nat \<Rightarrow> ('e, 'r, 'v, 'x) Coroutines \<Rightarrow> ('e control \<times> ('e, 'r, 'v, 'x) Coroutines) result" where
  "coro_step nd h m = bindR (derefR (frames m) h) (\<lambda>f. case point f of
     AtBody (CoReturn v) \<Rightarrow> Inr (final_suspend h (TaskPromise_return_value v f) m)
   | AtBody (CoThrow x) \<Rightarrow> Inr (final_suspend h (TaskPromise_unhandled_exception x f) m)
   | AtBody (CoAwait b k) \<Rightarrow> (case Task_create b m of (t, m1) \<Rightarrow>
       let m2 = set_frame h (f\<lparr>point := AtAwait t k\<rparr>) m1 in
       bindR (handle_done t m2) (\<lambda>ready. if ready then Inr (Goto h, m2) else Awaiter_await_suspend t h m2))
   | AtBody (CoSuspend e k) \<Rightarrow> Inr (Return (Some (h, e)), set_frame h (f\<lparr>point := AtEvent k\<rparr>) m)
   | AtAwait t k \<Rightarrow> bindR (derefR (frames m) t) (\<lambda>ft. bindR (TaskPromise_get_result nd ft) (\<lambda>r.
       Inr (Goto h, set_frame h (f\<lparr>point := AtBody (k r)\<rparr>) (Task_destroy (Some t) m))))
   | AtEvent k \<Rightarrow> Inl Undefined
   | AtEnd \<Rightarrow> Inl Undefined)"

text \<open>\<^verbatim>\<open>resume()\<close> runs until control returns: a loop that might not end, so its value is optional.\<close>

partial_function (option) coro_run ::
  "bool \<Rightarrow> nat \<Rightarrow> ('e, 'r, 'v, 'x) Coroutines \<Rightarrow> ((nat \<times> 'e) option \<times> ('e, 'r, 'v, 'x) Coroutines) result option" where
  "coro_run nd h m = (case coro_step nd h m of
     Inl e \<Rightarrow> Some (Inl e)
   | Inr (Return ev, m') \<Rightarrow> Some (Inr (ev, m'))
   | Inr (Goto h', m') \<Rightarrow> coro_run nd h' m')"

text \<open>Resuming a coroutine that a leaf awaiter suspended, with the answer to its request.\<close>

definition coro_answer :: "nat \<Rightarrow> 'r \<Rightarrow> ('e, 'r, 'v, 'x) Coroutines \<Rightarrow> ('e, 'r, 'v, 'x) Coroutines result" where
  "coro_answer h r m = bindR (derefR (frames m) h) (\<lambda>f. case point f of
     AtEvent k \<Rightarrow> Inr (set_frame h (f\<lparr>point := AtBody (k r)\<rparr>) m) | _ \<Rightarrow> Inl Undefined)"

text \<open>\<^verbatim>\<open>syncWait\<close>: a null task is dereferenced, a finished one gives its result, another is resumed once first.\<close>

definition Task_syncWait :: "bool \<Rightarrow> nat option \<Rightarrow> ('e, 'r, 'v, 'x) Coroutines \<Rightarrow>
    (('x + 'v) \<times> ('e, 'r, 'v, 'x) Coroutines) result option" where
  "Task_syncWait nd th m = (case th of
     None \<Rightarrow> Some (Inl Undefined)
   | Some h \<Rightarrow> (case handle_done h m of
       Inl e \<Rightarrow> Some (Inl e)
     | Inr True \<Rightarrow> Some (bindR (derefR (frames m) h) (\<lambda>f. bindR (TaskPromise_get_result nd f) (\<lambda>r. Inr (r, m))))
     | Inr False \<Rightarrow> map_option (\<lambda>res. bindR res (\<lambda>(ev, m1).
         bindR (derefR (frames m1) h) (\<lambda>f. bindR (TaskPromise_get_result nd f) (\<lambda>r. Inr (r, m1))))) (coro_run nd h m)))"

section \<open>The direct-style reading\<close>

datatype ('e, 'r, 'o) behaviour = Done 'o | Ask 'e "'r \<Rightarrow> ('e, 'r, 'o) behaviour"

primrec bindB :: "('e, 'r, 'o) behaviour \<Rightarrow> ('o \<Rightarrow> ('e, 'r, 'p) behaviour) \<Rightarrow> ('e, 'r, 'p) behaviour" where
  "bindB (Done r) f = f r"
| "bindB (Ask e g) f = Ask e (\<lambda>r. bindB (g r) f)"

primrec direct :: "('e, 'r, 'v, 'x) body \<Rightarrow> ('e, 'r, 'x + 'v) behaviour" where
  "direct (CoReturn v) = Done (Inr v)"
| "direct (CoThrow x) = Done (Inl x)"
| "direct (CoAwait b k) = bindB (direct b) (\<lambda>r. direct (k r))"
| "direct (CoSuspend e k) = Ask e (\<lambda>r. direct (k r))"

text \<open>The requests made, and the outcome if it is reached, when the answers are \<open>rs\<close>.\<close>

fun behaviour_run :: "('e, 'r, 'o) behaviour \<Rightarrow> 'r list \<Rightarrow> 'e list \<times> 'o option" where
  "behaviour_run (Done r) rs = ([], Some r)"
| "behaviour_run (Ask e g) [] = ([e], None)"
| "behaviour_run (Ask e g) (r # rs) = (case behaviour_run (g r) rs of (es, res) \<Rightarrow> (e # es, res))"

text \<open>The machine on the same answers: each resumes the coroutine that made the request.\<close>

fun Task_drive :: "bool \<Rightarrow> nat \<Rightarrow> nat \<Rightarrow> ('e, 'r, 'v, 'x) Coroutines \<Rightarrow> 'r list \<Rightarrow>
    (('e list \<times> ('x + 'v) option) \<times> ('e, 'r, 'v, 'x) Coroutines) result option" where
  "Task_drive nd root h m rs = (case coro_run nd h m of
     None \<Rightarrow> None
   | Some (Inl e) \<Rightarrow> Some (Inl e)
   | Some (Inr (None, m1)) \<Rightarrow> Some (bindR (derefR (frames m1) root) (\<lambda>f.
       bindR (TaskPromise_get_result nd f) (\<lambda>r. Inr (([], Some r), m1))))
   | Some (Inr (Some (l, e), m1)) \<Rightarrow> (case rs of
       [] \<Rightarrow> Some (Inr (([e], None), m1))
     | r # rs' \<Rightarrow> (case coro_answer l r m1 of
         Inl err \<Rightarrow> Some (Inl err)
       | Inr m2 \<Rightarrow> map_option (\<lambda>res. bindR res (\<lambda>((es, fin), m3). Inr ((e # es, fin), m3)))
                     (Task_drive nd root l m2 rs'))))"

section \<open>Chains of awaiting frames\<close>

text \<open>
  The frames below a running one, innermost first: each awaits the task above it and goes on with the
  continuation recorded beside it.
\<close>

fun await_chain :: "('e, 'r, 'v, 'x) Coroutines \<Rightarrow> nat \<Rightarrow> (nat \<times> ('x + 'v \<Rightarrow> ('e, 'r, 'v, 'x) body)) list \<Rightarrow> nat \<Rightarrow> bool" where
  "await_chain m h [] root \<longleftrightarrow> h = root"
| "await_chain m h ((p, k) # st) root \<longleftrightarrow> (\<exists>f fp. frames m h = Some f \<and> continuation_of f = Some p \<and>
     frames m p = Some fp \<and> point fp = AtAwait h k \<and> p < h \<and> await_chain m p st root)"

definition config :: "('e, 'r, 'v, 'x) Coroutines \<Rightarrow> nat \<Rightarrow> (nat \<times> ('x + 'v \<Rightarrow> ('e, 'r, 'v, 'x) body)) list \<Rightarrow> nat \<Rightarrow>
    ('e, 'r, 'v, 'x) resume_point \<Rightarrow> bool" where
  "config m h st root pt \<longleftrightarrow> await_chain m h st root \<and> (\<exists>f. frames m root = Some f \<and> continuation_of f = None) \<and>
     dom (frames m) = insert h (fst ` set st) \<and> (\<forall>x \<in> dom (frames m). x < next_frame m) \<and>
     (\<forall>f \<in> ran (frames m). eptr f = None \<and> result_val f = None) \<and>
     (\<exists>f. frames m h = Some f \<and> point f = pt)"

fun plug :: "('e, 'r, 'x + 'v) behaviour \<Rightarrow> (nat \<times> ('x + 'v \<Rightarrow> ('e, 'r, 'v, 'x) body)) list \<Rightarrow>
    ('e, 'r, 'x + 'v) behaviour" where
  "plug B [] = B"
| "plug B ((p, k) # st) = plug (bindB B (\<lambda>r. direct (k r))) st"

definition returning :: "'x + 'v \<Rightarrow> ('e, 'r, 'v, 'x) body" where
  "returning r = (case r of Inl x \<Rightarrow> CoThrow x | Inr v \<Rightarrow> CoReturn v)"

lemma plug_append: "plug B (xs @ ys) = plug (plug B xs) ys"
  by (induction xs arbitrary: B) auto

lemma plug_Ask: "plug (Ask e g) st = Ask e (\<lambda>r. plug (g r) st)"
  by (induction st arbitrary: g) auto

lemma await_chain_less: "await_chain m h st root \<Longrightarrow> p \<in> fst ` set st \<Longrightarrow> p < h"
  by (induction st arbitrary: h) (auto, force)

lemma await_chain_cong:
  "await_chain m h st root \<Longrightarrow> (\<And>p. p \<in> insert h (fst ` set st) \<Longrightarrow> frames m' p = frames m p) \<Longrightarrow> await_chain m' h st root"
  by (induction st arbitrary: h) auto

lemma await_chain_root: "await_chain m h st root \<Longrightarrow> root \<in> insert h (fst ` set st)"
  by (induction st arbitrary: h) auto

text \<open>Moving the resume point of the top frame.\<close>

lemma await_chain_top:
  assumes "await_chain m h st root" and "frames m h = Some f" and "continuation_of f' = continuation_of f"
    and "\<And>p. p \<noteq> h \<Longrightarrow> frames m' p = frames m p" and "frames m' h = Some f'"
  shows "await_chain m' h st root"
proof (cases st)
  case Nil
  with assms(1) show ?thesis by simp
next
  case (Cons q st')
  obtain p k where q: "q = (p, k)" by fastforce
  with assms(1,2) Cons obtain fp where p: "continuation_of f = Some p" "frames m p = Some fp"
    "point fp = AtAwait h k" "p < h" "await_chain m p st' root" by auto
  have "await_chain m' p st' root"
    by (rule await_chain_cong [OF p(5)]) (use await_chain_less [OF p(5)] p(4) assms(4) in fastforce)
  with p assms(3,4,5) Cons q show ?thesis by auto
qed

lemma config_top:
  assumes "config m h st root pt" and "frames m h = Some f"
  shows "config (set_frame h (f\<lparr>point := pt'\<rparr>) m) h st root pt'"
proof -
  let ?m = "set_frame h (f\<lparr>point := pt'\<rparr>) m"
  have "await_chain ?m h st root"
    by (rule await_chain_top [where m = m and f = f and f' = "f\<lparr>point := pt'\<rparr>"])
      (use assms in \<open>auto simp: config_def set_frame_def\<close>)
  moreover have "\<exists>g. frames ?m root = Some g \<and> continuation_of g = None"
    using assms by (cases "root = h") (auto simp: config_def set_frame_def)
  moreover have "dom (frames ?m) = dom (frames m)" "next_frame ?m = next_frame m"
    using assms(2) by (auto simp: set_frame_def)
  moreover have "\<forall>g \<in> ran (frames ?m). eptr g = None \<and> result_val g = None"
    using assms by (auto simp: config_def set_frame_def ran_def split: if_splits)
  moreover have "\<exists>g. frames ?m h = Some g \<and> point g = pt'" by (simp add: set_frame_def)
  ultimately show ?thesis using assms(1) by (simp add: config_def)
qed

text \<open>A call: the new frame is on top and its caller awaits it.\<close>

lemma config_call:
  assumes c: "config m h st root (AtBody (CoAwait b k))"
  shows "\<exists>t m1. coro_step nd h m = Inr (Goto t, m1) \<and> config m1 t ((h, k) # st) root (AtBody b)"
proof -
  obtain f where f: "frames m h = Some f" "point f = AtBody (CoAwait b k)" using c by (auto simp: config_def)
  let ?t = "next_frame m"
  have less: "x < ?t" if "x \<in> dom (frames m)" for x using c that by (auto simp: config_def)
  have "h \<in> dom (frames m)" using f(1) by auto
  then have ht: "h < ?t" by (rule less)
  let ?m1 = "m\<lparr>frames := (frames m)(?t \<mapsto> (TaskPromise_new b)\<lparr>continuation_of := Some h\<rparr>,
      h \<mapsto> f\<lparr>point := AtAwait ?t k\<rparr>), next_frame := ?t + 1\<rparr>"
  have s: "coro_step nd h m = Inr (Goto ?t, ?m1)"
    using f ht by (simp add: coro_step_def Task_create_def set_frame_def handle_done_def Awaiter_await_suspend_def
        TaskPromise_new_def fun_upd_twist)
  have old: "frames m p = Some g \<Longrightarrow> p \<noteq> ?t" for p g using less [of p] by auto
  have ch: "await_chain ?m1 h st root"
  proof (rule await_chain_top [where m = "m\<lparr>frames := (frames m)(?t \<mapsto> (TaskPromise_new b)\<lparr>continuation_of := Some h\<rparr>)\<rparr>"
        and f = f and f' = "f\<lparr>point := AtAwait ?t k\<rparr>"])
    show "await_chain (m\<lparr>frames := (frames m)(?t \<mapsto> (TaskPromise_new b)\<lparr>continuation_of := Some h\<rparr>)\<rparr>) h st root"
    proof (rule await_chain_cong [of m])
      show "await_chain m h st root" using c by (simp add: config_def)
      fix p assume "p \<in> insert h (fst ` set st)"
      then have "p \<in> dom (frames m)" using c by (simp add: config_def)
      then show "frames (m\<lparr>frames := (frames m)(?t \<mapsto> (TaskPromise_new b)\<lparr>continuation_of := Some h\<rparr>)\<rparr>) p = frames m p"
        using less by auto
    qed
  qed (use f ht in auto)
  have r: "\<exists>g. frames ?m1 root = Some g \<and> continuation_of g = None"
    using c f old by (cases "root = h") (auto simp: config_def)
  have d: "dom (frames ?m1) = insert ?t (fst ` set ((h, k) # st))" using c by (auto simp: config_def)
  have "config ?m1 ?t ((h, k) # st) root (AtBody b)"
    unfolding config_def
  proof (intro conjI)
    show "await_chain ?m1 ?t ((h, k) # st) root" using ch ht by (auto simp: TaskPromise_new_def)
    show "\<forall>x \<in> dom (frames ?m1). x < next_frame ?m1" using less ht by (auto simp: less_Suc_eq)
    show "\<forall>g \<in> ran (frames ?m1). eptr g = None \<and> result_val g = None"
      using c f by (auto simp: config_def ran_def TaskPromise_new_def split: if_splits)
    show "\<exists>g. frames ?m1 ?t = Some g \<and> point g = AtBody b" using ht by (simp add: TaskPromise_new_def)
  qed (use r d in auto)
  with s show ?thesis by blast
qed

text \<open>What \<^verbatim>\<open>get_result\<close> finds after a body has returned or thrown.\<close>

lemma returning_step:
  assumes f: "frames m h = Some f" "point f = AtBody (returning r)" "eptr f = None" "result_val f = None"
  shows "\<exists>f'. coro_step nd h m = Inr (case continuation_of f of None \<Rightarrow> Return None | Some c \<Rightarrow> Goto c, set_frame h f' m) \<and>
    point f' = AtEnd \<and> TaskPromise_get_result nd f' = Inr r"
  using assms by (cases r) (auto simp: coro_step_def returning_def final_suspend_def TaskPromise_return_value_def
      TaskPromise_unhandled_exception_def TaskPromise_get_result_def)

text \<open>A return to the awaiting frame: it takes the result and the callee's frame is destroyed.\<close>

lemma config_return:
  assumes c: "config m t ((h, k) # st) root (AtBody (returning r))"
  shows "\<exists>m2. coro_run nd t m = coro_run nd h m2 \<and> config m2 h st root (AtBody (k r))"
proof -
  obtain f fp where f: "frames m t = Some f" "continuation_of f = Some h" "point f = AtBody (returning r)"
    and fp: "frames m h = Some fp" "point fp = AtAwait t k" and ht: "h < t" and ch: "await_chain m h st root"
    using c by (auto simp: config_def)
  have cl: "eptr f = None" "result_val f = None" "eptr fp = None" "result_val fp = None"
    using c f(1) fp(1) by (auto simp: config_def ran_def)
  obtain f' where f': "coro_step nd t m = Inr (Goto h, set_frame t f' m)" "point f' = AtEnd"
    "TaskPromise_get_result nd f' = Inr r"
    using returning_step [OF f(1,3) cl(1,2)] f(2) by auto
  let ?m1 = "set_frame t f' m"
  let ?m2 = "m\<lparr>frames := (frames m)(t := None, h \<mapsto> fp\<lparr>point := AtBody (k r)\<rparr>)\<rparr>"
  have "t < next_frame m" using c f(1) by (auto simp: config_def)
  then obtain n where n: "next_frame m = Suc n" by (cases "next_frame m") auto
  have "coro_step nd h ?m1 = Inr (Goto h, ?m2)"
    using fp f' ht n by (simp add: coro_step_def set_frame_def Task_destroy_def)
  then have run: "coro_run nd t m = coro_run nd h ?m2"
    using f'(1) by (simp add: coro_run.simps [of nd t m] coro_run.simps [of nd h ?m1])
  have nt: "t \<notin> insert h (fst ` set st)" using ht await_chain_less [OF ch] by force
  have cht: "await_chain (m\<lparr>frames := (frames m)(t := None)\<rparr>) h st root"
    by (rule await_chain_cong [OF ch]) (use nt in auto)
  have ch2: "await_chain ?m2 h st root"
    by (rule await_chain_top [OF cht, where f = fp and f' = "fp\<lparr>point := AtBody (k r)\<rparr>"]) (use fp ht in auto)
  have rt: "root \<noteq> t" using await_chain_root [OF ch] nt by auto
  have d: "dom (frames ?m2) = insert h (fst ` set st)" using c nt by (auto simp: config_def)
  have "config ?m2 h st root (AtBody (k r))"
    unfolding config_def
  proof (intro conjI)
    show "\<exists>g. frames ?m2 root = Some g \<and> continuation_of g = None"
      using c fp rt by (cases "root = h") (auto simp: config_def)
    show "\<forall>x \<in> dom (frames ?m2). x < next_frame ?m2" using c by (auto simp: config_def split: if_splits)
    show "\<forall>g \<in> ran (frames ?m2). eptr g = None \<and> result_val g = None"
      using c cl by (auto simp: config_def ran_def split: if_splits)
  qed (use ch2 d ht in auto)
  with run show ?thesis by blast
qed

section \<open>The machine implements the direct reading\<close>

lemma config_frame: "config m h st root pt \<Longrightarrow> \<exists>f. frames m h = Some f \<and> point f = pt"
  by (simp add: config_def)

text \<open>Running one body to its end, or to the first request of it or of a coroutine it awaits.\<close>

lemma body_run:
  assumes "config m h st root (AtBody b)"
  shows "case direct b of
      Done r \<Rightarrow> \<exists>m1. coro_run nd h m = coro_run nd h m1 \<and> config m1 h st root (AtBody (returning r))
    | Ask e g \<Rightarrow> \<exists>m1 h1 ext k. coro_run nd h m = Some (Inr (Some (h1, e), m1)) \<and>
        config m1 h1 (ext @ st) root (AtEvent k) \<and> (\<forall>r. plug (direct (k r)) ext = g r)"
  using assms
proof (induction b arbitrary: m h st)
  case (CoReturn v)
  then show ?case by (auto simp: returning_def)
next
  case (CoThrow x)
  then show ?case by (auto simp: returning_def)
next
  case (CoSuspend e k)
  obtain f where f: "frames m h = Some f" "point f = AtBody (CoSuspend e k)" using config_frame [OF CoSuspend.prems] by blast
  let ?m1 = "set_frame h (f\<lparr>point := AtEvent k\<rparr>) m"
  have "coro_run nd h m = Some (Inr (Some (h, e), ?m1))"
    using f by (simp add: coro_run.simps [of nd h m] coro_step_def)
  moreover have "config ?m1 h ([] @ st) root (AtEvent k)" using config_top [OF CoSuspend.prems f(1)] by simp
  moreover have "\<forall>r. plug (direct (k r)) [] = direct (k r)" by simp
  ultimately show ?case unfolding direct.simps behaviour.case by blast
next
  case (CoAwait b k)
  obtain t m1 where c: "coro_step nd h m = Inr (Goto t, m1)" "config m1 t ((h, k) # st) root (AtBody b)"
    using config_call [OF CoAwait.prems] by blast
  have run: "coro_run nd h m = coro_run nd t m1" using c(1) by (simp add: coro_run.simps [of nd h m])
  note b = CoAwait.IH(1) [OF c(2)]
  show ?case
  proof (cases "direct b")
    case (Done r)
    with b obtain m2 where m2: "coro_run nd t m1 = coro_run nd t m2" "config m2 t ((h, k) # st) root (AtBody (returning r))"
      by auto
    from config_return [OF m2(2)] obtain m3 where m3: "coro_run nd t m2 = coro_run nd h m3"
      "config m3 h st root (AtBody (k r))" by blast
    have "coro_run nd h m = coro_run nd h m3" using run m2(1) m3(1) by simp
    with CoAwait.IH(2) [OF rangeI m3(2)] show ?thesis by (simp only: direct.simps Done bindB.simps)
  next
    case (Ask e g)
    with b obtain m2 h2 ext k2 where m2: "coro_run nd t m1 = Some (Inr (Some (h2, e), m2))"
      "config m2 h2 (ext @ (h, k) # st) root (AtEvent k2)" "\<forall>r. plug (direct (k2 r)) ext = g r" by auto
    have "config m2 h2 ((ext @ [(h, k)]) @ st) root (AtEvent k2)" using m2(2) by simp
    moreover have "\<forall>r. plug (direct (k2 r)) (ext @ [(h, k)]) = bindB (g r) (\<lambda>r. direct (k r))"
      using m2(3) by (simp add: plug_append)
    moreover have "coro_run nd h m = Some (Inr (Some (h2, e), m2))" using run m2(1) by simp
    ultimately show ?thesis unfolding direct.simps Ask bindB.simps behaviour.case by blast
  qed
qed

text \<open>Running the frames below as well, until a request or the end of the outermost coroutine.\<close>

lemma config_run:
  assumes "config m h st root (AtBody b)"
  shows "case plug (direct b) st of
      Done r \<Rightarrow> \<exists>m1 f. coro_run nd h m = Some (Inr (None, m1)) \<and> dom (frames m1) = {root} \<and>
        frames m1 root = Some f \<and> point f = AtEnd \<and> root < next_frame m1 \<and> TaskPromise_get_result nd f = Inr r
    | Ask e g \<Rightarrow> \<exists>m1 h1 st1 k. coro_run nd h m = Some (Inr (Some (h1, e), m1)) \<and>
        config m1 h1 st1 root (AtEvent k) \<and> (\<forall>r. plug (direct (k r)) st1 = g r)"
  using assms
proof (induction st arbitrary: m h b)
  case Nil
  show ?case
  proof (cases "direct b")
    case (Done r)
    with body_run [OF Nil, of nd] obtain m1 where m1: "coro_run nd h m = coro_run nd h m1" "config m1 h [] root (AtBody (returning r))"
      by auto
    then have hr: "h = root" by (simp add: config_def)
    obtain f where f: "frames m1 root = Some f" "point f = AtBody (returning r)" "eptr f = None" "result_val f = None"
      "continuation_of f = None" "dom (frames m1) = {root}" "root < next_frame m1" using m1(2) hr by (auto simp: config_def ran_def)
    from returning_step [OF f(1-4), of nd] f(5) obtain f' where f': "coro_step nd root m1 = Inr (Return None, set_frame root f' m1)"
      "point f' = AtEnd" "TaskPromise_get_result nd f' = Inr r" by auto
    from f'(1) m1(1) hr have "coro_run nd h m = Some (Inr (None, set_frame root f' m1))"
      by (simp add: coro_run.simps [of nd root m1])
    with f' f(6,7) Done show ?thesis by (auto simp: set_frame_def)
  next
    case (Ask e g)
    with body_run [OF Nil, of nd] show ?thesis by fastforce
  qed
next
  case (Cons q st)
  obtain p k where q: "q = (p, k)" by fastforce
  show ?case
  proof (cases "direct b")
    case (Done r)
    with body_run [OF Cons.prems, of nd] q obtain m1 where m1: "coro_run nd h m = coro_run nd h m1"
      "config m1 h ((p, k) # st) root (AtBody (returning r))" by auto
    from config_return [OF m1(2), of nd] obtain m2 where m2: "coro_run nd h m1 = coro_run nd p m2"
      "config m2 p st root (AtBody (k r))" by blast
    have "coro_run nd h m = coro_run nd p m2" using m1(1) m2(1) by simp
    with Cons.IH [OF m2(2)] show ?thesis by (simp only: q plug.simps Done bindB.simps)
  next
    case (Ask e g)
    with body_run [OF Cons.prems, of nd] obtain m1 h1 ext k1 where m1: "coro_run nd h m = Some (Inr (Some (h1, e), m1))"
      "config m1 h1 (ext @ q # st) root (AtEvent k1)" "\<forall>r. plug (direct (k1 r)) ext = g r" by auto
    have eq: "plug (direct b) (q # st) = Ask e (\<lambda>r. plug (g r) (q # st))" using Ask by (simp add: plug_Ask)
    have "\<forall>r. plug (direct (k1 r)) (ext @ q # st) = plug (g r) (q # st)" using m1(3) by (simp add: plug_append)
    with m1(1,2) show ?thesis unfolding eq behaviour.case by blast
  qed
qed

lemma config_answer:
  assumes "config m h st root (AtEvent k)"
  shows "\<exists>m1. coro_answer h r m = Inr m1 \<and> config m1 h st root (AtBody (k r))"
proof -
  obtain f where f: "frames m h = Some f" "point f = AtEvent k" using config_frame [OF assms] by blast
  with config_top [OF assms f(1)] show ?thesis by (simp add: coro_answer_def)
qed

lemma drive_config:
  assumes "config m h st root (AtBody b)"
  shows "\<exists>m1. Task_drive nd root h m rs = Some (Inr (behaviour_run (plug (direct b) st) rs, m1)) \<and>
    (if snd (behaviour_run (plug (direct b) st) rs) = None then \<exists>h1 st1 k. config m1 h1 st1 root (AtEvent k)
     else dom (frames m1) = {root} \<and> (\<exists>f. frames m1 root = Some f \<and> point f = AtEnd) \<and> root < next_frame m1)"
  using assms
proof (induction rs arbitrary: m h st b)
  case Nil
  show ?case
    using config_run [OF Nil, of nd] by (cases "plug (direct b) st") fastforce+
next
  case (Cons r rs)
  show ?case
  proof (cases "plug (direct b) st")
    case (Done x)
    with config_run [OF Cons.prems, of nd] show ?thesis by auto
  next
    case (Ask e g)
    with config_run [OF Cons.prems, of nd] obtain m1 h1 st1 k where m1: "coro_run nd h m = Some (Inr (Some (h1, e), m1))"
      "config m1 h1 st1 root (AtEvent k)" "\<forall>r. plug (direct (k r)) st1 = g r" by auto
    from config_answer [OF m1(2)] obtain m2 where m2: "coro_answer h1 r m1 = Inr m2" "config m2 h1 st1 root (AtBody (k r))"
      by blast
    from Cons.IH [OF m2(2)] m1(3) obtain m3 where
      m3: "Task_drive nd root h1 m2 rs = Some (Inr (behaviour_run (g r) rs, m3))"
        "if snd (behaviour_run (g r) rs) = None then \<exists>h1 st1 k. config m3 h1 st1 root (AtEvent k)
         else dom (frames m3) = {root} \<and> (\<exists>f. frames m3 root = Some f \<and> point f = AtEnd) \<and> root < next_frame m3" by auto
    obtain es fin where b: "behaviour_run (g r) rs = (es, fin)" by fastforce
    have "Task_drive nd root h m (r # rs) = Some (Inr ((e # es, fin), m3))"
      using m1(1) m2(1) m3(1) b by simp
    with m3(2) b Ask show ?thesis by simp
  qed
qed

lemma config_create: "config (snd (Task_create b no_coroutines)) 0 [] 0 (AtBody b)"
  by (simp add: config_def Task_create_def no_coroutines_def set_frame_def TaskPromise_new_def)

section \<open>Destroying a task\<close>

lemma await_chain_length: "await_chain m h st root \<Longrightarrow> length st \<le> h"
proof (induction st arbitrary: h)
  case (Cons q st)
  obtain p k where "q = (p, k)" by fastforce
  with Cons show ?case by (fastforce simp: Suc_le_eq)
qed simp

lemma await_chain_ge: "await_chain m h st c \<Longrightarrow> x \<in> insert h (fst ` set st) \<Longrightarrow> c \<le> x"
proof (induction st arbitrary: h x)
  case (Cons q st)
  obtain p k where q: "q = (p, k)" by fastforce
  with Cons.prems(1) have p: "p < h" "await_chain m p st c" by auto
  from Cons.IH [OF p(2), of p] p(1) have "c \<le> h" by simp
  with Cons.IH [OF p(2)] Cons.prems(2) q show ?case by auto
qed simp

lemma await_chain_snoc:
  "await_chain m h (st @ [(p, k)]) root \<longleftrightarrow> p = root \<and> (\<exists>c f fp. await_chain m h st c \<and> frames m c = Some f \<and>
     continuation_of f = Some p \<and> frames m p = Some fp \<and> point fp = AtAwait c k \<and> p < c)"
proof (induction st arbitrary: h)
  case Nil
  then show ?case by auto
next
  case (Cons q st)
  obtain a b where q: "q = (a, b)" by fastforce
  show ?case unfolding q append_Cons await_chain.simps Cons.IH by blast
qed

text \<open>The frames of a suspended chain go, from the outermost one to the leaf.\<close>

lemma destroy_chain:
  assumes "await_chain m h st root" and "dom (frames m) = insert h (fst ` set st)" and "length st < n"
    and "frames m h = Some f" and "\<And>t k. point f \<noteq> AtAwait t k"
  shows "frames (destroy_frames n root m) = Map.empty"
  using assms
proof (induction st arbitrary: m root n rule: rev_induct)
  case Nil
  then obtain n' where n: "n = Suc n'" by (cases n) auto
  have "frames m = [h \<mapsto> f]" using Nil.prems(2,4) by (auto simp: fun_eq_iff)
  moreover have "h = root" using Nil.prems(1) by simp
  ultimately show ?case by (cases "point f") (use Nil.prems(5) n in auto)
next
  case (snoc q st)
  obtain p k where q: "q = (p, k)" by fastforce
  from snoc.prems(1) obtain c fc fp where c: "p = root" "await_chain m h st c" "frames m root = Some fp"
    "point fp = AtAwait c k" "root < c" unfolding q await_chain_snoc by auto
  obtain n' where n: "n = Suc n'" "length st < n'" using snoc.prems(3) by (cases n) auto
  let ?m = "m\<lparr>frames := (frames m)(root := None)\<rparr>"
  have "c \<in> insert h (fst ` set st)" using await_chain_root [OF c(2)] .
  have ge: "c \<le> x" if "x \<in> insert h (fst ` set st)" for x
    using c(2) that by (rule await_chain_ge)
  then have nr: "root \<notin> insert h (fst ` set st)" using c(5) by (meson leD)
  have "await_chain ?m h st c" by (rule await_chain_cong [OF c(2)]) (use nr in auto)
  moreover have "dom (frames ?m) = insert h (fst ` set st)" using snoc.prems(2) nr c(1) q by auto
  moreover have "frames ?m h = Some f" using snoc.prems(4) nr by auto
  ultimately have "frames (destroy_frames n' c ?m) = Map.empty"
    using snoc.IH [of ?m c n'] n(2) snoc.prems(5) by blast
  then show ?case using n c by simp
qed

lemma config_destroy:
  assumes "config m h st root pt" and "\<And>t k. pt \<noteq> AtAwait t k"
  shows "frames (Task_destroy (Some root) m) = Map.empty"
proof -
  obtain f where f: "frames m h = Some f" "point f = pt" using config_frame [OF assms(1)] by blast
  have ch: "await_chain m h st root" "dom (frames m) = insert h (fst ` set st)" using assms(1) by (simp_all add: config_def)
  have "h < next_frame m" using assms(1) by (auto simp: config_def)
  with await_chain_length [OF ch(1)] have "length st < next_frame m" by simp
  from destroy_chain [OF ch this f(1)] f(2) assms(2) show ?thesis by (simp add: Task_destroy_def)
qed

section \<open>Generators\<close>

text \<open>A generator's body yields values one after the other, maybe for ever, then ends or throws.\<close>

codatatype ('v, 'x) gen_body = GenReturn | GenThrow 'x | GenYield 'v "('v, 'x) gen_body"

text \<open>A frame is suspended before a body or, \<open>None\<close>, at its final suspension point.\<close>

record ('v, 'x) GeneratorPromise =
  value_of :: 'v
  gen_eptr :: "'x option"
  gen_point :: "('v, 'x) gen_body option"

definition Generator_new :: "'v \<Rightarrow> ('v, 'x) gen_body \<Rightarrow> ('v, 'x) GeneratorPromise" where
  "Generator_new v0 b = \<lparr>value_of = v0, gen_eptr = None, gen_point = Some b\<rparr>"

definition Generator_resume :: "('v, 'x) GeneratorPromise \<Rightarrow> ('v, 'x) GeneratorPromise result" where
  "Generator_resume g = (case gen_point g of
     None \<Rightarrow> Inl Undefined
   | Some b \<Rightarrow> Inr (case b of
       GenReturn \<Rightarrow> g\<lparr>gen_point := None\<rparr>
     | GenThrow x \<Rightarrow> g\<lparr>gen_eptr := Some x, gen_point := None\<rparr>
     | GenYield v b' \<Rightarrow> g\<lparr>value_of := v, gen_point := Some b'\<rparr>))"

text \<open>Resuming and rethrowing a stored exception is what \<^verbatim>\<open>begin()\<close> and \<^verbatim>\<open>operator++\<close> do.\<close>

definition iterator_increment :: "('v, 'x) GeneratorPromise \<Rightarrow> ('x option \<times> ('v, 'x) GeneratorPromise) result" where
  "iterator_increment g = bindR (Generator_resume g) (\<lambda>g'. Inr (gen_eptr g', g'))"

text \<open>\<^verbatim>\<open>begin()\<close> of a generator that was moved from gives an iterator without a handle.\<close>

definition Generator_begin :: "('v, 'x) GeneratorPromise option \<Rightarrow> ('x option \<times> ('v, 'x) GeneratorPromise option) result" where
  "Generator_begin h = (case h of
     None \<Rightarrow> Inr (None, None)
   | Some g \<Rightarrow> bindR (iterator_increment g) (\<lambda>(x, g'). Inr (x, Some g')))"

definition iterator_neq_end :: "('v, 'x) GeneratorPromise option \<Rightarrow> bool result" where
  "iterator_neq_end h = (case h of None \<Rightarrow> Inl Undefined | Some g \<Rightarrow> Inr (gen_point g \<noteq> None))"

definition iterator_deref :: "('v, 'x) GeneratorPromise \<Rightarrow> 'v" where
  "iterator_deref g = value_of g"

text \<open>
  A range-based \<^verbatim>\<open>for\<close> whose body collects the values and breaks out of the loop after \<open>Suc n\<close> of them;
  how it ended is the second result.
\<close>

datatype 'x for_end = Finished | Raised 'x | Broken

fun for_loop :: "nat \<Rightarrow> ('v, 'x) GeneratorPromise option \<Rightarrow> ('v list \<times> 'x for_end) result" where
  "for_loop n h = bindR (iterator_neq_end h) (\<lambda>more. if \<not> more then Inr ([], Finished)
     else case h of None \<Rightarrow> Inl Undefined | Some g \<Rightarrow>
       (case n of 0 \<Rightarrow> Inr ([iterator_deref g], Broken)
        | Suc n' \<Rightarrow> bindR (iterator_increment g) (\<lambda>(x, g'). case x of
            Some x \<Rightarrow> Inr ([iterator_deref g], Raised x)
          | None \<Rightarrow> bindR (for_loop n' (Some g')) (\<lambda>(vs, e). Inr (iterator_deref g # vs, e)))))"

declare for_loop.simps [simp del]

definition range_for :: "nat \<Rightarrow> ('v, 'x) GeneratorPromise option \<Rightarrow> ('v list \<times> 'x for_end) result" where
  "range_for n h = bindR (Generator_begin h) (\<lambda>(x, it). case x of
     Some x \<Rightarrow> Inr ([], Raised x) | None \<Rightarrow> for_loop n it)"

fun gen_take :: "nat \<Rightarrow> ('v, 'x) gen_body \<Rightarrow> 'v list \<times> 'x for_end" where
  "gen_take n b = (case b of
     GenReturn \<Rightarrow> ([], Finished)
   | GenThrow x \<Rightarrow> ([], Raised x)
   | GenYield v b' \<Rightarrow> (case n of 0 \<Rightarrow> ([v], Broken)
      | Suc n' \<Rightarrow> (case gen_take n' b' of (vs, e) \<Rightarrow> (v # vs, e))))"

declare gen_take.simps [simp del]

lemma gen_take_simps [simp]:
  "gen_take n GenReturn = ([], Finished)" "gen_take n (GenThrow x) = ([], Raised x)"
  "gen_take 0 (GenYield v b) = ([v], Broken)"
  "gen_take (Suc n) (GenYield v b) = (case gen_take n b of (vs, e) \<Rightarrow> (v # vs, e))"
  by (simp_all add: gen_take.simps)

lemma for_loop_take:
  assumes "gen_eptr g = None" and "gen_point g = Some b"
  shows "for_loop n (Some g) = Inr (case n of 0 \<Rightarrow> ([value_of g], Broken)
     | Suc n' \<Rightarrow> (case gen_take n' b of (vs, e) \<Rightarrow> (value_of g # vs, e)))"
  using assms
proof (induction n arbitrary: g b)
  case 0
  then show ?case by (simp add: for_loop.simps iterator_neq_end_def iterator_deref_def)
next
  case (Suc n)
  show ?case
  proof (cases b)
    case (GenYield v b')
    let ?g = "g\<lparr>value_of := v, gen_point := Some b'\<rparr>"
    have "for_loop n (Some ?g) = Inr (case n of 0 \<Rightarrow> ([v], Broken)
       | Suc n' \<Rightarrow> (case gen_take n' b' of (vs, e) \<Rightarrow> (v # vs, e)))" using Suc.IH [of ?g b'] Suc.prems(1) by (cases n) simp_all
    then show ?thesis using Suc.prems GenYield
      by (cases n) (simp_all add: for_loop.simps [of "Suc _"] iterator_neq_end_def iterator_deref_def
          iterator_increment_def Generator_resume_def split: prod.split)
  qed (use Suc.prems in \<open>simp_all add: for_loop.simps [of "Suc n"] for_loop.simps [of n]
      iterator_neq_end_def iterator_deref_def iterator_increment_def Generator_resume_def split: nat.split\<close>)
qed

section \<open>Properties\<close>

text \<open>
  C13: tasks compose like function calls.  For every body and every list of answers to its requests, driving
  the machine of frames and symmetric transfers returns, without an error, and makes exactly the
  requests of the direct reading, in order, with its outcome: the value or the exception reaches the
  awaiting coroutine.  When the outermost coroutine has finished only its own frame is left, and
  destroying its task at any point leaves no frame, so that resuming any handle then is undefined.
\<close>

theorem Task_drive_direct:
  "\<exists>m. Task_drive nd 0 (fst (Task_create b no_coroutines)) (snd (Task_create b no_coroutines)) rs =
      Some (Inr (behaviour_run (direct b) rs, m)) \<and>
    (if snd (behaviour_run (direct b) rs) = None then \<exists>l r m'. coro_answer l r m = Inr m'
     else dom (frames m) = {0}) \<and>
    (\<forall>l r. coro_answer l r (Task_destroy (Some 0) m) = Inl Undefined)"
proof -
  obtain m where m: "Task_drive nd 0 0 (snd (Task_create b no_coroutines)) rs = Some (Inr (behaviour_run (direct b) rs, m))"
    "if snd (behaviour_run (direct b) rs) = None then \<exists>h st k. config m h st 0 (AtEvent k)
     else dom (frames m) = {0} \<and> (\<exists>f. frames m 0 = Some f \<and> point f = AtEnd) \<and> 0 < next_frame m"
    using drive_config [OF config_create, of nd b rs] by auto
  have "frames (Task_destroy (Some 0) m) = Map.empty"
  proof (cases "snd (behaviour_run (direct b) rs) = None")
    case True
    with m(2) show ?thesis using config_destroy by fastforce
  next
    case False
    with m(2) obtain f where f: "frames m = [0 \<mapsto> f]" "point f = AtEnd" "0 < next_frame m"
      by (auto simp: dom_eq_singleton_conv)
    with f show ?thesis by (cases "next_frame m") (simp_all add: Task_destroy_def)
  qed
  then have "\<forall>l r. coro_answer l r (Task_destroy (Some 0) m) = Inl Undefined" by (simp add: coro_answer_def)
  moreover have "\<exists>l r m'. coro_answer l r m = Inr m'" if "config m h st 0 (AtEvent k)" for h st k
    using config_answer [OF that] by blast
  ultimately show ?thesis using m by (auto simp: Task_create_def no_coroutines_def)
qed

text \<open>
  a range-based \<^verbatim>\<open>for\<close> over a generator sees exactly the values its body yields, in order: all of them
  until the body returns or throws, when the loop ends or the exception leaves it, or as many as the
  loop takes before it breaks; so it also works on a body that never ends.  Over a generator that
  was moved from it is undefined.
\<close>

theorem Generator_range_for:
  "range_for n (Some (Generator_new v0 b)) = Inr (gen_take n b) \<and>
   range_for n (None :: ('v, 'x) GeneratorPromise option) = Inl Undefined"
proof -
  have "range_for n (Some (Generator_new v0 b)) = Inr (gen_take n b)"
  proof (cases b)
    case (GenYield v b')
    then show ?thesis using for_loop_take [of "(Generator_new v0 b)\<lparr>value_of := v, gen_point := Some b'\<rparr>" b' n]
      by (cases n) (simp_all add: range_for_def Generator_begin_def iterator_increment_def Generator_resume_def Generator_new_def)
  qed (simp_all add: range_for_def Generator_begin_def iterator_increment_def Generator_resume_def Generator_new_def
      for_loop.simps [of n] iterator_neq_end_def)
  then show ?thesis by (simp add: range_for_def Generator_begin_def for_loop.simps [of n] iterator_neq_end_def)
qed

text \<open>
  \<^verbatim>\<open>syncWait\<close> gives the outcome of a task that never suspends; on one that makes a request it takes the
  result before there is one.
\<close>

lemma Task_syncWait_direct:
  "\<exists>m. Task_syncWait nd (Some 0) (snd (Task_create b no_coroutines)) = Some (case direct b of
     Done r \<Rightarrow> Inr (r, m) | Ask e g \<Rightarrow> Inl (if nd then Undefined else AssertFailed))"
proof -
  let ?m = "snd (Task_create b no_coroutines)"
  have d: "handle_done 0 ?m = Inr False"
    by (simp add: handle_done_def Task_create_def no_coroutines_def set_frame_def TaskPromise_new_def)
  show ?thesis
  proof (cases "direct b")
    case (Done r)
    with config_run [OF config_create [of b], of nd] d show ?thesis by (auto simp: Task_syncWait_def)
  next
    case (Ask e g)
    with config_run [OF config_create [of b], of nd] obtain m1 h st k where
      m1: "coro_run nd 0 ?m = Some (Inr (Some (h, e), m1))" "config m1 h st 0 (AtEvent k)" by auto
    obtain f where "frames m1 0 = Some f" "eptr f = None" "result_val f = None"
      using m1(2) by (auto simp: config_def ran_def)
    with m1(1) d Ask show ?thesis by (simp add: Task_syncWait_def TaskPromise_get_result_def)
  qed
qed

end
