(* ===== verification/CoroChannel.thy ===== *)
theory CoroChannel
  imports TimerQueue TcpConnection
begin

text \<open>
  Coroutines on the event loop: \<^verbatim>\<open>coro/CoroScheduler.h\<close>, \<^verbatim>\<open>coro/CoroScheduler.cpp\<close>, \<^verbatim>\<open>coro/CoroEventLoop.h\<close>,
  \<^verbatim>\<open>coro/CoroEventLoop.cpp\<close>, \<^verbatim>\<open>coro/CoroChannel.h\<close>, \<^verbatim>\<open>coro/CoroChannel.cpp\<close>, \<^verbatim>\<open>coro/Awaitables.h\<close>,
  \<^verbatim>\<open>coro/Awaitables.cpp\<close>.

  \<^item> The state is the loop's, extended by the scheduler's queue and by the stores of the coroutine
    channels and of the awaiter objects, which live in coroutine frames.
  \<^item> A coroutine handle is a number; whether it is done and what resuming it does are the parameters
    \<open>dn\<close> and \<open>rs\<close>.  The callbacks of a coroutine channel have names of type \<open>'w\<close>; running one is the
    parameter \<open>U\<close>.
  \<^item> The address of a new \<^verbatim>\<open>Channel\<close> and the result of each \<^verbatim>\<open>read\<close> and \<^verbatim>\<open>write\<close> are arguments.
\<close>

section \<open>State\<close>

datatype coro_closure =
    CC_handleRead nat | CC_handleWrite nat | CC_handleClose nat
  | AR_onReadable nat | AW_onWritable nat | ResumeHandle nat | CT_handleRead

record 'w CoroChannel =
  cc_fd :: int
  cc_readCallback :: "'w option"
  cc_writeCallback :: "'w option"
  cc_closeCallback :: "'w option"
  cc_reading :: bool
  cc_writing :: bool
  cc_attached :: bool
  readWaiter :: "nat option"
  writeWaiter :: "nat option"
  cc_channel :: "nat option"

text \<open>\<^verbatim>\<open>AsyncRead\<close> and \<^verbatim>\<open>AsyncWrite\<close>; \<open>as_done\<close> is \<^verbatim>\<open>bytesRead_\<close> or \<^verbatim>\<open>bytesWritten_\<close>.\<close>

record AsyncOp =
  as_fd :: int
  as_count :: nat
  as_done :: int
  as_handle :: "nat option"
  as_channel :: "nat option"

record ('k, 'w) CoroLoop = "('k, coro_closure) EventLoop" +
  t_coroEventLoop :: bool
  coroScheduler :: bool
  schedulerAlive :: bool
  pendingCoroutines :: "nat option list"
  cchans :: "nat \<rightharpoonup> 'w CoroChannel"
  asyncs :: "nat \<rightharpoonup> AsyncOp"
  sleepers :: "(rat \<times> coro_closure) list"

text \<open>A \<^verbatim>\<open>read\<close> returns bytes, none at the end of the stream, or fails.\<close>

datatype read_result = ReadBytes "byte list" | ReadError errno

definition read_count :: "read_result \<Rightarrow> int" where
  "read_count r = (case r of ReadBytes bs \<Rightarrow> int (length bs) | ReadError e \<Rightarrow> -1)"

definition write_count :: "write_result \<Rightarrow> int" where
  "write_count w = (case w of Wrote n \<Rightarrow> int n | WriteError e \<Rightarrow> -1)"

section \<open>Scheduler and loop\<close>

definition CoroScheduler_scheduleResume :: "nat option \<Rightarrow> ('k, 'w, 'z) CoroLoop_scheme \<Rightarrow> ('k, 'w, 'z) CoroLoop_scheme" where
  "CoroScheduler_scheduleResume h s = s\<lparr>pendingCoroutines := pendingCoroutines s @ [h]\<rparr>"

text \<open>One pass of the loop of \<^verbatim>\<open>processPendingResumes\<close>, the queue not being empty.\<close>

definition CoroScheduler_resumeFront ::
  "(nat \<Rightarrow> ('k, 'w, 'z) CoroLoop_scheme \<Rightarrow> bool result) \<Rightarrow>
   (nat \<Rightarrow> ('k, 'w, 'z) CoroLoop_scheme \<Rightarrow> ('k, 'w, 'z) CoroLoop_scheme result) \<Rightarrow>
   ('k, 'w, 'z) CoroLoop_scheme \<Rightarrow> ('k, 'w, 'z) CoroLoop_scheme result" where
  "CoroScheduler_resumeFront dn rs s = (let s1 = s\<lparr>pendingCoroutines := tl (pendingCoroutines s)\<rparr> in
     case hd (pendingCoroutines s) of
       None \<Rightarrow> Inr s1
     | Some h \<Rightarrow> bindR (dn h s1) (\<lambda>d. if \<not> d then rs h s1 else Inr s1))"

partial_function (option) CoroScheduler_processPendingResumes ::
  "(nat \<Rightarrow> ('k, 'w, 'z) CoroLoop_scheme \<Rightarrow> bool result) \<Rightarrow>
   (nat \<Rightarrow> ('k, 'w, 'z) CoroLoop_scheme \<Rightarrow> ('k, 'w, 'z) CoroLoop_scheme result) \<Rightarrow>
   ('k, 'w, 'z) CoroLoop_scheme \<Rightarrow> ('k, 'w, 'z) CoroLoop_scheme result option" where
  "CoroScheduler_processPendingResumes dn rs s =
     (if pendingCoroutines s = [] then Some (Inr s)
      else case CoroScheduler_resumeFront dn rs s of
        Inl e \<Rightarrow> Some (Inl e)
      | Inr s1 \<Rightarrow> CoroScheduler_processPendingResumes dn rs s1)"

text \<open>
  The constructor makes the scheduler and a timer queue of its own, on descriptor \<open>tfd\<close> with its channel at
  \<open>tc\<close> and without timers; then it becomes the thread's loop and installs the scheduler in the event loop.
  The destructor ends all but the event loop's pointer to the scheduler.
\<close>

definition CoroEventLoop_new :: "('k, 'e) env_scheme \<Rightarrow> nat \<Rightarrow> int \<Rightarrow> ('k, 'w, 'z) CoroLoop_scheme \<Rightarrow>
    ('k, 'w, 'z) CoroLoop_scheme result" where
  "CoroEventLoop_new E tc tfd s =
     bindR (TimerQueue_new E tc tfd CT_handleRead (s\<lparr>schedulerAlive := True, pendingCoroutines := []\<rparr>)) (\<lambda>s1.
       cassert E (\<not> t_coroEventLoop s1) (Inr (s1\<lparr>t_coroEventLoop := True, coroScheduler := True\<rparr>)))"

definition CoroEventLoop_destroy :: "('k, 'e) env_scheme \<Rightarrow> nat \<Rightarrow> ('k, 'w, 'z) CoroLoop_scheme \<Rightarrow>
    ('k, 'w, 'z) CoroLoop_scheme result" where
  "CoroEventLoop_destroy E tc s =
     bindR (TimerQueue_destroy E tc (s\<lparr>t_coroEventLoop := False\<rparr>)) (\<lambda>s1.
       bindR (Channel_destroy E tc s1) (\<lambda>s2. Inr (s2\<lparr>schedulerAlive := False\<rparr>)))"

definition CoroEventLoop_scheduleResume :: "nat option \<Rightarrow> ('k, 'w, 'z) CoroLoop_scheme \<Rightarrow>
    ('k, 'w, 'z) CoroLoop_scheme result" where
  "CoroEventLoop_scheduleResume h s =
     (if schedulerAlive s then Inr (CoroScheduler_scheduleResume h s) else Inl Undefined)"

definition CoroEventLoop_postTask :: "nat option \<Rightarrow> ('k, 'w, 'z) CoroLoop_scheme \<Rightarrow> ('k, 'w, 'z) CoroLoop_scheme result" where
  "CoroEventLoop_postTask h s = CoroEventLoop_scheduleResume h s"

definition CoroEventLoop_runInLoop ::
  "(coro_closure \<Rightarrow> ('k, 'w, 'z) CoroLoop_scheme \<Rightarrow> ('k, 'w, 'z) CoroLoop_scheme result) \<Rightarrow> ('k, 'e) env_scheme \<Rightarrow>
   coro_closure \<Rightarrow> ('k, 'w, 'z) CoroLoop_scheme \<Rightarrow> ('k, 'w, 'z) CoroLoop_scheme result" where
  "CoroEventLoop_runInLoop run E f s = EventLoop_runInLoop run E f s"

definition CoroEventLoop_queueInLoop :: "('k, 'e) env_scheme \<Rightarrow> coro_closure \<Rightarrow>
    ('k, 'w, 'z) CoroLoop_scheme \<Rightarrow> ('k, 'w, 'z) CoroLoop_scheme" where
  "CoroEventLoop_queueInLoop E f s = EventLoop_queueInLoop E f s"

definition CoroEventLoop_quit :: "('k, 'e) env_scheme \<Rightarrow> ('k, 'w, 'z) CoroLoop_scheme \<Rightarrow> ('k, 'w, 'z) CoroLoop_scheme" where
  "CoroEventLoop_quit E s = EventLoop_quit E s"

text \<open>What the event loop does between the channel handlers and the pending functors.\<close>

definition EventLoop_processResumes ::
  "(nat \<Rightarrow> ('k, 'w, 'z) CoroLoop_scheme \<Rightarrow> bool result) \<Rightarrow>
   (nat \<Rightarrow> ('k, 'w, 'z) CoroLoop_scheme \<Rightarrow> ('k, 'w, 'z) CoroLoop_scheme result) \<Rightarrow>
   ('k, 'w, 'z) CoroLoop_scheme \<Rightarrow> ('k, 'w, 'z) CoroLoop_scheme result option" where
  "EventLoop_processResumes dn rs s =
     (if coroScheduler s
      then if schedulerAlive s then CoroScheduler_processPendingResumes dn rs s else Some (Inl Undefined)
      else Some (Inr s))"

section \<open>Coroutine channels\<close>

definition CoroChannel_new :: "int \<Rightarrow> 'w CoroChannel" where
  "CoroChannel_new f = \<lparr>cc_fd = f, cc_readCallback = None, cc_writeCallback = None, cc_closeCallback = None,
     cc_reading = False, cc_writing = False, cc_attached = False, readWaiter = None, writeWaiter = None,
     cc_channel = None\<rparr>"

definition set_cchan :: "nat \<Rightarrow> 'w CoroChannel \<Rightarrow> ('k, 'w, 'z) CoroLoop_scheme \<Rightarrow> ('k, 'w, 'z) CoroLoop_scheme" where
  "set_cchan c cc s = s\<lparr>cchans := (cchans s)(c \<mapsto> cc)\<rparr>"

text \<open>The first use creates the channel, at address \<open>a\<close>, with the three callbacks.\<close>

definition CoroChannel_attach :: "nat \<Rightarrow> nat \<Rightarrow> 'w CoroChannel \<Rightarrow> ('k, 'w, 'z) CoroLoop_scheme \<Rightarrow>
    'w CoroChannel \<times> ('k, 'w, 'z) CoroLoop_scheme" where
  "CoroChannel_attach a c cc s =
     (if \<not> cc_attached cc
      then (cc\<lparr>cc_channel := Some a, cc_attached := True\<rparr>,
            set_chan a ((Channel_new (cc_fd cc))\<lparr>readCallback := Some (CC_handleRead c),
              writeCallback := Some (CC_handleWrite c), closeCallback := Some (CC_handleClose c)\<rparr>) s)
      else (cc, s))"

text \<open>An operation on the owned channel: a null pointer is undefined.\<close>

definition with_channel :: "'w CoroChannel \<Rightarrow> (nat \<Rightarrow> 's result) \<Rightarrow> 's result" where
  "with_channel cc f = (case cc_channel cc of None \<Rightarrow> Inl Undefined | Some a \<Rightarrow> f a)"

definition CoroChannel_enableReading :: "('k, 'e) env_scheme \<Rightarrow> nat \<Rightarrow> nat \<Rightarrow> ('k, 'w, 'z) CoroLoop_scheme \<Rightarrow>
    ('k, 'w, 'z) CoroLoop_scheme result" where
  "CoroChannel_enableReading E a c s = bindR (derefR (cchans s) c) (\<lambda>cc.
     case CoroChannel_attach a c cc s of (cc1, s1) \<Rightarrow>
       with_channel cc1 (\<lambda>p. Channel_enableReading E p (set_cchan c (cc1\<lparr>cc_reading := True\<rparr>) s1)))"

definition CoroChannel_disableReading :: "('k, 'e) env_scheme \<Rightarrow> nat \<Rightarrow> ('k, 'w, 'z) CoroLoop_scheme \<Rightarrow>
    ('k, 'w, 'z) CoroLoop_scheme result" where
  "CoroChannel_disableReading E c s = bindR (derefR (cchans s) c) (\<lambda>cc.
     let s1 = set_cchan c (cc\<lparr>cc_reading := False\<rparr>) s in
     case cc_channel cc of None \<Rightarrow> Inr s1 | Some p \<Rightarrow> Channel_disableReading E p s1)"

definition CoroChannel_enableWriting :: "('k, 'e) env_scheme \<Rightarrow> nat \<Rightarrow> nat \<Rightarrow> ('k, 'w, 'z) CoroLoop_scheme \<Rightarrow>
    ('k, 'w, 'z) CoroLoop_scheme result" where
  "CoroChannel_enableWriting E a c s = bindR (derefR (cchans s) c) (\<lambda>cc.
     case CoroChannel_attach a c cc s of (cc1, s1) \<Rightarrow>
       with_channel cc1 (\<lambda>p. Channel_enableWriting E p (set_cchan c (cc1\<lparr>cc_writing := True\<rparr>) s1)))"

definition CoroChannel_disableWriting :: "('k, 'e) env_scheme \<Rightarrow> nat \<Rightarrow> ('k, 'w, 'z) CoroLoop_scheme \<Rightarrow>
    ('k, 'w, 'z) CoroLoop_scheme result" where
  "CoroChannel_disableWriting E c s = bindR (derefR (cchans s) c) (\<lambda>cc.
     let s1 = set_cchan c (cc\<lparr>cc_writing := False\<rparr>) s in
     case cc_channel cc of None \<Rightarrow> Inr s1 | Some p \<Rightarrow> Channel_disableWriting E p s1)"

definition CoroChannel_disableAll :: "('k, 'e) env_scheme \<Rightarrow> nat \<Rightarrow> ('k, 'w, 'z) CoroLoop_scheme \<Rightarrow>
    ('k, 'w, 'z) CoroLoop_scheme result" where
  "CoroChannel_disableAll E c s = bindR (derefR (cchans s) c) (\<lambda>cc.
     let s1 = set_cchan c (cc\<lparr>cc_reading := False, cc_writing := False\<rparr>) s in
     case cc_channel cc of None \<Rightarrow> Inr s1 | Some p \<Rightarrow> Channel_disableAll E p s1)"

definition CoroChannel_remove :: "('k, 'e) env_scheme \<Rightarrow> nat \<Rightarrow> ('k, 'w, 'z) CoroLoop_scheme \<Rightarrow>
    ('k, 'w, 'z) CoroLoop_scheme result" where
  "CoroChannel_remove E c s = bindR (CoroChannel_disableAll E c s) (\<lambda>s1.
     bindR (derefR (cchans s1) c) (\<lambda>cc. case cc_channel cc of
       None \<Rightarrow> Inr s1
     | Some p \<Rightarrow> bindR (Channel_remove E p s1) (\<lambda>s2. bindR (Channel_destroy E p s2) (\<lambda>s3.
         Inr (set_cchan c (cc\<lparr>cc_channel := None, cc_attached := False\<rparr>) s3)))))"

definition CoroChannel_destroy :: "('k, 'e) env_scheme \<Rightarrow> nat \<Rightarrow> ('k, 'w, 'z) CoroLoop_scheme \<Rightarrow>
    ('k, 'w, 'z) CoroLoop_scheme result" where
  "CoroChannel_destroy E c s = bindR (CoroChannel_remove E c s) (\<lambda>s1. Inr (s1\<lparr>cchans := (cchans s1)(c := None)\<rparr>))"

definition CoroChannel_waitReadable :: "('k, 'e) env_scheme \<Rightarrow> nat \<Rightarrow> nat option \<Rightarrow> nat \<Rightarrow> ('k, 'w, 'z) CoroLoop_scheme \<Rightarrow>
    ('k, 'w, 'z) CoroLoop_scheme result" where
  "CoroChannel_waitReadable E a h c s = bindR (derefR (cchans s) c) (\<lambda>cc.
     CoroChannel_enableReading E a c (set_cchan c (cc\<lparr>readWaiter := h\<rparr>) s))"

definition CoroChannel_waitWritable :: "('k, 'e) env_scheme \<Rightarrow> nat \<Rightarrow> nat option \<Rightarrow> nat \<Rightarrow> ('k, 'w, 'z) CoroLoop_scheme \<Rightarrow>
    ('k, 'w, 'z) CoroLoop_scheme result" where
  "CoroChannel_waitWritable E a h c s = bindR (derefR (cchans s) c) (\<lambda>cc.
     CoroChannel_enableWriting E a c (set_cchan c (cc\<lparr>writeWaiter := h\<rparr>) s))"

definition CoroChannel_handleRead ::
  "('w \<Rightarrow> ('k, 'w, 'z) CoroLoop_scheme \<Rightarrow> ('k, 'w, 'z) CoroLoop_scheme result) \<Rightarrow> ('k, 'e) env_scheme \<Rightarrow> nat \<Rightarrow>
   ('k, 'w, 'z) CoroLoop_scheme \<Rightarrow> ('k, 'w, 'z) CoroLoop_scheme result" where
  "CoroChannel_handleRead U E c s = bindR (derefR (cchans s) c) (\<lambda>cc. case readWaiter cc of
     Some h \<Rightarrow> bindR (CoroChannel_disableReading E c (set_cchan c (cc\<lparr>readWaiter := None\<rparr>) s))
                 (CoroEventLoop_scheduleResume (Some h))
   | None \<Rightarrow> (case cc_readCallback cc of None \<Rightarrow> Inr s | Some w \<Rightarrow> U w s))"

definition CoroChannel_handleWrite ::
  "('w \<Rightarrow> ('k, 'w, 'z) CoroLoop_scheme \<Rightarrow> ('k, 'w, 'z) CoroLoop_scheme result) \<Rightarrow> ('k, 'e) env_scheme \<Rightarrow> nat \<Rightarrow>
   ('k, 'w, 'z) CoroLoop_scheme \<Rightarrow> ('k, 'w, 'z) CoroLoop_scheme result" where
  "CoroChannel_handleWrite U E c s = bindR (derefR (cchans s) c) (\<lambda>cc. case writeWaiter cc of
     Some h \<Rightarrow> bindR (CoroChannel_disableWriting E c (set_cchan c (cc\<lparr>writeWaiter := None\<rparr>) s))
                 (CoroEventLoop_scheduleResume (Some h))
   | None \<Rightarrow> (case cc_writeCallback cc of None \<Rightarrow> Inr s | Some w \<Rightarrow> U w s))"

definition CoroChannel_handleClose ::
  "('w \<Rightarrow> ('k, 'w, 'z) CoroLoop_scheme \<Rightarrow> ('k, 'w, 'z) CoroLoop_scheme result) \<Rightarrow> nat \<Rightarrow>
   ('k, 'w, 'z) CoroLoop_scheme \<Rightarrow> ('k, 'w, 'z) CoroLoop_scheme result" where
  "CoroChannel_handleClose U c s = bindR (derefR (cchans s) c) (\<lambda>cc.
     bindR (case readWaiter cc of
              Some h \<Rightarrow> CoroEventLoop_scheduleResume (Some h) (set_cchan c (cc\<lparr>readWaiter := None\<rparr>) s)
            | None \<Rightarrow> Inr s)
       (\<lambda>s1. case cc_closeCallback cc of None \<Rightarrow> Inr s1 | Some w \<Rightarrow> U w s1))"

section \<open>Leaf awaiters\<close>

definition AsyncOp_new :: "int \<Rightarrow> nat \<Rightarrow> AsyncOp" where
  "AsyncOp_new f n = \<lparr>as_fd = f, as_count = n, as_done = 0, as_handle = None, as_channel = None\<rparr>"

definition set_async :: "nat \<Rightarrow> AsyncOp \<Rightarrow> ('k, 'w, 'z) CoroLoop_scheme \<Rightarrow> ('k, 'w, 'z) CoroLoop_scheme" where
  "set_async x ao s = s\<lparr>asyncs := (asyncs s)(x \<mapsto> ao)\<rparr>"

text \<open>\<^verbatim>\<open>CoroEventLoop::current()\<close> of a thread without a coroutine loop is null.\<close>

definition AsyncRead_await_suspend :: "('k, 'e) env_scheme \<Rightarrow> nat \<Rightarrow> nat \<Rightarrow> nat \<Rightarrow> ('k, 'w, 'z) CoroLoop_scheme \<Rightarrow>
    ('k, 'w, 'z) CoroLoop_scheme result" where
  "AsyncRead_await_suspend E a h x s = bindR (derefR (asyncs s) x) (\<lambda>ao.
     if \<not> t_coroEventLoop s then Inl Undefined
     else Channel_enableReading E a
       (set_chan a ((Channel_new (as_fd ao))\<lparr>readCallback := Some (AR_onReadable x)\<rparr>)
         (set_async x (ao\<lparr>as_handle := Some h, as_channel := Some a\<rparr>) s)))"

definition AsyncWrite_await_suspend :: "('k, 'e) env_scheme \<Rightarrow> nat \<Rightarrow> nat \<Rightarrow> nat \<Rightarrow> ('k, 'w, 'z) CoroLoop_scheme \<Rightarrow>
    ('k, 'w, 'z) CoroLoop_scheme result" where
  "AsyncWrite_await_suspend E a h x s = bindR (derefR (asyncs s) x) (\<lambda>ao.
     if \<not> t_coroEventLoop s then Inl Undefined
     else Channel_enableWriting E a
       (set_chan a ((Channel_new (as_fd ao))\<lparr>writeCallback := Some (AW_onWritable x)\<rparr>)
         (set_async x (ao\<lparr>as_handle := Some h, as_channel := Some a\<rparr>) s)))"

text \<open>What the two callbacks share: record the count, or return on \<^verbatim>\<open>EAGAIN\<close>; unregister; resume.\<close>

definition Async_complete ::
  "(nat \<Rightarrow> ('k, 'w, 'z) CoroLoop_scheme \<Rightarrow> ('k, 'w, 'z) CoroLoop_scheme result) \<Rightarrow> ('k, 'e) env_scheme \<Rightarrow>
   int \<Rightarrow> bool \<Rightarrow> nat \<Rightarrow> ('k, 'w, 'z) CoroLoop_scheme \<Rightarrow> ('k, 'w, 'z) CoroLoop_scheme result" where
  "Async_complete rs E n again x s = bindR (derefR (asyncs s) x) (\<lambda>ao.
     let s1 = set_async x (ao\<lparr>as_done := n\<rparr>) s in
     if again then Inr s1
     else case (as_channel ao, as_handle ao) of
       (Some a, Some h) \<Rightarrow> bindR (Channel_disableAll E a s1) (\<lambda>s2. bindR (Channel_remove E a s2) (rs h))
     | _ \<Rightarrow> Inl Undefined)"

definition AsyncRead_onReadable ::
  "(nat \<Rightarrow> ('k, 'w, 'z) CoroLoop_scheme \<Rightarrow> ('k, 'w, 'z) CoroLoop_scheme result) \<Rightarrow> ('k, 'e) env_scheme \<Rightarrow>
   read_result \<Rightarrow> nat \<Rightarrow> ('k, 'w, 'z) CoroLoop_scheme \<Rightarrow> ('k, 'w, 'z) CoroLoop_scheme result" where
  "AsyncRead_onReadable rs E r x s = Async_complete rs E (read_count r) (r = ReadError EWOULDBLOCK) x s"

definition AsyncWrite_onWritable ::
  "(nat \<Rightarrow> ('k, 'w, 'z) CoroLoop_scheme \<Rightarrow> ('k, 'w, 'z) CoroLoop_scheme result) \<Rightarrow> ('k, 'e) env_scheme \<Rightarrow>
   write_result \<Rightarrow> nat \<Rightarrow> ('k, 'w, 'z) CoroLoop_scheme \<Rightarrow> ('k, 'w, 'z) CoroLoop_scheme result" where
  "AsyncWrite_onWritable rs E w x s = Async_complete rs E (write_count w) (w = WriteError EWOULDBLOCK) x s"

definition Async_await_resume :: "nat \<Rightarrow> ('k, 'w, 'z) CoroLoop_scheme \<Rightarrow> int result" where
  "Async_await_resume x s = bindR (derefR (asyncs s) x) (\<lambda>ao. Inr (as_done ao))"

text \<open>The end of the awaiter's life, when the expression that awaits it has been evaluated.\<close>

definition Async_destroy :: "('k, 'e) env_scheme \<Rightarrow> nat \<Rightarrow> ('k, 'w, 'z) CoroLoop_scheme \<Rightarrow>
    ('k, 'w, 'z) CoroLoop_scheme result" where
  "Async_destroy E x s = bindR (derefR (asyncs s) x) (\<lambda>ao.
     bindR (case as_channel ao of None \<Rightarrow> Inr s | Some a \<Rightarrow> Channel_destroy E a s)
       (\<lambda>s1. Inr (s1\<lparr>asyncs := (asyncs s1)(x := None)\<rparr>)))"

text \<open>\<^verbatim>\<open>AsyncSleep\<close> hands the resumption to the loop's timers: the request is recorded.\<close>

definition AsyncSleep_await_suspend :: "rat \<Rightarrow> nat \<Rightarrow> ('k, 'w, 'z) CoroLoop_scheme \<Rightarrow> ('k, 'w, 'z) CoroLoop_scheme result" where
  "AsyncSleep_await_suspend seconds h s =
     (if \<not> t_coroEventLoop s then Inl Undefined
      else Inr (s\<lparr>sleepers := sleepers s @ [(seconds, ResumeHandle h)]\<rparr>))"

section \<open>Dispatch\<close>

text \<open>The callbacks of the channels; \<open>r\<close> and \<open>w\<close> are what a \<^verbatim>\<open>read\<close> or \<^verbatim>\<open>write\<close> made by them returns.\<close>

definition Coro_call ::
  "('w \<Rightarrow> ('k, 'w, 'z) CoroLoop_scheme \<Rightarrow> ('k, 'w, 'z) CoroLoop_scheme result) \<Rightarrow>
   (nat \<Rightarrow> ('k, 'w, 'z) CoroLoop_scheme \<Rightarrow> ('k, 'w, 'z) CoroLoop_scheme result) \<Rightarrow> ('k, 'e) env_scheme \<Rightarrow>
   read_result \<Rightarrow> write_result \<Rightarrow> coro_closure \<Rightarrow> Timestamp \<Rightarrow>
   ('k, 'w, 'z) CoroLoop_scheme \<Rightarrow> ('k, 'w, 'z) CoroLoop_scheme result" where
  "Coro_call U rs E r w f t s = (case f of
     CC_handleRead c \<Rightarrow> CoroChannel_handleRead U E c s
   | CC_handleWrite c \<Rightarrow> CoroChannel_handleWrite U E c s
   | CC_handleClose c \<Rightarrow> CoroChannel_handleClose U c s
   | AR_onReadable x \<Rightarrow> AsyncRead_onReadable rs E r x s
   | AW_onWritable x \<Rightarrow> AsyncWrite_onWritable rs E w x s
   | ResumeHandle h \<Rightarrow> rs h s
   | CT_handleRead \<Rightarrow> Inr s)"

section \<open>The scheduler\<close>

lemma processResumes_Nil [simp]:
  "pendingCoroutines s = [] \<Longrightarrow> CoroScheduler_processPendingResumes dn rs s = Some (Inr s)"
  by (simp add: CoroScheduler_processPendingResumes.simps)

lemma processResumes_step:
  "pendingCoroutines s \<noteq> [] \<Longrightarrow> CoroScheduler_resumeFront dn rs s = Inr t \<Longrightarrow>
   CoroScheduler_processPendingResumes dn rs s = CoroScheduler_processPendingResumes dn rs t"
  by (subst CoroScheduler_processPendingResumes.simps) simp

text \<open>
  What the scheduler promises, over the handles themselves: each entry of the trace is a handle taken off the queue,
  whether it was resumed, and what its coroutine scheduled meanwhile.  A null handle and one whose coroutine is done are
  only taken off.
\<close>

inductive resume_run ::
  "(nat \<Rightarrow> ('k, 'w, 'z) CoroLoop_scheme \<Rightarrow> bool result) \<Rightarrow>
   (nat \<Rightarrow> ('k, 'w, 'z) CoroLoop_scheme \<Rightarrow> ('k, 'w, 'z) CoroLoop_scheme result) \<Rightarrow>
   ('k, 'w, 'z) CoroLoop_scheme \<Rightarrow> (nat option \<times> bool \<times> nat option list) list \<Rightarrow> ('k, 'w, 'z) CoroLoop_scheme \<Rightarrow> bool"
  for dn rs where
  stop: "resume_run dn rs s [] s"
| null: "resume_run dn rs (s\<lparr>pendingCoroutines := tl (pendingCoroutines s)\<rparr>) tr t \<Longrightarrow>
    resume_run dn rs s ((None, False, []) # tr) t"
| finished: "dn h (s\<lparr>pendingCoroutines := tl (pendingCoroutines s)\<rparr>) = Inr True \<Longrightarrow>
    resume_run dn rs (s\<lparr>pendingCoroutines := tl (pendingCoroutines s)\<rparr>) tr t \<Longrightarrow>
    resume_run dn rs s ((Some h, False, []) # tr) t"
| resumed: "dn h (s\<lparr>pendingCoroutines := tl (pendingCoroutines s)\<rparr>) = Inr False \<Longrightarrow>
    rs h (s\<lparr>pendingCoroutines := tl (pendingCoroutines s)\<rparr>) = Inr u \<Longrightarrow>
    pendingCoroutines u = tl (pendingCoroutines s) @ new \<Longrightarrow> resume_run dn rs u tr t \<Longrightarrow>
    resume_run dn rs s ((Some h, True, new) # tr) t"

text \<open>Resumptions only schedule further handles, and a weight that each of them brings down says that this does not go on for ever.\<close>

definition resumes_settle ::
  "(nat \<Rightarrow> ('k, 'w, 'z) CoroLoop_scheme \<Rightarrow> bool result) \<Rightarrow>
   (nat \<Rightarrow> ('k, 'w, 'z) CoroLoop_scheme \<Rightarrow> ('k, 'w, 'z) CoroLoop_scheme result) \<Rightarrow> (nat option \<Rightarrow> nat) \<Rightarrow> bool" where
  "resumes_settle dn rs weight \<longleftrightarrow> (\<forall>h s. \<exists>d. dn h s = Inr d \<and> (\<not> d \<longrightarrow>
     (\<exists>t new. rs h s = Inr t \<and> pendingCoroutines t = pendingCoroutines s @ new \<and> sum_list (map weight new) < weight (Some h))))"

lemma process_order:
  fixes s :: "('k, 'w, 'z) CoroLoop_scheme"
  assumes st: "resumes_settle dn rs weight"
  shows "\<exists>tr t. resume_run dn rs s tr t \<and> map fst tr = pendingCoroutines s @ concat (map (snd \<circ> snd) tr) \<and>
    CoroScheduler_processPendingResumes dn rs s = Some (Inr t) \<and> pendingCoroutines t = []"
proof (induction s rule: wf_induct_rule [OF wf_measures [of "[\<lambda>s. sum_list (map weight (pendingCoroutines s)),
    \<lambda>s. length (pendingCoroutines s)]"]])
  case (1 s)
  show ?case
  proof (cases "pendingCoroutines s")
    case Nil
    then show ?thesis by (intro exI [of _ "[]"] exI [of _ s]) (simp add: resume_run.stop)
  next
    case (Cons h hs)
    let ?s = "s\<lparr>pendingCoroutines := tl (pendingCoroutines s)\<rparr>"
    have go: ?thesis if e: "CoroScheduler_resumeFront dn rs s = Inr u" and n: "pendingCoroutines u = hs @ new"
      and w: "sum_list (map weight new) < weight h \<or> new = []"
      and run: "\<And>tr t. resume_run dn rs u tr t \<Longrightarrow> resume_run dn rs s ((h, b, new) # tr) t" for u new b
    proof -
      have "(u, s) \<in> measures [\<lambda>s. sum_list (map weight (pendingCoroutines s)), \<lambda>s. length (pendingCoroutines s)]"
        using n w Cons by auto
      from "1.IH" [OF this] obtain tr t where t: "resume_run dn rs u tr t"
        "map fst tr = pendingCoroutines u @ concat (map (snd \<circ> snd) tr)"
        "CoroScheduler_processPendingResumes dn rs u = Some (Inr t)" "pendingCoroutines t = []" by blast
      with run [OF t(1)] processResumes_step [OF _ e] n Cons show ?thesis
        by (intro exI [of _ "(h, b, new) # tr"] exI [of _ t]) (simp add: comp_def)
    qed
    show ?thesis
    proof (cases h)
      case None
      show ?thesis
        by (rule go [of ?s "[]" False]) (use Cons None in \<open>simp_all add: CoroScheduler_resumeFront_def resume_run.null\<close>)
    next
      case (Some x)
      from st obtain d where d: "dn x ?s = Inr d" "\<not> d \<longrightarrow> (\<exists>t new. rs x ?s = Inr t \<and>
        pendingCoroutines t = pendingCoroutines ?s @ new \<and> sum_list (map weight new) < weight (Some x))"
        unfolding resumes_settle_def by blast
      show ?thesis
      proof (cases d)
        case True
        show ?thesis
          by (rule go [of ?s "[]" False])
            (use Cons Some d(1) True in \<open>simp_all add: CoroScheduler_resumeFront_def resume_run.finished\<close>)
      next
        case False
        with d obtain u new where u: "rs x ?s = Inr u" "pendingCoroutines u = tl (pendingCoroutines s) @ new"
          "sum_list (map weight new) < weight (Some x)" by auto
        have run: "resume_run dn rs s ((h, True, new) # tr) t" if "resume_run dn rs u tr t" for tr t
          unfolding Some by (rule resume_run.resumed [OF _ u(1,2) that]) (use d(1) False in simp)
        show ?thesis
          by (rule go [of u new True, OF _ _ _ run])
            (use Cons Some d(1) False u in \<open>simp_all add: CoroScheduler_resumeFront_def\<close>)
      qed
    qed
  qed
qed

lemma process_starves:
  fixes s :: "('k, 'w, 'z) CoroLoop_scheme"
  assumes "CoroScheduler_processPendingResumes (\<lambda>h s. Inr False) (\<lambda>h s. Inr (CoroScheduler_scheduleResume (Some h) s)) s = Some r"
  shows "Some h \<notin> set (pendingCoroutines s)"
proof -
  let ?dn = "\<lambda>(h :: nat) (s :: ('k, 'w, 'z) CoroLoop_scheme). Inr False :: bool result"
  let ?rs = "\<lambda>(h :: nat) (s :: ('k, 'w, 'z) CoroLoop_scheme). Inr (CoroScheduler_scheduleResume (Some h) s) :: _ result"
  let ?P = "\<lambda>dn rs (s :: ('k, 'w, 'z) CoroLoop_scheme) (r :: ('k, 'w, 'z) CoroLoop_scheme result). dn = ?dn \<longrightarrow> rs = ?rs \<longrightarrow>
     (\<forall>h. Some h \<notin> set (pendingCoroutines s))"
  have "?P ?dn ?rs s r"
  proof (rule CoroScheduler_processPendingResumes.raw_induct [where P = ?P, OF _ assms(1)], intro impI)
    fix f dn rs and s :: "('k, 'w, 'z) CoroLoop_scheme" and r
    assume IH: "\<And>dn rs s r. f dn rs s = Some r \<Longrightarrow> ?P dn rs s r"
      and b: "(if pendingCoroutines s = [] then Some (Inr s)
        else case CoroScheduler_resumeFront dn rs s of Inl e \<Rightarrow> Some (Inl e) | Inr t \<Rightarrow> f dn rs t) = Some r"
      and e: "dn = ?dn" "rs = ?rs"
    show "\<forall>h. Some h \<notin> set (pendingCoroutines s)"
    proof (cases "pendingCoroutines s")
      case (Cons h hs)
      let ?t = "case h of None \<Rightarrow> s\<lparr>pendingCoroutines := hs\<rparr>
        | Some x \<Rightarrow> CoroScheduler_scheduleResume (Some x) (s\<lparr>pendingCoroutines := hs\<rparr>)"
      have "CoroScheduler_resumeFront dn rs s = Inr ?t"
        using Cons e by (simp add: CoroScheduler_resumeFront_def split: option.split)
      with b Cons have "f dn rs ?t = Some r" by simp
      from IH [OF this] e have "\<forall>h. Some h \<notin> set (pendingCoroutines ?t)" by blast
      with Cons show ?thesis by (cases h) (auto simp: CoroScheduler_scheduleResume_def)
    qed simp
  qed
  then show ?thesis by simp
qed

lemma process_nulls:
  fixes s :: "('k, 'w, 'z) CoroLoop_scheme"
  shows "\<forall>h. Some h \<notin> set (pendingCoroutines s) \<Longrightarrow>
    CoroScheduler_processPendingResumes dn rs s = Some (Inr (s\<lparr>pendingCoroutines := []\<rparr>))"
proof (induction "pendingCoroutines s" arbitrary: s)
  case Nil
  then have "s\<lparr>pendingCoroutines := []\<rparr> = s" by (cases s) simp
  with Nil show ?case by simp
next
  case (Cons h hs)
  then have "Some x \<noteq> h" for x by (metis list.set_intros(1))
  with Cons(2) have h: "pendingCoroutines s = None # hs" by (cases h) auto
  then have "CoroScheduler_resumeFront dn rs s = Inr (s\<lparr>pendingCoroutines := hs\<rparr>)"
    by (simp add: CoroScheduler_resumeFront_def)
  from processResumes_step [OF _ this] Cons(1) [of "s\<lparr>pendingCoroutines := hs\<rparr>"] Cons(3) h show ?case by simp
qed

text \<open>After its destruction the event loop still uses the scheduler.\<close>

lemma CoroEventLoop_destroy_dangles:
  assumes "CoroEventLoop_new E tc tfd s = Inr t" and "CoroEventLoop_destroy E tc t = Inr u"
  shows "EventLoop_processResumes dn rs u = Some (Inl Undefined)"
proof -
  have "coroScheduler t" using assms(1) by (auto simp: CoroEventLoop_new_def cassert_def bindR_eq_Inr split: if_splits)
  obtain s1 s2 where d: "TimerQueue_destroy E tc (t\<lparr>t_coroEventLoop := False\<rparr>) = Inr s1" "Channel_destroy E tc s1 = Inr s2"
    "u = s2\<lparr>schedulerAlive := False\<rparr>"
    using assms(2) by (auto simp: CoroEventLoop_destroy_def bindR_eq_Inr)
  from d(1) obtain s0 where s0: "Channel_disableAll E tc (t\<lparr>t_coroEventLoop := False\<rparr>) = Inr s0" "Channel_remove E tc s0 = Inr s1"
    by (auto simp: TimerQueue_destroy_def bindR_eq_Inr)
  have "coroScheduler s0"
    using s0(1) unfolding Channel_disableAll_def by (rule with_events_frame) (use \<open>coroScheduler t\<close> in simp)
  moreover have "coroScheduler s1 = coroScheduler s0" using s0(2) by (rule Channel_remove_frame) simp
  moreover have "coroScheduler s2 = coroScheduler s1" using d(2)
    by (auto simp: Channel_destroy_def cassert_def bindR_eq_Inr split: if_splits)
  ultimately show ?thesis using d(3) by (simp add: EventLoop_processResumes_def)
qed

section \<open>Disabling and removing\<close>

lemma disableAll_eq:
  assumes "chan s c = Some ch" and "threadId s = tid E" and "\<not> index ch < 0" and "channels s (chan_fd ch) = Some c"
  shows "\<exists>k. Channel_disableAll E c s = Inr (s\<lparr>chan := (chan s)(c \<mapsto> ch\<lparr>events := kNoneEvent, addedToLoop := True, index := -1\<rparr>),
    epollk := k\<rparr>)"
proof -
  obtain k ok where k: "epoll_ctl E (epollk s) EPOLL_CTL_DEL (chan_fd ch) (event_mask (ch\<lparr>events := kNoneEvent\<rparr>), c) = (k, ok)"
    by fastforce
  show ?thesis unfolding Channel_disableAll_def
    using with_events_del [of s c ch E "\<lambda>_. kNoneEvent", OF assms(1-3) _ k] assms(4) by (auto simp: kNoneEvent_def)
qed

lemma disableAll_again:
  assumes "chan s c = Some ch" and "threadId s = tid E" and "index ch < 0" and "channels s (chan_fd ch) = Some c"
  shows "\<not> ndebug E \<Longrightarrow> Channel_disableAll E c s = Inl AssertFailed"
    and "ndebug E \<Longrightarrow> Channel_disableAll E c s = Inl Aborted \<or> (\<exists>k. Channel_disableAll E c s =
      Inr (s\<lparr>chan := (chan s)(c \<mapsto> ch\<lparr>events := kNoneEvent, addedToLoop := True, index := 1\<rparr>), epollk := k\<rparr>))"
proof -
  obtain k ok where k: "epoll_ctl E (epollk s) EPOLL_CTL_ADD (chan_fd ch) (event_mask (ch\<lparr>events := kNoneEvent\<rparr>), c) = (k, ok)"
    by fastforce
  note e = with_events_add [of s c ch E "\<lambda>_. kNoneEvent", OF assms(1-3) k]
  show "\<not> ndebug E \<Longrightarrow> Channel_disableAll E c s = Inl AssertFailed"
    unfolding Channel_disableAll_def e using assms(4) by (simp add: cassert_def)
  have "(channels s)(chan_fd ch \<mapsto> c) = channels s" using assms(4) by auto
  then show "ndebug E \<Longrightarrow> Channel_disableAll E c s = Inl Aborted \<or> (\<exists>k. Channel_disableAll E c s =
      Inr (s\<lparr>chan := (chan s)(c \<mapsto> ch\<lparr>events := kNoneEvent, addedToLoop := True, index := 1\<rparr>), epollk := k\<rparr>))"
    unfolding Channel_disableAll_def e by (cases ok; auto intro: exI [of _ k])
qed

lemma unregister_twice:
  assumes "chan s a = Some ch" and "threadId s = tid E" and "\<not> index ch < 0" and "channels s (chan_fd ch) = Some a"
  shows "\<exists>s2 s3. Channel_disableAll E a s = Inr s2 \<and>
    Channel_remove E a s2 = (if ndebug E then Inr s3 else Inl AssertFailed) \<and>
    (\<exists>ch3. chan s3 a = Some ch3 \<and> \<not> addedToLoop ch3) \<and>
    (\<exists>cs ks k. s3 = s\<lparr>chan := cs, channels := ks, epollk := k\<rparr>)"
proof -
  let ?ch = "ch\<lparr>events := kNoneEvent, addedToLoop := True, index := -1\<rparr>"
  from disableAll_eq [OF assms] obtain k where
    k: "Channel_disableAll E a s = Inr (s\<lparr>chan := (chan s)(a \<mapsto> ?ch), epollk := k\<rparr>)" (is "_ = Inr ?s2") by blast
  let ?s3 = "s\<lparr>chan := (chan s)(a \<mapsto> ch\<lparr>events := kNoneEvent, addedToLoop := False, index := -1\<rparr>),
      channels := (channels s)(chan_fd ch := None), epollk := k\<rparr>"
  have r: "Channel_remove E a ?s2 = (if ndebug E then Inr ?s3 else Inl AssertFailed)"
    using assms(2) by (subst Channel_remove_eq [where ch = ?ch]) (simp_all add: remove_asserts_def)
  have e: "\<exists>cs ks k'. ?s3 = s\<lparr>chan := cs, channels := ks, epollk := k'\<rparr>" by (intro exI) (rule refl)
  have "\<exists>ch3. chan ?s3 a = Some ch3 \<and> \<not> addedToLoop ch3" by simp
  with k r e show ?thesis by blast
qed

text \<open>A dispatch whose read callback fails, or destroys the channel, does not return.\<close>

lemma dispatch_fails:
  assumes ch: "chan s a = Some ch" and "\<not> tied ch" and "readCallback ch = Some f" and "read_cond (revents ch)"
    and hup: "\<not> hup_cond (revents ch) \<or> closeCallback ch = None" and err: "\<not> err_cond (revents ch) \<or> errorCallback ch = None"
    and call: "\<And>s'. call f t (set_chan a (ch\<lparr>eventHandling := True\<rparr>) s) = Inr s' \<Longrightarrow> chan s' a = None \<and> P Undefined"
    and e: "\<And>e. call f t (set_chan a (ch\<lparr>eventHandling := True\<rparr>) s) = Inl e \<Longrightarrow> P e"
  shows "\<exists>e. Channel_handleEvent call t a s = Inl e \<and> P e"
proof -
  let ?s = "set_chan a (ch\<lparr>eventHandling := True\<rparr>) s"
  have g: "Channel_handleEvent call t a s = bindR (call f t ?s) (\<lambda>s4. bindR (fire call t a write_cond writeCallback s4)
      (\<lambda>s5. mod_chan a (\<lambda>ch. ch\<lparr>eventHandling := False\<rparr>) s5))"
    using assms(1-6)
    by (auto simp: Channel_handleEvent_def Channel_handleEventWithGuard_def mod_chan_def set_chan_def fire_def)
  show ?thesis
  proof (cases "call f t ?s")
    case (Inl e)
    with g assms(8) show ?thesis by auto
  next
    case (Inr s4)
    with call have "chan s4 a = None" "P Undefined" by blast+
    with g Inr show ?thesis by (simp add: fire_def)
  qed
qed

section \<open>Properties\<close>

text \<open>
  C15: \<^verbatim>\<open>processPendingResumes\<close> takes the handles off in the order in which they were scheduled, those
  that resumed coroutines schedule meanwhile last, resumes each of them that is neither null nor done at its turn, once per
  scheduling, and returns with an empty queue, provided the coroutines do not go on scheduling for ever (a weight
  decreases).  Unlike the pending functors of the loop it does not stop at those that were there at its start:
  coroutines that reschedule themselves keep it from returning at all.
\<close>

theorem CoroScheduler_process_order:
  fixes s :: "('k, 'w, 'z) CoroLoop_scheme"
  assumes "resumes_settle dn rs weight"
  shows "(\<exists>tr t. resume_run dn rs s tr t \<and> map fst tr = pendingCoroutines s @ concat (map (snd \<circ> snd) tr) \<and>
      CoroScheduler_processPendingResumes dn rs s = Some (Inr t) \<and> pendingCoroutines t = []) \<and>
    (CoroScheduler_processPendingResumes (\<lambda>h s. Inr False) (\<lambda>h s. Inr (CoroScheduler_scheduleResume (Some h) s)) s = None
      \<longleftrightarrow> (\<exists>h. Some h \<in> set (pendingCoroutines s)))"
proof (rule conjI [OF process_order [OF assms]])
  let ?p = "CoroScheduler_processPendingResumes (\<lambda>h s. Inr False) (\<lambda>h s. Inr (CoroScheduler_scheduleResume (Some h) s)) s"
  show "?p = None \<longleftrightarrow> (\<exists>h. Some h \<in> set (pendingCoroutines s))"
  proof
    assume "?p = None"
    with process_nulls [of s] show "\<exists>h. Some h \<in> set (pendingCoroutines s)" by (metis option.distinct(1))
  next
    assume "\<exists>h. Some h \<in> set (pendingCoroutines s)"
    with process_starves [of s] show "?p = None" by (cases ?p) auto
  qed
qed

text \<open>
  C16: \<^verbatim>\<open>AsyncRead\<close> cannot complete.  When its descriptor is readable and the read does not fail with
  \<^verbatim>\<open>EAGAIN\<close>, the callback unregisters its channel twice, which fails an assertion; without assertions
  it resumes the coroutine, which destroys the awaiter and with it the channel that is handling the event:
  the dispatch goes on with a dead channel.
\<close>

theorem AsyncRead_completion_fails:
  assumes "chan s a = Some ch" and "threadId s = tid E" and "\<not> index ch < 0" and "channels s (chan_fd ch) = Some a"
    and "\<not> tied ch" and "closeCallback ch = None" and "errorCallback ch = None"
    and "readCallback ch = Some (AR_onReadable x)" and "read_cond (revents ch)"
    and "asyncs s x = Some ao" and "as_channel ao = Some a" and "as_handle ao = Some h" and "r \<noteq> ReadError EWOULDBLOCK"
    and "\<And>u. rs h u = bindR (Async_destroy E x u) rest"
    and "\<And>u u'. rest u = Inr u' \<Longrightarrow> chan u a = None \<Longrightarrow> chan u' a = None"
  shows "\<exists>e. Channel_handleEvent (Coro_call U rs E r w) t a s = Inl e \<and> (\<not> ndebug E \<longrightarrow> e = AssertFailed)"
proof (rule dispatch_fails [OF assms(1,5,8,9)])
  let ?ch = "ch\<lparr>eventHandling := True\<rparr>"
  define s1 where "s1 = set_async x (ao\<lparr>as_done := read_count r\<rparr>) (set_chan a ?ch s)"
  let ?c = "Coro_call U rs E r w (AR_onReadable x) t (set_chan a ?ch s)"
  have pre: "chan s1 a = Some ?ch" "threadId s1 = tid E" "\<not> index ?ch < 0" "channels s1 (chan_fd ?ch) = Some a"
    and ao: "\<exists>ao'. asyncs s1 x = Some ao' \<and> as_channel ao' = Some a"
    using assms by (simp_all add: s1_def set_async_def set_chan_def)
  from unregister_twice [OF pre] obtain s2 s3 where s2: "Channel_disableAll E a s1 = Inr s2"
    "Channel_remove E a s2 = (if ndebug E then Inr s3 else Inl AssertFailed)"
    and s3: "\<exists>ch3. chan s3 a = Some ch3 \<and> \<not> addedToLoop ch3" "\<exists>cs ks k. s3 = s1\<lparr>chan := cs, channels := ks, epollk := k\<rparr>" by blast
  have c: "?c = bindR (Channel_remove E a s2) (rs h)"
    using assms(10-13) s2(1) by (simp add: Coro_call_def AsyncRead_onReadable_def Async_complete_def set_chan_def s1_def)
  have ao3: "\<exists>ao'. asyncs s3 x = Some ao' \<and> as_channel ao' = Some a" using s3(2) ao by auto
  have n: "?c = Inl AssertFailed" if "\<not> ndebug E" using c s2(2) that by simp
  show "chan u a = None \<and> (\<not> ndebug E \<longrightarrow> Undefined = AssertFailed)" if u: "?c = Inr u" for u
  proof -
    have nd: "ndebug E" using n u by (cases "ndebug E") simp_all
    have d: "Async_destroy E x s3 = Inr (s3\<lparr>chan := (chan s3)(a := None), asyncs := (asyncs s3)(x := None)\<rparr>)"
      using nd s3(1) ao3 by (auto simp: Async_destroy_def Channel_destroy_def)
    have "rest (s3\<lparr>chan := (chan s3)(a := None), asyncs := (asyncs s3)(x := None)\<rparr>) = Inr u"
      using u c s2(2) nd d assms(14) by simp
    then have "chan u a = None" by (rule assms(15)) simp
    with nd show ?thesis by simp
  qed
  show "\<not> ndebug E \<longrightarrow> e = AssertFailed" if "?c = Inl e" for e using n that by auto
qed (use assms in auto)

text \<open>A build with assertions and one without, on a descriptor that waits in an \<^verbatim>\<open>AsyncRead\<close>.\<close>

definition async_loop :: "((int \<rightharpoonup> ev \<times> nat), unit) CoroLoop" where
  "async_loop = Channel.EventLoop.extend ((EventLoop_members 1 [7 \<mapsto> (kReadEvent OR EPOLLET, 3)])\<lparr>
      channels := [7 \<mapsto> 3], chan := [3 \<mapsto> (Channel_new 7)\<lparr>readCallback := Some (AR_onReadable 5),
        events := kReadEvent, revents := EPOLLIN, index := 1, addedToLoop := True\<rparr>]\<rparr>)
     \<lparr>t_coroEventLoop = True, coroScheduler = True, schedulerAlive = True, pendingCoroutines = [], cchans = Map.empty,
      asyncs = [5 \<mapsto> (AsyncOp_new 7 10)\<lparr>as_handle := Some 9, as_channel := Some 3\<rparr>], sleepers = []\<rparr>"

lemma async_loop_facts:
  "chan async_loop 3 = Some ((Channel_new 7)\<lparr>readCallback := Some (AR_onReadable 5), events := kReadEvent,
     revents := EPOLLIN, index := 1, addedToLoop := True\<rparr>)"
  "asyncs async_loop 5 = Some ((AsyncOp_new 7 10)\<lparr>as_handle := Some 9, as_channel := Some 3\<rparr>)"
  "threadId async_loop = 1" "channels async_loop 7 = Some 3"
  by (simp_all add: async_loop_def Channel.EventLoop.defs EventLoop_members_def)

theorem AsyncRead_completion_fails_witness:
  "\<exists>e. Channel_handleEvent (Coro_call (\<lambda>w. Inr) (\<lambda>h. Async_destroy (man_env False) 5) (man_env False) (ReadBytes [65]) (Wrote 0))
      (Timestamp 1) 3 async_loop = Inl AssertFailed \<and>
    Channel_handleEvent (Coro_call (\<lambda>w. Inr) (\<lambda>h. Async_destroy (man_env True) 5) (man_env True) (ReadBytes [65]) (Wrote 0))
      (Timestamp 1) 3 async_loop = Inl e"
proof -
  have r: "read_cond EPOLLIN" by (simp add: read_cond_def epoll_masks)
  have i: "bindR x Inr = x" for x :: "((int \<rightharpoonup> ev \<times> nat), unit) CoroLoop result" by (cases x) simp_all
  have "\<exists>e. Channel_handleEvent (Coro_call (\<lambda>w. Inr) (\<lambda>h. Async_destroy (man_env nd) 5) (man_env nd) (ReadBytes [65]) (Wrote 0))
      (Timestamp 1) 3 async_loop = Inl e \<and> (\<not> ndebug (man_env nd) \<longrightarrow> e = AssertFailed)" for nd
    by (rule AsyncRead_completion_fails [OF async_loop_facts(1) _ _ _ _ _ _ _ _ async_loop_facts(2), where rest = Inr and h = 9])
       (use r in \<open>simp_all add: async_loop_facts i Channel_new_def AsyncOp_new_def\<close>)
  from this [of False] this [of True] show ?thesis by simp
qed

text \<open>
  C27: a coroutine that waits for its channel to become readable is scheduled exactly once by the next read
  event: it joins the end of the scheduler's queue, the channel forgets it and loses its read
  interest.  When the channel is closed instead, a waiting reader is scheduled, but a coroutine that waits
  to write is not, and stays registered.
\<close>

theorem CoroChannel_waiter_scheduled:
  assumes "cchans s c = Some cc" and "cc_channel cc = Some a" and "readWaiter cc = Some h" and "schedulerAlive s"
    and "chan s a = Some ch" and "\<not> tied ch" and "readCallback ch = Some (CC_handleRead c)"
    and "read_cond (revents ch)" and "\<not> hup_cond (revents ch)" and "\<not> err_cond (revents ch)" and "\<not> write_cond (revents ch)"
    and "Channel_handleEvent (Coro_call U rs E r w) t a s = Inr s'"
  shows "pendingCoroutines s' = pendingCoroutines s @ [Some h] \<and>
    (\<exists>cc'. cchans s' c = Some cc' \<and> readWaiter cc' = None \<and> \<not> cc_reading cc') \<and>
    (\<exists>ch'. chan s' a = Some ch' \<and> events ch' = events ch AND NOT kReadEvent) \<and>
    (\<exists>s2 cc2. CoroChannel_handleClose U c s = (case cc_closeCallback cc of None \<Rightarrow> Inr s2 | Some w \<Rightarrow> U w s2) \<and>
       pendingCoroutines s2 = pendingCoroutines s @ [Some h] \<and>
       cchans s2 c = Some cc2 \<and> readWaiter cc2 = None \<and> writeWaiter cc2 = writeWaiter cc)"
proof -
  let ?s1 = "set_cchan c (cc\<lparr>readWaiter := None, cc_reading := False\<rparr>) (set_chan a (ch\<lparr>eventHandling := True\<rparr>) s)"
  have d: "Coro_call U rs E r w (CC_handleRead c) t (set_chan a (ch\<lparr>eventHandling := True\<rparr>) s) =
      bindR (Channel_disableReading E a ?s1) (CoroEventLoop_scheduleResume (Some h))"
    using assms(1-3) by (simp add: Coro_call_def CoroChannel_handleRead_def CoroChannel_disableReading_def set_cchan_def set_chan_def)
  from assms(5-12) d obtain s2 s3 where s2: "Channel_disableReading E a ?s1 = Inr s2"
    and s3: "CoroEventLoop_scheduleResume (Some h) s2 = Inr s3"
    and m: "bindR (fire (Coro_call U rs E r w) t a write_cond writeCallback s3) (mod_chan a (\<lambda>ch. ch\<lparr>eventHandling := False\<rparr>)) = Inr s'"
    by (auto simp: Channel_handleEvent_def Channel_handleEventWithGuard_def mod_chan_def [of a "\<lambda>ch. ch\<lparr>eventHandling := True\<rparr>"]
        set_chan_def fire_def [of _ _ _ hup_cond] fire_def [of _ _ _ err_cond] fire_def [of _ _ _ read_cond] bindR_eq_Inr)
  obtain ch1 i ks k where f0: "chan ?s1 a = Some ch1" "s2 = ?s1\<lparr>chan := (chan ?s1)(a \<mapsto> ch1\<lparr>events := events ch1 AND NOT kReadEvent,
      addedToLoop := True, index := i\<rparr>), channels := ks, epollk := k\<rparr>"
    using s2 unfolding Channel_disableReading_def by (rule with_events_frame)
  have "ch1 = ch\<lparr>eventHandling := True\<rparr>" using f0(1) by (simp add: set_cchan_def set_chan_def)
  with f0(2) have f: "s2 = ?s1\<lparr>chan := (chan ?s1)(a \<mapsto> ch\<lparr>eventHandling := True, events := events ch AND NOT kReadEvent,
      addedToLoop := True, index := i\<rparr>), channels := ks, epollk := k\<rparr>" by simp
  have s3': "s3 = CoroScheduler_scheduleResume (Some h) s2"
    using s3 assms(4) by (simp add: CoroEventLoop_scheduleResume_def f set_cchan_def set_chan_def)
  have c3: "chan s3 a = Some (ch\<lparr>eventHandling := True, events := events ch AND NOT kReadEvent, addedToLoop := True, index := i\<rparr>)"
    by (simp add: s3' f CoroScheduler_scheduleResume_def)
  have s': "s' = set_chan a (ch\<lparr>events := events ch AND NOT kReadEvent, addedToLoop := True, index := i, eventHandling := False\<rparr>) s3"
    using m c3 assms(11) by (simp add: fire_def mod_chan_def)
  have "pendingCoroutines s' = pendingCoroutines s @ [Some h]" "cchans s' c = Some (cc\<lparr>readWaiter := None, cc_reading := False\<rparr>)"
    "chan s' a = Some (ch\<lparr>events := events ch AND NOT kReadEvent, addedToLoop := True, index := i, eventHandling := False\<rparr>)"
    by (simp_all add: s' s3' f CoroScheduler_scheduleResume_def set_cchan_def set_chan_def)
  moreover have "CoroChannel_handleClose U c s = (case cc_closeCallback cc of None \<Rightarrow> Inr (CoroScheduler_scheduleResume (Some h) (set_cchan c (cc\<lparr>readWaiter := None\<rparr>) s))
       | Some w \<Rightarrow> U w (CoroScheduler_scheduleResume (Some h) (set_cchan c (cc\<lparr>readWaiter := None\<rparr>) s)))"
    using assms(1,3,4) by (cases "cc_closeCallback cc") (simp_all add: CoroChannel_handleClose_def CoroEventLoop_scheduleResume_def set_cchan_def)
  ultimately show ?thesis
    by (auto simp: CoroScheduler_scheduleResume_def set_cchan_def
      intro!: exI [of _ "CoroScheduler_scheduleResume (Some h) (set_cchan c (cc\<lparr>readWaiter := None\<rparr>) s)"])
qed


text \<open>A coroutine 2 that schedules another, 4, a null handle, and a coroutine 5 that is done.\<close>

abbreviation five_done :: "nat \<Rightarrow> ((int \<rightharpoonup> ev \<times> nat), unit) CoroLoop \<Rightarrow> bool result" where
  "five_done h s \<equiv> Inr (h = 5)"

abbreviation two_spawns :: "nat \<Rightarrow> ((int \<rightharpoonup> ev \<times> nat), unit) CoroLoop \<Rightarrow> ((int \<rightharpoonup> ev \<times> nat), unit) CoroLoop result" where
  "two_spawns h s \<equiv> Inr (if h = 2 then CoroScheduler_scheduleResume (Some 4) s else s)"

theorem CoroScheduler_process_order_witness:
  "(\<exists>tr t. resume_run five_done two_spawns (async_loop\<lparr>pendingCoroutines := [Some 2, None, Some 5]\<rparr>) tr t \<and>
      map fst tr = [Some 2, None, Some 5] @ concat (map (snd \<circ> snd) tr) \<and>
      CoroScheduler_processPendingResumes five_done two_spawns (async_loop\<lparr>pendingCoroutines := [Some 2, None, Some 5]\<rparr>) =
        Some (Inr t) \<and> pendingCoroutines t = []) \<and>
   resume_run five_done two_spawns (async_loop\<lparr>pendingCoroutines := [Some 2, None, Some 5]\<rparr>)
     [(Some 2, True, [Some 4]), (None, False, []), (Some 5, False, []), (Some 4, True, [])] (async_loop\<lparr>pendingCoroutines := []\<rparr>)"
proof -
  have "\<exists>d. five_done h s = Inr d \<and> (\<not> d \<longrightarrow> (\<exists>t new. two_spawns h s = Inr t \<and>
      pendingCoroutines t = pendingCoroutines s @ new \<and>
      sum_list (map (\<lambda>h. if h = Some 2 then 2 else 1) new) < (if Some h = Some 2 then 2 else (1 :: nat))))" for h s
    by (intro exI [of _ "h = 5"] conjI impI exI [of _ "if h = 2 then CoroScheduler_scheduleResume (Some 4) s else s"]
        exI [of _ "if h = 2 then [Some 4] else []"]) (simp_all add: CoroScheduler_scheduleResume_def)
  then have "resumes_settle five_done two_spawns (\<lambda>h. if h = Some 2 then 2 else 1)"
    unfolding resumes_settle_def by blast
  from CoroScheduler_process_order [OF this, of "async_loop\<lparr>pendingCoroutines := [Some 2, None, Some 5]\<rparr>"]
  have 1: "\<exists>tr t. resume_run five_done two_spawns (async_loop\<lparr>pendingCoroutines := [Some 2, None, Some 5]\<rparr>) tr t \<and>
      map fst tr = [Some 2, None, Some 5] @ concat (map (snd \<circ> snd) tr) \<and>
      CoroScheduler_processPendingResumes five_done two_spawns (async_loop\<lparr>pendingCoroutines := [Some 2, None, Some 5]\<rparr>) =
        Some (Inr t) \<and> pendingCoroutines t = []" by simp
  let ?s = "\<lambda>hs. async_loop\<lparr>pendingCoroutines := hs\<rparr>"
  have "resume_run five_done two_spawns (?s [Some 4]) [(Some 4, True, [])] (?s [])"
    by (rule resume_run.resumed [where u = "?s []"]) (simp_all add: resume_run.stop)
  then have "resume_run five_done two_spawns (?s [Some 5, Some 4]) [(Some 5, False, []), (Some 4, True, [])] (?s [])"
    by (intro resume_run.finished) simp_all
  then have "resume_run five_done two_spawns (?s [None, Some 5, Some 4])
      [(None, False, []), (Some 5, False, []), (Some 4, True, [])] (?s [])"
    by (intro resume_run.null) simp_all
  then have "resume_run five_done two_spawns (?s [Some 2, None, Some 5])
      [(Some 2, True, [Some 4]), (None, False, []), (Some 5, False, []), (Some 4, True, [])] (?s [])"
    by (intro resume_run.resumed [where u = "?s [None, Some 5, Some 4]"]) (simp_all add: CoroScheduler_scheduleResume_def)
  with 1 show ?thesis by blast
qed

text \<open>A coroutine that waits to read on a channel that is readable.\<close>

definition waiter_loop :: "((int \<rightharpoonup> ev \<times> nat), unit) CoroLoop" where
  "waiter_loop = async_loop\<lparr>cchans := [4 \<mapsto> (CoroChannel_new 7)\<lparr>cc_channel := Some 3, cc_attached := True,
      cc_reading := True, readWaiter := Some 9\<rparr>],
    chan := [3 \<mapsto> (Channel_new 7)\<lparr>readCallback := Some (CC_handleRead 4), writeCallback := Some (CC_handleWrite 4),
      closeCallback := Some (CC_handleClose 4), events := kReadEvent, revents := EPOLLIN, index := 1, addedToLoop := True\<rparr>]\<rparr>"

theorem CoroChannel_waiter_scheduled_witness:
  "\<exists>s'. Channel_handleEvent (Coro_call (\<lambda>w. Inr) (\<lambda>h. Inr) (man_env False) (ReadBytes [65]) (Wrote 0)) (Timestamp 1) 3 waiter_loop
      = Inr s' \<and> pendingCoroutines s' = [Some 9]"
proof -
  let ?call = "Coro_call (\<lambda>w. Inr) (\<lambda>h. Inr) (man_env False) (ReadBytes [65]) (Wrote 0)"
  let ?ch = "(Channel_new 7)\<lparr>readCallback := Some (CC_handleRead 4), writeCallback := Some (CC_handleWrite 4),
      closeCallback := Some (CC_handleClose 4), events := kReadEvent, revents := EPOLLIN, index := 1, addedToLoop := True\<rparr>"
  let ?cc = "(CoroChannel_new 7)\<lparr>cc_channel := Some 3, cc_attached := True, cc_reading := True, readWaiter := Some 9\<rparr>"
  have c: "read_cond EPOLLIN" "\<not> hup_cond EPOLLIN" "\<not> err_cond EPOLLIN" "\<not> write_cond EPOLLIN"
    by (simp_all add: read_cond_def hup_cond_def err_cond_def write_cond_def epoll_masks)
  have s: "chan waiter_loop 3 = Some ?ch" "cchans waiter_loop 4 = Some ?cc" "schedulerAlive waiter_loop"
    "pendingCoroutines waiter_loop = []" "threadId waiter_loop = 1" "channels waiter_loop 7 = Some 3"
    by (simp_all add: waiter_loop_def async_loop_def Channel.EventLoop.defs EventLoop_members_def)
  let ?s1 = "set_cchan 4 (?cc\<lparr>readWaiter := None, cc_reading := False\<rparr>) (set_chan 3 (?ch\<lparr>eventHandling := True\<rparr>) waiter_loop)"
  let ?m = "(event_mask (?ch\<lparr>eventHandling := True, events := 0\<rparr>), 3 :: nat)"
  obtain k ok where k: "epoll_ctl (man_env False) (epollk ?s1) EPOLL_CTL_DEL 7 ?m = (k, ok)" by fastforce
  let ?s2 = "?s1\<lparr>chan := (chan ?s1)(3 \<mapsto> ?ch\<lparr>eventHandling := True, events := 0, addedToLoop := True, index := -1\<rparr>), epollk := k\<rparr>"
  have s2: "Channel_disableReading (man_env False) 3 ?s1 = Inr ?s2"
    unfolding Channel_disableReading_def
    using with_events_del [of ?s1 3 "?ch\<lparr>eventHandling := True\<rparr>" "man_env False" "\<lambda>e. e AND NOT kReadEvent" k ok] s k
    by (simp add: set_cchan_def set_chan_def Channel_new_def cassert_def)
  have d: "?call (CC_handleRead 4) (Timestamp 1) (set_chan 3 (?ch\<lparr>eventHandling := True\<rparr>) waiter_loop) = CoroEventLoop_scheduleResume (Some 9) ?s2"
    using s s2 by (simp add: Coro_call_def CoroChannel_handleRead_def CoroChannel_disableReading_def set_cchan_def set_chan_def)
  have "\<exists>s'. Channel_handleEvent ?call (Timestamp 1) 3 waiter_loop = Inr s'"
    using s c d by (simp add: Channel_handleEvent_def Channel_handleEventWithGuard_def mod_chan_def fire_def Channel_new_def
      CoroEventLoop_scheduleResume_def CoroScheduler_scheduleResume_def set_cchan_def set_chan_def)
  then obtain s' where "Channel_handleEvent ?call (Timestamp 1) 3 waiter_loop = Inr s'" by blast
  with CoroChannel_waiter_scheduled [of waiter_loop 4 ?cc 3 9 ?ch] s c show ?thesis by (fastforce simp: Channel_new_def CoroChannel_new_def)
qed

end
