(* ===== verification/CoroTcpConnection.thy ===== *)
theory CoroTcpConnection
  imports CoroChannel Socket
begin

text \<open>
  Connections of the coroutine server: \<^verbatim>\<open>coro/CoroTcpConnection.h\<close>, \<^verbatim>\<open>coro/CoroTcpConnection.cpp\<close>.

  \<^item> The state is that of the coroutine loop, extended by the store of connections, by the bytes the kernel
    has taken from each descriptor (\<open>cwire\<close>), and by the descriptors shut down and closed.
  \<^item> A connection is owned by its shared pointers: \<open>ct_refs\<close> counts them, and releasing the last one destroys
    the connection.  The pointers are the server's registry entry, the parameter that lives in the frame of
    the handler coroutine, and the temporaries that \<^verbatim>\<open>shared_from_this()\<close> makes for a callback.
  \<^item> The connection's own coroutine \<^verbatim>\<open>connectionLoop\<close> is a member (\<^verbatim>\<open>connectionTask_\<close>): \<open>ct_task\<close> says whether it
    runs, is suspended in its handler or has finished.
  \<^item> The user's code is the parameter \<open>coro_app\<close>: \<open>run_handler\<close> runs the handler coroutine until it
    first suspends (\<open>False\<close>) or finishes (\<open>True\<close>).
\<close>

section \<open>State\<close>

text \<open>The callbacks of the coroutine channels of connections and of the server.\<close>

datatype conn_cb = CT_onReadable nat | CT_onWritable nat | CT_handleClose nat | CS_onAccept

datatype loop_state = L_new | L_running | L_suspended | L_done

record CoroTcpConnection =
  ct_name :: string
  ct_fd :: int
  ct_local :: sockaddr_in
  ct_peer :: sockaddr_in
  connected :: bool
  ct_writing :: bool
  ct_channel :: nat
  ct_input :: Buffer
  ct_output :: Buffer
  ct_handler :: bool
  ct_data :: bool
  ct_close :: bool
  ct_task :: loop_state
  ct_refs :: nat

record 'k CoroNet = "('k, conn_cb) CoroLoop" +
  cconns :: "nat \<rightharpoonup> CoroTcpConnection"
  cwire :: "int \<Rightarrow> byte list"
  cwshut :: "int set"
  cclosed :: "int set"

record ('k, 'z) coro_app =
  on_data :: "nat \<Rightarrow> ('k, 'z) CoroNet_scheme \<Rightarrow> ('k, 'z) CoroNet_scheme result"
  on_close :: "nat \<Rightarrow> ('k, 'z) CoroNet_scheme \<Rightarrow> ('k, 'z) CoroNet_scheme result"
  run_handler :: "nat \<Rightarrow> ('k, 'z) CoroNet_scheme \<Rightarrow> (bool \<times> ('k, 'z) CoroNet_scheme) result"

definition set_cconn :: "nat \<Rightarrow> CoroTcpConnection \<Rightarrow> ('k, 'z) CoroNet_scheme \<Rightarrow> ('k, 'z) CoroNet_scheme" where
  "set_cconn p cn s = s\<lparr>cconns := (cconns s)(p \<mapsto> cn)\<rparr>"

text \<open>Every access goes through the object, which must be alive.\<close>

definition mod_cconn :: "nat \<Rightarrow> (CoroTcpConnection \<Rightarrow> CoroTcpConnection) \<Rightarrow> ('k, 'z) CoroNet_scheme \<Rightarrow>
    ('k, 'z) CoroNet_scheme result" where
  "mod_cconn p f s = bindR (derefR (cconns s) p) (\<lambda>cn. Inr (set_cconn p (f cn) s))"

definition mod_cchan :: "nat \<Rightarrow> ('w CoroChannel \<Rightarrow> 'w CoroChannel) \<Rightarrow> ('k, 'w, 'z) CoroLoop_scheme \<Rightarrow>
    ('k, 'w, 'z) CoroLoop_scheme result" where
  "mod_cchan c f s = bindR (derefR (cchans s) c) (\<lambda>cc. Inr (set_cchan c (f cc) s))"

section \<open>Life and death\<close>

text \<open>The connection at address \<open>p\<close>, with its channel at \<open>c\<close> and the pointer that \<^verbatim>\<open>make_shared\<close> returns.\<close>

definition CoroTcpConnection_new :: "nat \<Rightarrow> nat \<Rightarrow> int \<Rightarrow> sockaddr_in \<Rightarrow> sockaddr_in \<Rightarrow> string \<Rightarrow>
    ('k, 'z) CoroNet_scheme \<Rightarrow> ('k, 'z) CoroNet_scheme result" where
  "CoroTcpConnection_new p c sockfd localAddr peerAddr nm s =
     bindR (Buffer_new kInitialSize) (\<lambda>ib. bindR (Buffer_new kInitialSize) (\<lambda>ob.
       Inr (set_cconn p \<lparr>ct_name = nm, ct_fd = sockfd, ct_local = localAddr, ct_peer = peerAddr,
              connected = False, ct_writing = False, ct_channel = c, ct_input = ib, ct_output = ob,
              ct_handler = False, ct_data = False, ct_close = False, ct_task = L_new, ct_refs = 1\<rparr>
            (set_cchan c (CoroChannel_new sockfd) s))))"

text \<open>
  The destructor removes the channel; then the members go, the last declared first: destroying the frame
  of \<^verbatim>\<open>connectionLoop\<close> while it runs is undefined.  Destroying the socket closes the descriptor.
\<close>

definition CoroTcpConnection_destroy :: "('k, 'e) env_scheme \<Rightarrow> nat \<Rightarrow> ('k, 'z) CoroNet_scheme \<Rightarrow>
    ('k, 'z) CoroNet_scheme result" where
  "CoroTcpConnection_destroy E p s = bindR (derefR (cconns s) p) (\<lambda>cn.
     bindR (CoroChannel_remove E (ct_channel cn) s) (\<lambda>s1.
       if ct_task cn = L_running then Inl Undefined
       else bindR (CoroChannel_destroy E (ct_channel cn) s1) (\<lambda>s2.
         Inr (s2\<lparr>cconns := (cconns s2)(p := None), cclosed := insert (ct_fd cn) (cclosed s2)\<rparr>))))"

definition CoroTcpConnection_share :: "nat \<Rightarrow> ('k, 'z) CoroNet_scheme \<Rightarrow> ('k, 'z) CoroNet_scheme result" where
  "CoroTcpConnection_share p s = mod_cconn p (\<lambda>cn. cn\<lparr>ct_refs := ct_refs cn + 1\<rparr>) s"

definition CoroTcpConnection_release :: "('k, 'e) env_scheme \<Rightarrow> nat \<Rightarrow> ('k, 'z) CoroNet_scheme \<Rightarrow>
    ('k, 'z) CoroNet_scheme result" where
  "CoroTcpConnection_release E p s = bindR (mod_cconn p (\<lambda>cn. cn\<lparr>ct_refs := ct_refs cn - 1\<rparr>) s) (\<lambda>s1.
     bindR (derefR (cconns s1) p) (\<lambda>cn. if ct_refs cn = 0 then CoroTcpConnection_destroy E p s1 else Inr s1))"

text \<open>A callback with a temporary \<^verbatim>\<open>shared_from_this()\<close>.\<close>

definition with_self :: "('k, 'e) env_scheme \<Rightarrow> (nat \<Rightarrow> ('k, 'z) CoroNet_scheme \<Rightarrow> ('k, 'z) CoroNet_scheme result) \<Rightarrow>
    nat \<Rightarrow> ('k, 'z) CoroNet_scheme \<Rightarrow> ('k, 'z) CoroNet_scheme result" where
  "with_self E f p s = bindR (CoroTcpConnection_share p s) (\<lambda>s1. bindR (f p s1) (CoroTcpConnection_release E p))"

section \<open>Operations\<close>

definition CoroTcpConnection_handleClose :: "('k, 'z) coro_app \<Rightarrow> ('k, 'e) env_scheme \<Rightarrow> nat \<Rightarrow>
    ('k, 'z) CoroNet_scheme \<Rightarrow> ('k, 'z) CoroNet_scheme result" where
  "CoroTcpConnection_handleClose A E p s = bindR (derefR (cconns s) p) (\<lambda>cn.
     if connected cn
     then bindR (CoroChannel_disableAll E (ct_channel cn) (set_cconn p (cn\<lparr>connected := False\<rparr>) s)) (\<lambda>s1.
          bindR (CoroChannel_remove E (ct_channel cn) s1) (\<lambda>s2.
            if ct_close cn then with_self E (on_close A) p s2 else Inr s2))
     else Inr s)"

text \<open>\<open>r\<close> is the result of the \<^verbatim>\<open>read\<close> of at most 65536 bytes.\<close>

definition CoroTcpConnection_onReadable :: "('k, 'z) coro_app \<Rightarrow> ('k, 'e) env_scheme \<Rightarrow> read_result \<Rightarrow> nat \<Rightarrow>
    ('k, 'z) CoroNet_scheme \<Rightarrow> ('k, 'z) CoroNet_scheme result" where
  "CoroTcpConnection_onReadable A E r p s = bindR (derefR (cconns s) p) (\<lambda>cn.
     if read_count r > 0
     then bindR (Buffer_append (ct_input cn) (case r of ReadBytes bs \<Rightarrow> bs | ReadError e \<Rightarrow> [])) (\<lambda>ib.
       let s1 = set_cconn p (cn\<lparr>ct_input := ib\<rparr>) s in
       if ct_data cn then with_self E (on_data A) p s1 else Inr s1)
     else if read_count r = 0 then CoroTcpConnection_handleClose A E p s
     else Inr s)"

definition ct_disableWriting :: "('k, 'e) env_scheme \<Rightarrow> nat \<Rightarrow> ('k, 'z) CoroNet_scheme \<Rightarrow> ('k, 'z) CoroNet_scheme result" where
  "ct_disableWriting E p s = bindR (derefR (cconns s) p) (\<lambda>cn.
     bindR (CoroChannel_disableWriting E (ct_channel cn) s) (mod_cconn p (\<lambda>cn. cn\<lparr>ct_writing := False\<rparr>)))"

definition CoroTcpConnection_onWritable :: "('k, 'z) coro_app \<Rightarrow> ('k, 'e) env_scheme \<Rightarrow> write_result \<Rightarrow> nat \<Rightarrow>
    ('k, 'z) CoroNet_scheme \<Rightarrow> ('k, 'z) CoroNet_scheme result" where
  "CoroTcpConnection_onWritable A E w p s = bindR (derefR (cconns s) p) (\<lambda>cn.
     if Buffer_readableBytes (ct_output cn) = 0 then ct_disableWriting E p s
     else case w of
       Wrote n \<Rightarrow>
         if 0 < n
         then let pending = take (Buffer_readableBytes (ct_output cn))
                              (drop (Buffer_peek (ct_output cn)) (buffer (ct_output cn)));
                  s1 = s\<lparr>cwire := (cwire s)(ct_fd cn := cwire s (ct_fd cn) @ take n pending)\<rparr>
              in bindR (Buffer_retrieve (ct_output cn) n) (\<lambda>ob.
                 let s2 = set_cconn p (cn\<lparr>ct_output := ob\<rparr>) s1 in
                 if Buffer_readableBytes ob = 0 then ct_disableWriting E p s2 else Inr s2)
         else Inr s
     | WriteError e \<Rightarrow> if e \<noteq> EWOULDBLOCK then CoroTcpConnection_handleClose A E p s else Inr s)"

text \<open>\<open>a\<close> is where the channel is created if this is its first use.\<close>

definition CoroTcpConnection_send :: "('k, 'e) env_scheme \<Rightarrow> nat \<Rightarrow> nat \<Rightarrow> byte list \<Rightarrow>
    ('k, 'z) CoroNet_scheme \<Rightarrow> ('k, 'z) CoroNet_scheme result" where
  "CoroTcpConnection_send E a p data s = bindR (derefR (cconns s) p) (\<lambda>cn.
     if \<not> connected cn then Inr s
     else bindR (Buffer_append (ct_output cn) data) (\<lambda>ob.
       let s1 = set_cconn p (cn\<lparr>ct_output := ob\<rparr>) s in
       if \<not> ct_writing cn
       then CoroChannel_enableWriting E a (ct_channel cn) (set_cconn p (cn\<lparr>ct_output := ob, ct_writing := True\<rparr>) s1)
       else Inr s1))"

definition CoroTcpConnection_shutdown :: "nat \<Rightarrow> ('k, 'z) CoroNet_scheme \<Rightarrow> ('k, 'z) CoroNet_scheme result" where
  "CoroTcpConnection_shutdown p s = bindR (derefR (cconns s) p) (\<lambda>cn.
     Inr ((set_cconn p (cn\<lparr>connected := False\<rparr>) s)\<lparr>cwshut := insert (ct_fd cn) (cwshut s)\<rparr>))"

section \<open>The connection's coroutine\<close>

text \<open>\<^verbatim>\<open>connectionLoop\<close> after its handler, to its final suspension point.\<close>

definition CoroTcpConnection_loopEnd :: "('k, 'z) coro_app \<Rightarrow> ('k, 'e) env_scheme \<Rightarrow> nat \<Rightarrow>
    ('k, 'z) CoroNet_scheme \<Rightarrow> ('k, 'z) CoroNet_scheme result" where
  "CoroTcpConnection_loopEnd A E p s = bindR (mod_cconn p (\<lambda>cn. cn\<lparr>connected := False\<rparr>) s) (\<lambda>s1.
     bindR (derefR (cconns s1) p) (\<lambda>cn.
     bindR (if ct_close cn then with_self E (on_close A) p s1 else Inr s1)
       (mod_cconn p (\<lambda>cn. cn\<lparr>ct_task := L_done\<rparr>))))"

text \<open>The handler has finished: its frame goes, with the pointer it holds.\<close>

definition CoroTcpConnection_handlerDone :: "('k, 'z) coro_app \<Rightarrow> ('k, 'e) env_scheme \<Rightarrow> nat \<Rightarrow>
    ('k, 'z) CoroNet_scheme \<Rightarrow> ('k, 'z) CoroNet_scheme result" where
  "CoroTcpConnection_handlerDone A E p s = bindR (CoroTcpConnection_release E p s) (CoroTcpConnection_loopEnd A E p)"

text \<open>The first resumption, in \<^verbatim>\<open>start()\<close>.\<close>

definition CoroTcpConnection_connectionLoop :: "('k, 'z) coro_app \<Rightarrow> ('k, 'e) env_scheme \<Rightarrow> nat \<Rightarrow>
    ('k, 'z) CoroNet_scheme \<Rightarrow> ('k, 'z) CoroNet_scheme result" where
  "CoroTcpConnection_connectionLoop A E p s = bindR (mod_cconn p (\<lambda>cn. cn\<lparr>ct_task := L_running\<rparr>) s) (\<lambda>s1.
     bindR (derefR (cconns s1) p) (\<lambda>cn.
       if ct_handler cn
       then bindR (CoroTcpConnection_share p s1) (\<lambda>s2. bindR (run_handler A p s2) (\<lambda>(finished, s3).
         if finished then CoroTcpConnection_handlerDone A E p s3
         else mod_cconn p (\<lambda>cn. cn\<lparr>ct_task := L_suspended\<rparr>) s3))
       else CoroTcpConnection_loopEnd A E p s1))"

text \<open>A handler that was suspended has been resumed and has finished: control is transferred to \<^verbatim>\<open>connectionLoop\<close>.\<close>

definition CoroTcpConnection_loopResumed :: "('k, 'z) coro_app \<Rightarrow> ('k, 'e) env_scheme \<Rightarrow> nat \<Rightarrow>
    ('k, 'z) CoroNet_scheme \<Rightarrow> ('k, 'z) CoroNet_scheme result" where
  "CoroTcpConnection_loopResumed A E p s = bindR (mod_cconn p (\<lambda>cn. cn\<lparr>ct_task := L_running\<rparr>) s)
     (CoroTcpConnection_handlerDone A E p)"

definition CoroTcpConnection_start :: "('k, 'z) coro_app \<Rightarrow> ('k, 'e) env_scheme \<Rightarrow> nat \<Rightarrow> nat \<Rightarrow>
    ('k, 'z) CoroNet_scheme \<Rightarrow> ('k, 'z) CoroNet_scheme result" where
  "CoroTcpConnection_start A E a p s = bindR (mod_cconn p (\<lambda>cn. cn\<lparr>connected := True\<rparr>) s) (\<lambda>s1.
     bindR (derefR (cconns s1) p) (\<lambda>cn.
     bindR (mod_cchan (ct_channel cn) (\<lambda>cc. cc\<lparr>cc_readCallback := Some (CT_onReadable p),
              cc_closeCallback := Some (CT_handleClose p), cc_writeCallback := Some (CT_onWritable p)\<rparr>) s1) (\<lambda>s2.
     bindR (CoroChannel_enableReading E a (ct_channel cn) s2) (CoroTcpConnection_connectionLoop A E p))))"

text \<open>The callbacks of the channels; \<open>acc\<close> is what the server does on its listening channel.\<close>

definition CoroNet_call :: "('k, 'z) coro_app \<Rightarrow> ('k, 'e) env_scheme \<Rightarrow> (('k, 'z) CoroNet_scheme \<Rightarrow> ('k, 'z) CoroNet_scheme result) \<Rightarrow>
    read_result \<Rightarrow> write_result \<Rightarrow> conn_cb \<Rightarrow> ('k, 'z) CoroNet_scheme \<Rightarrow> ('k, 'z) CoroNet_scheme result" where
  "CoroNet_call A E acc r w f s = (case f of
     CT_onReadable p \<Rightarrow> CoroTcpConnection_onReadable A E r p s
   | CT_onWritable p \<Rightarrow> CoroTcpConnection_onWritable A E w p s
   | CT_handleClose p \<Rightarrow> CoroTcpConnection_handleClose A E p s
   | CS_onAccept \<Rightarrow> acc s)"


section \<open>Frames\<close>

text \<open>The operations of channels leave the connections and the kernel's record alone.\<close>

definition same_net :: "('k, 'z) CoroNet_scheme \<Rightarrow> ('k, 'z) CoroNet_scheme \<Rightarrow> bool" where
  "same_net s t \<longleftrightarrow> cconns t = cconns s \<and> cwire t = cwire s \<and> cwshut t = cwshut s \<and> cclosed t = cclosed s"

lemma same_net_trans: "same_net s t \<Longrightarrow> same_net t u \<Longrightarrow> same_net s u"
  by (simp add: same_net_def)

lemma same_net_set_cchan [simp]: "same_net s (set_cchan c cc s)"
  by (simp add: same_net_def set_cchan_def)

lemma same_net_set_chan [simp]: "same_net s (set_chan c ch s)"
  by (simp add: same_net_def set_chan_def)

lemma with_events_same:
  fixes s :: "('k, 'z) CoroNet_scheme"
  assumes "with_events E c g s = Inr t" and "chan s c = Some ch"
  shows "same_net s t \<and> cchans t = cchans s \<and> (\<exists>ch'. chan t = (chan s)(c \<mapsto> ch') \<and> events ch' = g (events ch))"
  using assms(1)
proof (rule with_events_frame)
  fix ch0 i ks k
  assume "chan s c = Some ch0" and t: "t = s\<lparr>chan := (chan s)(c \<mapsto> ch0\<lparr>events := g (events ch0), addedToLoop := True, index := i\<rparr>),
    channels := ks, epollk := k\<rparr>"
  then have "ch0 = ch" using assms(2) by simp
  with t show ?thesis by (auto simp: same_net_def)
qed

lemma cconn_simps [simp]:
  "cconns (set_cconn p cn s) = (cconns s)(p \<mapsto> cn)" "cwire (set_cconn p cn s) = cwire s"
  "cwshut (set_cconn p cn s) = cwshut s" "cclosed (set_cconn p cn s) = cclosed s" "cchans (set_cconn p cn s) = cchans s"
  "chan (set_cconn p cn s) = chan s" "channels (set_cconn p cn s) = channels s" "threadId (set_cconn p cn s) = threadId s"
  "cconns (set_cchan c cc s) = cconns s" "cwire (set_cchan c cc s) = cwire s" "cwshut (set_cchan c cc s) = cwshut s"
  "cchans (set_cchan c cc s) = (cchans s)(c \<mapsto> cc)" "chan (set_cchan c cc s) = chan s"
  by (simp_all add: set_cconn_def set_cchan_def)

section \<open>The output stream\<close>

text \<open>
  The channel's write interest follows \<open>ct_writing\<close> as long as there is a channel, and bytes wait only with
  the interest on.
\<close>

definition cchan_ok :: "CoroTcpConnection \<Rightarrow> ('k, 'z) CoroNet_scheme \<Rightarrow> bool" where
  "cchan_ok cn s \<longleftrightarrow> (\<exists>cc a ch. cchans s (ct_channel cn) = Some cc \<and> cc_attached cc \<and> cc_channel cc = Some a \<and>
     chan s a = Some ch \<and> (Channel_isWriting ch \<longleftrightarrow> ct_writing cn))"

definition cconn_ok :: "nat \<Rightarrow> ('k, 'z) CoroNet_scheme \<Rightarrow> bool" where
  "cconn_ok p s \<longleftrightarrow> (\<exists>cn. cconns s p = Some cn \<and> Buffer_inv (ct_input cn) \<and> Buffer_inv (ct_output cn) \<and>
     (content (ct_output cn) \<noteq> [] \<longrightarrow> ct_writing cn) \<and> cchan_ok cn s)"

definition cstream :: "nat \<Rightarrow> ('k, 'z) CoroNet_scheme \<Rightarrow> byte list" where
  "cstream p s = (case cconns s p of None \<Rightarrow> [] | Some cn \<Rightarrow> cwire s (ct_fd cn) @ content (ct_output cn))"

lemma cchan_ok_enableWriting:
  assumes "cchan_ok cn s" and "CoroChannel_enableWriting E a (ct_channel cn) s = Inr t" and "ct_channel cn' = ct_channel cn"
    and "ct_writing cn'"
  shows "same_net s t \<and> cchan_ok cn' t"
proof -
  from assms(1) obtain cc b ch where c: "cchans s (ct_channel cn) = Some cc" "cc_attached cc" "cc_channel cc = Some b" "chan s b = Some ch"
    by (auto simp: cchan_ok_def)
  let ?s1 = "set_cchan (ct_channel cn) (cc\<lparr>cc_writing := True\<rparr>) s"
  have "with_events E b (\<lambda>e. e OR kWriteEvent) ?s1 = Inr t"
    using assms(2) c by (simp add: CoroChannel_enableWriting_def CoroChannel_attach_def with_channel_def Channel_enableWriting_def)
  from with_events_same [OF this, of ch] c obtain ch' where
    t: "same_net ?s1 t" "cchans t = cchans ?s1" "chan t = (chan s)(b \<mapsto> ch')" "events ch' = events ch OR kWriteEvent" by auto
  have "Channel_isWriting ch'" using t(4) isWriting_events(1) by (simp add: Channel_isWriting_def)
  with t c assms(3,4) show ?thesis by (auto simp: cchan_ok_def intro: same_net_trans [OF same_net_set_cchan])
qed

lemma cchan_ok_disableWriting:
  assumes "cchan_ok cn s" and "CoroChannel_disableWriting E (ct_channel cn) s = Inr t" and "ct_channel cn' = ct_channel cn"
    and "\<not> ct_writing cn'"
  shows "same_net s t \<and> cchan_ok cn' t"
proof -
  from assms(1) obtain cc b ch where c: "cchans s (ct_channel cn) = Some cc" "cc_attached cc" "cc_channel cc = Some b" "chan s b = Some ch"
    by (auto simp: cchan_ok_def)
  let ?s1 = "set_cchan (ct_channel cn) (cc\<lparr>cc_writing := False\<rparr>) s"
  have "with_events E b (\<lambda>e. e AND NOT kWriteEvent) ?s1 = Inr t"
    using assms(2) c by (simp add: CoroChannel_disableWriting_def Channel_disableWriting_def)
  from with_events_same [OF this, of ch] c obtain ch' where
    t: "same_net ?s1 t" "cchans t = cchans ?s1" "chan t = (chan s)(b \<mapsto> ch')" "events ch' = events ch AND NOT kWriteEvent" by auto
  have "\<not> Channel_isWriting ch'" using t(4) isWriting_events(2) by (simp add: Channel_isWriting_def)
  with t c assms(3,4) show ?thesis by (auto simp: cchan_ok_def intro: same_net_trans [OF same_net_set_cchan])
qed

text \<open>What sending and writing leave of a connection.\<close>

definition kept :: "CoroTcpConnection \<Rightarrow> CoroTcpConnection \<Rightarrow> bool" where
  [simp]: "kept cn cn' \<longleftrightarrow> ct_fd cn' = ct_fd cn \<and> connected cn' = connected cn \<and> ct_input cn' = ct_input cn \<and>
     ct_refs cn' = ct_refs cn \<and> ct_data cn' = ct_data cn \<and> ct_channel cn' = ct_channel cn"

lemma send_ok:
  assumes ok: "cconn_ok p s" and cn: "cconns s p = Some cn" and len: "length data \<le> max_size"
    and r: "CoroTcpConnection_send E a p data s = Inr t"
  shows "cconn_ok p t \<and> (\<exists>cn'. cconns t p = Some cn' \<and> kept cn cn') \<and>
    cwire t = cwire s \<and> cstream p t = cstream p s @ (if connected cn then data else [])"
proof (cases "connected cn")
  case False
  then show ?thesis using ok cn r by (simp add: CoroTcpConnection_send_def)
next
  case True
  have i: "Buffer_inv (ct_input cn)" "Buffer_inv (ct_output cn)" and k: "cchan_ok cn s" using ok cn by (auto simp: cconn_ok_def)
  from append_cases [OF i(2) len] r cn True obtain ob where ob: "Buffer_append (ct_output cn) data = Inr ob" "Buffer_inv ob"
    "content ob = content (ct_output cn) @ data"
    by (force simp: CoroTcpConnection_send_def)
  show ?thesis
  proof (cases "ct_writing cn")
    case True
    then have "t = set_cconn p (cn\<lparr>ct_output := ob\<rparr>) s" using r cn \<open>connected cn\<close> ob by (simp add: CoroTcpConnection_send_def)
    then show ?thesis using ob i k True \<open>connected cn\<close> cn by (auto simp: cconn_ok_def cchan_ok_def cstream_def)
  next
    case False
    let ?cn = "cn\<lparr>ct_output := ob, ct_writing := True\<rparr>" let ?s = "set_cconn p ?cn (set_cconn p (cn\<lparr>ct_output := ob\<rparr>) s)"
    have k': "cchan_ok cn ?s" using k by (simp add: cchan_ok_def)
    have "CoroChannel_enableWriting E a (ct_channel cn) ?s = Inr t"
      using r cn \<open>connected cn\<close> False ob(1) by (simp add: CoroTcpConnection_send_def)
    from cchan_ok_enableWriting [OF k' this, of ?cn] have "same_net ?s t" "cchan_ok ?cn t" by simp_all
    then show ?thesis using ob i \<open>connected cn\<close> cn by (auto simp: cconn_ok_def same_net_def cstream_def)
  qed
qed

lemma disable_ok:
  assumes ok: "cconn_ok p s" and cn: "cconns s p = Some cn" and "content (ct_output cn) = []"
    and r: "ct_disableWriting E p s = Inr t"
  shows "cconn_ok p t \<and> (\<exists>cn'. cconns t p = Some cn' \<and> kept cn cn') \<and>
    cwire t = cwire s \<and> cstream p t = cstream p s"
proof -
  have i: "Buffer_inv (ct_input cn)" "Buffer_inv (ct_output cn)" and k: "cchan_ok cn s" using ok cn by (auto simp: cconn_ok_def)
  obtain s1 where s1: "CoroChannel_disableWriting E (ct_channel cn) s = Inr s1"
    and t: "mod_cconn p (\<lambda>cn. cn\<lparr>ct_writing := False\<rparr>) s1 = Inr t"
    using r cn by (auto simp: ct_disableWriting_def bindR_eq_Inr)
  from cchan_ok_disableWriting [OF k s1, of "cn\<lparr>ct_writing := False\<rparr>"] have "same_net s s1" "cchan_ok (cn\<lparr>ct_writing := False\<rparr>) s1"
    by simp_all
  then show ?thesis using t cn i assms(3)
    by (auto simp: mod_cconn_def same_net_def cconn_ok_def cstream_def cchan_ok_def)
qed


lemma onWritable_ok:
  assumes ok: "cconn_ok p s" and cn: "cconns s p = Some cn" and w: "write_ok w (length (content (ct_output cn)))"
    and e: "\<And>e. w = WriteError e \<Longrightarrow> e = EWOULDBLOCK \<or> \<not> connected cn"
    and r: "CoroTcpConnection_onWritable A E w p s = Inr t"
  shows "cconn_ok p t \<and> (\<exists>cn'. cconns t p = Some cn' \<and> kept cn cn') \<and>
    (\<exists>bs. cwire t = (cwire s)(ct_fd cn := cwire s (ct_fd cn) @ bs) \<and> (bs \<noteq> [] \<longrightarrow> (\<exists>n. w = Wrote n))) \<and> cstream p t = cstream p s"
proof -
  have i: "Buffer_inv (ct_input cn)" "Buffer_inv (ct_output cn)" using ok cn by (auto simp: cconn_ok_def)
  have l: "Buffer_readableBytes (ct_output cn) = length (content (ct_output cn))"
    using i(2) by (simp add: length_content)
  have refl: ?thesis if "t = s" using ok cn that by (auto intro: exI [of _ "[]"])
  show ?thesis
  proof (cases "content (ct_output cn) = []")
    case True
    with r cn l have "ct_disableWriting E p s = Inr t" by (simp add: CoroTcpConnection_onWritable_def)
    from disable_ok [OF ok cn True this] show ?thesis by (auto intro: exI [of _ "[]"])
  next
    case False
    show ?thesis
    proof (cases w)
      case (WriteError err)
      with e [of err] r cn False l have "t = s"
        by (auto simp: CoroTcpConnection_onWritable_def CoroTcpConnection_handleClose_def split: if_splits)
      then show ?thesis by (rule refl)
    next
      case (Wrote n)
      show ?thesis
      proof (cases "n = 0")
        case True
        with r cn False l Wrote have "t = s" by (simp add: CoroTcpConnection_onWritable_def)
        then show ?thesis by (rule refl)
      next
        case n: False
        have le: "n \<le> length (content (ct_output cn))" using w Wrote by (simp add: write_ok_def)
        from retrieve_ok [OF i(2) le] obtain ob where ob: "Buffer_retrieve (ct_output cn) n = Inr ob" "Buffer_inv ob"
          "content ob = drop n (content (ct_output cn))" by blast
        let ?bs = "take n (content (ct_output cn))"
        let ?s1 = "s\<lparr>cwire := (cwire s)(ct_fd cn := cwire s (ct_fd cn) @ ?bs)\<rparr>"
        let ?cn = "cn\<lparr>ct_output := ob\<rparr>" let ?s2 = "set_cconn p ?cn ?s1"
        have pend: "take (Buffer_readableBytes (ct_output cn)) (drop (Buffer_peek (ct_output cn)) (buffer (ct_output cn))) = content (ct_output cn)"
          by (rule pending_content [OF i(2)])
        have ok2: "cconn_ok p ?s2" using ok cn ob False by (auto simp: cconn_ok_def cchan_ok_def)
        have l2: "Buffer_readableBytes ob = length (content ob)" using ob(2) by (simp add: length_content)
        have st: "cstream p ?s2 = cstream p s" using cn ob(3) by (simp add: cstream_def)
        have wire: "cwire ?s2 = (cwire s)(ct_fd cn := cwire s (ct_fd cn) @ ?bs)" by simp
        show ?thesis
        proof (cases "content ob = []")
          case True
          have "ct_disableWriting E p ?s2 = Inr t"
            using r cn False l Wrote n pend ob(1) l2 True by (simp add: CoroTcpConnection_onWritable_def Let_def del: take_take)
          from disable_ok [OF ok2 _ _ this, of ?cn] True st wire Wrote show ?thesis by auto
        next
          case False
          with r cn \<open>content (ct_output cn) \<noteq> []\<close> l Wrote n pend ob(1) l2 have "t = ?s2"
            by (simp add: CoroTcpConnection_onWritable_def Let_def del: take_take)
          with ok2 st wire Wrote show ?thesis by auto
        qed
      qed
    qed
  qed
qed

lemma onReadable_ok:
  assumes ok: "cconn_ok p s" and cn: "cconns s p = Some cn" and "\<not> ct_data cn" and "bs \<noteq> []" and "length bs \<le> max_size"
    and r: "CoroTcpConnection_onReadable A E (ReadBytes bs) p s = Inr t"
  shows "cconn_ok p t \<and> (\<exists>cn'. cconns t p = Some cn' \<and> ct_fd cn' = ct_fd cn \<and> connected cn' = connected cn \<and>
      content (ct_input cn') = content (ct_input cn) @ bs) \<and> cwire t = cwire s \<and> cstream p t = cstream p s"
proof -
  have i: "Buffer_inv (ct_input cn)" using ok cn by (auto simp: cconn_ok_def)
  from append_cases [OF i assms(5)] r cn assms(3,4) obtain ib where ib: "Buffer_append (ct_input cn) bs = Inr ib" "Buffer_inv ib"
    "content ib = content (ct_input cn) @ bs"
    by (force simp: CoroTcpConnection_onReadable_def read_count_def)
  then have "t = set_cconn p (cn\<lparr>ct_input := ib\<rparr>) s"
    using r cn assms(3,4) by (simp add: CoroTcpConnection_onReadable_def read_count_def)
  then show ?thesis using ib ok cn by (auto simp: cconn_ok_def cchan_ok_def cstream_def)
qed

text \<open>
  The history of a connection between its start and its close, with the bytes that \<^verbatim>\<open>send\<close> accepted.  What the data
  callback does is a sequence of steps of its own.
\<close>

inductive Conn_step :: "('k, 'z) coro_app \<Rightarrow> ('k, 'e) env_scheme \<Rightarrow> nat \<Rightarrow>
    ('k, 'z) CoroNet_scheme \<times> byte list \<Rightarrow> ('k, 'z) CoroNet_scheme \<times> byte list \<Rightarrow> bool" for A E p where
  Send: "cconns s p = Some cn \<Longrightarrow> length data \<le> max_size \<Longrightarrow> CoroTcpConnection_send E a p data s = Inr t \<Longrightarrow>
    Conn_step A E p (s, sent) (t, sent @ (if connected cn then data else []))"
| Writable: "cconns s p = Some cn \<Longrightarrow> write_ok w (length (content (ct_output cn))) \<Longrightarrow>
    (\<forall>e. w = WriteError e \<longrightarrow> e = EWOULDBLOCK \<or> \<not> connected cn) \<Longrightarrow>
    CoroTcpConnection_onWritable A E w p s = Inr t \<Longrightarrow> Conn_step A E p (s, sent) (t, sent)"
| Readable: "cconns s p = Some cn \<Longrightarrow> \<not> ct_data cn \<Longrightarrow> bs \<noteq> [] \<Longrightarrow> length bs \<le> 65536 \<Longrightarrow>
    CoroTcpConnection_onReadable A E (ReadBytes bs) p s = Inr t \<Longrightarrow> Conn_step A E p (s, sent) (t, sent)"
| Shutdown: "CoroTcpConnection_shutdown p s = Inr t \<Longrightarrow> Conn_step A E p (s, sent) (t, sent)"

definition Conn_init :: "nat \<Rightarrow> ('k, 'z) CoroNet_scheme \<times> byte list \<Rightarrow> bool" where
  "Conn_init p x \<longleftrightarrow> (case x of (s, sent) \<Rightarrow> sent = [] \<and> cconn_ok p s \<and> cstream p s = [])"

definition Conn_inv :: "nat \<Rightarrow> ('k, 'z) CoroNet_scheme \<times> byte list \<Rightarrow> bool" where
  "Conn_inv p x \<longleftrightarrow> (case x of (s, sent) \<Rightarrow> cconn_ok p s \<and> cstream p s = sent)"

lemma Conn_inv_step: "Conn_step A E p x y \<Longrightarrow> Conn_inv p x \<Longrightarrow> Conn_inv p y"
proof (induction rule: Conn_step.induct)
  case (Send s cn data a t sent)
  with send_ok [of p s cn data E a t] show ?case by (auto simp: Conn_inv_def)
next
  case (Writable s cn w t sent)
  with onWritable_ok [of p s cn w A E t] show ?case by (auto simp: Conn_inv_def)
next
  case (Readable s cn bs t sent)
  then have "length bs \<le> max_size" by (simp add: max_size_def)
  with Readable onReadable_ok [of p s cn bs A E t] show ?case by (auto simp: Conn_inv_def)
next
  case (Shutdown s t sent)
  then show ?case
    by (auto simp: Conn_inv_def CoroTcpConnection_shutdown_def cconn_ok_def cstream_def cchan_ok_def bindR_eq_Inr)
qed

interpretation conn_history: inductive_invariant "Conn_init p" "Conn_step A E p" "Conn_inv p" for A E p
proof unfold_locales
  show "Conn_inv p x" if "Conn_init p x" for x :: "('a, 'b) CoroNet_scheme \<times> byte list"
    using that by (auto simp: Conn_init_def Conn_inv_def)
qed (rule Conn_inv_step)

section \<open>The contract of an output stream\<close>

text \<open>The instance of the contract that the connections of \<^verbatim>\<open>net/\<close> have; a send never writes at once.\<close>

definition coro_out_ok :: "nat \<Rightarrow> ('k, 'z) CoroNet_scheme \<Rightarrow> bool" where
  "coro_out_ok p s \<longleftrightarrow> cconn_ok p s \<and> (\<exists>cn. cconns s p = Some cn \<and> connected cn)"

definition coro_can_send :: "byte list \<Rightarrow> write_result \<Rightarrow> ('k, 'z) CoroNet_scheme \<Rightarrow> bool" where
  "coro_can_send d w s \<longleftrightarrow> length d \<le> max_size"

definition coro_can_flush :: "nat \<Rightarrow> write_result \<Rightarrow> ('k, 'z) CoroNet_scheme \<Rightarrow> bool" where
  "coro_can_flush p w s \<longleftrightarrow> (case cconns s p of None \<Rightarrow> False | Some cn \<Rightarrow>
     write_ok w (length (content (ct_output cn))) \<and> (case w of WriteError e \<Rightarrow> e = EWOULDBLOCK | Wrote n \<Rightarrow> True))"

definition coro_send :: "('k, 'e) env_scheme \<Rightarrow> nat \<Rightarrow> nat \<Rightarrow> byte list \<Rightarrow> write_result \<Rightarrow> ('k, 'z) CoroNet_scheme \<Rightarrow>
    ('k, 'z) CoroNet_scheme result" where
  [simp]: "coro_send E a p d w s = CoroTcpConnection_send E a p d s"

definition coro_flush :: "('k, 'z) coro_app \<Rightarrow> ('k, 'e) env_scheme \<Rightarrow> nat \<Rightarrow> write_result \<Rightarrow> ('k, 'z) CoroNet_scheme \<Rightarrow>
    ('k, 'z) CoroNet_scheme result" where
  [simp]: "coro_flush A E p w s = CoroTcpConnection_onWritable A E w p s"

lemma coro_out_send:
  assumes "coro_out_ok p s" and "coro_can_send d w s" and "coro_send E a p d w s = Inr t"
  shows "coro_out_ok p t \<and> cstream p t = cstream p s @ d"
proof -
  from assms(1) obtain cn where cn: "cconns s p = Some cn" "connected cn" and ok: "cconn_ok p s" by (auto simp: coro_out_ok_def)
  from send_ok [OF ok cn(1), of d E a t] assms(2,3) cn show ?thesis by (auto simp: coro_out_ok_def coro_can_send_def)
qed

lemma coro_out_flush:
  assumes "coro_out_ok p s" and "coro_can_flush p w s" and "coro_flush A E p w s = Inr t"
  shows "coro_out_ok p t \<and> cstream p t = cstream p s"
proof -
  from assms(1) obtain cn where cn: "cconns s p = Some cn" "connected cn" and ok: "cconn_ok p s" by (auto simp: coro_out_ok_def)
  have "write_ok w (length (content (ct_output cn)))" "\<And>e. w = WriteError e \<Longrightarrow> e = EWOULDBLOCK \<or> \<not> connected cn"
    using assms(2) cn by (auto simp: coro_can_flush_def)
  from onWritable_ok [OF ok cn(1) this, of A E t] assms(3) cn show ?thesis by (auto simp: coro_out_ok_def)
qed

interpretation coro_out: out_connection "coro_out_ok p" "cstream p" "coro_send E a p" "coro_flush A E p"
  coro_can_send "coro_can_flush p" for A E a p
  by unfold_locales (rule coro_out_send, assumption+, rule coro_out_flush, assumption+)


section \<open>Closing from within the dispatch\<close>

text \<open>No operation on channels brings a dead one back.\<close>

lemma CoroChannel_remove_None:
  assumes "CoroChannel_remove E c s = Inr t" and "chan s a = None"
  shows "chan t a = None"
proof -
  obtain s1 cc where s1: "CoroChannel_disableAll E c s = Inr s1" and cc: "cchans s1 c = Some cc"
    and t: "(case cc_channel cc of None \<Rightarrow> Inr s1
     | Some p \<Rightarrow> bindR (Channel_remove E p s1) (\<lambda>s2. bindR (Channel_destroy E p s2) (\<lambda>s3.
         Inr (set_cchan c (cc\<lparr>cc_channel := None, cc_attached := False\<rparr>) s3)))) = Inr t"
    using assms(1) by (auto simp: CoroChannel_remove_def bindR_eq_Inr)
  obtain cc0 where cc0: "cchans s c = Some cc0"
    and d: "(case cc_channel cc0 of None \<Rightarrow> Inr (set_cchan c (cc0\<lparr>cc_reading := False, cc_writing := False\<rparr>) s)
      | Some p \<Rightarrow> Channel_disableAll E p (set_cchan c (cc0\<lparr>cc_reading := False, cc_writing := False\<rparr>) s)) = Inr s1"
    using s1 by (auto simp: CoroChannel_disableAll_def bindR_eq_Inr Let_def)
  have n1: "chan s1 a = None"
  proof (cases "cc_channel cc0")
    case None
    with d assms(2) show ?thesis by (auto simp: set_cchan_def)
  next
    case (Some b)
    with d have "with_events E b (\<lambda>_. kNoneEvent) (set_cchan c (cc0\<lparr>cc_reading := False, cc_writing := False\<rparr>) s) = Inr s1"
      by (simp add: Channel_disableAll_def)
    then show ?thesis by (rule with_events_frame) (use assms(2) in \<open>auto simp: set_cchan_def\<close>)
  qed
  show ?thesis
  proof (cases "cc_channel cc")
    case None
    with t n1 show ?thesis by simp
  next
    case (Some b)
    with t obtain s2 s3 where s2: "Channel_remove E b s1 = Inr s2" and s3: "Channel_destroy E b s2 = Inr s3"
      and t': "t = set_cchan c (cc\<lparr>cc_channel := None, cc_attached := False\<rparr>) s3" by (auto simp: bindR_eq_Inr)
    have "chan s2 a = None" using s2 by (rule Channel_remove_frame) (use n1 in auto)
    with s3 t' show ?thesis by (auto simp: Channel_destroy_def cassert_def set_cchan_def bindR_eq_Inr split: if_splits)
  qed
qed

lemma release_None:
  assumes "CoroTcpConnection_release E p s = Inr t" and "chan s a = None"
  shows "chan t a = None"
proof -
  obtain s1 cn where s1: "mod_cconn p (\<lambda>cn. cn\<lparr>ct_refs := ct_refs cn - 1\<rparr>) s = Inr s1" and cn: "cconns s1 p = Some cn"
    and t: "(if ct_refs cn = 0 then CoroTcpConnection_destroy E p s1 else Inr s1) = Inr t"
    using assms(1) by (auto simp: CoroTcpConnection_release_def bindR_eq_Inr)
  have n1: "chan s1 a = None" using s1 assms(2) by (auto simp: mod_cconn_def bindR_eq_Inr)
  show ?thesis
  proof (cases "ct_refs cn = 0")
    case True
    with t cn obtain s2 s3 where s2: "CoroChannel_remove E (ct_channel cn) s1 = Inr s2"
      and s3: "CoroChannel_destroy E (ct_channel cn) s2 = Inr s3" and t': "chan t = chan s3"
      by (auto simp: CoroTcpConnection_destroy_def bindR_eq_Inr split: if_splits)
    have "chan s2 a = None" by (rule CoroChannel_remove_None [OF s2 n1])
    moreover from s3 obtain s4 where "CoroChannel_remove E (ct_channel cn) s2 = Inr s4" "chan s3 = chan s4"
      by (auto simp: CoroChannel_destroy_def bindR_eq_Inr)
    ultimately show ?thesis using CoroChannel_remove_None t' by metis
  qed (use t n1 in simp)
qed

definition keeps_dead :: "(nat \<Rightarrow> ('k, 'z) CoroNet_scheme \<Rightarrow> ('k, 'z) CoroNet_scheme result) \<Rightarrow> bool" where
  "keeps_dead f \<longleftrightarrow> (\<forall>p a s t. f p s = Inr t \<longrightarrow> chan s a = None \<longrightarrow> chan t a = None)"

lemma with_self_None:
  assumes "keeps_dead f" and "with_self E f p s = Inr t" and "chan s a = None"
  shows "chan t a = None"
proof -
  obtain s1 s2 where "CoroTcpConnection_share p s = Inr s1" and s2: "f p s1 = Inr s2"
    and t: "CoroTcpConnection_release E p s2 = Inr t"
    using assms(2) by (auto simp: with_self_def bindR_eq_Inr)
  then have "chan s1 a = None" using assms(3) by (auto simp: CoroTcpConnection_share_def mod_cconn_def bindR_eq_Inr)
  with assms(1) s2 have "chan s2 a = None" by (auto simp: keeps_dead_def)
  then show ?thesis by (rule release_None [OF t])
qed

text \<open>An open connection over a registered channel.\<close>

definition registered :: "('k, 'e) env_scheme \<Rightarrow> nat \<Rightarrow> nat \<Rightarrow> ('k, 'z) CoroNet_scheme \<Rightarrow> bool" where
  "registered E p a s \<longleftrightarrow> threadId s = tid E \<and> (\<exists>cn cc ch. cconns s p = Some cn \<and> connected cn \<and>
     cchans s (ct_channel cn) = Some cc \<and> cc_channel cc = Some a \<and> chan s a = Some ch \<and>
     \<not> index ch < 0 \<and> channels s (chan_fd ch) = Some a)"

lemma handleClose_fails:
  assumes reg: "registered E p a s" and kd: "keeps_dead (on_close A)"
  shows "\<not> ndebug E \<Longrightarrow> CoroTcpConnection_handleClose A E p s = Inl AssertFailed"
    and "CoroTcpConnection_handleClose A E p s = Inr u \<Longrightarrow> ndebug E \<and> chan u a = None"
proof -
  obtain cn cc ch where t: "threadId s = tid E" and cn: "cconns s p = Some cn" "connected cn"
    and cc: "cchans s (ct_channel cn) = Some cc" "cc_channel cc = Some a"
    and ch: "chan s a = Some ch" "\<not> index ch < 0" "channels s (chan_fd ch) = Some a"
    using reg unfolding registered_def by blast
  let ?cc = "cc\<lparr>cc_reading := False, cc_writing := False\<rparr>"
  let ?s0 = "set_cchan (ct_channel cn) ?cc (set_cconn p (cn\<lparr>connected := False\<rparr>) s)"
  have s0: "chan ?s0 a = Some ch" "threadId ?s0 = tid E" "channels ?s0 (chan_fd ch) = Some a"
    using t ch by (simp_all add: set_cchan_def)
  obtain k where s1: "Channel_disableAll E a ?s0 = Inr (?s0\<lparr>chan := (chan ?s0)(a \<mapsto> ch\<lparr>events := kNoneEvent, addedToLoop := True, index := -1\<rparr>),
      epollk := k\<rparr>)"
    using disableAll_eq [OF s0(1,2) ch(2) s0(3)] by blast
  let ?ch1 = "ch\<lparr>events := kNoneEvent, addedToLoop := True, index := -1\<rparr>"
  let ?s1 = "?s0\<lparr>chan := (chan ?s0)(a \<mapsto> ?ch1), epollk := k\<rparr>"
  let ?s1' = "set_cchan (ct_channel cn) ?cc ?s1"
  have p1: "chan ?s1' a = Some ?ch1" "threadId ?s1' = tid E" "index ?ch1 < 0" "channels ?s1' (chan_fd ?ch1) = Some a"
    using s0 by (simp_all add: set_cchan_def)
  have c1: "cchans ?s1 (ct_channel cn) = Some ?cc" by (simp add: set_cchan_def)
  have h: "CoroTcpConnection_handleClose A E p s = bindR (CoroChannel_remove E (ct_channel cn) ?s1)
      (\<lambda>s2. if ct_close cn then with_self E (on_close A) p s2 else Inr s2)"
    using cn cc s1 by (simp add: CoroTcpConnection_handleClose_def CoroChannel_disableAll_def)
  have r: "CoroChannel_disableAll E (ct_channel cn) ?s1 = Channel_disableAll E a ?s1'"
    using cc c1 by (simp add: CoroChannel_disableAll_def)
  have f: "CoroTcpConnection_handleClose A E p s = Inl AssertFailed" if "\<not> ndebug E"
    using h r disableAll_again(1) [OF p1 that] by (simp add: CoroChannel_remove_def)
  then show "CoroTcpConnection_handleClose A E p s = Inl AssertFailed" if "\<not> ndebug E" using that by blast
  show "ndebug E \<and> chan u a = None" if u: "CoroTcpConnection_handleClose A E p s = Inr u"
  proof -
    have nd: "ndebug E" using u f by (cases "ndebug E") simp_all
    from u h obtain s2 where s2: "CoroChannel_remove E (ct_channel cn) ?s1 = Inr s2"
      and u2: "(if ct_close cn then with_self E (on_close A) p s2 else Inr s2) = Inr u" by (auto simp: bindR_eq_Inr)
    from s2 r obtain s3 cc3 where s3: "Channel_disableAll E a ?s1' = Inr s3" and cc3: "cchans s3 (ct_channel cn) = Some cc3"
      and s4: "(case cc_channel cc3 of None \<Rightarrow> Inr s3
       | Some p \<Rightarrow> bindR (Channel_remove E p s3) (\<lambda>s2. bindR (Channel_destroy E p s2) (\<lambda>s3.
           Inr (set_cchan (ct_channel cn) (cc3\<lparr>cc_channel := None, cc_attached := False\<rparr>) s3)))) = Inr s2"
      by (auto simp: CoroChannel_remove_def bindR_eq_Inr)
    have "cchans s3 = cchans ?s1'"
      using with_events_same [OF s3 [unfolded Channel_disableAll_def] p1(1)] by blast
    then have "cc_channel cc3 = Some a" using cc3 cc by (auto simp: set_cchan_def)
    with s4 obtain s5 s6 where s6: "Channel_remove E a s3 = Inr s5" "Channel_destroy E a s5 = Inr s6"
      and s2': "s2 = set_cchan (ct_channel cn) (cc3\<lparr>cc_channel := None, cc_attached := False\<rparr>) s6" by (auto simp: bindR_eq_Inr)
    have "chan s2 a = None"
      using s6(2) s2' by (auto simp: Channel_destroy_def cassert_def set_cchan_def bindR_eq_Inr split: if_splits)
    with u2 nd show ?thesis by (auto split: if_splits intro: with_self_None [OF kd])
  qed
qed


section \<open>A connection's coroutine that ends\<close>

lemma release_last:
  assumes "CoroTcpConnection_release E p s = Inr t" and "cconns s p = Some cn" and "ct_refs cn \<le> 1"
  shows "ct_task cn \<noteq> L_running \<and> cconns t p = None"
proof -
  have r: "CoroTcpConnection_release E p s = CoroTcpConnection_destroy E p (set_cconn p (cn\<lparr>ct_refs := 0\<rparr>) s)"
    using assms(2,3) by (simp add: CoroTcpConnection_release_def mod_cconn_def)
  have d: "CoroTcpConnection_destroy E p (set_cconn p (cn\<lparr>ct_refs := 0\<rparr>) s) = Inr t" using r assms(1) by simp
  then show ?thesis by (auto simp: CoroTcpConnection_destroy_def bindR_eq_Inr split: if_splits)
qed

lemma release_shared:
  "cconns s p = Some cn \<Longrightarrow> 1 < ct_refs cn \<Longrightarrow>
   CoroTcpConnection_release E p s = Inr (set_cconn p (cn\<lparr>ct_refs := ct_refs cn - 1\<rparr>) s)"
  by (simp add: CoroTcpConnection_release_def mod_cconn_def)

section \<open>Samples\<close>

text \<open>
  A connection at address 1 on descriptor 7, with its coroutine channel at 4 and its channel at 3, with read and
  write interest, dispatching event \<open>ev\<close>; \<open>task\<close> and \<open>refs\<close> are the state of its coroutine and its pointers.
\<close>

definition roomy_buffer :: Buffer where
  "roomy_buffer = \<lparr>buffer = [0, 0, 0, 0, 0, 0, 0, 0, 0, 0, 0, 0], readerIndex = 8, writerIndex = 8\<rparr>"

definition sample_cconn :: "loop_state \<Rightarrow> nat \<Rightarrow> CoroTcpConnection" where
  "sample_cconn task refs = \<lparr>ct_name = ''c'', ct_fd = 7, ct_local = zero_sockaddr, ct_peer = zero_sockaddr, connected = True,
     ct_writing = True, ct_channel = 4, ct_input = roomy_buffer, ct_output = roomy_buffer, ct_handler = True,
     ct_data = False, ct_close = True, ct_task = task, ct_refs = refs\<rparr>"

definition sample_chan :: "ev \<Rightarrow> coro_closure Channel" where
  "sample_chan e = (Channel_new 7)\<lparr>readCallback := Some (CC_handleRead 4), writeCallback := Some (CC_handleWrite 4),
     closeCallback := Some (CC_handleClose 4), events := kReadEvent OR kWriteEvent, revents := e, index := 1, addedToLoop := True\<rparr>"

definition sample_cchan :: "conn_cb CoroChannel" where
  "sample_cchan = (CoroChannel_new 7)\<lparr>cc_channel := Some 3, cc_attached := True, cc_reading := True, cc_writing := True,
     cc_readCallback := Some (CT_onReadable 1), cc_writeCallback := Some (CT_onWritable 1), cc_closeCallback := Some (CT_handleClose 1)\<rparr>"

definition sample_cnet :: "ev \<Rightarrow> loop_state \<Rightarrow> nat \<Rightarrow> (int \<rightharpoonup> ev \<times> nat) CoroNet" where
  "sample_cnet e task refs = Channel.EventLoop.extend ((EventLoop_members 1 [7 \<mapsto> (kReadEvent OR kWriteEvent OR EPOLLET, 3)])\<lparr>
      channels := [7 \<mapsto> 3], chan := [3 \<mapsto> sample_chan e]\<rparr>)
     \<lparr>t_coroEventLoop = True, coroScheduler = True, schedulerAlive = True, pendingCoroutines = [],
      cchans = [4 \<mapsto> sample_cchan], asyncs = Map.empty, sleepers = [],
      cconns = [1 \<mapsto> sample_cconn task refs], cwire = (\<lambda>f. []), cwshut = {}, cclosed = {}\<rparr>"

lemma sample_cnet_simps [simp]:
  "cconns (sample_cnet e task refs) = [1 \<mapsto> sample_cconn task refs]" "cchans (sample_cnet e task refs) = [4 \<mapsto> sample_cchan]"
  "chan (sample_cnet e task refs) = [3 \<mapsto> sample_chan e]" "channels (sample_cnet e task refs) = [7 \<mapsto> 3]"
  "threadId (sample_cnet e task refs) = 1" "cwire (sample_cnet e task refs) = (\<lambda>f. [])" "schedulerAlive (sample_cnet e task refs)"
  by (simp_all add: sample_cnet_def Channel.EventLoop.defs EventLoop_members_def)

lemma roomy_buffer_inv [simp]: "Buffer_inv roomy_buffer" "content roomy_buffer = []" "writerIndex roomy_buffer = 8"
  by (simp_all add: roomy_buffer_def Buffer_inv_def content_def seg_def kCheapPrepend_def max_size_def)

lemma sample_cnet_ok: "cconn_ok 1 (sample_cnet e task refs)"
proof -
  have "(kReadEvent OR kWriteEvent) AND kWriteEvent \<noteq> 0" by (rule isWriting_events(1))
  then show ?thesis
    by (simp add: cconn_ok_def cchan_ok_def sample_cconn_def sample_cchan_def sample_chan_def Channel_new_def CoroChannel_new_def
        Channel_isWriting_def)
qed

definition idle_coro_app :: "('k, 'z) coro_app" where
  "idle_coro_app = \<lparr>on_data = \<lambda>p. Inr, on_close = \<lambda>p. Inr, run_handler = \<lambda>p s. Inr (False, s)\<rparr>"

section \<open>Properties\<close>

text \<open>
  C17: in every history of sends, reads, complete, partial and failed writes and shutdown of an open connection, the
  bytes the kernel has taken followed by those in the output buffer are exactly the bytes accepted by \<^verbatim>\<open>send\<close>,
  in order; and while bytes wait the channel has its write interest on.
\<close>

theorem CoroTcpConnection_stream:
  assumes "reach (Conn_init p) (Conn_step A E p) (s, sent)"
  shows "\<exists>cn cc a ch. cconns s p = Some cn \<and> cwire s (ct_fd cn) @ content (ct_output cn) = sent \<and>
    cchans s (ct_channel cn) = Some cc \<and> cc_channel cc = Some a \<and> chan s a = Some ch \<and>
    (Channel_isWriting ch \<longleftrightarrow> ct_writing cn) \<and> (ct_writing cn \<or> content (ct_output cn) = [])"
proof -
  have "Conn_inv p (s, sent)" by (rule conn_history.reach_inv [OF assms])
  then show ?thesis by (fastforce simp: Conn_inv_def cconn_ok_def cchan_ok_def cstream_def)
qed

theorem CoroTcpConnection_stream_witness:
  "\<exists>t. CoroTcpConnection_send (man_env False) 9 1 [65, 66] (sample_cnet 0 L_suspended 2) = Inr t \<and>
    (\<exists>cn. cconns t 1 = Some cn \<and> cwire t (ct_fd cn) @ content (ct_output cn) = [65, 66])"
proof -
  let ?s = "sample_cnet 0 L_suspended 2"
  have "\<exists>ob. Buffer_append roomy_buffer [65, 66] = Inr ob"
    by (rule append_cases [OF roomy_buffer_inv(1), of "[65, 66]"]) (auto simp: roomy_buffer_def max_size_def)
  then obtain ob where "Buffer_append roomy_buffer [65, 66] = Inr ob" by blast
  then obtain t where t: "CoroTcpConnection_send (man_env False) 9 1 [65, 66] ?s = Inr t"
    by (simp add: CoroTcpConnection_send_def sample_cconn_def)
  have "reach (Conn_init 1) (Conn_step idle_coro_app (man_env False) 1) (?s, [])"
    by (rule reach_init) (use sample_cnet_ok [of 0 L_suspended 2] in \<open>simp add: Conn_init_def cstream_def sample_cconn_def\<close>)
  moreover have "Conn_step idle_coro_app (man_env False) 1 (?s, []) (t, [] @ (if connected (sample_cconn L_suspended 2) then [65, 66] else []))"
    by (rule Conn_step.Send [OF _ _ t]) (simp_all add: max_size_def)
  ultimately have "reach (Conn_init 1) (Conn_step idle_coro_app (man_env False) 1) (t, [65, 66])"
    by (auto simp: sample_cconn_def intro: reach_step)
  from CoroTcpConnection_stream [OF this] t show ?thesis by blast
qed


text \<open>
  \<^verbatim>\<open>shutdown()\<close> loses what waits.  It closes the write side at once, while bytes are in the output buffer: every
  later \<^verbatim>\<open>write\<close> fails, and then neither the failed write nor another \<^verbatim>\<open>send\<close> changes anything, as
  the connection is no longer connected; the bytes are never written, and the write interest stays on.
\<close>

theorem CoroTcpConnection_shutdown_loses:
  assumes "cconn_ok p s" and "cconns s p = Some cn" and "content (ct_output cn) \<noteq> []"
  shows "\<exists>t cn'. CoroTcpConnection_shutdown p s = Inr t \<and> ct_fd cn \<in> cwshut t \<and> cwire t = cwire s \<and>
    cconns t p = Some cn' \<and> ct_output cn' = ct_output cn \<and> ct_writing cn' \<and> cchan_ok cn' t \<and>
    (\<forall>(A :: ('k, 'z) coro_app) (E :: ('k, 'e) env_scheme) e. CoroTcpConnection_onWritable A E (WriteError e) p t = Inr t) \<and>
    (\<forall>(E :: ('k, 'e) env_scheme) a data. CoroTcpConnection_send E a p data t = Inr t)"
proof -
  let ?cn = "cn\<lparr>connected := False\<rparr>" and ?t = "(set_cconn p (cn\<lparr>connected := False\<rparr>) s)\<lparr>cwshut := insert (ct_fd cn) (cwshut s)\<rparr>"
  have i: "Buffer_inv (ct_output cn)" "ct_writing cn" "cchan_ok cn s" using assms by (auto simp: cconn_ok_def)
  have "Buffer_readableBytes (ct_output cn) \<noteq> 0" using length_content [OF i(1)] assms(3) i(1) by (simp del: length_greater_0_conv) auto
  then have w: "CoroTcpConnection_onWritable A E (WriteError e) p ?t = Inr ?t" for A :: "('k, 'z) coro_app" and E :: "('k, 'e) env_scheme" and e
    by (simp add: CoroTcpConnection_onWritable_def CoroTcpConnection_handleClose_def)
  show ?thesis
    by (rule exI [of _ ?t], rule exI [of _ ?cn])
       (use assms(2) i w in \<open>simp add: CoroTcpConnection_shutdown_def CoroTcpConnection_send_def cchan_ok_def\<close>)
qed

text \<open>
  The two calls of \<^verbatim>\<open>disableAll()\<close> that closing makes: the first takes the channel out of the kernel, resets its index and
  leaves it in the poller's table; the second, which \<^verbatim>\<open>CoroChannel::remove()\<close> makes, then asks the poller to add it.
\<close>

lemma close_disables_twice:
  assumes reg: "registered E p a s" and cn: "cconns s p = Some cn" and ch: "chan s a = Some ch"
  shows "\<exists>s1. CoroChannel_disableAll E (ct_channel cn) (set_cconn p (cn\<lparr>connected := False\<rparr>) s) = Inr s1 \<and>
    map_option index (chan s1 a) = Some (-1) \<and> channels s1 (chan_fd ch) = Some a \<and>
    (\<not> ndebug E \<longrightarrow> CoroChannel_disableAll E (ct_channel cn) s1 = Inl AssertFailed \<and>
       EPollPoller_updateChannel E a s1 = Inl AssertFailed)"
proof -
  from reg cn ch obtain cc where t: "threadId s = tid E" and cc: "cchans s (ct_channel cn) = Some cc" "cc_channel cc = Some a"
    and ch': "\<not> index ch < 0" "channels s (chan_fd ch) = Some a" unfolding registered_def by auto
  let ?cc = "cc\<lparr>cc_reading := False, cc_writing := False\<rparr>" and ?ch1 = "ch\<lparr>events := kNoneEvent, addedToLoop := True, index := -1\<rparr>"
  let ?s0 = "set_cchan (ct_channel cn) ?cc (set_cconn p (cn\<lparr>connected := False\<rparr>) s)"
  have s0: "chan ?s0 a = Some ch" "threadId ?s0 = tid E" "channels ?s0 (chan_fd ch) = Some a"
    using t ch ch' by (simp_all add: set_cchan_def)
  obtain k where d: "Channel_disableAll E a ?s0 = Inr (?s0\<lparr>chan := (chan ?s0)(a \<mapsto> ?ch1), epollk := k\<rparr>)"
    using disableAll_eq [OF s0(1,2) ch'(1) s0(3)] by blast
  let ?s1 = "?s0\<lparr>chan := (chan ?s0)(a \<mapsto> ?ch1), epollk := k\<rparr>"
  have 1: "CoroChannel_disableAll E (ct_channel cn) (set_cconn p (cn\<lparr>connected := False\<rparr>) s) = Inr ?s1"
    using cc d by (simp add: CoroChannel_disableAll_def)
  have p1: "chan (set_cchan (ct_channel cn) ?cc ?s1) a = Some ?ch1" "threadId (set_cchan (ct_channel cn) ?cc ?s1) = tid E"
    "index ?ch1 < 0" "channels (set_cchan (ct_channel cn) ?cc ?s1) (chan_fd ?ch1) = Some a"
    using s0 by (simp_all add: set_cchan_def)
  have "cchans ?s1 (ct_channel cn) = Some ?cc" by (simp add: set_cchan_def)
  then have r: "CoroChannel_disableAll E (ct_channel cn) ?s1 = Channel_disableAll E a (set_cchan (ct_channel cn) ?cc ?s1)"
    using cc by (simp add: CoroChannel_disableAll_def)
  have u: "EPollPoller_updateChannel E a ?s1 = Inl AssertFailed" if "\<not> ndebug E"
    using that s0 by (simp add: EPollPoller_updateChannel_def EventLoop_assertInLoopThread_def cassert_def)
  show ?thesis
    by (rule exI [of _ ?s1]) (use 1 r u disableAll_again(1) [OF p1] s0(3) in simp)
qed

text \<open>Without assertions and without a close callback the only thing that can stop \<^verbatim>\<open>handleClose\<close> is \<^verbatim>\<open>epoll_ctl\<close>.\<close>

lemma handleClose_ndebug:
  assumes reg: "registered E p a s" and cn: "cconns s p = Some cn" "\<not> ct_close cn" and nd: "ndebug E"
    and e: "CoroTcpConnection_handleClose A E p s = Inl e"
  shows "e = Aborted"
proof -
  from reg cn obtain cc ch where t: "threadId s = tid E" and cc: "connected cn" "cchans s (ct_channel cn) = Some cc" "cc_channel cc = Some a"
    and ch: "chan s a = Some ch" "\<not> index ch < 0" "channels s (chan_fd ch) = Some a" unfolding registered_def by auto
  let ?cc = "cc\<lparr>cc_reading := False, cc_writing := False\<rparr>" and ?ch1 = "ch\<lparr>events := kNoneEvent, addedToLoop := True, index := -1\<rparr>"
  let ?s0 = "set_cchan (ct_channel cn) ?cc (set_cconn p (cn\<lparr>connected := False\<rparr>) s)"
  have s0: "chan ?s0 a = Some ch" "threadId ?s0 = tid E" "channels ?s0 (chan_fd ch) = Some a"
    using t ch by (simp_all add: set_cchan_def)
  obtain k where d: "Channel_disableAll E a ?s0 = Inr (?s0\<lparr>chan := (chan ?s0)(a \<mapsto> ?ch1), epollk := k\<rparr>)"
    using disableAll_eq [OF s0(1,2) ch(2) s0(3)] by blast
  let ?s1 = "?s0\<lparr>chan := (chan ?s0)(a \<mapsto> ?ch1), epollk := k\<rparr>"
  let ?s2 = "set_cchan (ct_channel cn) ?cc ?s1"
  have p1: "chan ?s2 a = Some ?ch1" "threadId ?s2 = tid E" "index ?ch1 < 0" "channels ?s2 (chan_fd ?ch1) = Some a"
    using s0 by (simp_all add: set_cchan_def)
  have c1: "cchans ?s1 (ct_channel cn) = Some ?cc" by (simp add: set_cchan_def)
  have h: "Inl e = CoroChannel_remove E (ct_channel cn) ?s1"
    using cn cc d e by (auto simp: CoroTcpConnection_handleClose_def CoroChannel_disableAll_def bindR_def split: sum.splits)
  have r: "CoroChannel_disableAll E (ct_channel cn) ?s1 = Channel_disableAll E a ?s2"
    using cc c1 by (simp add: CoroChannel_disableAll_def)
  consider "Channel_disableAll E a ?s2 = Inl Aborted"
    | k2 where "Channel_disableAll E a ?s2 = Inr (?s2\<lparr>chan := (chan ?s2)(a \<mapsto> ?ch1\<lparr>events := kNoneEvent, addedToLoop := True, index := 1\<rparr>), epollk := k2\<rparr>)"
    using disableAll_again(2) [OF p1 nd] by blast
  then show ?thesis
  proof cases
    case 1
    with h r show ?thesis by (simp add: CoroChannel_remove_def)
  next
    case 2
    let ?ch3 = "?ch1\<lparr>events := kNoneEvent, addedToLoop := True, index := 1\<rparr>"
    let ?s3 = "?s2\<lparr>chan := (chan ?s2)(a \<mapsto> ?ch3), epollk := k2\<rparr>"
    have "chan ?s3 a = Some ?ch3" "threadId ?s3 = tid E" using p1(2) by simp_all
    note rm = Channel_remove_eq [of ?s3 a, OF this]
    have "cchans ?s3 (ct_channel cn) = Some ?cc" by (simp add: set_cchan_def)
    with h r 2 rm nd cc(3) show ?thesis
      by (simp add: CoroChannel_remove_def Channel_destroy_def cassert_def)
  qed
qed


text \<open>The samples: bytes in the output buffer, the end of the stream.\<close>

theorem CoroTcpConnection_shutdown_loses_witness:
  "\<exists>s t. CoroTcpConnection_send (man_env False) 9 1 [65, 66] (sample_cnet 0 L_suspended 2) = Inr s \<and>
    CoroTcpConnection_shutdown 1 s = Inr t \<and> cwire t = cwire s \<and>
    CoroTcpConnection_onWritable idle_coro_app (man_env False) (WriteError EPIPE) 1 t = Inr t"
proof -
  have "\<exists>ob. Buffer_append roomy_buffer [65, 66] = Inr ob"
    by (rule append_cases [OF roomy_buffer_inv(1), of "[65, 66]"]) (auto simp: roomy_buffer_def max_size_def)
  then obtain s where s: "CoroTcpConnection_send (man_env False) 9 1 [65, 66] (sample_cnet 0 L_suspended 2) = Inr s"
    by (auto simp: CoroTcpConnection_send_def sample_cconn_def)
  from send_ok [OF sample_cnet_ok _ _ s, of "sample_cconn L_suspended 2"] obtain cn where
    cn: "cconn_ok 1 s" "cconns s 1 = Some cn" "cwire s = (\<lambda>f. [])" "cstream 1 s = [65, 66]"
    by (auto simp: max_size_def cstream_def sample_cconn_def)
  then have "content (ct_output cn) \<noteq> []" by (simp add: cstream_def)
  from CoroTcpConnection_shutdown_loses [OF cn(1,2) this] s show ?thesis by blast
qed


end
