(* ===== verification/CoroTcpServer.thy ===== *)
theory CoroTcpServer
  imports CoroTcpConnection TcpServer
begin

text \<open>
  The coroutine server: \<^verbatim>\<open>coro/CoroTcpServer.h\<close>, \<^verbatim>\<open>coro/CoroTcpServer.cpp\<close>, and the handler and data
  callback of \<^verbatim>\<open>examples/coro_echo_server.cpp\<close>.

  The state is that of the connections extended by the server, whose registry owns a shared pointer of each
  connection; its close callback is \<^verbatim>\<open>removeConnection\<close>.  The results of the system calls are arguments.
\<close>

section \<open>The server\<close>

record CoroTcpServer =
  cs_name :: string
  cs_listenAddr :: sockaddr_in
  cs_acceptFd :: int
  cs_handler :: bool
  cs_data :: bool
  cs_acceptChannel :: "nat option"
  cs_connections :: "string \<rightharpoonup> nat"
  cs_started :: int
  cs_nextConnId :: int

record 'k CoroSrvNet = "'k CoroNet" +
  server :: CoroTcpServer

type_synonym ('k, 'z) coro_srv_app = "('k, 'z CoroSrvNet_ext) coro_app"

definition CoroTcpServer_new :: "sockaddr_in \<Rightarrow> string \<Rightarrow> CoroTcpServer" where
  "CoroTcpServer_new addr nm = \<lparr>cs_name = nm, cs_listenAddr = addr, cs_acceptFd = -1, cs_handler = False, cs_data = False,
     cs_acceptChannel = None, cs_connections = Map.empty, cs_started = 0, cs_nextConnId = 1\<rparr>"

definition mod_server :: "(CoroTcpServer \<Rightarrow> CoroTcpServer) \<Rightarrow> ('k, 'z) CoroSrvNet_scheme \<Rightarrow> ('k, 'z) CoroSrvNet_scheme" where
  "mod_server f s = s\<lparr>server := f (server s)\<rparr>"

text \<open>
  \<^verbatim>\<open>start()\<close>, with the results of \<^verbatim>\<open>socket\<close>, \<^verbatim>\<open>bind\<close> and \<^verbatim>\<open>listen\<close>; a failure is fatal.  The accept channel is created
  at \<open>c\<close>, its channel at \<open>a\<close>.
\<close>

definition CoroTcpServer_start :: "('k, 'e) env_scheme \<Rightarrow> nat \<Rightarrow> nat \<Rightarrow> int \<Rightarrow> int \<Rightarrow> int \<Rightarrow> ('k, 'z) CoroSrvNet_scheme \<Rightarrow>
    ('k, 'z) CoroSrvNet_scheme result" where
  "CoroTcpServer_start E a c sock ret_bind ret_listen s =
     (let s1 = mod_server (\<lambda>v. v\<lparr>cs_started := cs_started v + 1\<rparr>) s in
      if cs_started (server s) > 0 then Inr s1
      else let s2 = mod_server (\<lambda>v. v\<lparr>cs_acceptFd := sock\<rparr>) s1 in
        if sock < 0 \<or> ret_bind < 0 \<or> ret_listen < 0 then Inl Aborted
        else let s3 = set_cchan c ((CoroChannel_new sock)\<lparr>cc_readCallback := Some CS_onAccept\<rparr>)
                        (mod_server (\<lambda>v. v\<lparr>cs_acceptChannel := Some c\<rparr>) s2)
             in CoroChannel_enableReading E a c s3)"

text \<open>Erasing a name releases the pointer registered under it.\<close>

definition CoroTcpServer_erase :: "('k, 'e) env_scheme \<Rightarrow> string \<Rightarrow> ('k, 'z) CoroSrvNet_scheme \<Rightarrow>
    ('k, 'z) CoroSrvNet_scheme result" where
  "CoroTcpServer_erase E nm s = (case cs_connections (server s) nm of
     None \<Rightarrow> Inr s
   | Some q \<Rightarrow> CoroTcpConnection_release E q
       (mod_server (\<lambda>v. v\<lparr>cs_connections := (cs_connections v)(nm := None)\<rparr>) s))"

definition CoroTcpServer_removeConnection :: "('k, 'e) env_scheme \<Rightarrow> nat \<Rightarrow> ('k, 'z) CoroSrvNet_scheme \<Rightarrow>
    ('k, 'z) CoroSrvNet_scheme result" where
  "CoroTcpServer_removeConnection E p s = bindR (derefR (cconns s) p) (\<lambda>cn. CoroTcpServer_erase E (ct_name cn) s)"

text \<open>The callbacks of a server's connections: the user's, and the server's close callback.\<close>

definition server_app :: "('k, 'e) env_scheme \<Rightarrow> ('k, 'z) coro_srv_app \<Rightarrow> ('k, 'z) coro_srv_app" where
  "server_app E U = U\<lparr>on_close := CoroTcpServer_removeConnection E\<rparr>"

text \<open>What \<^verbatim>\<open>accept4\<close> and \<^verbatim>\<open>getLocalAddr\<close> give.\<close>

datatype accept_result = Accepted int sockaddr_in sockaddr_in | AcceptError errno

text \<open>
  A new connection at \<open>p\<close>, with its coroutine channel at \<open>c\<close> and its channel at \<open>a\<close>.  The increment of the
  identifier is undefined at the largest \<^verbatim>\<open>int\<close>; a connection that was registered under the
  name is released.  The local pointer goes when the function returns.
\<close>

definition CoroTcpServer_onAccept :: "('k, 'z) coro_srv_app \<Rightarrow> ('k, 'e) env_scheme \<Rightarrow> nat \<Rightarrow> nat \<Rightarrow> nat \<Rightarrow> accept_result \<Rightarrow>
    ('k, 'z) CoroSrvNet_scheme \<Rightarrow> ('k, 'z) CoroSrvNet_scheme result" where
  "CoroTcpServer_onAccept U E p c a r s = (case r of
     AcceptError e \<Rightarrow> Inr s
   | Accepted connfd peerAddr localAddr \<Rightarrow>
       if cs_nextConnId (server s) = int_max then Inl Undefined
       else let nm = connName (cs_name (server s)) (cs_nextConnId (server s));
                s1 = mod_server (\<lambda>v. v\<lparr>cs_nextConnId := cs_nextConnId v + 1\<rparr>) s
            in bindR (CoroTcpConnection_new p c connfd localAddr peerAddr nm s1) (\<lambda>s2.
               bindR (mod_cconn p (\<lambda>cn. cn\<lparr>ct_handler := cs_handler (server s), ct_data := cs_data (server s),
                        ct_close := True\<rparr>) s2) (\<lambda>s3.
               bindR (CoroTcpConnection_share p s3) (\<lambda>s4.
               bindR (CoroTcpServer_erase E nm s4) (\<lambda>s5.
               let s6 = mod_server (\<lambda>v. v\<lparr>cs_connections := (cs_connections v)(nm \<mapsto> p)\<rparr>) s5 in
               bindR (CoroTcpConnection_start (server_app E U) E a p s6) (CoroTcpConnection_release E p))))))"

text \<open>
  The destructor closes the descriptor; then the registry goes, in the order \<open>names\<close> of the map, and the
  accept channel.
\<close>

definition CoroTcpServer_destroy :: "('k, 'e) env_scheme \<Rightarrow> string list \<Rightarrow> ('k, 'z) CoroSrvNet_scheme \<Rightarrow>
    ('k, 'z) CoroSrvNet_scheme result" where
  "CoroTcpServer_destroy E names s =
     (let s1 = (if cs_acceptFd (server s) \<ge> 0 then s\<lparr>cclosed := insert (cs_acceptFd (server s)) (cclosed s)\<rparr> else s) in
      bindR (foldR (CoroTcpServer_erase E) names s1) (\<lambda>s2.
        case cs_acceptChannel (server s2) of None \<Rightarrow> Inr s2 | Some c \<Rightarrow> CoroChannel_destroy E c s2))"

section \<open>The echo server\<close>

text \<open>The data callback sends what the input buffer holds and empties it; the handler suspends for ever.\<close>

definition echo_data :: "('k, 'e) env_scheme \<Rightarrow> nat \<Rightarrow> nat \<Rightarrow> ('k, 'z) CoroNet_scheme \<Rightarrow> ('k, 'z) CoroNet_scheme result" where
  "echo_data E a p s = bindR (derefR (cconns s) p) (\<lambda>cn.
     bindR (CoroTcpConnection_send E a p (take (Buffer_readableBytes (ct_input cn)) (drop (Buffer_peek (ct_input cn)) (buffer (ct_input cn)))) s)
       (mod_cconn p (\<lambda>cn. cn\<lparr>ct_input := Buffer_retrieveAll (ct_input cn)\<rparr>)))"

definition echo_app :: "('k, 'e) env_scheme \<Rightarrow> nat \<Rightarrow> ('k, 'z) coro_srv_app" where
  "echo_app E a = \<lparr>on_data = echo_data E a, on_close = CoroTcpServer_removeConnection E, run_handler = \<lambda>p s. Inr (False, s)\<rparr>"


lemma echo_ok:
  assumes ok: "cconn_ok p s" and cn: "cconns s p = Some cn" "connected cn" "ct_data cn" "content (ct_input cn) = []" "1 \<le> ct_refs cn"
    and bs: "bs \<noteq> []" "length bs \<le> 65536" and A: "on_data A = echo_data E a"
    and r: "CoroTcpConnection_onReadable A E (ReadBytes bs) p s = Inr t"
  shows "cconn_ok p t \<and> (\<exists>cn'. cconns t p = Some cn' \<and> connected cn' \<and> ct_data cn' \<and> content (ct_input cn') = [] \<and>
      1 \<le> ct_refs cn' \<and> ct_fd cn' = ct_fd cn) \<and> cstream p t = cstream p s @ bs"
proof -
  have i: "Buffer_inv (ct_input cn)" using ok cn by (auto simp: cconn_ok_def)
  have len: "length bs \<le> max_size" using bs(2) by (simp add: max_size_def)
  from append_cases [OF i len] r cn bs obtain ib where ib: "Buffer_append (ct_input cn) bs = Inr ib" "Buffer_inv ib" "content ib = bs"
    by (force simp: CoroTcpConnection_onReadable_def read_count_def)
  let ?cn2 = "cn\<lparr>ct_input := ib, ct_refs := ct_refs cn + 1\<rparr>"
  let ?s2 = "set_cconn p ?cn2 (set_cconn p (cn\<lparr>ct_input := ib\<rparr>) s)"
  have pend: "take (Buffer_readableBytes ib) (drop (Buffer_peek ib) (buffer ib)) = bs"
    using pending_content [OF ib(2)] ib(3) by simp
  have "bindR (echo_data E a p ?s2) (CoroTcpConnection_release E p) = Inr t"
    using r cn bs ib(1) A by (simp add: CoroTcpConnection_onReadable_def read_count_def with_self_def CoroTcpConnection_share_def mod_cconn_def)
  then obtain s3 s4 where s3: "CoroTcpConnection_send E a p bs ?s2 = Inr s3"
    and s4: "mod_cconn p (\<lambda>cn. cn\<lparr>ct_input := Buffer_retrieveAll (ct_input cn)\<rparr>) s3 = Inr s4"
    and t: "CoroTcpConnection_release E p s4 = Inr t"
    using pend by (auto simp: echo_data_def bindR_eq_Inr)
  have ok2: "cconn_ok p ?s2" using ok cn(1) ib(2) by (auto simp: cconn_ok_def cchan_ok_def)
  from send_ok [OF ok2 _ len s3] cn obtain cn3 where cn3: "cconn_ok p s3" "cconns s3 p = Some cn3" "kept ?cn2 cn3"
    "cstream p s3 = cstream p ?s2 @ bs" by auto
  let ?cn4 = "cn3\<lparr>ct_input := Buffer_retrieveAll (ct_input cn3)\<rparr>"
  have s4': "s4 = set_cconn p ?cn4 s3" using s4 cn3(2) by (simp add: mod_cconn_def)
  have ra: "Buffer_inv (Buffer_retrieveAll ib)" "content (Buffer_retrieveAll ib) = []" using retrieveAll_ok [OF ib(2)] by simp_all
  have "t = set_cconn p (?cn4\<lparr>ct_refs := ct_refs ?cn4 - 1\<rparr>) s4"
    using t release_shared [of s4 p ?cn4 E] cn3(3) cn(5) s4' by simp
  then show ?thesis using cn3 cn ra s4' by (auto simp: cconn_ok_def cchan_ok_def cstream_def)
qed

text \<open>The history of a connection of the echo server: readable events with data and writable events.\<close>

inductive Echo_step :: "('k, 'e) env_scheme \<Rightarrow> nat \<Rightarrow> nat \<Rightarrow>
    ('k, 'z) CoroSrvNet_scheme \<times> byte list \<Rightarrow> ('k, 'z) CoroSrvNet_scheme \<times> byte list \<Rightarrow> bool" for E a p where
  EchoRead: "bs \<noteq> [] \<Longrightarrow> length bs \<le> 65536 \<Longrightarrow> CoroTcpConnection_onReadable (echo_app E a) E (ReadBytes bs) p s = Inr t \<Longrightarrow>
    Echo_step E a p (s, received) (t, received @ bs)"
| EchoWrite: "cconns s p = Some cn \<Longrightarrow> write_ok w (length (content (ct_output cn))) \<Longrightarrow>
    (\<forall>e. w = WriteError e \<longrightarrow> e = EWOULDBLOCK) \<Longrightarrow>
    CoroTcpConnection_onWritable (echo_app E a) E w p s = Inr t \<Longrightarrow> Echo_step E a p (s, received) (t, received)"

definition Echo_inv :: "nat \<Rightarrow> ('k, 'z) CoroSrvNet_scheme \<times> byte list \<Rightarrow> bool" where
  "Echo_inv p x \<longleftrightarrow> (case x of (s, received) \<Rightarrow> cconn_ok p s \<and> cstream p s = received \<and>
     (\<exists>cn. cconns s p = Some cn \<and> connected cn \<and> ct_data cn \<and> content (ct_input cn) = [] \<and> 1 \<le> ct_refs cn))"

definition Echo_init :: "nat \<Rightarrow> ('k, 'z) CoroSrvNet_scheme \<times> byte list \<Rightarrow> bool" where
  "Echo_init p x \<longleftrightarrow> snd x = [] \<and> Echo_inv p x"

lemma Echo_inv_step: "Echo_step E a p x y \<Longrightarrow> Echo_inv p x \<Longrightarrow> Echo_inv p y"
proof (induction rule: Echo_step.induct)
  case (EchoRead bs s t received)
  then show ?case using echo_ok [of p s _ bs "echo_app E a" E a t] by (fastforce simp: Echo_inv_def echo_app_def)
next
  case (EchoWrite s cn w t received)
  then show ?case using onWritable_ok [of p s cn w "echo_app E a" E t] by (fastforce simp: Echo_inv_def)
qed

interpretation echo_history: inductive_invariant "Echo_init p" "Echo_step E a p" "Echo_inv p" for E a p
proof unfold_locales
  show "Echo_inv p x" if "Echo_init p x" for x :: "('a, 'b) CoroSrvNet_scheme \<times> byte list"
    using that by (simp add: Echo_init_def)
qed (rule Echo_inv_step)

section \<open>Properties\<close>

text \<open>
  C19: the echo server echoes.  Whatever the sizes in which bytes arrive and in which the kernel takes them, what has
  been written to the descriptor followed by what waits in the output buffer is exactly what was received, in order,
  and nothing stays in the input buffer.
\<close>

theorem CoroEcho_stream:
  assumes "reach (Echo_init p) (Echo_step E a p) (s, received)"
  shows "\<exists>cn. cconns s p = Some cn \<and> cwire s (ct_fd cn) @ content (ct_output cn) = received \<and> content (ct_input cn) = []"
proof -
  have "Echo_inv p (s, received)" by (rule echo_history.reach_inv [OF assms])
  then show ?thesis by (auto simp: Echo_inv_def cstream_def)
qed


text \<open>
  C20: a connection whose handler finishes after having been suspended is destroyed by its own coroutine.  Then only the
  registry and the handler's frame own it; the close callback takes it out of the registry, which leaves the
  temporary pointer as the last one, and releasing that destroys the frame of \<^verbatim>\<open>connectionLoop\<close> that is
  running.  With one more owner it ends properly, unregistered and not connected.
\<close>

theorem CoroTcpServer_loop_destroys_itself:
  assumes "cconns s p = Some cn" and "ct_close cn" and "cs_connections (server s) (ct_name cn) = Some p" and "2 \<le> ct_refs cn"
  shows "(if ct_refs cn = 2 then \<exists>e. CoroTcpConnection_loopResumed (server_app E U) E p s = Inl e
    else CoroTcpConnection_loopResumed (server_app E U) E p s =
      Inr (mod_server (\<lambda>v. v\<lparr>cs_connections := (cs_connections v)(ct_name cn := None)\<rparr>)
        (set_cconn p (cn\<lparr>connected := False, ct_refs := ct_refs cn - 2, ct_task := L_done\<rparr>) s)))"
proof -
  let ?m = "mod_server (\<lambda>v. v\<lparr>cs_connections := (cs_connections v)(ct_name cn := None)\<rparr>)"
  let ?s3 = "?m (set_cconn p (cn\<lparr>ct_task := L_running, connected := False, ct_refs := ct_refs cn - 1\<rparr>) s)"
  have id: "set_cconn p x (set_cconn p y u) = set_cconn p x u" "set_cconn p x (mod_server f u) = mod_server f (set_cconn p x u)"
    "cconns (mod_server f u) = cconns u" for x y f and u :: "('a, 'b) CoroSrvNet_scheme" by (simp_all add: set_cconn_def mod_server_def)
  have sv: "server (set_cconn p x s) = server s" for x by (simp add: set_cconn_def)
  have l: "CoroTcpConnection_loopResumed (server_app E U) E p s =
      bindR (CoroTcpConnection_release E p ?s3) (mod_cconn p (\<lambda>cn. cn\<lparr>ct_task := L_done\<rparr>))"
    using assms by (simp add: CoroTcpConnection_loopResumed_def CoroTcpConnection_handlerDone_def CoroTcpConnection_loopEnd_def
        mod_cconn_def release_shared id sv with_self_def CoroTcpConnection_share_def server_app_def CoroTcpServer_removeConnection_def
        CoroTcpServer_erase_def)
  have c3: "cconns ?s3 p = Some (cn\<lparr>ct_task := L_running, connected := False, ct_refs := ct_refs cn - 1\<rparr>)" by (simp add: id)
  show ?thesis
  proof (cases "ct_refs cn = 2")
    case True
    have "\<exists>e. CoroTcpConnection_release E p ?s3 = Inl e"
    proof (rule ccontr)
      assume "\<nexists>e. CoroTcpConnection_release E p ?s3 = Inl e"
      then obtain t where t: "CoroTcpConnection_release E p ?s3 = Inr t" by (cases "CoroTcpConnection_release E p ?s3") auto
      show False using release_last [OF t c3] True by simp
    qed
    with l True show ?thesis by auto
  next
    case False
    then have "1 < ct_refs cn - 1" using assms(4) by simp
    then have r: "CoroTcpConnection_release E p ?s3 =
        Inr (?m (set_cconn p (cn\<lparr>ct_task := L_running, connected := False, ct_refs := ct_refs cn - 2\<rparr>) s))"
      using release_shared [OF c3, of E] by (simp add: id numeral_2_eq_2)
    show ?thesis unfolding l r using False by (simp add: mod_cconn_def id)
  qed
qed

section \<open>Samples\<close>

text \<open>The sample connection, registered with the echo server under its name.\<close>

definition echo_net :: "loop_state \<Rightarrow> nat \<Rightarrow> (int \<rightharpoonup> ev \<times> nat) CoroSrvNet" where
  "echo_net task refs = CoroNet.extend ((sample_cnet 0 task refs)\<lparr>cconns := [1 \<mapsto> (sample_cconn task refs)\<lparr>ct_data := True\<rparr>]\<rparr>)
     \<lparr>server = (CoroTcpServer_new zero_sockaddr ''echo'')\<lparr>cs_connections := [''c'' \<mapsto> 1]\<rparr>\<rparr>"

lemma echo_net_simps [simp]:
  "cconns (echo_net task refs) = [1 \<mapsto> (sample_cconn task refs)\<lparr>ct_data := True\<rparr>]" "cchans (echo_net task refs) = [4 \<mapsto> sample_cchan]"
  "chan (echo_net task refs) = [3 \<mapsto> sample_chan 0]" "cwire (echo_net task refs) = (\<lambda>f. [])"
  "cs_connections (server (echo_net task refs)) = [''c'' \<mapsto> 1]"
  by (simp_all add: echo_net_def CoroNet.defs sample_cnet_def Channel.EventLoop.defs EventLoop_members_def)

theorem CoroTcpServer_loop_destroys_itself_witness:
  "\<exists>e. CoroTcpConnection_loopResumed (server_app (man_env True) (echo_app (man_env True) 9)) (man_env True) 1 (echo_net L_suspended 2) = Inl e"
  using CoroTcpServer_loop_destroys_itself [of "echo_net L_suspended 2" 1 "(sample_cconn L_suspended 2)\<lparr>ct_data := True\<rparr>"
      "man_env True" "echo_app (man_env True) 9"]
  by (simp add: sample_cconn_def)

theorem CoroEcho_stream_witness:
  "\<exists>t. CoroTcpConnection_onReadable (echo_app (man_env False) 9) (man_env False) (ReadBytes [65, 66]) 1 (echo_net L_suspended 2) = Inr t \<and>
    (\<exists>cn. cconns t 1 = Some cn \<and> cwire t (ct_fd cn) @ content (ct_output cn) = [65, 66])"
proof -
  let ?s = "echo_net L_suspended 2"
  have "cconn_ok 1 (sample_cnet 0 L_suspended 2)" by (rule sample_cnet_ok)
  then have ok: "cconn_ok 1 ?s" by (simp add: cconn_ok_def cchan_ok_def sample_cconn_def)
  then have init: "Echo_init 1 (?s, [])" by (simp add: Echo_init_def Echo_inv_def cstream_def sample_cconn_def)
  have "\<exists>ob. Buffer_append roomy_buffer [65, 66] = Inr ob \<and> Buffer_inv ob \<and> content ob = [65, 66]"
    by (rule append_cases [OF roomy_buffer_inv(1), of "[65, 66]"]) (auto simp: max_size_def)
  then obtain ob where ob: "Buffer_append roomy_buffer [65, 66] = Inr ob" "Buffer_inv ob" "content ob = [65, 66]" by blast
  then have "\<exists>t. CoroTcpConnection_onReadable (echo_app (man_env False) 9) (man_env False) (ReadBytes [65, 66]) 1 ?s = Inr t"
    using pending_content [OF ob(2)]
    by (simp add: CoroTcpConnection_onReadable_def read_count_def with_self_def CoroTcpConnection_share_def mod_cconn_def
        echo_app_def echo_data_def CoroTcpConnection_send_def sample_cconn_def CoroTcpConnection_release_def)
  then obtain t where t: "CoroTcpConnection_onReadable (echo_app (man_env False) 9) (man_env False) (ReadBytes [65, 66]) 1 ?s = Inr t" by blast
  have "Echo_step (man_env False) 9 1 (?s, []) (t, [] @ [65, 66])" by (rule EchoRead [OF _ _ t]) simp_all
  with init have "reach (Echo_init 1) (Echo_step (man_env False) 9 1) (t, [65, 66])" by (auto intro: reach_init reach_step)
  from CoroEcho_stream [OF this] t show ?thesis by blast
qed


section \<open>Accepting a connection\<close>

lemma first_enableReading:
  fixes s :: "('k, 'z) CoroSrvNet_scheme"
  assumes "CoroChannel_enableReading E a c s = Inr t" and "cchans s c = Some cc" and "\<not> cc_attached cc"
  shows "cconns t = cconns s \<and> server t = server s \<and> cwire t = cwire s \<and>
    cchans t c = Some (cc\<lparr>cc_channel := Some a, cc_attached := True, cc_reading := True\<rparr>) \<and>
    (\<exists>ch. chan t a = Some ch \<and> \<not> Channel_isWriting ch)"
proof -
  let ?ch = "(Channel_new (cc_fd cc))\<lparr>readCallback := Some (CC_handleRead c), writeCallback := Some (CC_handleWrite c),
      closeCallback := Some (CC_handleClose c)\<rparr>"
  let ?s = "set_cchan c (cc\<lparr>cc_channel := Some a, cc_attached := True, cc_reading := True\<rparr>) (set_chan a ?ch s)"
  have "with_events E a (\<lambda>e. e OR kReadEvent) ?s = Inr t"
    using assms by (simp add: CoroChannel_enableReading_def CoroChannel_attach_def with_channel_def Channel_enableReading_def)
  then show ?thesis
  proof (rule with_events_frame)
    fix ch i ks k
    assume "chan ?s a = Some ch" and t: "t = ?s\<lparr>chan := (chan ?s)(a \<mapsto> ch\<lparr>events := events ch OR kReadEvent, addedToLoop := True, index := i\<rparr>),
      channels := ks, epollk := k\<rparr>"
    then have "ch = ?ch" by (simp add: set_chan_def)
    moreover have "\<not> Channel_isWriting (?ch\<lparr>events := events ?ch OR kReadEvent, addedToLoop := True, index := i\<rparr>)"
      using read_not_write(1) by (simp add: Channel_isWriting_def Channel_new_def)
    ultimately show ?thesis by (simp add: t set_cchan_def set_chan_def)
  qed
qed

text \<open>
  An accepted connection whose handler suspends: registered, open, owned by the registry and the handler's
  frame, with nothing sent or received.
\<close>

lemma CoroTcpServer_onAccept_open:
  fixes s :: "('k, 'z) CoroSrvNet_scheme"
  assumes "CoroTcpServer_onAccept U E p c a (Accepted connfd peer local) s = Inr t"
    and "cs_handler (server s)" and "run_handler U = (\<lambda>p s. Inr (False, s))"
    and "cs_connections (server s) (connName (cs_name (server s)) (cs_nextConnId (server s))) = None"
  shows "\<exists>cn. cconns t p = Some cn \<and> ct_fd cn = connfd \<and> ct_refs cn = 2 \<and> ct_task cn = L_suspended \<and> connected cn \<and>
    ct_data cn = cs_data (server s) \<and> ct_close cn \<and> content (ct_input cn) = [] \<and> content (ct_output cn) = [] \<and> cconn_ok p t \<and>
    ct_name cn = connName (cs_name (server s)) (cs_nextConnId (server s)) \<and>
    cs_connections (server t) = (cs_connections (server s))(ct_name cn \<mapsto> p) \<and>
    cs_nextConnId (server t) = cs_nextConnId (server s) + 1 \<and> cwire t = cwire s"
proof -
  obtain b where b: "Buffer_new kInitialSize = Inr b" "Buffer_inv b" "content b = []"
    using new_ok [of kInitialSize] by (auto simp: kInitialSize_def kCheapPrepend_def max_size_def)
  let ?nm = "connName (cs_name (server s)) (cs_nextConnId (server s))"
  let ?f = "\<lambda>v. v\<lparr>cs_nextConnId := cs_nextConnId v + 1\<rparr>" and ?g = "\<lambda>v. v\<lparr>cs_connections := (cs_connections v)(?nm \<mapsto> p)\<rparr>"
  define cn where "cn = \<lparr>ct_name = ?nm, ct_fd = connfd, ct_local = local, ct_peer = peer, connected = True, ct_writing = False,
      ct_channel = c, ct_input = b, ct_output = b, ct_handler = True, ct_data = cs_data (server s), ct_close = True, ct_task = L_new, ct_refs = 2\<rparr>"
  let ?cc = "(CoroChannel_new connfd)\<lparr>cc_readCallback := Some (CT_onReadable p), cc_closeCallback := Some (CT_handleClose p),
      cc_writeCallback := Some (CT_onWritable p)\<rparr>"
  let ?s7 = "mod_server ?g (set_cconn p cn (set_cchan c ?cc (mod_server ?f s)))"
  have comm: "set_cconn p x (mod_server f u) = mod_server f (set_cconn p x u)" "set_cconn p x (set_cconn p y u) = set_cconn p x u"
    "set_cchan c v (mod_server f u) = mod_server f (set_cchan c v u)" "set_cchan c v (set_cconn p x u) = set_cconn p x (set_cchan c v u)"
    "set_cchan c v (set_cchan c w u) = set_cchan c v u"
    "cconns (mod_server f u) = cconns u" "cchans (mod_server f u) = cchans u" "server (mod_server f u) = f (server u)"
    "server (set_cconn p x u) = server u" "server (set_cchan c v u) = server u" "cwire (mod_server f u) = cwire u"
    for x y v w f and u :: "('k, 'z) CoroSrvNet_scheme" by (simp_all add: set_cconn_def set_cchan_def mod_server_def)
  have n: "cs_nextConnId (server s) \<noteq> int_max" using assms(1) by (auto simp: CoroTcpServer_onAccept_def)
  have A: "run_handler (server_app E U) = (\<lambda>p s. Inr (False, s))" using assms(3) by (simp add: server_app_def)
  from assms(1,2,4) n b(1) have m: "bindR (bindR (CoroChannel_enableReading E a c ?s7)
      (CoroTcpConnection_connectionLoop (server_app E U) E p)) (CoroTcpConnection_release E p) = Inr t"
    by (simp add: CoroTcpServer_onAccept_def CoroTcpConnection_new_def CoroTcpServer_erase_def Let_def CoroTcpConnection_share_def
        mod_cconn_def mod_cchan_def comm CoroTcpConnection_start_def cn_def CoroChannel_new_def numeral_2_eq_2)
  then obtain s8 where s8: "CoroChannel_enableReading E a c ?s7 = Inr s8" by (auto simp: bindR_eq_Inr)
  have "cchans ?s7 c = Some ?cc" by (simp add: comm)
  from first_enableReading [OF s8 this] have f8: "cconns s8 p = Some cn" "server s8 = ?g (?f (server s))" "cwire s8 = cwire s"
    "cchans s8 c = Some (?cc\<lparr>cc_channel := Some a, cc_attached := True, cc_reading := True\<rparr>)"
    "\<exists>ch. chan s8 a = Some ch \<and> \<not> Channel_isWriting ch"
    by (simp_all add: comm CoroChannel_new_def)
  have "t = set_cconn p (cn\<lparr>ct_task := L_suspended\<rparr>) s8"
    using m s8 f8(1) A by (simp add: CoroTcpConnection_connectionLoop_def mod_cconn_def cn_def CoroTcpConnection_share_def release_shared comm)
  then show ?thesis using f8 b by (simp add: comm cn_def cconn_ok_def cchan_ok_def)
qed

text \<open>So the histories of the echo server above start with an accepted connection.\<close>

lemma echo_accept_init:
  assumes "CoroTcpServer_onAccept (echo_app E a0) E p c a (Accepted connfd peer local) s = Inr t"
    and "cs_handler (server s)" and "cs_data (server s)"
    and "cs_connections (server s) (connName (cs_name (server s)) (cs_nextConnId (server s))) = None" and "cwire s connfd = []"
  shows "Echo_init p (t, [])"
proof -
  have "run_handler (echo_app E a0) = (\<lambda>p s. Inr (False, s))" by (simp add: echo_app_def)
  from CoroTcpServer_onAccept_open [OF assms(1,2) this assms(4)] assms(3,5) show ?thesis
    by (auto simp: Echo_init_def Echo_inv_def cstream_def)
qed

end
