(* ===== verification/UringTcp.thy ===== *)
theory UringTcp
  imports UringPoller TcpServer Socket
begin

text \<open>
  Reading and sending on a connection of the completion-based loop: the coroutines \<^verbatim>\<open>read\<close> and \<^verbatim>\<open>send\<close> of
  \<^verbatim>\<open>io_uring/UringCoroTcpConnection.cpp\<close>.

  They are functions of the results of their awaiters: a \<^verbatim>\<open>read\<close> or \<^verbatim>\<open>send\<close> issues one request after the other
  and goes on with the result of each.
\<close>

section \<open>Reading and sending\<close>

text \<open>What an awaiter gives: a result that is not negative, or a negative one and the thread's \<^verbatim>\<open>errno\<close> then.\<close>

datatype 'a io_answer = IoDone 'a | IoError int errno

text \<open>
  How a call stands: suspended, returned, returned after \<^verbatim>\<open>handleClose()\<close>.
\<close>

datatype io_end = IoWaiting | IoReturn int | IoClose int

definition retryable :: "errno \<Rightarrow> bool" where
  "retryable e \<longleftrightarrow> e = EWOULDBLOCK \<or> e = EINTR"

text \<open>
  The loop of \<^verbatim>\<open>read\<close>: the requests (offset in the caller's buffer and length), the buffer afterwards, the end.
  Leaving the loop flows off the end of a coroutine that has to return a value.  What the kernel delivers is
  written at the offset, which must be inside the buffer.
\<close>

fun UringTcpConnection_readLoop :: "int \<Rightarrow> int \<Rightarrow> nat \<Rightarrow> int \<Rightarrow> byte list \<Rightarrow> byte list io_answer list \<Rightarrow>
    ((nat \<times> int) list \<times> byte list \<times> io_end) result" where
  "UringTcpConnection_readLoop tot remain_write pos len buf [] =
     (if 0 < remain_write then Inr ([(pos, len)], buf, IoWaiting) else Inl Undefined)"
| "UringTcpConnection_readLoop tot remain_write pos len buf (a # as) =
     (if \<not> 0 < remain_write then Inl Undefined
      else case a of
        IoDone bs \<Rightarrow>
          if bs \<noteq> []
          then bindR (std_copy pos bs buf) (\<lambda>buf1. let remain1 = remain_write - int (length bs) in
            if remain1 = 0 then Inr ([(pos, len)], buf1, IoReturn tot)
            else bindR (UringTcpConnection_readLoop tot remain1 (pos + length bs) (len - int (length bs)) buf1 as)
                   (\<lambda>(rs, b, e). Inr ((pos, len) # rs, b, e)))
          else Inr ([(pos, len)], buf, IoClose 0)
      | IoError r e \<Rightarrow>
          if retryable e
          then bindR (UringTcpConnection_readLoop tot remain_write pos len buf as) (\<lambda>(rs, b, e). Inr ((pos, len) # rs, b, e))
          else Inr ([(pos, len)], buf, IoClose r))"

definition UringTcpConnection_read :: "byte list \<Rightarrow> int \<Rightarrow> byte list io_answer list \<Rightarrow>
    ((nat \<times> int) list \<times> byte list \<times> io_end) result" where
  "UringTcpConnection_read buf len as = UringTcpConnection_readLoop len len 0 len buf as"

text \<open>
  The loop of \<^verbatim>\<open>send\<close>, where \<^verbatim>\<open>remain_write\<close> is a \<^verbatim>\<open>size_t\<close>: the requests, the bytes the kernel took, the end.
\<close>

fun UringTcpConnection_sendLoop :: "int \<Rightarrow> nat \<Rightarrow> nat \<Rightarrow> int \<Rightarrow> byte list \<Rightarrow> nat io_answer list \<Rightarrow>
    ((nat \<times> int) list \<times> byte list \<times> io_end) result" where
  "UringTcpConnection_sendLoop tot remain_write pos len data [] =
     (if 0 < remain_write then Inr ([(pos, len)], [], IoWaiting) else Inl Undefined)"
| "UringTcpConnection_sendLoop tot remain_write pos len data (a # as) =
     (if \<not> 0 < remain_write then Inl Undefined
      else case a of
        IoDone n \<Rightarrow>
          if 0 < n
          then let remain1 = szsub remain_write n; bs = take n (drop pos data) in
            if remain1 = 0 then Inr ([(pos, len)], bs, IoReturn tot)
            else bindR (UringTcpConnection_sendLoop tot remain1 (pos + n) (len - int n) data as)
                   (\<lambda>(rs, w, e). Inr ((pos, len) # rs, bs @ w, e))
          else bindR (UringTcpConnection_sendLoop tot remain_write pos len data as) (\<lambda>(rs, w, e). Inr ((pos, len) # rs, w, e))
      | IoError r e \<Rightarrow>
          if retryable e
          then bindR (UringTcpConnection_sendLoop tot remain_write pos len data as) (\<lambda>(rs, w, e). Inr ((pos, len) # rs, w, e))
          else Inr ([(pos, len)], [], IoClose r))"

text \<open>The length is an \<^verbatim>\<open>int\<close>, converted to \<^verbatim>\<open>size_t\<close>; a string passes its size as an \<^verbatim>\<open>int\<close>.\<close>

definition UringTcpConnection_send :: "byte list \<Rightarrow> int \<Rightarrow> nat io_answer list \<Rightarrow>
    ((nat \<times> int) list \<times> byte list \<times> io_end) result" where
  "UringTcpConnection_send data len as = (let n = nat (len mod 2 ^ 64) in
     UringTcpConnection_sendLoop (sint (of_nat n :: 64 word)) n 0 len data as)"

definition UringTcpConnection_sendString :: "byte list \<Rightarrow> nat io_answer list \<Rightarrow>
    ((nat \<times> int) list \<times> byte list \<times> io_end) result" where
  "UringTcpConnection_sendString message as =
     UringTcpConnection_send message (sint (of_nat (length message) :: 32 word)) as"

text \<open>The kernel never moves more than it was asked to.\<close>

fun read_fits :: "nat \<Rightarrow> byte list io_answer list \<Rightarrow> bool" where
  "read_fits k [] \<longleftrightarrow> True"
| "read_fits k (IoDone bs # as) \<longleftrightarrow> length bs \<le> k \<and> read_fits (k - length bs) as"
| "read_fits k (IoError r e # as) \<longleftrightarrow> read_fits k as"

fun send_fits :: "nat \<Rightarrow> nat io_answer list \<Rightarrow> bool" where
  "send_fits k [] \<longleftrightarrow> True"
| "send_fits k (IoDone n # as) \<longleftrightarrow> n \<le> k \<and> send_fits (k - n) as"
| "send_fits k (IoError r e # as) \<longleftrightarrow> send_fits k as"

text \<open>
  The reference: what arrives up to the end of the stream or a hard error.
\<close>

fun arrived :: "byte list io_answer list \<Rightarrow> byte list \<times> io_end" where
  "arrived [] = ([], IoWaiting)"
| "arrived (IoDone bs # as) = (if bs = [] then ([], IoClose 0) else case arrived as of (cs, e) \<Rightarrow> (bs @ cs, e))"
| "arrived (IoError r e # as) = (if retryable e then arrived as else ([], IoClose r))"

fun kernel_takes :: "nat io_answer list \<Rightarrow> nat \<times> io_end" where
  "kernel_takes [] = (0, IoWaiting)"
| "kernel_takes (IoDone n # as) = (case kernel_takes as of (m, e) \<Rightarrow> (n + m, e))"
| "kernel_takes (IoError r e # as) = (if retryable e then kernel_takes as else (0, IoClose r))"

lemma arrived_fits: "read_fits k as \<Longrightarrow> length (fst (arrived as)) \<le> k"
  by (induction k as rule: read_fits.induct) (auto split: prod.split)

lemma kernel_takes_fits: "send_fits k as \<Longrightarrow> fst (kernel_takes as) \<le> k"
  by (induction k as rule: send_fits.induct) (auto split: prod.split)

lemma write_at_append:
  "i + length xs + length ys \<le> length buf \<Longrightarrow> write_at (i + length xs) ys (write_at i xs buf) = write_at i (xs @ ys) buf"
  by (simp add: write_at_def ac_simps)

lemma readLoop_correct:
  assumes "0 < k" and "read_fits k as" and "int k = remain" and "len = remain" and "pos + k \<le> length buf"
  shows "\<exists>rs. UringTcpConnection_readLoop tot remain pos len buf as = Inr (rs, write_at pos (fst (arrived as)) buf,
      if length (fst (arrived as)) = k then IoReturn tot else snd (arrived as)) \<and>
    (\<forall>(i, l) \<in> set rs. pos \<le> i \<and> 0 < l \<and> int i + l = int (pos + k))"
  using assms
proof (induction as arbitrary: k remain pos len buf)
  case Nil
  then show ?case by (simp add: write_at_def)
next
  case (Cons a as)
  show ?case
  proof (cases a)
    case (IoError r e)
    with Cons.prems Cons.IH [of k remain len pos buf] show ?thesis by (fastforce simp: write_at_def)
  next
    case (IoDone bs)
    show ?thesis
    proof (cases "bs = [] \<or> length bs = k")
      case True
      have "fst (arrived as) = []" if "length bs = k"
        using arrived_fits [of 0 as] Cons.prems(2) IoDone that by simp
      with True IoDone Cons.prems show ?thesis
        by (auto simp: write_at_def std_copy_def split: prod.split)
    next
      case False
      let ?k = "k - length bs" let ?buf = "write_at pos bs buf"
      have p: "0 < ?k" "read_fits ?k as" "int ?k = remain - int (length bs)" "len - int (length bs) = remain - int (length bs)"
        "pos + length bs + ?k \<le> length ?buf" "pos + length bs \<le> length buf" "remain - int (length bs) \<noteq> 0"
        using False IoDone Cons.prems by auto
      from Cons.IH [OF p(1-5)] obtain rs where rs:
        "UringTcpConnection_readLoop tot (remain - int (length bs)) (pos + length bs) (len - int (length bs)) ?buf as =
          Inr (rs, write_at (pos + length bs) (fst (arrived as)) ?buf,
            if length (fst (arrived as)) = ?k then IoReturn tot else snd (arrived as))"
        "\<forall>(i, l) \<in> set rs. pos + length bs \<le> i \<and> 0 < l \<and> int i + l = int (pos + length bs + ?k)" by blast
      have "length (fst (arrived as)) \<le> ?k" by (rule arrived_fits [OF p(2)])
      then have w: "write_at (pos + length bs) (fst (arrived as)) ?buf = write_at pos (bs @ fst (arrived as)) buf"
        using p Cons.prems by (intro write_at_append) auto
      have len: "length (bs @ fst (arrived as)) = k \<longleftrightarrow> length (fst (arrived as)) = ?k" using p(1) by auto
      show ?thesis using rs w len False IoDone Cons.prems p
        by (auto simp: std_copy_def Let_def split: prod.split)
    qed
  qed
qed

lemma take_drop_append:
  "take n (drop i xs) @ take m (drop (i + n) xs) = take (n + m) (drop i xs)"
  by (simp add: take_add add.commute [of i n])

lemma sendLoop_correct:
  assumes "0 < k" and "send_fits k as" and "pos + k \<le> length data" and "k < size_mod"
  shows "\<exists>rs. UringTcpConnection_sendLoop tot k pos (int k) data as = Inr (rs, take (fst (kernel_takes as)) (drop pos data),
      if fst (kernel_takes as) = k then IoReturn tot else snd (kernel_takes as)) \<and>
    (\<forall>(i, l) \<in> set rs. pos \<le> i \<and> 0 < l \<and> int i + l = int (pos + k))"
  using assms
proof (induction as arbitrary: k pos)
  case Nil
  then show ?case by simp
next
  case (Cons a as)
  show ?case
  proof (cases a)
    case (IoError r e)
    with Cons.prems Cons.IH [of k pos] show ?thesis by fastforce
  next
    case (IoDone n)
    consider "n = 0" | "n = k" | "0 < n" "n < k" using Cons.prems(2) IoDone by fastforce
    then show ?thesis
    proof cases
      case 1
      with Cons.prems Cons.IH [of k pos] IoDone show ?thesis by (fastforce split: prod.split)
    next
      case 2
      then have "fst (kernel_takes as) = 0" using kernel_takes_fits [of 0 as] Cons.prems(2) IoDone by simp
      with 2 IoDone Cons.prems show ?thesis by (auto simp: szsub_no_wrap split: prod.split)
    next
      case 3
      then have p: "0 < k - n" "send_fits (k - n) as" "pos + n + (k - n) \<le> length data" "k - n < size_mod"
        using IoDone Cons.prems by auto
      from Cons.IH [OF p] obtain rs where rs:
        "UringTcpConnection_sendLoop tot (k - n) (pos + n) (int (k - n)) data as = Inr (rs, take (fst (kernel_takes as)) (drop (pos + n) data),
          if fst (kernel_takes as) = k - n then IoReturn tot else snd (kernel_takes as))"
        "\<forall>(i, l) \<in> set rs. pos + n \<le> i \<and> 0 < l \<and> int i + l = int (pos + n + (k - n))" by blast
      have sz: "szsub k n = k - n" using 3 Cons.prems(4) by (simp add: szsub_no_wrap)
      have len: "int k - int n = int (k - n)" using 3 by simp
      have le: "fst (kernel_takes as) \<le> k - n" by (rule kernel_takes_fits [OF p(2)])
      obtain m e where t: "kernel_takes as = (m, e)" by fastforce
      have w: "take n (drop pos data) @ take m (drop (pos + n) data) = take (n + m) (drop pos data)" by (rule take_drop_append)
      have mk: "m = k - n \<longleftrightarrow> n + m = k" using 3 by auto
      have "UringTcpConnection_sendLoop tot k pos (int k) data (a # as) =
          Inr ((pos, int k) # rs, take (n + m) (drop pos data), if n + m = k then IoReturn tot else e)"
        using rs(1) [unfolded len [symmetric]] w sz 3 IoDone t by (simp add: mk)
      moreover have "\<forall>(i, l) \<in> set ((pos, int k) # rs). pos \<le> i \<and> 0 < l \<and> int i + l = int (pos + k)"
        using rs(2) 3 Cons.prems(1) by fastforce
      ultimately show ?thesis using t IoDone by auto
    qed
  qed
qed


section \<open>Properties of reading and sending\<close>

text \<open>
  C21: \<^verbatim>\<open>read(buf, n)\<close> stores the bytes that arrive, in order, at the start of the buffer and nothing else, whatever the
  sizes of the completions; it returns \<open>n\<close> exactly when all \<open>n\<close> have arrived, closes the connection at the end
  of the stream or on a hard error before that, and otherwise waits; every request it makes ends at the end of
  the \<open>n\<close> bytes.  A read of no bytes flows off the end of the coroutine.
\<close>

theorem UringTcpConnection_read_correct:
  assumes "0 < n" and "read_fits n as" and "n \<le> length buf"
  shows "(\<exists>rs. UringTcpConnection_read buf (int n) as = Inr (rs, write_at 0 (fst (arrived as)) buf,
      if length (fst (arrived as)) = n then IoReturn (int n) else snd (arrived as)) \<and>
      (\<forall>(i, l) \<in> set rs. 0 < l \<and> int i + l = int n)) \<and>
    UringTcpConnection_read buf 0 as = Inl Undefined"
proof -
  from readLoop_correct [of n as "int n" "int n" 0 buf "int n"] assms have
    "\<exists>rs. UringTcpConnection_read buf (int n) as = Inr (rs, write_at 0 (fst (arrived as)) buf,
      if length (fst (arrived as)) = n then IoReturn (int n) else snd (arrived as)) \<and>
      (\<forall>(i, l) \<in> set rs. 0 < l \<and> int i + l = int n)"
    by (simp add: UringTcpConnection_read_def)
  moreover have "UringTcpConnection_read buf 0 as = Inl Undefined" by (cases as) (simp_all add: UringTcpConnection_read_def)
  ultimately show ?thesis by blast
qed

theorem UringTcpConnection_read_correct_witness:
  "(\<exists>rs. UringTcpConnection_read [0, 0, 0, 0] 3 [IoDone [1, 2], IoError (-4) EINTR, IoDone [3]] = Inr (rs, [1, 2, 3, 0], IoReturn 3)) \<and>
   UringTcpConnection_read [0, 0, 0, 0] 0 [IoDone [1, 2], IoError (-4) EINTR, IoDone [3]] = Inl Undefined"
  using UringTcpConnection_read_correct [of 3 "[IoDone [1, 2], IoError (-4) EINTR, IoDone [3]]" "[0, 0, 0, 0]"]
  by (auto simp: retryable_def write_at_def)

text \<open>
  C22: \<^verbatim>\<open>send(message)\<close> gives the kernel the bytes of the message in order, each once, whatever the sizes it takes; it returns
  the length exactly when all have been kernel_takes, closes the connection on a hard error, and otherwise waits;
  every request ends at the end of the message.  An empty message flows off the end of the coroutine.
\<close>

theorem UringTcpConnection_send_correct:
  assumes "message \<noteq> []" and "length message < 2 ^ 31" and "send_fits (length message) as"
  shows "(\<exists>rs. UringTcpConnection_sendString message as = Inr (rs, take (fst (kernel_takes as)) message,
      if fst (kernel_takes as) = length message then IoReturn (int (length message)) else snd (kernel_takes as)) \<and>
      (\<forall>(i, l) \<in> set rs. 0 < l \<and> int i + l = int (length message))) \<and>
    UringTcpConnection_sendString [] as = Inl Undefined"
proof -
  let ?n = "length message"
  have i32: "sint (of_nat ?n :: 32 word) = int ?n" using assms(2) by (simp add: signed_of_nat signed_take_bit_int_eq_self)
  have i64: "sint (of_nat ?n :: 64 word) = int ?n" using assms(2) by (simp add: signed_of_nat signed_take_bit_int_eq_self)
  have n: "nat (int ?n mod 2 ^ 64) = ?n" "?n < size_mod" using assms(2) by (simp_all add: size_mod_def)
  have s: "UringTcpConnection_sendString message as = UringTcpConnection_sendLoop (int ?n) ?n 0 (int ?n) message as"
    unfolding UringTcpConnection_sendString_def UringTcpConnection_send_def i32 Let_def n(1) i64 by simp
  from sendLoop_correct [of ?n as 0 message "int ?n"] assms n(2) have
    "\<exists>rs. UringTcpConnection_sendString message as = Inr (rs, take (fst (kernel_takes as)) message,
      if fst (kernel_takes as) = ?n then IoReturn (int ?n) else snd (kernel_takes as)) \<and>
      (\<forall>(i, l) \<in> set rs. 0 < l \<and> int i + l = int ?n)"
    unfolding s by simp
  moreover have "UringTcpConnection_sendString [] as = Inl Undefined"
    by (cases as) (simp_all add: UringTcpConnection_sendString_def UringTcpConnection_send_def)
  ultimately show ?thesis by blast
qed

theorem UringTcpConnection_send_correct_witness:
  "\<exists>rs. UringTcpConnection_sendString [1, 2, 3] [IoDone 2, IoDone 0, IoDone 1] = Inr (rs, [1, 2, 3], IoReturn 3)"
  using UringTcpConnection_send_correct [of "[1, 2, 3]" "[IoDone 2, IoDone 0, IoDone 1]"] by auto

text \<open>
  What happens to a negative result depends on \<^verbatim>\<open>errno\<close>, which completions do not set: with a left-over
  \<^verbatim>\<open>EINTR\<close> every error is tried again for ever, and without one an \<^verbatim>\<open>EAGAIN\<close> closes the connection.
\<close>

lemma read_ignores_result:
  assumes "0 < n"
  shows "UringTcpConnection_read buf n (replicate k (IoError r EINTR)) = Inr (replicate (Suc k) (0, n), buf, IoWaiting) \<and>
    UringTcpConnection_read buf n (IoError (-11) EOTHER # as) = Inr ([(0, n)], buf, IoClose (-11))"
proof -
  have "UringTcpConnection_readLoop n n 0 n buf (replicate k (IoError r EINTR)) = Inr (replicate (Suc k) (0, n), buf, IoWaiting)"
    using assms by (induction k) (simp_all add: retryable_def)
  then show ?thesis using assms by (simp add: UringTcpConnection_read_def retryable_def)
qed

end
