(* ===== verification/UringTcpServer.thy ===== *)
theory UringTcpServer
  imports UringTcp
begin

text \<open>
  The life of connections on completion-based loops: \<^verbatim>\<open>io_uring/UringCoroTcpConnection.cpp\<close>,
  \<^verbatim>\<open>io_uring/UringCoroTcpServer.h\<close>, \<^verbatim>\<open>io_uring/UringCoroTcpServer.cpp\<close> and
  \<^verbatim>\<open>io_uring/UringEventLoopThreadPool.h\<close>.

  \<^item> The state has every loop by its address, the connections and the server; an operation runs on the thread
    \<open>tid E\<close>.
  \<^item> A connection is owned by shared pointers, counted by \<open>ut_refs\<close>: the registry's, the one in the frame of its
    handler, and those that queued functors hold.  Functors that capture \<^verbatim>\<open>this\<close> hold none.
  \<^item> The handler is user code, the parameter \<open>H\<close>: it runs until it first suspends (\<open>False\<close>) or finishes (\<open>True\<close>).
\<close>

section \<open>State\<close>

datatype ut_state = UConnecting | UConnected | UDisconnecting | UDisconnected

datatype ut_task = UNone | URunning | USuspended | UDone

datatype ut_closure =
  UT_start nat | UT_shutdownInLoop nat | UT_forcecloseInLoop nat | UT_guard nat | UT_removeInLoop nat | UT_user nat

record UringTcpConnection =
  ut_loop :: nat
  ut_fd :: int
  ut_name :: string
  ut_peer :: sockaddr_in
  ut_handle :: bool
  ut_state :: ut_state
  ut_task :: ut_task
  ut_refs :: nat

record UringTcpServer =
  us_loop :: nat
  us_ipPort :: string
  us_name :: string
  us_listen_fd :: int
  us_pool :: EventLoopThreadPool
  us_started :: int
  us_nextConnId :: int
  us_conns :: "string \<rightharpoonup> nat"
  us_handle :: bool

record ('k, 'u) UringSys =
  uloops :: "nat \<rightharpoonup> ('k, ut_closure, 'u) UringLoop"
  uconns :: "nat \<rightharpoonup> UringTcpConnection"
  ushut_wr :: "int set"
  ushut_rdwr :: "int set"
  uclosed :: "int set"
  userver :: UringTcpServer

definition mod_uconn :: "nat \<Rightarrow> (UringTcpConnection \<Rightarrow> UringTcpConnection) \<Rightarrow> ('k, 'u) UringSys \<Rightarrow> ('k, 'u) UringSys result" where
  "mod_uconn p f s = bindR (derefR (uconns s) p) (\<lambda>cn. Inr (s\<lparr>uconns := (uconns s)(p \<mapsto> f cn)\<rparr>))"

definition uring_queueInLoop :: "('k, 'e) env_scheme \<Rightarrow> nat \<Rightarrow> ut_closure \<Rightarrow> ('k, 'u) UringSys \<Rightarrow> ('k, 'u) UringSys result" where
  "uring_queueInLoop E l f s = bindR (derefR (uloops s) l) (\<lambda>n.
     Inr (s\<lparr>uloops := (uloops s)(l \<mapsto> EventLoop_queueInLoop E f n)\<rparr>))"

section \<open>Life and death\<close>

definition UringTcpConnection_new :: "nat \<Rightarrow> nat \<Rightarrow> int \<Rightarrow> sockaddr_in \<Rightarrow> string \<Rightarrow> ('k, 'u) UringSys \<Rightarrow> ('k, 'u) UringSys" where
  "UringTcpConnection_new p l fd peer nm s = s\<lparr>uconns := (uconns s)(p \<mapsto> \<lparr>ut_loop = l, ut_fd = fd, ut_name = nm,
     ut_peer = peer, ut_handle = False, ut_state = UDisconnected, ut_task = UNone, ut_refs = 1\<rparr>)\<rparr>"

text \<open>The body closes the descriptor; destroying the frame of \<^verbatim>\<open>connectionLoop\<close> while it runs is undefined.\<close>

definition UringTcpConnection_destroy :: "nat \<Rightarrow> ('k, 'u) UringSys \<Rightarrow> ('k, 'u) UringSys result" where
  "UringTcpConnection_destroy p s = bindR (derefR (uconns s) p) (\<lambda>cn.
     let s1 = (if ut_fd cn > 0 then s\<lparr>uclosed := insert (ut_fd cn) (uclosed s)\<rparr> else s) in
     if ut_task cn = URunning then Inl Undefined else Inr (s1\<lparr>uconns := (uconns s1)(p := None)\<rparr>))"

definition uring_share :: "nat \<Rightarrow> ('k, 'u) UringSys \<Rightarrow> ('k, 'u) UringSys result" where
  "uring_share p s = mod_uconn p (\<lambda>cn. cn\<lparr>ut_refs := ut_refs cn + 1\<rparr>) s"

definition uring_release :: "nat \<Rightarrow> ('k, 'u) UringSys \<Rightarrow> ('k, 'u) UringSys result" where
  "uring_release p s = bindR (mod_uconn p (\<lambda>cn. cn\<lparr>ut_refs := ut_refs cn - 1\<rparr>) s) (\<lambda>s1.
     bindR (derefR (uconns s1) p) (\<lambda>cn. if ut_refs cn = 0 then UringTcpConnection_destroy p s1 else Inr s1))"

section \<open>Removal from the server\<close>

definition UringTcpServer_erase :: "string \<Rightarrow> ('k, 'u) UringSys \<Rightarrow> ('k, 'u) UringSys result" where
  "UringTcpServer_erase nm s = (case us_conns (userver s) nm of
     None \<Rightarrow> Inr s
   | Some q \<Rightarrow> uring_release q (s\<lparr>userver := (userver s)\<lparr>us_conns := (us_conns (userver s))(nm := None)\<rparr>\<rparr>))"

definition UringTcpServer_removeConnectionInLoop :: "nat \<Rightarrow> ('k, 'u) UringSys \<Rightarrow> ('k, 'u) UringSys result" where
  "UringTcpServer_removeConnectionInLoop p s = bindR (derefR (uconns s) p) (\<lambda>cn. UringTcpServer_erase (ut_name cn) s)"

text \<open>
  \<^verbatim>\<open>std::bind\<close> copies the pointer into the functor, which \<^verbatim>\<open>runInLoop\<close> runs at once on the server's thread and
  queues on another.
\<close>

definition UringTcpServer_removeConnection :: "('k, 'e) env_scheme \<Rightarrow> nat \<Rightarrow> ('k, 'u) UringSys \<Rightarrow> ('k, 'u) UringSys result" where
  "UringTcpServer_removeConnection E p s = bindR (uring_share p s) (\<lambda>s1.
     bindR (derefR (uloops s1) (us_loop (userver s1))) (\<lambda>n.
       if EventLoop_isInLoopThread E n
       then bindR (UringTcpServer_removeConnectionInLoop p s1) (uring_release p)
       else uring_queueInLoop E (us_loop (userver s1)) (UT_removeInLoop p) s1))"

section \<open>Closing\<close>

text \<open>
  \<^verbatim>\<open>handleClose\<close>: a guard for its own duration, the close callback with a temporary pointer, the new state, and a
  functor that owns the connection until the loop comes to it.
\<close>

definition UringTcpConnection_handleClose :: "('k, 'e) env_scheme \<Rightarrow> nat \<Rightarrow> ('k, 'u) UringSys \<Rightarrow> ('k, 'u) UringSys result" where
  "UringTcpConnection_handleClose E p s = bindR (derefR (uconns s) p) (\<lambda>cn.
     if ut_state cn = UDisconnected then Inr s
     else bindR (uring_share p s) (\<lambda>s1.
          bindR (bindR (uring_share p s1) (\<lambda>s2. bindR (UringTcpServer_removeConnection E p s2) (uring_release p))) (\<lambda>s3.
          bindR (mod_uconn p (\<lambda>cn. cn\<lparr>ut_state := UDisconnected\<rparr>) s3) (\<lambda>s4.
          bindR (uring_share p s4) (\<lambda>s5.
          bindR (uring_queueInLoop E (ut_loop cn) (UT_guard p) s5) (uring_release p))))))"

definition UringTcpConnection_shutdown :: "('k, 'e) env_scheme \<Rightarrow> nat \<Rightarrow> ('k, 'u) UringSys \<Rightarrow> ('k, 'u) UringSys result" where
  "UringTcpConnection_shutdown E p s = bindR (derefR (uconns s) p) (\<lambda>cn. cassert E (ut_state cn = UConnected)
     (bindR (mod_uconn p (\<lambda>cn. cn\<lparr>ut_state := UDisconnecting\<rparr>) s) (uring_queueInLoop E (ut_loop cn) (UT_shutdownInLoop p))))"

definition UringTcpConnection_forceclose :: "('k, 'e) env_scheme \<Rightarrow> nat \<Rightarrow> ('k, 'u) UringSys \<Rightarrow> ('k, 'u) UringSys result" where
  "UringTcpConnection_forceclose E p s = bindR (derefR (uconns s) p) (\<lambda>cn.
     if ut_state cn = UDisconnected \<or> ut_state cn = UDisconnecting then Inr s
     else cassert E (ut_state cn = UConnected \<or> ut_state cn = UConnecting)
       (bindR (mod_uconn p (\<lambda>cn. cn\<lparr>ut_state := UDisconnecting\<rparr>) s) (uring_queueInLoop E (ut_loop cn) (UT_forcecloseInLoop p))))"

definition UringTcpConnection_shutdownInLoop :: "nat \<Rightarrow> ('k, 'u) UringSys \<Rightarrow> ('k, 'u) UringSys result" where
  "UringTcpConnection_shutdownInLoop p s = bindR (derefR (uconns s) p) (\<lambda>cn.
     Inr (s\<lparr>ushut_wr := insert (ut_fd cn) (ushut_wr s)\<rparr>))"

definition UringTcpConnection_forcecloseInLoop :: "('k, 'e) env_scheme \<Rightarrow> nat \<Rightarrow> ('k, 'u) UringSys \<Rightarrow> ('k, 'u) UringSys result" where
  "UringTcpConnection_forcecloseInLoop E p s = bindR (derefR (uconns s) p) (\<lambda>cn.
     UringTcpConnection_handleClose E p (s\<lparr>ushut_rdwr := insert (ut_fd cn) (ushut_rdwr s)\<rparr>))"

section \<open>The connection's coroutine\<close>

text \<open>The handler has finished: its frame goes, with the pointer it holds; then the rest of \<^verbatim>\<open>connectionLoop\<close>.\<close>

definition UringTcpConnection_handlerDone :: "('k, 'e) env_scheme \<Rightarrow> nat \<Rightarrow> ('k, 'u) UringSys \<Rightarrow> ('k, 'u) UringSys result" where
  "UringTcpConnection_handlerDone E p s = bindR (uring_release p s) (\<lambda>s1. bindR (derefR (uconns s1) p) (\<lambda>cn.
     bindR (if ut_state cn \<noteq> UDisconnected then UringTcpConnection_forceclose E p s1 else Inr s1)
       (mod_uconn p (\<lambda>cn. cn\<lparr>ut_task := UDone\<rparr>))))"

definition UringTcpConnection_connectionLoop :: "(nat \<Rightarrow> ('k, 'u) UringSys \<Rightarrow> (bool \<times> ('k, 'u) UringSys) result) \<Rightarrow>
    ('k, 'e) env_scheme \<Rightarrow> nat \<Rightarrow> ('k, 'u) UringSys \<Rightarrow> ('k, 'u) UringSys result" where
  "UringTcpConnection_connectionLoop H E p s =
     bindR (mod_uconn p (\<lambda>cn. cn\<lparr>ut_task := URunning, ut_state := UConnected\<rparr>) s) (\<lambda>s1.
     bindR (uring_share p s1) (\<lambda>s2. bindR (H p s2) (\<lambda>(finished, s3).
       if finished then UringTcpConnection_handlerDone E p s3
       else mod_uconn p (\<lambda>cn. cn\<lparr>ut_task := USuspended\<rparr>) s3)))"

text \<open>A suspended handler has been resumed and has finished: control is transferred to \<^verbatim>\<open>connectionLoop\<close>.\<close>

definition UringTcpConnection_loopResumed :: "('k, 'e) env_scheme \<Rightarrow> nat \<Rightarrow> ('k, 'u) UringSys \<Rightarrow> ('k, 'u) UringSys result" where
  "UringTcpConnection_loopResumed E p s = bindR (mod_uconn p (\<lambda>cn. cn\<lparr>ut_task := URunning\<rparr>) s)
     (UringTcpConnection_handlerDone E p)"

definition UringTcpConnection_start :: "(nat \<Rightarrow> ('k, 'u) UringSys \<Rightarrow> (bool \<times> ('k, 'u) UringSys) result) \<Rightarrow>
    ('k, 'e) env_scheme \<Rightarrow> nat \<Rightarrow> ('k, 'u) UringSys \<Rightarrow> ('k, 'u) UringSys result" where
  "UringTcpConnection_start H E p s = bindR (mod_uconn p (\<lambda>cn. cn\<lparr>ut_state := UConnecting\<rparr>) s) (\<lambda>s1.
     bindR (derefR (uconns s1) p) (\<lambda>cn.
       if \<not> ut_handle cn then UringTcpConnection_forceclose E p s1
       else UringTcpConnection_connectionLoop H E p s1))"

section \<open>Queued functors\<close>

definition uring_run :: "(nat \<Rightarrow> ('k, 'u) UringSys \<Rightarrow> (bool \<times> ('k, 'u) UringSys) result) \<Rightarrow>
    (nat \<Rightarrow> ('k, 'u) UringSys \<Rightarrow> ('k, 'u) UringSys result) \<Rightarrow> ('k, 'e) env_scheme \<Rightarrow> ut_closure \<Rightarrow>
    ('k, 'u) UringSys \<Rightarrow> ('k, 'u) UringSys result" where
  "uring_run H user E f s = (case f of
     UT_start p \<Rightarrow> UringTcpConnection_start H E p s
   | UT_shutdownInLoop p \<Rightarrow> UringTcpConnection_shutdownInLoop p s
   | UT_forcecloseInLoop p \<Rightarrow> UringTcpConnection_forcecloseInLoop E p s
   | UT_guard p \<Rightarrow> Inr s
   | UT_removeInLoop p \<Rightarrow> UringTcpServer_removeConnectionInLoop p s
   | UT_user u \<Rightarrow> user u s)"

text \<open>Destroying a functor releases the pointer it owns.\<close>

definition uring_drop :: "ut_closure \<Rightarrow> ('k, 'u) UringSys \<Rightarrow> ('k, 'u) UringSys result" where
  "uring_drop f s = (case f of
     UT_start p \<Rightarrow> uring_release p s
   | UT_guard p \<Rightarrow> uring_release p s
   | UT_removeInLoop p \<Rightarrow> uring_release p s
   | _ \<Rightarrow> Inr s)"

text \<open>
  \<^verbatim>\<open>doPendingFunctors\<close> of the loop at \<open>l\<close>, whose functors reach every part of the state: all of them run before
  the vector that holds them is destroyed.
\<close>

definition uring_doPendingFunctors :: "(nat \<Rightarrow> ('k, 'u) UringSys \<Rightarrow> (bool \<times> ('k, 'u) UringSys) result) \<Rightarrow>
    (nat \<Rightarrow> ('k, 'u) UringSys \<Rightarrow> ('k, 'u) UringSys result) \<Rightarrow> ('k, 'e) env_scheme \<Rightarrow> nat \<Rightarrow>
    ('k, 'u) UringSys \<Rightarrow> ('k, 'u) UringSys result" where
  "uring_doPendingFunctors H user E l s = bindR (derefR (uloops s) l) (\<lambda>n. case EventLoop_swapPending n of
     (functors, n1) \<Rightarrow> bindR (foldR (uring_run H user E) functors (s\<lparr>uloops := (uloops s)(l \<mapsto> n1)\<rparr>)) (\<lambda>s1.
       bindR (derefR (uloops s1) l) (\<lambda>n2.
         foldR uring_drop functors (s1\<lparr>uloops := (uloops s1)(l \<mapsto> n2\<lparr>callingPendingFunctors := False\<rparr>)\<rparr>))))"

section \<open>The pool of loops\<close>

text \<open>
  \<^verbatim>\<open>UringEventLoopThreadPool\<close> repeats the text of the pool in \<^verbatim>\<open>net/TcpServer.cpp\<close>; its threads run
  completion-based loops, so its base loop has the state of one.
\<close>

definition UringEventLoopThreadPool_new :: "nat \<Rightarrow> string \<Rightarrow> EventLoopThreadPool" where
  "UringEventLoopThreadPool_new base nm = \<lparr>baseLoop = base, pool_name = nm, pool_started = False,
     numThreads = 0, nexti = 0, loops = []\<rparr>"

definition UringEventLoopThreadPool_setThreadNum :: "int \<Rightarrow> EventLoopThreadPool \<Rightarrow> EventLoopThreadPool" where
  "UringEventLoopThreadPool_setThreadNum n tp = tp\<lparr>numThreads := n\<rparr>"

definition UringEventLoopThreadPool_start :: "('k, 'e) env_scheme \<Rightarrow> (('k, 'c, 'u) UringLoop \<Rightarrow> ('k, 'c, 'u) UringLoop result) option \<Rightarrow>
    ('k, 'c, 'u) UringLoop \<Rightarrow> nat list \<Rightarrow> EventLoopThreadPool \<Rightarrow> (('k, 'c, 'u) UringLoop \<times> EventLoopThreadPool) result" where
  "UringEventLoopThreadPool_start E cb base fresh tp = EventLoopThreadPool_start E cb base fresh tp"

definition UringEventLoopThreadPool_getNextLoop :: "('k, 'e) env_scheme \<Rightarrow> ('k, 'c, 'u) UringLoop \<Rightarrow> EventLoopThreadPool \<Rightarrow>
    (nat \<times> EventLoopThreadPool) result" where
  "UringEventLoopThreadPool_getNextLoop E base tp = EventLoopThreadPool_getNextLoop E base tp"

definition UringEventLoopThreadPool_getAllLoops :: "EventLoopThreadPool \<Rightarrow> nat list" where
  "UringEventLoopThreadPool_getAllLoops tp = (if loops tp = [] then [baseLoop tp] else loops tp)"

section \<open>The server\<close>

text \<open>The constructor leaves \<^verbatim>\<open>listen_fd_\<close> uninitialised: \<open>fd0\<close> is what the memory holds.\<close>

definition UringTcpServer_new :: "int \<Rightarrow> nat \<Rightarrow> string \<Rightarrow> string \<Rightarrow> UringTcpServer" where
  "UringTcpServer_new fd0 l addr nm = \<lparr>us_loop = l, us_ipPort = addr, us_name = nm, us_listen_fd = fd0,
     us_pool = UringEventLoopThreadPool_new l nm, us_started = 0, us_nextConnId = 1, us_conns = Map.empty, us_handle = False\<rparr>"

definition UringTcpServer_setThreadNums :: "('k, 'e) env_scheme \<Rightarrow> int \<Rightarrow> ('k, 'u) UringSys \<Rightarrow> ('k, 'u) UringSys result" where
  "UringTcpServer_setThreadNums E n s = cassert E (n \<ge> 0)
     (Inr (s\<lparr>userver := (userver s)\<lparr>us_pool := UringEventLoopThreadPool_setThreadNum n (us_pool (userver s))\<rparr>\<rparr>))"

text \<open>
  \<^verbatim>\<open>start\<close> up to its accept loop, with the new socket and the results of \<^verbatim>\<open>bind\<close> and \<^verbatim>\<open>listen\<close>, which are only asserted;
  \<open>fresh\<close> lists the loops that the started threads report.  \<^verbatim>\<open>threadInitCallback_\<close> has no setter: it is empty.
\<close>

definition UringTcpServer_start :: "('k, 'e) env_scheme \<Rightarrow> int \<Rightarrow> int \<Rightarrow> int \<Rightarrow> nat list \<Rightarrow> ('k, 'u) UringSys \<Rightarrow>
    ('k, 'u) UringSys result" where
  "UringTcpServer_start E sock ret_bind ret_listen fresh s =
     (let s1 = s\<lparr>userver := (userver s)\<lparr>us_listen_fd := sock\<rparr>\<rparr> in
      cassert E (ret_bind = 0) (cassert E (ret_listen = 0)
       (let s2 = s1\<lparr>userver := (userver s1)\<lparr>us_started := 1\<rparr>\<rparr> in
        bindR (derefR (uloops s2) (us_loop (userver s2))) (\<lambda>base.
        bindR (UringEventLoopThreadPool_start E None base fresh (us_pool (userver s2))) (\<lambda>(base1, tp).
          Inr (s2\<lparr>userver := (userver s2)\<lparr>us_pool := tp\<rparr>, uloops := (uloops s2)(us_loop (userver s2) \<mapsto> base1)\<rparr>))))))"

text \<open>
  A new connection at \<open>p\<close>.  The increment of the identifier is undefined at the largest \<^verbatim>\<open>int\<close>; a connection
  registered under the name is released.  The functor that starts the connection owns a pointer.
\<close>

definition UringTcpServer_onNewConnection :: "(nat \<Rightarrow> ('k, 'u) UringSys \<Rightarrow> (bool \<times> ('k, 'u) UringSys) result) \<Rightarrow>
    ('k, 'e) env_scheme \<Rightarrow> nat \<Rightarrow> nat \<Rightarrow> int \<Rightarrow> sockaddr_in \<Rightarrow> ('k, 'u) UringSys \<Rightarrow> ('k, 'u) UringSys result" where
  "UringTcpServer_onNewConnection H E p l conn_fd peer s =
     (if us_nextConnId (userver s) = int_max then Inl Undefined
      else let nm = connName (us_name (userver s)) (us_nextConnId (userver s));
               s1 = s\<lparr>userver := (userver s)\<lparr>us_nextConnId := us_nextConnId (userver s) + 1\<rparr>\<rparr>;
               s2 = UringTcpConnection_new p l conn_fd peer nm s1
           in bindR (uring_share p s2) (\<lambda>s3.
              bindR (UringTcpServer_erase nm s3) (\<lambda>s4.
              let s5 = s4\<lparr>userver := (userver s4)\<lparr>us_conns := (us_conns (userver s4))(nm \<mapsto> p)\<rparr>\<rparr> in
              bindR (mod_uconn p (\<lambda>cn. cn\<lparr>ut_handle := us_handle (userver s5)\<rparr>) s5) (\<lambda>s6.
              bindR (uring_share p s6) (\<lambda>s7.
              bindR (derefR (uloops s7) l) (\<lambda>n.
              bindR (if EventLoop_isInLoopThread E n
                     then bindR (UringTcpConnection_start H E p s7) (uring_release p)
                     else uring_queueInLoop E l (UT_start p) s7)
                (uring_release p)))))))"

text \<open>One pass of the accept loop, with the result of the awaiter.\<close>

definition UringTcpServer_accepted :: "(nat \<Rightarrow> ('k, 'u) UringSys \<Rightarrow> (bool \<times> ('k, 'u) UringSys) result) \<Rightarrow>
    ('k, 'e) env_scheme \<Rightarrow> nat \<Rightarrow> int \<Rightarrow> sockaddr_in \<Rightarrow> ('k, 'u) UringSys \<Rightarrow> ('k, 'u) UringSys result" where
  "UringTcpServer_accepted H E p conn_fd peer s =
     (if conn_fd < 0 then Inr s
      else bindR (derefR (uloops s) (us_loop (userver s))) (\<lambda>base.
           bindR (UringEventLoopThreadPool_getNextLoop E base (us_pool (userver s))) (\<lambda>(ioLoop, tp).
             UringTcpServer_onNewConnection H E p ioLoop conn_fd peer (s\<lparr>userver := (userver s)\<lparr>us_pool := tp\<rparr>\<rparr>))))"

text \<open>The destructor, over the registry in the order \<open>names\<close>: each connection is handed to a functor of its loop.\<close>

definition UringTcpServer_destroyOne :: "('k, 'e) env_scheme \<Rightarrow> string \<Rightarrow> ('k, 'u) UringSys \<Rightarrow> ('k, 'u) UringSys result" where
  "UringTcpServer_destroyOne E nm s = (case us_conns (userver s) nm of
     None \<Rightarrow> Inr s
   | Some p \<Rightarrow> bindR (uring_share p s) (\<lambda>s1. bindR (UringTcpServer_erase nm s1) (\<lambda>s2.
       bindR (derefR (uconns s2) p) (\<lambda>cn.
       bindR (uring_share p s2) (\<lambda>s3. bindR (uring_queueInLoop E (ut_loop cn) (UT_guard p) s3) (uring_release p))))))"

definition UringTcpServer_destroy :: "('k, 'e) env_scheme \<Rightarrow> string list \<Rightarrow> ('k, 'u) UringSys \<Rightarrow> ('k, 'u) UringSys result" where
  "UringTcpServer_destroy E names s = foldR (UringTcpServer_destroyOne E) names s"


section \<open>Counting pointers\<close>

lemma uring_share_eq [simp]:
  "uconns s p = Some cn \<Longrightarrow> uring_share p s = Inr (s\<lparr>uconns := (uconns s)(p \<mapsto> cn\<lparr>ut_refs := ut_refs cn + 1\<rparr>)\<rparr>)"
  by (simp add: uring_share_def mod_uconn_def)

lemma uring_release_more:
  "uconns s p = Some cn \<Longrightarrow> 1 < ut_refs cn \<Longrightarrow>
   uring_release p s = Inr (s\<lparr>uconns := (uconns s)(p \<mapsto> cn\<lparr>ut_refs := ut_refs cn - 1\<rparr>)\<rparr>)"
  by (simp add: uring_release_def mod_uconn_def)

lemma uring_release_last:
  assumes "uconns s p = Some cn" and "ut_refs cn \<le> 1"
  shows "uring_release p s = (if ut_task cn = URunning then Inl Undefined
    else Inr (s\<lparr>uconns := (uconns s)(p := None), uclosed := (if ut_fd cn > 0 then insert (ut_fd cn) (uclosed s) else uclosed s)\<rparr>))"
  using assms by (simp add: uring_release_def mod_uconn_def UringTcpConnection_destroy_def Let_def)

lemma uring_queue_eq [simp]:
  "uloops s l = Some n \<Longrightarrow> uring_queueInLoop E l f s = Inr (s\<lparr>uloops := (uloops s)(l \<mapsto> EventLoop_queueInLoop E f n)\<rparr>)"
  by (simp add: uring_queueInLoop_def)

lemma queueInLoop_loop [simp]:
  "pendingFunctors (EventLoop_queueInLoop E f n) = pendingFunctors n @ [f]"
  "threadId (EventLoop_queueInLoop E f n) = threadId n"
  for n :: "('k, 'c, 'u) UringLoop"
  by (simp_all add: EventLoop_queueInLoop_def EventLoop_push_def EventLoop_notify_def EventLoop_wakeup_def)

text \<open>The registry's pointer is given up, and one is handed to the queued functor: the count stays.\<close>

definition unregistered :: "string \<Rightarrow> ('k, 'u) UringSys \<Rightarrow> UringTcpServer" where
  "unregistered nm s = (userver s)\<lparr>us_conns := (us_conns (userver s))(nm := None)\<rparr>"

lemma handleClose_local:
  assumes cn: "uconns s p = Some cn" "ut_state cn \<noteq> UDisconnected" "1 \<le> ut_refs cn"
    and reg: "us_conns (userver s) (ut_name cn) = Some p"
    and n: "uloops s (ut_loop cn) = Some n" and m: "uloops s (us_loop (userver s)) = Some m" "threadId m = tid E"
  shows "UringTcpConnection_handleClose E p s = Inr (s\<lparr>
    uconns := (uconns s)(p \<mapsto> cn\<lparr>ut_state := UDisconnected\<rparr>), userver := unregistered (ut_name cn) s,
    uloops := (uloops s)(ut_loop cn \<mapsto> EventLoop_queueInLoop E (UT_guard p) n)\<rparr>)"
  using assms
  by (simp add: UringTcpConnection_handleClose_def UringTcpServer_removeConnection_def EventLoop_isInLoopThread_def
      UringTcpServer_removeConnectionInLoop_def UringTcpServer_erase_def uring_release_more mod_uconn_def unregistered_def)

lemma handleClose_remote:
  assumes cn: "uconns s p = Some cn" "ut_state cn \<noteq> UDisconnected" "1 \<le> ut_refs cn"
    and n: "uloops s (ut_loop cn) = Some n" and m: "uloops s (us_loop (userver s)) = Some m" "threadId m \<noteq> tid E"
    and l: "us_loop (userver s) \<noteq> ut_loop cn"
  shows "UringTcpConnection_handleClose E p s = Inr (s\<lparr>
    uconns := (uconns s)(p \<mapsto> cn\<lparr>ut_state := UDisconnected, ut_refs := ut_refs cn + 2\<rparr>),
    uloops := (uloops s)(us_loop (userver s) \<mapsto> EventLoop_queueInLoop E (UT_removeInLoop p) m,
      ut_loop cn \<mapsto> EventLoop_queueInLoop E (UT_guard p) n)\<rparr>)"
  using assms
  by (simp add: UringTcpConnection_handleClose_def UringTcpServer_removeConnection_def EventLoop_isInLoopThread_def
      uring_release_more mod_uconn_def)

lemma loopResumed_closed:
  assumes "uconns s p = Some cn" and "ut_state cn = UDisconnected" and "1 < ut_refs cn"
  shows "UringTcpConnection_loopResumed E p s = Inr (s\<lparr>uconns := (uconns s)(p \<mapsto> cn\<lparr>ut_refs := ut_refs cn - 1, ut_task := UDone\<rparr>)\<rparr>)"
  using assms by (simp add: UringTcpConnection_loopResumed_def UringTcpConnection_handlerDone_def mod_uconn_def uring_release_more)

lemma loopResumed_last:
  assumes "uconns s p = Some cn" and "ut_refs cn \<le> 1"
  shows "UringTcpConnection_loopResumed E p s = Inl Undefined"
  using assms by (simp add: UringTcpConnection_loopResumed_def UringTcpConnection_handlerDone_def mod_uconn_def uring_release_last)

section \<open>Properties\<close>

text \<open>An open connection whose handler is suspended, owned by the registry and by its handler's frame.\<close>

definition uring_open :: "('k, 'e) env_scheme \<Rightarrow> nat \<Rightarrow> UringTcpConnection \<Rightarrow> ('k, 'u) UringSys \<Rightarrow> bool" where
  "uring_open E p cn s \<longleftrightarrow> uconns s p = Some cn \<and> ut_state cn = UConnected \<and> ut_task cn = USuspended \<and> ut_refs cn = 2 \<and>
     us_conns (userver s) (ut_name cn) = Some p \<and>
     (\<exists>n m. uloops s (ut_loop cn) = Some n \<and> threadId n = tid E \<and> uloops s (us_loop (userver s)) = Some m \<and>
       (threadId m = tid E \<longleftrightarrow> us_loop (userver s) = ut_loop cn))"

text \<open>Running a queued functor and destroying it.\<close>

definition uring_consume :: "(nat \<Rightarrow> ('k, 'u) UringSys \<Rightarrow> (bool \<times> ('k, 'u) UringSys) result) \<Rightarrow>
    (nat \<Rightarrow> ('k, 'u) UringSys \<Rightarrow> ('k, 'u) UringSys result) \<Rightarrow> ('k, 'e) env_scheme \<Rightarrow> ut_closure \<Rightarrow>
    ('k, 'u) UringSys \<Rightarrow> ('k, 'u) UringSys result" where
  "uring_consume H user E f s = bindR (uring_run H user E f s) (uring_drop f)"

definition uring_gone :: "nat \<Rightarrow> UringTcpConnection \<Rightarrow> ('k, 'u) UringSys \<Rightarrow> bool" where
  "uring_gone p cn u \<longleftrightarrow> uconns u p = None \<and> us_conns (userver u) (ut_name cn) = None \<and> (ut_fd cn \<in> uclosed u \<or> ut_fd cn \<le> 0)"

text \<open>
  C23: a connection that closes from within its handler, which then finishes without suspending again, is destroyed
  properly: exactly when the functors queued by \<^verbatim>\<open>handleClose\<close> have run, on one loop or on two and then in
  either order, its descriptor closed, its name no longer registered and its coroutine finished.
\<close>

theorem UringTcpConnection_close_and_finish:
  assumes "uring_open E p cn s"
  shows "\<exists>t. bindR (UringTcpConnection_handleClose E p s) (UringTcpConnection_loopResumed E p) = Inr t \<and>
    (\<exists>cn'. uconns t p = Some cn' \<and> ut_state cn' = UDisconnected \<and> ut_task cn' = UDone) \<and>
    (if us_loop (userver s) = ut_loop cn then \<exists>u. uring_consume H user E (UT_guard p) t = Inr u \<and> uring_gone p cn u
     else (\<exists>u. bindR (uring_consume H user E (UT_guard p) t) (uring_consume H user E' (UT_removeInLoop p)) = Inr u \<and> uring_gone p cn u) \<and>
          (\<exists>u. bindR (uring_consume H user E' (UT_removeInLoop p) t) (uring_consume H user E (UT_guard p)) = Inr u \<and> uring_gone p cn u))"
proof -
  obtain n m where cn: "uconns s p = Some cn" "ut_state cn \<noteq> UDisconnected" "1 \<le> ut_refs cn" "ut_refs cn = 2"
    and reg: "us_conns (userver s) (ut_name cn) = Some p"
    and n: "uloops s (ut_loop cn) = Some n" and m: "uloops s (us_loop (userver s)) = Some m"
    and th: "threadId m = tid E \<longleftrightarrow> us_loop (userver s) = ut_loop cn"
    using assms(1) by (auto simp: uring_open_def)
  show ?thesis
  proof (cases "us_loop (userver s) = ut_loop cn")
    case True
    let ?s1 = "s\<lparr>uconns := (uconns s)(p \<mapsto> cn\<lparr>ut_state := UDisconnected\<rparr>), userver := unregistered (ut_name cn) s,
      uloops := (uloops s)(ut_loop cn \<mapsto> EventLoop_queueInLoop E (UT_guard p) n)\<rparr>"
    have "UringTcpConnection_handleClose E p s = Inr ?s1"
      using handleClose_local [OF cn(1-3) reg n m, of E] th True by simp
    moreover have "UringTcpConnection_loopResumed E p ?s1 =
        Inr (?s1\<lparr>uconns := (uconns ?s1)(p \<mapsto> cn\<lparr>ut_state := UDisconnected, ut_refs := ut_refs cn - 1, ut_task := UDone\<rparr>)\<rparr>)"
      using loopResumed_closed [of ?s1 p "cn\<lparr>ut_state := UDisconnected\<rparr>" E] cn by simp
    ultimately show ?thesis using True cn by (auto simp: uring_consume_def uring_gone_def uring_run_def uring_drop_def uring_release_last unregistered_def)
  next
    case False
    let ?s1 = "s\<lparr>uconns := (uconns s)(p \<mapsto> cn\<lparr>ut_state := UDisconnected, ut_refs := ut_refs cn + 2\<rparr>),
      uloops := (uloops s)(us_loop (userver s) \<mapsto> EventLoop_queueInLoop E (UT_removeInLoop p) m,
        ut_loop cn \<mapsto> EventLoop_queueInLoop E (UT_guard p) n)\<rparr>"
    have "UringTcpConnection_handleClose E p s = Inr ?s1"
      using handleClose_remote [OF cn(1-3) n m, of E] th False by simp
    moreover have "UringTcpConnection_loopResumed E p ?s1 =
        Inr (?s1\<lparr>uconns := (uconns ?s1)(p \<mapsto> cn\<lparr>ut_state := UDisconnected, ut_refs := 3, ut_task := UDone\<rparr>)\<rparr>)"
      using loopResumed_closed [of ?s1 p "cn\<lparr>ut_state := UDisconnected, ut_refs := ut_refs cn + 2\<rparr>" E] cn by simp
    ultimately show ?thesis using False cn reg
      by (auto simp: uring_consume_def uring_gone_def uring_drop_def uring_run_def uring_release_last uring_release_more
          UringTcpServer_removeConnectionInLoop_def UringTcpServer_erase_def)
  qed
qed

text \<open>
  C24: \<^verbatim>\<open>forceclose()\<close> on a connection whose handler is suspended, with the server on the connection's loop and no other
  functor waiting, depends on when the interrupted operation completes.  The functor it queues shuts the socket down and
  closes the connection, queueing the guard functor.  If the completion is handled by the next poll, before that one runs, the
  handler finishes and the guard functor destroys the connection properly.  If it comes only after that functor
  has run too, only the handler's frame still owns the connection: when the handler finishes, its frame releases the last pointer
  and the connection destroys the frame of its own running coroutine, which is undefined.
\<close>

theorem UringTcpConnection_forceclose_suspended:
  assumes "uring_open E p cn s" and "us_loop (userver s) = ut_loop cn"
    and "uloops s (ut_loop cn) = Some n" and "pendingFunctors n = []"
  shows "\<exists>s2. bindR (UringTcpConnection_forceclose E p s) (uring_doPendingFunctors H user E (ut_loop cn)) = Inr s2 \<and>
    ut_fd cn \<in> ushut_rdwr s2 \<and> uconns s2 p = Some (cn\<lparr>ut_state := UDisconnected\<rparr>) \<and>
    (\<exists>u v. UringTcpConnection_loopResumed E p s2 = Inr u \<and>
       uring_doPendingFunctors H user E (ut_loop cn) u = Inr v \<and> uring_gone p cn v) \<and>
    (\<exists>t cn'. uring_doPendingFunctors H user E (ut_loop cn) s2 = Inr t \<and>
       uconns t p = Some cn' \<and> ut_refs cn' = 1 \<and> ut_state cn' = UDisconnected \<and> ut_task cn' = USuspended \<and>
       UringTcpConnection_loopResumed E p t = Inl Undefined)"
proof -
  have cn: "uconns s p = Some cn" "ut_state cn = UConnected" "ut_refs cn = 2" "ut_task cn = USuspended"
    and reg: "us_conns (userver s) (ut_name cn) = Some p" and th: "threadId n = tid E"
    using assms(1,3) by (auto simp: uring_open_def)
  let ?l = "ut_loop cn" let ?n1 = "EventLoop_queueInLoop E (UT_forcecloseInLoop p) n"
  let ?cn1 = "cn\<lparr>ut_state := UDisconnecting\<rparr>"
  let ?s1 = "s\<lparr>uconns := (uconns s)(p \<mapsto> ?cn1), uloops := (uloops s)(?l \<mapsto> ?n1)\<rparr>"
  have f: "UringTcpConnection_forceclose E p s = Inr ?s1"
    using cn assms(3) by (simp add: UringTcpConnection_forceclose_def cassert_def mod_uconn_def)
  let ?n2 = "?n1\<lparr>callingPendingFunctors := True, pendingFunctors := []\<rparr>"
  let ?s2 = "s\<lparr>uconns := (uconns s)(p \<mapsto> ?cn1), uloops := (uloops s)(?l \<mapsto> ?n2), ushut_rdwr := insert (ut_fd cn) (ushut_rdwr s)\<rparr>"
  have h: "UringTcpConnection_handleClose E p ?s2 = Inr (?s2\<lparr>uconns := (uconns s)(p \<mapsto> cn\<lparr>ut_state := UDisconnected\<rparr>),
      userver := unregistered (ut_name cn) s, uloops := (uloops s)(?l \<mapsto> EventLoop_queueInLoop E (UT_guard p) ?n2)\<rparr>)"
    using handleClose_local [of ?s2 p ?cn1 ?n2 ?n2 E] cn reg assms(2) th by (simp add: unregistered_def)
  let ?n3 = "(EventLoop_queueInLoop E (UT_guard p) ?n2)\<lparr>callingPendingFunctors := False\<rparr>"
  let ?s3 = "s\<lparr>uconns := (uconns s)(p \<mapsto> cn\<lparr>ut_state := UDisconnected\<rparr>), ushut_rdwr := insert (ut_fd cn) (ushut_rdwr s),
      userver := unregistered (ut_name cn) s, uloops := (uloops s)(?l \<mapsto> ?n3)\<rparr>"
  have d1: "uring_doPendingFunctors H user E ?l ?s1 = Inr ?s3"
    using h assms(4) by (simp add: uring_doPendingFunctors_def EventLoop_swapPending_def uring_run_def uring_drop_def
        UringTcpConnection_forcecloseInLoop_def)
  let ?n4 = "?n3\<lparr>pendingFunctors := [], callingPendingFunctors := False\<rparr>"
  let ?s4 = "?s3\<lparr>uloops := (uloops s)(?l \<mapsto> ?n4), uconns := (uconns s)(p \<mapsto> cn\<lparr>ut_state := UDisconnected, ut_refs := 1\<rparr>)\<rparr>"
  have d2: "uring_doPendingFunctors H user E ?l ?s3 = Inr ?s4"
    using cn by (simp add: uring_doPendingFunctors_def EventLoop_swapPending_def uring_run_def uring_drop_def uring_release_more)
  have "UringTcpConnection_loopResumed E p ?s4 = Inl Undefined"
    by (rule loopResumed_last [where cn = "cn\<lparr>ut_state := UDisconnected, ut_refs := 1\<rparr>"]) simp_all
  note late = this
  let ?cn5 = "cn\<lparr>ut_state := UDisconnected, ut_refs := 1, ut_task := UDone\<rparr>"
  let ?s5 = "?s3\<lparr>uconns := (uconns s)(p \<mapsto> ?cn5)\<rparr>"
  have r: "UringTcpConnection_loopResumed E p ?s3 = Inr ?s5"
    using loopResumed_closed [of ?s3 p "cn\<lparr>ut_state := UDisconnected\<rparr>" E] cn by simp
  have "\<exists>v. uring_doPendingFunctors H user E ?l ?s5 = Inr v \<and> uring_gone p cn v"
    using cn by (auto simp: uring_doPendingFunctors_def EventLoop_swapPending_def uring_run_def uring_drop_def
        uring_release_last uring_gone_def unregistered_def)
  with late r f d1 d2 cn show ?thesis by (intro exI [of _ ?s3]) simp
qed


text \<open>A connection accepted on the thread of its loop whose handler suspends is such a connection.\<close>

lemma onNewConnection_open:
  assumes "us_nextConnId (userver s) \<noteq> int_max" and "us_handle (userver s)" and "uloops s l = Some n" and "threadId n = tid E"
    and "us_conns (userver s) (connName (us_name (userver s)) (us_nextConnId (userver s))) = None"
    and "uloops s (us_loop (userver s)) = Some m" and "threadId m = tid E \<longleftrightarrow> us_loop (userver s) = l"
  shows "\<exists>cn t. UringTcpServer_onNewConnection (\<lambda>p s. Inr (False, s)) E p l fd peer s = Inr t \<and> uring_open E p cn t \<and>
    ut_fd cn = fd \<and> ut_loop cn = l \<and> us_nextConnId (userver t) = us_nextConnId (userver s) + 1"
proof -
  let ?nm = "connName (us_name (userver s)) (us_nextConnId (userver s))"
  define cn where "cn = \<lparr>ut_loop = l, ut_fd = fd, ut_name = ?nm, ut_peer = peer, ut_handle = True,
    ut_state = UConnected, ut_task = USuspended, ut_refs = 2\<rparr>"
  have "\<exists>t. UringTcpServer_onNewConnection (\<lambda>p s. Inr (False, s)) E p l fd peer s = Inr t \<and> uconns t p = Some cn \<and>
    uloops t = uloops s \<and> userver t = (userver s)\<lparr>us_nextConnId := us_nextConnId (userver s) + 1, us_conns := (us_conns (userver s))(?nm \<mapsto> p)\<rparr>"
    using assms
    by (simp add: UringTcpServer_onNewConnection_def UringTcpConnection_new_def UringTcpServer_erase_def Let_def mod_uconn_def
        EventLoop_isInLoopThread_def UringTcpConnection_start_def UringTcpConnection_connectionLoop_def uring_release_more cn_def numeral_2_eq_2)
  then show ?thesis using assms by (auto simp: uring_open_def cn_def)
qed

section \<open>Samples\<close>

text \<open>
  Two loops on the threads \<open>t0\<close> and \<open>t1\<close>, the server on the first, a connection with a suspended handler on the
  loop \<open>l\<close>.
\<close>

definition sample_usys :: "nat \<Rightarrow> int \<Rightarrow> int \<Rightarrow> (unit, unit) UringSys" where
  "sample_usys l t0 t1 = \<lparr>uloops = [0 \<mapsto> UringLoop_extend () (EventLoop_members t0 ()), 4 \<mapsto> UringLoop_extend () (EventLoop_members t1 ())],
     uconns = [5 \<mapsto> \<lparr>ut_loop = l, ut_fd = 7, ut_name = ''u'', ut_peer = zero_sockaddr, ut_handle = True, ut_state = UConnected,
       ut_task = USuspended, ut_refs = 2\<rparr>],
     ushut_wr = {}, ushut_rdwr = {}, uclosed = {}, userver = (UringTcpServer_new 0 0 ''a'' ''u'')\<lparr>us_conns := [''u'' \<mapsto> 5]\<rparr>\<rparr>"

definition sample_uconn :: "nat \<Rightarrow> UringTcpConnection" where
  "sample_uconn l = \<lparr>ut_loop = l, ut_fd = 7, ut_name = ''u'', ut_peer = zero_sockaddr, ut_handle = True, ut_state = UConnected,
     ut_task = USuspended, ut_refs = 2\<rparr>"

definition thread_env :: "int \<Rightarrow> unit env" where
  "thread_env t = sample_env\<lparr>tid := t\<rparr>"

lemma sample_usys_open:
  "uring_open (thread_env 1) 5 (sample_uconn 0) (sample_usys 0 1 2)" "uring_open (thread_env 2) 5 (sample_uconn 4) (sample_usys 4 1 2)"
  by (simp_all add: uring_open_def sample_usys_def sample_uconn_def UringTcpServer_new_def UringLoop_extend_def thread_env_def
      Channel.EventLoop.defs EventLoop_members_def)

theorem UringTcpConnection_close_and_finish_witness:
  "\<exists>t u v. bindR (UringTcpConnection_handleClose (thread_env 2) 5 (sample_usys 4 1 2)) (UringTcpConnection_loopResumed (thread_env 2) 5) = Inr t \<and>
    bindR (uring_consume (\<lambda>p s. Inr (False, s)) (\<lambda>c. Inr) (thread_env 2) (UT_guard 5) t)
      (uring_consume (\<lambda>p s. Inr (False, s)) (\<lambda>c. Inr) (thread_env 1) (UT_removeInLoop 5)) = Inr u \<and> uring_gone 5 (sample_uconn 4) u \<and>
    bindR (UringTcpConnection_handleClose (thread_env 1) 5 (sample_usys 0 1 2)) (UringTcpConnection_loopResumed (thread_env 1) 5) = Inr v"
proof -
  have l: "us_loop (userver (sample_usys x 1 2)) = 0" "ut_loop (sample_uconn x) = x" for x
    by (simp_all add: sample_usys_def UringTcpServer_new_def sample_uconn_def)
  show ?thesis
    using UringTcpConnection_close_and_finish [OF sample_usys_open(2), of "\<lambda>p s. Inr (False, s)" "\<lambda>c. Inr" "thread_env 1"]
      UringTcpConnection_close_and_finish [OF sample_usys_open(1), of "\<lambda>p s. Inr (False, s)" "\<lambda>c. Inr" "thread_env 1"]
    by (auto simp: l)
qed

theorem UringTcpConnection_forceclose_suspended_witness:
  "\<exists>s2 t u v. bindR (UringTcpConnection_forceclose (thread_env 1) 5 (sample_usys 0 1 2))
      (uring_doPendingFunctors (\<lambda>p s. Inr (False, s)) (\<lambda>c. Inr) (thread_env 1) 0) = Inr s2 \<and>
    UringTcpConnection_loopResumed (thread_env 1) 5 s2 = Inr u \<and>
    uring_doPendingFunctors (\<lambda>p s. Inr (False, s)) (\<lambda>c. Inr) (thread_env 1) 0 u = Inr v \<and> uring_gone 5 (sample_uconn 0) v \<and>
    uring_doPendingFunctors (\<lambda>p s. Inr (False, s)) (\<lambda>c. Inr) (thread_env 1) 0 s2 = Inr t \<and>
    UringTcpConnection_loopResumed (thread_env 1) 5 t = Inl Undefined"
proof -
  have l: "us_loop (userver (sample_usys 0 1 2)) = ut_loop (sample_uconn 0)" "ut_loop (sample_uconn 0) = 0"
    "uloops (sample_usys 0 1 2) (ut_loop (sample_uconn 0)) = Some (UringLoop_extend () (EventLoop_members 1 ()))"
    by (simp_all add: sample_usys_def UringTcpServer_new_def sample_uconn_def)
  have "pendingFunctors (UringLoop_extend () (EventLoop_members 1 ()) :: (unit, ut_closure, unit) UringLoop) = []"
    by (simp add: UringLoop_extend_def Channel.EventLoop.defs EventLoop_members_def)
  from UringTcpConnection_forceclose_suspended [OF sample_usys_open(1) l(1,3) this, of "\<lambda>p s. Inr (False, s)" "\<lambda>c. Inr"]
  show ?thesis unfolding l(2) by blast
qed

end
