(* ===== verification/EchoServer.thy ===== *)
theory EchoServer
  imports TcpServer
begin

text \<open>
  The echo server of \<^verbatim>\<open>examples/echo_server.cpp\<close>: its callbacks on the server and connections of \<^verbatim>\<open>net/\<close>.  The
  composition is that of the program: a readable event runs \<^verbatim>\<open>handleRead\<close>, which fills the input buffer and calls
  \<^verbatim>\<open>onMessage\<close>, which takes the bytes out, sends them back and, after \<^verbatim>\<open>quit\<close>, shuts the connection down.
\<close>

section \<open>The callbacks\<close>

definition is_quit :: "byte list \<Rightarrow> bool" where
  "is_quit msg \<longleftrightarrow> msg = map of_char ''quit'' @ [13, 10] \<or> msg = map of_char ''quit'' @ [10]"

text \<open>\<^verbatim>\<open>onConnection\<close> only writes to the log; \<open>wr\<close> gives the outcome of a write.\<close>

definition EchoServer_onConnection :: "nat \<Rightarrow> ('k, 'z) Net_scheme \<Rightarrow> ('k, 'z) Net_scheme result" where
  "EchoServer_onConnection p s = bindR (derefR (conns s) p) (\<lambda>cn. Inr s)"

definition EchoServer_onMessage :: "('k, 'e) env_scheme \<Rightarrow> (nat \<Rightarrow> byte list \<Rightarrow> write_result) \<Rightarrow> nat \<Rightarrow> Timestamp \<Rightarrow>
    ('k, 'z) Net_scheme \<Rightarrow> ('k, 'z) Net_scheme result" where
  "EchoServer_onMessage E wr p ts s = bindR (derefR (conns s) p) (\<lambda>cn.
     bindR (Buffer_retrieveAllAsString (inputBuffer cn)) (\<lambda>(msg, buf).
     bindR (TcpConnection_send E p msg (wr p msg) (set_conn p (cn\<lparr>inputBuffer := buf\<rparr>) s)) (\<lambda>s1.
       if is_quit msg then TcpConnection_shutdown E p s1 else Inr s1)))"

text \<open>What the constructor installs; \<open>cl\<close> is the server's close callback.\<close>

definition EchoServer_app :: "('k, 'e) env_scheme \<Rightarrow> (nat \<Rightarrow> byte list \<Rightarrow> write_result) \<Rightarrow>
    (nat \<Rightarrow> ('k, 'z) Net_scheme \<Rightarrow> ('k, 'z) Net_scheme result) \<Rightarrow> ('k, 'z) app" where
  "EchoServer_app E wr cl = \<lparr>onConnection = EchoServer_onConnection, onMessage = EchoServer_onMessage E wr, onClose = cl\<rparr>"

section \<open>One message\<close>

text \<open>The reference: what a client gets back for the messages, as the reads cut the stream.\<close>

fun echoed :: "byte list list \<Rightarrow> byte list" where
  "echoed [] = []"
| "echoed (m # ms) = m @ (if is_quit m then [] else echoed ms)"

definition quit_in :: "byte list list \<Rightarrow> bool" where
  "quit_in ms \<longleftrightarrow> (\<exists>m \<in> set ms. is_quit m)"

lemma echoed_snoc: "echoed (ms @ [d]) = echoed ms @ (if quit_in ms then [] else d)"
  by (induction ms) (auto simp: quit_in_def)

lemma quit_in_snoc: "quit_in (ms @ [d]) \<longleftrightarrow> quit_in ms \<or> is_quit d"
  by (auto simp: quit_in_def)

lemma conn_ok_input:
  "conn_ok interest p s \<Longrightarrow> conns s p = Some cn \<Longrightarrow> conn_ok interest p (set_conn p (cn\<lparr>inputBuffer := b\<rparr>) s)"
  by (auto simp: conn_ok_def)

text \<open>The write side is closed exactly when \<^verbatim>\<open>quit\<close> has come and nothing waits any more.\<close>

definition echo_conn :: "('k \<Rightarrow> int \<rightharpoonup> ev \<times> nat) \<Rightarrow> ('k, 'e) env_scheme \<Rightarrow> nat \<Rightarrow> ('k, 'z) Net_scheme \<Rightarrow> byte list list \<Rightarrow> bool" where
  "echo_conn interest E p s ms \<longleftrightarrow> conn_ok interest p s \<and> threadId s = tid E \<and> (\<exists>cn. conns s p = Some cn \<and>
     Buffer_inv (inputBuffer cn) \<and> content (inputBuffer cn) = [] \<and> (state cn = kConnected \<longleftrightarrow> \<not> quit_in ms) \<and>
     wire s (socket_fd cn) @ content (outputBuffer cn) = echoed ms \<and>
     (socket_fd cn \<in> wshut s \<longleftrightarrow> quit_in ms \<and> content (outputBuffer cn) = []))"

lemma echo_send:
  assumes doc: "epoll_documented (epoll_ctl E) interest" and ok: "conn_ok interest p s" and t: "threadId s = tid E"
    and cn: "conns s p = Some cn" "state cn = kConnected" "socket_fd cn \<notin> wshut s"
    and d: "length d \<le> max_size" "write_ok w (length d)" "\<not> lost w"
    and r: "bindR (TcpConnection_send E p d w s) (\<lambda>s1. if is_quit d then TcpConnection_shutdown E p s1 else Inr s1) = Inr s'"
  shows "conn_ok interest p s' \<and> threadId s' = tid E \<and> (\<exists>cn'. conns s' p = Some cn' \<and> inputBuffer cn' = inputBuffer cn \<and>
    (state cn' = kConnected \<longleftrightarrow> \<not> is_quit d) \<and>
    wire s' (socket_fd cn') @ content (outputBuffer cn') = wire s (socket_fd cn) @ content (outputBuffer cn) @ d \<and>
    (socket_fd cn' \<in> wshut s' \<longleftrightarrow> is_quit d \<and> content (outputBuffer cn') = []))"
proof -
  have "TcpConnection_send E p d w s = TcpConnection_sendInLoop E p d w s"
    using cn t by (simp add: TcpConnection_send_def EventLoop_isInLoopThread_def)
  with r obtain s1 where s1: "TcpConnection_sendInLoop E p d w s = Inr s1"
    and r1: "(if is_quit d then TcpConnection_shutdown E p s1 else Inr s1) = Inr s'" by (auto simp: bindR_eq_Inr)
  from sendInLoop_ok [OF doc ok t d(2,1) cn(1)] s1 d(3) obtain cn1 where 1: "conn_ok interest p s1"
    "out_stream p s1 = out_stream p s @ d" "wshut s1 = wshut s" "conns s1 = (conns s)(p \<mapsto> cn1)" "same_input cn cn1" "threadId s1 = tid E"
    using t by auto
  have c1: "conns s1 p = Some cn1" using 1(4) by simp
  have w1: "wire s1 (socket_fd cn1) @ content (outputBuffer cn1) = wire s (socket_fd cn) @ content (outputBuffer cn) @ d"
    using 1(2) c1 cn(1) by (simp add: out_stream_def)
  show ?thesis
  proof (cases "is_quit d")
    case False
    then show ?thesis using r1 1 c1 w1 cn(2,3) by simp
  next
    case True
    let ?cn2 = "cn1\<lparr>state := kDisconnecting\<rparr>" let ?s2 = "set_conn p ?cn2 s1"
    have ok2: "conn_ok interest p ?s2" using conn_ok_state(1) [OF 1(1) c1] by simp
    have "TcpConnection_shutdownInLoop E p ?s2 = Inr s'"
      using r1 True c1 1(5,6) cn(2) by (simp add: TcpConnection_shutdown_def setState_def EventLoop_isInLoopThread_def)
    then have "s' = (if content (outputBuffer ?cn2) = [] then ?s2\<lparr>wshut := insert (socket_fd ?cn2) (wshut ?s2)\<rparr> else ?s2)"
      using shutdownInLoop_ok [OF ok2, of E ?cn2] 1(6) by simp
    then show ?thesis using True 1 w1 cn(3) ok2
      by (cases "content (outputBuffer cn1) = []") (simp_all add: conn_ok_wshut)
  qed
qed

text \<open>One readable event on which the kernel delivers \<open>d\<close>.\<close>

lemma echo_message:
  assumes doc: "epoll_documented (epoll_ctl E) interest" and inv: "echo_conn interest E p s ms" and cn: "conns s p = Some cn"
    and rd: "readv_bounded readv" "length (buffer (inputBuffer cn)) + extrabuf_size \<le> max_size"
      "readv (readFd_iov (Buffer_writableBytes (inputBuffer cn))) = Inr d" "d \<noteq> []"
    and w: "write_ok (wr p d) (length d)" "\<not> lost (wr p d)"
    and r: "TcpConnection_handleRead (EchoServer_app E wr cl) E readv p ts s = Inr s'"
  shows "echo_conn interest E p s' (ms @ [d])"
proof -
  have i: "Buffer_inv (inputBuffer cn)" "content (inputBuffer cn) = []" and st: "state cn = kConnected \<longleftrightarrow> \<not> quit_in ms"
    and ok: "conn_ok interest p s" and t: "threadId s = tid E"
    and e: "wire s (socket_fd cn) @ content (outputBuffer cn) = echoed ms"
    and wsh: "socket_fd cn \<in> wshut s \<longleftrightarrow> quit_in ms \<and> content (outputBuffer cn) = []"
    using inv cn by (auto simp: echo_conn_def)
  have "Buffer_readFd readv (inputBuffer cn) \<noteq> Inr (-1, Some err, inputBuffer cn)" for err
    using rd(3) by (auto simp: Buffer_readFd_def Let_def bindR_eq_Inr split: if_splits)
  with readFd_ok [OF i(1) rd(1,2)] rd(3) i(2) obtain ib where
    ib: "Buffer_readFd readv (inputBuffer cn) = Inr (int (length d), None, ib)" "Buffer_inv ib" "content ib = d" by auto
  have len: "length d \<le> max_size" using length_content_max [OF ib(2)] ib(3) by simp
  from retrieveAsString_ok [OF ib(2), of "length d"] ib(3) obtain ob where
    ob: "Buffer_retrieveAllAsString ib = Inr (d, ob)" "Buffer_inv ob" "content ob = []"
    using readable_content [OF ib(2)] by (auto simp: Buffer_retrieveAllAsString_def)
  let ?cn = "cn\<lparr>inputBuffer := ob\<rparr>" let ?s = "set_conn p ?cn (set_conn p (cn\<lparr>inputBuffer := ib\<rparr>) s)"
  have ok2: "conn_ok interest p ?s"
    using conn_ok_input [OF conn_ok_input [OF ok cn, of ib], of "cn\<lparr>inputBuffer := ib\<rparr>" ob] by simp
  have r2: "bindR (TcpConnection_send E p d (wr p d) ?s) (\<lambda>s1. if is_quit d then TcpConnection_shutdown E p s1 else Inr s1) = Inr s'"
    using r ib(1) ob(1) cn rd(4) by (simp add: TcpConnection_handleRead_def EchoServer_app_def EchoServer_onMessage_def)
  show ?thesis
  proof (cases "state cn = kConnected")
    case True
    have c: "conns ?s p = Some ?cn" "threadId ?s = tid E" "state ?cn = kConnected" "socket_fd ?cn \<notin> wshut ?s"
      using t True wsh st by simp_all
    from echo_send [OF doc ok2 c(2,1,3,4) len w r2] ob(2,3) True st e show ?thesis
      by (auto simp: echo_conn_def echoed_snoc quit_in_snoc)
  next
    case False
    then have "s' = ?s" using r2 by (auto simp: TcpConnection_send_def TcpConnection_shutdown_def split: if_splits)
    then show ?thesis using ok2 t ob(2,3) st e wsh False by (auto simp: echo_conn_def echoed_snoc quit_in_snoc)
  qed
qed

text \<open>A failed read leaves the connection alone.\<close>

lemma echo_read_error:
  assumes inv: "echo_conn interest E p s ms" and cn: "conns s p = Some cn"
    and rd: "readv (readFd_iov (Buffer_writableBytes (inputBuffer cn))) = Inl err"
    and r: "TcpConnection_handleRead A E readv p ts s = Inr s'"
  shows "echo_conn interest E p s' ms"
proof -
  have "s' = set_conn p (cn\<lparr>inputBuffer := inputBuffer cn\<rparr>) s"
    using r rd cn by (simp add: TcpConnection_handleRead_def Buffer_readFd_def Let_def)
  then show ?thesis using inv cn conn_ok_input [of interest p s cn "inputBuffer cn"] by (auto simp: echo_conn_def)
qed

lemma echo_writable:
  assumes doc: "epoll_documented (epoll_ctl E) interest" and inv: "echo_conn interest E p s ms" and cn: "conns s p = Some cn"
    and w: "write_ok w (length (content (outputBuffer cn)))" and r: "TcpConnection_handleWrite E p w s = Inr s'"
  shows "echo_conn interest E p s' ms"
proof -
  let ?waiting = "content (outputBuffer cn)"
  have ok: "conn_ok interest p s" and t: "threadId s = tid E" and i: "Buffer_inv (inputBuffer cn)" "content (inputBuffer cn) = []"
    and st: "state cn = kConnected \<longleftrightarrow> \<not> quit_in ms" and e: "wire s (socket_fd cn) @ ?waiting = echoed ms"
    and wsh: "socket_fd cn \<in> wshut s \<longleftrightarrow> quit_in ms \<and> ?waiting = []"
    using inv cn by (auto simp: echo_conn_def)
  from handleWrite_ok [OF doc ok t cn w] r obtain cn' where 1: "conn_ok interest p s'" "out_stream p s' = out_stream p s"
    "conns s' = (conns s)(p \<mapsto> cn')" "same_input cn cn'" "threadId s' = threadId s"
    "wire s' = (wire s)(socket_fd cn := wire s (socket_fd cn) @ flushed w ?waiting)"
    "wshut s' = (if drains w ?waiting \<and> state cn = kDisconnecting then insert (socket_fd cn) (wshut s) else wshut s)" by auto
  have fl: "flushed w ?waiting @ content (outputBuffer cn') = ?waiting"
    using 1(2,3,4,6) cn by (simp add: out_stream_def)
  have dr: "content (outputBuffer cn') = [] \<longleftrightarrow> drains w ?waiting \<or> ?waiting = []"
    using fl w by (cases w) (auto simp: flushed_def drains_def write_ok_def)
  have kd: "state cn = kConnected \<or> state cn = kDisconnecting" using ok cn by (auto elim: conn_okE)
  have "socket_fd cn \<in> wshut s' \<longleftrightarrow> quit_in ms \<and> content (outputBuffer cn') = []"
    using 1(7) wsh dr kd st by auto
  moreover have "wire s' (socket_fd cn) @ content (outputBuffer cn') = echoed ms" using 1(6) fl e by simp
  ultimately show ?thesis using 1 t i st by (auto simp: echo_conn_def)
qed

section \<open>Histories\<close>

text \<open>
  A connection on its loop: readable events that deliver bytes or fail, and writable events.  The direct write of a
  reply does not find the peer gone.  The input buffer stays 64 KiB below the largest vector.
\<close>

inductive EchoServer_step :: "('k, 'e) env_scheme \<Rightarrow> nat \<Rightarrow> ('k, 'z) Net_scheme \<times> byte list list \<Rightarrow>
    ('k, 'z) Net_scheme \<times> byte list list \<Rightarrow> bool" for E p where
  Message: "conns s p = Some cn \<Longrightarrow> readv_bounded readv \<Longrightarrow> length (buffer (inputBuffer cn)) + extrabuf_size \<le> max_size \<Longrightarrow>
    readv (readFd_iov (Buffer_writableBytes (inputBuffer cn))) = Inr d \<Longrightarrow> d \<noteq> [] \<Longrightarrow>
    write_ok (wr p d) (length d) \<Longrightarrow> \<not> lost (wr p d) \<Longrightarrow>
    TcpConnection_handleRead (EchoServer_app E wr cl) E readv p ts s = Inr s' \<Longrightarrow> EchoServer_step E p (s, ms) (s', ms @ [d])"
| ReadError: "conns s p = Some cn \<Longrightarrow> readv (readFd_iov (Buffer_writableBytes (inputBuffer cn))) = Inl err \<Longrightarrow>
    TcpConnection_handleRead (EchoServer_app E wr cl) E readv p ts s = Inr s' \<Longrightarrow> EchoServer_step E p (s, ms) (s', ms)"
| Writable: "conns s p = Some cn \<Longrightarrow> write_ok w (length (content (outputBuffer cn))) \<Longrightarrow>
    TcpConnection_handleWrite E p w s = Inr s' \<Longrightarrow> EchoServer_step E p (s, ms) (s', ms)"

definition EchoServer_inv :: "('k \<Rightarrow> int \<rightharpoonup> ev \<times> nat) \<Rightarrow> ('k, 'e) env_scheme \<Rightarrow> nat \<Rightarrow> ('k, 'z) Net_scheme \<times> byte list list \<Rightarrow> bool" where
  "EchoServer_inv interest E p x \<longleftrightarrow> epoll_documented (epoll_ctl E) interest \<and> echo_conn interest E p (fst x) (snd x)"

text \<open>A connection that has just been established: nothing received, written or waiting.\<close>

definition EchoServer_init :: "('k \<Rightarrow> int \<rightharpoonup> ev \<times> nat) \<Rightarrow> ('k, 'e) env_scheme \<Rightarrow> nat \<Rightarrow> ('k, 'z) Net_scheme \<times> byte list list \<Rightarrow> bool" where
  "EchoServer_init interest E p x \<longleftrightarrow> snd x = [] \<and> epoll_documented (epoll_ctl E) interest \<and> conn_ok interest p (fst x) \<and>
     threadId (fst x) = tid E \<and> (\<exists>cn. conns (fst x) p = Some cn \<and> state cn = kConnected \<and>
       Buffer_inv (inputBuffer cn) \<and> content (inputBuffer cn) = [] \<and> content (outputBuffer cn) = [] \<and>
       wire (fst x) (socket_fd cn) = [] \<and> socket_fd cn \<notin> wshut (fst x))"

lemma EchoServer_inv_step: "EchoServer_step E p x y \<Longrightarrow> EchoServer_inv interest E p x \<Longrightarrow> EchoServer_inv interest E p y"
proof (induction rule: EchoServer_step.induct)
  case (Message s cn readv d wr cl ts s' ms)
  from Message.prems have "epoll_documented (epoll_ctl E) interest" "echo_conn interest E p s ms" by (simp_all add: EchoServer_inv_def)
  from echo_message [OF this Message.hyps] this show ?case by (simp add: EchoServer_inv_def)
next
  case (ReadError s cn readv err wr cl ts s' ms)
  from ReadError.prems have "epoll_documented (epoll_ctl E) interest" "echo_conn interest E p s ms" by (simp_all add: EchoServer_inv_def)
  from this echo_read_error [OF this(2) ReadError.hyps] show ?case by (simp add: EchoServer_inv_def)
next
  case (Writable s cn w s' ms)
  from Writable.prems have "epoll_documented (epoll_ctl E) interest" "echo_conn interest E p s ms" by (simp_all add: EchoServer_inv_def)
  from this echo_writable [OF this Writable.hyps] show ?case by (simp add: EchoServer_inv_def)
qed

lemma EchoServer_inv_init: "EchoServer_init interest E p x \<Longrightarrow> EchoServer_inv interest E p x"
  by (auto simp: EchoServer_init_def EchoServer_inv_def echo_conn_def quit_in_def)

interpretation echo_server_history: inductive_invariant "EchoServer_init interest E p" "EchoServer_step E p"
  "EchoServer_inv interest E p" for interest E p
  by unfold_locales (rule EchoServer_inv_init, assumption, rule EchoServer_inv_step)

section \<open>Properties\<close>

text \<open>
  C11: the echo server on the reactor echoes.  However the reads cut the stream and whatever the kernel takes of each
  write, the bytes written followed by those waiting are exactly the messages read, in order, up to and
  including the first read that is \<^verbatim>\<open>quit\<close> and a line end; later ones are dropped.  Nothing stays in the input
  buffer, and the write side is closed exactly when such a read has come and nothing waits any more.
\<close>

theorem EchoServer_echoes:
  assumes "reach (EchoServer_init interest E p) (EchoServer_step E p) (s, ms)"
  shows "\<exists>cn. conns s p = Some cn \<and> wire s (socket_fd cn) @ content (outputBuffer cn) = echoed ms \<and>
    content (inputBuffer cn) = [] \<and>
    (socket_fd cn \<in> wshut s \<longleftrightarrow> (\<exists>m \<in> set ms. is_quit m) \<and> content (outputBuffer cn) = [])"
proof -
  have "echo_conn interest E p s ms" using echo_server_history.reach_inv [OF assms] by (simp add: EchoServer_inv_def)
  then show ?thesis by (auto simp: echo_conn_def quit_in_def)
qed


text \<open>One byte arrives and is sent back at once.\<close>

definition one_byte :: readv_fun where
  "one_byte iov = Inr (if 1 \<le> sum_list iov then [65] else [])"

lemma sample_echo_init: "EchoServer_init (\<lambda>m. m) (man_env False) 1 (sample_net kConnected [], [])"
proof -
  have "conn_ok (\<lambda>m. m) 1 (sample_net kConnected [])" by (rule sample_net_ok) simp_all
  then show ?thesis
    by (simp add: EchoServer_init_def man_epoll_documented)
      (simp add: sample_net_defs content_def seg_def empty_buffer_def Buffer_inv_def kCheapPrepend_def max_size_def)
qed

lemma sample_echo_read:
  obtains s' where "TcpConnection_handleRead (EchoServer_app (man_env False) (\<lambda>p d. Wrote 1) (\<lambda>p. Inr))
      (man_env False) one_byte 1 (Timestamp 0) (sample_net kConnected []) = Inr s'"
proof -
  have i: "Buffer_inv empty_buffer" by (simp add: empty_buffer_def Buffer_inv_def kCheapPrepend_def max_size_def)
  have b: "readv_bounded one_byte" "length (buffer empty_buffer) + extrabuf_size \<le> max_size"
    by (simp_all add: readv_bounded_def one_byte_def empty_buffer_def extrabuf_size_def max_size_def)
  have rd: "one_byte (readFd_iov (Buffer_writableBytes empty_buffer)) = Inr [65]"
    by (simp add: one_byte_def readFd_iov_def extrabuf_size_def)
  then have "Buffer_readFd one_byte empty_buffer \<noteq> Inr (-1, Some err, empty_buffer)" for err
    by (auto simp: Buffer_readFd_def Let_def bindR_eq_Inr split: if_splits)
  moreover have "content empty_buffer = []" by (simp add: empty_buffer_def content_def seg_def)
  ultimately obtain ib where ib: "Buffer_readFd one_byte empty_buffer = Inr (1, None, ib)" "Buffer_inv ib" "content ib = [65]"
    using readFd_ok [OF i b] rd by (auto dest!: sym [of "[65]"])
  from retrieveAsString_ok [OF ib(2), of 1] ib(3) obtain ob where ob: "Buffer_retrieveAllAsString ib = Inr ([65], ob)"
    using readable_content [OF ib(2)] by (auto simp: Buffer_retrieveAllAsString_def)
  have "\<not> is_quit [65]" by (simp add: is_quit_def)
  moreover have "szsub (Suc 0) (Suc 0) = 0" "szsub 8 8 = 0" by (simp_all add: szsub_def size_mod_def)
  ultimately have "\<exists>s'. TcpConnection_handleRead (EchoServer_app (man_env False) (\<lambda>p d. Wrote 1) (\<lambda>p. Inr))
      (man_env False) one_byte 1 (Timestamp 0) (sample_net kConnected []) = Inr s'"
    using ib(1) ob
    by (simp add: TcpConnection_handleRead_def EchoServer_app_def EchoServer_onMessage_def TcpConnection_send_def
        TcpConnection_sendInLoop_def EventLoop_isInLoopThread_def EventLoop_assertInLoopThread_def sample_net_defs set_conn_def
        Channel_isWriting_def Channel_new_def read_not_write Buffer_readableBytes_def cassert_def Let_def)
  then show thesis using that by blast
qed

theorem EchoServer_echoes_witness:
  "\<exists>s cn. TcpConnection_handleRead (EchoServer_app (man_env False) (\<lambda>p d. Wrote 1) (\<lambda>p. Inr))
      (man_env False) one_byte 1 (Timestamp 0) (sample_net kConnected []) = Inr s \<and>
    conns s 1 = Some cn \<and> wire s (socket_fd cn) @ content (outputBuffer cn) = [65] \<and> socket_fd cn \<notin> wshut s"
proof -
  obtain s where s: "TcpConnection_handleRead (EchoServer_app (man_env False) (\<lambda>p d. Wrote 1) (\<lambda>p. Inr))
      (man_env False) one_byte 1 (Timestamp 0) (sample_net kConnected []) = Inr s" by (rule sample_echo_read)
  obtain cn where cn: "conns (sample_net kConnected []) 1 = Some cn" "inputBuffer cn = empty_buffer"
    by (simp add: sample_net_defs)
  have "EchoServer_step (man_env False) 1 (sample_net kConnected [], []) (s, [] @ [[65]])"
  proof (rule EchoServer_step.Message [where wr = "\<lambda>p d. Wrote 1", OF cn(1) _ _ _ _ _ _ s])
    show "readv_bounded one_byte" by (simp add: readv_bounded_def one_byte_def)
    show "length (buffer (inputBuffer cn)) + extrabuf_size \<le> max_size"
      by (simp add: cn(2) empty_buffer_def extrabuf_size_def max_size_def)
    show "one_byte (readFd_iov (Buffer_writableBytes (inputBuffer cn))) = Inr [65]"
      by (simp add: one_byte_def readFd_iov_def extrabuf_size_def)
  qed (simp_all add: write_ok_def lost_def)
  then have step: "EchoServer_step (man_env False) 1 (sample_net kConnected [], []) (s, [[65]])" by simp
  have "reach (EchoServer_init (\<lambda>m. m) (man_env False) 1) (EchoServer_step (man_env False) 1) (sample_net kConnected [], [])"
    by (rule reach_init) (rule sample_echo_init)
  then have "reach (EchoServer_init (\<lambda>m. m) (man_env False) 1) (EchoServer_step (man_env False) 1) (s, [[65]])"
    using step by (rule reach_step)
  from EchoServer_echoes [OF this] s show ?thesis by (auto simp: is_quit_def)
qed


end
