(* ===== verification/Spec2Isabelle.thy ===== *)
theory Spec2Isabelle
  imports Prelude Buffer Decimal Timestamp Logging Channel Poller EventLoop TimerQueue TcpConnection TcpServer
    MPMCQueue MPMCQueueV2 Socket Acceptor TaggedPointer HazardPointer LFMemoryPool Thread ThreadPool DynamicThreadPool LockFreeThreadPool BlockPool MemPool
    UringPoller EventLoopThread Coroutine CoroChannel
    CoroTcpConnection CoroTcpServer UringTcp UringTcpServer EchoServer
begin

text \<open>
  Verification of a network library in C++: a reactor on epoll with its buffers, timers, connections
  and servers, the same on coroutines and on io_uring, and the thread pools, lock-free structures
  and memory pools beneath them. This theory imports every other one and adds a lemma on the
  two kinds of connections of the reactor.

  \<^bold>\<open>The program.\<close> One event loop runs per thread. \<^verbatim>\<open>EventLoop::loop\<close> waits in \<^verbatim>\<open>EPollPoller\<close>, lets every
  active \<^verbatim>\<open>Channel\<close> call its callbacks, and then runs the functors that other threads queued. A
  \<^verbatim>\<open>TimerQueue\<close> and an eventfd are two more channels of the loop. A \<^verbatim>\<open>TcpServer\<close> accepts on its base loop
  through an \<^verbatim>\<open>Acceptor\<close> and gives each new \<^verbatim>\<open>TcpConnection\<close> to a loop of its \<^verbatim>\<open>EventLoopThreadPool\<close>; a
  connection moves bytes between its socket and its two \<^verbatim>\<open>Buffer\<close>s and calls the user. The directory
  \<^verbatim>\<open>coro/\<close> puts coroutines on that loop: a \<^verbatim>\<open>CoroScheduler\<close> holds handles to resume, a \<^verbatim>\<open>CoroChannel\<close> resumes
  the coroutine that waits for its descriptor, \<^verbatim>\<open>CoroTcpConnection\<close> and \<^verbatim>\<open>CoroTcpServer\<close> serve connections
  with a handler coroutine each. The directory \<^verbatim>\<open>io_uring/\<close> replaces the poller by submission and
  completion queues: an awaiter submits an operation and \<^verbatim>\<open>UringPoller\<close> resumes its coroutine when it
  has completed.

  \<^bold>\<open>How the model is built.\<close> Every class is a record with the members of the class, every member
  function a definition of the same name with the class before it, in the order of its source file.
  An operation that can stop (a failed assertion, an exception, \<^verbatim>\<open>abort\<close>, undefined behaviour) is a
  function into \<^verbatim>\<open>error + 'a\<close>, sequenced with \<^verbatim>\<open>bindR\<close>; \<^verbatim>\<open>ndebug E\<close> says whether assertions are compiled in,
  so a theorem can speak of both builds. Objects live in stores from addresses to values and reading
  a dead address is \<^verbatim>\<open>Undefined\<close>, so use after destruction is visible. States grow by record extension:
  \<^verbatim>\<open>EventLoop\<close> (with its channels and the kernel's \<^verbatim>\<open>epoll\<close> state) is extended by \<^verbatim>\<open>Net\<close> (connections), by
  \<^verbatim>\<open>CoroLoop\<close> and \<^verbatim>\<open>CoroNet\<close> (coroutines), by \<^verbatim>\<open>UringLoop\<close> (rings and contexts) and by \<^verbatim>\<open>Acceptor\<close> (sockets).
  What the sources do not define is a parameter: the system calls, the clock, the user's callbacks,
  the resumption of a coroutine, liburing, the rounding of floating-point numbers; laws they are
  known to obey are premises (\<^verbatim>\<open>epoll_documented\<close>, \<^verbatim>\<open>readv_bounded\<close>, \<^verbatim>\<open>write_ok\<close>, the locales \<^verbatim>\<open>listener\<close> and
  \<^verbatim>\<open>uring_ring\<close>), and each is shown to have a model. Threads are interleavings of atomic steps over
  sequentially consistent memory.

  \<^bold>\<open>Theories and sources.\<close>
  \<^item> \<^verbatim>\<open>Prelude\<close>: errors, \<^verbatim>\<open>size_t\<close> arithmetic with its wrap-around, contiguous memory, transition systems
    with the locale \<^verbatim>\<open>inductive_invariant\<close>. \<^verbatim>\<open>Decimal\<close>: the conversions of \<^verbatim>\<open>printf\<close> that the sources use.
  \<^item> \<^verbatim>\<open>Buffer\<close> (net/Buffer.h, .cpp): every operation; the invariant of reachable buffers; refinement of a
    queue of bytes, proved in the locale \<^verbatim>\<open>byte_stream\<close> and interpreted on the operations; reading from
    a descriptor.
  \<^item> \<^verbatim>\<open>Timestamp\<close>, \<^verbatim>\<open>Logging\<close> (base/): times as 64-bit integers and their text; the exact text of a log
    line, the global level and output functions.
  \<^item> \<^verbatim>\<open>Channel\<close>, \<^verbatim>\<open>Poller\<close>, \<^verbatim>\<open>EventLoop\<close>, \<^verbatim>\<open>TimerQueue\<close> (net/): dispatch of an event; agreement of the table of
    channels with the kernel's interest set in every history, except for the descriptors that a
    removal or a destruction has left registered; no lost wake-up and order of functors
    under every interleaving; the timer heap, its descriptor and cancellation; construction and
    destruction of a loop.
  \<^item> \<^verbatim>\<open>TcpConnection\<close>, \<^verbatim>\<open>TcpServer\<close>, \<^verbatim>\<open>Socket\<close>, \<^verbatim>\<open>Acceptor\<close> (net/) and \<^verbatim>\<open>EchoServer\<close> (examples/echo_server.cpp): the
    byte stream of a connection in every history of sends, writes and shutdown; graceful shutdown;
    the registry of a server; the pool of loops; accepting, also with no descriptor left; the echo
    server as the composition of all of these.
  \<^item> \<^verbatim>\<open>OutConnection\<close>: the contract of an output stream as the locale \<^verbatim>\<open>out_connection\<close>, interpreted on
    \<^verbatim>\<open>TcpConnection\<close> and \<^verbatim>\<open>CoroTcpConnection\<close>; its client is any history of sends and writable events.
  \<^item> \<^verbatim>\<open>Thread\<close>, \<^verbatim>\<open>EventLoopThread\<close>, \<^verbatim>\<open>ThreadPool\<close>, \<^verbatim>\<open>DynamicThreadPool\<close>, \<^verbatim>\<open>LockFreeThreadPool\<close> (base/,
    net/TcpServer.cpp, io_uring/UringEventLoopThread.h): life of threads; every interleaving of
    workers, producers and stop; no task lost or run twice, or the exact circumstances in which one
    is.
  \<^item> \<^verbatim>\<open>MPMCQueue\<close>, \<^verbatim>\<open>MPMCQueueV2\<close> (base/): the two bounded queues as instances of one locale \<^verbatim>\<open>mpmc\<close>; first in
    first out, nothing lost or repeated, progress of a thread that runs alone.
  \<^item> \<^verbatim>\<open>TaggedPointer\<close>, \<^verbatim>\<open>HazardPointer\<close>, \<^verbatim>\<open>LFMemoryPool\<close> (base/): packing of pointers; the lock-free stacks;
    safe reclamation; no block handed out twice or lost.
  \<^item> \<^verbatim>\<open>BlockPool\<close>, \<^verbatim>\<open>MemPool\<close> (pool/): pools of blocks of one size (locale \<^verbatim>\<open>blocks\<close>, interpreted for each of
    the five sizes of coroutine frames) and of several; allocated blocks are disjoint and inside
    their chunks, with the one failure of \<^verbatim>\<open>operator new\<close> after which \<^verbatim>\<open>MemPool\<close> hands out a block twice.
  \<^item> \<^verbatim>\<open>Coroutine\<close>, \<^verbatim>\<open>CoroChannel\<close>, \<^verbatim>\<open>CoroTcpConnection\<close>, \<^verbatim>\<open>CoroTcpServer\<close> (coro/, examples/coro_echo_server.cpp):
    frames and symmetric transfer, equivalent to calling directly; scheduler, awaiters and channels;
    connections owned by counted shared pointers; the coroutine echo server.
  \<^item> \<^verbatim>\<open>UringPoller\<close>, \<^verbatim>\<open>UringTcp\<close>, \<^verbatim>\<open>UringTcpServer\<close> (io_uring/): every context resumed once for each completed
    operation as long as the kernel reuses no completion slot that is still to be read, and no
    operation uncounted in any history, under the laws of liburing (locale \<^verbatim>\<open>uring_ring\<close>, interpreted on two
    rings that can be run); reading and sending whatever the sizes of the completions; the life of a connection over
    the queued functors that own it.

  \<^bold>\<open>What the lemmas show.\<close> In each theory a group of lemmas gives an operation's outcome on each branch
  (\<^verbatim>\<open>_ok\<close>, \<^verbatim>\<open>_cases\<close>), a second one its frame, and a third the preservation of the invariant by every
  step; the step relation with its invariant is an interpretation of \<^verbatim>\<open>inductive_invariant\<close>, and the
  properties, numbered C1 to C40 in their text blocks, follow from its fact \<^verbatim>\<open>reach_inv\<close>. Properties of
  kind error state how an operation fails on inputs its callers do give it: several describe defects
  of the program, such as a coroutine connection that cannot survive its peer's closing in a build
  with assertions. Witness theorems apply a property to a concrete state, so that no premise is
  empty.

  \<^bold>\<open>Bounds and fuel.\<close> The queues are covered for fewer than 2 ^ 63 enqueued items, so that no position
  wraps. The tagged free list is proved safe in histories of fewer than 2 ^ 16 pops, the number of
  versions. Hazard pointers serve 128 threads, a constant of the source. Buffers stay below the
  largest vector. Identifiers of connections are \<^verbatim>\<open>int\<close>s whose overflow is undefined and modelled as
  such. Recursions are structural or carry fuel: destroying a coroutine frame takes at most as many
  steps as frames were ever created (\<^verbatim>\<open>next_frame\<close>), which is the fuel it gets; the destructor of
  \<^verbatim>\<open>LFStack\<close> needs one more than the number of nodes (\<^verbatim>\<open>LFStack_destroy_ok\<close>). Loops that may run for ever
  are functions into an option, whose result \<^verbatim>\<open>None\<close> is the absence of a return, or relations.

  \<^bold>\<open>Not modelled.\<close> Weak memory orders; the text of log statements except for the logger itself, and the
  ones that \<^verbatim>\<open>abort\<close> only as \<^verbatim>\<open>Aborted\<close>; socket options; the text of floating-point numbers; copying and
  moving of handles except for tasks; setters and getters of single members (the callbacks that
  setters install are parameters); \<^verbatim>\<open>net/Callbacks.h\<close> and \<^verbatim>\<open>base/noncopyable.h\<close>, which declare no
  behaviour; the empty \<^verbatim>\<open>CoroTimerQueue\<close>; the destructor of \<^verbatim>\<open>UringPoller\<close>, a call of liburing; the \<^verbatim>\<open>main\<close>
  functions of the examples, which construct the parts and run the loop; the build files. Two
  simplifications of modelled parts: a task of \<^verbatim>\<open>ThreadPool\<close> does not call its \<^verbatim>\<open>run\<close>; and
  \<^verbatim>\<open>Channel::handleEvent\<close> ends before the owner it has locked is released, so the destruction of an owner
  that only this reference still holds is not part of the event.
\<close>

section \<open>The two kinds of connections\<close>

text \<open>
  The client of the contract of an output stream, on its two instances: the same messages sent over a connection of \<^verbatim>\<open>net/\<close> and one
  of \<^verbatim>\<open>coro/\<close>, by calls that neither fail nor lose their message to a closed peer, with partial writes and writable events
  in between.  What the kernel has taken followed by what waits is the same stream.
\<close>

lemma same_messages_same_stream:
  assumes "tcp_out_ok interest E p s" and "coro_out_ok q u" and "out_stream p s = cstream q u"
    and "run_conn (TcpConnection_send E p) (TcpConnection_handleWrite E p) tcp_can_send (tcp_can_flush p) as s = Some t"
    and "run_conn (coro_send E' a q) (coro_flush A E' q) coro_can_send (coro_can_flush q) bs u = Some v"
    and "sent_bytes bs = sent_bytes as"
  shows "out_stream p t = cstream q v"
  using tcp_out.run_stream [OF assms(4,1)] coro_out.run_stream [OF assms(5,2)] assms(3,6) by simp

end
